(* ===== verification/Prelude.thy ===== *)
theory Prelude
  imports Main "HOL-Library.Word" "HOL-Library.Monad_Syntax"
begin

text \<open>
  The vocabulary every component of the development shares.

  \<^item> Memory.  A C buffer is a list of bytes.  Every access goes through \<open>slice\<close> and
    \<open>blit\<close>, whose result is \<open>None\<close> when the access leaves the buffer.  In C such an
    access is undefined behaviour, so \<open>None\<close> as the result of a modelled function means
    that the code reads or writes outside its buffer; a theorem that a function never
    returns \<open>None\<close> is a memory-safety theorem.
  \<^item> Integers.  Unsigned integers are natural numbers, and the wrap-around at 32 and 64 bits
    is written out (\<open>u32\<close>, \<open>u64\<close>, \<open>sub32\<close>, \<open>and_not32\<close>).
  \<^item> Return codes.  A function that returns an \<open>int\<close> error code returns an \<open>int\<close> here,
    with the values of errno.h.
\<close>

unbundle bit_operations_syntax

named_theorems buf_simps
named_theorems wf_intros

section \<open>Bytes and little-endian integers\<close>

type_synonym byte = "8 word"
type_synonym buf = "byte list"

primrec le_of :: "byte list \<Rightarrow> nat" where
  "le_of [] = 0"
| "le_of (x # xs) = unat x + 256 * le_of xs"

primrec le_bytes :: "nat \<Rightarrow> nat \<Rightarrow> byte list" where
  "le_bytes 0 v = []"
| "le_bytes (Suc k) v = word_of_nat v # le_bytes k (v div 256)"

lemma length_le_bytes [simp]: "length (le_bytes k v) = k"
  by (induction k arbitrary: v) auto

lemma le_of_le_bytes [simp]: "le_of (le_bytes k v) = v mod 256 ^ k"
proof (induction k arbitrary: v)
  case (Suc k)
  have "v mod 256 + 256 * (v div 256 mod 256 ^ k) = v mod (256 * 256 ^ k)"
    by (simp add: mod_mult2_eq)
  with Suc show ?case by (simp add: unat_of_nat)
qed simp

lemma unat_byte_less [simp]: "unat (x :: byte) < 256"
  using unsigned_less [of x, where ?'a = nat] by simp

lemma le_of_less: "le_of xs < 256 ^ length xs"
proof (induction xs)
  case (Cons x xs)
  have "unat x < 256" by (rule unat_byte_less)
  moreover have "Suc (le_of xs) \<le> 256 ^ length xs" using Cons by simp
  then have "256 * Suc (le_of xs) \<le> 256 * 256 ^ length xs" by (rule mult_le_mono2)
  then have "256 + 256 * le_of xs \<le> 256 ^ length (x # xs)" by simp
  ultimately show ?case unfolding le_of.simps by linarith
qed simp

lemma le_bytes_le_of [simp]: "length xs = k \<Longrightarrow> le_bytes k (le_of xs) = xs"
proof (induction xs arbitrary: k)
  case (Cons x xs)
  have "unat x < 256" by (rule unat_byte_less)
  then have "(unat x + 256 * le_of xs) div 256 = le_of xs" by simp
  moreover have "(word_of_nat (unat x + 256 * le_of xs) :: byte) = x"
  proof -
    have "(256 :: byte) = 0" by simp
    then have "(256 :: byte) * word_of_nat (le_of xs) = 0" by (metis mult_zero_left)
    then show ?thesis by simp
  qed
  ultimately show ?case using Cons by auto
qed simp

lemma le_of_zeros: "le_of (replicate n 0) = 0"
  by (induction n) simp_all

lemma le_of_inject: "length xs = length ys \<Longrightarrow> le_of xs = le_of ys \<longleftrightarrow> xs = ys"
  by (metis le_bytes_le_of)

section \<open>Buffer accesses\<close>

definition slice :: "buf \<Rightarrow> nat \<Rightarrow> nat \<Rightarrow> buf option" where
  "slice b p n = (if p + n \<le> length b then Some (take n (drop p b)) else None)"

definition blit :: "buf \<Rightarrow> nat \<Rightarrow> buf \<Rightarrow> buf option" where
  "blit b p xs =
     (if p + length xs \<le> length b then Some (take p b @ xs @ drop (p + length xs) b) else None)"

definition memmove :: "buf \<Rightarrow> nat \<Rightarrow> nat \<Rightarrow> nat \<Rightarrow> buf option" where
  "memmove b dst src n = do { xs \<leftarrow> slice b src n; blit b dst xs }"

definition memset0 :: "buf \<Rightarrow> nat \<Rightarrow> nat \<Rightarrow> buf option" where
  "memset0 b p n = blit b p (replicate n 0)"

definition get_le :: "nat \<Rightarrow> buf \<Rightarrow> nat \<Rightarrow> nat option" where
  "get_le k b p = map_option le_of (slice b p k)"

definition put_le :: "nat \<Rightarrow> buf \<Rightarrow> nat \<Rightarrow> nat \<Rightarrow> buf option" where
  "put_le k b p v = blit b p (le_bytes k v)"

definition get8 :: "buf \<Rightarrow> nat \<Rightarrow> nat option" where
  "get8 b p = get_le 1 b p"

definition put8 :: "buf \<Rightarrow> nat \<Rightarrow> nat \<Rightarrow> buf option" where
  "put8 b p v = put_le 1 b p v"

lemma slice_eq_Some [buf_simps]:
  "slice b p n = Some xs \<longleftrightarrow> p + n \<le> length b \<and> xs = take n (drop p b)"
  by (auto simp: slice_def)

lemma slice_eq_None [buf_simps]: "slice b p n = None \<longleftrightarrow> length b < p + n"
  by (auto simp: slice_def)

lemma length_slice: "slice b p n = Some xs \<Longrightarrow> length xs = n"
  by (auto simp: slice_def split: if_splits)

lemma blit_eq_None [buf_simps]: "blit b p xs = None \<longleftrightarrow> length b < p + length xs"
  by (auto simp: blit_def)

lemma length_blit: "blit b p xs = Some b' \<Longrightarrow> length b' = length b"
  by (auto simp: blit_def split: if_splits)

lemma blit_bound: "blit b p xs = Some b' \<Longrightarrow> p + length xs \<le> length b"
  by (auto simp: blit_def split: if_splits)

lemma blit_ok: "p + length xs \<le> length b \<Longrightarrow> \<exists>b'. blit b p xs = Some b'"
  by (simp add: blit_def)

lemma nth_blit:
  assumes "blit b p xs = Some b'" "i < length b"
  shows "b' ! i = (if p \<le> i \<and> i < p + length xs then xs ! (i - p) else b ! i)"
  using assms by (auto simp: blit_def nth_append min_def split: if_splits)

lemma slice_blit_same:
  assumes "blit b p xs = Some b'" "n = length xs"
  shows "slice b' p n = Some xs"
  using assms by (auto simp: blit_def slice_def split: if_splits)

lemma slice_blit_other:
  assumes "blit b p xs = Some b'" "q + n \<le> p \<or> p + length xs \<le> q"
  shows "slice b' q n = slice b q n"
proof (cases "q + n \<le> length b")
  case True
  have "take n (drop q b') = take n (drop q b)"
    using assms True length_blit [OF assms(1)]
    by (intro nth_equalityI) (auto simp: nth_blit)
  with True show ?thesis by (simp add: slice_def length_blit [OF assms(1)])
next
  case False
  then show ?thesis by (simp add: slice_def length_blit [OF assms(1)])
qed

lemma slice_slice:
  assumes "slice b p m = Some xs" "q + n \<le> m"
  shows "slice xs q n = slice b (p + q) n"
  using assms by (auto simp: slice_def add.commute drop_take min_def split: if_splits)

lemma slice_blit_inside:
  assumes "blit b p xs = Some b'" "p \<le> q" "q + n \<le> p + length xs"
  shows "slice b' q n = slice xs (q - p) n"
proof -
  have "slice b' (p + (q - p)) n = slice xs (q - p) n"
    using assms(2,3) slice_slice [OF slice_blit_same [OF assms(1) refl], of "q - p" n] by simp
  with assms(2) show ?thesis by simp
qed

lemma blit_slice_id: "slice b p n = Some xs \<Longrightarrow> blit b p xs = Some b"
  by (auto simp: slice_def blit_def split: if_splits) (metis add.commute append_take_drop_id drop_drop)

lemma slice_append: "slice m p (length xs + length ys) = Some (xs @ ys) \<longleftrightarrow>
    slice m p (length xs) = Some xs \<and> slice m (p + length xs) (length ys) = Some ys"
  by (auto simp: slice_def take_add add.commute add.left_commute intro: nth_equalityI)

lemma get_le_eq_None [buf_simps]: "get_le k b p = None \<longleftrightarrow> length b < p + k"
  by (simp add: get_le_def buf_simps)

lemma get_le_ok: "p + k \<le> length b \<Longrightarrow> \<exists>v. get_le k b p = Some v"
  by (simp add: get_le_def slice_def)

lemma get_le_bound: "get_le k b p = Some v \<Longrightarrow> p + k \<le> length b"
  by (auto simp: get_le_def slice_def split: if_splits)

lemma get_le_less: "get_le k b p = Some v \<Longrightarrow> v < 256 ^ k"
proof -
  assume v: "get_le k b p = Some v"
  then have "length (take k (drop p b)) = k" using get_le_bound by fastforce
  with v le_of_less [of "take k (drop p b)"] show ?thesis
    by (auto simp: get_le_def slice_def split: if_splits)
qed

lemma get8_nth: "p < length m \<Longrightarrow> get8 m p = Some (unat (m ! p))"
  by (simp add: get8_def get_le_def slice_def Cons_nth_drop_Suc [symmetric])

lemma put_le_eq_None [buf_simps]: "put_le k b p v = None \<longleftrightarrow> length b < p + k"
  by (simp add: put_le_def buf_simps)

lemma put_le_ok: "p + k \<le> length b \<Longrightarrow> \<exists>b'. put_le k b p v = Some b'"
  by (simp add: put_le_def blit_def)

lemma put_le_bound: "put_le k b p v = Some b' \<Longrightarrow> p + k \<le> length b"
  by (auto simp: put_le_def dest: blit_bound)

lemma length_put_le [buf_simps]: "put_le k b p v = Some b' \<Longrightarrow> length b' = length b"
  by (auto simp: put_le_def dest: length_blit)

lemma get_put_le_same: "put_le k b p v = Some b' \<Longrightarrow> get_le k b' p = Some (v mod 256 ^ k)"
  by (simp add: put_le_def get_le_def slice_blit_same)

lemma get_put_le_other:
  "put_le k b p v = Some b' \<Longrightarrow> q + m \<le> p \<or> p + k \<le> q \<Longrightarrow> get_le m b' q = get_le m b q"
  by (simp add: put_le_def get_le_def slice_blit_other)

lemma get_blit_other:
  "blit b p xs = Some b' \<Longrightarrow> q + m \<le> p \<or> p + length xs \<le> q \<Longrightarrow> get_le m b' q = get_le m b q"
  by (simp add: get_le_def slice_blit_other)

lemma put_get_le_id: "get_le k b p = Some v \<Longrightarrow> put_le k b p v = Some b"
  by (auto simp: get_le_def put_le_def length_slice dest: blit_slice_id)

lemma length_memmove: "memmove b d s n = Some b' \<Longrightarrow> length b' = length b"
  by (auto simp: memmove_def bind_eq_Some_conv dest: length_blit)

lemma memmove_eq_None [buf_simps]:
  "memmove b d s n = None \<longleftrightarrow> length b < s + n \<or> length b < d + n"
  by (auto simp: memmove_def slice_def buf_simps bind_eq_None_conv)

lemma length_memset0: "memset0 b p n = Some b' \<Longrightarrow> length b' = length b"
  by (auto simp: memset0_def dest: length_blit)

section \<open>Fixed-width arithmetic\<close>

definition u16 :: "nat \<Rightarrow> nat" where
  "u16 x = x mod 65536"

definition u32 :: "nat \<Rightarrow> nat" where
  "u32 x = x mod 4294967296"

definition u64 :: "nat \<Rightarrow> nat" where
  "u64 x = x mod 18446744073709551616"

definition sub32 :: "nat \<Rightarrow> nat \<Rightarrow> nat" where
  "sub32 a b = u32 (a + 4294967296 - b)"

definition sub64 :: "nat \<Rightarrow> nat \<Rightarrow> nat" where
  "sub64 a b = u64 (a + 18446744073709551616 - b)"

text \<open>\<open>x & ~m\<close> on \<open>uint32_t\<close>.\<close>

definition and_not32 :: "nat \<Rightarrow> nat \<Rightarrow> nat" where
  "and_not32 x m = x AND (4294967295 - m)"

lemma u16_less [simp]: "u16 x < 65536" by (simp add: u16_def)
lemma u32_less [simp]: "u32 x < 4294967296" by (simp add: u32_def)
lemma u64_less [simp]: "u64 x < 18446744073709551616" by (simp add: u64_def)
lemma u16_id [simp]: "x < 65536 \<Longrightarrow> u16 x = x" by (simp add: u16_def)
lemma u32_id [simp]: "x < 4294967296 \<Longrightarrow> u32 x = x" by (simp add: u32_def)
lemma u64_id [simp]: "x < 18446744073709551616 \<Longrightarrow> u64 x = x" by (simp add: u64_def)

lemma sub32_id [simp]: "b \<le> a \<Longrightarrow> a < 4294967296 \<Longrightarrow> sub32 a b = a - b"
proof -
  assume "b \<le> a" "a < 4294967296"
  then have "a + 4294967296 - b = (a - b) + 4294967296" "a - b < 4294967296" by linarith+
  then show ?thesis by (simp add: sub32_def u32_def del: Nat.add_diff_assoc2)
qed

lemma sub64_id [simp]: "b \<le> a \<Longrightarrow> a < 18446744073709551616 \<Longrightarrow> sub64 a b = a - b"
proof -
  assume "b \<le> a" "a < 18446744073709551616"
  then have "a + 18446744073709551616 - b = (a - b) + 18446744073709551616" "a - b < 18446744073709551616" by linarith+
  then show ?thesis by (simp add: sub64_def u64_def del: Nat.add_diff_assoc2)
qed

lemma nat_and_mask_low: "x AND (2 ^ k - 1) = x mod 2 ^ k" for x :: nat
  by (metis mask_eq_exp_minus_1 take_bit_eq_mask take_bit_eq_mod)

lemma and_not32_pow2:
  assumes "k \<le> 32" "x < 4294967296"
  shows "and_not32 x (2 ^ k - 1) = x - x mod 2 ^ k"
proof -
  have x: "take_bit 32 x = x" using assms(2) by (simp add: take_bit_nat_eq_self)
  have "4294967295 - (2 ^ k - 1) = (push_bit k (mask (32 - k)) :: nat)"
  proof -
    have "(2 :: nat) ^ k * 2 ^ (32 - k) = 2 ^ 32" using assms(1) by (simp flip: power_add)
    then show ?thesis
      by (simp add: push_bit_eq_mult mask_eq_exp_minus_1 algebra_simps)
  qed
  then have "and_not32 x (2 ^ k - 1) = x AND push_bit k (mask (32 - k))"
    by (simp only: and_not32_def)
  also have "\<dots> = push_bit k (drop_bit k x)"
  proof (rule bit_eqI)
    fix n
    have "bit x n \<Longrightarrow> n < 32"
      using x by (metis bit_take_bit_iff)
    then show "bit (x AND push_bit k (mask (32 - k))) n \<longleftrightarrow> bit (push_bit k (drop_bit k x)) n"
      by (auto simp: bit_simps)
  qed
  also have "\<dots> = x - x mod 2 ^ k"
    by (simp add: push_bit_eq_mult drop_bit_eq_div minus_mod_eq_div_mult)
  finally show ?thesis .
qed

lemma and_not32_le: "and_not32 x m \<le> x"
proof -
  have "int (x AND (4294967295 - m)) \<le> int x"
    unfolding of_nat_and_eq by (rule AND_upper1) simp
  then show ?thesis by (simp add: and_not32_def)
qed

section \<open>Error codes\<close>

abbreviation (input) ENOENT :: int where "ENOENT \<equiv> 2"
abbreviation (input) EIO :: int where "EIO \<equiv> 5"
abbreviation (input) E2BIG :: int where "E2BIG \<equiv> 7"
abbreviation (input) ENOMEM :: int where "ENOMEM \<equiv> 12"
abbreviation (input) EINVAL :: int where "EINVAL \<equiv> 22"
abbreviation (input) ENOTSUP :: int where "ENOTSUP \<equiv> 45"

text \<open>\<open>err < 0 ? err : -EIO\<close>, applied to the non-zero result of an I/O callback.\<close>

definition io_err :: "int \<Rightarrow> int" where
  "io_err e = (if e < 0 then e else - EIO)"

lemma io_err_neg [simp]: "io_err e < 0"
  by (simp add: io_err_def)

lemma io_err_nz [simp]: "io_err e \<noteq> 0"
  by (simp add: io_err_def)

end
