(* ===== verification/Unicode.thy ===== *)
theory Unicode
  imports Prelude
begin

text \<open>
  Conversion between UTF-8 and UTF-16 (platform/src/unicode.c), through which every file name of
  the driver passes, and the two name converters of core/ntfs/unistr.c that call it.

  Bytes and 16-bit units are natural numbers.  An input buffer is the list of exactly the bytes or
  units it has (\<open>inlen\<close> is its length); reading past it is \<open>None\<close>.  An output buffer is what has
  been written, and \<open>maxout\<close> what is left.
\<close>

section \<open>Code points and UTF-8 sequences\<close>

abbreviation (input) UNICODE_MAX :: nat where "UNICODE_MAX \<equiv> 0x10ffff"
abbreviation (input) PLANE_SIZE :: nat where "PLANE_SIZE \<equiv> 0x10000"
abbreviation (input) SURROGATE_MASK :: nat where "SURROGATE_MASK \<equiv> 0xfffff800"
abbreviation (input) SURROGATE_PAIR :: nat where "SURROGATE_PAIR \<equiv> 0xd800"
abbreviation (input) SURROGATE_LOW :: nat where "SURROGATE_LOW \<equiv> 0x400"
abbreviation (input) SURROGATE_BITS :: nat where "SURROGATE_BITS \<equiv> 0x3ff"

record utf8_row =
  cmask :: nat
  cval :: nat
  shift :: nat
  lmask :: nat
  lval :: nat

definition utf8_table :: "utf8_row list" where
  "utf8_table =
     [\<lparr>cmask = 0x80, cval = 0x00, shift = 0, lmask = 0x7F, lval = 0\<rparr>,
      \<lparr>cmask = 0xE0, cval = 0xC0, shift = 6, lmask = 0x7FF, lval = 0x80\<rparr>,
      \<lparr>cmask = 0xF0, cval = 0xE0, shift = 12, lmask = 0xFFFF, lval = 0x800\<rparr>,
      \<lparr>cmask = 0xF8, cval = 0xF0, shift = 18, lmask = 0x1FFFFF, lval = 0x10000\<rparr>,
      \<lparr>cmask = 0xFC, cval = 0xF8, shift = 24, lmask = 0x3FFFFFF, lval = 0x200000\<rparr>,
      \<lparr>cmask = 0xFE, cval = 0xFC, shift = 30, lmask = 0x7FFFFFFF, lval = 0x4000000\<rparr>]"

text \<open>The loop over the table; the result is the code point and the number of bytes, or -1.\<close>

fun utf8_loop :: "utf8_row list \<Rightarrow> nat list \<Rightarrow> nat \<Rightarrow> nat \<Rightarrow> nat \<Rightarrow> (int + nat \<times> nat) option" where
  "utf8_loop [] s c0 l nc = Some (Inl (- 1))"
| "utf8_loop (t # ts) s c0 l nc =
     (let nc = nc + 1 in
      if c0 AND cmask t = cval t then
        (let l = l AND lmask t in
         if l < lval t \<or> l > UNICODE_MAX \<or> l AND SURROGATE_MASK = SURROGATE_PAIR then Some (Inl (- 1))
         else Some (Inr (l, nc)))
      else if length s \<le> nc then Some (Inl (- 1))
      else
        (let c = (s ! nc XOR 0x80) AND 0xFF in
         if c AND 0xC0 \<noteq> 0 then Some (Inl (- 1))
         else utf8_loop ts s c0 ((l * 64) OR c) nc))"

definition utf8_to_utf32 :: "nat list \<Rightarrow> (int + nat \<times> nat) option" where
  "utf8_to_utf32 s = (case s of [] \<Rightarrow> None | c0 # _ \<Rightarrow> utf8_loop utf8_table s c0 c0 0)"

text \<open>The continuation bytes of a code point, from shift \<open>c\<close> down.\<close>

function utf8_tail :: "nat \<Rightarrow> nat \<Rightarrow> nat list" where
  "utf8_tail l c = (if c > 0 then (0x80 OR ((l div 2 ^ (c - 6)) AND 0x3F)) mod 256 # utf8_tail l (c - 6) else [])"
  by pat_completeness auto
termination
  by (relation "measure snd") auto

declare utf8_tail.simps [simp del]

fun utf8_put :: "utf8_row list \<Rightarrow> nat \<Rightarrow> nat \<Rightarrow> int + nat list" where
  "utf8_put [] l maxout = Inl (- 1)"
| "utf8_put (t # ts) l maxout =
     (if maxout = 0 then Inl (- 1)
      else if l \<le> lmask t then Inr ((cval t OR (l div 2 ^ shift t)) mod 256 # utf8_tail l (shift t))
      else utf8_put ts l (maxout - 1))"

definition utf32_to_utf8 :: "nat \<Rightarrow> nat \<Rightarrow> int + nat list" where
  "utf32_to_utf8 u maxout =
     (if u > UNICODE_MAX \<or> u AND SURROGATE_MASK = SURROGATE_PAIR then Inl (- 1)
      else utf8_put utf8_table u maxout)"

section \<open>Strings\<close>

datatype utf16_endian = UTF16_HOST_ENDIAN | UTF16_LITTLE_ENDIAN | UTF16_BIG_ENDIAN

definition bswap16 :: "nat \<Rightarrow> nat" where
  "bswap16 x = (x mod 256) * 256 + (x div 256) mod 256"

text \<open>The unit written for a value, and read back, on a little-endian host.\<close>

definition put_utf16 :: "nat \<Rightarrow> utf16_endian \<Rightarrow> nat" where
  "put_utf16 c endian = (case endian of UTF16_BIG_ENDIAN \<Rightarrow> bswap16 (u16 c) | _ \<Rightarrow> u16 c)"

definition get_utf16 :: "nat \<Rightarrow> utf16_endian \<Rightarrow> nat" where
  "get_utf16 c endian = (case endian of UTF16_BIG_ENDIAN \<Rightarrow> bswap16 (u16 c) | _ \<Rightarrow> c)"

lemma utf8_loop_len: "utf8_loop ts s c0 l nc = Some (Inr (u, n)) \<Longrightarrow> nc < n \<and> (nc < length s \<longrightarrow> n \<le> length s)"
  by (induction ts arbitrary: l nc) (auto simp: Let_def split: if_splits, fastforce+)

lemma utf8_to_utf32_len: "utf8_to_utf32 s = Some (Inr (u, n)) \<Longrightarrow> 0 < n \<and> n \<le> length s"
  using utf8_loop_len [of utf8_table s _ _ 0 u n] by (auto simp: utf8_to_utf32_def split: list.splits)

text \<open>\<open>utf8s_to_utf16s\<close>: \<open>Inl\<close> the error, \<open>Inr\<close> the units written.\<close>

function utf8s_to_utf16s :: "nat list \<Rightarrow> utf16_endian \<Rightarrow> nat \<Rightarrow> (int + nat list) option" where
  "utf8s_to_utf16s s endian maxout =
     (case s of [] \<Rightarrow> Some (Inr [])
      | c # cs \<Rightarrow>
        if maxout = 0 \<or> c = 0 then Some (Inr [])
        else if c AND 0x80 \<noteq> 0 then
          (case utf8_to_utf32 s of
             None \<Rightarrow> None
           | Some (Inl _) \<Rightarrow> Some (Inl (- EINVAL))
           | Some (Inr (u, n)) \<Rightarrow>
               if u \<ge> PLANE_SIZE then
                 (if maxout < 2 then Some (Inr [])
                  else
                    (let u = u - PLANE_SIZE in
                     map_option (map_sum id (\<lambda>r. put_utf16 (SURROGATE_PAIR OR ((u div 1024) AND SURROGATE_BITS)) endian #
                         put_utf16 (SURROGATE_PAIR OR SURROGATE_LOW OR (u AND SURROGATE_BITS)) endian # r))
                       (utf8s_to_utf16s (drop n s) endian (maxout - 2))))
               else map_option (map_sum id (Cons (put_utf16 u endian))) (utf8s_to_utf16s (drop n s) endian (maxout - 1)))
        else map_option (map_sum id (Cons (put_utf16 c endian))) (utf8s_to_utf16s cs endian (maxout - 1)))"
  by pat_completeness auto
termination
  by (relation "measure (\<lambda>(s, e, m). length s)") (auto dest: utf8_to_utf32_len)

declare utf8s_to_utf16s.simps [simp del]

text \<open>\<open>utf16s_to_utf8s\<close>: the bytes written.\<close>

definition is_surrogate :: "nat \<Rightarrow> bool" where
  "is_surrogate u \<longleftrightarrow> u AND SURROGATE_MASK = SURROGATE_PAIR"

definition emit_utf8 :: "nat \<Rightarrow> nat \<Rightarrow> nat list" where
  "emit_utf8 u maxout = (case utf32_to_utf8 u maxout of Inl _ \<Rightarrow> [] | Inr bs \<Rightarrow> bs)"

function utf16s_to_utf8s :: "nat list \<Rightarrow> utf16_endian \<Rightarrow> nat \<Rightarrow> nat list" where
  "utf16s_to_utf8s ws endian maxout =
     (case ws of [] \<Rightarrow> []
      | w # rest \<Rightarrow>
        (let u = get_utf16 w endian in
         if maxout = 0 \<or> u = 0 then []
         else if u > 0x7f then
           (if is_surrogate u then
              (if u AND SURROGATE_LOW \<noteq> 0 then utf16s_to_utf8s rest endian maxout
               else (case rest of [] \<Rightarrow> []
                 | w' # rest' \<Rightarrow>
                   (let v = get_utf16 w' endian in
                    if \<not> is_surrogate v \<or> v AND SURROGATE_LOW = 0 then utf16s_to_utf8s rest endian maxout
                    else
                      (let bs = emit_utf8 (PLANE_SIZE + (u AND SURROGATE_BITS) * 1024 + (v AND SURROGATE_BITS)) maxout
                       in bs @ utf16s_to_utf8s rest' endian (maxout - length bs)))))
            else (let bs = emit_utf8 u maxout in bs @ utf16s_to_utf8s rest endian (maxout - length bs)))
         else u # utf16s_to_utf8s rest endian (maxout - 1)))"
  by pat_completeness auto
termination
  by (relation "measure (\<lambda>(s, e, m). length s)") auto

declare utf16s_to_utf8s.simps [simp del]

section \<open>The NLS table\<close>

abbreviation (input) ENAMETOOLONG :: int where "ENAMETOOLONG \<equiv> 63"
abbreviation (input) EILSEQ :: int where "EILSEQ \<equiv> 92"
abbreviation (input) NTFS_MAX_NAME_LEN :: nat where "NTFS_MAX_NAME_LEN \<equiv> 255"
abbreviation (input) NLS_MAX_CHARSET_SIZE :: nat where "NLS_MAX_CHARSET_SIZE \<equiv> 6"

text \<open>The return value with the bytes (\<open>utf8_uni2char\<close>) or the unit (\<open>utf8_char2uni\<close>) written.\<close>

definition utf8_uni2char :: "nat \<Rightarrow> int \<Rightarrow> int \<times> nat list" where
  "utf8_uni2char uni boundlen =
     (if boundlen \<le> 0 then (- ENAMETOOLONG, [])
      else case utf32_to_utf8 uni (nat boundlen) of
        Inl _ \<Rightarrow> (- EINVAL, [63])
      | Inr bs \<Rightarrow> (int (length bs), bs))"

definition utf8_char2uni :: "nat list \<Rightarrow> (int \<times> nat) option" where
  "utf8_char2uni s = (case utf8_to_utf32 s of
       None \<Rightarrow> None
     | Some (Inl _) \<Rightarrow> Some (- EINVAL, 63)
     | Some (Inr (u, n)) \<Rightarrow> Some (if u > 0xffff then (- EINVAL, 63) else (int n, u)))"

section \<open>Names\<close>

text \<open>
  \<open>ntfs_nlstoucs\<close> and \<open>ntfs_ucstonls\<close> (unistr.c).  The result is \<open>Inl\<close> the error or \<open>Inr\<close> the
  converted name, whose length is the return value.
\<close>

function nlstoucs_loop :: "nat list \<Rightarrow> nat \<Rightarrow> nat \<Rightarrow> (int + nat list) option" where
  "nlstoucs_loop s o1 max_name_len =
     (if s = [] then Some (Inr [])
      else case utf8_char2uni s of
        None \<Rightarrow> None
      | Some (wc_len, wc) \<Rightarrow>
          if wc_len \<ge> 0 \<and> o1 < max_name_len then
            (if wc \<noteq> 0 then
               (if wc_len = 0 then None
                else map_option (map_sum id (Cons (u16 wc))) (nlstoucs_loop (drop (nat wc_len) s) (o1 + 1) max_name_len))
             else Some (Inr []))
          else Some (Inl (if wc_len < 0 then - EILSEQ else - ENAMETOOLONG)))"
  by pat_completeness auto
termination
  by (relation "measure (\<lambda>(s, i, m). length s)") auto

declare nlstoucs_loop.simps [simp del]

definition ntfs_nlstoucs :: "bool \<Rightarrow> nat list option \<Rightarrow> nat \<Rightarrow> (int + nat list) option" where
  "ntfs_nlstoucs nls_utf8 ins max_name_len = (case ins of
     None \<Rightarrow> Some (Inl (- EINVAL))
   | Some s \<Rightarrow>
       if nls_utf8 then
         (case utf8s_to_utf16s s UTF16_LITTLE_ENDIAN (max_name_len + 2) of
            None \<Rightarrow> None
          | Some (Inl _) \<Rightarrow> Some (Inl (- EILSEQ))
          | Some (Inr ucs) \<Rightarrow> Some (if length ucs > max_name_len then Inl (- ENAMETOOLONG) else Inr ucs))
       else nlstoucs_loop s 0 max_name_len)"

text \<open>
  One unit of the loop of \<open>ntfs_ucstonls\<close>, with its retry: the buffer that the function has
  allocated itself grows in steps of 64 bytes.  The result is the return value of \<open>uni2char\<close>, the
  bytes and the buffer size.
\<close>

partial_function (option) ucstonls_unit :: "bool \<Rightarrow> nat \<Rightarrow> nat \<Rightarrow> nat \<Rightarrow> (int \<times> nat list \<times> nat) option" where
  "ucstonls_unit own w o1 ns_len =
     (let r = utf8_uni2char w (int ns_len - int o1)
      in if fst r = - ENAMETOOLONG \<and> own then ucstonls_unit own w o1 (((ns_len + 64) div 64) * 64 - 1)
         else Some (fst r, snd r, ns_len))"

fun ucstonls_loop :: "bool \<Rightarrow> nat list \<Rightarrow> nat \<Rightarrow> nat \<Rightarrow> (int + nat list) option" where
  "ucstonls_loop own [] o1 ns_len = Some (Inr [])"
| "ucstonls_loop own (w # ws) o1 ns_len = do {
     (wc, bs, ns_len) \<leftarrow> ucstonls_unit own w o1 ns_len;
     if wc > 0 then do { r \<leftarrow> ucstonls_loop own ws (o1 + nat wc) ns_len; Some (map_sum id ((@) bs) r) }
     else if wc = 0 then Some (Inr [])
     else Some (Inl (if wc = - ENAMETOOLONG then wc else - EILSEQ)) }"

text \<open>\<open>outs\<close> is the size of the buffer the caller has passed, \<open>None\<close> if it passed none.\<close>

definition ntfs_ucstonls :: "bool \<Rightarrow> nat list option \<Rightarrow> nat option \<Rightarrow> (int + nat list) option" where
  "ntfs_ucstonls nls_utf8 ins outs = (case ins of
     None \<Rightarrow> Some (Inl (- EINVAL))
   | Some ws \<Rightarrow>
       if outs = Some 0 then Some (Inl (- ENAMETOOLONG))
       else
         (let ns_len = (case outs of Some n \<Rightarrow> n | None \<Rightarrow> length ws * NLS_MAX_CHARSET_SIZE)
          in if nls_utf8 then
               (let bs = utf16s_to_utf8s ws UTF16_LITTLE_ENDIAN ns_len
                in Some (if length bs \<ge> ns_len then Inl (- ENAMETOOLONG) else Inr bs))
             else ucstonls_loop (outs = None) ws 0 ns_len))"

section \<open>The bit tests in arithmetic\<close>

lemma or_low: "c < 2 ^ k \<Longrightarrow> (l * 2 ^ k) OR c = l * 2 ^ k + c" for c l :: nat
proof -
  assume "c < 2 ^ k"
  then have c: "take_bit k c = c" by (simp add: take_bit_nat_eq_self)
  have "push_bit k l AND take_bit k c = 0" by (rule bit_eqI) (simp add: bit_simps)
  then have "push_bit k l OR c = push_bit k l + c" unfolding c by (simp add: disjunctive_add_eq_or)
  then show ?thesis by (simp add: push_bit_eq_mult)
qed

lemmas or64 = or_low [of _ 6, simplified]

lemma high_mask: "u < 4294967296 \<Longrightarrow> k \<le> 32 \<Longrightarrow> u AND (4294967295 - (2 ^ k - 1)) = 2 ^ k * (u div 2 ^ k)" for u :: nat
  using and_not32_pow2 [of k u] by (simp add: and_not32_def minus_mod_eq_mult_div)

lemma byte_mask:
  assumes "(c :: nat) < 256"
  shows "c AND 0x80 = 128 * (c div 128)" "c AND 0xC0 = 64 * (c div 64)" "c AND 0xE0 = 32 * (c div 32)" "c AND 0xF0 = 16 * (c div 16)"
    "c AND 0xF8 = 8 * (c div 8)" "c AND 0xFC = 4 * (c div 4)" "c AND 0xFE = 2 * (c div 2)" "c AND 0xFF = c"
proof -
  have c: "c AND 255 = c" using nat_and_mask_low [of c 8] assms by simp
  have m: "c AND (255 AND m) = c AND m" for m by (metis and.assoc c)
  show "c AND 0x80 = 128 * (c div 128)" using m [of "0xffffff80"] high_mask [of c 7] assms by simp
  show "c AND 0xC0 = 64 * (c div 64)" using m [of "0xffffffC0"] high_mask [of c 6] assms by simp
  show "c AND 0xE0 = 32 * (c div 32)" using m [of "0xffffffE0"] high_mask [of c 5] assms by simp
  show "c AND 0xF0 = 16 * (c div 16)" using m [of "0xffffffF0"] high_mask [of c 4] assms by simp
  show "c AND 0xF8 = 8 * (c div 8)" using m [of "0xffffffF8"] high_mask [of c 3] assms by simp
  show "c AND 0xFC = 4 * (c div 4)" using m [of "0xffffffFC"] high_mask [of c 2] assms by simp
  show "c AND 0xFE = 2 * (c div 2)" using m [of "0xffffffFE"] high_mask [of c 1] assms by simp
  show "c AND 0xFF = c" by (rule c)
qed

lemma div_block: "0 < n \<Longrightarrow> n * (c div n) = n * k \<longleftrightarrow> n * k \<le> c \<and> c < n * (k + 1)" for n c k :: nat
  using dividend_less_times_div [of n c] div_nat_eqI [of n k c] by (auto simp: mult.commute)

lemma lead_tests:
  assumes "(c :: nat) < 256"
  shows "c AND 0x80 = 0 \<longleftrightarrow> c < 0x80" "c AND 0xE0 = 0xC0 \<longleftrightarrow> 0xC0 \<le> c \<and> c < 0xE0" "c AND 0xF0 = 0xE0 \<longleftrightarrow> 0xE0 \<le> c \<and> c < 0xF0"
    "c AND 0xF8 = 0xF0 \<longleftrightarrow> 0xF0 \<le> c \<and> c < 0xF8" "c AND 0xFC = 0xF8 \<longleftrightarrow> 0xF8 \<le> c \<and> c < 0xFC" "c AND 0xFE = 0xFC \<longleftrightarrow> 0xFC \<le> c \<and> c < 0xFE"
  using div_block [of 128 c 0] div_block [of 32 c 6] div_block [of 16 c 14] div_block [of 8 c 30] div_block [of 4 c 62] div_block [of 2 c 126]
  by (simp_all add: byte_mask [OF assms])

lemma cont_test:
  assumes "(c :: nat) < 256"
  shows "(c XOR 0x80) AND 0xFF = (if c < 0x80 then c + 0x80 else c - 0x80)" "((c XOR 0x80) AND 0xFF) AND 0xC0 = 0 \<longleftrightarrow> 0x80 \<le> c \<and> c < 0xC0"
proof -
  have x: "(c XOR 0x80) = (if c < 0x80 then c + 0x80 else c - 0x80)"
  proof (cases "c < 0x80")
    case True
    then have "c AND 0x80 = 0" by (simp add: byte_mask)
    then show ?thesis using True by (simp add: disjunctive_add_eq_xor)
  next
    case False
    define d where "d = c - 0x80"
    have d: "c = 0x80 + d" "d < 0x80" using False assms by (auto simp: d_def)
    have "0x80 AND d = 0" using d(2) by (simp add: and.commute [of _ d] byte_mask)
    then have "c = 0x80 XOR d" using d(1) by (simp add: disjunctive_add_eq_xor)
    then have "c XOR 0x80 = d" by (simp add: xor.commute [of _ d] xor.assoc)
    then show ?thesis using False d_def by simp
  qed
  then have lt: "c XOR 0x80 < 256" using assms by (cases "c < 0x80") auto
  then show y: "(c XOR 0x80) AND 0xFF = (if c < 0x80 then c + 0x80 else c - 0x80)" using x by (simp add: byte_mask)
  show "((c XOR 0x80) AND 0xFF) AND 0xC0 = 0 \<longleftrightarrow> 0x80 \<le> c \<and> c < 0xC0"
    unfolding byte_mask(8) [OF lt] byte_mask(2) [OF lt] using x assms by (cases "c < 0x80") auto
qed

lemma low_masks: "l AND 0x7F = l mod 0x80" "l AND 0x7FF = l mod 0x800" "l AND 0xFFFF = l mod 0x10000" "l AND 0x1FFFFF = l mod 0x200000"
  "l AND 0x3FFFFFF = l mod 0x4000000" "l AND 0x7FFFFFFF = l mod 0x80000000" "l AND 0x3FF = l mod 0x400" "l AND 0x3F = l mod 0x40" for l :: nat
  using nat_and_mask_low [of l 7] nat_and_mask_low [of l 11] nat_and_mask_low [of l 16] nat_and_mask_low [of l 21]
    nat_and_mask_low [of l 26] nat_and_mask_low [of l 31] nat_and_mask_low [of l 10] nat_and_mask_low [of l 6] by simp_all

lemma surrogate_range:
  assumes "(u :: nat) < 4294967296"
  shows "u AND SURROGATE_MASK = SURROGATE_PAIR \<longleftrightarrow> 0xd800 \<le> u \<and> u < 0xe000"
proof -
  have "u AND 0xfffff800 = 2048 * (u div 2048)" using high_mask [of u 11] assms by simp
  then show ?thesis using div_block [of 2048 u 27] by simp
qed

lemma surrogate_low: "u AND SURROGATE_LOW = 0 \<longleftrightarrow> even (u div 1024)" for u :: nat
  using and_exp_eq_0_iff_not_bit [of u 10] by (simp add: bit_iff_odd)

section \<open>Code points round trip\<close>

definition valid_code :: "nat \<Rightarrow> bool" where
  "valid_code u \<longleftrightarrow> u \<le> UNICODE_MAX \<and> \<not> (0xd800 \<le> u \<and> u < 0xe000)"

definition utf8_bytes :: "nat \<Rightarrow> nat list" where
  "utf8_bytes u =
     (if u < 0x80 then [u]
      else if u < 0x800 then [0xC0 + u div 64, 0x80 + u mod 64]
      else if u < 0x10000 then [0xE0 + u div 4096, 0x80 + u div 64 mod 64, 0x80 + u mod 64]
      else [0xF0 + u div 262144, 0x80 + u div 4096 mod 64, 0x80 + u div 64 mod 64, 0x80 + u mod 64])"

lemma utf8_bytes_ne [simp]: "utf8_bytes u \<noteq> []" "0 < length (utf8_bytes u)"
  by (simp_all add: utf8_bytes_def)

lemma utf8_bytes_le4: "length (utf8_bytes u) \<le> 4"
  by (simp add: utf8_bytes_def)

lemma or_cont: "x < 64 \<Longrightarrow> 0x80 OR x = 0x80 + x" "x < 32 \<Longrightarrow> 0xC0 OR x = 0xC0 + x" "x < 16 \<Longrightarrow> 0xE0 OR x = 0xE0 + x"
  "x < 8 \<Longrightarrow> 0xF0 OR x = 0xF0 + x" for x :: nat
  using or_low [of x 6 2] or_low [of x 5 6] or_low [of x 4 14] or_low [of x 3 30] by simp_all

lemma utf32_to_utf8_ok:
  assumes "valid_code u" "length (utf8_bytes u) \<le> maxout"
  shows "utf32_to_utf8 u maxout = Inr (utf8_bytes u)"
proof -
  have u: "u \<le> UNICODE_MAX" "\<not> u AND SURROGATE_MASK = SURROGATE_PAIR" using assms(1) surrogate_range [of u] by (auto simp: valid_code_def)
  have m: "x mod 64 < 64" for x :: nat by simp
  note tl = utf8_tail.simps
  consider "u < 0x80" | "0x80 \<le> u" "u < 0x800" | "0x800 \<le> u" "u < 0x10000" | "0x10000 \<le> u" by linarith
  then show ?thesis
  proof cases
    case 1
    then show ?thesis using u assms(2) by (simp add: utf32_to_utf8_def utf8_table_def utf8_bytes_def tl)
  next
    case 2
    then have "u div 64 < 32" by linarith
    then show ?thesis using 2 u assms(2) m [of u]
      by (simp add: utf32_to_utf8_def utf8_table_def utf8_bytes_def tl low_masks or_cont)
  next
    case 3
    then have "u div 4096 < 16" by linarith
    then show ?thesis using 3 u assms(2) m [of u] m [of "u div 64"]
      by (simp add: utf32_to_utf8_def utf8_table_def utf8_bytes_def tl low_masks or_cont)
  next
    case 4
    then have "u div 262144 < 8" using u(1) by linarith
    then show ?thesis using 4 u assms(2) m [of u] m [of "u div 64"] m [of "u div 4096"]
      by (simp add: utf32_to_utf8_def utf8_table_def utf8_bytes_def tl low_masks or_cont)
  qed
qed

lemma split64: "u div 4096 * 4096 + (u div 64 mod 64) * 64 + u mod 64 = u"
  "u div 262144 * 262144 + (u div 4096 mod 64) * 4096 + (u div 64 mod 64) * 64 + u mod 64 = u" for u :: nat
proof -
  have "u div 4096 = u div 64 div 64" "u div 262144 = u div 4096 div 64" by (simp_all add: div_mult2_eq [symmetric])
  then show "u div 4096 * 4096 + (u div 64 mod 64) * 64 + u mod 64 = u"
    "u div 262144 * 262144 + (u div 4096 mod 64) * 4096 + (u div 64 mod 64) * 64 + u mod 64 = u"
    using div_mult_mod_eq [of u 64] div_mult_mod_eq [of "u div 64" 64] div_mult_mod_eq [of "u div 4096" 64] by linarith+
qed

text \<open>One round of the decoder in arithmetic.\<close>

definition is_cont :: "nat \<Rightarrow> bool" where
  "is_cont b \<longleftrightarrow> 0x80 \<le> b \<and> b < 0xC0"

definition cont_val :: "nat \<Rightarrow> nat" where
  "cont_val b = b - 0x80"

lemma utf8_loop_next:
  assumes "c0 AND cmask t \<noteq> cval t" "\<forall>b\<in>set s. b < 256"
  shows "utf8_loop (t # ts) s c0 l nc =
    (if nc + 1 < length s \<and> is_cont (s ! (nc + 1)) then utf8_loop ts s c0 (l * 64 + cont_val (s ! (nc + 1))) (nc + 1) else Some (Inl (- 1)))"
proof (cases "nc + 1 < length s")
  case True
  let ?b = "s ! (nc + 1)"
  have b: "?b < 256" using assms(2) True nth_mem [OF True] by blast
  show ?thesis
  proof (cases "is_cont ?b")
    case c: True
    then have e: "(?b XOR 0x80) AND 0xFF = cont_val ?b" "cont_val ?b AND 0xC0 = 0" "cont_val ?b < 64"
      using cont_test [OF b] by (auto simp: is_cont_def cont_val_def)
    show ?thesis using assms(1) True c by (simp only: utf8_loop.simps Let_def if_False e or64 [OF e(3)] not_le simp_thms) simp
  next
    case False
    then have "((?b XOR 0x80) AND 0xFF) AND 0xC0 \<noteq> 0" using cont_test(2) [OF b] by (auto simp: is_cont_def)
    then show ?thesis using assms(1) True False by (simp add: Let_def)
  qed
qed (use assms in \<open>simp add: Let_def\<close>)

lemma utf8_loop_last:
  assumes "c0 AND cmask t = cval t"
  shows "utf8_loop (t # ts) s c0 l nc = (let l = l AND lmask t in
    if l < lval t \<or> \<not> valid_code l then Some (Inl (- 1)) else Some (Inr (l, nc + 1)))"
proof -
  have "l > UNICODE_MAX \<or> l AND SURROGATE_MASK = SURROGATE_PAIR \<longleftrightarrow> \<not> valid_code l" for l
    using surrogate_range [of l] by (auto simp: valid_code_def)
  then show ?thesis using assms by (simp add: Let_def)
qed

text \<open>The decoder by the length of the sequence; the forms of five and six bytes are all beyond Unicode.\<close>

definition lead_len :: "nat \<Rightarrow> nat" where
  "lead_len c = (if c < 0x80 then 1 else if c < 0xC0 then 0 else if c < 0xE0 then 2 else if c < 0xF0 then 3 else if c < 0xF8 then 4 else 0)"

definition seq_code :: "nat list \<Rightarrow> nat \<Rightarrow> nat" where
  "seq_code s n = (if n = 1 then s ! 0 else if n = 2 then (s ! 0 - 0xC0) * 64 + cont_val (s ! 1)
     else if n = 3 then ((s ! 0 - 0xE0) * 64 + cont_val (s ! 1)) * 64 + cont_val (s ! 2)
     else (((s ! 0 - 0xF0) * 64 + cont_val (s ! 1)) * 64 + cont_val (s ! 2)) * 64 + cont_val (s ! 3))"

definition seq_min :: "nat \<Rightarrow> nat" where
  "seq_min n = (if n = 1 then 0 else if n = 2 then 0x80 else if n = 3 then 0x800 else 0x10000)"

lemma small_numerals: "(2 :: nat) = Suc (Suc 0)" "(3 :: nat) = Suc (Suc (Suc 0))" "(4 :: nat) = Suc (Suc (Suc (Suc 0)))"
  by simp_all

lemma conts: "2 \<le> length s \<Longrightarrow> take 1 (drop 1 s) = [s ! 1]" "3 \<le> length s \<Longrightarrow> take 2 (drop 1 s) = [s ! 1, s ! 2]"
  "4 \<le> length s \<Longrightarrow> take 3 (drop 1 s) = [s ! 1, s ! 2, s ! 3]"
  by (auto simp: list_eq_iff_nth_eq nth_Cons' less_Suc_eq numeral_3_eq_3 numeral_2_eq_2)

text \<open>The bits that the mask of the row keeps.\<close>

lemma seq_mod:
  assumes "is_cont b" "is_cont d" "is_cont f"
  shows "0xC0 \<le> c \<Longrightarrow> c < 0xE0 \<Longrightarrow> (c * 64 + cont_val b) mod 0x800 = (c - 0xC0) * 64 + cont_val b"
    "0xE0 \<le> c \<Longrightarrow> c < 0xF0 \<Longrightarrow> ((c * 64 + cont_val b) * 64 + cont_val d) mod 0x10000 = ((c - 0xE0) * 64 + cont_val b) * 64 + cont_val d"
    "0xF0 \<le> c \<Longrightarrow> c < 0xF8 \<Longrightarrow> (((c * 64 + cont_val b) * 64 + cont_val d) * 64 + cont_val f) mod 0x200000 =
       (((c - 0xF0) * 64 + cont_val b) * 64 + cont_val d) * 64 + cont_val f"
proof -
  obtain x y z where v: "b = 0x80 + x" "d = 0x80 + y" "f = 0x80 + z" "x < 64" "y < 64" "z < 64"
    using assms by (auto simp: is_cont_def le_iff_add)
  show "(c * 64 + cont_val b) mod 0x800 = (c - 0xC0) * 64 + cont_val b" if q: "0xC0 \<le> c" "c < 0xE0"
  proof -
    obtain e where "c = 0xC0 + e" using le_Suc_ex [OF q(1)] by blast
    then show ?thesis using q(2) v mod_mult_self1 [of "e * 64 + x" 6 "0x800"] by (simp add: algebra_simps cont_val_def)
  qed
  show "((c * 64 + cont_val b) * 64 + cont_val d) mod 0x10000 = ((c - 0xE0) * 64 + cont_val b) * 64 + cont_val d" if q: "0xE0 \<le> c" "c < 0xF0"
  proof -
    obtain e where "c = 0xE0 + e" using le_Suc_ex [OF q(1)] by blast
    then show ?thesis using q(2) v mod_mult_self1 [of "(e * 64 + x) * 64 + y" 14 "0x10000"] by (simp add: algebra_simps cont_val_def)
  qed
  show "(((c * 64 + cont_val b) * 64 + cont_val d) * 64 + cont_val f) mod 0x200000 =
       (((c - 0xF0) * 64 + cont_val b) * 64 + cont_val d) * 64 + cont_val f" if q: "0xF0 \<le> c" "c < 0xF8"
  proof -
    obtain e where "c = 0xF0 + e" using le_Suc_ex [OF q(1)] by blast
    then show ?thesis using q(2) v mod_mult_self1 [of "((e * 64 + x) * 64 + y) * 64 + z" 30 "0x200000"] by (simp add: algebra_simps cont_val_def)
  qed
qed

text \<open>The rounds for a first byte \<open>c\<close>: a row is left for the next one, or it is the row of the sequence.\<close>

lemma utf8_rounds:
  assumes "c < 256" "\<forall>b\<in>set s. b < 256"
  shows "0x80 \<le> c \<Longrightarrow> utf8_loop utf8_table s c l 0 =
      (if 2 \<le> length s \<and> is_cont (s ! 1) then utf8_loop (drop 1 utf8_table) s c (l * 64 + cont_val (s ! 1)) 1 else Some (Inl (- 1)))"
    "\<not> (0xC0 \<le> c \<and> c < 0xE0) \<Longrightarrow> utf8_loop (drop 1 utf8_table) s c l 1 =
      (if 3 \<le> length s \<and> is_cont (s ! 2) then utf8_loop (drop 2 utf8_table) s c (l * 64 + cont_val (s ! 2)) 2 else Some (Inl (- 1)))"
    "\<not> (0xE0 \<le> c \<and> c < 0xF0) \<Longrightarrow> utf8_loop (drop 2 utf8_table) s c l 2 =
      (if 4 \<le> length s \<and> is_cont (s ! 3) then utf8_loop (drop 3 utf8_table) s c (l * 64 + cont_val (s ! 3)) 3 else Some (Inl (- 1)))"
    "0xC0 \<le> c \<Longrightarrow> c < 0xE0 \<Longrightarrow> utf8_loop (drop 1 utf8_table) s c l 1 =
      (let l = l mod 0x800 in if l < 0x80 \<or> \<not> valid_code l then Some (Inl (- 1)) else Some (Inr (l, 2)))"
    "0xE0 \<le> c \<Longrightarrow> c < 0xF0 \<Longrightarrow> utf8_loop (drop 2 utf8_table) s c l 2 =
      (let l = l mod 0x10000 in if l < 0x800 \<or> \<not> valid_code l then Some (Inl (- 1)) else Some (Inr (l, 3)))"
    "0xF0 \<le> c \<Longrightarrow> c < 0xF8 \<Longrightarrow> utf8_loop (drop 3 utf8_table) s c l 3 =
      (let l = l mod 0x200000 in if l < 0x10000 \<or> \<not> valid_code l then Some (Inl (- 1)) else Some (Inr (l, 4)))"
  using lead_tests [OF assms(1)] utf8_loop_next [OF _ assms(2)]
  by (simp_all add: utf8_table_def utf8_loop_last low_masks Let_def Suc_le_eq small_numerals del: utf8_loop.simps(2))

text \<open>The rows beyond: whatever they decode is no code point.\<close>

lemma utf8_none:
  assumes "c < 256" "\<forall>b\<in>set s. b < 256" "0x80 \<le> c \<and> c < 0xC0 \<or> 0xF8 \<le> c"
  shows "utf8_loop utf8_table s c l 0 = Some (Inl (- 1))"
proof -
  have "utf8_loop ts s c l nc = Some (Inl (- 1))" if "\<And>t. t \<in> set ts \<Longrightarrow> c AND cmask t = cval t \<Longrightarrow> 0x200000 \<le> lval t" for ts nc
    using that
  proof (induction ts arbitrary: l nc)
    case (Cons t ts)
    show ?case
    proof (cases "c AND cmask t = cval t")
      case True
      have "l' < lval t \<or> \<not> valid_code l'" for l' using Cons.prems [of t] True by (auto simp: valid_code_def)
      then show ?thesis unfolding utf8_loop_last [OF True] Let_def by simp
    next
      case False
      have "utf8_loop ts s c l' nc' = Some (Inl (- 1))" for l' nc' using Cons.IH Cons.prems by simp
      then show ?thesis unfolding utf8_loop_next [OF False assms(2)] by simp
    qed
  qed simp
  moreover have "0x200000 \<le> lval t" if t: "t \<in> set utf8_table" "c AND cmask t = cval t" for t
  proof -
    have "c AND 0x80 \<noteq> 0" "c AND 0xE0 \<noteq> 0xC0" "c AND 0xF0 \<noteq> 0xE0" "c AND 0xF8 \<noteq> 0xF0"
      unfolding lead_tests [OF assms(1)] using assms(3) by linarith+
    then show ?thesis using t unfolding utf8_table_def by (auto simp del: One_nat_def)
  qed
  ultimately show ?thesis by blast
qed

lemma utf8_decode:
  assumes "s \<noteq> []" "\<forall>b\<in>set s. b < 256"
  shows "utf8_to_utf32 s = (let n = lead_len (s ! 0) in
    if n = 0 \<or> length s < n \<or> \<not> list_all is_cont (take (n - 1) (drop 1 s)) \<or> seq_code s n < seq_min n \<or> \<not> valid_code (seq_code s n)
    then Some (Inl (- 1)) else Some (Inr (seq_code s n, n)))"
proof -
  let ?c = "s ! 0"
  have c: "?c < 256" using assms by (cases s) auto
  have unf: "utf8_to_utf32 s = utf8_loop utf8_table s ?c ?c 0" using assms(1) by (cases s) (auto simp: utf8_to_utf32_def)
  note r = utf8_rounds [OF c assms(2)]
  consider "?c < 0x80" | "0xC0 \<le> ?c" "?c < 0xE0" | "0xE0 \<le> ?c" "?c < 0xF0" | "0xF0 \<le> ?c" "?c < 0xF8" | "0x80 \<le> ?c \<and> ?c < 0xC0 \<or> 0xF8 \<le> ?c" by linarith
  then show ?thesis
  proof cases
    case 1
    have "?c AND 0x7F = ?c" using 1 by (simp add: low_masks)
    then show ?thesis unfolding unf utf8_table_def using 1 lead_tests(1) [OF c] assms(1)
      by (cases s) (simp_all add: utf8_loop_last lead_len_def seq_code_def seq_min_def Let_def del: utf8_loop.simps)
  next
    case 2
    show ?thesis
    proof (cases "2 \<le> length s \<and> is_cont (s ! 1)")
      case True
      then show ?thesis unfolding unf using 2 r conts(1) [of s] seq_mod(1) [of "s ! 1" "s ! 1" "s ! 1" ?c]
        by (simp add: lead_len_def seq_code_def seq_min_def Let_def)
    next
      case False
      then show ?thesis unfolding unf using 2 r conts(1) [of s] by (auto simp: lead_len_def)
    qed
  next
    case 3
    show ?thesis
    proof (cases "3 \<le> length s \<and> is_cont (s ! 1) \<and> is_cont (s ! 2)")
      case True
      then show ?thesis unfolding unf using 3 r conts(2) [of s] seq_mod(2) [of "s ! 1" "s ! 2" "s ! 2" ?c]
        by (simp add: lead_len_def seq_code_def seq_min_def Let_def)
    next
      case False
      then show ?thesis unfolding unf using 3 r conts(2) [of s] by (auto simp: lead_len_def)
    qed
  next
    case 4
    show ?thesis
    proof (cases "4 \<le> length s \<and> is_cont (s ! 1) \<and> is_cont (s ! 2) \<and> is_cont (s ! 3)")
      case True
      then show ?thesis unfolding unf using 4 r conts(3) [of s] seq_mod(3) [of "s ! 1" "s ! 2" "s ! 3" ?c]
        by (simp add: lead_len_def seq_code_def seq_min_def Let_def)
    next
      case False
      then show ?thesis unfolding unf using 4 r conts(3) [of s] by (auto simp: lead_len_def)
    qed
  next
    case 5
    then have "lead_len ?c = 0" by (auto simp: lead_len_def)
    then show ?thesis unfolding unf using utf8_none [OF c assms(2) 5] by simp
  qed
qed

lemma is_cont_val: "is_cont b \<Longrightarrow> b = 0x80 + cont_val b \<and> cont_val b < 64"
  by (auto simp: is_cont_def cont_val_def)

lemma is_cont_add [simp]: "x < 64 \<Longrightarrow> is_cont (0x80 + x)" "cont_val (0x80 + x) = x"
  by (auto simp: is_cont_def cont_val_def)

text \<open>The canonical sequence, by its digits to the base 64.\<close>

lemma decode_seq:
  assumes "valid_code u" "\<forall>b\<in>set r. b < 256" "x < 64" "y < 64" "z < 64"
  shows "c < 0x80 \<Longrightarrow> u = c \<Longrightarrow> utf8_to_utf32 (c # r) = Some (Inr (u, 1))"
    "0xC0 + c < 0xE0 \<Longrightarrow> u = c * 64 + x \<Longrightarrow> 0x80 \<le> u \<Longrightarrow> utf8_to_utf32 ((0xC0 + c) # (0x80 + x) # r) = Some (Inr (u, 2))"
    "0xE0 + c < 0xF0 \<Longrightarrow> u = (c * 64 + x) * 64 + y \<Longrightarrow> 0x800 \<le> u \<Longrightarrow> utf8_to_utf32 ((0xE0 + c) # (0x80 + x) # (0x80 + y) # r) = Some (Inr (u, 3))"
    "0xF0 + c < 0xF8 \<Longrightarrow> u = ((c * 64 + x) * 64 + y) * 64 + z \<Longrightarrow> 0x10000 \<le> u \<Longrightarrow>
       utf8_to_utf32 ((0xF0 + c) # (0x80 + x) # (0x80 + y) # (0x80 + z) # r) = Some (Inr (u, 4))"
proof -
  let ?s2 = "(0xC0 + c) # (0x80 + x) # r" and ?s3 = "(0xE0 + c) # (0x80 + x) # (0x80 + y) # r"
    and ?s4 = "(0xF0 + c) # (0x80 + x) # (0x80 + y) # (0x80 + z) # r"
  note dec = utf8_decode [OF list.distinct(2)]
  show "utf8_to_utf32 (c # r) = Some (Inr (u, 1))" if "c < 0x80" "u = c"
    using assms that by (subst dec) (auto simp: lead_len_def seq_code_def seq_min_def)
  show "utf8_to_utf32 ?s2 = Some (Inr (u, 2))" if h: "0xC0 + c < 0xE0" "u = c * 64 + x" "0x80 \<le> u"
  proof -
    have l: "lead_len (?s2 ! 0) = 2" "seq_code ?s2 2 = u" "take (2 - 1) (drop 1 ?s2) = [0x80 + x]" "seq_min 2 = 0x80"
      using h by (simp_all add: lead_len_def seq_code_def seq_min_def)
    have b: "\<forall>b\<in>set ?s2. b < 256" using h assms(2,3) by auto
    show ?thesis unfolding dec [OF b] l Let_def using assms(1,3) h(3) by simp
  qed
  show "utf8_to_utf32 ?s3 = Some (Inr (u, 3))" if h: "0xE0 + c < 0xF0" "u = (c * 64 + x) * 64 + y" "0x800 \<le> u"
  proof -
    have l: "lead_len (?s3 ! 0) = 3" "seq_code ?s3 3 = u" "take (3 - 1) (drop 1 ?s3) = [0x80 + x, 0x80 + y]" "seq_min 3 = 0x800"
      using h by (simp_all add: lead_len_def seq_code_def seq_min_def numeral_2_eq_2)
    have b: "\<forall>b\<in>set ?s3. b < 256" using h assms(2,3,4) by auto
    show ?thesis unfolding dec [OF b] l Let_def using assms(1,3,4) h(3) by simp
  qed
  show "utf8_to_utf32 ?s4 = Some (Inr (u, 4))" if h: "0xF0 + c < 0xF8" "u = ((c * 64 + x) * 64 + y) * 64 + z" "0x10000 \<le> u"
  proof -
    have l: "lead_len (?s4 ! 0) = 4" "seq_code ?s4 4 = u" "take (4 - 1) (drop 1 ?s4) = [0x80 + x, 0x80 + y, 0x80 + z]" "seq_min 4 = 0x10000"
      using h by (simp_all add: lead_len_def seq_code_def seq_min_def numeral_2_eq_2 numeral_3_eq_3)
    have b: "\<forall>b\<in>set ?s4. b < 256" using h assms(2-5) by auto
    show ?thesis unfolding dec [OF b] l Let_def using assms(1,3-5) h(3) by simp
  qed
qed

lemma utf8_to_utf32_bytes:
  assumes "valid_code u" "\<forall>b\<in>set r. b < 256"
  shows "utf8_to_utf32 (utf8_bytes u @ r) = Some (Inr (u, length (utf8_bytes u)))"
proof -
  have u: "u \<le> 0x10ffff" using assms(1) by (simp add: valid_code_def)
  have m: "x mod 64 < 64" for x :: nat by simp
  note dec = decode_seq [OF assms m m m]
  consider "u < 0x80" | "0x80 \<le> u" "u < 0x800" | "0x800 \<le> u" "u < 0x10000" | "0x10000 \<le> u" by linarith
  then show ?thesis
  proof cases
    case 1
    then show ?thesis using dec(1) by (simp add: utf8_bytes_def)
  next
    case 2
    then have "0xC0 + u div 64 < 0xE0" by linarith
    from dec(2) [OF this, of u] show ?thesis using 2 by (simp add: utf8_bytes_def)
  next
    case 3
    then have "0xE0 + u div 4096 < 0xF0" by linarith
    from dec(3) [OF this, of "u div 64" u] show ?thesis using 3 split64(1) [of u] by (simp add: utf8_bytes_def algebra_simps)
  next
    case 4
    then have "0xF0 + u div 262144 < 0xF8" using u by linarith
    from dec(4) [OF this, of "u div 4096" "u div 64" u] show ?thesis using 4 split64(2) [of u] by (simp add: utf8_bytes_def algebra_simps)
  qed
qed

lemma base64:
  assumes "y < 64" "z < 64" "w < (64 :: nat)"
  shows "(x * 64 + y) div 64 = x" "(x * 64 + y) mod 64 = y"
    "((x * 64 + y) * 64 + z) div 4096 = x" "((x * 64 + y) * 64 + z) div 64 mod 64 = y" "((x * 64 + y) * 64 + z) mod 64 = z"
    "(((x * 64 + y) * 64 + z) * 64 + w) div 262144 = x" "(((x * 64 + y) * 64 + z) * 64 + w) div 4096 mod 64 = y"
    "(((x * 64 + y) * 64 + z) * 64 + w) div 64 mod 64 = z" "(((x * 64 + y) * 64 + z) * 64 + w) mod 64 = w"
proof -
  have d: "(a * 64 + b) div 64 = a" "(a * 64 + b) mod 64 = b" if "b < 64" for a b :: nat using that by simp_all
  have q: "a div 4096 = a div 64 div 64" "a div 262144 = a div 64 div 64 div 64" for a :: nat by (simp_all add: div_mult2_eq [symmetric])
  show "(x * 64 + y) div 64 = x" "(x * 64 + y) mod 64 = y"
    "((x * 64 + y) * 64 + z) div 4096 = x" "((x * 64 + y) * 64 + z) div 64 mod 64 = y" "((x * 64 + y) * 64 + z) mod 64 = z"
    "(((x * 64 + y) * 64 + z) * 64 + w) div 262144 = x" "(((x * 64 + y) * 64 + z) * 64 + w) div 4096 mod 64 = y"
    "(((x * 64 + y) * 64 + z) * 64 + w) div 64 mod 64 = z" "(((x * 64 + y) * 64 + z) * 64 + w) mod 64 = w"
    unfolding q d [OF assms(1)] d [OF assms(2)] d [OF assms(3)] by (rule refl)+
qed

lemma utf8_to_utf32_inv:
  assumes "utf8_to_utf32 s = Some (Inr (u, n))" "\<forall>b\<in>set s. b < 256"
  shows "valid_code u \<and> n = length (utf8_bytes u) \<and> s = utf8_bytes u @ drop n s"
proof -
  have ne: "s \<noteq> []" using assms(1) by (auto simp: utf8_to_utf32_def)
  define c where "c = s ! 0"
  have d: "n = lead_len c" "n \<noteq> 0" "n \<le> length s" "list_all is_cont (take (n - 1) (drop 1 s))" "seq_min n \<le> u" "valid_code u" "u = seq_code s n"
    using assms(1) unfolding utf8_decode [OF ne assms(2)] by (auto simp: Let_def c_def split: if_splits)
  have s: "s = c # drop 1 s" using ne by (cases s) (auto simp: c_def)
  have tk: "s = c # take (n - 1) (drop 1 s) @ drop n s" using ne d(2) by (cases s; cases n) (auto simp: c_def)
  consider "n = 1" "c < 0x80" | "n = 2" "0xC0 \<le> c" | "n = 3" "0xE0 \<le> c" | "n = 4" "0xF0 \<le> c"
    using d(1,2) by (auto simp: lead_len_def split: if_splits)
  then show ?thesis
  proof cases
    case 1
    then show ?thesis using d tk by (simp add: seq_code_def utf8_bytes_def c_def)
  next
    case 2
    define x where "x = cont_val (s ! 1)"
    have t: "take 1 (drop 1 s) = [s ! 1]" using conts(1) [of s] d(3) 2 by simp
    then have x: "s ! 1 = 0x80 + x" "x < 64" using d(4) 2 is_cont_val [of "s ! 1"] by (auto simp: x_def)
    have u: "u = (c - 0xC0) * 64 + x" using d(7) 2 by (simp add: seq_code_def c_def x_def)
    have "u < 0x800" using u x d(1) 2 by (auto simp: lead_len_def split: if_splits)
    then have "utf8_bytes u = [c, s ! 1]" using d(5) 2 x u base64(1,2) [OF x(2) x(2) x(2), of "c - 0xC0"] by (simp add: utf8_bytes_def seq_min_def)
    then show ?thesis using tk t 2 d(6) by simp
  next
    case 3
    define x y where "x = cont_val (s ! 1)" and "y = cont_val (s ! 2)"
    have t: "take 2 (drop 1 s) = [s ! 1, s ! 2]" using conts(2) [of s] d(3) 3 by simp
    then have x: "s ! 1 = 0x80 + x" "s ! 2 = 0x80 + y" "x < 64" "y < 64" using d(4) 3 is_cont_val [of "s ! 1"] is_cont_val [of "s ! 2"] by (auto simp: x_def y_def)
    have u: "u = ((c - 0xE0) * 64 + x) * 64 + y" using d(7) 3 by (simp add: seq_code_def c_def x_def y_def)
    have "u < 0x10000" using u x d(1) 3 by (auto simp: lead_len_def split: if_splits)
    then have "utf8_bytes u = [c, s ! 1, s ! 2]" using d(5) 3 x base64(3-5) [OF x(3,4) x(4), of "c - 0xE0", folded u] by (simp add: utf8_bytes_def seq_min_def)
    then show ?thesis using tk t 3 d(6) by simp
  next
    case 4
    define x y z where "x = cont_val (s ! 1)" and "y = cont_val (s ! 2)" and "z = cont_val (s ! 3)"
    have t: "take 3 (drop 1 s) = [s ! 1, s ! 2, s ! 3]" using conts(3) [of s] d(3) 4 by simp
    then have x: "s ! 1 = 0x80 + x" "s ! 2 = 0x80 + y" "s ! 3 = 0x80 + z" "x < 64" "y < 64" "z < 64"
      using d(4) 4 is_cont_val [of "s ! 1"] is_cont_val [of "s ! 2"] is_cont_val [of "s ! 3"] by (auto simp: x_def y_def z_def)
    have u: "u = (((c - 0xF0) * 64 + x) * 64 + y) * 64 + z" using d(7) 4 by (simp add: seq_code_def c_def x_def y_def z_def)
    have "utf8_bytes u = [c, s ! 1, s ! 2, s ! 3]" using d(5) 4 x base64(6-9) [OF x(4-6), of "c - 0xF0", folded u] by (simp add: utf8_bytes_def seq_min_def)
    then show ?thesis using tk t 4 d(6) by simp
  qed
qed

section \<open>Strings round trip\<close>

text \<open>Well-formed UTF-16: no NUL, and surrogates only in pairs.\<close>

fun wf_utf16 :: "nat list \<Rightarrow> bool" where
  "wf_utf16 [] \<longleftrightarrow> True"
| "wf_utf16 (w # ws) \<longleftrightarrow>
     (if 0xd800 \<le> w \<and> w < 0xe000
      then w < 0xdc00 \<and> (case ws of [] \<Rightarrow> False | v # r \<Rightarrow> 0xdc00 \<le> v \<and> v < 0xe000 \<and> wf_utf16 r)
      else 0 < w \<and> w < 0x10000 \<and> wf_utf16 ws)"

lemma utf16_le [simp]: "c < 0x10000 \<Longrightarrow> put_utf16 c UTF16_LITTLE_ENDIAN = c" "get_utf16 c UTF16_LITTLE_ENDIAN = c"
  by (simp_all add: put_utf16_def get_utf16_def)

lemma surrogate_halves:
  assumes "u < 0x100000"
  shows "SURROGATE_PAIR OR ((u div 1024) AND SURROGATE_BITS) = 0xd800 + u div 1024" "u div 1024 < 1024"
    "SURROGATE_PAIR OR SURROGATE_LOW OR (u AND SURROGATE_BITS) = 0xdc00 + u mod 1024"
proof -
  show d: "u div 1024 < 1024" using assms by linarith
  have m: "u div 1024 mod 1024 < 1024" "u mod 1024 < 1024" by simp_all
  show "SURROGATE_PAIR OR ((u div 1024) AND SURROGATE_BITS) = 0xd800 + u div 1024"
    using or_low [of "u div 1024 mod 1024" 10 54] m d by (simp add: low_masks)
  have "SURROGATE_LOW OR (u mod 1024) = 0x400 + u mod 1024" using or_low [of "u mod 1024" 10 1] m by simp
  moreover have "SURROGATE_PAIR OR (0x400 + u mod 1024) = 0xdc00 + u mod 1024" using or_low [of "0x400 + u mod 1024" 11 27] m by simp
  ultimately show "SURROGATE_PAIR OR SURROGATE_LOW OR (u AND SURROGATE_BITS) = 0xdc00 + u mod 1024" by (simp add: low_masks)
qed

lemma is_surrogate_iff: "w < 0x10000 \<Longrightarrow> is_surrogate w \<longleftrightarrow> 0xd800 \<le> w \<and> w < 0xe000"
  using surrogate_range [of w] by (simp add: is_surrogate_def)

text \<open>One character of each loop.\<close>

lemma utf8s_step:
  assumes "valid_code u" "0 < u" "\<forall>b\<in>set r. b < 256" "0 < m"
  shows "utf8s_to_utf16s (utf8_bytes u @ r) UTF16_LITTLE_ENDIAN m =
    (if 0x10000 \<le> u \<and> m = 1 then Some (Inr [])
     else if u < 0x10000 then map_option (map_sum id (Cons u)) (utf8s_to_utf16s r UTF16_LITTLE_ENDIAN (m - 1))
     else map_option (map_sum id (\<lambda>ws. (0xd800 + (u - 0x10000) div 1024) # (0xdc00 + (u - 0x10000) mod 1024) # ws)) (utf8s_to_utf16s r UTF16_LITTLE_ENDIAN (m - 2)))"
proof (cases "u < 0x80")
  case True
  then have "u AND 0x80 = 0" using lead_tests(1) [of u] by simp
  then show ?thesis using True assms(2,4) by (simp add: utf8_bytes_def utf8s_to_utf16s.simps [of "u # r"])
next
  case False
  obtain c cs where s: "utf8_bytes u = c # cs" by (cases "utf8_bytes u") simp_all
  have c: "0x80 \<le> c" "c < 256" using s False assms(1) by (auto simp: utf8_bytes_def valid_code_def split: if_splits)
  then have c': "c AND 0x80 \<noteq> 0" "c \<noteq> 0" using lead_tests(1) [of c] by auto
  have dec: "utf8_to_utf32 (c # cs @ r) = Some (Inr (u, length (utf8_bytes u)))" using utf8_to_utf32_bytes [OF assms(1,3)] s by simp
  have dr: "drop (length (utf8_bytes u)) (c # cs @ r) = r" using s by simp
  have v: "u - 0x10000 < 0x100000" using assms(1) by (auto simp: valid_code_def)
  have h: "0xd800 + (u - 0x10000) div 1024 < 0x10000" "0xdc00 + (u - 0x10000) mod 1024 < 0x10000"
    using surrogate_halves(2) [OF v] mod_less_divisor [of 1024 "u - 0x10000"] by linarith+
  show ?thesis unfolding s append_Cons utf8s_to_utf16s.simps [of "c # cs @ r"] list.case dec option.case sum.case prod.case dr Let_def
      surrogate_halves(1,3) [OF v] using c' assms(4) h by (cases "u < 0x10000") simp_all
qed

lemma utf16s_step:
  assumes "valid_code u" "0 < u" "length (utf8_bytes u) \<le> n"
  shows "u < 0x10000 \<Longrightarrow> utf16s_to_utf8s (u # ws) UTF16_LITTLE_ENDIAN n =
      utf8_bytes u @ utf16s_to_utf8s ws UTF16_LITTLE_ENDIAN (n - length (utf8_bytes u))"
    "0x10000 \<le> u \<Longrightarrow> utf16s_to_utf8s ((0xd800 + (u - 0x10000) div 1024) # (0xdc00 + (u - 0x10000) mod 1024) # ws) UTF16_LITTLE_ENDIAN n =
      utf8_bytes u @ utf16s_to_utf8s ws UTF16_LITTLE_ENDIAN (n - length (utf8_bytes u))"
proof -
  have n: "n \<noteq> 0" using assms(3) utf8_bytes_ne(2) [of u] by linarith
  have e: "emit_utf8 u n = utf8_bytes u" using utf32_to_utf8_ok [OF assms(1,3)] by (simp add: emit_utf8_def)
  show "utf16s_to_utf8s (u # ws) UTF16_LITTLE_ENDIAN n = utf8_bytes u @ utf16s_to_utf8s ws UTF16_LITTLE_ENDIAN (n - length (utf8_bytes u))" if "u < 0x10000"
  proof (cases "u \<le> 0x7f")
    case True
    then show ?thesis using n assms(2) by (simp add: utf16s_to_utf8s.simps [of "u # ws"] utf8_bytes_def)
  next
    case False
    have "\<not> is_surrogate u" using is_surrogate_iff [OF that] assms(1) by (auto simp: valid_code_def)
    then show ?thesis using n False e by (simp add: utf16s_to_utf8s.simps [of "u # ws"] Let_def)
  qed
  assume u: "0x10000 \<le> u"
  let ?w = "u - 0x10000"
  let ?h = "0xd800 + ?w div 1024" and ?l = "0xdc00 + ?w mod 1024"
  have w: "?w < 0x100000" "?w div 1024 < 1024" "?w mod 1024 < 1024" using assms(1) u by (auto simp: valid_code_def)
  have h: "?h < 0x10000" "?l < 0x10000" using w by simp_all
  have s: "is_surrogate ?h" "is_surrogate ?l" using is_surrogate_iff [OF h(1)] is_surrogate_iff [OF h(2)] w by simp_all
  have d: "?h div 1024 = 54" "?l div 1024 = 55" using w by simp_all
  then have lo: "?h AND SURROGATE_LOW = 0" "?l AND SURROGATE_LOW \<noteq> 0" unfolding surrogate_low by simp_all
  have m: "?h AND SURROGATE_BITS = ?w div 1024" "?l AND SURROGATE_BITS = ?w mod 1024"
    using w mod_mult_self1 [of "?w div 1024" 54 1024] mod_mult_self1 [of "?w mod 1024" 55 1024] by (simp_all add: low_masks add.commute)
  have uu: "0x10000 + ?w div 1024 * 1024 + ?w mod 1024 = u" using u div_mult_mod_eq [of ?w 1024] by linarith
  have g: "?h > 0x7f" "?h \<noteq> 0" by simp_all
  show "utf16s_to_utf8s (?h # ?l # ws) UTF16_LITTLE_ENDIAN n = utf8_bytes u @ utf16s_to_utf8s ws UTF16_LITTLE_ENDIAN (n - length (utf8_bytes u))"
    unfolding utf16s_to_utf8s.simps [of "?h # ?l # ws"] list.case utf16_le Let_def m uu e using n s lo g by simp
qed

lemma mapped_Inr: "map_option (map_sum id f) x = Some (Inr y) \<longleftrightarrow> (\<exists>z. x = Some (Inr z) \<and> y = f z)"
proof (cases x)
  case (Some r)
  then show ?thesis by (cases r) auto
qed simp

text \<open>
  The two encodings of a string of code points.  The encoder turns the UTF-16 units of a string
  into its UTF-8 bytes; the decoder turns its bytes into its units, as far as they fit; and whatever
  the decoder accepts whole is the encoding of a string.
\<close>

definition utf16_units :: "nat \<Rightarrow> nat list" where
  "utf16_units u = (if u < 0x10000 then [u] else [0xd800 + (u - 0x10000) div 1024, 0xdc00 + (u - 0x10000) mod 1024])"

abbreviation utf8_string :: "nat list \<Rightarrow> nat list" where
  "utf8_string us \<equiv> concat (map utf8_bytes us)"

abbreviation utf16_string :: "nat list \<Rightarrow> nat list" where
  "utf16_string us \<equiv> concat (map utf16_units us)"

definition valid_string :: "nat list \<Rightarrow> bool" where
  "valid_string us \<longleftrightarrow> (\<forall>u\<in>set us. valid_code u \<and> 0 < u)"

lemma valid_string_simps [simp]: "valid_string []" "valid_string (u # us) \<longleftrightarrow> valid_code u \<and> 0 < u \<and> valid_string us"
  by (auto simp: valid_string_def)

lemma unit_lengths: "0 < length (utf16_units u)" "length (utf16_units u) \<le> length (utf8_bytes u)"
  "length (utf8_bytes u) \<le> 3 * length (utf16_units u)"
  by (simp_all add: utf16_units_def utf8_bytes_def)

lemma string_lengths: "length (utf16_string us) \<le> length (utf8_string us)" "length (utf8_string us) \<le> 3 * length (utf16_string us)"
proof (induction us)
  case (Cons u us)
  show "length (utf16_string (u # us)) \<le> length (utf8_string (u # us))" "length (utf8_string (u # us)) \<le> 3 * length (utf16_string (u # us))"
    using Cons unit_lengths [of u] by simp_all
qed simp_all

lemma utf8_bytes_bounds: "valid_code u \<Longrightarrow> 0 < u \<Longrightarrow> b \<in> set (utf8_bytes u) \<Longrightarrow> 0 < b \<and> b < 256"
proof -
  assume a: "valid_code u" "0 < u" "b \<in> set (utf8_bytes u)"
  have m: "x mod 64 < 64" for x :: nat by simp
  have "u \<le> 0x10ffff" using a(1) by (simp add: valid_code_def)
  then have "u < 0x800 \<Longrightarrow> u div 64 < 32" "u < 0x10000 \<Longrightarrow> u div 4096 < 16" "u div 262144 < 5" by linarith+
  then show ?thesis using a m [of u] m [of "u div 64"] m [of "u div 4096"] by (auto simp: utf8_bytes_def split: if_splits)
qed

lemma utf8s_units:
  assumes "valid_code u" "0 < u" "\<forall>b\<in>set r. b < 256" "length (utf16_units u) \<le> m"
  shows "utf8s_to_utf16s (utf8_bytes u @ r) UTF16_LITTLE_ENDIAN m =
    map_option (map_sum id ((@) (utf16_units u))) (utf8s_to_utf16s r UTF16_LITTLE_ENDIAN (m - length (utf16_units u)))"
proof (cases "u < 0x10000")
  case True
  have "(@) [u] = Cons u" by (rule ext) simp
  then show ?thesis using utf8s_step [OF assms(1-3), of m] True assms(4) by (simp add: utf16_units_def)
next
  case False
  have "(@) [a, b] = (\<lambda>ws. a # b # ws)" for a b :: nat by (rule ext) simp
  then show ?thesis using utf8s_step [OF assms(1-3), of m] False assms(4) by (simp add: utf16_units_def numeral_2_eq_2)
qed

lemma utf16s_string:
  "valid_string us \<Longrightarrow> length (utf8_string us) \<le> n \<Longrightarrow> utf16s_to_utf8s (utf16_string us) UTF16_LITTLE_ENDIAN n = utf8_string us"
proof (induction us arbitrary: n)
  case Nil
  then show ?case by (simp add: utf16s_to_utf8s.simps [of "[]"])
next
  case (Cons u us)
  then have "utf16s_to_utf8s (utf16_units u @ utf16_string us) UTF16_LITTLE_ENDIAN n =
      utf8_bytes u @ utf16s_to_utf8s (utf16_string us) UTF16_LITTLE_ENDIAN (n - length (utf8_bytes u))"
    using utf16s_step [of u n "utf16_string us"] by (simp add: utf16_units_def)
  with Cons show ?case by simp
qed

lemma utf8s_string:
  assumes "valid_string us"
  shows "\<exists>ws. utf8s_to_utf16s (utf8_string us) UTF16_LITTLE_ENDIAN m = Some (Inr ws) \<and>
    length ws \<le> length (utf16_string us) \<and> (ws = utf16_string us \<or> m \<le> length ws + 1)"
  using assms
proof (induction us arbitrary: m)
  case Nil
  then show ?case by (simp add: utf8s_to_utf16s.simps [of "[]"])
next
  case (Cons u us)
  have u: "valid_code u" "0 < u" and b: "\<forall>b\<in>set (utf8_string us). b < 256"
    using Cons.prems utf8_bytes_bounds by (auto simp: valid_string_def)
  obtain c cs where s: "utf8_bytes u @ utf8_string us = c # cs" by (cases "utf8_bytes u") simp_all
  show ?case
  proof (cases "m = 0 \<or> 0x10000 \<le> u \<and> m = 1")
    case True
    then have "utf8s_to_utf16s (utf8_bytes u @ utf8_string us) UTF16_LITTLE_ENDIAN m = Some (Inr [])"
      using utf8s_step [OF u b, of m] by (auto simp: s utf8s_to_utf16s.simps [of "c # cs"])
    then show ?thesis using True by auto
  next
    case False
    let ?m = "m - length (utf16_units u)"
    obtain ws where ws: "utf8s_to_utf16s (utf8_string us) UTF16_LITTLE_ENDIAN ?m = Some (Inr ws)"
      "length ws \<le> length (utf16_string us)" "ws = utf16_string us \<or> ?m \<le> length ws + 1"
      using Cons.IH [of ?m] Cons.prems by auto
    have "utf8s_to_utf16s (utf8_bytes u @ utf8_string us) UTF16_LITTLE_ENDIAN m = Some (Inr (utf16_units u @ ws))"
      using utf8s_units [OF u b, of m] False ws(1) by (auto simp: utf16_units_def split: if_splits)
    then show ?thesis using ws(2,3) by auto
  qed
qed

lemma utf8s_total:
  assumes "\<forall>b\<in>set s. b < 256"
  shows "utf8s_to_utf16s s e m \<noteq> None"
  using assms
proof (induction "length s" arbitrary: s m rule: less_induct)
  case less
  show ?case
  proof (cases s)
    case (Cons c cs)
    have d: "utf8_to_utf32 s \<noteq> None" using utf8_decode [of s] less.prems Cons by (simp add: Let_def)
    have rest: "utf8s_to_utf16s (drop n s) e m' \<noteq> None" if "utf8_to_utf32 s = Some (Inr (u, n))" for u n m'
      using less.hyps [of "drop n s"] less.prems utf8_to_utf32_len [OF that] by (fastforce dest: in_set_dropD)
    have cs: "utf8s_to_utf16s cs e m' \<noteq> None" for m' using less Cons by simp
    show ?thesis unfolding utf8s_to_utf16s.simps [of s]
      using d rest cs Cons by (auto split: option.splits sum.splits simp: Let_def)
  qed (simp add: utf8s_to_utf16s.simps [of "[]"])
qed

lemma utf8s_accepted:
  assumes "utf8s_to_utf16s s UTF16_LITTLE_ENDIAN m = Some (Inr ws)" "\<forall>b\<in>set s. 0 < b \<and> b < 256" "length ws + 2 \<le> m"
  shows "\<exists>us. valid_string us \<and> s = utf8_string us"
  using assms
proof (induction "length s" arbitrary: s m ws rule: less_induct)
  case less
  have m: "2 \<le> m" using less.prems(3) by simp
  show ?case
  proof (cases s)
    case Nil
    then show ?thesis by (intro exI [of _ "[]"]) simp
  next
    case (Cons c cs)
    have "\<exists>u r. valid_code u \<and> 0 < u \<and> s = utf8_bytes u @ r"
    proof (cases "c < 0x80")
      case True
      then show ?thesis using Cons less.prems(2) by (intro exI [of _ c] exI [of _ cs]) (auto simp: utf8_bytes_def valid_code_def)
    next
      case False
      have "c AND 0x80 \<noteq> 0" "c \<noteq> 0" using False less.prems(2) Cons lead_tests(1) [of c] by auto
      then obtain u k where d: "utf8_to_utf32 s = Some (Inr (u, k))"
        using less.prems(1) m unfolding Cons utf8s_to_utf16s.simps [of "c # cs"] by (auto split: option.splits sum.splits)
      have i: "valid_code u" "s = utf8_bytes u @ drop k s" using utf8_to_utf32_inv [OF d] less.prems(2) by auto
      have "0 < u"
      proof (rule ccontr)
        assume "\<not> 0 < u"
        then have "0 \<in> set s" using i(2) by (metis gr0I utf8_bytes_def list.set_intros(1) append_Cons zero_less_numeral)
        then show False using less.prems(2) by auto
      qed
      then show ?thesis using i by blast
    qed
    then obtain u r where u: "valid_code u" "0 < u" "s = utf8_bytes u @ r" by blast
    have b: "\<forall>b\<in>set r. b < 256" "\<forall>b\<in>set r. 0 < b \<and> b < 256" using less.prems(2) u(3) by auto
    have short: "length r < length s" using u(3) by simp
    have um: "length (utf16_units u) \<le> m" using m by (simp add: utf16_units_def)
    obtain ws' where w: "utf8s_to_utf16s r UTF16_LITTLE_ENDIAN (m - length (utf16_units u)) = Some (Inr ws')" "ws = utf16_units u @ ws'"
      using less.prems(1) unfolding u(3) utf8s_units [OF u(1,2) b(1) um] mapped_Inr by blast
    have "length ws' + 2 \<le> m - length (utf16_units u)" using less.prems(3) w(2) by simp
    from less.hyps [OF short w(1) b(2) this] obtain us where "valid_string us" "r = utf8_string us" by blast
    then show ?thesis using u by (intro exI [of _ "u # us"]) simp
  qed
qed

text \<open>And the other way round.\<close>

lemma utf16s_roundtrip:
  assumes "wf_utf16 ws" "3 * length ws \<le> n" "length ws + 2 \<le> m"
  shows "(\<forall>b\<in>set (utf16s_to_utf8s ws UTF16_LITTLE_ENDIAN n). 0 < b \<and> b < 256) \<and> length (utf16s_to_utf8s ws UTF16_LITTLE_ENDIAN n) \<le> 3 * length ws \<and>
    utf8s_to_utf16s (utf16s_to_utf8s ws UTF16_LITTLE_ENDIAN n) UTF16_LITTLE_ENDIAN m = Some (Inr ws)"
  using assms
proof (induction ws arbitrary: n m rule: wf_utf16.induct)
  case 1
  then show ?case by (simp add: utf16s_to_utf8s.simps [of "[]"] utf8s_to_utf16s.simps [of "[]"])
next
  case (2 w ws)
  have m: "0 < m" "m \<noteq> 1" using "2.prems"(3) by simp_all
  show ?case
  proof (cases "0xd800 \<le> w \<and> w < 0xe000")
    case True
    then obtain v r where v: "ws = v # r" "w < 0xdc00" "0xdc00 \<le> v" "v < 0xe000" "wf_utf16 r" using "2.prems"(1) by (auto split: list.splits)
    define u where "u = 0x10000 + (w - 0xd800) * 1024 + (v - 0xdc00)"
    have d: "(u - 0x10000) div 1024 = w - 0xd800" "(u - 0x10000) mod 1024 = v - 0xdc00" using v(4) by (simp_all add: u_def)
    have u: "valid_code u" "0 < u" "0x10000 \<le> u" using True v by (auto simp: u_def valid_code_def)
    have wv: "w = 0xd800 + (u - 0x10000) div 1024" "v = 0xdc00 + (u - 0x10000) mod 1024" unfolding d using True v by simp_all
    have l4: "length (utf8_bytes u) \<le> 4" by (rule utf8_bytes_le4)
    moreover have "6 \<le> n" using "2.prems"(2) v(1) by simp
    ultimately have ln: "length (utf8_bytes u) \<le> n" by linarith
    let ?t = "utf16s_to_utf8s r UTF16_LITTLE_ENDIAN (n - length (utf8_bytes u))"
    have IH: "(\<forall>b\<in>set ?t. 0 < b \<and> b < 256) \<and> length ?t \<le> 3 * length r \<and> utf8s_to_utf16s ?t UTF16_LITTLE_ENDIAN (m - 2) = Some (Inr r)"
      using "2.IH"(1) [OF True v(1) v(5), of "n - length (utf8_bytes u)" "m - 2"] "2.prems"(2,3) v(1) l4 by simp
    have t: "utf16s_to_utf8s (w # ws) UTF16_LITTLE_ENDIAN n = utf8_bytes u @ ?t" using utf16s_step(2) [OF u(1,2) ln u(3), of r] wv v(1) by simp
    show ?thesis unfolding t using IH utf8_bytes_bounds [OF u(1,2)] utf8s_step [OF u(1,2) _ m(1), of ?t] m(2) u(3) l4 wv v(1) by auto
  next
    case False
    then have w: "0 < w" "w < 0x10000" "wf_utf16 ws" using "2.prems"(1) by auto
    have u: "valid_code w" using False w by (auto simp: valid_code_def)
    have l3: "length (utf8_bytes w) \<le> 3" using w(2) by (simp add: utf8_bytes_def)
    then have ln: "length (utf8_bytes w) \<le> n" using "2.prems"(2) by simp
    let ?t = "utf16s_to_utf8s ws UTF16_LITTLE_ENDIAN (n - length (utf8_bytes w))"
    have IH: "(\<forall>b\<in>set ?t. 0 < b \<and> b < 256) \<and> length ?t \<le> 3 * length ws \<and> utf8s_to_utf16s ?t UTF16_LITTLE_ENDIAN (m - 1) = Some (Inr ws)"
      using "2.IH"(2) [OF False w(3), of "n - length (utf8_bytes w)" "m - 1"] "2.prems"(2,3) l3 by simp
    have t: "utf16s_to_utf8s (w # ws) UTF16_LITTLE_ENDIAN n = utf8_bytes w @ ?t" using utf16s_step(1) [OF u w(1) ln w(2)] by simp
    show ?thesis unfolding t using IH utf8_bytes_bounds [OF u w(1)] utf8s_step [OF u w(1) _ m(1), of ?t] m(2) w(2) l3 by auto
  qed
qed

section \<open>Names round trip\<close>

text \<open>
  C14.  Take a string of Unicode code points, without NUL and surrogates.  When its UTF-16 form has at
  most \<open>max_name_len\<close> units, \<open>ntfs_nlstoucs\<close> converts its UTF-8 bytes to exactly these units, at
  most as many as there are bytes, and \<open>ntfs_ucstonls\<close> converts them back to the same bytes;
  when it has more, the name is refused as too long and never cut off.  Any other non-empty NUL-free
  byte string is refused with an error.
\<close>

theorem name_utf8_roundtrip:
  assumes "ins \<noteq> []" "\<forall>b\<in>set ins. 0 < b \<and> b < 256"
  shows "(\<forall>us. valid_string us \<and> ins = utf8_string us \<longrightarrow>
      (if length (utf16_string us) \<le> max_name_len
       then ntfs_nlstoucs True (Some ins) max_name_len = Some (Inr (utf16_string us)) \<and>
         length (utf16_string us) \<le> length ins \<and> ntfs_ucstonls True (Some (utf16_string us)) None = Some (Inr ins)
       else ntfs_nlstoucs True (Some ins) max_name_len = Some (Inl (- ENAMETOOLONG)))) \<and>
    ((\<nexists>us. valid_string us \<and> ins = utf8_string us) \<longrightarrow>
      (\<exists>e. e \<in> {- EILSEQ, - ENAMETOOLONG} \<and> ntfs_nlstoucs True (Some ins) max_name_len = Some (Inl e)))"
proof (intro conjI allI impI)
  fix us
  assume us: "valid_string us \<and> ins = utf8_string us"
  let ?n = "length (utf16_string us)"
  have l: "length ins \<le> 3 * ?n" "?n \<le> length ins" using string_lengths [of us] us by simp_all
  moreover have "0 < length ins" using assms(1) by simp
  ultimately have "length ins < ?n * 6" by linarith
  then have bk: "ntfs_ucstonls True (Some (utf16_string us)) None = Some (Inr ins)"
    using utf16s_string [of us "?n * 6"] us by (simp add: ntfs_ucstonls_def Let_def)
  obtain ws where ws: "utf8s_to_utf16s ins UTF16_LITTLE_ENDIAN (max_name_len + 2) = Some (Inr ws)"
    "length ws \<le> ?n" "ws = utf16_string us \<or> max_name_len + 2 \<le> length ws + 1"
    using utf8s_string [of us "max_name_len + 2"] us by blast
  show "(if ?n \<le> max_name_len
       then ntfs_nlstoucs True (Some ins) max_name_len = Some (Inr (utf16_string us)) \<and>
         ?n \<le> length ins \<and> ntfs_ucstonls True (Some (utf16_string us)) None = Some (Inr ins)
       else ntfs_nlstoucs True (Some ins) max_name_len = Some (Inl (- ENAMETOOLONG)))"
    using ws bk l(2) by (auto simp: ntfs_nlstoucs_def)
next
  assume no: "\<nexists>us. valid_string us \<and> ins = utf8_string us"
  show "\<exists>e. e \<in> {- EILSEQ, - ENAMETOOLONG} \<and> ntfs_nlstoucs True (Some ins) max_name_len = Some (Inl e)"
    using utf8s_accepted [of ins "max_name_len + 2"] utf8s_total [of ins UTF16_LITTLE_ENDIAN "max_name_len + 2"] assms(2) no
    by (fastforce simp: ntfs_nlstoucs_def split: option.splits sum.splits)
qed

theorem name_utf8_roundtrip_witness:
  "ntfs_nlstoucs True (Some [0x61, 0xC3, 0xA9, 0xE2, 0x82, 0xAC, 0xF0, 0x9F, 0x98, 0x80]) 255 = Some (Inr [0x61, 0xE9, 0x20AC, 0xD83D, 0xDE00]) \<and>
   ntfs_ucstonls True (Some [0x61, 0xE9, 0x20AC, 0xD83D, 0xDE00]) None = Some (Inr [0x61, 0xC3, 0xA9, 0xE2, 0x82, 0xAC, 0xF0, 0x9F, 0x98, 0x80]) \<and>
   ntfs_nlstoucs True (Some [0x61, 0xC3, 0xA9, 0xE2, 0x82, 0xAC, 0xF0, 0x9F, 0x98, 0x80]) 4 = Some (Inl (- ENAMETOOLONG))"
proof -
  let ?us = "[0x61, 0xE9, 0x20AC, 0x1F600]" and ?ins = "[0x61, 0xC3, 0xA9, 0xE2, 0x82, 0xAC, 0xF0, 0x9F, 0x98, 0x80]"
  have v: "valid_string ?us \<and> ?ins = utf8_string ?us" by (simp add: valid_code_def utf8_bytes_def)
  have u: "utf16_string ?us = [0x61, 0xE9, 0x20AC, 0xD83D, 0xDE00]" by (simp add: utf16_units_def)
  have i: "?ins \<noteq> []" "\<forall>b\<in>set ?ins. 0 < b \<and> b < (256 :: nat)" by simp_all
  have "ntfs_nlstoucs True (Some ?ins) 255 = Some (Inr (utf16_string ?us)) \<and> ntfs_ucstonls True (Some (utf16_string ?us)) None = Some (Inr ?ins)"
    using name_utf8_roundtrip [OF i, of 255, THEN conjunct1, THEN spec, THEN mp, OF v, unfolded u] unfolding u by simp
  moreover have "ntfs_nlstoucs True (Some ?ins) 4 = Some (Inl (- ENAMETOOLONG))"
    using name_utf8_roundtrip [OF i, of 4, THEN conjunct1, THEN spec, THEN mp, OF v, unfolded u] unfolding u by simp
  ultimately show ?thesis unfolding u by blast
qed

text \<open>
  C40.  Every well-formed UTF-16 name of a directory entry can be looked up by what is shown for it:
  \<open>ntfs_ucstonls\<close> succeeds, and \<open>ntfs_nlstoucs\<close> turns the bytes back into the same units.
\<close>

theorem name_utf16_roundtrip:
  assumes "wf_utf16 ucs" "ucs \<noteq> []" "length ucs \<le> max_name_len"
  shows "\<exists>ins. ntfs_ucstonls True (Some ucs) None = Some (Inr ins) \<and> ntfs_nlstoucs True (Some ins) max_name_len = Some (Inr ucs)"
proof -
  let ?ins = "utf16s_to_utf8s ucs UTF16_LITTLE_ENDIAN (length ucs * 6)"
  have "0 < length ucs" using assms(2) by simp
  moreover have r: "length ?ins \<le> 3 * length ucs" "utf8s_to_utf16s ?ins UTF16_LITTLE_ENDIAN (max_name_len + 2) = Some (Inr ucs)"
    using utf16s_roundtrip [OF assms(1), of "length ucs * 6" "max_name_len + 2"] assms(3) by auto
  ultimately have "length ?ins < length ucs * 6" by linarith
  then have "ntfs_ucstonls True (Some ucs) None = Some (Inr ?ins)" by (simp add: ntfs_ucstonls_def Let_def)
  moreover have "ntfs_nlstoucs True (Some ?ins) max_name_len = Some (Inr ucs)" using r(2) assms(3) by (simp add: ntfs_nlstoucs_def)
  ultimately show ?thesis by blast
qed

theorem name_utf16_roundtrip_witness:
  "\<exists>ins. ntfs_ucstonls True (Some [0x4E2D, 0xD83D, 0xDE00, 0x2E]) None = Some (Inr ins) \<and>
     ntfs_nlstoucs True (Some ins) 255 = Some (Inr [0x4E2D, 0xD83D, 0xDE00, 0x2E])"
  by (rule name_utf16_roundtrip) simp_all

text \<open>
  Outside these two theorems: an empty UTF-16 name is refused, because the buffer for it has size 0,
  and an unpaired surrogate disappears from the name that is shown.
\<close>

lemma name_conversion_limits:
  "ntfs_ucstonls True (Some []) None = Some (Inl (- ENAMETOOLONG))"
  "ntfs_ucstonls True (Some [0x61, 0xD800, 0x62]) None = ntfs_ucstonls True (Some [0x61, 0x62]) None"
  by (simp_all add: ntfs_ucstonls_def utf16s_to_utf8s.simps is_surrogate_def)

end
