(* ===== verification/Names.thy ===== *)
theory Names
  imports Unicode
begin

text \<open>
  Comparison of names and index keys (core/ntfs/unistr.c, core/ntfs/collate.c, collate.h) and the
  default upcase table (core/ntfs/upcase.c).  A directory is a B+ tree ordered by \<open>ntfs_collate\<close>, so
  lookups are right only if the comparison is a linear order on the keys: the locale \<open>collation\<close> states
  what an index relies on, and it is interpreted for the rules the driver supports.

  A Unicode string is the list of its units; an index key is the list of its bytes, and reading
  past it is \<open>None\<close>.
\<close>

section \<open>Unicode strings\<close>

definition legal_ansi_char_array :: "nat list" where
  "legal_ansi_char_array =
     [0x00, 0x10, 0x10, 0x10, 0x10, 0x10, 0x10, 0x10,
      0x10, 0x10, 0x10, 0x10, 0x10, 0x10, 0x10, 0x10,
      0x10, 0x10, 0x10, 0x10, 0x10, 0x10, 0x10, 0x10,
      0x10, 0x10, 0x10, 0x10, 0x10, 0x10, 0x10, 0x10,
      0x17, 0x07, 0x18, 0x17, 0x17, 0x17, 0x17, 0x17,
      0x17, 0x17, 0x18, 0x16, 0x16, 0x17, 0x07, 0x00,
      0x17, 0x17, 0x17, 0x17, 0x17, 0x17, 0x17, 0x17,
      0x17, 0x17, 0x04, 0x16, 0x18, 0x16, 0x18, 0x18]"

definition illegal_char :: "nat \<Rightarrow> bool" where
  "illegal_char c \<longleftrightarrow> c < 64 \<and> legal_ansi_char_array ! c AND 8 \<noteq> 0"

text \<open>A character through the upcase table; the table is a list of \<open>upcase_len\<close> units.\<close>

definition upcase_char :: "nat list \<Rightarrow> nat \<Rightarrow> nat" where
  "upcase_char upcase c = (if c < length upcase then upcase ! c else c)"

fun ntfs_collate_names :: "nat list \<Rightarrow> nat list \<Rightarrow> int \<Rightarrow> bool \<Rightarrow> nat list \<Rightarrow> int" where
  "ntfs_collate_names (x # xs) (y # ys) err_val ic upcase =
     (let c1 = (if ic then upcase_char upcase x else x);
          c2 = (if ic then upcase_char upcase y else y)
      in if illegal_char c1 then err_val
         else if c1 < c2 then - 1
         else if c1 > c2 then 1
         else ntfs_collate_names xs ys err_val ic upcase)"
| "ntfs_collate_names [] (y # ys) err_val ic upcase = - 1"
| "ntfs_collate_names [] [] err_val ic upcase = 0"
| "ntfs_collate_names (x # xs) [] err_val ic upcase = (if illegal_char x then err_val else 1)"

text \<open>\<open>ntfs_ucsncmp\<close> and \<open>ntfs_ucsncasecmp\<close>: both strings must have \<open>n\<close> units or end in NUL before.\<close>

fun ntfs_ucsncmp :: "nat list \<Rightarrow> nat list \<Rightarrow> nat \<Rightarrow> int option" where
  "ntfs_ucsncmp s1 s2 0 = Some 0"
| "ntfs_ucsncmp (c1 # s1) (c2 # s2) (Suc n) =
     (if c1 < c2 then Some (- 1) else if c1 > c2 then Some 1 else if c1 = 0 then Some 0 else ntfs_ucsncmp s1 s2 n)"
| "ntfs_ucsncmp _ _ (Suc n) = None"

definition ntfs_ucsncasecmp :: "nat list \<Rightarrow> nat list \<Rightarrow> nat \<Rightarrow> nat list \<Rightarrow> int option" where
  "ntfs_ucsncasecmp s1 s2 n upcase = ntfs_ucsncmp (map (upcase_char upcase) s1) (map (upcase_char upcase) s2) n"

definition ntfs_are_names_equal :: "nat list \<Rightarrow> nat list \<Rightarrow> bool \<Rightarrow> nat list \<Rightarrow> bool option" where
  "ntfs_are_names_equal s1 s2 ic upcase =
     (if length s1 \<noteq> length s2 then Some False
      else do {
        r \<leftarrow> (if \<not> ic then ntfs_ucsncmp s1 s2 (length s1) else ntfs_ucsncasecmp s1 s2 (length s1) upcase);
        Some (r = 0) })"

definition ntfs_names_are_equal :: "nat list \<Rightarrow> nat list \<Rightarrow> bool \<Rightarrow> nat list \<Rightarrow> bool option" where
  "ntfs_names_are_equal s1 s2 ic upcase =
     (if length s1 \<noteq> length s2 then Some False
      else if length s1 = 0 then Some True
      else do {
        r \<leftarrow> (if \<not> ic then ntfs_ucsncmp s1 s2 (length s1) else ntfs_ucsncasecmp s1 s2 (length s1) upcase);
        Some (r = 0) })"

fun ntfs_ucsnlen :: "nat list \<Rightarrow> nat \<Rightarrow> nat option" where
  "ntfs_ucsnlen s 0 = Some 0"
| "ntfs_ucsnlen (c # s) (Suc n) = (if c = 0 then Some 0 else map_option Suc (ntfs_ucsnlen s n))"
| "ntfs_ucsnlen [] (Suc n) = None"

definition ntfs_ucsndup :: "nat list \<Rightarrow> nat \<Rightarrow> nat list option" where
  "ntfs_ucsndup s maxlen = do { n \<leftarrow> ntfs_ucsnlen s maxlen; Some (take n s @ [0]) }"

section \<open>Index keys\<close>

abbreviation (input) FN_NAME_LENGTH :: nat where "FN_NAME_LENGTH \<equiv> 64"
abbreviation (input) FN_NAME :: nat where "FN_NAME \<equiv> 66"

text \<open>
  The name in a \<open>struct file_name_attr\<close>.  It is read as a whole where the comparison may stop at the first
  difference, so that the model is undefined at least where the code is.
\<close>

fun le16_units :: "buf \<Rightarrow> nat \<Rightarrow> nat \<Rightarrow> nat list option" where
  "le16_units b p 0 = Some []"
| "le16_units b p (Suc n) = do { c \<leftarrow> get_le 2 b p; cs \<leftarrow> le16_units b (p + 2) n; Some (c # cs) }"

definition file_name_of :: "buf \<Rightarrow> nat list option" where
  "file_name_of b = do { n \<leftarrow> get8 b FN_NAME_LENGTH; le16_units b FN_NAME n }"

definition ntfs_file_compare_values :: "buf \<Rightarrow> buf \<Rightarrow> int \<Rightarrow> bool \<Rightarrow> nat list \<Rightarrow> int option" where
  "ntfs_file_compare_values b1 b2 err_val ic upcase = do {
     n1 \<leftarrow> file_name_of b1;
     n2 \<leftarrow> file_name_of b2;
     Some (ntfs_collate_names n1 n2 err_val ic upcase) }"

text \<open>
  Two keys are the memory from each key on and its length in bytes.  \<open>memcmp\<close> is the C library's;
  the standard fixes no more than the sign of its result, so it is a parameter.
\<close>

type_synonym c_memcmp = "buf \<Rightarrow> buf \<Rightarrow> int"

definition ntfs_collate_binary :: "c_memcmp \<Rightarrow> buf \<Rightarrow> nat \<Rightarrow> buf \<Rightarrow> nat \<Rightarrow> int option" where
  "ntfs_collate_binary memcmp d1 n1 d2 n2 = do {
     x1 \<leftarrow> slice d1 0 (min n1 n2);
     x2 \<leftarrow> slice d2 0 (min n1 n2);
     let rc = memcmp x1 x2;
     Some (if rc = 0 \<and> n1 \<noteq> n2 then (if n1 < n2 then - 1 else 1) else rc) }"

text \<open>The keys are read before their lengths are checked.\<close>

definition ntfs_collate_ntofs_ulong :: "buf \<Rightarrow> nat \<Rightarrow> buf \<Rightarrow> nat \<Rightarrow> int option" where
  "ntfs_collate_ntofs_ulong b1 n1 b2 n2 = do {
     d1 \<leftarrow> get_le 4 b1 0;
     d2 \<leftarrow> get_le 4 b2 0;
     Some (if n1 \<noteq> n2 \<or> n1 \<noteq> 4 then - EINVAL
           else if d1 < d2 then - 1 else if d1 = d2 then 0 else 1) }"

definition cmp_int :: "nat \<Rightarrow> nat \<Rightarrow> int" where
  "cmp_int a b = (if a > b then 1 else if a < b then - 1 else 0)"

text \<open>The \<open>do\<close> loop, from byte \<open>p\<close> on with \<open>len\<close> bytes left.\<close>

function ulongs_loop :: "buf \<Rightarrow> buf \<Rightarrow> nat \<Rightarrow> int \<Rightarrow> int option" where
  "ulongs_loop b1 b2 p len = do {
     d1 \<leftarrow> get_le 4 b1 p;
     d2 \<leftarrow> get_le 4 b2 p;
     if d1 = d2 \<and> len - 4 > 0 then ulongs_loop b1 b2 (p + 4) (len - 4) else Some (cmp_int d1 d2) }"
  by pat_completeness auto
termination
  by (relation "measure (\<lambda>(b1, b2, p, len). nat len)") auto

declare ulongs_loop.simps [simp del]

definition ntfs_collate_ntofs_ulongs :: "buf \<Rightarrow> nat \<Rightarrow> buf \<Rightarrow> nat \<Rightarrow> int option" where
  "ntfs_collate_ntofs_ulongs b1 n1 b2 n2 =
     (if n1 \<noteq> n2 \<or> n1 AND 3 \<noteq> 0 then Some (- 1)
      else ulongs_loop b1 b2 0 (int n1))"

definition ntfs_collate_file_name :: "nat list \<Rightarrow> buf \<Rightarrow> buf \<Rightarrow> int option" where
  "ntfs_collate_file_name upcase b1 b2 = do {
     rc \<leftarrow> ntfs_file_compare_values b1 b2 (- EINVAL) True upcase;
     if rc = 0 then ntfs_file_compare_values b1 b2 (- EINVAL) False upcase else Some rc }"

abbreviation (input) COLLATION_BINARY :: nat where "COLLATION_BINARY \<equiv> 0"
abbreviation (input) COLLATION_FILE_NAME :: nat where "COLLATION_FILE_NAME \<equiv> 1"
abbreviation (input) COLLATION_NTOFS_ULONG :: nat where "COLLATION_NTOFS_ULONG \<equiv> 0x10"
abbreviation (input) COLLATION_NTOFS_ULONGS :: nat where "COLLATION_NTOFS_ULONGS \<equiv> 0x13"

definition ntfs_collate :: "c_memcmp \<Rightarrow> nat list \<Rightarrow> nat \<Rightarrow> buf \<Rightarrow> nat \<Rightarrow> buf \<Rightarrow> nat \<Rightarrow> int option" where
  "ntfs_collate memcmp upcase cr d1 n1 d2 n2 =
     (if cr = COLLATION_BINARY then ntfs_collate_binary memcmp d1 n1 d2 n2
      else if cr = COLLATION_FILE_NAME then ntfs_collate_file_name upcase d1 d2
      else if cr = COLLATION_NTOFS_ULONG then ntfs_collate_ntofs_ulong d1 n1 d2 n2
      else if cr = COLLATION_NTOFS_ULONGS then ntfs_collate_ntofs_ulongs d1 n1 d2 n2
      else Some (- EINVAL))"

definition ntfs_is_collation_rule_supported :: "nat \<Rightarrow> bool" where
  "ntfs_is_collation_rule_supported cr \<longleftrightarrow>
     (if cr \<noteq> COLLATION_BINARY \<and> cr \<noteq> COLLATION_NTOFS_ULONG \<and> cr \<noteq> COLLATION_FILE_NAME \<and> cr \<noteq> COLLATION_NTOFS_ULONGS then False
      else cr \<le> 2 \<or> 0x10 \<le> cr \<and> cr \<le> 0x13)"

section \<open>The default upcase table\<close>

definition uc_run_table :: "(nat \<times> nat \<times> int) list" where
  "uc_run_table =
     [(0x0061, 0x007B, - 32), (0x0451, 0x045D, - 80), (0x1F70, 0x1F72, 74),
      (0x00E0, 0x00F7, - 32), (0x045E, 0x0460, - 80), (0x1F72, 0x1F76, 86),
      (0x00F8, 0x00FF, - 32), (0x0561, 0x0587, - 48), (0x1F76, 0x1F78, 100),
      (0x0256, 0x0258, - 205), (0x1F00, 0x1F08, 8), (0x1F78, 0x1F7A, 128),
      (0x028A, 0x028C, - 217), (0x1F10, 0x1F16, 8), (0x1F7A, 0x1F7C, 112),
      (0x03AC, 0x03AD, - 38), (0x1F20, 0x1F28, 8), (0x1F7C, 0x1F7E, 126),
      (0x03AD, 0x03B0, - 37), (0x1F30, 0x1F38, 8), (0x1FB0, 0x1FB2, 8),
      (0x03B1, 0x03C2, - 32), (0x1F40, 0x1F46, 8), (0x1FD0, 0x1FD2, 8),
      (0x03C2, 0x03C3, - 31), (0x1F51, 0x1F52, 8), (0x1FE0, 0x1FE2, 8),
      (0x03C3, 0x03CC, - 32), (0x1F53, 0x1F54, 8), (0x1FE5, 0x1FE6, 7),
      (0x03CC, 0x03CD, - 64), (0x1F55, 0x1F56, 8), (0x2170, 0x2180, - 16),
      (0x03CD, 0x03CF, - 63), (0x1F57, 0x1F58, 8), (0x24D0, 0x24EA, - 26),
      (0x0430, 0x0450, - 32), (0x1F60, 0x1F68, 8), (0xFF41, 0xFF5B, - 32)]"

definition uc_dup_table :: "(nat \<times> nat) list" where
  "uc_dup_table =
     [(0x0100, 0x012F), (0x01A0, 0x01A6), (0x03E2, 0x03EF), (0x04CB, 0x04CC),
      (0x0132, 0x0137), (0x01B3, 0x01B7), (0x0460, 0x0481), (0x04D0, 0x04EB),
      (0x0139, 0x0149), (0x01CD, 0x01DD), (0x0490, 0x04BF), (0x04EE, 0x04F5),
      (0x014A, 0x0178), (0x01DE, 0x01EF), (0x04BF, 0x04BF), (0x04F8, 0x04F9),
      (0x0179, 0x017E), (0x01F4, 0x01F5), (0x04C1, 0x04C4), (0x1E00, 0x1E95),
      (0x018B, 0x018B), (0x01FA, 0x0218), (0x04C7, 0x04C8), (0x1EA0, 0x1EF9)]"

definition uc_word_table :: "(nat \<times> nat) list" where
  "uc_word_table =
     [(0x00FF, 0x0178), (0x01AD, 0x01AC), (0x01F3, 0x01F1), (0x0269, 0x0196),
      (0x0183, 0x0182), (0x01B0, 0x01AF), (0x0253, 0x0181), (0x026F, 0x019C),
      (0x0185, 0x0184), (0x01B9, 0x01B8), (0x0254, 0x0186), (0x0272, 0x019D),
      (0x0188, 0x0187), (0x01BD, 0x01BC), (0x0259, 0x018F), (0x0275, 0x019F),
      (0x018C, 0x018B), (0x01C6, 0x01C4), (0x025B, 0x0190), (0x0283, 0x01A9),
      (0x0192, 0x0191), (0x01C9, 0x01C7), (0x0260, 0x0193), (0x0288, 0x01AE),
      (0x0199, 0x0198), (0x01CC, 0x01CA), (0x0263, 0x0194), (0x0292, 0x01B7),
      (0x01A8, 0x01A7), (0x01DD, 0x018E), (0x0268, 0x0197)]"

definition le16_add :: "nat \<Rightarrow> int \<Rightarrow> nat list \<Rightarrow> nat list" where
  "le16_add i d uc = uc[i := nat ((int (uc ! i) + d) mod 65536)]"

text \<open>The indices of a row: \<open>start\<close> up to \<open>stop\<close> in steps of one, or of two.\<close>

definition uc_runs :: "nat list \<Rightarrow> nat list" where
  "uc_runs uc = fold (\<lambda>(start, stop, d). fold (\<lambda>i. le16_add i d) [start..<stop]) uc_run_table uc"

definition uc_dups :: "nat list \<Rightarrow> nat list" where
  "uc_dups uc = fold (\<lambda>(start, stop). fold (\<lambda>k. le16_add (start + 2 * k + 1) (- 1)) [0..<(stop - start + 1) div 2]) uc_dup_table uc"

definition uc_words :: "nat list \<Rightarrow> nat list" where
  "uc_words uc = fold (\<lambda>(i, v) uc. uc[i := v]) uc_word_table uc"

definition generate_default_upcase :: "nat list" where
  "generate_default_upcase = uc_words (uc_dups (uc_runs [0..<0x10000]))"
section \<open>Collation is a linear order\<close>

text \<open>
  What an index relies on: on the keys that occur in it, the comparison returns, its value is
  \<open>-1\<close>, \<open>0\<close> or \<open>1\<close>, and it orders the keys linearly, where \<open>key\<close> is the part of a key that counts.
  The walk along the entries of an index block, which stops at the first entry that is not
  smaller, then finds a key exactly when the block has it.
\<close>

locale collation =
  fixes cmp :: "'k \<Rightarrow> 'k \<Rightarrow> int option" and key :: "'k \<Rightarrow> nat list" and keys :: "'k set"
  assumes cmp_range: "x \<in> keys \<Longrightarrow> y \<in> keys \<Longrightarrow> cmp x y \<in> {Some (- 1), Some 0, Some 1}"
    and cmp_swap: "x \<in> keys \<Longrightarrow> y \<in> keys \<Longrightarrow> cmp y x = map_option uminus (cmp x y)"
    and cmp_eq: "x \<in> keys \<Longrightarrow> y \<in> keys \<Longrightarrow> cmp x y = Some 0 \<longleftrightarrow> key x = key y"
    and cmp_trans: "x \<in> keys \<Longrightarrow> y \<in> keys \<Longrightarrow> z \<in> keys \<Longrightarrow> cmp x y = Some (- 1) \<Longrightarrow> cmp y z = Some (- 1) \<Longrightarrow> cmp x z = Some (- 1)"
begin

text \<open>Where the entries of a block are in order, the first one that is not smaller decides.\<close>

lemma find_sorted:
  assumes "sorted_wrt (\<lambda>a b. cmp a b = Some (- 1)) ks" "set ks \<subseteq> keys" "k \<in> keys"
  shows "key k \<in> key ` set ks \<longleftrightarrow> (case dropWhile (\<lambda>a. cmp k a = Some 1) ks of [] \<Rightarrow> False | a # _ \<Rightarrow> cmp k a = Some 0)"
  using assms(1,2)
proof (induction ks)
  case (Cons a ks)
  have a: "a \<in> keys" using Cons.prems(2) by simp
  consider "cmp k a = Some 1" | "cmp k a = Some 0" | "cmp k a = Some (- 1)" using cmp_range [OF assms(3) a] by blast
  then show ?case
  proof cases
    case 1
    then have "key k \<noteq> key a" using cmp_eq [OF assms(3) a] by simp
    then show ?thesis using 1 Cons by simp
  next
    case 2
    then show ?thesis using cmp_eq [OF assms(3) a] by simp
  next
    case 3
    have no: "key k \<noteq> key b" if b: "b \<in> set ks" for b
    proof -
      have bk: "b \<in> keys" using b Cons.prems(2) by auto
      have "cmp a b = Some (- 1)" using Cons.prems(1) b by simp
      then have "cmp k b = Some (- 1)" using cmp_trans [OF assms(3) a bk 3] by simp
      then show ?thesis using cmp_eq [OF assms(3) bk] by auto
    qed
    moreover have "key k \<noteq> key a" using 3 cmp_eq [OF assms(3) a] by auto
    ultimately show ?thesis using 3 by auto
  qed
qed simp

text \<open>Inserting a key before the first one that is not smaller keeps the order.\<close>

lemma insert_sorted:
  assumes "sorted_wrt (\<lambda>a b. cmp a b = Some (- 1)) ks" "set ks \<subseteq> keys" "k \<in> keys" "key k \<notin> key ` set ks"
  shows "sorted_wrt (\<lambda>a b. cmp a b = Some (- 1))
           (takeWhile (\<lambda>a. cmp k a = Some 1) ks @ k # dropWhile (\<lambda>a. cmp k a = Some 1) ks)"
  using assms(1,2,4)
proof (induction ks)
  case (Cons a ks)
  have a: "a \<in> keys" using Cons.prems(2) by simp
  have ne: "cmp k a \<noteq> Some 0" using Cons.prems(3) cmp_eq [OF assms(3) a] by auto
  consider "cmp k a = Some 1" | "cmp k a = Some (- 1)" using cmp_range [OF assms(3) a] ne by blast
  then show ?case
  proof cases
    case 1
    have "cmp a k = Some (- 1)" using cmp_swap [OF assms(3) a] 1 by simp
    moreover have "set (takeWhile (\<lambda>a. cmp k a = Some 1) ks) \<union> set (dropWhile (\<lambda>a. cmp k a = Some 1) ks) = set ks"
      by (metis set_append takeWhile_dropWhile_id)
    ultimately show ?thesis using 1 Cons by auto
  next
    case 2
    have "cmp k b = Some (- 1)" if "b \<in> set ks" for b
      using cmp_trans [OF assms(3) a _ 2] Cons.prems(1,2) that by auto
    then show ?thesis using 2 Cons.prems by auto
  qed
qed simp

end

text \<open>Lexicographic comparison of number strings, a prefix being smaller.\<close>

fun lex_cmp :: "nat list \<Rightarrow> nat list \<Rightarrow> int" where
  "lex_cmp (x # xs) (y # ys) = (if x < y then - 1 else if y < x then 1 else lex_cmp xs ys)"
| "lex_cmp [] (y # ys) = - 1"
| "lex_cmp [] [] = 0"
| "lex_cmp (x # xs) [] = 1"

lemma lex_range: "lex_cmp xs ys \<in> {- 1, 0, 1}"
  by (induction xs ys rule: lex_cmp.induct) simp_all

lemma lex_swap: "lex_cmp ys xs = - lex_cmp xs ys"
  by (induction xs ys rule: lex_cmp.induct) simp_all

lemma lex_eq: "lex_cmp xs ys = 0 \<longleftrightarrow> xs = ys"
  by (induction xs ys rule: lex_cmp.induct) (simp_all, linarith?)

lemma lex_less_Cons: "lex_cmp (x # xs) zs = - 1 \<longleftrightarrow> (\<exists>z zs'. zs = z # zs' \<and> (x < z \<or> x = z \<and> lex_cmp xs zs' = - 1))"
  by (cases zs) auto

lemma lex_trans: "lex_cmp xs ys = - 1 \<Longrightarrow> lex_cmp ys zs = - 1 \<Longrightarrow> lex_cmp xs zs = - 1"
proof (induction xs ys arbitrary: zs rule: lex_cmp.induct)
  case (1 x xs y ys)
  obtain z zs' where z: "zs = z # zs'" "y < z \<or> y = z \<and> lex_cmp ys zs' = - 1" using 1(3) unfolding lex_less_Cons by blast
  have xy: "x < y \<or> x = y \<and> lex_cmp xs ys = - 1" using 1(2) unfolding lex_less_Cons by blast
  have ih: "lex_cmp xs zs' = - 1" if "x = y" "lex_cmp xs ys = - 1" "lex_cmp ys zs' = - 1"
    using 1(1) that by simp
  show ?case unfolding lex_less_Cons using z xy ih by auto
next
  case (2 y ys)
  then obtain z zs' where "zs = z # zs'" unfolding lex_less_Cons by blast
  then show ?case by simp
qed simp_all

text \<open>
  Each rule compares a list of numbers that the key determines, lexicographically.
\<close>

locale lex_collation =
  fixes cmp :: "'k \<Rightarrow> 'k \<Rightarrow> int option" and key :: "'k \<Rightarrow> nat list" and keys :: "'k set"
  assumes cmp_lex: "x \<in> keys \<Longrightarrow> y \<in> keys \<Longrightarrow> cmp x y = Some (lex_cmp (key x) (key y))"

sublocale lex_collation \<subseteq> collation cmp key keys
proof
  fix x y z
  assume x: "x \<in> keys" and y: "y \<in> keys"
  show "cmp x y \<in> {Some (- 1), Some 0, Some 1}" using lex_range [of "key x" "key y"] by (simp add: cmp_lex x y)
  show "cmp y x = map_option uminus (cmp x y)" unfolding cmp_lex [OF x y] cmp_lex [OF y x] by (simp add: lex_swap [of "key y" "key x"])
  show "cmp x y = Some 0 \<longleftrightarrow> key x = key y" by (simp add: cmp_lex x y lex_eq)
  show "cmp x y = Some (- 1) \<Longrightarrow> cmp y z = Some (- 1) \<Longrightarrow> cmp x z = Some (- 1)" if "z \<in> keys"
    using lex_trans [of "key x" "key y" "key z"] by (simp add: cmp_lex x y that)
qed

section \<open>The rules of the driver\<close>

text \<open>
  A name that can be compared: no character of it, as it is or through the upcase table, is one
  that \<open>legal_ansi_char_array\<close> excludes.
\<close>

definition legal_name :: "nat list \<Rightarrow> nat list \<Rightarrow> bool" where
  "legal_name upcase name \<longleftrightarrow> (\<forall>c\<in>set name. \<not> illegal_char c \<and> \<not> illegal_char (upcase_char upcase c))"

definition fold_case :: "bool \<Rightarrow> nat list \<Rightarrow> nat list \<Rightarrow> nat list" where
  "fold_case ic upcase name = (if ic then map (upcase_char upcase) name else name)"

lemma collate_names_lex:
  "legal_name upcase xs \<Longrightarrow>
   ntfs_collate_names xs ys err_val ic upcase = lex_cmp (fold_case ic upcase xs) (fold_case ic upcase ys)"
proof (induction xs arbitrary: ys)
  case (Cons x xs)
  then show ?case by (cases ys; cases ic) (simp_all add: legal_name_def fold_case_def Let_def)
next
  case Nil
  then show ?case by (cases ys) (simp_all add: fold_case_def)
qed

text \<open>The upcased name decides, then the name as it is: one list, a separator between the two.\<close>

definition name_key :: "nat list \<Rightarrow> nat list \<Rightarrow> nat list" where
  "name_key upcase name = map Suc (fold_case True upcase name) @ 0 # map Suc name"

lemma lex_pair:
  "lex_cmp (map Suc xs @ 0 # map Suc as) (map Suc ys @ 0 # map Suc bs) = (if lex_cmp xs ys = 0 then lex_cmp as bs else lex_cmp xs ys)"
proof (induction xs ys rule: lex_cmp.induct)
  case 3
  have "lex_cmp (map Suc as) (map Suc bs) = lex_cmp as bs" by (induction as bs rule: lex_cmp.induct) simp_all
  then show ?case by simp
qed simp_all

lemma name_key_lex:
  "lex_cmp (name_key upcase xs) (name_key upcase ys) =
     (let rc = lex_cmp (fold_case True upcase xs) (fold_case True upcase ys)
      in if rc = 0 then lex_cmp (fold_case False upcase xs) (fold_case False upcase ys) else rc)"
  unfolding name_key_def lex_pair by (simp add: Let_def fold_case_def)

lemma name_key_eq: "name_key upcase xs = name_key upcase ys \<longleftrightarrow> xs = ys"
proof
  assume "name_key upcase xs = name_key upcase ys"
  then have "lex_cmp (name_key upcase xs) (name_key upcase ys) = 0" by (simp add: lex_eq)
  then show "xs = ys" by (simp add: name_key_lex Let_def fold_case_def lex_eq split: if_split_asm)
qed simp

lemma collate_file_name_lex:
  assumes "file_name_of d1 = Some xs" "file_name_of d2 = Some ys" "legal_name upcase xs"
  shows "ntfs_collate_file_name upcase d1 d2 = Some (lex_cmp (name_key upcase xs) (name_key upcase ys))"
  by (simp add: ntfs_collate_file_name_def ntfs_file_compare_values_def assms collate_names_lex name_key_lex Let_def)

text \<open>The 32-bit numbers of a key.\<close>

fun le32_units :: "buf \<Rightarrow> nat \<Rightarrow> nat \<Rightarrow> nat list" where
  "le32_units b p 0 = []"
| "le32_units b p (Suc n) = the (get_le 4 b p) # le32_units b (p + 4) n"

lemma ulongs_loop_lex:
  "p + 4 * Suc n \<le> length b1 \<Longrightarrow> p + 4 * Suc n \<le> length b2 \<Longrightarrow>
   ulongs_loop b1 b2 p (4 * int (Suc n)) = Some (lex_cmp (le32_units b1 p (Suc n)) (le32_units b2 p (Suc n)))"
proof (induction n arbitrary: p)
  case 0
  then show ?case
    using get_le_ok [of p 4 b1] get_le_ok [of p 4 b2] by (auto simp: ulongs_loop.simps [of b1 b2 p] cmp_int_def)
next
  case (Suc n)
  obtain d1 d2 where d: "get_le 4 b1 p = Some d1" "get_le 4 b2 p = Some d2"
    using get_le_ok [of p 4 b1] get_le_ok [of p 4 b2] Suc.prems by auto
  have ih: "ulongs_loop b1 b2 (p + 4) (4 * int (Suc n)) = Some (lex_cmp (le32_units b1 (p + 4) (Suc n)) (le32_units b2 (p + 4) (Suc n)))"
    using Suc.IH [of "p + 4"] Suc.prems by simp
  have "ulongs_loop b1 b2 p (4 * int (Suc (Suc n))) =
      (if d1 = d2 then ulongs_loop b1 b2 (p + 4) (4 * int (Suc n)) else Some (cmp_int d1 d2))"
    unfolding ulongs_loop.simps [of b1 b2 p] d by (simp add: algebra_simps)
  then show ?case unfolding ih by (simp add: d cmp_int_def)
qed

lemma lex_take_min:
  "lex_cmp xs ys =
     (let n = min (length xs) (length ys); rc = lex_cmp (take n xs) (take n ys)
      in if rc = 0 \<and> length xs \<noteq> length ys then (if length xs < length ys then - 1 else 1) else rc)"
  by (induction xs ys rule: lex_cmp.induct) (simp_all add: Let_def)

text \<open>
  What C documents of \<open>memcmp\<close> is the sign of its result (\<open>memcmp_doc\<close>).  The callers of
  \<open>ntfs_collate\<close> test for \<open>-1\<close> and so need more when the rule is \<open>COLLATION_BINARY\<close>, the only one
  that calls \<open>memcmp\<close>: a \<open>memcmp\<close> that returns \<open>-1\<close>, \<open>0\<close> or \<open>1\<close> (\<open>memcmp_sign\<close>).
  \<open>memcmp_for\<close> is this condition on the rule of an index; it is empty for the three other rules.
\<close>

definition memcmp_doc :: "c_memcmp \<Rightarrow> bool" where
  "memcmp_doc memcmp \<longleftrightarrow> (\<forall>xs ys. length xs = length ys \<longrightarrow> sgn (memcmp xs ys) = lex_cmp (map unat xs) (map unat ys))"

definition memcmp_sign :: "c_memcmp \<Rightarrow> bool" where
  "memcmp_sign memcmp \<longleftrightarrow> (\<forall>xs ys. length xs = length ys \<longrightarrow> memcmp xs ys = lex_cmp (map unat xs) (map unat ys))"

definition memcmp_for :: "nat \<Rightarrow> c_memcmp \<Rightarrow> bool" where
  "memcmp_for cr memcmp \<longleftrightarrow> (cr = COLLATION_BINARY \<longrightarrow> memcmp_sign memcmp)"

lemma collate_binary_lex:
  assumes "memcmp_sign memcmp" "n1 \<le> length d1" "n2 \<le> length d2"
  shows "ntfs_collate_binary memcmp d1 n1 d2 n2 = Some (lex_cmp (map unat (take n1 d1)) (map unat (take n2 d2)))"
proof -
  have "memcmp (take (min n1 n2) d1) (take (min n1 n2) d2) =
      lex_cmp (take (min n1 n2) (map unat (take n1 d1))) (take (min n1 n2) (map unat (take n2 d2)))"
    using assms by (simp add: memcmp_sign_def take_map min_def)
  then show ?thesis
    unfolding lex_take_min [of "map unat (take n1 d1)"] using assms(2,3)
    by (simp add: ntfs_collate_binary_def slice_def Let_def min_absorb2 min.coboundedI1 min.coboundedI2)
qed

text \<open>
  The keys an index of a rule may hold: a name that can be compared, one number, \<open>n\<close> bytes that are
  numbers, or any bytes.  A key is the memory from it on and its length.
\<close>

definition index_key :: "nat list \<Rightarrow> nat \<Rightarrow> nat \<Rightarrow> buf \<times> nat \<Rightarrow> bool" where
  "index_key upcase cr n = (\<lambda>(d, len).
     if cr = COLLATION_BINARY then len \<le> length d
     else if cr = COLLATION_FILE_NAME then (case file_name_of d of None \<Rightarrow> False | Some name \<Rightarrow> legal_name upcase name)
     else if cr = COLLATION_NTOFS_ULONG then len = 4 \<and> 4 \<le> length d
     else cr = COLLATION_NTOFS_ULONGS \<and> len = 4 * Suc n \<and> len \<le> length d)"

text \<open>What the rule compares.\<close>

definition index_key_value :: "nat list \<Rightarrow> nat \<Rightarrow> buf \<times> nat \<Rightarrow> nat list" where
  "index_key_value upcase cr = (\<lambda>(d, len).
     if cr = COLLATION_BINARY then map unat (take len d)
     else if cr = COLLATION_FILE_NAME then name_key upcase (the (file_name_of d))
     else le32_units d 0 (len div 4))"

definition index_cmp :: "c_memcmp \<Rightarrow> nat list \<Rightarrow> nat \<Rightarrow> buf \<times> nat \<Rightarrow> buf \<times> nat \<Rightarrow> int option" where
  "index_cmp memcmp upcase cr = (\<lambda>(d1, n1) (d2, n2). ntfs_collate memcmp upcase cr d1 n1 d2 n2)"

definition index_keys :: "c_memcmp \<Rightarrow> nat list \<Rightarrow> nat \<Rightarrow> nat \<Rightarrow> (buf \<times> nat) set" where
  "index_keys memcmp upcase cr n = {k. memcmp_for cr memcmp \<and> index_key upcase cr n k}"

lemma index_cmp_lex:
  assumes "memcmp_for cr memcmp" "index_key upcase cr n x" "index_key upcase cr n y"
  shows "index_cmp memcmp upcase cr x y = Some (lex_cmp (index_key_value upcase cr x) (index_key_value upcase cr y))"
proof -
  obtain d1 n1 d2 n2 where xy [simp]: "x = (d1, n1)" "y = (d2, n2)" by fastforce
  have "cr \<in> {0, 1, 0x10, 0x13}" by (rule ccontr) (use assms(2) in \<open>simp add: index_key_def\<close>)
  then consider "cr = 0" | "cr = 1" | "cr = 0x10" | "cr = 0x13" by blast
  then show ?thesis
  proof cases
    case 1
    then show ?thesis using assms
      by (simp add: memcmp_for_def index_cmp_def ntfs_collate_def index_key_def index_key_value_def collate_binary_lex)
  next
    case 2
    then show ?thesis using assms(2,3)
      by (simp add: index_cmp_def ntfs_collate_def index_key_def index_key_value_def collate_file_name_lex split: option.splits)
  next
    case 3
    have l: "n1 = 4" "n2 = 4" "4 \<le> length d1" "4 \<le> length d2" using assms(2,3) 3 by (simp_all add: index_key_def)
    obtain v1 v2 where "get_le 4 d1 0 = Some v1" "get_le 4 d2 0 = Some v2"
      using get_le_ok [of 0 4 d1] get_le_ok [of 0 4 d2] l by auto
    then show ?thesis using 3
      by (simp add: index_cmp_def ntfs_collate_def index_key_value_def ntfs_collate_ntofs_ulong_def l le32_units.simps(2) [of _ _ 0, simplified])
  next
    case 4
    have l: "n1 = 4 * Suc n" "n2 = 4 * Suc n" "n1 \<le> length d1" "n2 \<le> length d2"
      using assms(2,3) 4 by (simp_all add: index_key_def)
    have "4 * Suc n AND 3 = 0" using nat_and_mask_low [of "4 * Suc n" 2] by simp
    then show ?thesis using 4 ulongs_loop_lex [of 0 n d1 d2] l
      by (simp add: index_cmp_def ntfs_collate_def index_key_value_def ntfs_collate_ntofs_ulongs_def)
  qed
qed

interpretation idx: lex_collation "index_cmp memcmp upcase cr" "index_key_value upcase cr" "index_keys memcmp upcase cr n"
  for memcmp upcase cr n
  by unfold_locales (simp add: index_keys_def, elim conjE, rule index_cmp_lex)

text \<open>With no more than the documented sign of \<open>memcmp\<close>, the sign of the comparison is that of the exact one.\<close>

lemma collate_sgn:
  "ntfs_collate (\<lambda>xs ys. sgn (memcmp xs ys)) upcase cr d1 n1 d2 n2 =
     (if cr = COLLATION_BINARY then map_option sgn (ntfs_collate memcmp upcase cr d1 n1 d2 n2)
      else ntfs_collate memcmp upcase cr d1 n1 d2 n2)"
proof (cases "slice d1 0 (min n1 n2)"; cases "slice d2 0 (min n1 n2)")
  fix x1 x2
  assume "slice d1 0 (min n1 n2) = Some x1" "slice d2 0 (min n1 n2) = Some x2"
  then show ?thesis by (simp add: ntfs_collate_def ntfs_collate_binary_def Let_def sgn_0_0)
qed (simp_all add: ntfs_collate_def ntfs_collate_binary_def)

lemma collate_sign_lex:
  assumes "memcmp_doc memcmp" "index_key upcase cr n (d1, n1)" "index_key upcase cr n (d2, n2)"
  shows "\<exists>c. ntfs_collate memcmp upcase cr d1 n1 d2 n2 = Some c \<and> (cr \<noteq> COLLATION_BINARY \<longrightarrow> c \<in> {- 1, 0, 1}) \<and>
    index_cmp (\<lambda>xs ys. sgn (memcmp xs ys)) upcase cr (d1, n1) (d2, n2) = Some (sgn c)"
proof -
  let ?m = "\<lambda>xs ys. sgn (memcmp xs ys)"
  have m: "memcmp_for cr ?m" using assms(1) by (simp add: memcmp_for_def memcmp_sign_def memcmp_doc_def)
  obtain s where s: "index_cmp ?m upcase cr (d1, n1) (d2, n2) = Some s" "s \<in> {- 1, 0, 1}"
    using idx.cmp_range [of "(d1, n1)" ?m upcase cr n "(d2, n2)"] m assms(2,3) by (auto simp: index_keys_def)
  then show ?thesis using collate_sgn [of memcmp upcase cr d1 n1 d2 n2] by (auto simp: index_cmp_def split: if_splits)
qed

text \<open>
  C15.  The comparison an index is ordered by is a linear order.  For the four collation rules the
  driver supports, keys of the kind the rule is for (names without characters
  \<open>legal_ansi_char_array\<close> excludes, numbers of equal count), and any \<open>memcmp\<close> that behaves as C
  documents it, \<open>ntfs_collate\<close> reads no memory outside the keys; exchanging the keys reverses the sign
  of the result; the result is \<open>0\<close> only for equal keys, for file names exactly for equal names,
  though names compare without case first; and its sign is transitive.  Except for
  \<open>COLLATION_BINARY\<close>, which passes on what \<open>memcmp\<close> returns, the result is \<open>-1\<close>, \<open>0\<close> or \<open>1\<close>.
\<close>

theorem collate_linear_order:
  assumes "memcmp_doc memcmp"
    and "index_key upcase cr n (d1, n1)" "index_key upcase cr n (d2, n2)" "index_key upcase cr n (d3, n3)"
  shows "\<exists>c12 c21 c23 c13. ntfs_collate memcmp upcase cr d1 n1 d2 n2 = Some c12 \<and>
             ntfs_collate memcmp upcase cr d2 n2 d1 n1 = Some c21 \<and>
             ntfs_collate memcmp upcase cr d2 n2 d3 n3 = Some c23 \<and>
             ntfs_collate memcmp upcase cr d1 n1 d3 n3 = Some c13 \<and>
             (cr \<noteq> COLLATION_BINARY \<longrightarrow> c12 \<in> {- 1, 0, 1}) \<and>
             sgn c21 = - sgn c12 \<and>
             (c12 = 0 \<longleftrightarrow> index_key_value upcase cr (d1, n1) = index_key_value upcase cr (d2, n2)) \<and>
             (cr = COLLATION_FILE_NAME \<longrightarrow> (c12 = 0 \<longleftrightarrow> file_name_of d1 = file_name_of d2)) \<and>
             (c12 < 0 \<and> c23 < 0 \<longrightarrow> c13 < 0)"
proof -
  let ?x = "(d1, n1)" and ?y = "(d2, n2)" and ?z = "(d3, n3)" and ?m = "\<lambda>xs ys. sgn (memcmp xs ys)"
  have m: "memcmp_for cr ?m" using assms(1) by (simp add: memcmp_for_def memcmp_sign_def memcmp_doc_def)
  have k: "?x \<in> index_keys ?m upcase cr n" "?y \<in> index_keys ?m upcase cr n" "?z \<in> index_keys ?m upcase cr n"
    using assms m by (simp_all add: index_keys_def)
  note s = collate_sign_lex [OF assms(1)]
  obtain c12 where c12: "ntfs_collate memcmp upcase cr d1 n1 d2 n2 = Some c12" "cr \<noteq> COLLATION_BINARY \<longrightarrow> c12 \<in> {- 1, 0, 1}"
    "index_cmp ?m upcase cr ?x ?y = Some (sgn c12)" using s [OF assms(2,3)] by blast
  obtain c21 where c21: "ntfs_collate memcmp upcase cr d2 n2 d1 n1 = Some c21" "index_cmp ?m upcase cr ?y ?x = Some (sgn c21)"
    using s [OF assms(3,2)] by blast
  obtain c23 where c23: "ntfs_collate memcmp upcase cr d2 n2 d3 n3 = Some c23" "index_cmp ?m upcase cr ?y ?z = Some (sgn c23)"
    using s [OF assms(3,4)] by blast
  obtain c13 where c13: "ntfs_collate memcmp upcase cr d1 n1 d3 n3 = Some c13" "index_cmp ?m upcase cr ?x ?z = Some (sgn c13)"
    using s [OF assms(2,4)] by blast
  have fn: "index_key_value upcase cr ?x = index_key_value upcase cr ?y \<longleftrightarrow> file_name_of d1 = file_name_of d2" if "cr = 1"
    using assms(2,3) that by (auto simp: index_key_def index_key_value_def name_key_eq split: option.splits)
  have "sgn c21 = - sgn c12" using idx.cmp_swap [OF k(1,2)] c12(3) c21(2) by simp
  moreover have e: "c12 = 0 \<longleftrightarrow> index_key_value upcase cr ?x = index_key_value upcase cr ?y"
    using idx.cmp_eq [OF k(1,2)] c12(3) by (simp add: sgn_0_0)
  moreover have "c12 < 0 \<and> c23 < 0 \<longrightarrow> c13 < 0"
    using idx.cmp_trans [OF k] c12(3) c23(2) c13(2) by (auto simp: sgn_if split: if_splits)
  ultimately show ?thesis using c12 c21 c23 c13 fn by auto
qed

definition ex_fname :: "nat list \<Rightarrow> buf" where
  "ex_fname cs = replicate 64 0 @ [of_nat (length cs), 0] @ concat (map (le_bytes 2) cs)"

definition ex_upcase :: "nat list" where
  "ex_upcase = map (\<lambda>c. if 0x61 \<le> c \<and> c \<le> 0x7A then c - 32 else c) [0..<0x80]"

definition lex_memcmp :: c_memcmp where
  "lex_memcmp xs ys = lex_cmp (map unat xs) (map unat ys)"

lemma file_name_of_ex: "c < 65536 \<Longrightarrow> file_name_of (ex_fname [c]) = Some [c]"
proof -
  assume c: "c < 65536"
  let ?b = "replicate 64 0 @ [1, 0] @ le_bytes 2 c"
  have "get_le 1 ?b 64 = Some 1" by (simp add: get_le_def slice_def)
  moreover have "get_le 2 ?b 66 = Some c" using c by (simp add: get_le_def slice_def)
  ultimately show ?thesis by (simp add: file_name_of_def get8_def ex_fname_def le16_units.simps(2) [of _ _ 0, simplified])
qed

lemma index_key_ex: "c < 0x80 \<Longrightarrow> 64 < c \<Longrightarrow> index_key ex_upcase 1 0 (ex_fname [c], 68)"
  by (auto simp: index_key_def file_name_of_ex legal_name_def illegal_char_def upcase_char_def ex_upcase_def)

text \<open>The names \<open>a\<close>, \<open>B\<close> and \<open>b\<close>, in this order.\<close>

theorem collate_linear_order_witness:
  "\<exists>c. ntfs_collate lex_memcmp ex_upcase 1 (ex_fname [0x61]) 68 (ex_fname [0x42]) 68 = Some c \<and> c \<in> {- 1, 0, 1} \<and>
       (\<exists>c'. ntfs_collate lex_memcmp ex_upcase 1 (ex_fname [0x42]) 68 (ex_fname [0x61]) 68 = Some c' \<and> sgn c' = - sgn c) \<and> c \<noteq> 0"
proof -
  have "sgn (lex_cmp xs ys) = lex_cmp xs ys" for xs ys :: "nat list" by (induction xs ys rule: lex_cmp.induct) simp_all
  then have k: "memcmp_doc lex_memcmp" by (simp add: memcmp_doc_def lex_memcmp_def)
  have "file_name_of (ex_fname [0x61]) \<noteq> file_name_of (ex_fname [0x42])" by (simp add: file_name_of_ex)
  then show ?thesis
    using collate_linear_order [OF k index_key_ex index_key_ex index_key_ex, of "0x61" "0x42" "0x62"] by auto
qed

text \<open>
  The default table upcases the letters of ASCII and leaves the rest of ASCII as it is: of the
  other rows of the tables none reaches below 128.
\<close>

lemma nth_fold_le16_add:
  "i \<notin> f ` set ks \<Longrightarrow> fold (\<lambda>k. le16_add (f k) d) ks uc ! i = uc ! i"
  by (induction ks arbitrary: uc) (auto simp: le16_add_def)

lemma length_fold_le16_add [simp]: "length (fold (\<lambda>k. le16_add (f k) d) ks uc) = length uc"
  by (induction ks arbitrary: uc) (simp_all add: le16_add_def)

lemma nth_fold_le16_add_hit:
  "distinct ks \<Longrightarrow> i \<in> set ks \<Longrightarrow> i < length uc \<Longrightarrow>
   fold (\<lambda>k. le16_add k d) ks uc ! i = nat ((int (uc ! i) + d) mod 65536)"
proof (induction ks arbitrary: uc)
  case (Cons k ks)
  show ?case
  proof (cases "i = k")
    case True
    then show ?thesis using Cons.prems nth_fold_le16_add [of i id ks d "le16_add k d uc"] by simp (simp add: le16_add_def)
  next
    case False
    then have "le16_add k d uc ! i = uc ! i" "length (le16_add k d uc) = length uc" by (simp_all add: le16_add_def)
    then show ?thesis using False Cons by simp
  qed
qed simp

lemma nth_uc_runs_low:
  "\<forall>(start, stop, d)\<in>set rows. 128 \<le> start \<Longrightarrow> i < 128 \<Longrightarrow>
   fold (\<lambda>(start, stop, d). fold (\<lambda>i. le16_add i d) [start..<stop]) rows uc ! i = uc ! i"
proof (induction rows arbitrary: uc)
  case (Cons r rows)
  obtain start stop d where r: "r = (start, stop, d)" by (cases r)
  have "fold (\<lambda>i. le16_add i d) [start..<stop] uc ! i = uc ! i"
    using Cons.prems nth_fold_le16_add [of i id "[start..<stop]" d uc] by (simp add: r)
  then show ?case using Cons by (simp add: r)
qed simp

lemma nth_uc_dup_rows_low:
  "\<forall>(start, stop)\<in>set rows. 128 \<le> start \<Longrightarrow> i < 128 \<Longrightarrow>
   fold (\<lambda>(start, stop). fold (\<lambda>k. le16_add (start + 2 * k + 1) (- 1)) [0..<(stop - start + 1) div 2]) rows uc ! i = uc ! i"
proof (induction rows arbitrary: uc)
  case (Cons r rows)
  obtain start stop where r: "r = (start, stop)" by (cases r)
  have "fold (\<lambda>k. le16_add (start + 2 * k + 1) (- 1)) [0..<(stop - start + 1) div 2] uc ! i = uc ! i"
    by (rule nth_fold_le16_add [of i "\<lambda>k. start + 2 * k + 1"]) (use Cons.prems in \<open>auto simp: r\<close>)
  then show ?case using Cons by (simp add: r)
qed simp

lemma nth_uc_dups_low: "i < 128 \<Longrightarrow> uc_dups uc ! i = uc ! i"
  unfolding uc_dups_def by (rule nth_uc_dup_rows_low) (simp_all add: uc_dup_table_def)

lemma nth_uc_words_low: "i < 128 \<Longrightarrow> uc_words uc ! i = uc ! i"
  by (simp add: uc_words_def uc_word_table_def)

lemma uc_runs_low: "uc_run_table = (0x61, 0x7B, - 32) # tl uc_run_table"
  by (simp add: uc_run_table_def)

lemma default_upcase_ascii:
  assumes "i < 128"
  shows "generate_default_upcase ! i = (if 0x61 \<le> i \<and> i \<le> 0x7A then i - 32 else i)"
proof -
  let ?uc = "fold (\<lambda>i. le16_add i (- 32)) [0x61..<0x7B] [0..<0x10000]"
  have "uc_runs [0..<0x10000] ! i = ?uc ! i"
    unfolding uc_runs_def by (subst uc_runs_low) (simp only: fold_Cons comp_apply prod.case, rule nth_uc_runs_low, use assms in \<open>simp_all add: uc_run_table_def\<close>)
  moreover have "?uc ! i = (if 0x61 \<le> i \<and> i \<le> 0x7A then i - 32 else i)"
  proof (cases "i \<in> set [0x61..<0x7B]")
    case True
    then show ?thesis using assms by (subst nth_fold_le16_add_hit) (auto simp: nat_diff_distrib simp del: upt_rec_numeral)
  next
    case False
    then show ?thesis using assms nth_fold_le16_add [of i "\<lambda>k. k" "[0x61..<0x7B]"] by (auto simp del: upt_rec_numeral)
  qed
  ultimately show ?thesis using assms by (simp add: generate_default_upcase_def nth_uc_words_low nth_uc_dups_low)
qed

end
