(* ===== verification/Runlist.thy ===== *)
theory Runlist
  imports Prelude
begin

text \<open>
  Run lists of the driver (core/ntfs/runlist.c, core/ntfs/runlist.h and the search
  \<open>__ntfs_attr_find_vcn_nolock\<close> of core/ntfs/attrib.c): the in-memory array that maps virtual to
  logical cluster numbers.

  An array is a list of elements whose length is what was allocated; an access outside it is
  \<open>None\<close>.  Pointers into an array are indices.  Signed 64-bit arithmetic is written \<open>s64\<close>, with
  two's complement wrap-around.  A function that returns a run list or an \<open>ERR_PTR\<close> returns
  \<open>Inr\<close> of the array (and of \<open>*new_rl_count\<close>) or \<open>Inl\<close> of the error; allocation does not fail.  Element
  counts and sizes of arrays, \<open>int\<close> in C, are unbounded: an array of \<open>2 ^ 31\<close> bytes is not reached.
\<close>

section \<open>Signed 64-bit arithmetic\<close>

definition s64 :: "int \<Rightarrow> int" where
  "s64 x = (x + 9223372036854775808) mod 18446744073709551616 - 9223372036854775808"

abbreviation in_s64 :: "int \<Rightarrow> bool" where
  "in_s64 x \<equiv> - 9223372036854775808 \<le> x \<and> x < 9223372036854775808"

lemma s64_id [simp]: "in_s64 x \<Longrightarrow> s64 x = x"
  by (simp add: s64_def)

lemma s64_range: "in_s64 (s64 x)"
  unfolding s64_def using pos_mod_bound [of 18446744073709551616 "x + 9223372036854775808"]
    pos_mod_sign [of 18446744073709551616 "x + 9223372036854775808"] by linarith

section \<open>Elements and arrays\<close>

record rle =
  rvcn :: int
  rlcn :: int
  rlen :: int

abbreviation (input) LCN_DELALLOC :: int where "LCN_DELALLOC \<equiv> -1"
abbreviation (input) LCN_HOLE :: int where "LCN_HOLE \<equiv> -2"
abbreviation (input) LCN_RL_NOT_MAPPED :: int where "LCN_RL_NOT_MAPPED \<equiv> -3"
abbreviation (input) LCN_ENOENT :: int where "LCN_ENOENT \<equiv> -4"
abbreviation (input) LCN_ENOMEM :: int where "LCN_ENOMEM \<equiv> -5"
abbreviation (input) LCN_EIO :: int where "LCN_EIO \<equiv> -6"
abbreviation (input) LCN_EINVAL :: int where "LCN_EINVAL \<equiv> -7"
abbreviation (input) ERANGE :: int where "ERANGE \<equiv> 34"

definition zero_rle :: rle where
  "zero_rle = \<lparr>rvcn = 0, rlcn = 0, rlen = 0\<rparr>"

text \<open>Element access by a C index; \<open>None\<close> outside the array.\<close>

definition rl_at :: "rle list \<Rightarrow> int \<Rightarrow> rle option" where
  "rl_at rl i = (if 0 \<le> i \<and> i < int (length rl) then Some (rl ! nat i) else None)"

definition rl_set :: "rle list \<Rightarrow> int \<Rightarrow> rle \<Rightarrow> rle list option" where
  "rl_set rl i x = (if 0 \<le> i \<and> i < int (length rl) then Some (rl[nat i := x]) else None)"

definition rl_upd :: "rle list \<Rightarrow> int \<Rightarrow> (rle \<Rightarrow> rle) \<Rightarrow> rle list option" where
  "rl_upd rl i f = Option.bind (rl_at rl i) (\<lambda>x. rl_set rl i (f x))"

text \<open>\<open>n\<close> elements of \<open>src\<close> from \<open>s\<close> on copied to position \<open>d\<close> of \<open>dst\<close>.\<close>

definition rl_copy :: "rle list \<Rightarrow> int \<Rightarrow> rle list \<Rightarrow> int \<Rightarrow> int \<Rightarrow> rle list option" where
  "rl_copy dst d src s n =
     (if 0 \<le> s \<and> 0 \<le> d \<and> s + n \<le> int (length src) \<and> d + n \<le> int (length dst)
      then Some (take (nat d) dst @ take (nat n) (drop (nat s) src) @ drop (nat (d + n)) dst) else None)"

text \<open>The run list with its element count and the hint of the last search (\<open>struct runlist\<close>).\<close>

record runlist =
  rl_rl :: "rle list option"
  rl_count :: nat
  rl_hint :: int

definition ntfs_init_runlist :: runlist where
  "ntfs_init_runlist = \<lparr>rl_rl = None, rl_count = 0, rl_hint = -1\<rparr>"

definition ntfs_rl_mm :: "rle list \<Rightarrow> int \<Rightarrow> int \<Rightarrow> int \<Rightarrow> rle list option" where
  "ntfs_rl_mm base dst src sz = (if dst \<noteq> src \<and> sz > 0 then rl_copy base dst base src sz else Some base)"

definition ntfs_rl_mc :: "rle list \<Rightarrow> int \<Rightarrow> rle list \<Rightarrow> int \<Rightarrow> int \<Rightarrow> rle list option" where
  "ntfs_rl_mc dstbase dst srcbase src sz = (if sz > 0 then rl_copy dstbase dst srcbase src sz else Some dstbase)"

text \<open>
  Reallocation: the first \<open>min old new\<close> elements are copied.  \<open>kvzalloc\<close> clears the rest; in
  \<open>ntfs_rl_realloc_nofail\<close> it is whatever the allocator returns (\<open>junk\<close>).
\<close>

definition realloc_filled :: "rle \<Rightarrow> rle list \<Rightarrow> int \<Rightarrow> int \<Rightarrow> rle list option" where
  "realloc_filled fill rl old_size new_size =
     (if old_size = new_size then Some rl
      else if new_size < 0 \<or> old_size < 0 \<or> int (length rl) < min old_size new_size then None
      else Some (take (nat (min old_size new_size)) rl @ replicate (nat (new_size - min old_size new_size)) fill))"

definition ntfs_rl_realloc :: "rle list \<Rightarrow> int \<Rightarrow> int \<Rightarrow> rle list option" where
  "ntfs_rl_realloc rl old_size new_size = realloc_filled zero_rle rl old_size new_size"

definition ntfs_rl_realloc_nofail :: "rle \<Rightarrow> rle list \<Rightarrow> int \<Rightarrow> int \<Rightarrow> rle list option" where
  "ntfs_rl_realloc_nofail junk rl old_size new_size = realloc_filled junk rl old_size new_size"

section \<open>Lookup\<close>

text \<open>\<open>ntfs_rl_vcn_to_lcn\<close>: the loop from element \<open>i\<close> on; an array without a terminator is overrun.\<close>

fun vcn_to_lcn_loop :: "rle list \<Rightarrow> int \<Rightarrow> int option" where
  "vcn_to_lcn_loop [] vcn = None"
| "vcn_to_lcn_loop (x # xs) vcn =
     (if rlen x = 0 then Some (if rlcn x < 0 then rlcn x else LCN_ENOENT)
      else (case xs of [] \<Rightarrow> None
        | y # _ \<Rightarrow> if vcn < rvcn y then Some (if rlcn x \<ge> 0 then s64 (rlcn x + (vcn - rvcn x)) else rlcn x)
                  else vcn_to_lcn_loop xs vcn))"

definition ntfs_rl_vcn_to_lcn :: "rle list option \<Rightarrow> int \<Rightarrow> int option" where
  "ntfs_rl_vcn_to_lcn rl vcn = (case rl of None \<Rightarrow> Some LCN_RL_NOT_MAPPED
     | Some rl \<Rightarrow> do {
         x \<leftarrow> rl_at rl 0;
         if vcn < rvcn x then Some LCN_ENOENT else vcn_to_lcn_loop rl vcn })"

text \<open>
  \<open>ntfs_rl_find_vcn_nolock\<close>: the index of the element found, or NULL.  The array is not NULL here, for
  which the function returns NULL; the callers that are modelled have one.
\<close>

fun find_vcn_loop :: "rle list \<Rightarrow> int \<Rightarrow> nat \<Rightarrow> nat option option" where
  "find_vcn_loop [] vcn i = None"
| "find_vcn_loop (x # xs) vcn i =
     (if rlen x = 0 then Some (if rlcn x = LCN_ENOENT then Some i else None)
      else (case xs of [] \<Rightarrow> None
        | y # _ \<Rightarrow> if vcn < rvcn y then Some (if rlcn x \<ge> LCN_HOLE then Some i else None)
                  else find_vcn_loop xs vcn (i + 1)))"

definition ntfs_rl_find_vcn_nolock :: "rle list \<Rightarrow> int \<Rightarrow> nat option option" where
  "ntfs_rl_find_vcn_nolock rl vcn = do {
     x \<leftarrow> rl_at rl 0;
     if vcn < rvcn x then Some None else find_vcn_loop rl vcn 0 }"

text \<open>
  \<open>__ntfs_attr_find_vcn_nolock\<close>: the binary search that starts from the hint.  \<open>Inl\<close> is
  \<open>ERR_PTR\<close>; the run list is returned for its new hint.
\<close>

function find_vcn_bsearch :: "rle list \<Rightarrow> int \<Rightarrow> nat \<Rightarrow> nat \<Rightarrow> (int + nat) option" where
  "find_vcn_bsearch rl vcn lower upper =
     (if lower \<le> upper then
        (let idx = (lower + upper) div 2 in do {
           run \<leftarrow> rl_at rl (int idx);
           if vcn < rvcn run then (if idx = 0 then None else find_vcn_bsearch rl vcn lower (idx - 1))
           else if vcn \<ge> s64 (rvcn run + rlen run) then find_vcn_bsearch rl vcn (idx + 1) upper
           else Some (Inr idx) })
      else Some (Inl (- ENOENT)))"
  by pat_completeness auto
termination
  by (relation "measure (\<lambda>(rl, vcn, lower, upper). Suc upper - lower)") (auto simp: Let_def)

declare find_vcn_bsearch.simps [simp del]

text \<open>The part after the hint has been tried: the last run, then the search.\<close>

definition find_vcn_from :: "runlist \<Rightarrow> rle list \<Rightarrow> int \<Rightarrow> nat \<Rightarrow> ((int + nat) \<times> runlist) option" where
  "find_vcn_from r rl vcn lower = do {
     run \<leftarrow> rl_at rl (int (rl_count r - 2));
     if vcn \<ge> rvcn run \<and> vcn < s64 (rvcn run + rlen run)
     then Some (Inr (rl_count r - 2), r\<lparr>rl_hint := int (rl_count r - 2)\<rparr>)
     else if vcn \<ge> s64 (rvcn run + rlen run) then Some (Inl (- ENOENT), r)
     else do {
       res \<leftarrow> find_vcn_bsearch rl vcn lower (rl_count r - 2);
       Some (res, case res of Inr i \<Rightarrow> r\<lparr>rl_hint := int i\<rparr> | Inl _ \<Rightarrow> r) } }"

definition ntfs_attr_find_vcn_nolock_rl :: "runlist \<Rightarrow> int \<Rightarrow> ((int + nat) \<times> runlist) option" where
  "ntfs_attr_find_vcn_nolock_rl r vcn =
     (if rl_count r \<le> 1 then Some (Inl (- ENOENT), r)
      else do {
        rl \<leftarrow> rl_rl r;
        let rh = rl_hint r;
        hinted \<leftarrow> (if 0 \<le> rh \<and> int (rl_count r - 1) > rh then do { x \<leftarrow> rl_at rl rh; Some (rvcn x \<le> vcn) }
                   else Some False);
        if hinted then do {
          x \<leftarrow> rl_at rl rh;
          if vcn < s64 (rvcn x + rlen x) then Some (Inr (nat rh), r)
          else if rl_count r - 2 = nat rh then Some (Inl (- ENOENT), r)
          else find_vcn_from r rl vcn (nat rh + 1) }
        else do {
          run \<leftarrow> rl_at rl 0;
          if vcn < rvcn run then Some (Inl (- ENOENT), r)
          else if vcn < s64 (rvcn run + rlen run) then Some (Inr 0, r\<lparr>rl_hint := 0\<rparr>)
          else find_vcn_from r rl vcn 1 } })"

section \<open>Joining two arrays\<close>

definition ntfs_are_rl_mergeable :: "rle \<Rightarrow> rle \<Rightarrow> bool" where
  "ntfs_are_rl_mergeable dst src =
     (if rlcn dst = LCN_RL_NOT_MAPPED \<and> rlcn src = LCN_RL_NOT_MAPPED then True
      else if s64 (rvcn dst + rlen dst) \<noteq> rvcn src then False
      else if rlcn dst \<ge> 0 \<and> rlcn src \<ge> 0 \<and> s64 (rlcn dst + rlen dst) = rlcn src then True
      else if rlcn dst = LCN_HOLE \<and> rlcn src = LCN_HOLE then True
      else if rlcn dst = LCN_DELALLOC \<and> rlcn src = LCN_DELALLOC then True
      else False)"

definition ntfs_rl_merge :: "rle \<Rightarrow> rle \<Rightarrow> rle" where
  "ntfs_rl_merge dst src = dst\<lparr>rlen := s64 (rlen dst + rlen src)\<rparr>"

text \<open>
  The four ways of placing \<open>ssize\<close> elements of \<open>src\<close>, from \<open>s0\<close> on, at element \<open>loc\<close> of \<open>dst\<close>.
  Each returns the new array and \<open>*new_size\<close>.  The merge of the right end is written into \<open>src\<close>,
  as in the code.
\<close>

definition ntfs_rl_append :: "rle list \<Rightarrow> int \<Rightarrow> rle list \<Rightarrow> int \<Rightarrow> int \<Rightarrow> int \<Rightarrow> (rle list \<times> int) option" where
  "ntfs_rl_append dst dsize src s0 ssize loc = do {
     right \<leftarrow> (if loc + 1 < dsize then do {
                a \<leftarrow> rl_at src (s0 + ssize - 1); b \<leftarrow> rl_at dst (loc + 1);
                Some (ntfs_are_rl_mergeable a b) } else Some False);
     let new_size = dsize + ssize - of_bool right;
     dst \<leftarrow> ntfs_rl_realloc dst dsize new_size;
     src \<leftarrow> (if right then do { b \<leftarrow> rl_at dst (loc + 1); rl_upd src (s0 + ssize - 1) (\<lambda>a. ntfs_rl_merge a b) } else Some src);
     let marker = loc + ssize + 1;
     dst \<leftarrow> ntfs_rl_mm dst marker (loc + 1 + of_bool right) (dsize - (loc + 1 + of_bool right));
     dst \<leftarrow> ntfs_rl_mc dst (loc + 1) src s0 ssize;
     nx \<leftarrow> rl_at dst (loc + 1);
     dst \<leftarrow> rl_upd dst loc (\<lambda>x. x\<lparr>rlen := s64 (rvcn nx - rvcn x)\<rparr>);
     m \<leftarrow> rl_at dst marker;
     dst \<leftarrow> (if rlcn m = LCN_ENOENT then do {
               pv \<leftarrow> rl_at dst (marker - 1); rl_set dst marker (m\<lparr>rvcn := s64 (rvcn pv + rlen pv)\<rparr>) } else Some dst);
     Some (dst, new_size) }"

definition ntfs_rl_insert :: "rle list \<Rightarrow> int \<Rightarrow> rle list \<Rightarrow> int \<Rightarrow> int \<Rightarrow> int \<Rightarrow> (rle list \<times> int) option" where
  "ntfs_rl_insert dst dsize src s0 ssize loc = do {
     s \<leftarrow> rl_at src s0;
     (left, disc) \<leftarrow> (if loc = 0 then Some (False, rvcn s > 0)
       else do {
         p \<leftarrow> rl_at dst (loc - 1);
         let left = ntfs_are_rl_mergeable p s;
         let merged_length = (if left then s64 (rlen p + rlen s) else rlen p);
         Some (left, rvcn s > s64 (rvcn p + merged_length)) });
     let new_size = dsize + ssize - of_bool left + of_bool disc;
     dst \<leftarrow> ntfs_rl_realloc dst dsize new_size;
     dst \<leftarrow> (if left then rl_upd dst (loc - 1) (\<lambda>p. ntfs_rl_merge p s) else Some dst);
     let marker = loc + ssize - of_bool left + of_bool disc;
     dst \<leftarrow> ntfs_rl_mm dst marker loc (dsize - loc);
     dst \<leftarrow> ntfs_rl_mc dst (loc + of_bool disc) src (s0 + of_bool left) (ssize - of_bool left);
     pv \<leftarrow> rl_at dst (marker - 1);
     dst \<leftarrow> rl_upd dst marker (\<lambda>m. m\<lparr>rvcn := s64 (rvcn pv + rlen pv)\<rparr>);
     m \<leftarrow> rl_at dst marker;
     dst \<leftarrow> (if rlcn m = LCN_HOLE \<or> rlcn m = LCN_RL_NOT_MAPPED \<or> rlcn m = LCN_DELALLOC then do {
               nx \<leftarrow> rl_at dst (marker + 1); rl_set dst marker (m\<lparr>rlen := s64 (rvcn nx - rvcn m)\<rparr>) } else Some dst);
     dst \<leftarrow> (if disc then do {
               nx \<leftarrow> rl_at dst (loc + 1);
               if loc > 0 then do {
                 p \<leftarrow> rl_at dst (loc - 1);
                 let v = s64 (rvcn p + rlen p);
                 rl_upd dst loc (\<lambda>_. \<lparr>rvcn = v, rlcn = LCN_RL_NOT_MAPPED, rlen = s64 (rvcn nx - v)\<rparr>) }
               else rl_upd dst loc (\<lambda>_. \<lparr>rvcn = 0, rlcn = LCN_RL_NOT_MAPPED, rlen = rvcn nx\<rparr>) }
             else Some dst);
     Some (dst, new_size) }"

definition ntfs_rl_replace :: "rle list \<Rightarrow> int \<Rightarrow> rle list \<Rightarrow> int \<Rightarrow> int \<Rightarrow> int \<Rightarrow> (rle list \<times> int) option" where
  "ntfs_rl_replace dst dsize src s0 ssize loc = do {
     right \<leftarrow> (if loc + 1 < dsize then do {
                a \<leftarrow> rl_at src (s0 + ssize - 1); b \<leftarrow> rl_at dst (loc + 1);
                Some (ntfs_are_rl_mergeable a b) } else Some False);
     left \<leftarrow> (if loc > 0 then do {
                a \<leftarrow> rl_at dst (loc - 1); b \<leftarrow> rl_at src s0;
                Some (ntfs_are_rl_mergeable a b) } else Some False);
     let delta = ssize - 1 - of_bool left - of_bool right;
     dst \<leftarrow> (if delta > 0 then ntfs_rl_realloc dst dsize (dsize + delta) else Some dst);
     src \<leftarrow> (if right then do { b \<leftarrow> rl_at dst (loc + 1); rl_upd src (s0 + ssize - 1) (\<lambda>a. ntfs_rl_merge a b) } else Some src);
     dst \<leftarrow> (if left then do { b \<leftarrow> rl_at src s0; rl_upd dst (loc - 1) (\<lambda>a. ntfs_rl_merge a b) } else Some dst);
     let tail = loc + of_bool right + 1;
     let marker = loc + ssize - of_bool left;
     dst \<leftarrow> ntfs_rl_mm dst marker tail (dsize - tail);
     dst \<leftarrow> ntfs_rl_mc dst loc src (s0 + of_bool left) (ssize - of_bool left);
     dst \<leftarrow> (if dsize - tail > 0 then do {
               m \<leftarrow> rl_at dst marker;
               if rlcn m = LCN_ENOENT then do {
                 pv \<leftarrow> rl_at dst (marker - 1); rl_set dst marker (m\<lparr>rvcn := s64 (rvcn pv + rlen pv)\<rparr>) } else Some dst }
             else Some dst);
     Some (dst, dsize + delta) }"

definition ntfs_rl_split :: "rle list \<Rightarrow> int \<Rightarrow> rle list \<Rightarrow> int \<Rightarrow> int \<Rightarrow> int \<Rightarrow> (rle list \<times> int) option" where
  "ntfs_rl_split dst dsize src s0 ssize loc = do {
     dst \<leftarrow> ntfs_rl_realloc dst dsize (dsize + ssize + 1);
     dst \<leftarrow> ntfs_rl_mm dst (loc + 1 + ssize) loc (dsize - loc);
     dst \<leftarrow> ntfs_rl_mc dst (loc + 1) src s0 ssize;
     nx \<leftarrow> rl_at dst (loc + 1);
     dst \<leftarrow> rl_upd dst loc (\<lambda>x. x\<lparr>rlen := s64 (rvcn nx - rvcn x)\<rparr>);
     la \<leftarrow> rl_at dst (loc + ssize);
     dst \<leftarrow> rl_upd dst (loc + ssize + 1) (\<lambda>x. x\<lparr>rvcn := s64 (rvcn la + rlen la)\<rparr>);
     n2 \<leftarrow> rl_at dst (loc + ssize + 2);
     dst \<leftarrow> rl_upd dst (loc + ssize + 1) (\<lambda>x. x\<lparr>rlen := s64 (rvcn n2 - rvcn x)\<rparr>);
     Some (dst, dsize + ssize + 1) }"

section \<open>Merging run lists\<close>

fun count_to_end :: "rle list \<Rightarrow> nat option" where
  "count_to_end [] = None"
| "count_to_end (x # xs) = (if rlen x = 0 then Some 1 else map_option Suc (count_to_end xs))"

text \<open>The first element from \<open>i\<close> on that is mapped or the terminator, and the terminator itself.\<close>

fun skip_unmapped :: "rle list \<Rightarrow> nat \<Rightarrow> nat option" where
  "skip_unmapped [] i = None"
| "skip_unmapped (x # xs) i = (if rlen x \<noteq> 0 \<and> rlcn x < LCN_HOLE then skip_unmapped xs (i + 1) else Some i)"

fun find_end :: "rle list \<Rightarrow> nat \<Rightarrow> nat option" where
  "find_end [] i = None"
| "find_end (x # xs) i = (if rlen x \<noteq> 0 then find_end xs (i + 1) else Some i)"

text \<open>The last of the first \<open>n\<close> elements with an LCN of at least \<open>LCN_HOLE\<close>, or -1.\<close>

fun last_mapped :: "rle list \<Rightarrow> nat \<Rightarrow> int option" where
  "last_mapped rl 0 = Some (- 1)"
| "last_mapped rl (Suc n) = do {
     x \<leftarrow> rl_at rl (int n);
     if rlcn x < LCN_HOLE then last_mapped rl n else Some (int n) }"

text \<open>
  The code behind \<open>if (marker)\<close>: the source ended with \<open>LCN_ENOENT\<close> at \<open>marker_vcn\<close>, so the merged
  list must end there too, with a run that is not mapped in between if needed.
\<close>

definition merge_marker_extend :: "rle \<Rightarrow> rle list \<Rightarrow> int \<Rightarrow> int \<Rightarrow> int \<Rightarrow> int \<Rightarrow> (rle list \<times> int) option" where
  "merge_marker_extend junk drl ds slots marker_vcn cnt = do {
     x \<leftarrow> rl_at drl ds;
     (drl, ds, slots, cnt) \<leftarrow> (if rlcn x \<noteq> LCN_RL_NOT_MAPPED then do {
         (drl, slots, cnt) \<leftarrow> (if slots = 0 then do {
             drl \<leftarrow> ntfs_rl_realloc_nofail junk drl ds (ds + 2);
             Some (drl, 2, cnt + 2) } else Some (drl, slots, cnt));
         let ds = ds + 1;
         drl \<leftarrow> (if slots \<noteq> 1 then do {
             p \<leftarrow> rl_at drl (ds - 1);
             rl_upd drl ds (\<lambda>y. y\<lparr>rvcn := s64 (rvcn p + rlen p)\<rparr>) } else Some drl);
         drl \<leftarrow> rl_upd drl ds (\<lambda>y. y\<lparr>rlcn := LCN_RL_NOT_MAPPED\<rparr>);
         Some (drl, ds, slots - 1, cnt) }
       else Some (drl, ds, slots, cnt));
     drl \<leftarrow> rl_upd drl ds (\<lambda>y. y\<lparr>rlen := s64 (marker_vcn - rvcn y)\<rparr>);
     let ds = ds + 1;
     (drl, cnt) \<leftarrow> (if slots = 0 then do {
         drl \<leftarrow> ntfs_rl_realloc_nofail junk drl ds (ds + 1);
         Some (drl, cnt + 1) } else Some (drl, cnt));
     drl \<leftarrow> rl_set drl ds \<lparr>rvcn = marker_vcn, rlcn = LCN_ENOENT, rlen = 0\<rparr>;
     Some (drl, cnt) }"

definition merge_marker :: "rle \<Rightarrow> rle list \<Rightarrow> nat \<Rightarrow> int \<Rightarrow> int \<Rightarrow> (rle list \<times> int) option" where
  "merge_marker junk drl dend marker_vcn cnt = do {
     ds \<leftarrow> find_end (drop dend drl) dend;
     t \<leftarrow> rl_at drl (int ds);
     if rvcn t \<le> marker_vcn then
       (if rvcn t = marker_vcn then do {
          drl \<leftarrow> rl_set drl (int ds) (t\<lparr>rlcn := LCN_ENOENT\<rparr>);
          Some (drl, cnt) }
        else if rlcn t = LCN_ENOENT then merge_marker_extend junk drl (int ds - 1) 1 marker_vcn cnt
        else merge_marker_extend junk drl (int ds) 0 marker_vcn cnt)
     else Some (drl, cnt) }"

text \<open>The first mapping of an attribute: an unmapped element in front unless the list starts at VCN 0.\<close>

definition merge_first :: "rle list \<Rightarrow> int \<Rightarrow> (rle list \<times> int) option" where
  "merge_first srl cnt = do {
     x \<leftarrow> rl_at srl 0;
     if rvcn x \<noteq> 0 then do {
       drl \<leftarrow> ntfs_rl_realloc srl cnt (cnt + 1);
       drl \<leftarrow> ntfs_rl_mm drl 1 0 cnt;
       y \<leftarrow> rl_at drl 1;
       drl \<leftarrow> rl_set drl 0 \<lparr>rvcn = 0, rlcn = LCN_RL_NOT_MAPPED, rlen = rvcn y\<rparr>;
       Some (drl, cnt + 1) }
     else Some (srl, cnt) }"

text \<open>The choice among the four ways, given the positions found.\<close>

definition merge_place :: "rle list \<Rightarrow> nat \<Rightarrow> rle list \<Rightarrow> nat \<Rightarrow> nat \<Rightarrow> nat \<Rightarrow> bool \<Rightarrow> (rle list \<times> int) option" where
  "merge_place drl dcount srl s_rl_count sstart dins marker = do {
     let send = s_rl_count - 1;
     sfinal \<leftarrow> last_mapped srl s_rl_count;
     dfinal \<leftarrow> last_mapped drl dcount;
     d \<leftarrow> rl_at drl (int dins);
     s \<leftarrow> rl_at srl (int sstart);
     l \<leftarrow> rl_at srl (int send - 1);
     let start = (rlcn d < LCN_RL_NOT_MAPPED \<or> rvcn d = rvcn s);
     let finish0 = (rlcn d \<ge> LCN_RL_NOT_MAPPED \<and> s64 (rvcn d + rlen d) \<le> s64 (rvcn l + rlen l));
     let ss = sfinal - int sstart + 1 + of_bool (finish0 \<and> rlen d = 0);
     let finish = (finish0 \<and> \<not> (marker \<and> s64 (rvcn d + rlen d) > rvcn l));
     if start then
       (if finish then ntfs_rl_replace drl (int dcount) srl (int sstart) ss (int dins)
        else ntfs_rl_insert drl (int dcount) srl (int sstart) ss (int dins))
     else
       (if finish then ntfs_rl_append drl (int dcount) srl (int sstart) ss (int dins)
        else ntfs_rl_split drl (int dcount) srl (int sstart) ss (int dins)) }"

text \<open>
  \<open>ntfs_runlists_merge\<close>.  The result is the merged array with \<open>*new_rl_count\<close> (\<open>None\<close> where the code
  leaves it alone), and the destination for its new search hint.
\<close>

definition ntfs_runlists_merge :: "rle \<Rightarrow> runlist \<Rightarrow> rle list option \<Rightarrow> nat \<Rightarrow>
    ((int + rle list option \<times> int option) \<times> runlist) option" where
  "ntfs_runlists_merge junk d srl0 s_rl_count0 = (case srl0 of
     None \<Rightarrow> Some (Inr (rl_rl d, None), d)
   | Some srl \<Rightarrow> do {
       s_rl_count \<leftarrow> (if s_rl_count0 = 0 then count_to_end srl else Some s_rl_count0);
       (case rl_rl d of
          None \<Rightarrow> do { (drl, cnt) \<leftarrow> merge_first srl (int s_rl_count); Some (Inr (Some drl, Some cnt), d) }
        | Some drl \<Rightarrow>
            if rl_count d < 1 \<or> s_rl_count < 2 then Some (Inl (- EINVAL), d)
            else do {
              si \<leftarrow> skip_unmapped srl 0;
              s \<leftarrow> rl_at srl (int si);
              (res, d) \<leftarrow> ntfs_attr_find_vcn_nolock_rl d (rvcn s);
              let di = (case res of Inl _ \<Rightarrow> rl_count d - 1 | Inr i \<Rightarrow> i);
              x \<leftarrow> rl_at drl (int di);
              if rvcn x = rvcn s \<and> rlcn x \<ge> 0 \<and> rlcn s \<ge> 0 then Some (Inl (- ERANGE), d)
              else do {
                e \<leftarrow> rl_at srl (int s_rl_count - 1);
                let marker = (rlcn e = LCN_ENOENT);
                (drl, cnt) \<leftarrow> merge_place drl (rl_count d) srl s_rl_count si di marker;
                (drl, cnt) \<leftarrow> (if marker then merge_marker junk drl (rl_count d - 1) (rvcn e) cnt else Some (drl, cnt));
                Some (Inr (Some drl, Some cnt), d) } }) })"

section \<open>Well-formed run lists\<close>

text \<open>Runs of positive length that follow each other from VCN \<open>v\<close> on, closed by a terminator of length 0.\<close>

fun runs_from :: "int \<Rightarrow> rle list \<Rightarrow> bool" where
  "runs_from v [] = False"
| "runs_from v (x # xs) = (rvcn x = v \<and> (if xs = [] then rlen x = 0 else 0 < rlen x \<and> runs_from (v + rlen x) xs))"

lemma runs_from_nonempty [simp]: "runs_from v rl \<Longrightarrow> rl \<noteq> []"
  by (cases rl) auto

lemma runs_from_hd: "runs_from v rl \<Longrightarrow> rvcn (hd rl) = v"
  by (cases rl) auto

lemma runs_from_last: "runs_from v rl \<Longrightarrow> v \<le> rvcn (last rl) \<and> rlen (last rl) = 0"
proof (induction rl arbitrary: v)
  case (Cons x xs)
  then show ?case by (cases "xs = []") (auto, force)
qed simp

text \<open>What a run list says of a VCN: the LCN of a mapped cluster or the code of the region it lies in.\<close>

fun cluster_of :: "rle list \<Rightarrow> int \<Rightarrow> int" where
  "cluster_of [] vcn = LCN_ENOENT"
| "cluster_of (x # xs) vcn =
     (if xs = [] then (if rlcn x < 0 then rlcn x else LCN_ENOENT)
      else if vcn < rvcn x + rlen x then (if rlcn x \<ge> 0 then rlcn x + (vcn - rvcn x) else rlcn x)
      else cluster_of xs vcn)"

lemma runs_nth:
  assumes "runs_from v rl" "Suc i < length rl"
  shows "rvcn (rl ! Suc i) = rvcn (rl ! i) + rlen (rl ! i)" "0 < rlen (rl ! i)"
proof -
  have "rvcn (rl ! Suc i) = rvcn (rl ! i) + rlen (rl ! i) \<and> 0 < rlen (rl ! i)"
    using assms
  proof (induction rl arbitrary: v i)
    case (Cons x xs)
    have "xs \<noteq> []" using Cons.prems(2) by auto
    then have x: "rvcn x = v" "0 < rlen x" "runs_from (v + rlen x) xs" using Cons.prems(1) by auto
    show ?case
    proof (cases i)
      case 0
      then show ?thesis using runs_from_hd [OF x(3)] x(1,2) \<open>xs \<noteq> []\<close> by (simp add: hd_conv_nth)
    next
      case (Suc j)
      then show ?thesis using Cons.IH [OF x(3), of j] Cons.prems(2) by simp
    qed
  qed simp
  then show "rvcn (rl ! Suc i) = rvcn (rl ! i) + rlen (rl ! i)" "0 < rlen (rl ! i)" by blast+
qed

lemma runs_mono:
  assumes "runs_from v rl" "i \<le> j" "j < length rl"
  shows "rvcn (rl ! i) \<le> rvcn (rl ! j)"
  using assms(2,3)
proof (induction j rule: dec_induct)
  case (step n)
  then show ?case using runs_nth [OF assms(1), of n] by simp
qed simp

lemma runs_first: "runs_from v rl \<Longrightarrow> rvcn (rl ! 0) = v"
  using runs_from_hd [of v rl] by (cases rl) auto

text \<open>The run with index \<open>i\<close> contains the VCN.\<close>

definition run_has :: "rle list \<Rightarrow> nat \<Rightarrow> int \<Rightarrow> bool" where
  "run_has rl i vcn \<longleftrightarrow> Suc i < length rl \<and> rvcn (rl ! i) \<le> vcn \<and> vcn < rvcn (rl ! i) + rlen (rl ! i)"

lemma rl_at_nth [simp]: "i < length rl \<Longrightarrow> rl_at rl (int i) = Some (rl ! i)"
  by (simp add: rl_at_def)

lemma bsearch_finds:
  assumes "runs_from v rl" "\<forall>x\<in>set rl. in_s64 (rvcn x + rlen x)" "Suc upper < length rl" "rvcn (rl ! lower) \<le> vcn"
    "vcn < rvcn (rl ! Suc upper)" "0 < lower" "lower \<le> Suc upper"
  shows "\<exists>i. find_vcn_bsearch rl vcn lower upper = Some (Inr i) \<and> run_has rl i vcn"
  using assms
proof (induction rl vcn lower upper rule: find_vcn_bsearch.induct)
  case (1 rl vcn lower upper)
  note p = "1.prems"
  have le: "lower \<le> upper"
  proof (rule ccontr)
    assume "\<not> lower \<le> upper"
    then have "lower = Suc upper" using p(7) by simp
    with p(4,5) show False by simp
  qed
  define idx where "idx = (lower + upper) div 2"
  have i: "lower \<le> idx" "idx \<le> upper" "Suc idx < length rl" "0 < idx" using le p(3,6) by (auto simp: idx_def)
  note n = runs_nth [OF p(1) i(3)]
  have s: "s64 (rvcn (rl ! idx) + rlen (rl ! idx)) = rvcn (rl ! Suc idx)" using p(2) i(3) n(1) by (simp add: nth_mem)
  have at: "rl_at rl (int idx) = Some (rl ! idx)" using i(3) by simp
  consider "vcn < rvcn (rl ! idx)" | "rvcn (rl ! idx) \<le> vcn" "rvcn (rl ! Suc idx) \<le> vcn" | "rvcn (rl ! idx) \<le> vcn" "vcn < rvcn (rl ! Suc idx)" by linarith
  then show ?case
  proof cases
    case 1
    then have "lower < idx" using p(4) i(1) by (cases "lower = idx") auto
    then have b: "Suc (idx - 1) < length rl" "lower \<le> Suc (idx - 1)" "vcn < rvcn (rl ! Suc (idx - 1))" using i 1 by simp_all
    have "find_vcn_bsearch rl vcn lower upper = find_vcn_bsearch rl vcn lower (idx - 1)"
      using le 1 i(4) at by (subst find_vcn_bsearch.simps) (simp add: Let_def idx_def [symmetric])
    with "1.IH"(1) [OF le idx_def at 1 _ p(1,2) b(1) p(4) b(3) p(6) b(2)] i(4) show ?thesis by simp
  next
    case 2
    have "find_vcn_bsearch rl vcn lower upper = find_vcn_bsearch rl vcn (idx + 1) upper"
      using le 2 at s by (subst find_vcn_bsearch.simps) (simp add: Let_def idx_def [symmetric])
    moreover have "\<not> vcn < rvcn (rl ! idx)" "s64 (rvcn (rl ! idx) + rlen (rl ! idx)) \<le> vcn" "rvcn (rl ! (idx + 1)) \<le> vcn" using 2 s by simp_all
    ultimately show ?thesis using "1.IH"(2) [OF le idx_def at _ _ p(1,2,3) _ p(5)] i(2) by simp
  next
    case 3
    then have "find_vcn_bsearch rl vcn lower upper = Some (Inr idx)"
      using le at s by (subst find_vcn_bsearch.simps) (simp add: Let_def idx_def [symmetric])
    then show ?thesis using 3 i(3) n(1) by (simp add: run_has_def)
  qed
qed

text \<open>The array may be longer than the count: the search looks at the counted elements only.\<close>

lemma rl_at_take: "i < n \<Longrightarrow> n \<le> length arr \<Longrightarrow> rl_at arr (int i) = rl_at (take n arr) (int i)"
  by (simp add: rl_at_def)

lemma bsearch_take:
  assumes "upper < n" "n \<le> length arr"
  shows "find_vcn_bsearch arr vcn lower upper = find_vcn_bsearch (take n arr) vcn lower upper"
  using assms
proof (induction arr vcn lower upper rule: find_vcn_bsearch.induct)
  case (1 arr vcn lower upper)
  show ?case
  proof (cases "lower \<le> upper")
    case True
    define idx where "idx = (lower + upper) div 2"
    have i: "idx < n" "idx \<le> upper" using True "1.prems" by (auto simp: idx_def)
    have at: "rl_at arr (int idx) = Some (arr ! idx)" "rl_at (take n arr) (int idx) = Some (arr ! idx)" using i "1.prems"(2) by simp_all
    note IH = "1.IH" [OF True idx_def at(1)]
    show ?thesis using True i "1.prems" IH at unfolding idx_def
      by (subst (1 2) find_vcn_bsearch.simps) (simp add: Let_def)
  next
    case False
    then show ?thesis by (subst (1 2) find_vcn_bsearch.simps) simp
  qed
qed

definition runlist_wf :: "int \<Rightarrow> runlist \<Rightarrow> rle list \<Rightarrow> bool" where
  "runlist_wf v r rl \<longleftrightarrow> (\<exists>arr. rl_rl r = Some arr \<and> rl_count r \<le> length arr \<and> rl = take (rl_count r) arr) \<and>
     runs_from v rl \<and> (\<forall>x\<in>set rl. in_s64 (rvcn x + rlen x))"

text \<open>The outcome of a search: the run that has the VCN, or \<open>-ENOENT\<close> when there is none; only the hint may change.\<close>

definition search_ok :: "int \<Rightarrow> rle list \<Rightarrow> runlist \<Rightarrow> int \<Rightarrow> (int + nat) \<times> runlist \<Rightarrow> bool" where
  "search_ok v rl r vcn out \<longleftrightarrow> (\<exists>h. snd out = r\<lparr>rl_hint := h\<rparr>) \<and>
     (case fst out of Inr i \<Rightarrow> run_has rl i vcn | Inl e \<Rightarrow> e = - ENOENT \<and> (vcn < v \<or> rvcn (last rl) \<le> vcn))"

lemma search_hit: "run_has rl i vcn \<Longrightarrow> search_ok v rl r vcn (Inr i, r\<lparr>rl_hint := h\<rparr>)"
  by (auto simp: search_ok_def)

lemma search_hit_same: "run_has rl i vcn \<Longrightarrow> search_ok v rl r vcn (Inr i, r)"
  using search_hit [of rl i vcn v r "rl_hint r"] by simp

lemma search_miss: "vcn < v \<or> rvcn (last rl) \<le> vcn \<Longrightarrow> search_ok v rl r vcn (Inl (- ENOENT), r)"
  by (auto simp: search_ok_def intro: exI [of _ "rl_hint r"])

lemma find_vcn_from_ok:
  assumes "runlist_wf v r rl" "rl_rl r = Some arr" "2 \<le> rl_count r" "rvcn (rl ! lower) \<le> vcn" "0 < lower" "lower < rl_count r"
  shows "\<exists>out. find_vcn_from r arr vcn lower = Some out \<and> search_ok v rl r vcn out"
proof -
  let ?n = "rl_count r"
  have w: "?n \<le> length arr" "rl = take ?n arr" "runs_from v rl" "\<forall>x\<in>set rl. in_s64 (rvcn x + rlen x)"
    using assms(1,2) by (auto simp: runlist_wf_def)
  have len: "length rl = ?n" using w(1,2) by simp
  have S: "Suc (?n - 2) = ?n - 1" "Suc (?n - 2) < length rl" using assms(3) len by simp_all
  note n = runs_nth [OF w(3) S(2)]
  have l: "rl ! (?n - 1) = last rl" using w(3) len by (simp add: last_conv_nth)
  have at: "rl_at arr (int (?n - 2)) = Some (rl ! (?n - 2))" using w(1,2) assms(3) by (simp del: of_nat_diff)
  have s: "s64 (rvcn (rl ! (?n - 2)) + rlen (rl ! (?n - 2))) = rvcn (last rl)" using w(4) S(2) n(1) l unfolding S(1) by (simp add: nth_mem)
  consider "rvcn (rl ! (?n - 2)) \<le> vcn" "vcn < rvcn (last rl)" | "rvcn (last rl) \<le> vcn" | "vcn < rvcn (rl ! (?n - 2))" "vcn < rvcn (last rl)"
    by linarith
  then show ?thesis
  proof cases
    case 1
    have "run_has rl (?n - 2) vcn" using 1 S n(1) l by (simp add: run_has_def)
    moreover have "find_vcn_from r arr vcn lower = Some (Inr (?n - 2), r\<lparr>rl_hint := int (?n - 2)\<rparr>)"
      using 1 by (simp add: find_vcn_from_def at s del: of_nat_diff)
    ultimately show ?thesis using search_hit by blast
  next
    case 2
    then have "find_vcn_from r arr vcn lower = Some (Inl (- ENOENT), r)" by (simp add: find_vcn_from_def at s)
    then show ?thesis using search_miss 2 by blast
  next
    case 3
    have "vcn < rvcn (rl ! Suc (?n - 2))" using 3(2) l S(1) by simp
    moreover have "lower \<le> Suc (?n - 2)" using S(1) assms(6) by linarith
    ultimately obtain i where i: "find_vcn_bsearch rl vcn lower (?n - 2) = Some (Inr i)" "run_has rl i vcn"
      using bsearch_finds [OF w(3,4) S(2) assms(4) _ assms(5)] by blast
    have b: "find_vcn_bsearch arr vcn lower (?n - 2) = Some (Inr i)" using bsearch_take [of "?n - 2" ?n arr vcn lower] w(1,2) i(1) assms(3) by simp
    have "find_vcn_from r arr vcn lower = Some (Inr i, r\<lparr>rl_hint := int i\<rparr>)"
      using 3 by (simp add: find_vcn_from_def at s b)
    then show ?thesis using search_hit [OF i(2)] by blast
  qed
qed

lemma runlist_wfD:
  assumes "runlist_wf v r rl" "rl_rl r = Some arr"
  shows "runs_from v rl" "length rl = rl_count r" "\<And>i. i < rl_count r \<Longrightarrow> rl_at arr (int i) = Some (rl ! i)"
    "\<And>i. Suc i < rl_count r \<Longrightarrow> s64 (rvcn (rl ! i) + rlen (rl ! i)) = rvcn (rl ! Suc i)"
    "\<And>i. Suc i < rl_count r \<Longrightarrow> rvcn (rl ! i) \<le> vcn \<Longrightarrow> vcn < rvcn (rl ! Suc i) \<Longrightarrow> run_has rl i vcn"
    "\<And>i. Suc i < rl_count r \<Longrightarrow> rvcn (rl ! Suc i) \<le> vcn \<Longrightarrow> \<exists>out. find_vcn_from r arr vcn (Suc i) = Some out \<and> search_ok v rl r vcn out"
proof -
  have w: "rl_count r \<le> length arr" "rl = take (rl_count r) arr" "runs_from v rl" "\<forall>x\<in>set rl. in_s64 (rvcn x + rlen x)"
    using assms by (auto simp: runlist_wf_def)
  show len: "length rl = rl_count r" using w(1,2) by simp
  show "runs_from v rl" by (rule w(3))
  show "rl_at arr (int i) = Some (rl ! i)" if "i < rl_count r" for i using that w(1,2) by simp
  show "s64 (rvcn (rl ! i) + rlen (rl ! i)) = rvcn (rl ! Suc i)" if "Suc i < rl_count r" for i
    using that w(4) runs_nth [OF w(3), of i] len by (simp add: nth_mem)
  show "run_has rl i vcn" if "Suc i < rl_count r" "rvcn (rl ! i) \<le> vcn" "vcn < rvcn (rl ! Suc i)" for i
    using that runs_nth [OF w(3), of i] len by (simp add: run_has_def)
  show "\<exists>out. find_vcn_from r arr vcn (Suc i) = Some out \<and> search_ok v rl r vcn out" if "Suc i < rl_count r" "rvcn (rl ! Suc i) \<le> vcn" for i
    using find_vcn_from_ok [OF assms(1,2) _ that(2)] that(1) by simp
qed

text \<open>The search when the hint is usable, and when it is not.\<close>

lemma find_vcn_hinted:
  assumes w: "runlist_wf v r rl" "rl_rl r = Some arr" and k: "rl_hint r = int k" "Suc k < rl_count r" "rvcn (rl ! k) \<le> vcn"
  shows "\<exists>out. ntfs_attr_find_vcn_nolock_rl r vcn = Some out \<and> search_ok v rl r vcn out"
proof -
  note d = runlist_wfD [OF w]
  have unf: "ntfs_attr_find_vcn_nolock_rl r vcn = (if vcn < rvcn (rl ! Suc k) then Some (Inr k, r)
    else if rl_count r - 2 = k then Some (Inl (- ENOENT), r) else find_vcn_from r arr vcn (k + 1))"
    using k w(2) d(3) [of k] d(4) [OF k(2)] by (simp add: ntfs_attr_find_vcn_nolock_rl_def)
  consider "vcn < rvcn (rl ! Suc k)" | "rvcn (rl ! Suc k) \<le> vcn" "rl_count r - 2 = k" | "rvcn (rl ! Suc k) \<le> vcn" "rl_count r - 2 \<noteq> k" by linarith
  then show ?thesis
  proof cases
    case 1
    then show ?thesis using unf search_hit_same [OF d(5) [OF k(2,3)]] by auto
  next
    case 2
    then have "Suc k = length rl - 1" using d(2) k(2) by linarith
    then have "rl ! Suc k = last rl" using d(1) by (simp add: last_conv_nth)
    then show ?thesis using unf 2 search_miss [of vcn v rl r] by auto
  next
    case 3
    then show ?thesis using unf d(6) [OF k(2)] by simp
  qed
qed

lemma find_vcn_unhinted:
  assumes w: "runlist_wf v r rl" "rl_rl r = Some arr" "2 \<le> rl_count r"
    and h: "\<not> (0 \<le> rl_hint r \<and> int (rl_count r - 1) > rl_hint r \<and> rvcn (rl ! nat (rl_hint r)) \<le> vcn)"
  shows "\<exists>out. ntfs_attr_find_vcn_nolock_rl r vcn = Some out \<and> search_ok v rl r vcn out"
proof -
  note d = runlist_wfD [OF w(1,2)]
  have first: "rvcn (rl ! 0) = v" by (rule runs_first [OF d(1)])
  have "(if 0 \<le> rl_hint r \<and> int (rl_count r - 1) > rl_hint r then do { x \<leftarrow> rl_at arr (rl_hint r); Some (rvcn x \<le> vcn) } else Some False) = Some False"
    using h d(3) [of "nat (rl_hint r)"] by auto
  then have unf: "ntfs_attr_find_vcn_nolock_rl r vcn = (if vcn < v then Some (Inl (- ENOENT), r)
    else if vcn < rvcn (rl ! 1) then Some (Inr 0, r\<lparr>rl_hint := 0\<rparr>) else find_vcn_from r arr vcn 1)"
    using w(2,3) d(3) [of 0] d(4) [of 0] first by (simp add: ntfs_attr_find_vcn_nolock_rl_def)
  consider "vcn < v" | "v \<le> vcn" "vcn < rvcn (rl ! 1)" | "v \<le> vcn" "rvcn (rl ! 1) \<le> vcn" by linarith
  then show ?thesis
  proof cases
    case 1
    then show ?thesis using unf search_miss [of vcn v rl r] by auto
  next
    case 2
    then show ?thesis using unf search_hit [OF d(5) [of 0], of vcn v r 0] first w(3) by auto
  next
    case 3
    then show ?thesis using unf d(6) [of 0] w(3) by simp
  qed
qed

text \<open>
  C35.  The search of a VCN is a correct binary search whatever the cached hint says: on a
  well-formed run list \<open>__ntfs_attr_find_vcn_nolock\<close> returns the one run that contains the VCN, or
  \<open>-ENOENT\<close> exactly when the VCN lies outside the list; it changes nothing but the hint.
\<close>

theorem find_vcn_correct:
  assumes "runlist_wf v r rl"
  shows "\<exists>res r'. ntfs_attr_find_vcn_nolock_rl r vcn = Some (res, r') \<and> rl_rl r' = rl_rl r \<and> rl_count r' = rl_count r \<and>
    (case res of Inr i \<Rightarrow> Suc i < length rl \<and> rvcn (rl ! i) \<le> vcn \<and> vcn < rvcn (rl ! i) + rlen (rl ! i)
     | Inl e \<Rightarrow> e = - ENOENT \<and> (vcn < v \<or> rvcn (last rl) \<le> vcn))"
proof -
  obtain arr where arr: "rl_rl r = Some arr" using assms by (auto simp: runlist_wf_def)
  note d = runlist_wfD [OF assms arr]
  have "\<exists>out. ntfs_attr_find_vcn_nolock_rl r vcn = Some out \<and> search_ok v rl r vcn out"
  proof (cases "rl_count r \<le> 1")
    case True
    then have "length rl = 1" using d(1,2) by (cases rl) auto
    then have "rvcn (last rl) = v" using d(1) by (cases rl) auto
    then show ?thesis using True search_miss [of vcn v rl r] le_less_linear [of v vcn] by (auto simp: ntfs_attr_find_vcn_nolock_rl_def)
  next
    case False
    show ?thesis
    proof (cases "0 \<le> rl_hint r \<and> int (rl_count r - 1) > rl_hint r \<and> rvcn (rl ! nat (rl_hint r)) \<le> vcn")
      case True
      then have "Suc (nat (rl_hint r)) < rl_count r" by linarith
      then show ?thesis using find_vcn_hinted [OF assms arr, of "nat (rl_hint r)" vcn] True by simp
    next
      case no: False
      then show ?thesis using find_vcn_unhinted [OF assms arr] False by simp
    qed
  qed
  then show ?thesis by (fastforce simp: search_ok_def run_has_def split: sum.splits)
qed

text \<open>A file of three runs: data, a hole, and data that lies before the first run on the disk.\<close>

definition sample_rl :: "rle list" where
  "sample_rl = [\<lparr>rvcn = 0, rlcn = 1000, rlen = 4\<rparr>, \<lparr>rvcn = 4, rlcn = LCN_HOLE, rlen = 300\<rparr>, \<lparr>rvcn = 304, rlcn = 20, rlen = 2\<rparr>,
     \<lparr>rvcn = 306, rlcn = LCN_ENOENT, rlen = 0\<rparr>]"

theorem find_vcn_correct_witness:
  "runlist_wf 0 \<lparr>rl_rl = Some sample_rl, rl_count = 4, rl_hint = 2\<rparr> sample_rl \<and>
   (\<exists>res r'. ntfs_attr_find_vcn_nolock_rl \<lparr>rl_rl = Some sample_rl, rl_count = 4, rl_hint = 2\<rparr> 17 = Some (res, r'))"
proof -
  have w: "runlist_wf 0 \<lparr>rl_rl = Some sample_rl, rl_count = 4, rl_hint = 2\<rparr> sample_rl" by (simp add: runlist_wf_def sample_rl_def)
  from find_vcn_correct [OF w, of 17] w show ?thesis by blast
qed

text \<open>A run list whose runs end below 2^63 on the disk, so that the LCN of a cluster does not wrap.\<close>

definition rl_lcns_fit :: "rle list \<Rightarrow> bool" where
  "rl_lcns_fit rl \<longleftrightarrow> (\<forall>x\<in>set rl. 0 \<le> rlcn x \<longrightarrow> rlcn x + rlen x < 9223372036854775808)"

lemma vcn_to_lcn_loop_spec:
  assumes "runs_from v rl" "rl_lcns_fit rl" "v \<le> vcn"
  shows "vcn_to_lcn_loop rl vcn = Some (cluster_of rl vcn)"
  using assms
proof (induction rl arbitrary: v)
  case (Cons x xs)
  show ?case
  proof (cases xs)
    case Nil
    then show ?thesis using Cons.prems(1) by simp
  next
    case (Cons y ys)
    then have x: "rvcn x = v" "0 < rlen x" "runs_from (v + rlen x) xs" using Cons.prems(1) by auto
    have y: "rvcn y = v + rlen x" using runs_from_hd [OF x(3)] Cons by simp
    show ?thesis
    proof (cases "vcn < v + rlen x")
      case True
      have "rlcn x \<ge> 0 \<Longrightarrow> in_s64 (rlcn x + (vcn - rvcn x))" using Cons.prems(2,3) x(1) True by (auto simp: rl_lcns_fit_def)
      then show ?thesis using Cons True x y by auto
    next
      case False
      then have "vcn_to_lcn_loop xs vcn = Some (cluster_of xs vcn)" using Cons.IH [OF x(3)] Cons.prems(2) by (simp add: rl_lcns_fit_def)
      then show ?thesis using Cons False x y by simp
    qed
  qed
qed simp

text \<open>
  C36.  \<open>ntfs_rl_vcn_to_lcn\<close> computes what the run list means: the LCN of the cluster inside the run
  that contains the VCN, the code of the hole or unmapped region it lies in, the code of the
  terminator behind the end, and \<open>LCN_ENOENT\<close> before the start.
\<close>

theorem vcn_to_lcn_correct:
  assumes "runs_from v rl" "rl_lcns_fit rl"
  shows "ntfs_rl_vcn_to_lcn (Some rl) vcn = Some (if vcn < v then LCN_ENOENT else cluster_of rl vcn)"
proof -
  obtain x xs where rl: "rl = x # xs" "rvcn x = v" using assms(1) by (cases rl) auto
  then have "rl_at rl 0 = Some x" by (simp add: rl_at_def)
  then show ?thesis using rl(2) vcn_to_lcn_loop_spec [OF assms] by (simp add: ntfs_rl_vcn_to_lcn_def)
qed

theorem vcn_to_lcn_correct_witness:
  "ntfs_rl_vcn_to_lcn (Some sample_rl) 305 = Some 21 \<and> ntfs_rl_vcn_to_lcn (Some sample_rl) 17 = Some LCN_HOLE \<and>
   ntfs_rl_vcn_to_lcn (Some sample_rl) 306 = Some LCN_ENOENT"
proof -
  have "runs_from 0 sample_rl" "rl_lcns_fit sample_rl" by (simp_all add: sample_rl_def rl_lcns_fit_def)
  note t = vcn_to_lcn_correct [OF this]
  show ?thesis unfolding t by (simp add: sample_rl_def)
qed

end
