(* ===== verification/Lfs_Layout.thy ===== *)
theory Lfs_Layout
  imports Prelude
begin

text \<open>
  The on-disk layout constants of core/logfile/logfile_layout.h, one abbreviation per
  macro or enumerator and under its name, and the unaligned little-endian accessors.  The
  constants are offsets and flag values only; the structures they describe are byte
  buffers, as in the code.
\<close>

section \<open>Layout constants\<close>

abbreviation (input) LFS_SECTOR_SIZE :: nat where "LFS_SECTOR_SIZE \<equiv> 512"
abbreviation (input) LFS_SECTOR_SHIFT :: nat where "LFS_SECTOR_SHIFT \<equiv> 9"
abbreviation (input) LFS_MAX_FILE_SIZE :: nat where "LFS_MAX_FILE_SIZE \<equiv> 4294967296"
abbreviation (input) LFS_DEFAULT_PAGE_SIZE :: nat where "LFS_DEFAULT_PAGE_SIZE \<equiv> 4096"
abbreviation (input) LFS_MIN_RECORD_PAGES :: nat where "LFS_MIN_RECORD_PAGES \<equiv> 48"
abbreviation (input) LFS_MAGIC_RSTR :: nat where "LFS_MAGIC_RSTR \<equiv> 1381258066"
abbreviation (input) LFS_MAGIC_CHKD :: nat where "LFS_MAGIC_CHKD \<equiv> 1145784387"
abbreviation (input) LFS_MAGIC_RCRD :: nat where "LFS_MAGIC_RCRD \<equiv> 1146241874"
abbreviation (input) LFS_MAGIC_FILE :: nat where "LFS_MAGIC_FILE \<equiv> 1162627398"
abbreviation (input) LFS_MAGIC_INDX :: nat where "LFS_MAGIC_INDX \<equiv> 1480871497"
abbreviation (input) LFS_MAGIC_BAAD :: nat where "LFS_MAGIC_BAAD \<equiv> 1145127234"
abbreviation (input) LFS_MAGIC_HOLE :: nat where "LFS_MAGIC_HOLE \<equiv> 1162628936"
abbreviation (input) LFS_MAGIC_EMPTY :: nat where "LFS_MAGIC_EMPTY \<equiv> 4294967295"
abbreviation (input) LFS_REC_HDR_SIZE :: nat where "LFS_REC_HDR_SIZE \<equiv> 16"
abbreviation (input) RP_MAGIC :: nat where "RP_MAGIC \<equiv> 0"
abbreviation (input) RP_USA_OFS :: nat where "RP_USA_OFS \<equiv> 4"
abbreviation (input) RP_USA_COUNT :: nat where "RP_USA_COUNT \<equiv> 6"
abbreviation (input) RP_CHKDSK_LSN :: nat where "RP_CHKDSK_LSN \<equiv> 8"
abbreviation (input) RP_SYSTEM_PAGE_SIZE :: nat where "RP_SYSTEM_PAGE_SIZE \<equiv> 16"
abbreviation (input) RP_LOG_PAGE_SIZE :: nat where "RP_LOG_PAGE_SIZE \<equiv> 20"
abbreviation (input) RP_RESTART_AREA_OFFSET :: nat where "RP_RESTART_AREA_OFFSET \<equiv> 24"
abbreviation (input) RP_MINOR_VER :: nat where "RP_MINOR_VER \<equiv> 26"
abbreviation (input) RP_MAJOR_VER :: nat where "RP_MAJOR_VER \<equiv> 28"
abbreviation (input) RP_HEADER_SIZE :: nat where "RP_HEADER_SIZE \<equiv> 30"
abbreviation (input) RA_CURRENT_LSN :: nat where "RA_CURRENT_LSN \<equiv> 0"
abbreviation (input) RA_LOG_CLIENTS :: nat where "RA_LOG_CLIENTS \<equiv> 8"
abbreviation (input) RA_CLIENT_FREE_LIST :: nat where "RA_CLIENT_FREE_LIST \<equiv> 10"
abbreviation (input) RA_CLIENT_IN_USE_LIST :: nat where "RA_CLIENT_IN_USE_LIST \<equiv> 12"
abbreviation (input) RA_FLAGS :: nat where "RA_FLAGS \<equiv> 14"
abbreviation (input) RA_SEQ_NUMBER_BITS :: nat where "RA_SEQ_NUMBER_BITS \<equiv> 16"
abbreviation (input) RA_RESTART_AREA_LENGTH :: nat where "RA_RESTART_AREA_LENGTH \<equiv> 20"
abbreviation (input) RA_CLIENT_ARRAY_OFFSET :: nat where "RA_CLIENT_ARRAY_OFFSET \<equiv> 22"
abbreviation (input) RA_FILE_SIZE :: nat where "RA_FILE_SIZE \<equiv> 24"
abbreviation (input) RA_LAST_LSN_DATA_LENGTH :: nat where "RA_LAST_LSN_DATA_LENGTH \<equiv> 32"
abbreviation (input) RA_LOG_RECORD_HEADER_LENGTH :: nat where "RA_LOG_RECORD_HEADER_LENGTH \<equiv> 36"
abbreviation (input) RA_LOG_PAGE_DATA_OFFSET :: nat where "RA_LOG_PAGE_DATA_OFFSET \<equiv> 38"
abbreviation (input) RA_RESTART_LOG_OPEN_COUNT :: nat where "RA_RESTART_LOG_OPEN_COUNT \<equiv> 40"
abbreviation (input) RA_SIZE_V1 :: nat where "RA_SIZE_V1 \<equiv> 48"
abbreviation (input) RA_SIZE_XP :: nat where "RA_SIZE_XP \<equiv> 64"
abbreviation (input) LFS_NO_CLIENT :: nat where "LFS_NO_CLIENT \<equiv> 65535"
abbreviation (input) RESTART_VOLUME_IS_CLEAN :: nat where "RESTART_VOLUME_IS_CLEAN \<equiv> 2"
abbreviation (input) RESTART_SINGLE_PAGE_IO :: nat where "RESTART_SINGLE_PAGE_IO \<equiv> 1"
abbreviation (input) CR_OLDEST_LSN :: nat where "CR_OLDEST_LSN \<equiv> 0"
abbreviation (input) CR_CLIENT_RESTART_LSN :: nat where "CR_CLIENT_RESTART_LSN \<equiv> 8"
abbreviation (input) CR_PREV_CLIENT :: nat where "CR_PREV_CLIENT \<equiv> 16"
abbreviation (input) CR_NEXT_CLIENT :: nat where "CR_NEXT_CLIENT \<equiv> 18"
abbreviation (input) CR_SEQ_NUMBER :: nat where "CR_SEQ_NUMBER \<equiv> 20"
abbreviation (input) CR_CLIENT_NAME_LENGTH :: nat where "CR_CLIENT_NAME_LENGTH \<equiv> 28"
abbreviation (input) CR_CLIENT_NAME :: nat where "CR_CLIENT_NAME \<equiv> 32"
abbreviation (input) CR_SIZE :: nat where "CR_SIZE \<equiv> 160"
abbreviation (input) PG_MAGIC :: nat where "PG_MAGIC \<equiv> 0"
abbreviation (input) PG_USA_OFS :: nat where "PG_USA_OFS \<equiv> 4"
abbreviation (input) PG_USA_COUNT :: nat where "PG_USA_COUNT \<equiv> 6"
abbreviation (input) PG_LAST_LSN :: nat where "PG_LAST_LSN \<equiv> 8"
abbreviation (input) PG_FLAGS :: nat where "PG_FLAGS \<equiv> 16"
abbreviation (input) PG_PAGE_COUNT :: nat where "PG_PAGE_COUNT \<equiv> 20"
abbreviation (input) PG_PAGE_POSITION :: nat where "PG_PAGE_POSITION \<equiv> 22"
abbreviation (input) PG_NEXT_RECORD_OFFSET :: nat where "PG_NEXT_RECORD_OFFSET \<equiv> 24"
abbreviation (input) PG_LAST_END_LSN :: nat where "PG_LAST_END_LSN \<equiv> 32"
abbreviation (input) PG_USA :: nat where "PG_USA \<equiv> 40"
abbreviation (input) PG_FILE_OFFSET :: nat where "PG_FILE_OFFSET \<equiv> 60"
abbreviation (input) LFS_PAGE_LOG_RECORD_END :: nat where "LFS_PAGE_LOG_RECORD_END \<equiv> 1"
abbreviation (input) LR_THIS_LSN :: nat where "LR_THIS_LSN \<equiv> 0"
abbreviation (input) LR_CLIENT_PREV_LSN :: nat where "LR_CLIENT_PREV_LSN \<equiv> 8"
abbreviation (input) LR_CLIENT_UNDO_NEXT_LSN :: nat where "LR_CLIENT_UNDO_NEXT_LSN \<equiv> 16"
abbreviation (input) LR_CLIENT_DATA_LENGTH :: nat where "LR_CLIENT_DATA_LENGTH \<equiv> 24"
abbreviation (input) LR_CLIENT_SEQ_NUMBER :: nat where "LR_CLIENT_SEQ_NUMBER \<equiv> 28"
abbreviation (input) LR_CLIENT_INDEX :: nat where "LR_CLIENT_INDEX \<equiv> 30"
abbreviation (input) LR_RECORD_TYPE :: nat where "LR_RECORD_TYPE \<equiv> 32"
abbreviation (input) LR_TRANSACTION_ID :: nat where "LR_TRANSACTION_ID \<equiv> 36"
abbreviation (input) LR_FLAGS :: nat where "LR_FLAGS \<equiv> 40"
abbreviation (input) LR_HEADER_SIZE :: nat where "LR_HEADER_SIZE \<equiv> 48"
abbreviation (input) LFS_RECORD_TYPE_CLIENT :: nat where "LFS_RECORD_TYPE_CLIENT \<equiv> 1"
abbreviation (input) LFS_RECORD_TYPE_CLIENT_RESTART :: nat where "LFS_RECORD_TYPE_CLIENT_RESTART \<equiv> 2"
abbreviation (input) LFS_RECORD_MULTI_PAGE :: nat where "LFS_RECORD_MULTI_PAGE \<equiv> 1"
abbreviation (input) NR_REDO_OP :: nat where "NR_REDO_OP \<equiv> 0"
abbreviation (input) NR_UNDO_OP :: nat where "NR_UNDO_OP \<equiv> 2"
abbreviation (input) NR_REDO_OFFSET :: nat where "NR_REDO_OFFSET \<equiv> 4"
abbreviation (input) NR_REDO_LENGTH :: nat where "NR_REDO_LENGTH \<equiv> 6"
abbreviation (input) NR_UNDO_OFFSET :: nat where "NR_UNDO_OFFSET \<equiv> 8"
abbreviation (input) NR_UNDO_LENGTH :: nat where "NR_UNDO_LENGTH \<equiv> 10"
abbreviation (input) NR_TARGET_ATTRIBUTE :: nat where "NR_TARGET_ATTRIBUTE \<equiv> 12"
abbreviation (input) NR_LCNS_TO_FOLLOW :: nat where "NR_LCNS_TO_FOLLOW \<equiv> 14"
abbreviation (input) NR_RECORD_OFFSET :: nat where "NR_RECORD_OFFSET \<equiv> 16"
abbreviation (input) NR_ATTRIBUTE_OFFSET :: nat where "NR_ATTRIBUTE_OFFSET \<equiv> 18"
abbreviation (input) NR_CLUSTER_BLOCK_OFFSET :: nat where "NR_CLUSTER_BLOCK_OFFSET \<equiv> 20"
abbreviation (input) NR_RESERVED :: nat where "NR_RESERVED \<equiv> 22"
abbreviation (input) NR_TARGET_VCN :: nat where "NR_TARGET_VCN \<equiv> 24"
abbreviation (input) NR_PAGE_LCNS :: nat where "NR_PAGE_LCNS \<equiv> 32"
abbreviation (input) NR_HEADER_SIZE :: nat where "NR_HEADER_SIZE \<equiv> 32"
abbreviation (input) LOP_Noop :: nat where "LOP_Noop \<equiv> 0"
abbreviation (input) LOP_CompensationLogRecord :: nat where "LOP_CompensationLogRecord \<equiv> 1"
abbreviation (input) LOP_InitializeFileRecordSegment :: nat where "LOP_InitializeFileRecordSegment \<equiv> 2"
abbreviation (input) LOP_DeallocateFileRecordSegment :: nat where "LOP_DeallocateFileRecordSegment \<equiv> 3"
abbreviation (input) LOP_WriteEndOfFileRecordSegment :: nat where "LOP_WriteEndOfFileRecordSegment \<equiv> 4"
abbreviation (input) LOP_CreateAttribute :: nat where "LOP_CreateAttribute \<equiv> 5"
abbreviation (input) LOP_DeleteAttribute :: nat where "LOP_DeleteAttribute \<equiv> 6"
abbreviation (input) LOP_UpdateResidentValue :: nat where "LOP_UpdateResidentValue \<equiv> 7"
abbreviation (input) LOP_UpdateNonresidentValue :: nat where "LOP_UpdateNonresidentValue \<equiv> 8"
abbreviation (input) LOP_UpdateMappingPairs :: nat where "LOP_UpdateMappingPairs \<equiv> 9"
abbreviation (input) LOP_DeleteDirtyClusters :: nat where "LOP_DeleteDirtyClusters \<equiv> 10"
abbreviation (input) LOP_SetNewAttributeSizes :: nat where "LOP_SetNewAttributeSizes \<equiv> 11"
abbreviation (input) LOP_AddIndexEntryRoot :: nat where "LOP_AddIndexEntryRoot \<equiv> 12"
abbreviation (input) LOP_DeleteIndexEntryRoot :: nat where "LOP_DeleteIndexEntryRoot \<equiv> 13"
abbreviation (input) LOP_AddIndexEntryAllocation :: nat where "LOP_AddIndexEntryAllocation \<equiv> 14"
abbreviation (input) LOP_DeleteIndexEntryAllocation :: nat where "LOP_DeleteIndexEntryAllocation \<equiv> 15"
abbreviation (input) LOP_WriteEndOfIndexBuffer :: nat where "LOP_WriteEndOfIndexBuffer \<equiv> 16"
abbreviation (input) LOP_SetIndexEntryVcnRoot :: nat where "LOP_SetIndexEntryVcnRoot \<equiv> 17"
abbreviation (input) LOP_SetIndexEntryVcnAllocation :: nat where "LOP_SetIndexEntryVcnAllocation \<equiv> 18"
abbreviation (input) LOP_UpdateFileNameRoot :: nat where "LOP_UpdateFileNameRoot \<equiv> 19"
abbreviation (input) LOP_UpdateFileNameAllocation :: nat where "LOP_UpdateFileNameAllocation \<equiv> 20"
abbreviation (input) LOP_SetBitsInNonresidentBitMap :: nat where "LOP_SetBitsInNonresidentBitMap \<equiv> 21"
abbreviation (input) LOP_ClearBitsInNonresidentBitMap :: nat where "LOP_ClearBitsInNonresidentBitMap \<equiv> 22"
abbreviation (input) LOP_HotFix :: nat where "LOP_HotFix \<equiv> 23"
abbreviation (input) LOP_EndTopLevelAction :: nat where "LOP_EndTopLevelAction \<equiv> 24"
abbreviation (input) LOP_PrepareTransaction :: nat where "LOP_PrepareTransaction \<equiv> 25"
abbreviation (input) LOP_CommitTransaction :: nat where "LOP_CommitTransaction \<equiv> 26"
abbreviation (input) LOP_ForgetTransaction :: nat where "LOP_ForgetTransaction \<equiv> 27"
abbreviation (input) LOP_OpenNonresidentAttribute :: nat where "LOP_OpenNonresidentAttribute \<equiv> 28"
abbreviation (input) LOP_OpenAttributeTableDump :: nat where "LOP_OpenAttributeTableDump \<equiv> 29"
abbreviation (input) LOP_AttributeNamesDump :: nat where "LOP_AttributeNamesDump \<equiv> 30"
abbreviation (input) LOP_DirtyPageTableDump :: nat where "LOP_DirtyPageTableDump \<equiv> 31"
abbreviation (input) LOP_TransactionTableDump :: nat where "LOP_TransactionTableDump \<equiv> 32"
abbreviation (input) LOP_UpdateRecordDataRoot :: nat where "LOP_UpdateRecordDataRoot \<equiv> 33"
abbreviation (input) LOP_UpdateRecordDataAllocation :: nat where "LOP_UpdateRecordDataAllocation \<equiv> 34"
abbreviation (input) LOP_UpdateRelativeDataInIndex :: nat where "LOP_UpdateRelativeDataInIndex \<equiv> 35"
abbreviation (input) LOP_UpdateRelativeDataInIndex2 :: nat where "LOP_UpdateRelativeDataInIndex2 \<equiv> 36"
abbreviation (input) LOP_ZeroEndOfFileRecord :: nat where "LOP_ZeroEndOfFileRecord \<equiv> 37"
abbreviation (input) LOP__MAX :: nat where "LOP__MAX \<equiv> 38"
abbreviation (input) RT_ENTRY_SIZE :: nat where "RT_ENTRY_SIZE \<equiv> 0"
abbreviation (input) RT_NUMBER_ENTRIES :: nat where "RT_NUMBER_ENTRIES \<equiv> 2"
abbreviation (input) RT_NUMBER_ALLOCATED :: nat where "RT_NUMBER_ALLOCATED \<equiv> 4"
abbreviation (input) RT_FREE_GOAL :: nat where "RT_FREE_GOAL \<equiv> 12"
abbreviation (input) RT_FIRST_FREE :: nat where "RT_FIRST_FREE \<equiv> 16"
abbreviation (input) RT_LAST_FREE :: nat where "RT_LAST_FREE \<equiv> 20"
abbreviation (input) RT_HEADER_SIZE :: nat where "RT_HEADER_SIZE \<equiv> 24"
abbreviation (input) RT_ENTRY_ALLOCATED :: nat where "RT_ENTRY_ALLOCATED \<equiv> 4294967295"
abbreviation (input) CRST_MAJOR_VER :: nat where "CRST_MAJOR_VER \<equiv> 0"
abbreviation (input) CRST_MINOR_VER :: nat where "CRST_MINOR_VER \<equiv> 4"
abbreviation (input) CRST_START_OF_CHECKPOINT :: nat where "CRST_START_OF_CHECKPOINT \<equiv> 8"
abbreviation (input) CRST_OPEN_ATTR_TABLE_LSN :: nat where "CRST_OPEN_ATTR_TABLE_LSN \<equiv> 16"
abbreviation (input) CRST_ATTR_NAMES_LSN :: nat where "CRST_ATTR_NAMES_LSN \<equiv> 24"
abbreviation (input) CRST_DIRTY_PAGE_TABLE_LSN :: nat where "CRST_DIRTY_PAGE_TABLE_LSN \<equiv> 32"
abbreviation (input) CRST_TRANSACTION_TABLE_LSN :: nat where "CRST_TRANSACTION_TABLE_LSN \<equiv> 40"
abbreviation (input) CRST_OPEN_ATTR_TABLE_LEN :: nat where "CRST_OPEN_ATTR_TABLE_LEN \<equiv> 48"
abbreviation (input) CRST_ATTR_NAMES_LEN :: nat where "CRST_ATTR_NAMES_LEN \<equiv> 52"
abbreviation (input) CRST_DIRTY_PAGE_TABLE_LEN :: nat where "CRST_DIRTY_PAGE_TABLE_LEN \<equiv> 56"
abbreviation (input) CRST_TRANSACTION_TABLE_LEN :: nat where "CRST_TRANSACTION_TABLE_LEN \<equiv> 60"
abbreviation (input) CRST_SIZE :: nat where "CRST_SIZE \<equiv> 64"
abbreviation (input) OA1_NEXT :: nat where "OA1_NEXT \<equiv> 0"
abbreviation (input) OA1_BYTES_PER_INDEX :: nat where "OA1_BYTES_PER_INDEX \<equiv> 4"
abbreviation (input) OA1_TYPE :: nat where "OA1_TYPE \<equiv> 8"
abbreviation (input) OA1_DIRTY_PAGES :: nat where "OA1_DIRTY_PAGES \<equiv> 12"
abbreviation (input) OA1_FILE_REF :: nat where "OA1_FILE_REF \<equiv> 16"
abbreviation (input) OA1_OPEN_RECORD_LSN :: nat where "OA1_OPEN_RECORD_LSN \<equiv> 24"
abbreviation (input) OA1_POINTER :: nat where "OA1_POINTER \<equiv> 32"
abbreviation (input) OA1_SIZE :: nat where "OA1_SIZE \<equiv> 40"
abbreviation (input) OA0_NEXT :: nat where "OA0_NEXT \<equiv> 0"
abbreviation (input) OA0_POINTER :: nat where "OA0_POINTER \<equiv> 4"
abbreviation (input) OA0_FILE_REF :: nat where "OA0_FILE_REF \<equiv> 8"
abbreviation (input) OA0_OPEN_RECORD_LSN :: nat where "OA0_OPEN_RECORD_LSN \<equiv> 16"
abbreviation (input) OA0_DIRTY_PAGES :: nat where "OA0_DIRTY_PAGES \<equiv> 24"
abbreviation (input) OA0_TYPE :: nat where "OA0_TYPE \<equiv> 28"
abbreviation (input) OA0_NAME_LEN :: nat where "OA0_NAME_LEN \<equiv> 32"
abbreviation (input) OA0_BYTES_PER_INDEX :: nat where "OA0_BYTES_PER_INDEX \<equiv> 40"
abbreviation (input) OA0_SIZE :: nat where "OA0_SIZE \<equiv> 44"
abbreviation (input) AN_OFFSET :: nat where "AN_OFFSET \<equiv> 0"
abbreviation (input) AN_NAME_BYTES :: nat where "AN_NAME_BYTES \<equiv> 2"
abbreviation (input) AN_NAME :: nat where "AN_NAME \<equiv> 4"
abbreviation (input) DP1_NEXT :: nat where "DP1_NEXT \<equiv> 0"
abbreviation (input) DP1_TARGET_ATTR :: nat where "DP1_TARGET_ATTR \<equiv> 4"
abbreviation (input) DP1_TRANSFER_LEN :: nat where "DP1_TRANSFER_LEN \<equiv> 8"
abbreviation (input) DP1_LCNS_FOLLOW :: nat where "DP1_LCNS_FOLLOW \<equiv> 12"
abbreviation (input) DP1_VCN :: nat where "DP1_VCN \<equiv> 16"
abbreviation (input) DP1_OLDEST_LSN :: nat where "DP1_OLDEST_LSN \<equiv> 24"
abbreviation (input) DP1_PAGE_LCNS :: nat where "DP1_PAGE_LCNS \<equiv> 32"
abbreviation (input) DP1_SIZE :: nat where "DP1_SIZE \<equiv> 32"
abbreviation (input) DP0_NEXT :: nat where "DP0_NEXT \<equiv> 0"
abbreviation (input) DP0_TARGET_ATTR :: nat where "DP0_TARGET_ATTR \<equiv> 4"
abbreviation (input) DP0_TRANSFER_LEN :: nat where "DP0_TRANSFER_LEN \<equiv> 8"
abbreviation (input) DP0_LCNS_FOLLOW :: nat where "DP0_LCNS_FOLLOW \<equiv> 12"
abbreviation (input) DP0_VCN :: nat where "DP0_VCN \<equiv> 20"
abbreviation (input) DP0_OLDEST_LSN :: nat where "DP0_OLDEST_LSN \<equiv> 28"
abbreviation (input) DP0_PAGE_LCNS :: nat where "DP0_PAGE_LCNS \<equiv> 36"
abbreviation (input) TR_NEXT :: nat where "TR_NEXT \<equiv> 0"
abbreviation (input) TR_STATE :: nat where "TR_STATE \<equiv> 4"
abbreviation (input) TR_FIRST_LSN :: nat where "TR_FIRST_LSN \<equiv> 8"
abbreviation (input) TR_PREV_LSN :: nat where "TR_PREV_LSN \<equiv> 16"
abbreviation (input) TR_UNDO_NEXT_LSN :: nat where "TR_UNDO_NEXT_LSN \<equiv> 24"
abbreviation (input) TR_UNDO_RECORDS :: nat where "TR_UNDO_RECORDS \<equiv> 32"
abbreviation (input) TR_UNDO_BYTES :: nat where "TR_UNDO_BYTES \<equiv> 36"
abbreviation (input) TR_SIZE :: nat where "TR_SIZE \<equiv> 40"
abbreviation (input) TRANSACTION_UNINITIALIZED :: nat where "TRANSACTION_UNINITIALIZED \<equiv> 0"
abbreviation (input) TRANSACTION_ACTIVE :: nat where "TRANSACTION_ACTIVE \<equiv> 1"
abbreviation (input) TRANSACTION_PREPARED :: nat where "TRANSACTION_PREPARED \<equiv> 2"
abbreviation (input) TRANSACTION_COMMITTED :: nat where "TRANSACTION_COMMITTED \<equiv> 3"
abbreviation (input) NAS_ALLOC :: nat where "NAS_ALLOC \<equiv> 0"
abbreviation (input) NAS_VALID :: nat where "NAS_VALID \<equiv> 8"
abbreviation (input) NAS_DATA :: nat where "NAS_DATA \<equiv> 16"
abbreviation (input) NAS_TOTAL :: nat where "NAS_TOTAL \<equiv> 24"
abbreviation (input) NAS_SIZE :: nat where "NAS_SIZE \<equiv> 32"
abbreviation (input) BR_BITMAP_OFF :: nat where "BR_BITMAP_OFF \<equiv> 0"
abbreviation (input) BR_BITS :: nat where "BR_BITS \<equiv> 4"
abbreviation (input) BR_SIZE :: nat where "BR_SIZE \<equiv> 8"
abbreviation (input) LR_RANGE_SIZE :: nat where "LR_RANGE_SIZE \<equiv> 16"
abbreviation (input) MR_MAGIC :: nat where "MR_MAGIC \<equiv> 0"
abbreviation (input) MR_USA_OFS :: nat where "MR_USA_OFS \<equiv> 4"
abbreviation (input) MR_USA_COUNT :: nat where "MR_USA_COUNT \<equiv> 6"
abbreviation (input) MR_LSN :: nat where "MR_LSN \<equiv> 8"
abbreviation (input) MR_SEQUENCE :: nat where "MR_SEQUENCE \<equiv> 16"
abbreviation (input) MR_LINK_COUNT :: nat where "MR_LINK_COUNT \<equiv> 18"
abbreviation (input) MR_ATTRS_OFFSET :: nat where "MR_ATTRS_OFFSET \<equiv> 20"
abbreviation (input) MR_FLAGS :: nat where "MR_FLAGS \<equiv> 22"
abbreviation (input) MR_BYTES_IN_USE :: nat where "MR_BYTES_IN_USE \<equiv> 24"
abbreviation (input) MR_BYTES_ALLOCATED :: nat where "MR_BYTES_ALLOCATED \<equiv> 28"
abbreviation (input) MR_BASE_RECORD :: nat where "MR_BASE_RECORD \<equiv> 32"
abbreviation (input) MR_NEXT_ATTR_ID :: nat where "MR_NEXT_ATTR_ID \<equiv> 40"
abbreviation (input) MR_RESERVED :: nat where "MR_RESERVED \<equiv> 42"
abbreviation (input) MR_RECORD_NUMBER :: nat where "MR_RECORD_NUMBER \<equiv> 44"
abbreviation (input) MR_FIXUP_OFFSET_1 :: nat where "MR_FIXUP_OFFSET_1 \<equiv> 42"
abbreviation (input) MR_FIXUP_OFFSET_3 :: nat where "MR_FIXUP_OFFSET_3 \<equiv> 48"
abbreviation (input) MFT_RECORD_IN_USE :: nat where "MFT_RECORD_IN_USE \<equiv> 1"
abbreviation (input) MFT_RECORD_IS_DIRECTORY :: nat where "MFT_RECORD_IS_DIRECTORY \<equiv> 2"
abbreviation (input) AT_TYPE :: nat where "AT_TYPE \<equiv> 0"
abbreviation (input) AT_LENGTH :: nat where "AT_LENGTH \<equiv> 4"
abbreviation (input) AT_NON_RESIDENT :: nat where "AT_NON_RESIDENT \<equiv> 8"
abbreviation (input) AT_NAME_LENGTH :: nat where "AT_NAME_LENGTH \<equiv> 9"
abbreviation (input) AT_NAME_OFFSET :: nat where "AT_NAME_OFFSET \<equiv> 10"
abbreviation (input) AT_FLAGS :: nat where "AT_FLAGS \<equiv> 12"
abbreviation (input) AT_INSTANCE :: nat where "AT_INSTANCE \<equiv> 14"
abbreviation (input) AT_VALUE_LENGTH :: nat where "AT_VALUE_LENGTH \<equiv> 16"
abbreviation (input) AT_VALUE_OFFSET :: nat where "AT_VALUE_OFFSET \<equiv> 20"
abbreviation (input) AT_RES_FLAGS :: nat where "AT_RES_FLAGS \<equiv> 22"
abbreviation (input) AT_RESIDENT_SIZE :: nat where "AT_RESIDENT_SIZE \<equiv> 24"
abbreviation (input) AT_LOWEST_VCN :: nat where "AT_LOWEST_VCN \<equiv> 16"
abbreviation (input) AT_HIGHEST_VCN :: nat where "AT_HIGHEST_VCN \<equiv> 24"
abbreviation (input) AT_MAPPING_PAIRS_OFFSET :: nat where "AT_MAPPING_PAIRS_OFFSET \<equiv> 32"
abbreviation (input) AT_COMPRESSION_UNIT :: nat where "AT_COMPRESSION_UNIT \<equiv> 34"
abbreviation (input) AT_ALLOCATED_SIZE :: nat where "AT_ALLOCATED_SIZE \<equiv> 40"
abbreviation (input) AT_DATA_SIZE :: nat where "AT_DATA_SIZE \<equiv> 48"
abbreviation (input) AT_INITIALIZED_SIZE :: nat where "AT_INITIALIZED_SIZE \<equiv> 56"
abbreviation (input) AT_COMPRESSED_SIZE :: nat where "AT_COMPRESSED_SIZE \<equiv> 64"
abbreviation (input) AT_NONRESIDENT_SIZE :: nat where "AT_NONRESIDENT_SIZE \<equiv> 64"
abbreviation (input) AT_NONRESIDENT_EX_SIZE :: nat where "AT_NONRESIDENT_EX_SIZE \<equiv> 72"
abbreviation (input) ATTR_TYPE_STANDARD_INFORMATION :: nat where "ATTR_TYPE_STANDARD_INFORMATION \<equiv> 16"
abbreviation (input) ATTR_TYPE_ATTRIBUTE_LIST :: nat where "ATTR_TYPE_ATTRIBUTE_LIST \<equiv> 32"
abbreviation (input) ATTR_TYPE_FILE_NAME :: nat where "ATTR_TYPE_FILE_NAME \<equiv> 48"
abbreviation (input) ATTR_TYPE_OBJECT_ID :: nat where "ATTR_TYPE_OBJECT_ID \<equiv> 64"
abbreviation (input) ATTR_TYPE_SECURITY_DESCRIPTOR :: nat where "ATTR_TYPE_SECURITY_DESCRIPTOR \<equiv> 80"
abbreviation (input) ATTR_TYPE_VOLUME_NAME :: nat where "ATTR_TYPE_VOLUME_NAME \<equiv> 96"
abbreviation (input) ATTR_TYPE_VOLUME_INFORMATION :: nat where "ATTR_TYPE_VOLUME_INFORMATION \<equiv> 112"
abbreviation (input) ATTR_TYPE_DATA :: nat where "ATTR_TYPE_DATA \<equiv> 128"
abbreviation (input) ATTR_TYPE_INDEX_ROOT :: nat where "ATTR_TYPE_INDEX_ROOT \<equiv> 144"
abbreviation (input) ATTR_TYPE_INDEX_ALLOCATION :: nat where "ATTR_TYPE_INDEX_ALLOCATION \<equiv> 160"
abbreviation (input) ATTR_TYPE_BITMAP :: nat where "ATTR_TYPE_BITMAP \<equiv> 176"
abbreviation (input) ATTR_TYPE_REPARSE_POINT :: nat where "ATTR_TYPE_REPARSE_POINT \<equiv> 192"
abbreviation (input) ATTR_TYPE_EA_INFORMATION :: nat where "ATTR_TYPE_EA_INFORMATION \<equiv> 208"
abbreviation (input) ATTR_TYPE_EA :: nat where "ATTR_TYPE_EA \<equiv> 224"
abbreviation (input) ATTR_TYPE_PROPERTY_SET :: nat where "ATTR_TYPE_PROPERTY_SET \<equiv> 240"
abbreviation (input) ATTR_TYPE_LOGGED_UTILITY_STREAM :: nat where "ATTR_TYPE_LOGGED_UTILITY_STREAM \<equiv> 256"
abbreviation (input) ATTR_TYPE_END :: nat where "ATTR_TYPE_END \<equiv> 4294967295"
abbreviation (input) ATTR_FLAG_COMPRESSED :: nat where "ATTR_FLAG_COMPRESSED \<equiv> 1"
abbreviation (input) ATTR_FLAG_ENCRYPTED :: nat where "ATTR_FLAG_ENCRYPTED \<equiv> 16384"
abbreviation (input) ATTR_FLAG_SPARSE :: nat where "ATTR_FLAG_SPARSE \<equiv> 32768"
abbreviation (input) ATTR_RES_FLAG_INDEXED :: nat where "ATTR_RES_FLAG_INDEXED \<equiv> 1"
abbreviation (input) AL_TYPE :: nat where "AL_TYPE \<equiv> 0"
abbreviation (input) AL_LENGTH :: nat where "AL_LENGTH \<equiv> 4"
abbreviation (input) AL_NAME_LENGTH :: nat where "AL_NAME_LENGTH \<equiv> 6"
abbreviation (input) AL_NAME_OFFSET :: nat where "AL_NAME_OFFSET \<equiv> 7"
abbreviation (input) AL_LOWEST_VCN :: nat where "AL_LOWEST_VCN \<equiv> 8"
abbreviation (input) AL_MFT_REFERENCE :: nat where "AL_MFT_REFERENCE \<equiv> 16"
abbreviation (input) AL_INSTANCE :: nat where "AL_INSTANCE \<equiv> 24"
abbreviation (input) AL_NAME :: nat where "AL_NAME \<equiv> 26"
abbreviation (input) IR_TYPE :: nat where "IR_TYPE \<equiv> 0"
abbreviation (input) IR_COLLATION_RULE :: nat where "IR_COLLATION_RULE \<equiv> 4"
abbreviation (input) IR_INDEX_BLOCK_SIZE :: nat where "IR_INDEX_BLOCK_SIZE \<equiv> 8"
abbreviation (input) IR_CLUSTERS_PER_BLOCK :: nat where "IR_CLUSTERS_PER_BLOCK \<equiv> 12"
abbreviation (input) IR_INDEX_HEADER :: nat where "IR_INDEX_HEADER \<equiv> 16"
abbreviation (input) IH_ENTRIES_OFFSET :: nat where "IH_ENTRIES_OFFSET \<equiv> 0"
abbreviation (input) IH_INDEX_LENGTH :: nat where "IH_INDEX_LENGTH \<equiv> 4"
abbreviation (input) IH_ALLOCATED_SIZE :: nat where "IH_ALLOCATED_SIZE \<equiv> 8"
abbreviation (input) IH_FLAGS :: nat where "IH_FLAGS \<equiv> 12"
abbreviation (input) IH_SIZE :: nat where "IH_SIZE \<equiv> 16"
abbreviation (input) INDEX_HDR_HAS_SUBNODES :: nat where "INDEX_HDR_HAS_SUBNODES \<equiv> 1"
abbreviation (input) IE_KEY_REF :: nat where "IE_KEY_REF \<equiv> 0"
abbreviation (input) IE_DATA_OFFSET :: nat where "IE_DATA_OFFSET \<equiv> 0"
abbreviation (input) IE_DATA_LENGTH :: nat where "IE_DATA_LENGTH \<equiv> 2"
abbreviation (input) IE_LENGTH :: nat where "IE_LENGTH \<equiv> 8"
abbreviation (input) IE_KEY_LENGTH :: nat where "IE_KEY_LENGTH \<equiv> 10"
abbreviation (input) IE_FLAGS :: nat where "IE_FLAGS \<equiv> 12"
abbreviation (input) IE_KEY :: nat where "IE_KEY \<equiv> 16"
abbreviation (input) IE_MIN_SIZE :: nat where "IE_MIN_SIZE \<equiv> 16"
abbreviation (input) INDEX_ENTRY_NODE :: nat where "INDEX_ENTRY_NODE \<equiv> 1"
abbreviation (input) INDEX_ENTRY_END :: nat where "INDEX_ENTRY_END \<equiv> 2"
abbreviation (input) IB_MAGIC :: nat where "IB_MAGIC \<equiv> 0"
abbreviation (input) IB_USA_OFS :: nat where "IB_USA_OFS \<equiv> 4"
abbreviation (input) IB_USA_COUNT :: nat where "IB_USA_COUNT \<equiv> 6"
abbreviation (input) IB_LSN :: nat where "IB_LSN \<equiv> 8"
abbreviation (input) IB_INDEX_BLOCK_VCN :: nat where "IB_INDEX_BLOCK_VCN \<equiv> 16"
abbreviation (input) IB_INDEX_HEADER :: nat where "IB_INDEX_HEADER \<equiv> 24"
abbreviation (input) FN_DUP_OFFSET :: nat where "FN_DUP_OFFSET \<equiv> 8"
abbreviation (input) FN_DUP_SIZE :: nat where "FN_DUP_SIZE \<equiv> 56"

section \<open>Accessors\<close>

definition lf_get16 :: "buf \<Rightarrow> nat \<Rightarrow> nat option" where
  "lf_get16 b p = get_le 2 b p"

definition lf_get32 :: "buf \<Rightarrow> nat \<Rightarrow> nat option" where
  "lf_get32 b p = get_le 4 b p"

definition lf_get64 :: "buf \<Rightarrow> nat \<Rightarrow> nat option" where
  "lf_get64 b p = get_le 8 b p"

definition lf_put16 :: "buf \<Rightarrow> nat \<Rightarrow> nat \<Rightarrow> buf option" where
  "lf_put16 b p v = put_le 2 b p v"

definition lf_put32 :: "buf \<Rightarrow> nat \<Rightarrow> nat \<Rightarrow> buf option" where
  "lf_put32 b p v = put_le 4 b p v"

definition lf_put64 :: "buf \<Rightarrow> nat \<Rightarrow> nat \<Rightarrow> buf option" where
  "lf_put64 b p v = put_le 8 b p v"

text \<open>\<open>LF_ALIGN8(x)\<close> on \<open>uint32_t\<close>.\<close>

definition LF_ALIGN8 :: "nat \<Rightarrow> nat" where
  "LF_ALIGN8 x = and_not32 (u32 (x + 7)) 7"

lemmas lf_defs = lf_get16_def lf_get32_def lf_get64_def lf_put16_def lf_put32_def lf_put64_def

end
