(* ===== verification/Sectors.thy ===== *)
theory Sectors
  imports Lfs_Layout
begin

text \<open>
  The inner loops of NTFS multi-sector-transfer protection, shared by core/ntfs/mst.c and
  core/logfile/logfile_pages.c.  A protected record stores an update sequence array (usa) at
  \<open>usa_ofs\<close>: word 0 is the update sequence number (usn) and word \<open>i\<close> holds the real last two
  bytes of sector \<open>i\<close>, which on disk are overwritten with the usn.  The loops run over the
  sector numbers \<open>[1..<n]\<close>.
\<close>

section \<open>The loops\<close>

text \<open>
  Offset of the last word of sector \<open>i\<close> (counted from 1), in \<open>uint32_t\<close> arithmetic.  The product is not 0
  modulo \<open>2 ^ 32\<close> in the loops that are run, where the subtraction would leave the record.
\<close>

definition tail_off :: "nat \<Rightarrow> nat \<Rightarrow> nat" where
  "tail_off sector i = u32 (i * sector) - 2"

primrec restore_sectors :: "nat \<Rightarrow> nat \<Rightarrow> nat list \<Rightarrow> buf \<Rightarrow> buf option" where
  "restore_sectors sector usa [] r = Some r"
| "restore_sectors sector usa (i # is) r = do {
     v \<leftarrow> lf_get16 r (usa + i * 2);
     r' \<leftarrow> lf_put16 r (tail_off sector i) v;
     restore_sectors sector usa is r' }"

primrec save_sectors :: "nat \<Rightarrow> nat \<Rightarrow> nat \<Rightarrow> nat list \<Rightarrow> buf \<Rightarrow> buf option" where
  "save_sectors sector usa usn [] r = Some r"
| "save_sectors sector usa usn (i # is) r = do {
     v \<leftarrow> lf_get16 r (tail_off sector i);
     r1 \<leftarrow> lf_put16 r (usa + i * 2) v;
     r2 \<leftarrow> lf_put16 r1 (tail_off sector i) usn;
     save_sectors sector usa usn is r2 }"

primrec tails_match :: "nat \<Rightarrow> nat \<Rightarrow> nat list \<Rightarrow> buf \<Rightarrow> bool option" where
  "tails_match sector usn [] r = Some True"
| "tails_match sector usn (i # is) r = do {
     t \<leftarrow> lf_get16 r (tail_off sector i);
     if t \<noteq> usn then Some False else tails_match sector usn is r }"

text \<open>
  Where the usa lies: behind the record header (which holds the usa's own position) and in
  front of the first sector's last word.
\<close>

definition usa_fits :: "nat \<Rightarrow> nat \<Rightarrow> nat \<Rightarrow> nat \<Rightarrow> bool" where
  "usa_fits sector usa n len \<longleftrightarrow>
     8 \<le> usa \<and> usa + 2 * n + 2 \<le> sector \<and> 2 \<le> n \<and> (n - 1) * sector = len \<and> len < 4294967296"

section \<open>What the loops do\<close>

lemma lf_get16_transfer:
  assumes "p + 2 \<le> length r'" "q + 2 \<le> length r" "r' ! p = r ! q" "r' ! Suc p = r ! Suc q"
  shows "lf_get16 r' p = lf_get16 r q"
proof -
  have "take 2 (drop p r') = take 2 (drop q r)"
    using assms by (intro nth_equalityI) (auto simp: less_Suc_eq numeral_2_eq_2)
  with assms(1,2) show ?thesis by (simp add: lf_defs get_le_def slice_def)
qed

lemma length_save_sectors: "save_sectors sector usa usn is r = Some r' \<Longrightarrow> length r' = length r"
  by (induction "is" arbitrary: r) (auto simp: bind_eq_Some_conv lf_defs dest!: length_put_le)

lemma usa_fits_bounds:
  assumes "usa_fits sector usa n len"
  shows "8 \<le> usa" "usa + 2 * n + 2 \<le> len" "2 \<le> n" "sector \<le> len"
proof -
  from assms show "8 \<le> usa" "2 \<le> n" by (auto simp: usa_fits_def)
  then have "1 * sector \<le> (n - 1) * sector" by (intro mult_le_mono1) linarith
  with assms show "sector \<le> len" by (simp add: usa_fits_def)
  with assms show "usa + 2 * n + 2 \<le> len" by (simp add: usa_fits_def)
qed

lemma put_get16_nth:
  assumes "lf_get16 r u = Some v" "lf_put16 r p v = Some r'" "k < length r"
  shows "r' ! k = (if k = p then r ! u else if k = Suc p then r ! Suc u else r ! k)"
proof -
  from assms(1) have u: "u + 2 \<le> length r" and "v = le_of (take 2 (drop u r))"
    by (auto simp: lf_defs get_le_def slice_def split: if_splits)
  then have "le_bytes 2 v = take 2 (drop u r)" by simp
  with assms(2) have "blit r p (take 2 (drop u r)) = Some r'"
    by (simp add: lf_defs put_le_def)
  from nth_blit [OF this assms(3)] u show ?thesis
    by (auto simp: less_Suc_eq numeral_2_eq_2)
qed

lemma put16_nth_other:
  assumes "lf_put16 r p v = Some r'" "k \<noteq> p" "k \<noteq> Suc p" "k < length r"
  shows "r' ! k = r ! k"
  using nth_blit [of r p "le_bytes 2 v" r' k] assms by (auto simp: lf_defs put_le_def)

lemma lf_get16_cong:
  assumes "length r' = length r" "r' ! p = r ! p" "r' ! Suc p = r ! Suc p"
  shows "lf_get16 r' p = lf_get16 r p"
proof -
  have "take 2 (drop p r') = take 2 (drop p r)" if "p + 2 \<le> length r"
    using assms that by (intro nth_equalityI) (auto simp: less_Suc_eq numeral_2_eq_2)
  with assms(1) show ?thesis by (auto simp: lf_defs get_le_def slice_def)
qed

lemma tail_off_bounds:
  assumes "usa_fits sector usa n (length r)" "1 \<le> i" "i < n"
  shows "tail_off sector i = i * sector - 2" "tail_off sector i + 2 \<le> length r"
    "usa + 2 * n \<le> tail_off sector i" "usa + i * 2 + 2 \<le> length r"
proof -
  from assms have f: "usa + 2 * n + 2 \<le> sector" "(n - 1) * sector = length r"
    "length r < 4294967296" "2 \<le> n" by (auto simp: usa_fits_def)
  have "i * sector \<le> (n - 1) * sector" using assms(3) by (intro mult_le_mono1) linarith
  with f(2) have le: "i * sector \<le> length r" by simp
  have "1 * sector \<le> i * sector" using assms(2) by (rule mult_le_mono1)
  then have ge: "sector \<le> i * sector" by simp
  from le f(3) have "u32 (i * sector) = i * sector" by simp
  then show "tail_off sector i = i * sector - 2" by (simp add: tail_off_def)
  then show "tail_off sector i + 2 \<le> length r" "usa + 2 * n \<le> tail_off sector i"
    "usa + i * 2 + 2 \<le> length r"
    using f le ge assms(3) by linarith+
qed

lemma tail_off_disjoint:
  assumes "usa_fits sector usa n (length r)" "1 \<le> i" "i < n" "1 \<le> j" "j < n" "i \<noteq> j"
  shows "tail_off sector i + 2 \<le> tail_off sector j \<or> tail_off sector j + 2 \<le> tail_off sector i"
proof -
  have s: "4 \<le> sector" using assms(1) by (auto simp: usa_fits_def)
  have le: "a * sector + sector \<le> b * sector" if "a < b" for a b
    using that by (metis Suc_leI add.commute mult_Suc mult_le_mono1)
  have "sector \<le> i * sector" "sector \<le> j * sector" using assms by auto
  then show ?thesis
    using le [of i j] le [of j i] s assms(6)
    by (auto simp: tail_off_bounds [OF assms(1-3)] tail_off_bounds [OF assms(1,4,5)] neq_iff)
qed

text \<open>Restoring writes the saved words back and touches nothing else.\<close>

lemma restore_sectors_spec:
  assumes "usa_fits sector usa n (length r)" "distinct is" "\<forall>i\<in>set is. 1 \<le> i \<and> i < n"
  shows "\<exists>r'. restore_sectors sector usa is r = Some r' \<and> length r' = length r \<and>
    (\<forall>i\<in>set is. r' ! tail_off sector i = r ! (usa + i * 2) \<and>
       r' ! Suc (tail_off sector i) = r ! Suc (usa + i * 2)) \<and>
    (\<forall>k<length r. (\<forall>i\<in>set is. k \<noteq> tail_off sector i \<and> k \<noteq> Suc (tail_off sector i)) \<longrightarrow> r' ! k = r ! k)"
  using assms
proof (induction "is" arbitrary: r)
  case (Cons i "is")
  note b = tail_off_bounds [OF Cons.prems(1), of i]
  from Cons.prems b obtain v where v: "lf_get16 r (usa + i * 2) = Some v"
    using get_le_ok [of "usa + i * 2" 2 r] by (auto simp: lf_defs)
  from Cons.prems b obtain r1 where r1: "lf_put16 r (tail_off sector i) v = Some r1"
    using put_le_ok [of "tail_off sector i" 2 r v] by (auto simp: lf_defs)
  have len: "length r1 = length r" using r1 by (simp add: lf_defs buf_simps)
  note nth = put_get16_nth [OF v r1]
  from Cons.IH [of r1] Cons.prems len obtain r' where r':
    "restore_sectors sector usa is r1 = Some r'" "length r' = length r"
    "\<forall>j\<in>set is. r' ! tail_off sector j = r1 ! (usa + j * 2) \<and>
       r' ! Suc (tail_off sector j) = r1 ! Suc (usa + j * 2)"
    "\<forall>k<length r. (\<forall>j\<in>set is. k \<noteq> tail_off sector j \<and> k \<noteq> Suc (tail_off sector j)) \<longrightarrow> r' ! k = r1 ! k"
    by auto
  have usa1: "r1 ! (usa + j * 2) = r ! (usa + j * 2)" "r1 ! Suc (usa + j * 2) = r ! Suc (usa + j * 2)"
    if "j < n" "1 \<le> j" for j
    using nth tail_off_bounds [OF Cons.prems(1) that(2,1)] b Cons.prems(3) that by auto
  have dj: "tail_off sector i \<noteq> tail_off sector j \<and> tail_off sector i \<noteq> Suc (tail_off sector j) \<and>
      Suc (tail_off sector i) \<noteq> tail_off sector j" if "j \<in> set is" for j
  proof -
    have "j \<noteq> i" "1 \<le> j" "j < n" using Cons.prems that by auto
    with tail_off_disjoint [OF Cons.prems(1), of i j] Cons.prems(3) show ?thesis by force
  qed
  have tail1: "r' ! tail_off sector i = r ! (usa + i * 2)"
    "r' ! Suc (tail_off sector i) = r ! Suc (usa + i * 2)"
    using r'(4) dj b Cons.prems(3) nth by force+
  have "\<forall>j\<in>set is. r' ! tail_off sector j = r ! (usa + j * 2) \<and>
       r' ! Suc (tail_off sector j) = r ! Suc (usa + j * 2)"
    using r'(3) usa1 Cons.prems(3) by auto
  moreover have "\<forall>k<length r. (\<forall>j\<in>set (i # is). k \<noteq> tail_off sector j \<and> k \<noteq> Suc (tail_off sector j))
       \<longrightarrow> r' ! k = r ! k"
    using r'(4) nth by simp
  ultimately show ?case
    using r'(1,2) tail1 by (simp add: v r1)
qed simp

text \<open>Saving moves the tail words into the usa and stamps every sector with the usn.\<close>

lemma save_sectors_spec:
  assumes "usa_fits sector usa n (length r)" "distinct is" "\<forall>i\<in>set is. 1 \<le> i \<and> i < n" "usn < 65536"
  shows "\<exists>r'. save_sectors sector usa usn is r = Some r' \<and> length r' = length r \<and>
    (\<forall>i\<in>set is. r' ! (usa + i * 2) = r ! tail_off sector i \<and>
       r' ! Suc (usa + i * 2) = r ! Suc (tail_off sector i) \<and>
       lf_get16 r' (tail_off sector i) = Some usn) \<and>
    (\<forall>k<length r. (\<forall>i\<in>set is. k \<noteq> tail_off sector i \<and> k \<noteq> Suc (tail_off sector i) \<and>
       k \<noteq> usa + i * 2 \<and> k \<noteq> Suc (usa + i * 2)) \<longrightarrow> r' ! k = r ! k)"
  using assms
proof (induction "is" arbitrary: r)
  case (Cons i "is")
  note b = tail_off_bounds [OF Cons.prems(1), of i]
  have i: "1 \<le> i" "i < n" using Cons.prems(3) by auto
  from b i obtain v where v: "lf_get16 r (tail_off sector i) = Some v"
    using get_le_ok [of "tail_off sector i" 2 r] by (auto simp: lf_defs)
  from b i obtain r1 where r1: "lf_put16 r (usa + i * 2) v = Some r1"
    using put_le_ok [of "usa + i * 2" 2 r v] by (auto simp: lf_defs)
  have len1: "length r1 = length r" using r1 by (simp add: lf_defs buf_simps)
  from b i len1 obtain r2 where r2: "lf_put16 r1 (tail_off sector i) usn = Some r2"
    using put_le_ok [of "tail_off sector i" 2 r1 usn] by (auto simp: lf_defs)
  have len2: "length r2 = length r" using r2 len1 by (simp add: lf_defs buf_simps)
  have g2: "lf_get16 r2 (tail_off sector i) = Some usn"
    using get_put_le_same [OF r2 [unfolded lf_defs]] Cons.prems(4) by (simp add: lf_defs)
  note nth1 = put_get16_nth [OF v r1]
  have nth2: "r2 ! k = r1 ! k" if "k \<noteq> tail_off sector i" "k \<noteq> Suc (tail_off sector i)" "k < length r" for k
    using put16_nth_other [OF r2 that(1,2)] that len1 by simp
  from Cons.IH [of r2] Cons.prems len2 obtain r' where r':
    "save_sectors sector usa usn is r2 = Some r'" "length r' = length r"
    "\<forall>j\<in>set is. r' ! (usa + j * 2) = r2 ! tail_off sector j \<and>
       r' ! Suc (usa + j * 2) = r2 ! Suc (tail_off sector j) \<and> lf_get16 r' (tail_off sector j) = Some usn"
    "\<forall>k<length r. (\<forall>j\<in>set is. k \<noteq> tail_off sector j \<and> k \<noteq> Suc (tail_off sector j) \<and>
       k \<noteq> usa + j * 2 \<and> k \<noteq> Suc (usa + j * 2)) \<longrightarrow> r' ! k = r2 ! k"
    by auto
  have dj: "tail_off sector i + 2 \<le> tail_off sector j \<or> tail_off sector j + 2 \<le> tail_off sector i"
    "usa + i * 2 + 2 \<le> usa + j * 2 \<or> usa + j * 2 + 2 \<le> usa + i * 2"
    "usa + i * 2 + 2 \<le> tail_off sector j" "usa + j * 2 + 2 \<le> tail_off sector i"
    "tail_off sector j + 2 \<le> length r" if "j \<in> set is" for j
  proof -
    have "j \<noteq> i" "1 \<le> j" "j < n" using Cons.prems that by auto
    with tail_off_disjoint [OF Cons.prems(1), of i j] i tail_off_bounds [OF Cons.prems(1), of j] b
    show "tail_off sector i + 2 \<le> tail_off sector j \<or> tail_off sector j + 2 \<le> tail_off sector i"
      "usa + i * 2 + 2 \<le> usa + j * 2 \<or> usa + j * 2 + 2 \<le> usa + i * 2"
      "usa + i * 2 + 2 \<le> tail_off sector j" "usa + j * 2 + 2 \<le> tail_off sector i"
      "tail_off sector j + 2 \<le> length r" by linarith+
  qed
  have ui: "usa + i * 2 + 2 \<le> tail_off sector i" "tail_off sector i + 2 \<le> length r" using b i by linarith+
  have keep: "r' ! k = r2 ! k" if "k \<in> {usa + i * 2, Suc (usa + i * 2), tail_off sector i, Suc (tail_off sector i)}" for k
  proof -
    have "k < length r" using that ui by auto
    moreover have "k \<noteq> tail_off sector j \<and> k \<noteq> Suc (tail_off sector j) \<and> k \<noteq> usa + j * 2 \<and> k \<noteq> Suc (usa + j * 2)"
      if "j \<in> set is" for j
      using dj [OF that] ui \<open>k \<in> _\<close> unfolding insert_iff empty_iff by (elim disjE; intro conjI; simp)
    ultimately show ?thesis using r'(4) by blast
  qed
  have saved: "r' ! (usa + i * 2) = r ! tail_off sector i" "r' ! Suc (usa + i * 2) = r ! Suc (tail_off sector i)"
    using keep [of "usa + i * 2"] keep [of "Suc (usa + i * 2)"] nth2 nth1 ui by simp_all
  have stamped: "lf_get16 r' (tail_off sector i) = Some usn"
    using lf_get16_cong [of r' r2 "tail_off sector i"] keep g2 r'(2) len2 by simp
  have rest: "\<forall>j\<in>set is. r' ! (usa + j * 2) = r ! tail_off sector j \<and>
      r' ! Suc (usa + j * 2) = r ! Suc (tail_off sector j) \<and> lf_get16 r' (tail_off sector j) = Some usn"
  proof
    fix j assume j: "j \<in> set is"
    have "r2 ! tail_off sector j = r ! tail_off sector j" "r2 ! Suc (tail_off sector j) = r ! Suc (tail_off sector j)"
      using dj [OF j] nth1 [of "tail_off sector j"] nth1 [of "Suc (tail_off sector j)"]
        nth2 [of "tail_off sector j"] nth2 [of "Suc (tail_off sector j)"] by auto
    with r'(3) j show "r' ! (usa + j * 2) = r ! tail_off sector j \<and>
      r' ! Suc (usa + j * 2) = r ! Suc (tail_off sector j) \<and> lf_get16 r' (tail_off sector j) = Some usn" by simp
  qed
  have frame: "\<forall>k<length r. (\<forall>j\<in>set (i # is). k \<noteq> tail_off sector j \<and> k \<noteq> Suc (tail_off sector j) \<and>
       k \<noteq> usa + j * 2 \<and> k \<noteq> Suc (usa + j * 2)) \<longrightarrow> r' ! k = r ! k"
    using r'(4) nth1 nth2 by simp
  show ?case using r'(1,2) saved stamped rest frame by (simp add: v r1 r2)
qed simp

lemma tails_match_True:
  assumes "\<forall>i\<in>set is. lf_get16 r (tail_off sector i) = Some usn"
  shows "tails_match sector usn is r = Some True"
  using assms by (induction "is") auto

lemma tails_match_total:
  assumes "\<forall>i\<in>set is. tail_off sector i + 2 \<le> length r"
  shows "tails_match sector usn is r = Some (\<forall>i\<in>set is. lf_get16 r (tail_off sector i) = Some usn)"
  using assms
proof (induction "is")
  case (Cons i "is")
  then obtain t where "lf_get16 r (tail_off sector i) = Some t"
    using get_le_ok [of "tail_off sector i" 2 r] by (auto simp: lf_defs)
  with Cons show ?case by auto
qed simp

text \<open>Save then restore: only the usa words change.\<close>

lemma save_restore:
  assumes fits: "usa_fits sector usa n (length r)" and usn: "usn < 65536"
    and save: "save_sectors sector usa usn [1..<n] r = Some r1"
  shows "\<exists>r2. restore_sectors sector usa [1..<n] r1 = Some r2 \<and> length r2 = length r \<and>
    (\<forall>k<length r. \<not> (usa + 2 \<le> k \<and> k < usa + 2 * n) \<longrightarrow> r2 ! k = r ! k)"
proof -
  have idx: "distinct [1..<n]" "\<forall>i\<in>set [1..<n]. 1 \<le> i \<and> i < n" by auto
  from save_sectors_spec [OF fits idx usn] save
  have s: "length r1 = length r"
    "\<And>i. 1 \<le> i \<Longrightarrow> i < n \<Longrightarrow> r1 ! (usa + i * 2) = r ! tail_off sector i \<and>
       r1 ! Suc (usa + i * 2) = r ! Suc (tail_off sector i)"
    "\<And>k. k < length r \<Longrightarrow> (\<forall>i\<in>set [1..<n]. k \<noteq> tail_off sector i \<and> k \<noteq> Suc (tail_off sector i) \<and>
       k \<noteq> usa + i * 2 \<and> k \<noteq> Suc (usa + i * 2)) \<Longrightarrow> r1 ! k = r ! k" by auto
  from restore_sectors_spec [OF fits [folded s(1)] idx] obtain r2 where r2:
    "restore_sectors sector usa [1..<n] r1 = Some r2" "length r2 = length r1"
    "\<And>i. 1 \<le> i \<Longrightarrow> i < n \<Longrightarrow> r2 ! tail_off sector i = r1 ! (usa + i * 2) \<and>
       r2 ! Suc (tail_off sector i) = r1 ! Suc (usa + i * 2)"
    "\<And>k. k < length r1 \<Longrightarrow> (\<forall>i\<in>set [1..<n]. k \<noteq> tail_off sector i \<and> k \<noteq> Suc (tail_off sector i))
       \<Longrightarrow> r2 ! k = r1 ! k" by auto
  have "r2 ! k = r ! k" if k: "k < length r" "\<not> (usa + 2 \<le> k \<and> k < usa + 2 * n)" for k
  proof (cases "\<exists>i. 1 \<le> i \<and> i < n \<and> (k = tail_off sector i \<or> k = Suc (tail_off sector i))")
    case True
    then show ?thesis using r2(3) s(2) by metis
  next
    case False
    then have t: "\<forall>i\<in>set [1..<n]. k \<noteq> tail_off sector i \<and> k \<noteq> Suc (tail_off sector i)" by auto
    have u: "\<forall>i\<in>set [1..<n]. k \<noteq> usa + i * 2 \<and> k \<noteq> Suc (usa + i * 2)"
      using k(2) by auto
    have "r1 ! k = r ! k" using s(3) [OF k(1)] t u by blast
    moreover have "r2 ! k = r1 ! k" using r2(4) k(1) s(1) t by simp
    ultimately show ?thesis by simp
  qed
  with r2(1,2) s(1) show ?thesis by auto
qed

text \<open>
  The whole write path on a record whose usa fits: stamp the usn word, save the tails.  The
  header words and the usn are intact afterwards, every tail equals the usn, and restoring
  gives the record back outside the usa.
\<close>

lemma protect_core:
  assumes fits: "usa_fits sector usa n (length r)" and usn: "usn < 65536"
    and put: "lf_put16 r usa usn = Some r1"
    and save: "save_sectors sector usa usn [1..<n] r1 = Some r2"
  shows "length r2 = length r" "lf_get16 r2 4 = lf_get16 r 4" "lf_get16 r2 6 = lf_get16 r 6"
    "lf_get16 r2 usa = Some usn" "\<forall>i\<in>set [1..<n]. lf_get16 r2 (tail_off sector i) = Some usn"
    "\<exists>r3. restore_sectors sector usa [1..<n] r2 = Some r3 \<and> length r3 = length r \<and>
       (\<forall>k<length r. \<not> (usa \<le> k \<and> k < usa + 2 * n) \<longrightarrow> r3 ! k = r ! k)"
proof -
  have len1: "length r1 = length r" using put by (simp add: lf_defs buf_simps)
  have ub: "8 \<le> usa" "usa + 2 * n + 2 \<le> length r" "2 \<le> n"
    using usa_fits_bounds [OF fits] by simp_all
  have put_nth: "r1 ! k = r ! k" if "k \<noteq> usa" "k \<noteq> Suc usa" "k < length r" for k
    by (rule put16_nth_other [OF put that])
  from save_sectors_spec [OF fits [folded len1], of "[1..<n]" usn] save usn
  have s: "length r2 = length r1"
    "\<And>i. 1 \<le> i \<Longrightarrow> i < n \<Longrightarrow> lf_get16 r2 (tail_off sector i) = Some usn"
    "\<And>k. k < length r1 \<Longrightarrow> (\<forall>i\<in>set [1..<n]. k \<noteq> tail_off sector i \<and> k \<noteq> Suc (tail_off sector i) \<and>
       k \<noteq> usa + i * 2 \<and> k \<noteq> Suc (usa + i * 2)) \<Longrightarrow> r2 ! k = r1 ! k" by auto
  show len2: "length r2 = length r" using s(1) len1 by simp
  have head: "r2 ! k = r1 ! k" if "k < usa + 2" for k
  proof (rule s(3))
    show "k < length r1" using that ub len1 by simp
    show "\<forall>i\<in>set [1..<n]. k \<noteq> tail_off sector i \<and> k \<noteq> Suc (tail_off sector i) \<and>
       k \<noteq> usa + i * 2 \<and> k \<noteq> Suc (usa + i * 2)"
      using that tail_off_bounds(3) [OF fits] ub by fastforce
  qed
  show "lf_get16 r2 4 = lf_get16 r 4" "lf_get16 r2 6 = lf_get16 r 6"
    using head put_nth ub len2 by (auto intro!: lf_get16_cong)
  have "lf_get16 r1 usa = Some usn"
    using get_put_le_same [OF put [unfolded lf_defs]] usn by (simp add: lf_defs)
  moreover have "lf_get16 r2 usa = lf_get16 r1 usa"
    using head s(1) by (intro lf_get16_cong) auto
  ultimately show "lf_get16 r2 usa = Some usn" by simp
  show "\<forall>i\<in>set [1..<n]. lf_get16 r2 (tail_off sector i) = Some usn" using s(2) by auto
  from save_restore [OF fits [folded len1] usn save] obtain r3 where r3:
    "restore_sectors sector usa [1..<n] r2 = Some r3" "length r3 = length r1"
    "\<forall>k<length r1. \<not> (usa + 2 \<le> k \<and> k < usa + 2 * n) \<longrightarrow> r3 ! k = r1 ! k" by auto
  have "r3 ! k = r ! k" if "k < length r" "\<not> (usa \<le> k \<and> k < usa + 2 * n)" for k
  proof -
    have "r3 ! k = r1 ! k" using r3(3) that len1 by simp
    moreover have "r1 ! k = r ! k" using put_nth that ub by auto
    ultimately show ?thesis by simp
  qed
  with r3(1,2) len1 show "\<exists>r3. restore_sectors sector usa [1..<n] r2 = Some r3 \<and> length r3 = length r \<and>
       (\<forall>k<length r. \<not> (usa \<le> k \<and> k < usa + 2 * n) \<longrightarrow> r3 ! k = r ! k)" by auto
qed

end
