(* ===== verification/Lfs_Fixup.thy ===== *)
theory Lfs_Fixup
  imports Sectors
begin

text \<open>
  Multi-sector-transfer protection as the log engine does it
  (core/logfile/logfile_pages.c, \<open>lfs_fixup_post_read\<close> and \<open>lfs_fixup_pre_write\<close>), and the
  contract \<open>mst_protected\<close> that both this implementation and the driver's core/ntfs/mst.c
  give to the code that reads and writes protected records.
\<close>

section \<open>The operations\<close>

primrec post_read_sectors ::
  "nat \<Rightarrow> nat \<Rightarrow> nat \<Rightarrow> nat list \<Rightarrow> buf \<Rightarrow> bool \<Rightarrow> (buf \<times> bool) option" where
  "post_read_sectors sector usa usn [] r torn = Some (r, torn)"
| "post_read_sectors sector usa usn (i # is) r torn = do {
     t \<leftarrow> lf_get16 r (tail_off sector i);
     v \<leftarrow> lf_get16 r (usa + i * 2);
     r' \<leftarrow> lf_put16 r (tail_off sector i) v;
     post_read_sectors sector usa usn is r' (torn \<or> t \<noteq> usn) }"

text \<open>The header check both functions start with.\<close>

definition usa_bad :: "nat \<Rightarrow> nat \<Rightarrow> nat \<Rightarrow> nat \<Rightarrow> bool" where
  "usa_bad usa_ofs usa_count bytes sector \<longleftrightarrow>
     odd usa_ofs \<or> usa_count < 2 \<or> usa_ofs + usa_count * 2 > sector \<or>
     u32 ((usa_count - 1) * sector) \<noteq> bytes"

definition lfs_fixup_post_read :: "buf \<Rightarrow> nat \<Rightarrow> nat \<Rightarrow> (int \<times> buf \<times> bool) option" where
  "lfs_fixup_post_read r bytes sector = do {
     usa_ofs \<leftarrow> lf_get16 r 4;
     usa_count \<leftarrow> lf_get16 r 6;
     if usa_bad usa_ofs usa_count bytes sector then Some (- EINVAL, r, False)
     else do {
       usn \<leftarrow> lf_get16 r usa_ofs;
       (r', torn) \<leftarrow> post_read_sectors sector usa_ofs usn [1..<usa_count] r False;
       Some (0, r', torn) } }"

text \<open>The next update sequence number, skipping 0 and 0xffff.\<close>

definition next_usn :: "nat \<Rightarrow> nat" where
  "next_usn v = (let usn = u16 (v + 1) in if usn = 65535 \<or> usn = 0 then 1 else usn)"

definition lfs_fixup_pre_write :: "buf \<Rightarrow> nat \<Rightarrow> nat \<Rightarrow> (int \<times> buf) option" where
  "lfs_fixup_pre_write r bytes sector = do {
     usa_ofs \<leftarrow> lf_get16 r 4;
     usa_count \<leftarrow> lf_get16 r 6;
     if usa_bad usa_ofs usa_count bytes sector then Some (- EINVAL, r)
     else do {
       v \<leftarrow> lf_get16 r usa_ofs;
       r1 \<leftarrow> lf_put16 r usa_ofs (next_usn v);
       r2 \<leftarrow> save_sectors sector usa_ofs (next_usn v) [1..<usa_count] r1;
       Some (0, r2) } }"

section \<open>Protected records\<close>

text \<open>
  A record that can be protected: its header places a usa of \<open>n\<close> words that fits in the first
  sector without touching the header or the sector's last word.
\<close>

definition mst_wf :: "nat \<Rightarrow> buf \<Rightarrow> bool" where
  "mst_wf sector r \<longleftrightarrow> (\<exists>usa n. lf_get16 r 4 = Some usa \<and> lf_get16 r 6 = Some n \<and> even usa \<and>
     usa_fits sector usa n (length r))"

text \<open>The record without its usa: what must survive a write and a read.\<close>

definition mst_payload :: "buf \<Rightarrow> buf" where
  "mst_payload r = (case (lf_get16 r 4, lf_get16 r 6) of
     (Some usa, Some n) \<Rightarrow> take usa r @ drop (usa + 2 * n) r
   | _ \<Rightarrow> r)"

lemma next_usn_bounds: "1 \<le> next_usn v" "next_usn v < 65535"
  using u16_less [of "v + 1"] by (auto simp: next_usn_def Let_def simp del: u16_less)

lemma usa_bad_fits:
  assumes "even usa" "usa_fits sector usa n len"
  shows "\<not> usa_bad usa n len sector"
  using assms by (auto simp: usa_bad_def usa_fits_def)

lemma post_read_sectors_restore:
  assumes "usa_fits sector usa n (length r)" "distinct is" "\<forall>i\<in>set is. 1 \<le> i \<and> i < n"
  shows "post_read_sectors sector usa usn is r torn =
    map_option (\<lambda>r'. (r', torn \<or> (\<exists>i\<in>set is. lf_get16 r (tail_off sector i) \<noteq> Some usn)))
      (restore_sectors sector usa is r)"
  using assms
proof (induction "is" arbitrary: r torn)
  case (Cons i "is")
  have i: "1 \<le> i" "i < n" using Cons.prems(3) by auto
  note b = tail_off_bounds [OF Cons.prems(1) i]
  from b obtain v where v: "lf_get16 r (usa + i * 2) = Some v"
    using get_le_ok [of "usa + i * 2" 2 r] by (auto simp: lf_defs)
  from b obtain t where t: "lf_get16 r (tail_off sector i) = Some t"
    using get_le_ok [of "tail_off sector i" 2 r] by (auto simp: lf_defs)
  from b obtain r1 where r1: "lf_put16 r (tail_off sector i) v = Some r1"
    using put_le_ok [of "tail_off sector i" 2 r v] by (auto simp: lf_defs)
  have len: "length r1 = length r" using r1 by (simp add: lf_defs buf_simps)
  have same: "lf_get16 r1 (tail_off sector j) = lf_get16 r (tail_off sector j)" if "j \<in> set is" for j
  proof -
    have "j \<noteq> i" "1 \<le> j" "j < n" using Cons.prems that by auto
    with tail_off_disjoint [OF Cons.prems(1) i, of j]
    show ?thesis using get_put_le_other [OF r1 [unfolded lf_defs]] by (auto simp: lf_defs)
  qed
  show ?case
    using Cons.IH [of r1] Cons.prems len same by (auto simp: v t r1)
qed simp

lemma lfs_fixup_post_read_eq:
  assumes "lf_get16 r 4 = Some usa" "lf_get16 r 6 = Some n" "even usa"
    "usa_fits sector usa n (length r)" "lf_get16 r usa = Some usn"
  shows "lfs_fixup_post_read r (length r) sector =
    map_option (\<lambda>r'. (0, r', \<exists>i\<in>set [1..<n]. lf_get16 r (tail_off sector i) \<noteq> Some usn))
      (restore_sectors sector usa [1..<n] r)"
proof -
  have "post_read_sectors sector usa usn [1..<n] r False =
    map_option (\<lambda>r'. (r', \<exists>i\<in>set [1..<n]. lf_get16 r (tail_off sector i) \<noteq> Some usn))
      (restore_sectors sector usa [1..<n] r)"
    using post_read_sectors_restore [OF assms(4), of "[1..<n]" usn False] by simp
  with assms usa_bad_fits [OF assms(3,4)] show ?thesis
    by (simp add: lfs_fixup_post_read_def option.map_comp comp_def bind_map_option
        map_conv_bind_option)
qed

section \<open>The contract\<close>

locale mst_protected =
  fixes protect :: "buf \<Rightarrow> (int \<times> buf) option"
    and deprotect :: "buf \<Rightarrow> (int \<times> buf \<times> bool) option"
    and wf :: "buf \<Rightarrow> bool"
    and payload :: "buf \<Rightarrow> buf"
  assumes protect_ok: "wf r \<Longrightarrow> \<exists>r'. protect r = Some (0, r')"
    and deprotect_protect: "wf r \<Longrightarrow> protect r = Some (0, r') \<Longrightarrow>
      \<exists>r''. deprotect r' = Some (0, r'', False) \<and> wf r'' \<and> payload r'' = payload r"
begin

lemma write_read:
  assumes "wf r"
  shows "\<exists>r' r''. protect r = Some (0, r') \<and> deprotect r' = Some (0, r'', False) \<and>
    payload r'' = payload r"
  using protect_ok [OF assms] deprotect_protect [OF assms] by blast

text \<open>Any number of write-then-read cycles keeps the payload and never reports a torn record.\<close>

lemma cycles:
  assumes "((\<lambda>a b. \<exists>m e t. protect a = Some (0, m) \<and> deprotect m = Some (e, b, t)) ^^ k) r s" "wf r"
  shows "wf s \<and> payload s = payload r"
  using assms
proof (induction k arbitrary: s)
  case (Suc k)
  then obtain s' where s': "wf s'" "payload s' = payload r"
    and st: "\<exists>m e t. protect s' = Some (0, m) \<and> deprotect m = Some (e, s, t)" by auto
  from st deprotect_protect [OF s'(1)] s'(2) show ?case by fastforce
qed simp

end

section \<open>Correctness\<close>

lemma payload_eqI:
  assumes "lf_get16 r 4 = Some usa" "lf_get16 r 6 = Some n" "8 \<le> usa" "usa + 2 * n \<le> length r"
    "length r' = length r" "\<forall>k<length r. \<not> (usa \<le> k \<and> k < usa + 2 * n) \<longrightarrow> r' ! k = r ! k"
  shows "lf_get16 r' 4 = Some usa" "lf_get16 r' 6 = Some n" "mst_payload r' = mst_payload r"
proof -
  have h: "lf_get16 r' 4 = lf_get16 r 4" "lf_get16 r' 6 = lf_get16 r 6"
    using assms(3-6) by (intro lf_get16_cong; simp)+
  then show "lf_get16 r' 4 = Some usa" "lf_get16 r' 6 = Some n" using assms by auto
  have "take usa r' = take usa r" "drop (usa + 2 * n) r' = drop (usa + 2 * n) r"
    using assms by (auto intro!: nth_equalityI)
  with h assms show "mst_payload r' = mst_payload r" by (simp add: mst_payload_def)
qed

lemma lfs_pre_write_parts:
  assumes "mst_wf sector r" "length r = bytes"
  shows "\<exists>usa n v r1 r2. lf_get16 r 4 = Some usa \<and> lf_get16 r 6 = Some n \<and> even usa \<and>
    usa_fits sector usa n (length r) \<and> lf_get16 r usa = Some v \<and>
    lf_put16 r usa (next_usn v) = Some r1 \<and>
    save_sectors sector usa (next_usn v) [1..<n] r1 = Some r2 \<and>
    lfs_fixup_pre_write r bytes sector = Some (0, r2)"
proof -
  from assms(1) obtain usa n where h: "lf_get16 r 4 = Some usa" "lf_get16 r 6 = Some n" "even usa"
    and fits: "usa_fits sector usa n (length r)" by (auto simp: mst_wf_def)
  have ub: "usa + 2 \<le> length r"
    using usa_fits_bounds [OF fits] by simp_all
  from ub obtain v where v: "lf_get16 r usa = Some v"
    using get_le_ok [of usa 2 r] by (auto simp: lf_defs)
  from ub obtain r1 where r1: "lf_put16 r usa (next_usn v) = Some r1"
    using put_le_ok [of usa 2 r] by (auto simp: lf_defs)
  have len: "length r1 = length r" using r1 by (simp add: lf_defs buf_simps)
  from save_sectors_spec [OF fits [folded len], of "[1..<n]" "next_usn v"] next_usn_bounds [of v]
  obtain r2 where r2: "save_sectors sector usa (next_usn v) [1..<n] r1 = Some r2" by auto
  have "lfs_fixup_pre_write r bytes sector = Some (0, r2)"
    using h v r1 r2 usa_bad_fits [OF h(3) fits] assms(2) by (simp add: lfs_fixup_pre_write_def)
  with h fits v r1 r2 show ?thesis by blast
qed

lemma lfs_deprotect_protect:
  assumes "mst_wf sector r" "lfs_fixup_pre_write r (length r) sector = Some (0, r2)"
  shows "\<exists>r3. lfs_fixup_post_read r2 (length r2) sector = Some (0, r3, False) \<and> mst_wf sector r3 \<and>
    mst_payload r3 = mst_payload r"
proof -
  from lfs_pre_write_parts [OF assms(1) refl] assms(2) obtain usa n v r1 where
    h: "lf_get16 r 4 = Some usa" "lf_get16 r 6 = Some n" "even usa"
    and fits: "usa_fits sector usa n (length r)"
    and r1: "lf_put16 r usa (next_usn v) = Some r1"
    and r2: "save_sectors sector usa (next_usn v) [1..<n] r1 = Some r2" by auto
  have usn: "next_usn v < 65536" using next_usn_bounds [of v] by simp
  note pc = protect_core [OF fits usn r1 r2]
  from pc(6) obtain r3 where r3: "restore_sectors sector usa [1..<n] r2 = Some r3" "length r3 = length r"
    "\<forall>k<length r. \<not> (usa \<le> k \<and> k < usa + 2 * n) \<longrightarrow> r3 ! k = r ! k" by auto
  have "lfs_fixup_post_read r2 (length r2) sector = Some (0, r3, False)"
    using lfs_fixup_post_read_eq [of r2 usa n sector "next_usn v"] pc h fits r3(1) by auto
  moreover have ub: "8 \<le> usa" "usa + 2 * n \<le> length r"
    using usa_fits_bounds [OF fits] by simp_all
  ultimately show ?thesis
    using payload_eqI [OF h(1,2) ub r3(2,3)] h(3) fits r3(2) by (auto simp: mst_wf_def)
qed

interpretation lfs_mst: mst_protected
  "\<lambda>r. lfs_fixup_pre_write r (length r) sector" "\<lambda>r. lfs_fixup_post_read r (length r) sector"
  "mst_wf sector" mst_payload for sector
proof unfold_locales
  fix r assume "mst_wf sector r"
  from lfs_pre_write_parts [OF this refl]
  show "\<exists>r'. lfs_fixup_pre_write r (length r) sector = Some (0, r')" by blast
next
  fix r r' assume "mst_wf sector r" "lfs_fixup_pre_write r (length r) sector = Some (0, r')"
  then show "\<exists>r''. lfs_fixup_post_read r' (length r') sector = Some (0, r'', False) \<and>
      mst_wf sector r'' \<and> mst_payload r'' = mst_payload r"
    by (rule lfs_deprotect_protect)
qed

text \<open>
  C5.  Protecting a record for the write and deprotecting what was written gives the record
  back: both calls succeed, no sector is reported torn, and everything outside the update
  sequence array is unchanged.
\<close>

theorem fixup_roundtrip:
  assumes "mst_wf sector r"
  shows "\<exists>w r'. lfs_fixup_pre_write r (length r) sector = Some (0, w) \<and>
    lfs_fixup_post_read w (length w) sector = Some (0, r', False) \<and> mst_payload r' = mst_payload r"
  by (rule lfs_mst.write_read [OF assms])

definition ex_rec :: buf where
  "ex_rec = [70,73,76,69, 8,0, 3,0, 1,0, 0,0, 0,0, 7,7, 1,2,3,4,5,6,7,8,9,10,11,12,13,14,15,16]"

lemma ex_rec_wf: "mst_wf 16 ex_rec"
  by (simp add: mst_wf_def ex_rec_def lf_defs get_le_def slice_def usa_fits_def)

lemma length_lfs_fixup_pre_write:
  "lfs_fixup_pre_write r bytes sector = Some (e, r') \<Longrightarrow> length r' = length r"
  by (auto simp: lfs_fixup_pre_write_def bind_eq_Some_conv lf_defs split: if_splits
      dest!: length_save_sectors length_put_le)

theorem fixup_roundtrip_witness:
  "mst_wf 16 ex_rec \<and> (\<exists>w r'. lfs_fixup_pre_write ex_rec 32 16 = Some (0, w) \<and>
    lfs_fixup_post_read w 32 16 = Some (0, r', False) \<and> mst_payload r' = mst_payload ex_rec)"
proof -
  have len: "length ex_rec = 32" by (simp add: ex_rec_def)
  with fixup_roundtrip [OF ex_rec_wf] ex_rec_wf show ?thesis
    unfolding len by (metis len length_lfs_fixup_pre_write)
qed

text \<open>
  C21.  Deprotection is exact: on a record whose usa fits, the torn flag is set if and only if
  the last word of some sector differs from the update sequence number, and the caller gets
  every sector's saved word back in either case.
\<close>

theorem fixup_torn_iff:
  assumes "lf_get16 w 4 = Some usa" "lf_get16 w 6 = Some n" "even usa"
    "usa_fits sector usa n (length w)"
  shows "\<exists>r' torn usn. lfs_fixup_post_read w (length w) sector = Some (0, r', torn) \<and>
    lf_get16 w usa = Some usn \<and>
    (torn \<longleftrightarrow> (\<exists>i. 1 \<le> i \<and> i < n \<and> lf_get16 w (i * sector - 2) \<noteq> Some usn)) \<and>
    (\<forall>i. 1 \<le> i \<and> i < n \<longrightarrow> lf_get16 r' (i * sector - 2) = lf_get16 w (usa + 2 * i))"
proof -
  note fits = assms(4)
  have "usa + 2 \<le> length w" using usa_fits_bounds [OF fits] by linarith
  then obtain usn where usn: "lf_get16 w usa = Some usn"
    using get_le_ok [of usa 2 w] by (auto simp: lf_defs)
  from restore_sectors_spec [OF fits, of "[1..<n]"] obtain r' where r':
    "restore_sectors sector usa [1..<n] w = Some r'" "length r' = length w"
    "\<forall>i\<in>set [1..<n]. r' ! tail_off sector i = w ! (usa + i * 2) \<and>
       r' ! Suc (tail_off sector i) = w ! Suc (usa + i * 2)" by auto
  have "lf_get16 r' (i * sector - 2) = lf_get16 w (usa + 2 * i)" if "1 \<le> i" "i < n" for i
  proof -
    note b = tail_off_bounds [OF fits that]
    have "lf_get16 r' (tail_off sector i) = lf_get16 w (usa + i * 2)"
      using r'(2,3) b(2,4) that by (intro lf_get16_transfer) auto
    then show ?thesis by (simp only: b(1) mult.commute)
  qed
  moreover have "(\<exists>i\<in>set [1..<n]. lf_get16 w (tail_off sector i) \<noteq> Some usn) \<longleftrightarrow>
      (\<exists>i. 1 \<le> i \<and> i < n \<and> lf_get16 w (i * sector - 2) \<noteq> Some usn)"
    using tail_off_bounds(1) [OF fits] by (metis atLeastLessThan_iff set_upt)
  ultimately show ?thesis
    using lfs_fixup_post_read_eq [OF assms usn] r'(1) usn by auto
qed

theorem fixup_torn_iff_witness:
  "\<exists>r' torn usn. lfs_fixup_post_read ex_rec (length ex_rec) 16 = Some (0, r', torn) \<and>
    lf_get16 ex_rec 8 = Some usn \<and>
    (torn \<longleftrightarrow> (\<exists>i. 1 \<le> i \<and> i < 3 \<and> lf_get16 ex_rec (i * 16 - 2) \<noteq> Some usn)) \<and>
    (\<forall>i. 1 \<le> i \<and> i < 3 \<longrightarrow> lf_get16 r' (i * 16 - 2) = lf_get16 ex_rec (8 + 2 * i))"
  by (rule fixup_torn_iff) (simp_all add: ex_rec_def lf_defs get_le_def slice_def usa_fits_def)

section \<open>Memory safety on arbitrary input\<close>

lemma restore_like_ok:
  assumes "\<forall>i\<in>set is. tail_off sector i + 2 \<le> length r \<and> usa + i * 2 + 2 \<le> length r"
  shows "\<exists>r' t'. post_read_sectors sector usa usn is r t = Some (r', t') \<and> length r' = length r"
  using assms
proof (induction "is" arbitrary: r t)
  case (Cons i "is")
  then have b: "tail_off sector i + 2 \<le> length r" "usa + i * 2 + 2 \<le> length r" by auto
  from get_le_ok [OF b(1)] obtain x where x: "lf_get16 r (tail_off sector i) = Some x"
    by (auto simp: lf_defs)
  from get_le_ok [OF b(2)] obtain v where v: "lf_get16 r (usa + i * 2) = Some v"
    by (auto simp: lf_defs)
  from put_le_ok [OF b(1)] obtain r1 where r1: "lf_put16 r (tail_off sector i) v = Some r1"
    by (auto simp: lf_defs)
  have "length r1 = length r" using r1 by (simp add: lf_defs buf_simps)
  with Cons.IH [of r1] Cons.prems show ?case by (simp add: x v r1)
qed simp

lemma save_sectors_ok:
  assumes "\<forall>i\<in>set is. tail_off sector i + 2 \<le> length r \<and> usa + i * 2 + 2 \<le> length r"
  shows "\<exists>r'. save_sectors sector usa usn is r = Some r' \<and> length r' = length r"
  using assms
proof (induction "is" arbitrary: r)
  case (Cons i "is")
  then have b: "tail_off sector i + 2 \<le> length r" "usa + i * 2 + 2 \<le> length r" by auto
  from get_le_ok [OF b(1)] obtain v where v: "lf_get16 r (tail_off sector i) = Some v"
    by (auto simp: lf_defs)
  from put_le_ok [OF b(2)] obtain r1 where r1: "lf_put16 r (usa + i * 2) v = Some r1"
    by (auto simp: lf_defs)
  have l1: "length r1 = length r" using r1 by (simp add: lf_defs buf_simps)
  from put_le_ok [of "tail_off sector i" 2 r1] b(1) l1
  obtain r2 where r2: "lf_put16 r1 (tail_off sector i) usn = Some r2" by (auto simp: lf_defs)
  have "length r2 = length r" using r2 l1 by (simp add: lf_defs buf_simps)
  with Cons.IH [of r2] Cons.prems show ?case by (simp add: v r1 r2)
qed simp

lemma usa_ok_offsets:
  assumes "\<not> usa_bad usa n bytes sector" "2 \<le> sector" "sector \<le> 65536" "n < 65536"
  shows "usa + 2 \<le> bytes" "\<forall>i\<in>set [1..<n]. tail_off sector i + 2 \<le> bytes \<and> usa + i * 2 + 2 \<le> bytes"
proof -
  have le: "(n - 1) * sector \<le> 65534 * 65536" using assms by (intro mult_le_mono) auto
  from assms le have eq: "(n - 1) * sector = bytes" and b: "usa + n * 2 \<le> sector" "2 \<le> n"
    by (auto simp: usa_bad_def)
  have sb: "sector \<le> bytes" using eq b(2) by (metis diff_is_0_eq' le_add1 mult.commute mult_le_mono2
      nat_le_linear not_less_eq_eq numeral_2_eq_2 One_nat_def Suc_1 diff_Suc_1 le_diff_conv2
      mult.right_neutral add_leD2 diff_le_mono)
  then show "usa + 2 \<le> bytes" using b by linarith
  show "\<forall>i\<in>set [1..<n]. tail_off sector i + 2 \<le> bytes \<and> usa + i * 2 + 2 \<le> bytes"
  proof
    fix i assume "i \<in> set [1..<n]"
    then have i: "1 \<le> i" "i < n" by auto
    have "i * sector \<le> (n - 1) * sector" using i by (intro mult_le_mono1) linarith
    moreover have "1 * sector \<le> i * sector" using i by (intro mult_le_mono1) simp
    ultimately have ib: "i * sector \<le> bytes" "2 \<le> i * sector" using eq assms(2) by linarith+
    with le eq have "u32 (i * sector) = i * sector" by simp
    with ib have "tail_off sector i + 2 = i * sector" by (simp add: tail_off_def)
    moreover note ib(1)
    moreover have "usa + i * 2 + 2 \<le> sector" using i b by linarith
    ultimately show "tail_off sector i + 2 \<le> bytes \<and> usa + i * 2 + 2 \<le> bytes" using sb by linarith
  qed
qed

lemma fixups_total:
  assumes "8 \<le> length r" "2 \<le> sector" "sector \<le> 65536"
  shows "(\<exists>e r' torn. lfs_fixup_post_read r (length r) sector = Some (e, r', torn) \<and>
      length r' = length r \<and> (e = 0 \<or> e = - EINVAL \<and> r' = r)) \<and>
    (\<exists>e r'. lfs_fixup_pre_write r (length r) sector = Some (e, r') \<and>
      length r' = length r \<and> (e = 0 \<or> e = - EINVAL \<and> r' = r))"
proof -
  from assms(1) obtain usa n where h: "lf_get16 r 4 = Some usa" "lf_get16 r 6 = Some n"
    using get_le_ok [of 4 2 r] get_le_ok [of 6 2 r] by (auto simp: lf_defs)
  show ?thesis
  proof (cases "usa_bad usa n (length r) sector")
    case True
    then have "lfs_fixup_post_read r (length r) sector = Some (- EINVAL, r, False)"
      "lfs_fixup_pre_write r (length r) sector = Some (- EINVAL, r)"
      by (simp_all add: lfs_fixup_post_read_def lfs_fixup_pre_write_def h)
    then show ?thesis by blast
  next
    case False
    have "n < 65536" using h(2) get_le_less by (fastforce simp: lf_defs)
    note o = usa_ok_offsets [OF False assms(2,3) this]
    from get_le_ok [OF o(1)] obtain v where v: "lf_get16 r usa = Some v" by (auto simp: lf_defs)
    from put_le_ok [OF o(1)] obtain r1 where r1: "lf_put16 r usa (next_usn v) = Some r1"
      by (auto simp: lf_defs)
    have l1: "length r1 = length r" using r1 by (simp add: lf_defs buf_simps)
    from restore_like_ok [OF o(2)] obtain r' t' where
      "post_read_sectors sector usa v [1..<n] r False = Some (r', t')" "length r' = length r" by blast
    moreover from save_sectors_ok [of "[1..<n]" sector r1 usa "next_usn v"] o(2) l1 obtain r2 where
      "save_sectors sector usa (next_usn v) [1..<n] r1 = Some r2" "length r2 = length r" by auto
    ultimately show ?thesis
      using False by (simp add: lfs_fixup_post_read_def lfs_fixup_pre_write_def h v r1)
  qed
qed

text \<open>
  C22.  Whatever bytes a record holds, neither function touches memory outside it: with at
  least the eight header bytes present both return, with 0 or -EINVAL, and a record of the
  same length; on -EINVAL the record is unchanged.
\<close>

theorem fixup_memory_safe:
  assumes "8 \<le> length r" "2 \<le> sector" "sector \<le> 65536"
  shows "(\<exists>e r' torn. lfs_fixup_post_read r (length r) sector = Some (e, r', torn) \<and>
      length r' = length r \<and> (e = 0 \<or> e = - EINVAL \<and> r' = r)) \<and>
    (\<exists>e r'. lfs_fixup_pre_write r (length r) sector = Some (e, r') \<and>
      length r' = length r \<and> (e = 0 \<or> e = - EINVAL \<and> r' = r))"
  using fixups_total [OF assms] .

theorem fixup_memory_safe_witness:
  "(\<exists>e r' torn. lfs_fixup_post_read ex_rec (length ex_rec) 16 = Some (e, r', torn) \<and>
      length r' = length ex_rec \<and> (e = 0 \<or> e = - EINVAL \<and> r' = ex_rec)) \<and>
    (\<exists>e r'. lfs_fixup_pre_write ex_rec (length ex_rec) 16 = Some (e, r') \<and>
      length r' = length ex_rec \<and> (e = 0 \<or> e = - EINVAL \<and> r' = ex_rec))"
  by (rule fixup_memory_safe) (simp_all add: ex_rec_def)

end
