(* ===== verification/Mst.thy ===== *)
theory Mst
  imports Lfs_Fixup
begin

text \<open>
  The driver's own multi-sector-transfer fixups, core/ntfs/mst.c: \<open>post_read_mst_fixup\<close>,
  \<open>pre_write_mst_fixup\<close> and \<open>post_write_mst_fixup\<close>.  They give the contract
  \<open>mst_protected\<close> on records whose usa lies inside the first sector; on other records the
  bounds check of the code is one word short, which \<open>mst_bounds_check_short\<close> shows.
\<close>

section \<open>The operations\<close>

text \<open>Number of fixups, \<open>le16_to_cpu(b->usa_count) - 1\<close> stored in a \<open>u16\<close>.\<close>

definition mst_fixups :: "nat \<Rightarrow> nat" where
  "mst_fixups c = u16 (c + 65535)"

definition mst_skip :: "nat \<Rightarrow> nat \<Rightarrow> nat \<Rightarrow> bool" where
  "mst_skip usa_ofs usa_count sz \<longleftrightarrow>
     sz mod 512 \<noteq> 0 \<or> odd usa_ofs \<or> usa_ofs + usa_count * 2 > sz \<or> sz div 512 \<noteq> usa_count"

definition post_read_mst_fixup :: "buf \<Rightarrow> nat \<Rightarrow> (int \<times> buf) option" where
  "post_read_mst_fixup b sz = do {
     usa_ofs \<leftarrow> lf_get16 b 4;
     c \<leftarrow> lf_get16 b 6;
     let usa_count = mst_fixups c;
     if mst_skip usa_ofs usa_count sz then Some (0, b)
     else do {
       usn \<leftarrow> lf_get16 b usa_ofs;
       ok \<leftarrow> tails_match 512 usn [1..<usa_count + 1] b;
       if \<not> ok then do { b' \<leftarrow> lf_put32 b 0 LFS_MAGIC_BAAD; Some (- EINVAL, b') }
       else do { b' \<leftarrow> restore_sectors 512 usa_ofs [1..<usa_count + 1] b; Some (0, b') } } }"

definition pre_write_mst_fixup :: "buf \<Rightarrow> nat \<Rightarrow> (int \<times> buf) option" where
  "pre_write_mst_fixup b sz = do {
     magic \<leftarrow> lf_get32 b 0;
     if magic = LFS_MAGIC_BAAD \<or> magic = LFS_MAGIC_HOLE then Some (- EINVAL, b)
     else do {
       usa_ofs \<leftarrow> lf_get16 b 4;
       c \<leftarrow> lf_get16 b 6;
       let usa_count = mst_fixups c;
       if mst_skip usa_ofs usa_count sz then Some (- EINVAL, b)
       else do {
         v \<leftarrow> lf_get16 b usa_ofs;
         b1 \<leftarrow> lf_put16 b usa_ofs (next_usn v);
         b2 \<leftarrow> save_sectors 512 usa_ofs (next_usn v) [1..<usa_count + 1] b1;
         Some (0, b2) } } }"

definition post_write_mst_fixup :: "buf \<Rightarrow> buf option" where
  "post_write_mst_fixup b = do {
     usa_ofs \<leftarrow> lf_get16 b 4;
     c \<leftarrow> lf_get16 b 6;
     restore_sectors 512 (usa_ofs div 2 * 2) [1..<mst_fixups c + 1] b }"

section \<open>The contract\<close>

definition ntfs_record_wf :: "buf \<Rightarrow> bool" where
  "ntfs_record_wf b \<longleftrightarrow> mst_wf 512 b \<and> length b < 33554432 \<and>
     (\<exists>m. lf_get32 b 0 = Some m \<and> m \<noteq> LFS_MAGIC_BAAD \<and> m \<noteq> LFS_MAGIC_HOLE)"

lemma mst_fixups_fits:
  assumes "usa_fits 512 usa n len" "even usa" "len < 33554432"
  shows "mst_fixups n = n - 1" "[1..<mst_fixups n + 1] = [1..<n]" "\<not> mst_skip usa (n - 1) len"
proof -
  from assms have n: "2 \<le> n" "(n - 1) * 512 = len" "usa + 2 * n + 2 \<le> 512" by (auto simp: usa_fits_def)
  then have "n < 65536" by linarith
  have e: "n + 65535 = (n - 1) + 65536" using n by linarith
  show f: "mst_fixups n = n - 1"
    using \<open>n < 65536\<close> unfolding mst_fixups_def u16_def e by simp
  then show "[1..<mst_fixups n + 1] = [1..<n]" using n by simp
  have "1 * 512 \<le> (n - 1) * 512" using n(1) by (intro mult_le_mono1) linarith
  then show "\<not> mst_skip usa (n - 1) len" using n assms(2) by (auto simp: mst_skip_def)
qed

lemma mst_parts:
  assumes "ntfs_record_wf b"
  shows "\<exists>usa n v b1 b2. lf_get16 b 4 = Some usa \<and> lf_get16 b 6 = Some n \<and> even usa \<and>
    usa_fits 512 usa n (length b) \<and> lf_get16 b usa = Some v \<and> lf_put16 b usa (next_usn v) = Some b1 \<and>
    save_sectors 512 usa (next_usn v) [1..<n] b1 = Some b2 \<and>
    pre_write_mst_fixup b (length b) = Some (0, b2)"
proof -
  from assms have wf: "mst_wf 512 b" and len: "length b < 33554432"
    and m: "\<exists>m. lf_get32 b 0 = Some m \<and> m \<noteq> LFS_MAGIC_BAAD \<and> m \<noteq> LFS_MAGIC_HOLE"
    by (auto simp: ntfs_record_wf_def)
  from lfs_pre_write_parts [OF wf refl] obtain usa n v b1 b2 where
    p: "lf_get16 b 4 = Some usa" "lf_get16 b 6 = Some n" "even usa" "usa_fits 512 usa n (length b)"
    "lf_get16 b usa = Some v" "lf_put16 b usa (next_usn v) = Some b1"
    "save_sectors 512 usa (next_usn v) [1..<n] b1 = Some b2" by blast
  have "pre_write_mst_fixup b (length b) = Some (0, b2)"
    using m p mst_fixups_fits [OF p(4,3) len] by (auto simp: pre_write_mst_fixup_def)
  with p show ?thesis by blast
qed

lemma mst_write_read:
  assumes "ntfs_record_wf b" "pre_write_mst_fixup b (length b) = Some (0, w)"
  shows "\<exists>b'. post_read_mst_fixup w (length w) = Some (0, b') \<and> post_write_mst_fixup w = Some b' \<and>
    ntfs_record_wf b' \<and> mst_payload b' = mst_payload b"
proof -
  from mst_parts [OF assms(1)] assms(2) obtain usa n v b1 where
    p: "lf_get16 b 4 = Some usa" "lf_get16 b 6 = Some n" "even usa" "usa_fits 512 usa n (length b)"
    and b1: "lf_put16 b usa (next_usn v) = Some b1"
    and w: "save_sectors 512 usa (next_usn v) [1..<n] b1 = Some w" by auto
  have len: "length b < 33554432" using assms(1) by (simp add: ntfs_record_wf_def)
  have "next_usn v < 65536" using next_usn_bounds [of v] by simp
  note pc = protect_core [OF p(4) this b1 w]
  from pc(6) obtain b' where b': "restore_sectors 512 usa [1..<n] w = Some b'" "length b' = length b"
    "\<forall>k<length b. \<not> (usa \<le> k \<and> k < usa + 2 * n) \<longrightarrow> b' ! k = b ! k" by auto
  note fx = mst_fixups_fits [OF p(4,3) len]
  have ub: "8 \<le> usa" "usa + 2 * n \<le> length b" using usa_fits_bounds [OF p(4)] by simp_all
  note pl = payload_eqI [OF p(1,2) ub b'(2,3)]
  have "lf_get32 b' 0 = lf_get32 b 0"
  proof -
    have "take 4 (drop 0 b') = take 4 (drop 0 b)"
      using b'(2,3) ub by (intro nth_equalityI) auto
    with b'(2) show ?thesis by (simp add: lf_defs get_le_def slice_def)
  qed
  with assms(1) p(3,4) pl b'(2) have "ntfs_record_wf b'"
    by (auto simp: ntfs_record_wf_def mst_wf_def)
  moreover have "tails_match 512 (next_usn v) [1..<n] w = Some True"
    by (rule tails_match_True [OF pc(5)])
  then have "post_read_mst_fixup w (length w) = Some (0, b')"
    using pc p fx b'(1) by (simp add: post_read_mst_fixup_def)
  moreover have "post_write_mst_fixup w = Some b'"
    by (simp only: post_write_mst_fixup_def pc(2,3) p(1,2) fx(2) b'(1) Option.bind.simps
        dvd_div_mult_self [OF p(3)])
  ultimately show ?thesis using pl(3) by blast
qed

interpretation ntfs_mst: mst_protected
  "\<lambda>b. pre_write_mst_fixup b (length b)"
  "\<lambda>b. map_option (\<lambda>(e, b'). (e, b', e \<noteq> 0)) (post_read_mst_fixup b (length b))"
  ntfs_record_wf mst_payload
proof unfold_locales
  fix r assume "ntfs_record_wf r"
  from mst_parts [OF this] show "\<exists>r'. pre_write_mst_fixup r (length r) = Some (0, r')" by blast
next
  fix r r' assume "ntfs_record_wf r" "pre_write_mst_fixup r (length r) = Some (0, r')"
  from mst_write_read [OF this]
  show "\<exists>r''. map_option (\<lambda>(e, b'). (e, b', e \<noteq> 0)) (post_read_mst_fixup r' (length r')) =
      Some (0, r'', False) \<and> ntfs_record_wf r'' \<and> mst_payload r'' = mst_payload r" by auto
qed

text \<open>
  C23.  The driver's fixups: on a record whose usa fits the first sector,
  \<open>pre_write_mst_fixup\<close> succeeds, and both \<open>post_read_mst_fixup\<close> (checked) and
  \<open>post_write_mst_fixup\<close> (unchecked) of what it produced give the same record, equal to the
  original outside the usa.
\<close>

theorem mst_roundtrip:
  assumes "ntfs_record_wf b"
  shows "\<exists>w b'. pre_write_mst_fixup b (length b) = Some (0, w) \<and>
    post_read_mst_fixup w (length w) = Some (0, b') \<and> post_write_mst_fixup w = Some b' \<and>
    mst_payload b' = mst_payload b"
  using ntfs_mst.protect_ok [OF assms] mst_write_read [OF assms] by blast

definition ex_file :: buf where
  "ex_file = [70,73,76,69, 48,0, 2,0] @ replicate 40 0 @ [5,0,0,0] @ replicate 458 9 @ [3,4]"

lemma ex_file_wf: "ntfs_record_wf ex_file"
  by (simp add: ntfs_record_wf_def mst_wf_def ex_file_def lf_defs get_le_def slice_def usa_fits_def
      take_Cons' drop_Cons')

theorem mst_roundtrip_witness:
  "ntfs_record_wf ex_file \<and> (\<exists>w b'. pre_write_mst_fixup ex_file (length ex_file) = Some (0, w) \<and>
    post_read_mst_fixup w (length w) = Some (0, b') \<and> post_write_mst_fixup w = Some b' \<and>
    mst_payload b' = mst_payload ex_file)"
  using mst_roundtrip [OF ex_file_wf] ex_file_wf by simp

lemma save_sectors_bound:
  "save_sectors sector usa usn is r = Some r' \<Longrightarrow> k \<in> set is \<Longrightarrow> usa + k * 2 + 2 \<le> length r"
proof (induction "is" arbitrary: r)
  case (Cons i "is")
  then obtain v r1 r2 where s: "lf_put16 r (usa + i * 2) v = Some r1" "lf_put16 r1 (tail_off sector i) usn = Some r2"
    "save_sectors sector usa usn is r2 = Some r'" by (auto simp: bind_eq_Some_conv)
  have "length r2 = length r" using s(1,2) length_put_le by (metis lf_put16_def)
  with Cons.IH [OF s(3)] Cons.prems(2) put_le_bound [of 2 r "usa + i * 2" v r1] s(1) show ?case by (auto simp: lf_defs)
qed simp

lemma restore_sectors_bound:
  "restore_sectors sector usa is r = Some r' \<Longrightarrow> k \<in> set is \<Longrightarrow> usa + k * 2 + 2 \<le> length r"
proof (induction "is" arbitrary: r)
  case (Cons i "is")
  then obtain v r1 where s: "lf_get16 r (usa + i * 2) = Some v" "lf_put16 r (tail_off sector i) v = Some r1"
    "restore_sectors sector usa is r1 = Some r'" by (auto simp: bind_eq_Some_conv)
  have "length r1 = length r" using s(2) length_put_le by (metis lf_put16_def)
  with Cons.IH [OF s(3)] Cons.prems(2) get_le_bound [of 2 r "usa + i * 2" v] s(1) show ?case by (auto simp: lf_defs)
qed simp

text \<open>
  C24.  The size check of mst.c counts the fixups but not the update sequence number in front
  of them, so a usa that ends one word past the record passes it.  For every record with such a
  usa, \<open>pre_write_mst_fixup\<close> writes outside the record, and \<open>post_read_mst_fixup\<close> reads outside it
  unless a sector is torn.
\<close>

theorem mst_bounds_check_short:
  assumes "lf_get16 b 4 = Some usa" "even usa" "length b mod 512 = 0" "lf_get16 b 6 = Some (length b div 512 + 1)"
    "usa + 2 * (length b div 512) = length b" "lf_get32 b 0 = Some magic" "magic \<noteq> LFS_MAGIC_BAAD" "magic \<noteq> LFS_MAGIC_HOLE"
  shows "pre_write_mst_fixup b (length b) = None \<and>
    (\<forall>usn. lf_get16 b usa = Some usn \<longrightarrow> tails_match 512 usn [1..<length b div 512 + 1] b = Some True \<longrightarrow>
       post_read_mst_fixup b (length b) = None)"
proof -
  let ?n = "length b div 512"
  have "?n + 1 < 65536" using assms(4) get_le_less [of 2 b 6] by (simp add: lf_defs)
  then have f: "mst_fixups (?n + 1) = ?n" by (simp add: mst_fixups_def u16_def)
  have "6 \<le> length b" using assms(1) get_le_bound [of 2 b 4] by (simp add: lf_defs)
  then have n: "?n \<in> set [1..<?n + 1]" using assms(3) by (cases "?n = 0") auto
  have sk: "\<not> mst_skip usa ?n (length b)" using assms(2,3,5) by (simp add: mst_skip_def mult.commute)
  have past: "length b < usa + ?n * 2 + 2" using assms(5) by (simp add: mult.commute)
  have "pre_write_mst_fixup b (length b) \<noteq> Some x" for x
  proof
    assume "pre_write_mst_fixup b (length b) = Some x"
    then obtain v b1 b2 where "lf_put16 b usa (next_usn v) = Some b1" "save_sectors 512 usa (next_usn v) [1..<?n + 1] b1 = Some b2"
      using assms(1,4,6-8) f sk by (auto simp: pre_write_mst_fixup_def bind_eq_Some_conv Let_def simp del: upt_Suc)
    with save_sectors_bound [OF _ n] past length_put_le show False by (metis lf_put16_def not_less)
  qed
  then have "pre_write_mst_fixup b (length b) = None" by (cases "pre_write_mst_fixup b (length b)") auto
  moreover have "restore_sectors 512 usa [1..<?n + 1] b = None"
    using restore_sectors_bound [OF _ n, of 512 usa b] past by (cases "restore_sectors 512 usa [1..<?n + 1] b") (auto simp del: upt_Suc)
  then have "post_read_mst_fixup b (length b) = None"
    if "lf_get16 b usa = Some usn" "tails_match 512 usn [1..<?n + 1] b = Some True" for usn
    using assms f sk that unfolding post_read_mst_fixup_def by (simp add: Let_def del: upt_Suc)
  ultimately show ?thesis by blast
qed

definition ex_short_check :: buf where
  "ex_short_check = [70,73,76,69, 254,1, 2,0] @ replicate 504 0"

theorem mst_bounds_check_short_witness:
  "length ex_short_check = 512 \<and> pre_write_mst_fixup ex_short_check 512 = None \<and> post_read_mst_fixup ex_short_check 512 = None"
proof -
  have l: "length ex_short_check = 512" by (simp add: ex_short_check_def)
  have g: "lf_get16 ex_short_check 4 = Some 510" "lf_get16 ex_short_check 6 = Some 2" "lf_get32 ex_short_check 0 = Some 0x454c4946"
    by (simp_all add: ex_short_check_def lf_defs get_le_def slice_def)
  have z: "lf_get16 ex_short_check 510 = Some 0" by (simp add: ex_short_check_def lf_defs get_le_def slice_def numeral_2_eq_2)
  have "tails_match 512 0 [1..<2] ex_short_check = Some True" using z by (simp add: upt_rec tail_off_def u32_def)
  with mst_bounds_check_short [of ex_short_check 510 "0x454c4946"] l g z show ?thesis by (simp add: tail_off_def u32_def)
qed

end
