(* ===== verification/Index_Block.thy ===== *)
theory Index_Block
  imports Names Runlist Mst
begin

text \<open>
  Index blocks (core/ntfs/index.c): the entries behind a \<open>struct index_header\<close>, in an index root or
  in a block of the index allocation.  An index header is the memory from it on, as far as the
  object it lies in reaches; an index entry in it is its offset from the header; an entry outside a
  block is its bytes.  Every access goes through the accessors of \<open>Prelude\<close>, so \<open>None\<close> is an access
  outside the object.  Allocation does not fail.

  The theorems relate the byte operations to the list of entries a block holds: lookup finds the
  key exactly if the block has it, insertion and deletion are insertion into and deletion from the
  list, and a split keeps every entry.
\<close>

section \<open>Entries\<close>

definition ie_length :: "buf \<Rightarrow> nat \<Rightarrow> nat option" where
  "ie_length ih p = get_le 2 ih (p + IE_LENGTH)"

definition ie_flags :: "buf \<Rightarrow> nat \<Rightarrow> nat option" where
  "ie_flags ih p = get_le 2 ih (p + IE_FLAGS)"

definition ntfs_ie_get_vcn_addr :: "buf \<Rightarrow> nat \<Rightarrow> nat option" where
  "ntfs_ie_get_vcn_addr ih p = do { l \<leftarrow> ie_length ih p; if p + l < 8 then None else Some (p + l - 8) }"

definition ntfs_ie_get_vcn :: "buf \<Rightarrow> nat \<Rightarrow> int option" where
  "ntfs_ie_get_vcn ih p = do { a \<leftarrow> ntfs_ie_get_vcn_addr ih p; v \<leftarrow> get_le 8 ih a; Some (s64 (int v)) }"

definition ntfs_ie_get_first :: "buf \<Rightarrow> nat option" where
  "ntfs_ie_get_first ih = get_le 4 ih IH_ENTRIES_OFFSET"

definition ntfs_ie_get_next :: "buf \<Rightarrow> nat \<Rightarrow> nat option" where
  "ntfs_ie_get_next ih p = do { l \<leftarrow> ie_length ih p; Some (p + l) }"

definition ntfs_ie_get_end :: "buf \<Rightarrow> nat option" where
  "ntfs_ie_get_end ih = get_le 4 ih IH_INDEX_LENGTH"

definition ntfs_ie_end :: "buf \<Rightarrow> nat \<Rightarrow> bool option" where
  "ntfs_ie_end ih p = do {
     f \<leftarrow> ie_flags ih p;
     if f AND INDEX_ENTRY_END \<noteq> 0 then Some True else do { l \<leftarrow> ie_length ih p; Some (l = 0) } }"

lemma ie_end_next:
  assumes "ntfs_ie_end ih p = Some False" "ntfs_ie_get_next ih p = Some q"
  shows "p < q"
  using assms by (auto simp: ntfs_ie_end_def ntfs_ie_get_next_def bind_eq_Some_conv split: if_split_asm)

function ntfs_ie_get_last :: "buf \<Rightarrow> nat \<Rightarrow> nat \<Rightarrow> nat option" where
  "ntfs_ie_get_last ih p ies_end =
     (if p < ies_end then do {
        e \<leftarrow> ntfs_ie_end ih p;
        if e then Some p else do { q \<leftarrow> ntfs_ie_get_next ih p; ntfs_ie_get_last ih q ies_end } }
      else Some p)"
  by pat_completeness auto
termination
  by (relation "measure (\<lambda>(ih, p, e). e - p)") (auto dest: ie_end_next)

declare ntfs_ie_get_last.simps [simp del]

fun ie_forward :: "buf \<Rightarrow> nat \<Rightarrow> nat \<Rightarrow> nat option" where
  "ie_forward ih p 0 = Some p"
| "ie_forward ih p (Suc n) = do { q \<leftarrow> ntfs_ie_get_next ih p; ie_forward ih q n }"

definition ntfs_ie_get_by_pos :: "buf \<Rightarrow> int \<Rightarrow> nat option" where
  "ntfs_ie_get_by_pos ih pos = do { p \<leftarrow> ntfs_ie_get_first ih; ie_forward ih p (nat pos) }"

text \<open>The walk to an entry that is not in the block does not end.\<close>

partial_function (option) ie_prev_loop :: "buf \<Rightarrow> nat \<Rightarrow> nat option \<Rightarrow> nat \<Rightarrow> nat option option" where
  "ie_prev_loop ih ie ie_prev tmp =
     (if tmp = ie then Some ie_prev
      else do { q \<leftarrow> ntfs_ie_get_next ih tmp; ie_prev_loop ih ie (Some tmp) q })"

definition ntfs_ie_prev :: "buf \<Rightarrow> nat \<Rightarrow> nat option option" where
  "ntfs_ie_prev ih ie = do { p \<leftarrow> ntfs_ie_get_first ih; ie_prev_loop ih ie None p }"

function numof_loop :: "buf \<Rightarrow> nat \<Rightarrow> nat \<Rightarrow> nat \<Rightarrow> nat option" where
  "numof_loop ih ies_end p n = do {
     e \<leftarrow> ntfs_ie_end ih p;
     if \<not> e \<and> p < ies_end then do { q \<leftarrow> ntfs_ie_get_next ih p; numof_loop ih ies_end q (n + 1) } else Some n }"
  by pat_completeness auto
termination
  by (relation "measure (\<lambda>(ih, e, p, n). e - p)") (auto dest: ie_end_next)

declare numof_loop.simps [simp del]

definition ntfs_ih_numof_entries :: "buf \<Rightarrow> nat option" where
  "ntfs_ih_numof_entries ih = do {
     e \<leftarrow> ntfs_ie_get_end ih;
     p \<leftarrow> ntfs_ie_get_first ih;
     numof_loop ih e p 0 }"

definition ntfs_ih_one_entry :: "buf \<Rightarrow> bool option" where
  "ntfs_ih_one_entry ih = map_option (\<lambda>n. n = 1) (ntfs_ih_numof_entries ih)"

definition ntfs_ih_zero_entry :: "buf \<Rightarrow> bool option" where
  "ntfs_ih_zero_entry ih = map_option (\<lambda>n. n = 0) (ntfs_ih_numof_entries ih)"

text \<open>A count of bytes that is negative is a \<open>size_t\<close> no object has.\<close>

definition ntfs_ie_delete :: "buf \<Rightarrow> nat \<Rightarrow> buf option" where
  "ntfs_ie_delete ih p = do {
     il \<leftarrow> get_le 4 ih IH_INDEX_LENGTH;
     l \<leftarrow> ie_length ih p;
     let new_size = sub32 il l;
     ih \<leftarrow> put_le 4 ih IH_INDEX_LENGTH new_size;
     l \<leftarrow> ie_length ih p;
     if new_size < p then None else memmove ih p (p + l) (new_size - p) }"

definition ntfs_ie_set_vcn :: "buf \<Rightarrow> nat \<Rightarrow> int \<Rightarrow> buf option" where
  "ntfs_ie_set_vcn ih p vcn = do { a \<leftarrow> ntfs_ie_get_vcn_addr ih p; put_le 8 ih a (nat (vcn mod 18446744073709551616)) }"

definition ntfs_ie_insert :: "buf \<Rightarrow> buf \<Rightarrow> nat \<Rightarrow> buf option" where
  "ntfs_ie_insert ih ie p = do {
     ie_size \<leftarrow> ie_length ie 0;
     il \<leftarrow> get_le 4 ih IH_INDEX_LENGTH;
     ih \<leftarrow> put_le 4 ih IH_INDEX_LENGTH (u32 (il + ie_size));
     il \<leftarrow> get_le 4 ih IH_INDEX_LENGTH;
     if il < p + ie_size then None
     else do {
       ih \<leftarrow> memmove ih (p + ie_size) p (il - p - ie_size);
       bytes \<leftarrow> slice ie 0 ie_size;
       blit ih p bytes } }"

definition ntfs_ie_dup :: "buf \<Rightarrow> nat \<Rightarrow> buf option" where
  "ntfs_ie_dup ih p = do { l \<leftarrow> ie_length ih p; slice ih p l }"

text \<open>The inner \<open>None\<close> is the null pointer: a negative size cannot be allocated.\<close>

definition ntfs_ie_dup_novcn :: "buf \<Rightarrow> nat \<Rightarrow> buf option option" where
  "ntfs_ie_dup_novcn ih p = do {
     l \<leftarrow> ie_length ih p;
     f \<leftarrow> ie_flags ih p;
     if f AND INDEX_ENTRY_NODE \<noteq> 0 \<and> l < 8 then Some None
     else do {
       let size = (if f AND INDEX_ENTRY_NODE \<noteq> 0 then l - 8 else l);
       dup \<leftarrow> slice ih p size;
       df \<leftarrow> ie_flags dup 0;
       dup \<leftarrow> put_le 2 dup IE_FLAGS (df AND 65534);
       dup \<leftarrow> put_le 2 dup IE_LENGTH size;
       Some (Some dup) } }"

text \<open>\<open>fresh\<close> is what the memory \<open>krealloc\<close> adds holds.\<close>

definition ntfs_ie_add_vcn :: "buf \<Rightarrow> buf \<Rightarrow> buf option" where
  "ntfs_ie_add_vcn fresh ie = do {
     l \<leftarrow> ie_length ie 0;
     ie \<leftarrow> put_le 2 ie IE_LENGTH (u16 (l + 8));
     let p = take (u16 (l + 8)) (ie @ fresh);
     f \<leftarrow> ie_flags p 0;
     put_le 2 p IE_FLAGS (f OR INDEX_ENTRY_NODE) }"

definition ntfs_ih_insert :: "buf \<Rightarrow> buf \<Rightarrow> buf \<Rightarrow> int \<Rightarrow> int \<Rightarrow> buf option" where
  "ntfs_ih_insert fresh ih orig_ie new_vcn pos = do {
     ie \<leftarrow> ntfs_ie_dup orig_ie 0;
     f \<leftarrow> ie_flags ie 0;
     ie \<leftarrow> (if f AND INDEX_ENTRY_NODE = 0 then ntfs_ie_add_vcn fresh ie else Some ie);
     ie_node \<leftarrow> ntfs_ie_get_by_pos ih pos;
     old_vcn \<leftarrow> ntfs_ie_get_vcn ih ie_node;
     ih \<leftarrow> ntfs_ie_set_vcn ih ie_node new_vcn;
     ih \<leftarrow> ntfs_ie_insert ih ie ie_node;
     ntfs_ie_set_vcn ih ie_node old_vcn }"

section \<open>Lookup in a block\<close>

abbreviation (input) EAGAIN :: int where "EAGAIN \<equiv> 35"

text \<open>How the loop over the entries is left: an error, the entry with the key, or a \<open>break\<close>.\<close>

datatype ie_exit = Ie_error int | Ie_match nat nat | Ie_break nat nat

function ie_lookup_loop :: "(buf \<Rightarrow> nat \<Rightarrow> int option) \<Rightarrow> buf \<Rightarrow> nat \<Rightarrow> nat \<Rightarrow> nat \<Rightarrow> ie_exit option" where
  "ie_lookup_loop collate ih index_end p item = do {
     out \<leftarrow> (if p + 16 > index_end then Some True else do { l \<leftarrow> ie_length ih p; Some (p + l > index_end) });
     if out then Some (Ie_error (- ERANGE))
     else do {
       e \<leftarrow> ntfs_ie_end ih p;
       if e then Some (Ie_break p item)
       else do {
         kl \<leftarrow> get_le 2 ih (p + IE_KEY_LENGTH);
         rc \<leftarrow> collate (drop (p + IE_KEY) ih) kl;
         if rc = - EINVAL then Some (Ie_error (- ERANGE))
         else if rc = - 1 then Some (Ie_break p item)
         else if rc = 0 then Some (Ie_match p item)
         else do { q \<leftarrow> ntfs_ie_get_next ih p; ie_lookup_loop collate ih index_end q (item + 1) } } } }"
  by pat_completeness auto
termination
proof (relation "measure (\<lambda>(c, ih, e, p, i). e - p)", goal_cases)
  case (2 collate ih index_end p item out e kl rc q)
  from 2(1,2) have "p < index_end" by (auto split: if_split_asm)
  moreover from 2 have "p < q" by (auto dest: ie_end_next)
  ultimately show ?case by simp
qed simp

declare ie_lookup_loop.simps [simp del]

text \<open>
  The result, and of the locations \<open>*vcn\<close>, \<open>*ie_out\<close> and \<open>icx->parent_pos[icx->pindex]\<close> those that are
  written.
\<close>

record ie_lookup_out =
  lo_err :: int
  lo_vcn :: "int option"
  lo_ie :: "nat option"
  lo_pos :: "nat option"

definition ntfs_ie_lookup :: "(buf \<Rightarrow> nat \<Rightarrow> int option) \<Rightarrow> buf \<Rightarrow> ie_lookup_out option" where
  "ntfs_ie_lookup collate ih = do {
     index_end \<leftarrow> ntfs_ie_get_end ih;
     p \<leftarrow> ntfs_ie_get_first ih;
     r \<leftarrow> ie_lookup_loop collate ih index_end p 0;
     case r of
       Ie_error e \<Rightarrow> Some \<lparr>lo_err = e, lo_vcn = None, lo_ie = None, lo_pos = None\<rparr>
     | Ie_match ie item \<Rightarrow> Some \<lparr>lo_err = 0, lo_vcn = None, lo_ie = Some ie, lo_pos = Some item\<rparr>
     | Ie_break ie item \<Rightarrow> do {
         f \<leftarrow> ie_flags ih ie;
         if f AND INDEX_ENTRY_NODE = 0 then Some \<lparr>lo_err = - ENOENT, lo_vcn = None, lo_ie = Some ie, lo_pos = None\<rparr>
         else do {
           vcn \<leftarrow> ntfs_ie_get_vcn ih ie;
           if vcn < 0 then Some \<lparr>lo_err = - EINVAL, lo_vcn = Some vcn, lo_ie = None, lo_pos = None\<rparr>
           else Some \<lparr>lo_err = - EAGAIN, lo_vcn = Some vcn, lo_ie = None, lo_pos = Some item\<rparr> } } }"

section \<open>Blocks\<close>

text \<open>The index header of an index block begins at byte 24.\<close>

abbreviation (input) LEAF_NODE :: nat where "LEAF_NODE \<equiv> 0"
abbreviation (input) NODE_MASK :: nat where "NODE_MASK \<equiv> 1"

definition ib_index :: "buf \<Rightarrow> buf" where
  "ib_index ib = drop IB_INDEX_HEADER ib"

definition ntfs_index_block_inconsistent :: "nat \<Rightarrow> buf \<Rightarrow> int \<Rightarrow> int option" where
  "ntfs_index_block_inconsistent block_size ib vcn = do {
     alloc \<leftarrow> get_le 4 ib (IB_INDEX_HEADER + IH_ALLOCATED_SIZE);
     let ib_size = u32 (alloc + IB_INDEX_HEADER);
     magic \<leftarrow> get_le 4 ib 0;
     bvcn \<leftarrow> get_le 8 ib IB_INDEX_BLOCK_VCN;
     eo \<leftarrow> get_le 4 ib (IB_INDEX_HEADER + IH_ENTRIES_OFFSET);
     il \<leftarrow> get_le 4 ib (IB_INDEX_HEADER + IH_INDEX_LENGTH);
     Some (if magic \<noteq> LFS_MAGIC_INDX then - 1
           else if s64 (int bvcn) \<noteq> vcn then - 1
           else if ib_size \<noteq> block_size then - 1
           else if eo < IH_SIZE then - 1
           else if il \<le> eo then - 1
           else if alloc < il then - 1
           else 0) }"

text \<open>\<open>bounds\<close> is the block size of the context, if there is one.\<close>

definition ntfs_index_entry_inconsistent :: "nat option \<Rightarrow> buf \<Rightarrow> nat \<Rightarrow> nat \<Rightarrow> int option" where
  "ntfs_index_entry_inconsistent bounds ih ie collation_rule = do {
     err \<leftarrow> (case bounds of
        None \<Rightarrow> Some 0
      | Some block_size \<Rightarrow> do {
          il \<leftarrow> get_le 4 ih IH_INDEX_LENGTH;
          alloc \<leftarrow> get_le 4 ih IH_ALLOCATED_SIZE;
          if il > alloc \<or> il > block_size then Some (- EINVAL)
          else do {
            eo \<leftarrow> get_le 4 ih IH_ENTRIES_OFFSET;
            if eo > ie then Some (- EIO)
            else do {
              l \<leftarrow> ie_length ih ie;
              Some (if il \<le> ie + l \<or> l > alloc \<or> l > block_size then - EIO else 0) } } });
     if err \<noteq> 0 then Some err
     else do {
       kl \<leftarrow> get_le 2 ih (ie + IE_KEY_LENGTH);
       l \<leftarrow> ie_length ih ie;
       if kl \<noteq> 0 \<and> kl + IE_KEY > l then Some (- EIO)
       else if collation_rule = COLLATION_FILE_NAME then do {
         n \<leftarrow> get8 ih (ie + IE_KEY + FN_NAME_LENGTH);
         Some (if IE_KEY + FN_NAME + n * 2 > l then - EIO else 0) }
       else do {
         dl \<leftarrow> get_le 2 ih (ie + IE_DATA_LENGTH);
         if dl = 0 then Some 0
         else do {
           doff \<leftarrow> get_le 2 ih (ie + IE_DATA_OFFSET);
           Some (if doff + dl > l then - EIO else 0) } } } }"

definition ntfs_ib_alloc :: "int \<Rightarrow> nat \<Rightarrow> nat \<Rightarrow> buf option" where
  "ntfs_ib_alloc ib_vcn ib_size node_type = do {
     let ib = replicate ib_size 0;
     let usa_count = u16 (ib_size div 512 + 1);
     ib \<leftarrow> put_le 4 ib 0 LFS_MAGIC_INDX;
     ib \<leftarrow> put_le 2 ib 4 40;
     ib \<leftarrow> put_le 2 ib 6 usa_count;
     ib \<leftarrow> put_le 2 ib 40 1;
     ib \<leftarrow> put_le 8 ib 8 0;
     ib \<leftarrow> put_le 8 ib IB_INDEX_BLOCK_VCN (nat (ib_vcn mod 18446744073709551616));
     ib \<leftarrow> put_le 4 ib (IB_INDEX_HEADER + IH_ENTRIES_OFFSET) (and_not32 (IH_SIZE + usa_count * 2 + 7) 7);
     ib \<leftarrow> put_le 4 ib (IB_INDEX_HEADER + IH_INDEX_LENGTH) 0;
     ib \<leftarrow> put_le 4 ib (IB_INDEX_HEADER + IH_ALLOCATED_SIZE) (sub32 ib_size 24);
     put8 ib (IB_INDEX_HEADER + IH_FLAGS) node_type }"

text \<open>The first loop of the median search; the second takes \<open>i / 2 - 1 + 1\<close> steps.\<close>

function median_count :: "buf \<Rightarrow> nat \<Rightarrow> nat \<Rightarrow> nat \<Rightarrow> nat option" where
  "median_count ih p ie_end i =
     (if p < ie_end then do {
        e \<leftarrow> ntfs_ie_end ih p;
        if e then Some i else do { q \<leftarrow> ntfs_ie_get_next ih p; median_count ih q ie_end (i + 1) } }
      else Some i)"
  by pat_completeness auto
termination
  by (relation "measure (\<lambda>(ih, p, e, i). e - p)") (auto dest: ie_end_next)

declare median_count.simps [simp del]

definition ntfs_ie_get_median :: "buf \<Rightarrow> nat option" where
  "ntfs_ie_get_median ih = do {
     p \<leftarrow> ntfs_ie_get_first ih;
     e \<leftarrow> ntfs_ie_get_end ih;
     i \<leftarrow> median_count ih p e 0;
     ie_forward ih p (i div 2) }"


text \<open>\<open>memcpy\<close> within one object: the regions must not overlap.\<close>

definition memcpy_within :: "buf \<Rightarrow> nat \<Rightarrow> nat \<Rightarrow> nat \<Rightarrow> buf option" where
  "memcpy_within b dst src n = (if dst + n \<le> src \<or> src + n \<le> dst then memmove b dst src n else None)"

text \<open>The copy of what follows the median, as it is written, and the block that is left.\<close>

definition copy_tail_block :: "nat \<Rightarrow> buf \<Rightarrow> nat \<Rightarrow> int \<Rightarrow> buf option" where
  "copy_tail_block block_size src median new_vcn = do {
     fl \<leftarrow> get8 (ib_index src) IH_FLAGS;
     dst \<leftarrow> ntfs_ib_alloc new_vcn block_size (fl AND NODE_MASK);
     ie_head \<leftarrow> ntfs_ie_get_next (ib_index src) median;
     ies_end \<leftarrow> ntfs_ie_get_end (ib_index src);
     if ies_end < ie_head then None
     else do {
       let tail_size = ies_end - ie_head;
       tail \<leftarrow> slice (ib_index src) ie_head tail_size;
       first \<leftarrow> ntfs_ie_get_first (ib_index dst);
       dst \<leftarrow> blit dst (IB_INDEX_HEADER + first) tail;
       eo \<leftarrow> ntfs_ie_get_first (ib_index dst);
       put_le 4 dst (IB_INDEX_HEADER + IH_INDEX_LENGTH) (u32 (tail_size + eo)) } }"

definition cut_tail_block :: "buf \<Rightarrow> nat \<Rightarrow> buf option" where
  "cut_tail_block ib ie = do {
     let pre = take IB_INDEX_HEADER ib;
     let ih = ib_index ib;
     ies_start \<leftarrow> ntfs_ie_get_first ih;
     ies_end \<leftarrow> ntfs_ie_get_end ih;
     ie_last \<leftarrow> ntfs_ie_get_last ih ies_start ies_end;
     f \<leftarrow> ie_flags ih ie_last;
     ih \<leftarrow> (if f AND INDEX_ENTRY_NODE \<noteq> 0
            then do { v \<leftarrow> ntfs_ie_get_vcn ih ie; ntfs_ie_set_vcn ih ie_last v } else Some ih);
     l \<leftarrow> ie_length ih ie_last;
     ih \<leftarrow> memcpy_within ih ie ie_last l;
     l \<leftarrow> ie_length ih ie;
     eo \<leftarrow> ntfs_ie_get_first ih;
     ih \<leftarrow> put_le 4 ih IH_INDEX_LENGTH (u32 (ie - ies_start + l + eo));
     Some (pre @ ih) }"

text \<open>The entries of the root moved to a block, and the root left with its last entry.\<close>

definition ntfs_ir_to_ib :: "buf \<Rightarrow> int \<Rightarrow> buf option" where
  "ntfs_ir_to_ib ir ib_vcn = do {
     bs \<leftarrow> get_le 4 ir IR_INDEX_BLOCK_SIZE;
     ib \<leftarrow> ntfs_ib_alloc ib_vcn bs LEAF_NODE;
     let ih = drop IR_INDEX_HEADER ir;
     ies_start \<leftarrow> ntfs_ie_get_first ih;
     ies_end \<leftarrow> ntfs_ie_get_end ih;
     ie_last \<leftarrow> ntfs_ie_get_last ih ies_start ies_end;
     l \<leftarrow> ie_length ih ie_last;
     let i = ie_last - ies_start + l;
     bytes \<leftarrow> slice ih ies_start i;
     first \<leftarrow> ntfs_ie_get_first (ib_index ib);
     ib \<leftarrow> blit ib (IB_INDEX_HEADER + first) bytes;
     fl \<leftarrow> get8 ih IH_FLAGS;
     ib \<leftarrow> put8 ib (IB_INDEX_HEADER + IH_FLAGS) fl;
     eo \<leftarrow> ntfs_ie_get_first (ib_index ib);
     put_le 4 ib (IB_INDEX_HEADER + IH_INDEX_LENGTH) (u32 (i + eo)) }"

definition ntfs_ir_nill :: "buf \<Rightarrow> buf option" where
  "ntfs_ir_nill ih = do {
     ies_start \<leftarrow> ntfs_ie_get_first ih;
     ies_end \<leftarrow> ntfs_ie_get_end ih;
     ie_last \<leftarrow> ntfs_ie_get_last ih ies_start ies_end;
     if ie_last > ies_start then do {
       first \<leftarrow> ntfs_ie_get_first ih;
       l \<leftarrow> ie_length ih ie_last;
       memmove ih first ie_last l }
     else Some ih }"

section \<open>The entries a block holds\<close>

text \<open>
  An entry as its bytes: the length it states is the length it has, and an entry that points to a
  child has room for the pointer.
\<close>

definition entry_flags :: "buf \<Rightarrow> nat" where
  "entry_flags e = le_of (take 2 (drop IE_FLAGS e))"

definition entry_end :: "buf \<Rightarrow> bool" where
  "entry_end e \<longleftrightarrow> entry_flags e AND INDEX_ENTRY_END \<noteq> 0"

definition entry_node :: "buf \<Rightarrow> bool" where
  "entry_node e \<longleftrightarrow> entry_flags e AND INDEX_ENTRY_NODE \<noteq> 0"

definition entry_ok :: "buf \<Rightarrow> bool" where
  "entry_ok e \<longleftrightarrow> 16 \<le> length e \<and> get_le 2 e IE_LENGTH = Some (length e) \<and> (entry_node e \<longrightarrow> 24 \<le> length e)"

definition entry_vcn :: "buf \<Rightarrow> int" where
  "entry_vcn e = s64 (int (le_of (drop (length e - 8) e)))"

definition entry_at :: "buf \<Rightarrow> nat \<Rightarrow> buf \<Rightarrow> bool" where
  "entry_at ih p e \<longleftrightarrow> entry_ok e \<and> slice ih p (length e) = Some e"

lemma entry_field: "entry_at ih p e \<Longrightarrow> n + k \<le> length e \<Longrightarrow> get_le k ih (p + n) = get_le k e n"
  unfolding entry_at_def get_le_def using slice_slice [of ih p "length e" e n k] by simp

lemma entry_at_simps:
  assumes "entry_at ih p e"
  shows "ie_length ih p = Some (length e)" "ie_flags ih p = Some (entry_flags e)"
    "ntfs_ie_get_next ih p = Some (p + length e)" "ntfs_ie_end ih p = Some (entry_end e)"
    "16 \<le> length e" "length e < 65536" "p + length e \<le> length ih" "e \<noteq> []"
proof -
  have ok: "16 \<le> length e" "get_le 2 e 8 = Some (length e)" using assms by (simp_all add: entry_at_def entry_ok_def)
  show l: "ie_length ih p = Some (length e)" using entry_field [OF assms, of 8 2] ok by (simp add: ie_length_def)
  show f: "ie_flags ih p = Some (entry_flags e)"
    using entry_field [OF assms, of 12 2] ok by (simp add: ie_flags_def entry_flags_def get_le_def slice_def)
  show "ntfs_ie_get_next ih p = Some (p + length e)" by (simp add: ntfs_ie_get_next_def l)
  show "e \<noteq> []" using ok(1) by auto
  then show "ntfs_ie_end ih p = Some (entry_end e)" by (simp add: ntfs_ie_end_def l f entry_end_def)
  show "16 \<le> length e" by (rule ok)
  show "length e < 65536" using get_le_less [OF ok(2)] by simp
  show "p + length e \<le> length ih" using assms by (simp add: entry_at_def slice_eq_Some)
qed

lemma entry_at_vcn_addr: "entry_at ih p e \<Longrightarrow> ntfs_ie_get_vcn_addr ih p = Some (p + (length e - 8))"
  using entry_at_simps(1,5) [of ih p e] by (simp add: ntfs_ie_get_vcn_addr_def)

lemma entry_at_vcn: "entry_at ih p e \<Longrightarrow> ntfs_ie_get_vcn ih p = Some (entry_vcn e)"
proof -
  assume e: "entry_at ih p e"
  have "get_le 8 ih (p + (length e - 8)) = get_le 8 e (length e - 8)"
    using entry_at_simps(5) [OF e] by (intro entry_field [OF e]) simp
  also have "\<dots> = Some (le_of (drop (length e - 8) e))"
    using entry_at_simps(5) [OF e] by (simp add: get_le_def slice_def)
  finally show ?thesis by (simp add: ntfs_ie_get_vcn_def entry_at_vcn_addr [OF e] entry_vcn_def)
qed

text \<open>A sequence of entries and the last entry behind it.\<close>

fun entries_at :: "buf \<Rightarrow> nat \<Rightarrow> buf list \<Rightarrow> buf \<Rightarrow> bool" where
  "entries_at ih p [] l \<longleftrightarrow> entry_at ih p l \<and> entry_end l"
| "entries_at ih p (e # es) l \<longleftrightarrow> entry_at ih p e \<and> \<not> entry_end e \<and> entries_at ih (p + length e) es l"

definition entries_ok :: "buf list \<Rightarrow> buf \<Rightarrow> bool" where
  "entries_ok es l \<longleftrightarrow> (\<forall>e\<in>set es. entry_ok e \<and> \<not> entry_end e) \<and> entry_ok l \<and> entry_end l"

definition ih_holds :: "buf \<Rightarrow> nat \<Rightarrow> buf list \<Rightarrow> buf \<Rightarrow> bool" where
  "ih_holds ih eo es l \<longleftrightarrow>
     IH_SIZE \<le> eo \<and> get_le 4 ih IH_ENTRIES_OFFSET = Some eo \<and>
     get_le 4 ih IH_INDEX_LENGTH = Some (eo + length (concat es @ l)) \<and>
     slice ih eo (length (concat es @ l)) = Some (concat es @ l) \<and> entries_ok es l"

lemma entries_at_slice:
  "entries_ok es l \<Longrightarrow> slice ih p (length (concat es @ l)) = Some (concat es @ l) \<Longrightarrow> entries_at ih p es l"
proof (induction es arbitrary: p)
  case Nil
  then show ?case by (simp add: entries_ok_def entry_at_def)
next
  case (Cons e es)
  have s: "slice ih p (length (e @ (concat es @ l))) = Some (e @ (concat es @ l))" using Cons.prems(2) by simp
  have "slice ih p (length e) = Some e"
    using slice_slice [OF s, of 0 "length e"] by (simp add: slice_def)
  moreover have "slice ih (p + length e) (length (concat es @ l)) = Some (concat es @ l)"
    using slice_slice [OF s, of "length e" "length (concat es @ l)"] by (simp add: slice_def)
  ultimately show ?case using Cons.IH [of "p + length e"] Cons.prems(1) by (simp add: entries_ok_def entry_at_def)
qed

lemma entries_at_append:
  "entries_at ih p (as @ bs) l \<Longrightarrow> entries_at ih (p + length (concat as)) bs l"
  by (induction as arbitrary: p) (auto simp: add.assoc [symmetric])

lemma ih_holds_entries: "ih_holds ih eo es l \<Longrightarrow> entries_at ih eo es l"
  by (simp add: ih_holds_def entries_at_slice)

lemma get_last_entries:
  "entries_at ih p es l \<Longrightarrow> ntfs_ie_get_last ih p (p + length (concat es @ l)) = Some (p + length (concat es))"
proof (induction es arbitrary: p)
  case Nil
  then show ?case using entry_at_simps(4,5) [of ih p l] by (auto simp: ntfs_ie_get_last.simps [of ih p])
next
  case (Cons e es)
  have e: "entry_at ih p e" "\<not> entry_end e" using Cons.prems by simp_all
  show ?case using Cons.IH [of "p + length e"] Cons.prems entry_at_simps(3-5,8) [OF e(1)] e(2)
    by (subst ntfs_ie_get_last.simps) (simp add: add.assoc)
qed

lemma numof_entries: "entries_at ih p es l \<Longrightarrow> numof_loop ih (p + length (concat es @ l)) p n = Some (n + length es)"
proof (induction es arbitrary: p n)
  case Nil
  then show ?case using entry_at_simps(4) [of ih p l] by (auto simp: numof_loop.simps [of ih _ p])
next
  case (Cons e es)
  have e: "entry_at ih p e" "\<not> entry_end e" using Cons.prems by simp_all
  show ?case using Cons.IH [of "p + length e"] Cons.prems entry_at_simps(3-5,8) [OF e(1)] e(2)
    by (subst numof_loop.simps) (simp add: add.assoc)
qed

lemma median_count_entries: "entries_at ih p es l \<Longrightarrow> median_count ih p (p + length (concat es @ l)) n = Some (n + length es)"
proof (induction es arbitrary: p n)
  case Nil
  then show ?case using entry_at_simps(4,5) [of ih p l] by (auto simp: median_count.simps [of ih p])
next
  case (Cons e es)
  have e: "entry_at ih p e" "\<not> entry_end e" using Cons.prems by simp_all
  show ?case using Cons.IH [of "p + length e"] Cons.prems entry_at_simps(3-5,8) [OF e(1)] e(2)
    by (subst median_count.simps) (simp add: add.assoc)
qed

lemma forward_entries: "entries_at ih p (as @ bs) l \<Longrightarrow> ie_forward ih p (length as) = Some (p + length (concat as))"
proof (induction as arbitrary: p)
  case (Cons e as)
  have e: "entry_at ih p e" using Cons.prems by simp
  show ?case using Cons.IH [of "p + length e"] Cons.prems entry_at_simps(3) [OF e] by (simp add: add.assoc)
qed simp

section \<open>Insertion and deletion\<close>

text \<open>Memory as a concatenation of parts.\<close>

lemma slice_parts: "slice (a @ x @ c) (length a) (length x) = Some x"
  by (simp add: slice_def)

lemma blit_parts: "length x' = length x \<Longrightarrow> blit (a @ x @ c) (length a) x' = Some (a @ x' @ c)"
  by (simp add: blit_def)

lemma get_le_prefix: "p + k \<le> length a \<Longrightarrow> get_le k (a @ b) p = get_le k a p"
  by (simp add: get_le_def slice_def)

lemma put_le_prefix: "put_le k a p v = Some a' \<Longrightarrow> put_le k (a @ b) p v = Some (a' @ b)"
  by (auto simp: put_le_def blit_def split: if_split_asm)

lemma memmove_up:
  assumes "n \<le> length s"
  shows "memmove (a @ t @ s) (length a + n) (length a) (length t) = Some (a @ take n (t @ s) @ t @ drop n s)"
proof -
  let ?m = "take n (t @ s)" and ?x = "take (length t) (drop n (t @ s))" and ?z = "drop (length t) (drop n (t @ s))"
  have ts: "t @ s = ?m @ ?x @ ?z" by (metis append_take_drop_id)
  have z: "?z = drop n s" using drop_drop [of "length t" n "t @ s"] drop_drop [of n "length t" "t @ s"] by (simp add: add.commute)
  have l: "length ?m = n" "length ?x = length t" using assms by simp_all
  have "blit ((a @ ?m) @ ?x @ ?z) (length (a @ ?m)) t = Some ((a @ ?m) @ t @ ?z)" by (rule blit_parts) (simp only: l(2))
  then have "blit (a @ (?m @ ?x @ ?z)) (length a + n) t = Some (a @ ?m @ t @ ?z)" by (simp only: append_assoc length_append l(1))
  then have "blit (a @ t @ s) (length a + n) t = Some (a @ ?m @ t @ drop n s)" unfolding ts [symmetric] unfolding z .
  then show ?thesis by (simp add: memmove_def slice_parts)
qed

lemma memmove_down: "\<exists>s'. memmove (a @ x @ t @ s) (length a) (length a + length x) (length t) = Some (a @ t @ s') \<and> length s' = length x + length s"
proof -
  have "slice (a @ x @ t @ s) (length a + length x) (length t) = Some t"
    using slice_parts [of "a @ x" t s] by simp
  moreover have "blit (a @ x @ t @ s) (length a) t = Some (a @ t @ drop (length t) (x @ t @ s))"
    by (simp add: blit_def)
  ultimately show ?thesis by (auto simp: memmove_def)
qed

text \<open>The parts of a block that holds entries.\<close>

lemma ih_holds_parts:
  "ih_holds ih eo es l \<longleftrightarrow>
   (\<exists>x s. ih = x @ concat es @ l @ s \<and> length x = eo \<and> IH_SIZE \<le> eo \<and> get_le 4 x IH_ENTRIES_OFFSET = Some eo \<and>
          get_le 4 x IH_INDEX_LENGTH = Some (eo + length (concat es @ l)) \<and> entries_ok es l)"
proof
  assume h: "ih_holds ih eo es l"
  let ?n = "length (concat es @ l)"
  have b: "eo + ?n \<le> length ih" "take ?n (drop eo ih) = concat es @ l"
    using h unfolding ih_holds_def slice_eq_Some by blast (use h in \<open>simp only: ih_holds_def slice_eq_Some\<close>)
  have "ih = take eo ih @ (concat es @ l) @ drop ?n (drop eo ih)" by (metis append_take_drop_id b(2))
  then have "ih = take eo ih @ concat es @ l @ drop ?n (drop eo ih)" by simp
  moreover have "get_le 4 (take eo ih) q = get_le 4 ih q" if "q + 4 \<le> eo" for q
    using get_le_prefix [of q 4 "take eo ih" "drop eo ih"] b(1) that by simp
  ultimately show "\<exists>x s. ih = x @ concat es @ l @ s \<and> length x = eo \<and> IH_SIZE \<le> eo \<and> get_le 4 x IH_ENTRIES_OFFSET = Some eo \<and>
          get_le 4 x IH_INDEX_LENGTH = Some (eo + length (concat es @ l)) \<and> entries_ok es l"
    using h b(1) by (intro exI [of _ "take eo ih"] exI [of _ "drop ?n (drop eo ih)"]) (simp add: ih_holds_def)
next
  assume "\<exists>x s. ih = x @ concat es @ l @ s \<and> length x = eo \<and> IH_SIZE \<le> eo \<and> get_le 4 x IH_ENTRIES_OFFSET = Some eo \<and>
          get_le 4 x IH_INDEX_LENGTH = Some (eo + length (concat es @ l)) \<and> entries_ok es l"
  then obtain x s where x: "ih = x @ concat es @ l @ s" "length x = eo" "IH_SIZE \<le> eo" "get_le 4 x IH_ENTRIES_OFFSET = Some eo"
    "get_le 4 x IH_INDEX_LENGTH = Some (eo + length (concat es @ l))" "entries_ok es l" by blast
  have "slice ih eo (length (concat es @ l)) = Some (concat es @ l)"
    using slice_parts [of x "concat es @ l" s] x(1,2) by simp
  then show "ih_holds ih eo es l" using x by (simp add: ih_holds_def get_le_prefix)
qed

lemma put_length:
  assumes "16 \<le> length x" "get_le 4 x 0 = Some eo" "v < 4294967296"
  shows "\<exists>x'. put_le 4 x IH_INDEX_LENGTH v = Some x' \<and> length x' = length x \<and> get_le 4 x' 0 = Some eo \<and> get_le 4 x' IH_INDEX_LENGTH = Some v"
proof -
  obtain x' where x': "put_le 4 x 4 v = Some x'" using put_le_ok [of 4 4 x v] assms(1) by auto
  show ?thesis using x' length_put_le [OF x'] get_put_le_same [OF x'] get_put_le_other [OF x', of 0 4] assms(2,3) by simp
qed

lemma ie_insert_holds:
  assumes h: "ih_holds ih eo (as @ bs) l" and e: "entry_ok e" "\<not> entry_end e"
    and room: "eo + length (concat (as @ bs) @ l) + length e \<le> length ih" "length ih < 4294967296"
  shows "\<exists>ih'. ntfs_ie_insert ih (e @ r) (eo + length (concat as)) = Some ih' \<and> ih_holds ih' eo (as @ e # bs) l \<and> length ih' = length ih"
proof -
  let ?t = "concat bs @ l"
  obtain x s where x: "ih = x @ concat as @ ?t @ s" "length x = eo" "16 \<le> eo" "get_le 4 x 0 = Some eo"
    "get_le 4 x 4 = Some (eo + length (concat as @ ?t))" "entries_ok (as @ bs) l"
    using h unfolding ih_holds_parts by auto
  have len: "ie_length (e @ r) 0 = Some (length e)"
    using e(1) get_le_prefix [of 8 2 e r] by (simp add: ie_length_def entry_ok_def)
  let ?v = "eo + length (concat as @ ?t) + length e"
  have v: "?v < 4294967296" using room by simp
  obtain x' where x': "put_le 4 x 4 ?v = Some x'" "length x' = eo" "get_le 4 x' 0 = Some eo" "get_le 4 x' 4 = Some ?v"
    using put_length [of x eo ?v] x(2-4) v by auto
  let ?ih = "(x' @ concat as) @ ?t @ s"
  have p1: "put_le 4 ih 4 (u32 ?v) = Some ?ih"
    using put_le_prefix [OF x'(1), of "concat as @ ?t @ s"] v unfolding x(1) by simp
  have g: "get_le 4 ih 4 = Some (eo + length (concat as @ ?t))" "get_le 4 ?ih 4 = Some ?v"
    using x(2,3,5) x'(2,4) unfolding x(1) by (simp_all add: get_le_prefix)
  have s: "length e \<le> length s" using room(1) x(1,2) by simp
  let ?p = "eo + length (concat as)"
  have mm: "memmove ?ih (?p + length e) ?p (length ?t) = Some ((x' @ concat as) @ take (length e) (?t @ s) @ ?t @ drop (length e) s)"
    using memmove_up [OF s, of "x' @ concat as" ?t] x'(2) by simp
  have n: "?v - ?p - length e = length ?t" "\<not> ?v < ?p + length e" by simp_all
  let ?res = "x' @ concat as @ e @ ?t @ drop (length e) s"
  have "blit ((x' @ concat as) @ take (length e) (?t @ s) @ ?t @ drop (length e) s) (length (x' @ concat as)) e =
      Some ((x' @ concat as) @ e @ ?t @ drop (length e) s)" using s by (intro blit_parts) simp
  then have bl: "blit ((x' @ concat as) @ take (length e) (?t @ s) @ ?t @ drop (length e) s) ?p e = Some ?res"
    using x'(2) by simp
  have sl: "slice (e @ r) 0 (length e) = Some e" using slice_parts [of "[]" e r] by simp
  have "ntfs_ie_insert ih (e @ r) ?p = Some ?res"
    unfolding ntfs_ie_insert_def len bind.bind_lunit g(1) p1 g(2) n(1) mm sl bl using n(2) by simp
  moreover have "ih_holds ?res eo (as @ e # bs) l" unfolding ih_holds_parts
    using x' x(3,6) e by (intro exI [of _ x'] exI [of _ "drop (length e) s"]) (auto simp: entries_ok_def)
  moreover have "length ?res = length ih" using x(1,2) x'(2) s by simp
  ultimately show ?thesis by blast
qed

lemma ie_delete_holds:
  assumes h: "ih_holds ih eo (as @ e # bs) l" and small: "length ih < 4294967296"
  shows "\<exists>ih'. ntfs_ie_delete ih (eo + length (concat as)) = Some ih' \<and> ih_holds ih' eo (as @ bs) l \<and> length ih' = length ih"
proof -
  let ?t = "concat bs @ l" and ?p = "eo + length (concat as)"
  obtain x s where x: "ih = x @ concat as @ e @ ?t @ s" "length x = eo" "16 \<le> eo" "get_le 4 x 0 = Some eo"
    "get_le 4 x 4 = Some (eo + length (concat as @ e @ ?t))" "entries_ok (as @ e # bs) l"
    using h unfolding ih_holds_parts by auto
  have ee: "entry_ok e" using x(6) by (simp add: entries_ok_def)
  let ?v = "eo + length (concat as @ ?t)"
  have sm: "eo + length (concat as @ e @ ?t) < 4294967296" using small x(1,2) by simp
  have v: "sub32 (eo + length (concat as @ e @ ?t)) (length e) = ?v" using sm by simp
  obtain x' where x': "put_le 4 x 4 ?v = Some x'" "length x' = eo" "get_le 4 x' 0 = Some eo" "get_le 4 x' 4 = Some ?v"
    using put_length [of x eo ?v] x(2-4) sm by auto
  let ?ih = "(x' @ concat as) @ e @ ?t @ s"
  have p1: "put_le 4 ih 4 ?v = Some ?ih"
    using put_le_prefix [OF x'(1), of "concat as @ e @ ?t @ s"] unfolding x(1) by simp
  have g: "get_le 4 ih 4 = Some (eo + length (concat as @ e @ ?t))" using x(2,3,5) unfolding x(1) by (simp add: get_le_prefix)
  have at: "ie_length (a @ e @ r) (length a) = Some (length e)" for a r
    using entry_at_simps(1) [of "a @ e @ r" "length a" e] ee by (simp add: entry_at_def slice_parts)
  have l: "ie_length ih ?p = Some (length e)" "ie_length ?ih ?p = Some (length e)"
    using at [of "x @ concat as" "?t @ s"] at [of "x' @ concat as" "?t @ s"] x(2) x'(2) unfolding x(1) by simp_all
  obtain s' where s': "memmove ?ih ?p (?p + length e) (length ?t) = Some ((x' @ concat as) @ ?t @ s')" "length s' = length e + length s"
    using memmove_down [of "x' @ concat as" e ?t s] x'(2) by auto
  have n: "?v - ?p = length ?t" "\<not> ?v < ?p" by simp_all
  have "ntfs_ie_delete ih ?p = Some (x' @ concat as @ ?t @ s')"
    unfolding ntfs_ie_delete_def g bind.bind_lunit l(1) Let_def v p1 l(2) n(1) s'(1) using n(2) by simp
  moreover have "ih_holds (x' @ concat as @ ?t @ s') eo (as @ bs) l" unfolding ih_holds_parts
    using x' x(3,6) by (intro exI [of _ x'] exI [of _ s']) (auto simp: entries_ok_def)
  ultimately show ?thesis using x(1,2) x'(2) s'(2) by auto
qed

section \<open>Lookup finds the key\<close>

text \<open>The loop over the entries, for a comparison that returns \<open>-1\<close>, \<open>0\<close> or \<open>1\<close>.\<close>

lemma lookup_loop_entries:
  assumes "entries_at ih p es l"
    and "\<And>q e. entry_at ih q e \<Longrightarrow> e \<in> set es \<Longrightarrow> \<exists>kl. get_le 2 ih (q + IE_KEY_LENGTH) = Some kl \<and> collate (drop (q + IE_KEY) ih) kl = c e"
    and "\<And>e. e \<in> set es \<Longrightarrow> c e \<in> {Some (- 1), Some 0, Some 1}"
  shows "ie_lookup_loop collate ih (p + length (concat es @ l)) p n =
    (let as = takeWhile (\<lambda>e. c e = Some 1) es; q = p + length (concat as); i = n + length as
     in Some (case dropWhile (\<lambda>e. c e = Some 1) es of [] \<Rightarrow> Ie_break q i | e # _ \<Rightarrow> if c e = Some 0 then Ie_match q i else Ie_break q i))"
  using assms
proof (induction es arbitrary: p n)
  case Nil
  then show ?case using entry_at_simps(1,4,5) [of ih p l] by (simp add: ie_lookup_loop.simps [of collate ih _ p])
next
  case (Cons e es)
  have e: "entry_at ih p e" "\<not> entry_end e" using Cons.prems(1) by simp_all
  obtain kl where kl: "get_le 2 ih (p + 10) = Some kl" "collate (drop (p + 16) ih) kl = c e"
    using Cons.prems(2) [OF e(1)] by auto
  note s = entry_at_simps [OF e(1)]
  have step: "ie_lookup_loop collate ih (p + length (concat (e # es) @ l)) p n =
      (if c e = Some (- 1) then Some (Ie_break p n) else if c e = Some 0 then Some (Ie_match p n)
       else ie_lookup_loop collate ih (p + length e + length (concat es @ l)) (p + length e) (n + 1))"
    using Cons.prems(3) [of e] s(1,3,4,5) e(2) kl by (auto simp: ie_lookup_loop.simps [of collate ih _ p] add.assoc)
  have ih: "ie_lookup_loop collate ih (p + length e + length (concat es @ l)) (p + length e) (n + 1) =
    (let as = takeWhile (\<lambda>e. c e = Some 1) es; q = p + length e + length (concat as); i = n + 1 + length as
     in Some (case dropWhile (\<lambda>e. c e = Some 1) es of [] \<Rightarrow> Ie_break q i | e # _ \<Rightarrow> if c e = Some 0 then Ie_match q i else Ie_break q i))"
    using Cons.prems by (intro Cons.IH) auto
  consider "c e = Some (- 1)" | "c e = Some 0" | "c e = Some 1" using Cons.prems(3) [of e] by auto
  then show ?case
  proof cases
    case 1
    then show ?thesis unfolding step by simp
  next
    case 2
    then show ?thesis unfolding step by simp
  next
    case 3
    then show ?thesis unfolding step ih by (cases "dropWhile (\<lambda>e. c e = Some 1) es") (simp_all add: Let_def add.assoc del: dropWhile_eq_Nil_conv)
  qed
qed

text \<open>The key of an entry, with the memory of the entry; the memory behind the entry does not matter.\<close>

definition entry_key :: "buf \<Rightarrow> buf \<times> nat" where
  "entry_key e = (drop IE_KEY e, le_of (take 2 (drop IE_KEY_LENGTH e)))"

lemma le16_units_prefix: "le16_units d p n = Some cs \<Longrightarrow> le16_units (d @ x) p n = Some cs"
proof (induction n arbitrary: p cs)
  case (Suc n)
  then obtain c cs' where c: "get_le 2 d p = Some c" "le16_units d (p + 2) n = Some cs'" "cs = c # cs'"
    by (auto simp: bind_eq_Some_conv)
  then show ?case using Suc.IH [OF c(2)] get_le_bound [OF c(1)] by (simp add: get_le_prefix)
qed simp

lemma file_name_of_prefix: "file_name_of d = Some cs \<Longrightarrow> file_name_of (d @ x) = Some cs"
proof -
  assume "file_name_of d = Some cs"
  then obtain n where n: "get_le 1 d 64 = Some n" "le16_units d 66 n = Some cs"
    by (auto simp: file_name_of_def get8_def bind_eq_Some_conv)
  then show ?thesis using get_le_bound [OF n(1)] by (simp add: file_name_of_def get8_def get_le_prefix le16_units_prefix)
qed

lemma le32_units_prefix: "p + 4 * n \<le> length d \<Longrightarrow> le32_units (d @ x) p n = le32_units d p n"
  by (induction n arbitrary: p) (simp_all add: get_le_prefix)

lemma index_key_prefix:
  assumes "index_key upcase cr n (d, len)"
  shows "index_key upcase cr n (d @ x, len)" "index_key_value upcase cr (d @ x, len) = index_key_value upcase cr (d, len)"
proof -
  have "cr \<in> {0, 1, 0x10, 0x13}" by (rule ccontr) (use assms in \<open>simp add: index_key_def\<close>)
  then consider "cr = 0" | "cr = 1" | "cr = 0x10 \<or> cr = 0x13" by blast
  then have "index_key upcase cr n (d @ x, len) \<and> index_key_value upcase cr (d @ x, len) = index_key_value upcase cr (d, len)"
  proof cases
    case 1
    then show ?thesis using assms by (simp add: index_key_def index_key_value_def)
  next
    case 2
    then show ?thesis using assms
      by (auto simp: index_key_def index_key_value_def file_name_of_prefix split: option.splits)
  next
    case 3
    then show ?thesis using assms by (auto simp: index_key_def index_key_value_def le32_units_prefix simp del: le32_units.simps)
  qed
  then show "index_key upcase cr n (d @ x, len)" "index_key_value upcase cr (d @ x, len) = index_key_value upcase cr (d, len)"
    by simp_all
qed

lemma entry_at_key:
  assumes "entry_at ih q e" "memcmp_for cr memcmp" "index_key upcase cr n k" "index_key upcase cr n (entry_key e)"
  shows "\<exists>kl. get_le 2 ih (q + IE_KEY_LENGTH) = Some kl \<and>
              ntfs_collate memcmp upcase cr (fst k) (snd k) (drop (q + IE_KEY) ih) kl = index_cmp memcmp upcase cr k (entry_key e)"
proof -
  have sz: "16 \<le> length e" by (rule entry_at_simps(5) [OF assms(1)])
  let ?kl = "le_of (take 2 (drop 10 e))" and ?x = "drop (q + length e) ih"
  have "get_le 2 ih (q + 10) = Some ?kl"
    using entry_field [OF assms(1), of 10 2] sz by (simp add: get_le_def slice_def)
  moreover have mem: "drop (q + 16) ih = drop 16 e @ ?x"
  proof -
    have "drop q ih = e @ ?x" using assms(1) by (simp add: entry_at_def slice_eq_Some) (metis add.commute append_take_drop_id drop_drop)
    then have "drop 16 (drop q ih) = drop 16 e @ ?x" using sz by simp
    then show ?thesis by (simp add: add.commute)
  qed
  moreover have "index_cmp memcmp upcase cr k (drop 16 e @ ?x, ?kl) = index_cmp memcmp upcase cr k (entry_key e)"
    using index_key_prefix [of upcase cr n "drop 16 e" ?kl ?x] assms(2-4) by (simp add: index_cmp_lex entry_key_def)
  ultimately show ?thesis by (cases k) (simp add: index_cmp_def)
qed
text \<open>
  What \<open>ntfs_ie_lookup\<close> returns, by where the key lies: at an entry, or before an entry, all entries
  further left being smaller.
\<close>

definition cmp_key :: "c_memcmp \<Rightarrow> nat list \<Rightarrow> nat \<Rightarrow> buf \<times> nat \<Rightarrow> buf \<Rightarrow> int option" where
  "cmp_key memcmp upcase cr k e = index_cmp memcmp upcase cr k (entry_key e)"

definition key_collate :: "c_memcmp \<Rightarrow> nat list \<Rightarrow> nat \<Rightarrow> buf \<times> nat \<Rightarrow> buf \<Rightarrow> nat \<Rightarrow> int option" where
  "key_collate memcmp upcase cr k = ntfs_collate memcmp upcase cr (fst k) (snd k)"

lemma lookup_loop_block:
  assumes h: "ih_holds ih eo es l" and m: "memcmp_for cr memcmp" and k: "index_key upcase cr n k"
    and es: "\<forall>e\<in>set es. index_key upcase cr n (entry_key e)"
  defines "c \<equiv> cmp_key memcmp upcase cr k"
  shows "ie_lookup_loop (key_collate memcmp upcase cr k) ih (eo + length (concat es @ l)) eo 0 =
    (let as = takeWhile (\<lambda>e. c e = Some 1) es; q = eo + length (concat as)
     in Some (case dropWhile (\<lambda>e. c e = Some 1) es of [] \<Rightarrow> Ie_break q (length as)
              | e # _ \<Rightarrow> if c e = Some 0 then Ie_match q (length as) else Ie_break q (length as)))"
proof -
  have range: "c e \<in> {Some (- 1), Some 0, Some 1}" if "e \<in> set es" for e
    using idx.cmp_range [of k memcmp upcase cr n "entry_key e"] m k es that by (auto simp: c_def cmp_key_def index_keys_def)
  have key: "\<exists>kl. get_le 2 ih (q + IE_KEY_LENGTH) = Some kl \<and> key_collate memcmp upcase cr k (drop (q + IE_KEY) ih) kl = c e"
    if "entry_at ih q e" "e \<in> set es" for q e
    using entry_at_key [OF that(1) m k] es that(2) by (simp add: c_def cmp_key_def key_collate_def)
  show ?thesis
    using lookup_loop_entries [OF ih_holds_entries [OF h], of "key_collate memcmp upcase cr k" c 0] range key by (simp add: Let_def)
qed

lemma ih_holds_ends: "ih_holds ih eo es l \<Longrightarrow> ntfs_ie_get_first ih = Some eo \<and> ntfs_ie_get_end ih = Some (eo + length (concat es @ l))"
  by (simp add: ih_holds_def ntfs_ie_get_first_def ntfs_ie_get_end_def)

lemma ih_holds_entry: "ih_holds ih eo es l \<Longrightarrow> es @ [l] = as @ e # bs \<Longrightarrow> entry_at ih (eo + length (concat as)) e"
proof (cases bs rule: rev_cases)
  case Nil
  assume h: "ih_holds ih eo es l" "es @ [l] = as @ e # bs"
  then have "es = as" "l = e" using Nil by simp_all
  then show ?thesis using entries_at_append [of ih eo es "[]" l] ih_holds_entries [OF h(1)] by simp
next
  case (snoc bs' b)
  assume h: "ih_holds ih eo es l" "es @ [l] = as @ e # bs"
  then have "es = as @ e # bs'" using snoc by simp
  then show ?thesis using entries_at_append [of ih eo as "e # bs'" l] ih_holds_entries [OF h(1)] by simp
qed

lemma ie_lookup_match:
  assumes h: "ih_holds ih eo (as @ e # bs) l" and m: "memcmp_for cr memcmp" and k: "index_key upcase cr n k"
    and es: "\<forall>e\<in>set (as @ e # bs). index_key upcase cr n (entry_key e)"
    and c: "\<forall>a\<in>set as. cmp_key memcmp upcase cr k a = Some 1" "cmp_key memcmp upcase cr k e = Some 0"
  shows "ntfs_ie_lookup (key_collate memcmp upcase cr k) ih =
     Some \<lparr>lo_err = 0, lo_vcn = None, lo_ie = Some (eo + length (concat as)), lo_pos = Some (length as)\<rparr>"
proof -
  have "ie_lookup_loop (key_collate memcmp upcase cr k) ih (eo + length (concat (as @ e # bs) @ l)) eo 0 = Some (Ie_match (eo + length (concat as)) (length as))"
    unfolding lookup_loop_block [OF h m k es] using c by (simp add: Let_def)
  then show ?thesis using ih_holds_ends [OF h] by (simp add: ntfs_ie_lookup_def)
qed

definition break_out :: "nat \<Rightarrow> nat \<Rightarrow> buf \<Rightarrow> ie_lookup_out" where
  "break_out p item e =
     (if \<not> entry_node e then \<lparr>lo_err = - ENOENT, lo_vcn = None, lo_ie = Some p, lo_pos = None\<rparr>
      else if entry_vcn e < 0 then \<lparr>lo_err = - EINVAL, lo_vcn = Some (entry_vcn e), lo_ie = None, lo_pos = None\<rparr>
      else \<lparr>lo_err = - EAGAIN, lo_vcn = Some (entry_vcn e), lo_ie = None, lo_pos = Some item\<rparr>)"

lemma ie_lookup_break:
  assumes h: "ih_holds ih eo es l" and m: "memcmp_for cr memcmp" and k: "index_key upcase cr n k"
    and es: "\<forall>e\<in>set es. index_key upcase cr n (entry_key e)" and split: "es @ [l] = as @ e # bs"
    and c: "\<forall>a\<in>set as. cmp_key memcmp upcase cr k a = Some 1" "bs \<noteq> [] \<Longrightarrow> cmp_key memcmp upcase cr k e = Some (- 1)"
  shows "ntfs_ie_lookup (key_collate memcmp upcase cr k) ih = Some (break_out (eo + length (concat as)) (length as) e)"
proof -
  let ?c = "cmp_key memcmp upcase cr k"
  have tw: "takeWhile (\<lambda>e. ?c e = Some 1) es = as" and
    dw: "dropWhile (\<lambda>e. ?c e = Some 1) es = [] \<or> (\<exists>xs. dropWhile (\<lambda>e. ?c e = Some 1) es = e # xs \<and> ?c e = Some (- 1))"
    using split c by (cases bs rule: rev_cases; simp)+
  have "ie_lookup_loop (key_collate memcmp upcase cr k) ih (eo + length (concat es @ l)) eo 0 = Some (Ie_break (eo + length (concat as)) (length as))"
    unfolding lookup_loop_block [OF h m k es] tw using dw by (auto simp: Let_def simp del: dropWhile_eq_Nil_conv)
  then show ?thesis
    using ih_holds_ends [OF h] entry_at_simps(2) [OF ih_holds_entry [OF h split]] entry_at_vcn [OF ih_holds_entry [OF h split]]
    by (simp add: ntfs_ie_lookup_def break_out_def entry_node_def)
qed

text \<open>In a sorted list one of the two cases applies.\<close>

definition keys_sorted :: "c_memcmp \<Rightarrow> nat list \<Rightarrow> nat \<Rightarrow> nat \<Rightarrow> buf list \<Rightarrow> bool" where
  "keys_sorted memcmp upcase cr n es \<longleftrightarrow>
     (\<forall>e\<in>set es. index_key upcase cr n (entry_key e)) \<and>
     sorted_wrt (\<lambda>a b. index_cmp memcmp upcase cr (entry_key a) (entry_key b) = Some (- 1)) es"

lemma split_at_key:
  assumes "memcmp_for cr memcmp" "index_key upcase cr n k" "\<forall>e\<in>set es. index_key upcase cr n (entry_key e)"
  obtains (match) as e bs where "es = as @ e # bs" "\<forall>a\<in>set as. cmp_key memcmp upcase cr k a = Some 1" "cmp_key memcmp upcase cr k e = Some 0"
  | (break) as e bs where "es @ [l] = as @ e # bs" "\<forall>a\<in>set as. cmp_key memcmp upcase cr k a = Some 1"
      "bs \<noteq> [] \<Longrightarrow> cmp_key memcmp upcase cr k e = Some (- 1)"
proof -
  let ?c = "\<lambda>e. cmp_key memcmp upcase cr k e = Some 1"
  let ?as = "takeWhile ?c es"
  have es: "es = ?as @ dropWhile ?c es" by simp
  have as: "\<forall>a\<in>set ?as. cmp_key memcmp upcase cr k a = Some 1" by (meson set_takeWhileD)
  show thesis
  proof (cases "dropWhile ?c es")
    case Nil
    then have "es @ [l] = ?as @ l # []" using es by (simp del: dropWhile_eq_Nil_conv)
    then show ?thesis using break [of ?as l "[]"] as by simp
  next
    case (Cons e bs)
    then have e: "\<not> ?c e" "e \<in> set es" using hd_dropWhile [of ?c es] set_dropWhileD [of e ?c es] by auto
    have "cmp_key memcmp upcase cr k e \<in> {Some (- 1), Some 0, Some 1}"
      using idx.cmp_range [of k memcmp upcase cr n "entry_key e"] assms e(2) by (auto simp: cmp_key_def index_keys_def)
    then consider "cmp_key memcmp upcase cr k e = Some 0" | "cmp_key memcmp upcase cr k e = Some (- 1)" using e(1) by auto
    then show ?thesis
    proof cases
      case 1
      then show ?thesis using match [of ?as e bs] as es Cons by simp
    next
      case 2
      then show ?thesis using break [of ?as e "bs @ [l]"] as es Cons by simp
    qed
  qed
qed

section \<open>Insertion and deletion keep the order\<close>

lemma cmp_key_eq:
  assumes "memcmp_for cr memcmp" "index_key upcase cr n k" "index_key upcase cr n (entry_key e)"
  shows "cmp_key memcmp upcase cr k e = Some 0 \<longleftrightarrow> index_key_value upcase cr (entry_key e) = index_key_value upcase cr k"
  using idx.cmp_eq [of k memcmp upcase cr n "entry_key e"] assms by (auto simp: cmp_key_def index_keys_def)

text \<open>The entries left of the place are smaller, those from it on larger.\<close>

lemma keys_sorted_insert:
  assumes s: "keys_sorted memcmp upcase cr n (as @ bs)" and m: "memcmp_for cr memcmp"
    and k: "index_key upcase cr n (entry_key e)"
    and c: "\<forall>a\<in>set as. cmp_key memcmp upcase cr (entry_key e) a = Some 1"
      "\<And>b bs'. bs = b # bs' \<Longrightarrow> cmp_key memcmp upcase cr (entry_key e) b = Some (- 1)"
  shows "keys_sorted memcmp upcase cr n (as @ e # bs)"
proof -
  let ?K = "index_keys memcmp upcase cr n" and ?lt = "\<lambda>a b. index_cmp memcmp upcase cr (entry_key a) (entry_key b) = Some (- 1)"
  have mem: "entry_key x \<in> ?K" if "x \<in> set (as @ bs)" for x using s m that by (simp add: keys_sorted_def index_keys_def)
  have ke: "entry_key e \<in> ?K" using m k by (simp add: index_keys_def)
  have 1: "?lt a e" if "a \<in> set as" for a
    using idx.cmp_swap [OF ke mem [of a]] c(1) that by (simp add: cmp_key_def)
  have 2: "?lt e b" if "b \<in> set bs" for b
  proof (cases bs)
    case (Cons b0 bs')
    have e0: "?lt e b0" using c(2) [OF Cons] by (simp add: cmp_key_def)
    show ?thesis
    proof (cases "b = b0")
      case False
      then have "?lt b0 b" using s that Cons by (auto simp: keys_sorted_def sorted_wrt_append)
      then show ?thesis using idx.cmp_trans [OF ke mem [of b0] mem [of b] e0] that Cons by auto
    qed (use e0 in simp)
  qed (use that in simp)
  show ?thesis using s k 1 2 by (auto simp: keys_sorted_def sorted_wrt_append)
qed

text \<open>
  C11.  Adding an entry to an index block is insertion into the sorted list of its entries.  In a
  block whose entries are well-formed and in collation order, \<open>ntfs_ie_lookup\<close> with the new entry's
  key returns; when it returns \<open>-ENOENT\<close> with a place and the block has room for the entry,
  \<open>ntfs_ie_insert\<close> at that place stays within the block and leaves one that holds exactly the old
  entries and the new one, again in collation order, with the last entry and the entries' offset as
  they were.  For an index of \<open>COLLATION_BINARY\<close> the C library's \<open>memcmp\<close> must return \<open>-1\<close>, \<open>0\<close> or \<open>1\<close>
  (\<open>memcmp_for\<close>); the other rules do not call it.
\<close>

theorem ie_insert_sorted:
  assumes "ih_holds ih eo es l" "keys_sorted memcmp upcase cr n es" "memcmp_for cr memcmp"
    and "entry_ok e" "\<not> entry_end e" "index_key upcase cr n (entry_key e)"
    and "eo + length (concat es @ l) + length e \<le> length ih" "length ih < 4294967296"
  shows "\<exists>out. ntfs_ie_lookup (key_collate memcmp upcase cr (entry_key e)) ih = Some out \<and>
    (lo_err out = - ENOENT \<longrightarrow>
       (\<exists>p as bs ih'. lo_ie out = Some p \<and> es = as @ bs \<and> ntfs_ie_insert ih e p = Some ih' \<and>
          ih_holds ih' eo (as @ e # bs) l \<and> keys_sorted memcmp upcase cr n (as @ e # bs) \<and> length ih' = length ih))"
proof -
  have es: "\<forall>e\<in>set es. index_key upcase cr n (entry_key e)" using assms(2) by (simp add: keys_sorted_def)
  show ?thesis
  proof (rule split_at_key [OF assms(3,6) es, where l = l])
    fix as a bs
    assume a: "es = as @ a # bs" "\<forall>a\<in>set as. cmp_key memcmp upcase cr (entry_key e) a = Some 1" "cmp_key memcmp upcase cr (entry_key e) a = Some 0"
    then show ?thesis using ie_lookup_match [OF _ assms(3,6) _ a(2,3)] assms(1) es by simp
  next
    fix as a bs
    assume a: "es @ [l] = as @ a # bs" "\<forall>a\<in>set as. cmp_key memcmp upcase cr (entry_key e) a = Some 1"
      "bs \<noteq> [] \<Longrightarrow> cmp_key memcmp upcase cr (entry_key e) a = Some (- 1)"
    note out = ie_lookup_break [OF assms(1,3,6) es a]
    obtain ds where ds: "es = as @ ds" "\<And>b bs'. ds = b # bs' \<Longrightarrow> cmp_key memcmp upcase cr (entry_key e) b = Some (- 1)"
      using a(1,3) by (cases bs rule: rev_cases) auto
    obtain ih' where "ntfs_ie_insert ih e (eo + length (concat as)) = Some ih'" "ih_holds ih' eo (as @ e # ds) l" "length ih' = length ih"
      using ie_insert_holds [of ih eo as ds l e "[]"] assms ds(1) by auto
    then show ?thesis using out ds keys_sorted_insert [OF _ assms(3,6) a(2), of ds] assms(2) by (auto simp: break_out_def)
  qed
qed

text \<open>
  C13.  Deleting from an index block what a lookup found is deletion from the list of its entries.  When
  \<open>ntfs_ie_lookup\<close> reports a match, it is at an entry with the key that was asked for, and
  \<open>ntfs_ie_delete\<close> there stays within the block and leaves one that holds exactly the other entries,
  still in order, none of which has that key.  The condition on \<open>memcmp\<close> is the one of insertion.
\<close>

theorem ie_delete_found:
  assumes "ih_holds ih eo es l" "keys_sorted memcmp upcase cr n es" "memcmp_for cr memcmp"
    and "index_key upcase cr n k" "length ih < 4294967296"
    and "ntfs_ie_lookup (key_collate memcmp upcase cr k) ih = Some out" "lo_err out = 0"
  shows "\<exists>p as d bs ih'. lo_ie out = Some p \<and> es = as @ d # bs \<and> index_key_value upcase cr (entry_key d) = index_key_value upcase cr k \<and>
    ntfs_ie_delete ih p = Some ih' \<and> ih_holds ih' eo (as @ bs) l \<and> keys_sorted memcmp upcase cr n (as @ bs) \<and> length ih' = length ih \<and>
    (\<forall>x\<in>set (as @ bs). index_key_value upcase cr (entry_key x) \<noteq> index_key_value upcase cr k)"
proof -
  have es: "\<forall>e\<in>set es. index_key upcase cr n (entry_key e)" using assms(2) by (simp add: keys_sorted_def)
  show ?thesis
  proof (rule split_at_key [OF assms(3,4) es, where l = l])
    fix as d bs
    assume d: "es = as @ d # bs" "\<forall>a\<in>set as. cmp_key memcmp upcase cr k a = Some 1" "cmp_key memcmp upcase cr k d = Some 0"
    have out: "lo_ie out = Some (eo + length (concat as))"
      using ie_lookup_match [OF _ assms(3,4) _ d(2,3), of ih eo bs l] assms(1,6) es d(1) by auto
    have same: "index_key_value upcase cr (entry_key d) = index_key_value upcase cr k"
      using cmp_key_eq [OF assms(3,4), of d] es d(1,3) by simp
    have other: "index_key_value upcase cr (entry_key x) \<noteq> index_key_value upcase cr k" if x: "x \<in> set (as @ bs)" for x
    proof -
      have kk: "entry_key d \<in> index_keys memcmp upcase cr n" "entry_key x \<in> index_keys memcmp upcase cr n"
        using es x assms(3) unfolding d(1) index_keys_def by auto
      have "index_cmp memcmp upcase cr (entry_key x) (entry_key d) = Some (- 1) \<or> index_cmp memcmp upcase cr (entry_key d) (entry_key x) = Some (- 1)"
        using assms(2) x unfolding keys_sorted_def d(1) sorted_wrt_append by auto
      then have "index_cmp memcmp upcase cr (entry_key x) (entry_key d) \<noteq> Some 0 \<or> index_cmp memcmp upcase cr (entry_key d) (entry_key x) \<noteq> Some 0"
        by auto
      then have "index_key_value upcase cr (entry_key x) \<noteq> index_key_value upcase cr (entry_key d)"
        unfolding idx.cmp_eq [OF kk] idx.cmp_eq [OF kk(2,1)] by metis
      then show ?thesis unfolding same .
    qed
    obtain ih' where "ntfs_ie_delete ih (eo + length (concat as)) = Some ih'" "ih_holds ih' eo (as @ bs) l" "length ih' = length ih"
      using ie_delete_holds [of ih eo as d bs l] assms(1,5) d(1) by auto
    moreover have "keys_sorted memcmp upcase cr n (as @ bs)" using assms(2) unfolding keys_sorted_def d(1) sorted_wrt_append by auto
    ultimately show ?thesis using out d(1) same other by blast
  next
    fix as a bs
    assume a: "es @ [l] = as @ a # bs" "\<forall>a\<in>set as. cmp_key memcmp upcase cr k a = Some 1"
      "bs \<noteq> [] \<Longrightarrow> cmp_key memcmp upcase cr k a = Some (- 1)"
    then show ?thesis using ie_lookup_break [OF assms(1,3,4) es a] assms(6,7) by (auto simp: break_out_def split: if_split_asm)
  qed
qed

text \<open>A small index of numbers: a block with the entry 5 and room for two more.\<close>

definition ex_ent :: "byte \<Rightarrow> buf" where
  "ex_ent k = [0, 0, 0, 0, 0, 0, 0, 0, 24, 0, 4, 0, 0, 0, 0, 0, k, 0, 0, 0, 0, 0, 0, 0]"

definition ex_last :: buf where
  "ex_last = [0, 0, 0, 0, 0, 0, 0, 0, 16, 0, 0, 0, 2, 0, 0, 0]"

definition ex_ih :: buf where
  "ex_ih = [16, 0, 0, 0, 56, 0, 0, 0, 104, 0, 0, 0, 0, 0, 0, 0] @ ex_ent 5 @ ex_last @ replicate 48 0"

lemma ex_ent_ok [simp]: "entry_ok (ex_ent k)" "\<not> entry_end (ex_ent k)" "\<not> entry_node (ex_ent k)" "length (ex_ent k) = 24"
  by (simp_all add: entry_ok_def entry_end_def entry_node_def entry_flags_def ex_ent_def get_le_def slice_def)

lemma ex_last_ok [simp]: "entry_ok ex_last" "entry_end ex_last" "length ex_last = 16"
  by (simp_all add: entry_ok_def entry_end_def entry_node_def entry_flags_def ex_last_def get_le_def slice_def)

lemma ex_ent_key: "entry_key (ex_ent k) = ([k, 0, 0, 0, 0, 0, 0, 0], 4)" "index_key [] 0x10 0 (entry_key (ex_ent k))"
  by (simp_all add: entry_key_def ex_ent_def index_key_def)

lemma ex_ih_holds: "ih_holds ex_ih 16 [ex_ent 5] ex_last"
  unfolding ih_holds_parts
  by (rule exI [of _ "[16, 0, 0, 0, 56, 0, 0, 0, 104, 0, 0, 0, 0, 0, 0, 0]"], rule exI [of _ "replicate 48 0"])
    (simp add: ex_ih_def entries_ok_def get_le_def slice_def)

lemma lex_memcmp_sign [simp]: "memcmp_for cr lex_memcmp"
  by (simp add: memcmp_for_def memcmp_sign_def lex_memcmp_def)

lemma length_ex_ih [simp]: "length ex_ih = 104"
  by (simp add: ex_ih_def)

lemma ex_sorted: "keys_sorted lex_memcmp [] 0x10 0 [ex_ent 5]"
  by (simp add: keys_sorted_def ex_ent_key(2))

theorem ie_insert_sorted_witness:
  "\<exists>ih'. ntfs_ie_lookup (key_collate lex_memcmp [] 0x10 (entry_key (ex_ent 7))) ex_ih =
      Some \<lparr>lo_err = - ENOENT, lo_vcn = None, lo_ie = Some 40, lo_pos = None\<rparr> \<and>
    ntfs_ie_insert ex_ih (ex_ent 7) 40 = Some ih' \<and> ih_holds ih' 16 [ex_ent 5, ex_ent 7] ex_last \<and> length ih' = 104"
proof -
  have v: "index_key_value [] 0x10 (entry_key (ex_ent k)) = [unat k]" for k
    by (simp add: index_key_value_def ex_ent_key get_le_def slice_def le32_units.simps(2) [of _ _ 0, simplified])
  have c: "index_cmp lex_memcmp [] 0x10 (entry_key (ex_ent 7)) (entry_key (ex_ent 5)) = Some 1"
    using index_cmp_lex [OF lex_memcmp_sign ex_ent_key(2) ex_ent_key(2), of 7 5] by (simp add: v)
  have "\<not> entry_node ex_last" by (simp add: entry_node_def entry_flags_def ex_last_def get_le_def slice_def)
  then have out: "ntfs_ie_lookup (key_collate lex_memcmp [] 0x10 (entry_key (ex_ent 7))) ex_ih =
      Some \<lparr>lo_err = - ENOENT, lo_vcn = None, lo_ie = Some 40, lo_pos = None\<rparr>"
    using ie_lookup_break [OF ex_ih_holds lex_memcmp_sign ex_ent_key(2) [of 7], where as = "[ex_ent 5]" and e = ex_last and bs = "[]"] c
    by (simp add: ex_ent_key(2) cmp_key_def break_out_def)
  have "\<exists>as bs ih'. [ex_ent 5] = as @ bs \<and> ntfs_ie_insert ex_ih (ex_ent 7) 40 = Some ih' \<and>
      ih_holds ih' 16 (as @ ex_ent 7 # bs) ex_last \<and> keys_sorted lex_memcmp [] 0x10 0 (as @ ex_ent 7 # bs) \<and> length ih' = length ex_ih"
    using ie_insert_sorted [OF ex_ih_holds ex_sorted lex_memcmp_sign, of "ex_ent 7"] out by (simp add: ex_ent_key(2))
  then show ?thesis using out c by (auto simp: keys_sorted_def Cons_eq_append_conv)
qed

theorem ie_delete_found_witness:
  "\<exists>p as d bs ih'. [ex_ent 5] = as @ d # bs \<and> ntfs_ie_delete ex_ih p = Some ih' \<and> ih_holds ih' 16 (as @ bs) ex_last"
proof -
  have "cmp_key lex_memcmp [] 0x10 (entry_key (ex_ent 5)) (ex_ent 5) = Some 0"
    using cmp_key_eq [OF lex_memcmp_sign ex_ent_key(2) ex_ent_key(2), of 5 5] by simp
  then have out: "ntfs_ie_lookup (key_collate lex_memcmp [] 0x10 (entry_key (ex_ent 5))) ex_ih =
      Some \<lparr>lo_err = 0, lo_vcn = None, lo_ie = Some 16, lo_pos = Some 0\<rparr>"
    using ie_lookup_match [of ex_ih 16 "[]" "ex_ent 5" "[]" ex_last "0x10" lex_memcmp "[]" 0 "entry_key (ex_ent 5)"] ex_ih_holds
    by (simp add: ex_ent_key(2))
  show ?thesis using ie_delete_found [OF ex_ih_holds ex_sorted lex_memcmp_sign ex_ent_key(2) _ out] by auto
qed

section \<open>Splitting a block\<close>

text \<open>One write to a buffer and what can be read afterwards.\<close>

lemma put_step:
  "p + k \<le> length b \<Longrightarrow> \<exists>b'. put_le k b p v = Some b' \<and> length b' = length b \<and> get_le k b' p = Some (v mod 256 ^ k) \<and>
     (\<forall>q m. q + m \<le> p \<or> p + k \<le> q \<longrightarrow> get_le m b' q = get_le m b q)"
  using put_le_ok [of p k b v] length_put_le get_put_le_same get_put_le_other by blast

lemma get_le_drop: "get_le k (drop n b) p = (if n \<le> length b then get_le k b (n + p) else get_le k [] p)"
  by (auto simp: get_le_def slice_def add.commute)

definition first_entry_offset :: "nat \<Rightarrow> nat" where
  "first_entry_offset block_size = and_not32 (16 + (block_size div 512 + 1) * 2 + 7) 7"

lemma first_entry_offset_bound: "first_entry_offset b \<le> 25 + b div 512 * 2"
  using and_not32_le [of "16 + (b div 512 + 1) * 2 + 7" 7] by (simp add: first_entry_offset_def)

lemma ib_alloc_ok:
  assumes "512 \<le> bs" "bs < 33553920"
  shows "\<exists>ib. ntfs_ib_alloc v bs nt = Some ib \<and> length ib = bs \<and>
    get_le 4 ib 0 = Some LFS_MAGIC_INDX \<and> get_le 8 ib IB_INDEX_BLOCK_VCN = Some (nat (v mod 18446744073709551616)) \<and>
    get_le 4 ib 24 = Some (first_entry_offset bs) \<and> get_le 4 ib 32 = Some (bs - 24) \<and> get_le 1 ib 36 = Some (nt mod 256)"
proof -
  have c: "bs div 512 + 1 < 65536" using assms(2) by linarith
  let ?eo = "first_entry_offset bs"
  have eo: "?eo < 4294967296" using first_entry_offset_bound [of bs] c by linarith
  define b0 where "b0 = replicate bs (0 :: byte)"
  have l0: "length b0 = bs" by (simp add: b0_def)
  obtain b1 where b1: "put_le 4 b0 0 LFS_MAGIC_INDX = Some b1" "length b1 = bs" "get_le 4 b1 0 = Some LFS_MAGIC_INDX"
    using put_step [of 0 4 b0 LFS_MAGIC_INDX] assms(1) l0 by auto
  obtain b2 where b2: "put_le 2 b1 4 40 = Some b2" "length b2 = bs" "get_le 4 b2 0 = get_le 4 b1 0"
    using put_step [of 4 2 b1 40] assms(1) b1(2) by auto
  obtain b3 where b3: "put_le 2 b2 6 (u16 (bs div 512 + 1)) = Some b3" "length b3 = bs" "get_le 4 b3 0 = get_le 4 b2 0"
    using put_step [of 6 2 b2 "u16 (bs div 512 + 1)"] assms(1) b2(2) by auto
  obtain b4 where b4: "put_le 2 b3 40 1 = Some b4" "length b4 = bs" "get_le 4 b4 0 = get_le 4 b3 0"
    using put_step [of 40 2 b3 1] assms(1) b3(2) by auto
  obtain b5 where b5: "put_le 8 b4 8 0 = Some b5" "length b5 = bs" "get_le 4 b5 0 = get_le 4 b4 0"
    using put_step [of 8 8 b4 0] assms(1) b4(2) by auto
  obtain b6 where b6: "put_le 8 b5 16 (nat (v mod 18446744073709551616)) = Some b6" "length b6 = bs" "get_le 4 b6 0 = get_le 4 b5 0"
    "get_le 8 b6 16 = Some (nat (v mod 18446744073709551616))"
    using put_step [of 16 8 b5 "nat (v mod 18446744073709551616)"] assms(1) b5(2) by (auto simp: nat_mod_distrib)
  obtain b7 where b7: "put_le 4 b6 24 ?eo = Some b7" "length b7 = bs" "get_le 4 b7 0 = get_le 4 b6 0" "get_le 8 b7 16 = get_le 8 b6 16" "get_le 4 b7 24 = Some ?eo"
    using put_step [of 24 4 b6 ?eo] assms(1) b6(2) eo by auto
  obtain b8 where b8: "put_le 4 b7 28 0 = Some b8" "length b8 = bs" "get_le 4 b8 0 = get_le 4 b7 0" "get_le 8 b8 16 = get_le 8 b7 16" "get_le 4 b8 24 = get_le 4 b7 24"
    using put_step [of 28 4 b7 0] assms(1) b7(2) by auto
  obtain b9 where b9: "put_le 4 b8 32 (bs - 24) = Some b9" "length b9 = bs" "get_le 4 b9 0 = get_le 4 b8 0" "get_le 8 b9 16 = get_le 8 b8 16" "get_le 4 b9 24 = get_le 4 b8 24"
    "get_le 4 b9 32 = Some (bs - 24)"
    using put_step [of 32 4 b8 "bs - 24"] assms b8(2) by auto
  obtain b where b: "put_le 1 b9 36 nt = Some b" "length b = bs" "get_le 4 b 0 = get_le 4 b9 0" "get_le 8 b 16 = get_le 8 b9 16" "get_le 4 b 24 = get_le 4 b9 24"
    "get_le 4 b 32 = get_le 4 b9 32" "get_le 1 b 36 = Some (nt mod 256)"
    using put_step [of 36 1 b9 nt] assms(1) b9(2) by auto
  have "ntfs_ib_alloc v bs nt = Some b"
    unfolding ntfs_ib_alloc_def Let_def b0_def [symmetric] b1(1) bind.bind_lunit b2(1) b3(1) b4(1) b5(1) b6(1)
    using b7(1) b8(1) b9(1) b(1) assms c by (simp add: first_entry_offset_def put8_def)
  then show ?thesis using b b9 b8 b7 b6 b5 b4 b3 b2 b1(3) by auto
qed

lemma median_entry:
  assumes h: "ih_holds ih eo es l" and ne: "es \<noteq> []"
  shows "\<exists>as m bs. es = as @ m # bs \<and> length as = length es div 2 \<and> ntfs_ie_get_median ih = Some (eo + length (concat as))"
proof -
  let ?k = "length es div 2"
  have k: "?k < length es" using ne by (simp add: div_less_dividend)
  have es: "es = take ?k es @ es ! ?k # drop (Suc ?k) es" using k by (simp add: id_take_nth_drop)
  have "ie_forward ih eo ?k = Some (eo + length (concat (take ?k es)))"
    using forward_entries [of ih eo "take ?k es" "drop ?k es" l] ih_holds_entries [OF h] k by simp
  then have "ntfs_ie_get_median ih = Some (eo + length (concat (take ?k es)))"
    using ih_holds_ends [OF h] median_count_entries [OF ih_holds_entries [OF h], of 0] by (simp add: ntfs_ie_get_median_def)
  then show ?thesis using es k by (metis length_take min.absorb4)
qed

lemma slice_drop: "n \<le> length b \<Longrightarrow> slice (drop n b) p k = slice b (n + p) k"
  by (auto simp: slice_def add.commute)

lemma first_entry_offset_ge: "b < 33553920 \<Longrightarrow> 16 \<le> first_entry_offset b"
  using and_not32_pow2 [of 3 "16 + (b div 512 + 1) * 2 + 7"] by (simp add: first_entry_offset_def)

lemma copy_tail_holds:
  assumes h: "ih_holds (ib_index ib) eo (as @ m # bs) l" and sz: "length ib = n" "512 \<le> n" "n < 33553920"
    and eo: "first_entry_offset n \<le> eo" and v: "0 \<le> new_vcn" "in_s64 new_vcn"
  shows "\<exists>dst. copy_tail_block n ib (eo + length (concat as)) new_vcn = Some dst \<and> length dst = n \<and>
    ih_holds (ib_index dst) (first_entry_offset n) bs l \<and> ntfs_index_block_inconsistent n dst new_vcn = Some 0"
proof -
  let ?t = "concat bs @ l" and ?p = "eo + length (concat as)" and ?f = "first_entry_offset n"
  obtain x s where x: "ib_index ib = x @ concat as @ m @ ?t @ s" "length x = eo" "16 \<le> eo" "entries_ok (as @ m # bs) l"
    using h unfolding ih_holds_parts by auto
  have lib: "length (ib_index ib) = n - 24" using sz by (simp add: ib_index_def)
  have m: "entry_at (ib_index ib) ?p m" using ih_holds_entry [OF h, of as m "bs @ [l]"] by simp
  have "12 + 1 \<le> length (ib_index ib)" using lib sz(2) by linarith
  then obtain fl where fl: "get8 (ib_index ib) 12 = Some fl" unfolding get8_def using get_le_ok by blast
  obtain d0 where d0: "ntfs_ib_alloc new_vcn n (fl AND 1) = Some d0" "length d0 = n" "get_le 4 d0 0 = Some LFS_MAGIC_INDX"
    "get_le 8 d0 16 = Some (nat (new_vcn mod 18446744073709551616))" "get_le 4 d0 24 = Some ?f" "get_le 4 d0 32 = Some (n - 24)"
    using ib_alloc_ok [OF sz(2,3), of new_vcn "fl AND 1"] by auto
  have f16: "16 \<le> ?f" by (rule first_entry_offset_ge [OF sz(3)])
  have ends: "ntfs_ie_get_end (ib_index ib) = Some (?p + length m + length ?t)" using ih_holds_ends [OF h] by simp
  have tail: "slice (ib_index ib) (?p + length m) (length ?t) = Some ?t"
    using slice_parts [of "x @ concat as @ m" ?t s] x(1,2) by (simp add: add.assoc)
  have fit: "?f + length ?t \<le> n - 24" using lib eo x(1,2) by simp
  have "24 + ?f + length ?t \<le> length d0" using fit d0(2) sz(2) by linarith
  then obtain d1 where d1: "blit d0 (24 + ?f) ?t = Some d1" using blit_ok by blast
  have l1: "length d1 = n" using length_blit [OF d1] d0(2) by simp
  have k1: "get_le k d1 q = get_le k d0 q" if "q + k \<le> 40" for k q using get_blit_other [OF d1, of q k] f16 that by simp
  let ?v = "length ?t + ?f"
  have vs: "?v < 4294967296" using fit sz(3) by linarith
  obtain d2 where d2: "put_le 4 d1 28 ?v = Some d2" "length d2 = n" "get_le 4 d2 28 = Some ?v"
    "\<And>q k. q + k \<le> 28 \<or> 32 \<le> q \<Longrightarrow> get_le k d2 q = get_le k d1 q"
    using put_step [of 28 4 d1 ?v] l1 sz(2) vs by auto
  have first: "ntfs_ie_get_first (ib_index d) = get_le 4 d 24" if "length d = n" for d
    using that sz(2) by (simp add: ntfs_ie_get_first_def ib_index_def get_le_drop)
  have "copy_tail_block n ib ?p new_vcn = Some d2"
    unfolding copy_tail_block_def fl bind.bind_lunit d0(1) entry_at_simps(3) [OF m] ends Let_def
    using tail first [OF d0(2)] d0(5) d1 first [OF l1] k1 [of 24 4] d2(1) vs by simp
  moreover have "ih_holds (ib_index d2) ?f bs l"
  proof -
    have "slice d2 (24 + ?f) (length ?t) = slice d1 (24 + ?f) (length ?t)"
      using slice_blit_other [OF d2(1) [unfolded put_le_def], of "24 + ?f" "length ?t"] f16 by simp
    then have sl: "slice (ib_index d2) ?f (length ?t) = Some ?t"
      using slice_blit_same [OF d1 refl] d2(2) sz(2) by (simp add: ib_index_def slice_drop)
    have "get_le 4 (ib_index d2) 0 = Some ?f" "get_le 4 (ib_index d2) 4 = Some ?v"
      using d2(2-4) k1 [of 24 4] d0(5) sz(2) by (simp_all add: ib_index_def get_le_drop)
    then show ?thesis using f16 sl x(4) by (simp add: ih_holds_def entries_ok_def add.commute)
  qed
  moreover have "ntfs_index_block_inconsistent n d2 new_vcn = Some 0"
  proof -
    have "length l \<noteq> 0" using entry_at_simps(8) [OF ih_holds_entry [OF h, of "as @ m # bs" l "[]"]] by simp
    moreover have "u32 (n - 24 + 24) = n" using sz by simp
    ultimately show ?thesis using d2(3) d2(4) [of 0 4] d2(4) [of 16 8] d2(4) [of 24 4] d2(4) [of 32 4] k1 [of 0 4] k1 [of 16 8] k1 [of 24 4] k1 [of 32 4]
        d0(3-6) f16 fit v by (simp add: ntfs_index_block_inconsistent_def Let_def)
  qed
  ultimately show ?thesis using d2(2) by blast
qed

text \<open>The last entry of the left block: it takes over the child of the median.\<close>

definition with_vcn :: "buf \<Rightarrow> buf \<Rightarrow> buf" where
  "with_vcn l m = (if entry_node l then take (length l - 8) l @ drop (length m - 8) m else l)"

lemma with_vcn_ok:
  assumes "entry_ok l" "entry_ok m"
  shows "length (with_vcn l m) = length l" "entry_ok (with_vcn l m)" "entry_flags (with_vcn l m) = entry_flags l"
    "entry_node l \<Longrightarrow> entry_vcn (with_vcn l m) = entry_vcn m"
proof -
  have l: "16 \<le> length l" "16 \<le> length m" "get_le 2 l 8 = Some (length l)" "entry_node l \<Longrightarrow> 24 \<le> length l"
    using assms by (simp_all add: entry_ok_def)
  show len: "length (with_vcn l m) = length l" using l by (auto simp: with_vcn_def)
  have pre: "take 2 (drop n (with_vcn l m)) = take 2 (drop n l)" if "n + 2 \<le> 16" for n
    using l(1,4) that by (auto simp: with_vcn_def drop_take min_def)
  show fl: "entry_flags (with_vcn l m) = entry_flags l" using pre [of 12] by (simp add: entry_flags_def)
  have "get_le 2 (with_vcn l m) 8 = Some (length l)" using pre [of 8] l(1,3) len by (simp add: get_le_def slice_def)
  then show "entry_ok (with_vcn l m)" using l len fl by (simp add: entry_ok_def entry_node_def)
  show "entry_vcn (with_vcn l m) = entry_vcn m" if "entry_node l"
    using that l by (simp add: with_vcn_def entry_vcn_def)
qed

lemma set_vcn_at:
  assumes m: "entry_ok m" and l: "entry_ok l" "entry_node l"
  shows "ntfs_ie_set_vcn (a @ l @ s) (length a) (entry_vcn m) = Some (a @ with_vcn l m @ s)"
proof -
  have at: "entry_at (a @ l @ s) (length a) l" using l(1) by (simp add: entry_at_def slice_parts)
  have len: "24 \<le> length l" "16 \<le> length m" using l m by (simp_all add: entry_ok_def)
  let ?w = "drop (length m - 8) m"
  have w: "length ?w = 8" using len by simp
  have "le_of ?w < 256 ^ 8" using le_of_less [of ?w] w by simp
  then have v: "nat (entry_vcn m mod 18446744073709551616) = le_of ?w"
    by (simp add: entry_vcn_def s64_def mod_diff_left_eq mod_add_left_eq)
  have "put_le 8 (a @ l @ s) (length a + (length l - 8)) (le_of ?w) = Some (a @ (take (length l - 8) l @ ?w) @ s)"
  proof -
    have e: "a @ l @ s = (a @ take (length l - 8) l) @ drop (length l - 8) l @ s" by (metis append.assoc append_take_drop_id)
    have "blit (a @ l @ s) (length (a @ take (length l - 8) l)) ?w = Some ((a @ take (length l - 8) l) @ ?w @ s)"
      unfolding e by (rule blit_parts) (use len w in simp)
    moreover have "length (a @ take (length l - 8) l) = length a + (length l - 8)" using len by simp
    ultimately show ?thesis using w unfolding put_le_def by (simp only: le_bytes_le_of append_assoc)
  qed
  then show ?thesis using l(2) by (simp add: ntfs_ie_set_vcn_def entry_at_vcn_addr [OF at] v with_vcn_def)
qed

lemma cut_tail_holds:
  assumes h: "ih_holds (ib_index ib) eo (as @ m # bs) l" and sz: "24 \<le> length ib" "length ib < 4294967296"
    and fits: "length l \<le> length m"
  shows "\<exists>ib'. cut_tail_block ib (eo + length (concat as)) = Some ib' \<and> length ib' = length ib \<and> take 24 ib' = take 24 ib \<and>
    ih_holds (ib_index ib') eo as (with_vcn l m)"
proof -
  let ?p = "eo + length (concat as)" and ?q = "eo + length (concat (as @ m # bs))" and ?l = "with_vcn l m"
  obtain x s where x: "ib_index ib = x @ concat as @ m @ concat bs @ l @ s" "length x = eo" "16 \<le> eo" "get_le 4 x 0 = Some eo"
    "entries_ok (as @ m # bs) l"
    using h unfolding ih_holds_parts by auto
  have ok: "entry_ok m" "entry_ok l" "entry_end l" using x(5) by (simp_all add: entries_ok_def)
  note wv = with_vcn_ok [OF ok(2,1)]
  note ends = ih_holds_ends [OF h]
  have last: "ntfs_ie_get_last (ib_index ib) eo (eo + length (concat (as @ m # bs) @ l)) = Some ?q"
    by (rule get_last_entries [OF ih_holds_entries [OF h]])
  have at: "entry_at (ib_index ib) ?q l" "entry_at (ib_index ib) ?p m"
    using ih_holds_entry [OF h, of "as @ m # bs" l "[]"] ih_holds_entry [OF h, of as m "bs @ [l]"] by simp_all
  let ?ih1 = "x @ concat as @ m @ concat bs @ ?l @ s"
  have ih1: "(if entry_flags l AND INDEX_ENTRY_NODE \<noteq> 0 then do { v \<leftarrow> ntfs_ie_get_vcn (ib_index ib) ?p; ntfs_ie_set_vcn (ib_index ib) ?q v } else Some (ib_index ib)) = Some ?ih1"
    using set_vcn_at [OF ok(1,2), of "x @ concat as @ m @ concat bs" s] x(2) entry_at_vcn [OF at(2)]
    unfolding x(1) by (auto simp: entry_node_def with_vcn_def)
  have atl: "entry_at ?ih1 ?q ?l" using slice_parts [of "x @ concat as @ m @ concat bs" ?l s] wv(2) x(2) by (simp add: entry_at_def add.assoc)
  let ?r = "drop (length l) (m @ concat bs @ ?l @ s)"
  let ?ih2 = "x @ concat as @ ?l @ ?r"
  have "slice ?ih1 ?q (length l) = Some ?l" using atl wv(1) by (simp add: entry_at_def)
  moreover have "blit ?ih1 ?p ?l = Some ?ih2"
  proof -
    have "m @ concat bs @ ?l @ s = take (length l) (m @ concat bs @ ?l @ s) @ ?r" by (simp only: append_take_drop_id)
    moreover have "length ?l = length (take (length l) (m @ concat bs @ ?l @ s))" using fits wv(1) by simp
    ultimately show ?thesis using blit_parts [of ?l "take (length l) (m @ concat bs @ ?l @ s)" "x @ concat as" ?r] x(2)
      by (metis append.assoc length_append)
  qed
  moreover have "?p + length l \<le> ?q" using fits by simp
  ultimately have cp: "memcpy_within ?ih1 ?p ?q (length l) = Some ?ih2" by (simp add: memcpy_within_def memmove_def)
  have at2: "entry_at ?ih2 ?p ?l" using slice_parts [of "x @ concat as" ?l ?r] wv(2) x(2) by (simp add: entry_at_def)
  let ?v = "length (concat as) + length l + eo"
  have len2: "length ?ih2 = length (ib_index ib)" using fits wv(1) unfolding x(1) by simp
  have lib: "length (ib_index ib) = length ib - 24" by (simp add: ib_index_def)
  have v: "?v < 4294967296" using lib sz x(1,2) by simp
  obtain x' where x': "put_le 4 x 4 ?v = Some x'" "length x' = eo" "get_le 4 x' 0 = Some eo" "get_le 4 x' 4 = Some ?v"
    using put_length [of x eo ?v] x(2-4) v by auto
  let ?ih3 = "x' @ concat as @ ?l @ ?r"
  have p3: "put_le 4 ?ih2 4 (u32 ?v) = Some ?ih3" using put_le_prefix [OF x'(1), of "concat as @ ?l @ ?r"] v by simp
  have diff: "?p - eo = length (concat as)" by simp
  have eo2: "ntfs_ie_get_first ?ih2 = Some eo" using x(2-4) by (simp add: ntfs_ie_get_first_def get_le_prefix)
  have "cut_tail_block ib ?p = Some (take 24 ib @ ?ih3)"
    unfolding cut_tail_block_def Let_def ends [THEN conjunct1] ends [THEN conjunct2] last entry_at_simps(2) [OF at(1)] bind.bind_lunit
    unfolding ih1 bind.bind_lunit entry_at_simps(1) [OF atl] wv(1) cp entry_at_simps(1) [OF at2] eo2 diff p3 by simp
  moreover have "length ?ih3 = length ib - 24" using len2 lib x(2) x'(2) by simp
  moreover have "ih_holds ?ih3 eo as ?l"
    unfolding ih_holds_parts using x' x(3,5) wv ok(3) by (intro exI [of _ x'] exI [of _ ?r]) (simp add: entries_ok_def entry_end_def)
  ultimately show ?thesis using sz(1) by (intro exI [of _ "take 24 ib @ ?ih3"]) (simp add: ib_index_def)
qed

text \<open>
  C12.  Splitting a full index block loses nothing.  For a block that holds at least one entry, the
  median found by \<open>ntfs_ie_get_median\<close> is the entry in the middle; \<open>ntfs_ib_copy_tail\<close> builds a new
  block that the driver accepts when it reads it back (\<open>ntfs_index_block_inconsistent\<close>) and that holds
  exactly the entries behind the median and the last entry; \<open>ntfs_ib_cut_tail\<close> leaves exactly the
  entries before the median and a last entry that points to the median's child.  With the median
  going to the parent, every entry is in one place.
\<close>

theorem split_exact:
  assumes "ih_holds (ib_index ib) eo es l" "es \<noteq> []" "length ib = n" "512 \<le> n" "n < 33553920"
    and "first_entry_offset n \<le> eo" "0 \<le> new_vcn" "in_s64 new_vcn" "\<forall>e\<in>set es. length l \<le> length e"
  shows "\<exists>p as m bs dst ib'. ntfs_ie_get_median (ib_index ib) = Some p \<and> es = as @ m # bs \<and> length as = length es div 2 \<and>
    copy_tail_block n ib p new_vcn = Some dst \<and> length dst = n \<and> ih_holds (ib_index dst) (first_entry_offset n) bs l \<and>
    ntfs_index_block_inconsistent n dst new_vcn = Some 0 \<and>
    cut_tail_block ib p = Some ib' \<and> length ib' = n \<and> take 24 ib' = take 24 ib \<and> ih_holds (ib_index ib') eo as (with_vcn l m) \<and>
    (entry_node l \<longrightarrow> entry_vcn (with_vcn l m) = entry_vcn m)"
proof -
  obtain as m bs where m: "es = as @ m # bs" "length as = length es div 2" "ntfs_ie_get_median (ib_index ib) = Some (eo + length (concat as))"
    using median_entry [OF assms(1,2)] by blast
  have h: "ih_holds (ib_index ib) eo (as @ m # bs) l" using assms(1) m(1) by simp
  have ok: "entry_ok l" "entry_ok m" using h by (simp_all add: ih_holds_def entries_ok_def)
  have fits: "length l \<le> length m" using assms(9) m(1) by simp
  have small: "24 \<le> length ib" "length ib < 4294967296" using assms(3-5) by simp_all
  obtain dst where dst: "copy_tail_block n ib (eo + length (concat as)) new_vcn = Some dst" "length dst = n"
    "ih_holds (ib_index dst) (first_entry_offset n) bs l" "ntfs_index_block_inconsistent n dst new_vcn = Some 0"
    using copy_tail_holds [OF h assms(3-8)] by blast
  obtain ib' where ib': "cut_tail_block ib (eo + length (concat as)) = Some ib'" "length ib' = length ib" "take 24 ib' = take 24 ib"
    "ih_holds (ib_index ib') eo as (with_vcn l m)"
    using cut_tail_holds [OF h small fits] by blast
  have len: "length ib' = n" using ib'(2) assms(3) by simp
  show ?thesis
    by (intro exI [of _ "eo + length (concat as)"] exI [of _ as] exI [of _ m] exI [of _ bs] exI [of _ dst] exI [of _ ib'] conjI impI)
      (rule m dst ib' len with_vcn_ok(4) [OF ok], assumption?)+
qed

definition ex_ib :: buf where
  "ex_ib = replicate 24 0 @ ([24, 0, 0, 0, 88, 0, 0, 0, 232, 1, 0, 0, 0, 0, 0, 0] @ replicate 8 0) @ ex_ent 5 @ ex_ent 7 @ ex_last @ replicate 400 0"

lemma ex_ib_holds: "ih_holds (ib_index ex_ib) 24 [ex_ent 5, ex_ent 7] ex_last"
  unfolding ih_holds_parts
  by (rule exI [of _ "[24, 0, 0, 0, 88, 0, 0, 0, 232, 1, 0, 0, 0, 0, 0, 0] @ replicate 8 0"], rule exI [of _ "replicate 400 0"])
    (simp add: ex_ib_def ib_index_def entries_ok_def get_le_def slice_def)

theorem split_exact_witness:
  "\<exists>p as m bs dst ib'. ntfs_ie_get_median (ib_index ex_ib) = Some p \<and> [ex_ent 5, ex_ent 7] = as @ m # bs \<and>
    copy_tail_block 512 ex_ib p 3 = Some dst \<and> cut_tail_block ex_ib p = Some ib' \<and> ih_holds (ib_index dst) 24 bs ex_last"
proof -
  have f: "first_entry_offset 512 = 24" using and_not32_pow2 [of 3 27] by (simp add: first_entry_offset_def)
  have len: "length ex_ib = 512" by (simp add: ex_ib_def)
  show ?thesis using split_exact [OF ex_ib_holds _ len, of 3] unfolding f by (simp del: split_paired_Ex) blast
qed

section \<open>Where the code relies on more than it checks\<close>

text \<open>
  \<open>ntfs_ie_lookup\<close> checks that an entry lies in the block, not that its key does.  A block with an
  entry of sixteen bytes at its end passes \<open>ntfs_index_block_inconsistent\<close>; comparing its name reads
  behind the block.
\<close>

definition ex_bad_block :: buf where
  "ex_bad_block =
     [0x49, 0x4E, 0x44, 0x58] @ replicate 20 0 @ [216, 1, 0, 0, 232, 1, 0, 0, 232, 1, 0, 0, 0, 0, 0, 0] @ replicate 456 0 @
     [0, 0, 0, 0, 0, 0, 0, 0, 16, 0, 0, 0, 0, 0, 0, 0]"

lemma ie_lookup_overreads:
  "ntfs_index_block_inconsistent 512 ex_bad_block 0 = Some 0"
  "ntfs_ie_lookup (key_collate memcmp upcase COLLATION_FILE_NAME k) (ib_index ex_bad_block) = None"
proof -
  show "ntfs_index_block_inconsistent 512 ex_bad_block 0 = Some 0"
    by (simp add: ntfs_index_block_inconsistent_def ex_bad_block_def get_le_def slice_def Let_def le_of_zeros)
  let ?e = "[0, 0, 0, 0, 0, 0, 0, 0, 16, 0, 0, 0, 0, 0, 0, 0] :: buf"
  have ih: "ib_index ex_bad_block = ([216, 1, 0, 0, 232, 1, 0, 0, 232, 1, 0, 0, 0, 0, 0, 0] @ replicate 456 0) @ ?e @ []"
    by (simp add: ib_index_def ex_bad_block_def)
  have ok: "entry_ok ?e" "\<not> entry_end ?e"
    by (simp_all add: entry_ok_def entry_end_def entry_node_def entry_flags_def get_le_def slice_def)
  have at: "entry_at (ib_index ex_bad_block) 472 ?e"
    using slice_parts [of "[216, 1, 0, 0, 232, 1, 0, 0, 232, 1, 0, 0, 0, 0, 0, 0] @ replicate 456 0" ?e "[]"] ok(1) unfolding ih by (simp add: entry_at_def)
  have kl: "get_le 2 (ib_index ex_bad_block) (472 + 10) = Some 0" using entry_field [OF at, of 10 2] by (simp add: get_le_def slice_def)
  have ends: "ntfs_ie_get_end (ib_index ex_bad_block) = Some 488" "ntfs_ie_get_first (ib_index ex_bad_block) = Some 472"
    unfolding ih by (simp_all add: ntfs_ie_get_end_def ntfs_ie_get_first_def get_le_def slice_def)
  have none: "key_collate memcmp upcase 1 k (drop (472 + 16) (ib_index ex_bad_block)) 0 = None"
    unfolding ih by (simp add: key_collate_def ntfs_collate_def ntfs_collate_file_name_def ntfs_file_compare_values_def
      file_name_of_def get8_def get_le_def slice_def bind_eq_None_conv)
  show "ntfs_ie_lookup (key_collate memcmp upcase COLLATION_FILE_NAME k) (ib_index ex_bad_block) = None"
    using ends entry_at_simps(1,4) [OF at] ok(2) kl none by (simp add: ntfs_ie_lookup_def ie_lookup_loop.simps [of _ _ _ 472])
qed

text \<open>
  \<open>ntfs_collate_binary\<close> passes on what \<open>memcmp\<close> returns, and \<open>ntfs_ie_lookup\<close> tests it for \<open>-1\<close>.  With a
  \<open>memcmp\<close> that returns the difference of the bytes, as C allows, a key that is smaller by two is
  taken for a larger one: the place for 3 is then behind 5.
\<close>

fun diff_memcmp :: c_memcmp where
  "diff_memcmp (x # xs) (y # ys) = (if x = y then diff_memcmp xs ys else int (unat x) - int (unat y))"
| "diff_memcmp _ _ = 0"

lemma binary_lookup_misplaced:
  "ntfs_ie_lookup (key_collate diff_memcmp [] COLLATION_BINARY (entry_key (ex_ent 3))) ex_ih =
     Some \<lparr>lo_err = - ENOENT, lo_vcn = None, lo_ie = Some 40, lo_pos = None\<rparr>"
  "ntfs_ie_lookup (key_collate lex_memcmp [] COLLATION_BINARY (entry_key (ex_ent 3))) ex_ih =
     Some \<lparr>lo_err = - ENOENT, lo_vcn = None, lo_ie = Some 16, lo_pos = None\<rparr>"
proof -
  have ends: "ntfs_ie_get_end ex_ih = Some 56" "ntfs_ie_get_first ex_ih = Some 16"
    using ih_holds_ends [OF ex_ih_holds] by simp_all
  have at: "entry_at ex_ih 16 (ex_ent 5)" "entry_at ex_ih 40 ex_last"
    using ih_holds_entry [OF ex_ih_holds, of "[]" "ex_ent 5" "[ex_last]"] ih_holds_entry [OF ex_ih_holds, of "[ex_ent 5]" ex_last "[]"] by simp_all
  have fl: "entry_flags (ex_ent 5) = 0" "entry_flags ex_last = 2" by (simp_all add: entry_flags_def ex_ent_def ex_last_def)
  have kl: "get_le 2 ex_ih (16 + 10) = Some 4" using entry_field [OF at(1), of 10 2] by (simp add: get_le_def slice_def ex_ent_def)
  have dr: "drop (16 + 16) ex_ih = [5, 0, 0, 0, 0, 0, 0, 0] @ ex_last @ replicate 48 0" by (simp add: ex_ih_def ex_ent_def)
  have c: "key_collate diff_memcmp [] 0 (entry_key (ex_ent 3)) (drop (16 + 16) ex_ih) 4 = Some (- 2)"
    "key_collate lex_memcmp [] 0 (entry_key (ex_ent 3)) (drop (16 + 16) ex_ih) 4 = Some (- 1)"
    unfolding dr by (simp_all add: key_collate_def ntfs_collate_def ntfs_collate_binary_def ex_ent_key(1) slice_def lex_memcmp_def)
  note s = ends entry_at_simps(1-4) [OF at(1)] entry_at_simps(1-4) [OF at(2)] kl c fl
  show "ntfs_ie_lookup (key_collate diff_memcmp [] COLLATION_BINARY (entry_key (ex_ent 3))) ex_ih =
      Some \<lparr>lo_err = - ENOENT, lo_vcn = None, lo_ie = Some 40, lo_pos = None\<rparr>"
    using s by (simp add: ntfs_ie_lookup_def ie_lookup_loop.simps [of _ _ _ 16] ie_lookup_loop.simps [of _ _ _ 40])
  show "ntfs_ie_lookup (key_collate lex_memcmp [] COLLATION_BINARY (entry_key (ex_ent 3))) ex_ih =
      Some \<lparr>lo_err = - ENOENT, lo_vcn = None, lo_ie = Some 16, lo_pos = None\<rparr>"
    using s by (simp add: ntfs_ie_lookup_def ie_lookup_loop.simps [of _ _ _ 16])
qed

end
