(* ===== verification/Index_Tree.thy ===== *)
theory Index_Tree
  imports Index_Block
begin

text \<open>
  The tree of index blocks (core/ntfs/index.c): reading a block, the index context, the lookup of a
  key from the root down and the walk to the next entry.  \<open>index_lookup_correct\<close> shows that the lookup ends, and that it finds
  a key exactly if the tree has it.

  What the attribute layer returns is an argument: \<open>ir\<close> is the value of the index root attribute, if
  it is found; \<open>ia_ok\<close> tells whether the index allocation can be opened; \<open>pread\<close> is its content, \<open>None\<close> if
  not all bytes of the block can be read.  Allocation does not fail.
\<close>

section \<open>The context\<close>

abbreviation (input) VCN_INDEX_ROOT_PARENT :: int where "VCN_INDEX_ROOT_PARENT \<equiv> - 2"
abbreviation (input) MAX_PARENT_VCN :: nat where "MAX_PARENT_VCN \<equiv> 32"
abbreviation (input) EOPNOTSUPP :: int where "EOPNOTSUPP \<equiv> 102"

record icx =
  icx_entry :: "nat option"
  icx_cr :: nat
  icx_data_len :: nat
  icx_is_in_root :: bool
  icx_ir :: "buf option"
  icx_ib :: "buf option"
  icx_parent_pos :: "int list"
  icx_parent_vcn :: "int list"
  icx_pindex :: int
  icx_block_size :: nat
  icx_vcn_size_bits :: nat

definition new_icx :: icx where
  "new_icx = \<lparr>icx_entry = None, icx_cr = 0, icx_data_len = 0, icx_is_in_root = False, icx_ir = None, icx_ib = None,
     icx_parent_pos = replicate MAX_PARENT_VCN 0, icx_parent_vcn = replicate MAX_PARENT_VCN 0, icx_pindex = 0,
     icx_block_size = 0, icx_vcn_size_bits = 0\<rparr>"

text \<open>The fields of the volume that are used.\<close>

record index_vol =
  iv_cluster_size :: nat
  iv_cluster_size_bits :: nat
  iv_sector_size_bits :: nat

text \<open>Writes to the two arrays.\<close>

definition int_arr_set :: "int list \<Rightarrow> int \<Rightarrow> int \<Rightarrow> int list option" where
  "int_arr_set xs i v = (if 0 \<le> i \<and> i < int (length xs) then Some (xs[nat i := v]) else None)"

definition int_arr_get :: "int list \<Rightarrow> int \<Rightarrow> int option" where
  "int_arr_get xs i = (if 0 \<le> i \<and> i < int (length xs) then Some (xs ! nat i) else None)"

definition set_parent_vcn :: "icx \<Rightarrow> int \<Rightarrow> icx option" where
  "set_parent_vcn icx v = do { xs \<leftarrow> int_arr_set (icx_parent_vcn icx) (icx_pindex icx) v; Some (icx\<lparr>icx_parent_vcn := xs\<rparr>) }"

definition set_parent_pos :: "icx \<Rightarrow> int \<Rightarrow> icx option" where
  "set_parent_pos icx v = do { xs \<leftarrow> int_arr_set (icx_parent_pos icx) (icx_pindex icx) v; Some (icx\<lparr>icx_parent_pos := xs\<rparr>) }"

definition ntfs_icx_parent_vcn :: "icx \<Rightarrow> int option" where
  "ntfs_icx_parent_vcn icx = int_arr_get (icx_parent_vcn icx) (icx_pindex icx)"

definition ntfs_icx_parent_pos :: "icx \<Rightarrow> int option" where
  "ntfs_icx_parent_pos icx = int_arr_get (icx_parent_pos icx) (icx_pindex icx)"

definition ntfs_icx_parent_inc :: "icx \<Rightarrow> int \<times> icx" where
  "ntfs_icx_parent_inc icx =
     (if icx_pindex icx \<ge> int MAX_PARENT_VCN - 1 then (- EOPNOTSUPP, icx) else (0, icx\<lparr>icx_pindex := icx_pindex icx + 1\<rparr>))"

definition ntfs_icx_parent_dec :: "icx \<Rightarrow> int \<times> icx" where
  "ntfs_icx_parent_dec icx =
     (let icx = icx\<lparr>icx_pindex := icx_pindex icx - 1\<rparr> in (if icx_pindex icx < 0 then - EINVAL else 0, icx))"

section \<open>Reading and writing blocks\<close>

definition ntfs_ib_vcn_to_pos :: "icx \<Rightarrow> int \<Rightarrow> int" where
  "ntfs_ib_vcn_to_pos icx vcn = s64 (vcn * 2 ^ icx_vcn_size_bits icx)"

definition ntfs_ib_pos_to_vcn :: "icx \<Rightarrow> int \<Rightarrow> int" where
  "ntfs_ib_pos_to_vcn icx pos = pos div 2 ^ icx_vcn_size_bits icx"

type_synonym pread = "int \<Rightarrow> nat \<Rightarrow> buf option"

text \<open>The inner \<open>None\<close> is the result \<open>-1\<close>.\<close>

definition ntfs_ib_read :: "pread \<Rightarrow> icx \<Rightarrow> int \<Rightarrow> buf option option" where
  "ntfs_ib_read pread icx vcn = (case pread (ntfs_ib_vcn_to_pos icx vcn) (icx_block_size icx) of
     None \<Rightarrow> Some None
   | Some dst \<Rightarrow> do {
       (_, dst) \<leftarrow> post_read_mst_fixup dst (icx_block_size icx);
       bad \<leftarrow> ntfs_index_block_inconsistent (icx_block_size icx) dst vcn;
       Some (if bad \<noteq> 0 then None else Some dst) })"

text \<open>
  \<open>pwrite\<close> gives the result of the write and the attribute after it.  The block keeps its fixups
  applied.
\<close>

definition ntfs_ib_write :: "(int \<Rightarrow> nat \<Rightarrow> buf \<Rightarrow> 'd \<Rightarrow> int \<times> 'd) \<Rightarrow> icx \<Rightarrow> buf \<Rightarrow> 'd \<Rightarrow> (int \<times> buf \<times> 'd) option" where
  "ntfs_ib_write pwrite icx ib d = do {
     v \<leftarrow> get_le 8 ib IB_INDEX_BLOCK_VCN;
     (ret, ib) \<leftarrow> pre_write_mst_fixup ib (icx_block_size icx);
     if ret \<noteq> 0 then Some (- EIO, ib, d)
     else do {
       let (ret, d) = pwrite (ntfs_ib_vcn_to_pos icx (s64 (int v))) (icx_block_size icx) ib d;
       Some (if ret \<noteq> int (icx_block_size icx) then ret else 0, ib, d) } }"

definition ntfs_ib_copy_tail :: "(int \<Rightarrow> nat \<Rightarrow> buf \<Rightarrow> 'd \<Rightarrow> int \<times> 'd) \<Rightarrow> icx \<Rightarrow> buf \<Rightarrow> nat \<Rightarrow> int \<Rightarrow> 'd \<Rightarrow> (int \<times> 'd) option" where
  "ntfs_ib_copy_tail pwrite icx src median new_vcn d = do {
     dst \<leftarrow> copy_tail_block (icx_block_size icx) src median new_vcn;
     (ret, _, d) \<leftarrow> ntfs_ib_write pwrite icx dst d;
     Some (ret, d) }"

definition ntfs_ib_cut_tail :: "(int \<Rightarrow> nat \<Rightarrow> buf \<Rightarrow> 'd \<Rightarrow> int \<times> 'd) \<Rightarrow> icx \<Rightarrow> buf \<Rightarrow> nat \<Rightarrow> 'd \<Rightarrow> (int \<times> buf \<times> 'd) option" where
  "ntfs_ib_cut_tail pwrite icx ib ie d = do { ib \<leftarrow> cut_tail_block ib ie; ntfs_ib_write pwrite icx ib d }"

section \<open>Lookup\<close>

definition index_done :: "icx \<Rightarrow> int \<Rightarrow> buf \<Rightarrow> nat option \<Rightarrow> (int \<times> icx) option" where
  "index_done icx err ih ie = do {
     p \<leftarrow> ie;
     kl \<leftarrow> get_le 2 ih (p + IE_KEY_LENGTH);
     Some (err, icx\<lparr>icx_entry := Some p, icx_data_len := kl\<rparr>) }"

definition store_pos :: "icx \<Rightarrow> ie_lookup_out \<Rightarrow> icx option" where
  "store_pos icx r = (case lo_pos r of None \<Rightarrow> Some icx | Some item \<Rightarrow> set_parent_pos icx (int item))"

text \<open>From \<open>descend_into_child_node\<close> on; it ends because \<open>pindex\<close> is bounded.\<close>

function index_descend :: "(buf \<Rightarrow> nat \<Rightarrow> int option) \<Rightarrow> pread \<Rightarrow> int \<Rightarrow> int \<Rightarrow> icx \<Rightarrow> (int \<times> icx) option" where
  "index_descend collate pread old_vcn vcn icx = do {
     icx \<leftarrow> set_parent_vcn icx old_vcn;
     if icx_pindex icx \<ge> int MAX_PARENT_VCN - 1 then Some (- EIO, icx)
     else do {
       let icx = snd (ntfs_icx_parent_inc icx);
       rb \<leftarrow> ntfs_ib_read pread icx vcn;
       case rb of
         None \<Rightarrow> Some (- EIO, icx)
       | Some ib \<Rightarrow> do {
           r \<leftarrow> ntfs_ie_lookup collate (ib_index ib);
           icx \<leftarrow> store_pos icx r;
           let err = lo_err r;
           if err \<noteq> - EAGAIN then
             (if err = - EINVAL \<or> err = - ERANGE then Some (err, icx)
              else do {
                let icx = icx\<lparr>icx_is_in_root := False, icx_ib := Some ib\<rparr>;
                icx \<leftarrow> set_parent_vcn icx vcn;
                index_done icx err (ib_index ib) (lo_ie r) })
           else do {
             fl \<leftarrow> get8 (ib_index ib) IH_FLAGS;
             if fl AND NODE_MASK = LEAF_NODE then Some (err, icx)
             else do { v \<leftarrow> lo_vcn r; index_descend collate pread vcn v icx } } } } }"
  by pat_completeness auto
termination
  by (relation "measure (\<lambda>(c, rd, o1, v, icx). nat (31 - icx_pindex icx))")
    (auto simp: store_pos_def set_parent_pos_def set_parent_vcn_def ntfs_icx_parent_inc_def bind_eq_Some_conv split: option.splits if_splits)

declare index_descend.simps [simp del]

definition ntfs_index_lookup ::
  "c_memcmp \<Rightarrow> nat list \<Rightarrow> index_vol \<Rightarrow> buf option \<Rightarrow> bool \<Rightarrow> pread \<Rightarrow> (buf \<times> nat) option \<Rightarrow> icx \<Rightarrow> (int \<times> icx) option" where
  "ntfs_index_lookup memcmp upcase vol ir_attr ia_ok pread key icx = (case key of
     None \<Rightarrow> Some (- EINVAL, icx)
   | Some k \<Rightarrow> (case ir_attr of
       None \<Rightarrow> Some (- EIO, icx)
     | Some ir \<Rightarrow> do {
         bs \<leftarrow> get_le 4 ir IR_INDEX_BLOCK_SIZE;
         let icx = icx\<lparr>icx_block_size := bs\<rparr>;
         if bs < 512 then Some (- EINVAL, icx)
         else do {
           let icx = icx\<lparr>icx_vcn_size_bits := (if iv_cluster_size vol \<le> bs then iv_cluster_size_bits vol else iv_sector_size_bits vol)\<rparr>;
           cr \<leftarrow> get_le 4 ir IR_COLLATION_RULE;
           let icx = icx\<lparr>icx_cr := cr\<rparr>;
           if \<not> ntfs_is_collation_rule_supported cr then Some (- EOPNOTSUPP, icx)
           else do {
             let collate = ntfs_collate memcmp upcase cr (fst k) (snd k);
             r \<leftarrow> ntfs_ie_lookup collate (drop IR_INDEX_HEADER ir);
             icx \<leftarrow> store_pos icx r;
             let err = lo_err r;
             if err = - ERANGE \<or> err = - EINVAL then Some (err, icx)
             else do {
               let icx = icx\<lparr>icx_ir := Some ir\<rparr>;
               if err \<noteq> - EAGAIN then do {
                 icx \<leftarrow> set_parent_vcn (icx\<lparr>icx_is_in_root := True\<rparr>) VCN_INDEX_ROOT_PARENT;
                 index_done icx err (drop IR_INDEX_HEADER ir) (lo_ie r) }
               else if \<not> ia_ok then Some (- ENOENT, icx)
               else do { v \<leftarrow> lo_vcn r; index_descend collate pread VCN_INDEX_ROOT_PARENT v icx } } } } }))"

section \<open>The tree\<close>

text \<open>
  A node: its entries, its last entry and, unless it is a leaf, one child before each entry and one
  before the last.
\<close>

datatype itree = INode "buf list" buf "itree list"

fun weave :: "'a list list \<Rightarrow> 'a list \<Rightarrow> 'a list" where
  "weave (x # xs) (e # es) = x @ e # weave xs es"
| "weave (x # xs) [] = x"
| "weave [] es = []"

fun inorder :: "itree \<Rightarrow> buf list" where
  "inorder (INode es l cs) = (if cs = [] then es else weave (map inorder cs) es)"

text \<open>
  The tree of depth at most \<open>d\<close> below the header \<open>ih\<close>, where \<open>rd\<close> reads a block: leaves have no child
  pointers, other nodes say so in their flags and have a child for every entry.
\<close>

inductive tree_at :: "(int \<Rightarrow> buf option) \<Rightarrow> nat \<Rightarrow> buf \<Rightarrow> itree \<Rightarrow> bool" for rd where
  leaf: "ih_holds ih eo es l \<Longrightarrow> \<forall>e\<in>set (es @ [l]). \<not> entry_node e \<Longrightarrow> tree_at rd d ih (INode es l [])"
| node: "ih_holds ih eo es l \<Longrightarrow> length cs = Suc (length es) \<Longrightarrow> get8 ih IH_FLAGS = Some fl \<Longrightarrow> fl AND NODE_MASK \<noteq> LEAF_NODE \<Longrightarrow>
    \<forall>i<length cs. entry_node ((es @ [l]) ! i) \<and> 0 \<le> entry_vcn ((es @ [l]) ! i) \<and>
      (\<exists>ib. rd (entry_vcn ((es @ [l]) ! i)) = Some ib \<and> tree_at rd d (ib_index ib) (cs ! i)) \<Longrightarrow>
    tree_at rd (Suc d) ih (INode es l cs)"

inductive_cases tree_atE: "tree_at rd d ih t"

text \<open>The child at a place, with what lies left and right of it.\<close>

lemma weave_split:
  "length xs = Suc (length (as @ bs)) \<Longrightarrow>
   \<exists>L R. weave xs (as @ bs) = L @ xs ! length as @ R \<and> (as = [] \<longrightarrow> L = []) \<and> (as \<noteq> [] \<longrightarrow> (\<exists>L'. L = L' @ [last as])) \<and>
         (bs = [] \<longrightarrow> R = []) \<and> (\<forall>b bs'. bs = b # bs' \<longrightarrow> (\<exists>R'. R = b # R'))"
proof (induction as arbitrary: xs)
  case Nil
  then obtain x ys where "xs = x # ys" by (cases xs) auto
  then show ?case by (cases bs) auto
next
  case (Cons a as)
  then obtain x ys where x: "xs = x # ys" "length ys = Suc (length (as @ bs))" by (cases xs) auto
  obtain L R where LR: "weave ys (as @ bs) = L @ ys ! length as @ R" "as = [] \<longrightarrow> L = []" "as \<noteq> [] \<longrightarrow> (\<exists>L'. L = L' @ [last as])"
    "bs = [] \<longrightarrow> R = []" "\<forall>b bs'. bs = b # bs' \<longrightarrow> (\<exists>R'. R = b # R')"
    using Cons.IH [OF x(2)] by blast
  have "\<exists>L'. x @ a # L = L' @ [last (a # as)]" using LR(2,3) by (cases "as = []") auto
  then show ?case using LR x(1) by (intro exI [of _ "x @ a # L"] exI [of _ R]) simp
qed

lemma set_weave: "length xs = Suc (length es) \<Longrightarrow> set es \<subseteq> set (weave xs es)"
  by (induction xs es rule: weave.induct) auto

lemma keys_sorted_append:
  "keys_sorted memcmp upcase cr n (as @ bs) \<longleftrightarrow>
   keys_sorted memcmp upcase cr n as \<and> keys_sorted memcmp upcase cr n bs \<and>
   (\<forall>a\<in>set as. \<forall>b\<in>set bs. index_cmp memcmp upcase cr (entry_key a) (entry_key b) = Some (- 1))"
  by (auto simp: keys_sorted_def sorted_wrt_append)

definition has_key :: "nat list \<Rightarrow> nat \<Rightarrow> buf \<times> nat \<Rightarrow> buf list \<Rightarrow> bool" where
  "has_key upcase cr k es \<longleftrightarrow> (\<exists>e\<in>set es. index_key_value upcase cr (entry_key e) = index_key_value upcase cr k)"

lemma has_key_append: "has_key upcase cr k (as @ bs) \<longleftrightarrow> has_key upcase cr k as \<or> has_key upcase cr k bs"
  by (auto simp: has_key_def)

text \<open>Left of a smaller entry and right of a larger one the key does not occur.\<close>

lemma no_key_left:
  assumes s: "keys_sorted memcmp upcase cr n (L @ [a])" and m: "memcmp_for cr memcmp" and k: "index_key upcase cr n k"
    and c: "cmp_key memcmp upcase cr k a = Some 1"
  shows "\<not> has_key upcase cr k (L @ [a])"
proof
  let ?K = "index_keys memcmp upcase cr n"
  assume "has_key upcase cr k (L @ [a])"
  then obtain e where e: "e \<in> set (L @ [a])" "index_key_value upcase cr (entry_key e) = index_key_value upcase cr k"
    unfolding has_key_def by blast
  have mem: "k \<in> ?K" "entry_key a \<in> ?K" "entry_key e \<in> ?K" using s m k e(1) by (auto simp: keys_sorted_def index_keys_def)
  have ak: "index_cmp memcmp upcase cr (entry_key a) k = Some (- 1)" using idx.cmp_swap [OF mem(1,2)] c by (simp add: cmp_key_def)
  have ek: "index_cmp memcmp upcase cr (entry_key e) k = Some 0" using idx.cmp_eq [OF mem(3,1)] e(2) by blast
  show False
  proof (cases "e = a")
    case False
    then have "index_cmp memcmp upcase cr (entry_key e) (entry_key a) = Some (- 1)"
      using s e(1) by (auto simp: keys_sorted_append)
    then show False using idx.cmp_trans [OF mem(3,2,1) _ ak] ek by simp
  qed (use ak ek in simp)
qed

lemma no_key_right:
  assumes s: "keys_sorted memcmp upcase cr n (b # R)" and m: "memcmp_for cr memcmp" and k: "index_key upcase cr n k"
    and c: "cmp_key memcmp upcase cr k b = Some (- 1)"
  shows "\<not> has_key upcase cr k (b # R)"
proof
  let ?K = "index_keys memcmp upcase cr n"
  assume "has_key upcase cr k (b # R)"
  then obtain e where e: "e \<in> set (b # R)" "index_key_value upcase cr (entry_key e) = index_key_value upcase cr k"
    unfolding has_key_def by blast
  have mem: "k \<in> ?K" "entry_key b \<in> ?K" "entry_key e \<in> ?K" using s m k e(1) by (auto simp: keys_sorted_def index_keys_def)
  have kb: "index_cmp memcmp upcase cr k (entry_key b) = Some (- 1)" using c by (simp add: cmp_key_def)
  have ke: "index_cmp memcmp upcase cr k (entry_key e) = Some 0" using idx.cmp_eq [OF mem(1,3)] e(2) by metis
  show False
  proof (cases "e = b")
    case False
    then have "index_cmp memcmp upcase cr (entry_key b) (entry_key e) = Some (- 1)"
      using s e(1) by (auto simp: keys_sorted_def)
    then show False using idx.cmp_trans [OF mem kb] ke by simp
  qed (use kb ke in simp)
qed

lemma has_key_child:
  assumes s: "keys_sorted memcmp upcase cr n (L @ C @ R)" and m: "memcmp_for cr memcmp" and k: "index_key upcase cr n k"
    and L: "L = [] \<or> (\<exists>L' a. L = L' @ [a] \<and> cmp_key memcmp upcase cr k a = Some 1)"
    and R: "R = [] \<or> (\<exists>b R'. R = b # R' \<and> cmp_key memcmp upcase cr k b = Some (- 1))"
  shows "keys_sorted memcmp upcase cr n C" "has_key upcase cr k (L @ C @ R) \<longleftrightarrow> has_key upcase cr k C"
proof -
  have ss: "keys_sorted memcmp upcase cr n L" "keys_sorted memcmp upcase cr n C" "keys_sorted memcmp upcase cr n R"
    using s by (simp_all add: keys_sorted_append)
  have "\<not> has_key upcase cr k L" using L no_key_left [OF _ m k] ss(1) by (auto simp: has_key_def)
  moreover have "\<not> has_key upcase cr k R" using R no_key_right [OF _ m k] ss(3) by (auto simp: has_key_def)
  ultimately show "has_key upcase cr k (L @ C @ R) \<longleftrightarrow> has_key upcase cr k C" by (simp add: has_key_append)
  show "keys_sorted memcmp upcase cr n C" by (rule ss)
qed

text \<open>
  What the lookup in one node gives: the entry, the place in a leaf, or the child in which the search
  goes on.
\<close>

definition step_match :: "nat list \<Rightarrow> nat \<Rightarrow> buf \<times> nat \<Rightarrow> buf \<Rightarrow> itree \<Rightarrow> ie_lookup_out \<Rightarrow> bool" where
  "step_match upcase cr k ih t r \<longleftrightarrow> lo_err r = 0 \<and> (\<exists>p i e. lo_ie r = Some p \<and> lo_pos r = Some i \<and> entry_at ih p e \<and> e \<in> set (inorder t) \<and>
     index_key_value upcase cr (entry_key e) = index_key_value upcase cr k)"

definition step_none :: "nat list \<Rightarrow> nat \<Rightarrow> buf \<times> nat \<Rightarrow> buf \<Rightarrow> itree \<Rightarrow> ie_lookup_out \<Rightarrow> bool" where
  "step_none upcase cr k ih t r \<longleftrightarrow> lo_err r = - ENOENT \<and> lo_pos r = None \<and> (\<exists>p e. lo_ie r = Some p \<and> entry_at ih p e) \<and> \<not> has_key upcase cr k (inorder t)"

definition step_child ::
  "(int \<Rightarrow> buf option) \<Rightarrow> c_memcmp \<Rightarrow> nat list \<Rightarrow> nat \<Rightarrow> nat \<Rightarrow> buf \<times> nat \<Rightarrow> nat \<Rightarrow> buf \<Rightarrow> itree \<Rightarrow> ie_lookup_out \<Rightarrow> bool" where
  "step_child rd memcmp upcase cr n k d ih t r \<longleftrightarrow> lo_err r = - EAGAIN \<and>
     (\<exists>i v ib c d' fl. lo_pos r = Some i \<and> lo_vcn r = Some v \<and> rd v = Some ib \<and> d = Suc d' \<and> tree_at rd d' (ib_index ib) c \<and>
        get8 ih IH_FLAGS = Some fl \<and> fl AND NODE_MASK \<noteq> LEAF_NODE \<and> keys_sorted memcmp upcase cr n (inorder c) \<and>
        set (inorder c) \<subseteq> set (inorder t) \<and> (has_key upcase cr k (inorder t) \<longleftrightarrow> has_key upcase cr k (inorder c)))"

lemma step_match_block:
  assumes h: "ih_holds ih eo (as @ e # bs) l" and t: "set (as @ e # bs) \<subseteq> set (inorder t)"
    and s: "keys_sorted memcmp upcase cr n (inorder t)" and m: "memcmp_for cr memcmp" and k: "index_key upcase cr n k"
    and c: "\<forall>a\<in>set as. cmp_key memcmp upcase cr k a = Some 1" "cmp_key memcmp upcase cr k e = Some 0"
  shows "\<exists>r. ntfs_ie_lookup (key_collate memcmp upcase cr k) ih = Some r \<and> step_match upcase cr k ih t r"
proof -
  have es: "\<forall>e\<in>set (as @ e # bs). index_key upcase cr n (entry_key e)" using s t by (auto simp: keys_sorted_def)
  have "index_key_value upcase cr (entry_key e) = index_key_value upcase cr k" using cmp_key_eq [OF m k, of e] es c(2) by simp
  moreover have "entry_at ih (eo + length (concat as)) e" using ih_holds_entry [OF h, of as e "bs @ [l]"] by simp
  ultimately show ?thesis using ie_lookup_match [OF h m k es c] t by (auto simp: step_match_def)
qed

lemma leaf_step:
  assumes h: "ih_holds ih eo es l" and nn: "\<forall>e\<in>set (es @ [l]). \<not> entry_node e"
    and s: "keys_sorted memcmp upcase cr n es" and m: "memcmp_for cr memcmp" and k: "index_key upcase cr n k"
  shows "\<exists>r. ntfs_ie_lookup (key_collate memcmp upcase cr k) ih = Some r \<and>
    (step_match upcase cr k ih (INode es l []) r \<or> step_none upcase cr k ih (INode es l []) r)"
proof -
  have es: "\<forall>e\<in>set es. index_key upcase cr n (entry_key e)" using s by (simp add: keys_sorted_def)
  show ?thesis
  proof (rule split_at_key [OF m k es, where l = l])
    fix as e bs
    assume a: "es = as @ e # bs" "\<forall>a\<in>set as. cmp_key memcmp upcase cr k a = Some 1" "cmp_key memcmp upcase cr k e = Some 0"
    have "set (as @ e # bs) \<subseteq> set (inorder (INode es l []))" "keys_sorted memcmp upcase cr n (inorder (INode es l []))"
      using a(1) s by simp_all
    then show ?thesis using step_match_block [OF h [unfolded a(1)] _ _ m k a(2,3)] by blast
  next
    fix as e bs
    assume a: "es @ [l] = as @ e # bs" "\<forall>a\<in>set as. cmp_key memcmp upcase cr k a = Some 1"
      "bs \<noteq> [] \<Longrightarrow> cmp_key memcmp upcase cr k e = Some (- 1)"
    obtain ds where ds: "es = as @ ds" "ds = [] \<or> (\<exists>R. ds = e # R \<and> cmp_key memcmp upcase cr k e = Some (- 1))"
      using a(1,3) by (cases bs rule: rev_cases) auto
    have L: "as = [] \<or> (\<exists>L' a. as = L' @ [a] \<and> cmp_key memcmp upcase cr k a = Some 1)" using a(2) by (cases as rule: rev_cases) auto
    have "\<not> has_key upcase cr k es"
      using has_key_child(2) [of memcmp upcase cr n as "[]" ds k] L ds s m k by (auto simp: has_key_def)
    moreover have "entry_at ih (eo + length (concat as)) e" by (rule ih_holds_entry [OF h a(1)])
    moreover have "\<not> entry_node e" using nn a(1) by simp
    ultimately show ?thesis using ie_lookup_break [OF h m k es a] by (auto simp: step_none_def break_out_def)
  qed
qed

lemma node_step:
  assumes h: "ih_holds ih eo es l" and len: "length cs = Suc (length es)" and fl: "get8 ih IH_FLAGS = Some fl" "fl AND NODE_MASK \<noteq> LEAF_NODE"
    and ch: "\<forall>i<length cs. entry_node ((es @ [l]) ! i) \<and> 0 \<le> entry_vcn ((es @ [l]) ! i) \<and>
      (\<exists>ib. rd (entry_vcn ((es @ [l]) ! i)) = Some ib \<and> tree_at rd d (ib_index ib) (cs ! i))"
    and s: "keys_sorted memcmp upcase cr n (inorder (INode es l cs))" and m: "memcmp_for cr memcmp" and k: "index_key upcase cr n k"
  shows "\<exists>r. ntfs_ie_lookup (key_collate memcmp upcase cr k) ih = Some r \<and>
    (step_match upcase cr k ih (INode es l cs) r \<or> step_child rd memcmp upcase cr n k (Suc d) ih (INode es l cs) r)"
proof -
  have ne: "cs \<noteq> []" using len by auto
  have io: "inorder (INode es l cs) = weave (map inorder cs) es" using ne by simp
  have sub: "set es \<subseteq> set (inorder (INode es l cs))" unfolding io using set_weave [of "map inorder cs" es] len by simp
  have es: "\<forall>e\<in>set es. index_key upcase cr n (entry_key e)" using s sub by (auto simp: keys_sorted_def)
  show ?thesis
  proof (rule split_at_key [OF m k es, where l = l])
    fix as e bs
    assume a: "es = as @ e # bs" "\<forall>a\<in>set as. cmp_key memcmp upcase cr k a = Some 1" "cmp_key memcmp upcase cr k e = Some 0"
    show ?thesis using step_match_block [OF h [unfolded a(1)] sub [unfolded a(1)] s [unfolded a(1)] m k a(2,3)] unfolding a(1) by blast
  next
    fix as e bs
    assume a: "es @ [l] = as @ e # bs" "\<forall>a\<in>set as. cmp_key memcmp upcase cr k a = Some 1"
      "bs \<noteq> [] \<Longrightarrow> cmp_key memcmp upcase cr k e = Some (- 1)"
    obtain ds where ds: "es = as @ ds" "ds = [] \<or> (\<exists>R. ds = e # R \<and> cmp_key memcmp upcase cr k e = Some (- 1))"
      using a(1,3) by (cases bs rule: rev_cases) auto
    let ?i = "length as"
    have i: "?i < length cs" "(es @ [l]) ! ?i = e" using a(1) len ds(1) by (simp_all add: nth_append)
    obtain ib where c: "entry_node e" "0 \<le> entry_vcn e" "rd (entry_vcn e) = Some ib" "tree_at rd d (ib_index ib) (cs ! ?i)"
      using ch i by force
    obtain L R where LR: "weave (map inorder cs) es = L @ inorder (cs ! ?i) @ R" "as = [] \<longrightarrow> L = []" "as \<noteq> [] \<longrightarrow> (\<exists>L'. L = L' @ [last as])"
      "ds = [] \<longrightarrow> R = []" "\<forall>b bs'. ds = b # bs' \<longrightarrow> (\<exists>R'. R = b # R')"
      using weave_split [of "map inorder cs" as ds] len ds(1) i(1) by auto
    have L: "L = [] \<or> (\<exists>L' a. L = L' @ [a] \<and> cmp_key memcmp upcase cr k a = Some 1)" using LR(2,3) a(2) by (cases "as = []") auto
    have R: "R = [] \<or> (\<exists>b R'. R = b # R' \<and> cmp_key memcmp upcase cr k b = Some (- 1))" using LR(4,5) ds(2) by auto
    have sL: "keys_sorted memcmp upcase cr n (L @ inorder (cs ! ?i) @ R)" using s unfolding io LR(1) .
    note hc = has_key_child [OF sL m k L R]
    have "step_child rd memcmp upcase cr n k (Suc d) ih (INode es l cs) (break_out (eo + length (concat as)) (length as) e)"
      unfolding step_child_def io LR(1) using c fl hc by (auto simp: break_out_def)
    then show ?thesis using ie_lookup_break [OF h m k es a] by blast
  qed
qed

lemma tree_step:
  assumes "tree_at rd d ih t" "keys_sorted memcmp upcase cr n (inorder t)" "memcmp_for cr memcmp" "index_key upcase cr n k"
  shows "\<exists>r. ntfs_ie_lookup (key_collate memcmp upcase cr k) ih = Some r \<and>
    (step_match upcase cr k ih t r \<or> step_none upcase cr k ih t r \<or> step_child rd memcmp upcase cr n k d ih t r)"
  using assms(1)
proof (cases rule: tree_at.cases)
  case (leaf eo es l)
  then show ?thesis using leaf_step [OF leaf(2,3) _ assms(3,4)] assms(2) by auto
next
  case (node eo es l cs fl d')
  then show ?thesis using node_step [OF node(3-7) _ assms(3,4)] assms(2) by blast
qed
section \<open>The lookup finds the key\<close>

text \<open>The blocks as \<open>ntfs_ib_read\<close> returns them.\<close>

definition index_rd :: "pread \<Rightarrow> icx \<Rightarrow> int \<Rightarrow> buf option" where
  "index_rd pread icx v = (case ntfs_ib_read pread icx v of Some (Some ib) \<Rightarrow> Some ib | _ \<Rightarrow> None)"

lemma index_rd_Some: "index_rd pread icx v = Some ib \<longleftrightarrow> ntfs_ib_read pread icx v = Some (Some ib)"
  by (auto simp: index_rd_def split: option.splits)

definition icx_ok :: "icx \<Rightarrow> bool" where
  "icx_ok icx \<longleftrightarrow> length (icx_parent_pos icx) = MAX_PARENT_VCN \<and> length (icx_parent_vcn icx) = MAX_PARENT_VCN \<and>
     0 \<le> icx_pindex icx \<and> icx_pindex icx < int MAX_PARENT_VCN"

definition same_geometry :: "icx \<Rightarrow> icx \<Rightarrow> bool" where
  "same_geometry icx icx' \<longleftrightarrow> icx_block_size icx' = icx_block_size icx \<and> icx_vcn_size_bits icx' = icx_vcn_size_bits icx"

lemma ib_read_geometry: "same_geometry icx icx' \<Longrightarrow> ntfs_ib_read pread icx' v = ntfs_ib_read pread icx v"
  by (simp add: ntfs_ib_read_def ntfs_ib_vcn_to_pos_def same_geometry_def cong: option.case_cong)

lemma set_parent_vcn_ok:
  "icx_ok icx \<Longrightarrow> \<exists>icx'. set_parent_vcn icx v = Some icx' \<and> icx_ok icx' \<and> same_geometry icx icx' \<and> icx_pindex icx' = icx_pindex icx \<and>
     icx_ib icx' = icx_ib icx \<and> icx_is_in_root icx' = icx_is_in_root icx \<and> icx_ir icx' = icx_ir icx"
  by (simp add: set_parent_vcn_def int_arr_set_def icx_ok_def same_geometry_def)

lemma store_pos_ok:
  "icx_ok icx \<Longrightarrow> \<exists>icx'. store_pos icx r = Some icx' \<and> icx_ok icx' \<and> same_geometry icx icx' \<and> icx_pindex icx' = icx_pindex icx \<and>
     icx_ir icx' = icx_ir icx"
  by (cases "lo_pos r") (simp_all add: store_pos_def set_parent_pos_def int_arr_set_def icx_ok_def same_geometry_def)

text \<open>The memory the context describes, and what a lookup among given entries returns.\<close>

definition icx_header :: "icx \<Rightarrow> buf" where
  "icx_header icx = (if icx_is_in_root icx then drop IR_INDEX_HEADER (the (icx_ir icx)) else ib_index (the (icx_ib icx)))"

definition lookup_result :: "nat list \<Rightarrow> nat \<Rightarrow> buf \<times> nat \<Rightarrow> buf list \<Rightarrow> int \<times> icx \<Rightarrow> bool" where
  "lookup_result upcase cr k es = (\<lambda>(err, icx).
     (err = 0 \<and> has_key upcase cr k es \<and>
       (\<exists>p e. icx_entry icx = Some p \<and> e \<in> set es \<and> index_key_value upcase cr (entry_key e) = index_key_value upcase cr k \<and>
              entry_at (icx_header icx) p e)) \<or>
     (err = - ENOENT \<and> \<not> has_key upcase cr k es))"

lemma lookup_result_mono:
  "lookup_result upcase cr k es x \<Longrightarrow> set es \<subseteq> set es' \<Longrightarrow> (has_key upcase cr k es' \<longleftrightarrow> has_key upcase cr k es) \<Longrightarrow> lookup_result upcase cr k es' x"
  unfolding lookup_result_def by (cases x) auto

lemma index_done_match:
  assumes "step_match upcase cr k ih t r" "icx_header icx = ih"
  shows "\<exists>x. index_done icx 0 ih (lo_ie r) = Some x \<and> lookup_result upcase cr k (inorder t) x"
proof -
  obtain p e where e: "lo_ie r = Some p" "entry_at ih p e" "e \<in> set (inorder t)" "index_key_value upcase cr (entry_key e) = index_key_value upcase cr k"
    using assms(1) by (auto simp: step_match_def)
  obtain kl where "get_le 2 ih (p + 10) = Some kl"
    using get_le_ok [of "p + 10" 2 ih] entry_at_simps(5,7) [OF e(2)] by auto
  then have "index_done icx 0 ih (lo_ie r) = Some (0, icx\<lparr>icx_entry := Some p, icx_data_len := kl\<rparr>)" by (simp add: index_done_def e(1))
  then show ?thesis using e assms(2) by (auto simp: lookup_result_def has_key_def icx_header_def)
qed

lemma index_done_none:
  assumes "step_none upcase cr k ih t r"
  shows "\<exists>x. index_done icx (- ENOENT) ih (lo_ie r) = Some x \<and> lookup_result upcase cr k (inorder t) x"
proof -
  obtain p e where e: "lo_ie r = Some p" "entry_at ih p e" "\<not> has_key upcase cr k (inorder t)" using assms by (auto simp: step_none_def)
  obtain kl where "get_le 2 ih (p + 10) = Some kl"
    using get_le_ok [of "p + 10" 2 ih] entry_at_simps(5,7) [OF e(2)] by auto
  then show ?thesis using e(1,3) by (simp add: index_done_def lookup_result_def)
qed

text \<open>One level of the descent.\<close>

lemma index_descend_step:
  assumes "icx_ok icx" "icx_pindex icx < 31" "ntfs_ib_read pread icx vcn = Some (Some ib)" "ntfs_ie_lookup collate (ib_index ib) = Some r"
  obtains icx2 where "icx_ok icx2" "same_geometry icx icx2" "icx_pindex icx2 = icx_pindex icx + 1"
    "index_descend collate pread old_vcn vcn icx =
       (let err = lo_err r in
        if err \<noteq> - EAGAIN then
          (if err = - EINVAL \<or> err = - ERANGE then Some (err, icx2)
           else do { icx \<leftarrow> set_parent_vcn (icx2\<lparr>icx_is_in_root := False, icx_ib := Some ib\<rparr>) vcn; index_done icx err (ib_index ib) (lo_ie r) })
        else do {
          fl \<leftarrow> get8 (ib_index ib) IH_FLAGS;
          if fl AND NODE_MASK = LEAF_NODE then Some (err, icx2)
          else do { v \<leftarrow> lo_vcn r; index_descend collate pread vcn v icx2 } })"
proof -
  obtain icx1 where i1: "set_parent_vcn icx old_vcn = Some icx1" "icx_ok icx1" "same_geometry icx icx1" "icx_pindex icx1 = icx_pindex icx"
    using set_parent_vcn_ok [OF assms(1)] by blast
  let ?icx = "icx1\<lparr>icx_pindex := icx_pindex icx1 + 1\<rparr>"
  have inc: "ntfs_icx_parent_inc icx1 = (0, ?icx)" using assms(2) i1(4) by (simp add: ntfs_icx_parent_inc_def)
  have ok: "icx_ok ?icx" "same_geometry icx ?icx" using i1 assms(2) by (simp_all add: icx_ok_def same_geometry_def)
  obtain icx2 where i2: "store_pos ?icx r = Some icx2" "icx_ok icx2" "same_geometry ?icx icx2" "icx_pindex icx2 = icx_pindex icx + 1"
    using store_pos_ok [OF ok(1)] i1(4) by auto
  have rd: "ntfs_ib_read pread ?icx vcn = Some (Some ib)" using ib_read_geometry [OF ok(2)] assms(3) by simp
  have sg: "same_geometry icx icx2" using i2(3) ok(2) by (simp add: same_geometry_def)
  show thesis
  proof (rule that [OF i2(2) sg i2(4)])
    show "index_descend collate pread old_vcn vcn icx =
       (let err = lo_err r in
        if err \<noteq> - EAGAIN then
          (if err = - EINVAL \<or> err = - ERANGE then Some (err, icx2)
           else do { icx \<leftarrow> set_parent_vcn (icx2\<lparr>icx_is_in_root := False, icx_ib := Some ib\<rparr>) vcn; index_done icx err (ib_index ib) (lo_ie r) })
        else do {
          fl \<leftarrow> get8 (ib_index ib) IH_FLAGS;
          if fl AND NODE_MASK = LEAF_NODE then Some (err, icx2)
          else do { v \<leftarrow> lo_vcn r; index_descend collate pread vcn v icx2 } })"
      unfolding index_descend.simps [of collate pread old_vcn] i1(1) bind.bind_lunit Let_def inc snd_conv rd option.case assms(4) i2(1)
      using assms(2) i1(4) by simp
  qed
qed

lemma index_descend_correct:
  assumes "tree_at (index_rd pread icx0) d (ib_index ib) t" "index_rd pread icx0 v = Some ib" "same_geometry icx0 icx"
    and "icx_ok icx" "icx_pindex icx + int d < 31"
    and "keys_sorted memcmp upcase cr n (inorder t)" "memcmp_for cr memcmp" "index_key upcase cr n k"
  shows "\<exists>x. index_descend (key_collate memcmp upcase cr k) pread old_vcn v icx = Some x \<and> lookup_result upcase cr k (inorder t) x"
  using assms(1-6)
proof (induction d arbitrary: ib t v icx old_vcn rule: less_induct)
  case (less d)
  let ?c = "key_collate memcmp upcase cr k"
  obtain r where r: "ntfs_ie_lookup ?c (ib_index ib) = Some r"
    "step_match upcase cr k (ib_index ib) t r \<or> step_none upcase cr k (ib_index ib) t r \<or>
     step_child (index_rd pread icx0) memcmp upcase cr n k d (ib_index ib) t r"
    using tree_step [OF less.prems(1,6) assms(7,8)] by blast
  have rd: "ntfs_ib_read pread icx v = Some (Some ib)"
    using less.prems(2) ib_read_geometry [OF less.prems(3)] by (simp add: index_rd_Some)
  have pi: "icx_pindex icx < 31" using less.prems(5) by simp
  obtain icx2 where i2: "icx_ok icx2" "same_geometry icx icx2" "icx_pindex icx2 = icx_pindex icx + 1"
    "index_descend ?c pread old_vcn v icx =
       (let err = lo_err r in
        if err \<noteq> - EAGAIN then
          (if err = - EINVAL \<or> err = - ERANGE then Some (err, icx2)
           else do { icx \<leftarrow> set_parent_vcn (icx2\<lparr>icx_is_in_root := False, icx_ib := Some ib\<rparr>) v; index_done icx err (ib_index ib) (lo_ie r) })
        else do {
          fl \<leftarrow> get8 (ib_index ib) IH_FLAGS;
          if fl AND NODE_MASK = LEAF_NODE then Some (err, icx2)
          else do { w \<leftarrow> lo_vcn r; index_descend ?c pread v w icx2 } })"
    using index_descend_step [OF less.prems(4) pi rd r(1)] by metis
  have "icx_ok (icx2\<lparr>icx_is_in_root := False, icx_ib := Some ib\<rparr>)" using i2(1) by (simp add: icx_ok_def)
  then obtain icx3 where i3: "set_parent_vcn (icx2\<lparr>icx_is_in_root := False, icx_ib := Some ib\<rparr>) v = Some icx3" "icx_header icx3 = ib_index ib"
    using set_parent_vcn_ok by (fastforce simp: icx_header_def)
  from r(2) show ?case
  proof (elim disjE)
    assume s: "step_match upcase cr k (ib_index ib) t r"
    then have "lo_err r = 0" by (simp add: step_match_def)
    then show ?thesis using index_done_match [OF s i3(2)] i2(4) i3(1) by simp
  next
    assume s: "step_none upcase cr k (ib_index ib) t r"
    then have "lo_err r = - 2" by (simp add: step_none_def)
    then show ?thesis using index_done_none [OF s, of icx3] i2(4) i3(1) by simp
  next
    assume s: "step_child (index_rd pread icx0) memcmp upcase cr n k d (ib_index ib) t r"
    then obtain w ib' c d' fl where c: "lo_err r = - 35" "lo_vcn r = Some w" "index_rd pread icx0 w = Some ib'" "d = Suc d'"
      "tree_at (index_rd pread icx0) d' (ib_index ib') c" "get8 (ib_index ib) 12 = Some fl" "fl AND 1 \<noteq> 0"
      "keys_sorted memcmp upcase cr n (inorder c)" "set (inorder c) \<subseteq> set (inorder t)"
      "has_key upcase cr k (inorder t) \<longleftrightarrow> has_key upcase cr k (inorder c)"
      unfolding step_child_def by blast
    have g: "same_geometry icx0 icx2" using less.prems(3) i2(2) by (simp add: same_geometry_def)
    obtain x where "index_descend ?c pread v w icx2 = Some x" "lookup_result upcase cr k (inorder c) x"
      using less.IH [of d', OF _ c(5,3) g i2(1) _ c(8), of v] c(4) i2(3) less.prems(5) by auto
    then show ?thesis using i2(4) c(1,2,6,7) lookup_result_mono [OF _ c(9,10)] by simp
  qed
qed
text \<open>The context while a lookup runs: the geometry is that of the root and the volume.\<close>

definition lookup_icx :: "index_vol \<Rightarrow> nat \<Rightarrow> nat \<Rightarrow> icx \<Rightarrow> icx" where
  "lookup_icx vol bs cr icx = icx\<lparr>icx_block_size := bs,
     icx_vcn_size_bits := (if iv_cluster_size vol \<le> bs then iv_cluster_size_bits vol else iv_sector_size_bits vol), icx_cr := cr\<rparr>"

lemma index_key_supported: "index_key upcase cr n k \<Longrightarrow> ntfs_is_collation_rule_supported cr"
proof -
  assume k: "index_key upcase cr n k"
  have "cr \<in> {0, 1, 0x10, 0x13}" by (rule ccontr) (use k in \<open>cases k; simp add: index_key_def\<close>)
  then show ?thesis by (auto simp: ntfs_is_collation_rule_supported_def)
qed

text \<open>
  C2.  The lookup of a key in an index ends with the right answer.  For an index whose root and
  blocks, as \<open>ntfs_ib_read\<close> returns them, form a tree of at most 31 levels below the root with its
  entries in collation order, \<open>ntfs_index_lookup\<close> with a new context returns without reading outside
  a block: it returns 0 exactly if some entry of the tree has the key, and then the context
  describes such an entry; otherwise it returns \<open>-ENOENT\<close>.  For an index of \<open>COLLATION_BINARY\<close> the C
  library's \<open>memcmp\<close> must return \<open>-1\<close>, \<open>0\<close> or \<open>1\<close> (\<open>memcmp_for\<close>); the other rules do not call it.
\<close>

theorem index_lookup_correct:
  assumes "get_le 4 ir IR_INDEX_BLOCK_SIZE = Some bs" "512 \<le> bs" "get_le 4 ir IR_COLLATION_RULE = Some cr"
    and "tree_at (index_rd pread (lookup_icx vol bs cr new_icx)) d (drop IR_INDEX_HEADER ir) t" "d \<le> 31"
    and "keys_sorted memcmp upcase cr n (inorder t)" "memcmp_for cr memcmp" "index_key upcase cr n k"
  shows "\<exists>err icx. ntfs_index_lookup memcmp upcase vol (Some ir) True pread (Some k) new_icx = Some (err, icx) \<and>
    (err = 0 \<longleftrightarrow> (\<exists>e\<in>set (inorder t). index_key_value upcase cr (entry_key e) = index_key_value upcase cr k)) \<and>
    (err = 0 \<longrightarrow> (\<exists>p e. icx_entry icx = Some p \<and> e \<in> set (inorder t) \<and> index_key_value upcase cr (entry_key e) = index_key_value upcase cr k \<and>
                      entry_at (icx_header icx) p e)) \<and>
    (err \<noteq> 0 \<longrightarrow> err = - ENOENT)"
proof -
  let ?c = "key_collate memcmp upcase cr k" and ?ih = "drop IR_INDEX_HEADER ir" and ?i0 = "lookup_icx vol bs cr new_icx"
  have ok0: "icx_ok ?i0" "icx_pindex ?i0 = 0" by (simp_all add: lookup_icx_def icx_ok_def new_icx_def)
  obtain r where r: "ntfs_ie_lookup ?c ?ih = Some r"
    "step_match upcase cr k ?ih t r \<or> step_none upcase cr k ?ih t r \<or> step_child (index_rd pread ?i0) memcmp upcase cr n k d ?ih t r"
    using tree_step [OF assms(4,6-8)] by blast
  obtain icx1 where i1: "store_pos ?i0 r = Some icx1" "icx_ok icx1" "same_geometry ?i0 icx1" "icx_pindex icx1 = 0"
    using store_pos_ok [OF ok0(1), of r] ok0(2) by auto
  let ?i1 = "icx1\<lparr>icx_ir := Some ir\<rparr>"
  have ok1: "icx_ok ?i1" "icx_ok (?i1\<lparr>icx_is_in_root := True\<rparr>)" using i1(2) by (simp_all add: icx_ok_def)
  obtain icx2 where i2: "set_parent_vcn (?i1\<lparr>icx_is_in_root := True\<rparr>) (- 2) = Some icx2" "icx_header icx2 = ?ih"
    using set_parent_vcn_ok [OF ok1(2), of "- 2"] by (auto simp: icx_header_def)
  have red: "ntfs_index_lookup memcmp upcase vol (Some ir) True pread (Some k) new_icx =
    (let err = lo_err r in
     if err = - ERANGE \<or> err = - EINVAL then Some (err, icx1)
     else if err \<noteq> - EAGAIN then index_done icx2 err ?ih (lo_ie r)
     else do { v \<leftarrow> lo_vcn r; index_descend ?c pread VCN_INDEX_ROOT_PARENT v ?i1 })"
    using assms(1-3) index_key_supported [OF assms(8)] r(1) i1(1) i2(1)
    by (simp add: ntfs_index_lookup_def Let_def lookup_icx_def key_collate_def cong: if_cong)
  have "\<exists>x. ntfs_index_lookup memcmp upcase vol (Some ir) True pread (Some k) new_icx = Some x \<and> lookup_result upcase cr k (inorder t) x"
    using r(2)
  proof (elim disjE)
    assume s: "step_match upcase cr k ?ih t r"
    then have "lo_err r = 0" by (simp add: step_match_def)
    then show ?thesis using index_done_match [OF s i2(2)] red by simp
  next
    assume s: "step_none upcase cr k ?ih t r"
    then have "lo_err r = - 2" by (simp add: step_none_def)
    then show ?thesis using index_done_none [OF s, of icx2] red by simp
  next
    assume s: "step_child (index_rd pread ?i0) memcmp upcase cr n k d ?ih t r"
    then obtain w ib' c d' where c: "lo_err r = - 35" "lo_vcn r = Some w" "index_rd pread ?i0 w = Some ib'" "d = Suc d'"
      "tree_at (index_rd pread ?i0) d' (ib_index ib') c" "keys_sorted memcmp upcase cr n (inorder c)" "set (inorder c) \<subseteq> set (inorder t)"
      "has_key upcase cr k (inorder t) \<longleftrightarrow> has_key upcase cr k (inorder c)"
      unfolding step_child_def by blast
    have g: "same_geometry ?i0 ?i1" using i1(3) by (simp add: same_geometry_def)
    have dp: "icx_pindex ?i1 + int d' < 31" using i1(4) c(4) assms(5) by simp
    obtain x where "index_descend ?c pread (- 2) w ?i1 = Some x" "lookup_result upcase cr k (inorder c) x"
      using index_descend_correct [OF c(5,3) g ok1(1) dp c(6) assms(7,8)] by blast
    then show ?thesis using red c(1,2) lookup_result_mono [OF _ c(7,8)] by simp
  qed
  then show ?thesis by (auto simp: lookup_result_def has_key_def)
qed

text \<open>An index of two levels: the root has only its last entry, which points to a block with 5 and 7.\<close>

definition ex_ir :: buf where
  "ex_ir = [0, 0, 0, 0, 16, 0, 0, 0, 0, 2, 0, 0, 1, 0, 0, 0] @ [16, 0, 0, 0, 40, 0, 0, 0, 40, 0, 0, 0, 1, 0, 0, 0] @
     [0, 0, 0, 0, 0, 0, 0, 0, 24, 0, 0, 0, 3, 0, 0, 0, 0, 0, 0, 0, 0, 0, 0, 0]"

definition ex_leaf :: buf where
  "ex_leaf = [0x49, 0x4E, 0x44, 0x58] @ replicate 20 0 @
     ([24, 0, 0, 0, 88, 0, 0, 0, 232, 1, 0, 0, 0, 0, 0, 0] @ replicate 8 0) @ ex_ent 5 @ ex_ent 7 @ ex_last @ replicate 400 0"

definition ex_pread :: pread where
  "ex_pread pos len = (if pos = 0 \<and> len = 512 then Some ex_leaf else None)"

definition ex_vol :: index_vol where
  "ex_vol = \<lparr>iv_cluster_size = 4096, iv_cluster_size_bits = 12, iv_sector_size_bits = 9\<rparr>"

lemma ex_leaf_holds: "ih_holds (ib_index ex_leaf) 24 [ex_ent 5, ex_ent 7] ex_last"
  unfolding ih_holds_parts
  by (rule exI [of _ "[24, 0, 0, 0, 88, 0, 0, 0, 232, 1, 0, 0, 0, 0, 0, 0] @ replicate 8 0"], rule exI [of _ "replicate 400 0"])
    (simp add: ex_leaf_def ib_index_def entries_ok_def get_le_def slice_def)

lemma ex_leaf_read: "index_rd ex_pread (lookup_icx ex_vol 512 0x10 new_icx) 0 = Some ex_leaf"
proof -
  have g: "lf_get16 ex_leaf 4 = Some 0" "lf_get16 ex_leaf 6 = Some 0"
    by (simp_all add: ex_leaf_def lf_defs get_le_def slice_def le_of_zeros)
  have "mst_skip 0 (mst_fixups 0) 512" by (simp add: mst_skip_def mst_fixups_def)
  then have "post_read_mst_fixup ex_leaf 512 = Some (0, ex_leaf)" by (simp add: post_read_mst_fixup_def g Let_def)
  moreover have "ntfs_index_block_inconsistent 512 ex_leaf 0 = Some 0"
    by (simp add: ntfs_index_block_inconsistent_def ex_leaf_def get_le_def slice_def Let_def le_of_zeros)
  ultimately show ?thesis
    by (simp add: index_rd_def ntfs_ib_read_def ex_pread_def lookup_icx_def ntfs_ib_vcn_to_pos_def)
qed

lemma ex_tree: "tree_at (index_rd ex_pread (lookup_icx ex_vol 512 0x10 new_icx)) 1 (drop 16 ex_ir)
  (INode [] [0, 0, 0, 0, 0, 0, 0, 0, 24, 0, 0, 0, 3, 0, 0, 0, 0, 0, 0, 0, 0, 0, 0, 0] [INode [ex_ent 5, ex_ent 7] ex_last []])"
proof -
  let ?l = "[0, 0, 0, 0, 0, 0, 0, 0, 24, 0, 0, 0, 3, 0, 0, 0, 0, 0, 0, 0, 0, 0, 0, 0] :: buf"
  have l: "entry_ok ?l" "entry_end ?l" "entry_node ?l" "entry_vcn ?l = 0"
    by (simp_all add: entry_ok_def entry_end_def entry_node_def entry_flags_def entry_vcn_def get_le_def slice_def)
  have h: "ih_holds (drop 16 ex_ir) 16 [] ?l" unfolding ih_holds_parts
    by (rule exI [of _ "[16, 0, 0, 0, 40, 0, 0, 0, 40, 0, 0, 0, 1, 0, 0, 0]"], rule exI [of _ "[]"])
      (use l in \<open>simp add: ex_ir_def entries_ok_def get_le_def slice_def\<close>)
  have nl: "\<not> entry_node ex_last" by (simp add: entry_node_def entry_flags_def ex_last_def)
  have leaf: "tree_at (index_rd ex_pread (lookup_icx ex_vol 512 0x10 new_icx)) 0 (ib_index ex_leaf) (INode [ex_ent 5, ex_ent 7] ex_last [])"
    by (rule tree_at.leaf [OF ex_leaf_holds]) (use nl in simp)
  have fl: "get8 (drop 16 ex_ir) 12 = Some 1" by (simp add: ex_ir_def get8_def get_le_def slice_def)
  show ?thesis unfolding One_nat_def
    by (rule tree_at.node [OF h _ fl]) (use l ex_leaf_read leaf in simp_all)
qed

lemma ex_sorted2: "keys_sorted lex_memcmp [] 0x10 0 [ex_ent 5, ex_ent 7]"
proof -
  have v: "index_key_value [] 0x10 (entry_key (ex_ent k)) = [unat k]" for k
    by (simp add: index_key_value_def ex_ent_key(1) le32_units.simps(2) [of _ _ 0, simplified] get_le_def slice_def)
  have "index_cmp lex_memcmp [] 0x10 (entry_key (ex_ent 5)) (entry_key (ex_ent 7)) = Some (- 1)"
    using index_cmp_lex [OF lex_memcmp_sign ex_ent_key(2) ex_ent_key(2), of 5 7] by (simp add: v)
  then show ?thesis by (simp add: keys_sorted_def ex_ent_key(2))
qed

theorem index_lookup_correct_witness:
  "\<exists>icx. ntfs_index_lookup lex_memcmp [] ex_vol (Some ex_ir) True ex_pread (Some (entry_key (ex_ent 7))) new_icx = Some (0, icx)"
proof -
  have f: "get_le 4 ex_ir 8 = Some 512" "get_le 4 ex_ir 4 = Some 0x10" by (simp_all add: ex_ir_def get_le_def slice_def)
  have s: "keys_sorted lex_memcmp [] 0x10 0 (inorder (INode [] [0, 0, 0, 0, 0, 0, 0, 0, 24, 0, 0, 0, 3, 0, 0, 0, 0, 0, 0, 0, 0, 0, 0, 0] [INode [ex_ent 5, ex_ent 7] ex_last []]))"
    using ex_sorted2 by simp
  show ?thesis
    using index_lookup_correct [OF f(1) _ f(2) ex_tree _ s lex_memcmp_sign ex_ent_key(2) [of 7]] by auto
qed

end
