(* ===== verification/Runlist_Edit.thy ===== *)
theory Runlist_Edit
  imports Runlist
begin

text \<open>
  The operations of core/ntfs/runlist.c that edit a whole run list: truncation and extension
  (\<open>ntfs_rl_truncate_nolock\<close>), and the three range operations behind \<open>fallocate\<close>
  (\<open>ntfs_rl_insert_range\<close>, \<open>ntfs_rl_punch_hole\<close>, \<open>ntfs_rl_collapse_range\<close>).

  The theorems say what each does to the mapping \<open>cluster_of\<close> of the file: which clusters stay,
  which become a hole, which move, and that the clusters handed back for freeing are exactly those
  taken out.
\<close>

section \<open>Truncation\<close>

text \<open>The element that holds \<open>new_length\<close>, or the terminator.\<close>

fun truncate_seek :: "rle list \<Rightarrow> int \<Rightarrow> nat \<Rightarrow> nat option" where
  "truncate_seek [] n i = None"
| "truncate_seek (x # xs) n i =
     (if rlen x = 0 then Some i
      else (case xs of [] \<Rightarrow> None | y # _ \<Rightarrow> if n \<ge> rvcn y then truncate_seek xs n (i + 1) else Some i))"

definition truncate_shrink :: "runlist \<Rightarrow> rle list \<Rightarrow> int \<Rightarrow> nat \<Rightarrow> runlist option" where
  "truncate_shrink r arr new_length i = do {
     t \<leftarrow> find_end (drop (i + 1) arr) (i + 1);
     let old_size = int t + 1;
     x \<leftarrow> rl_at arr (int i);
     let x = x\<lparr>rlen := s64 (new_length - rvcn x)\<rparr>;
     arr \<leftarrow> rl_set arr (int i) x;
     (arr, j, is_end) \<leftarrow> (if rlen x \<noteq> 0 then do {
         y \<leftarrow> rl_at arr (int i + 1);
         arr \<leftarrow> rl_set arr (int i + 1) (y\<lparr>rvcn := new_length, rlen := 0\<rparr>);
         Some (arr, int i + 1, rlen y = 0) }
       else Some (arr, int i, False));
     arr \<leftarrow> rl_upd arr j (\<lambda>y. y\<lparr>rlcn := LCN_ENOENT\<rparr>);
     let new_size = j + 1;
     arr \<leftarrow> (if \<not> is_end then ntfs_rl_realloc arr old_size new_size else Some arr);
     Some (r\<lparr>rl_rl := Some arr, rl_count := nat (j + 1)\<rparr>) }"

definition truncate_expand :: "runlist \<Rightarrow> rle list \<Rightarrow> int \<Rightarrow> nat \<Rightarrow> runlist option" where
  "truncate_expand r arr new_length i = do {
     prev \<leftarrow> (if i > 0 then do { p \<leftarrow> rl_at arr (int i - 1); Some (rlcn p = LCN_HOLE) } else Some False);
     if prev then do {
       arr \<leftarrow> rl_upd arr (int i - 1) (\<lambda>p. p\<lparr>rlen := s64 (new_length - rvcn p)\<rparr>);
       arr \<leftarrow> rl_upd arr (int i) (\<lambda>t. t\<lparr>rvcn := new_length, rlcn := LCN_ENOENT\<rparr>);
       Some (r\<lparr>rl_rl := Some arr\<rparr>) }
     else do {
       let old_size = int i + 1;
       arr \<leftarrow> ntfs_rl_realloc arr old_size (old_size + 1);
       arr \<leftarrow> rl_upd arr (int i) (\<lambda>t. t\<lparr>rlcn := LCN_HOLE, rlen := s64 (new_length - rvcn t)\<rparr>);
       arr \<leftarrow> rl_upd arr (int i + 1) (\<lambda>t. t\<lparr>rlen := 0\<rparr>);
       arr \<leftarrow> rl_upd arr (int i + 1) (\<lambda>t. t\<lparr>rvcn := new_length, rlcn := LCN_ENOENT\<rparr>);
       Some (r\<lparr>rl_rl := Some arr, rl_count := nat (old_size + 1)\<rparr>) } }"

text \<open>\<open>ntfs_rl_truncate_nolock\<close>: the return value and the run list.\<close>

definition ntfs_rl_truncate_nolock :: "runlist \<Rightarrow> int \<Rightarrow> (int \<times> runlist) option" where
  "ntfs_rl_truncate_nolock r new_length =
     (if new_length < 0 then Some (- EINVAL, r)
      else do {
        arr \<leftarrow> rl_rl r;
        h \<leftarrow> rl_at arr 0;
        if new_length < rvcn h then Some (- EINVAL, r)
        else do {
          i \<leftarrow> truncate_seek arr new_length 0;
          x \<leftarrow> rl_at arr (int i);
          r \<leftarrow> (if rlen x \<noteq> 0 then truncate_shrink r arr new_length i
                else if new_length > rvcn x then truncate_expand r arr new_length i
                else do { arr \<leftarrow> rl_set arr (int i) (x\<lparr>rlcn := LCN_ENOENT\<rparr>); Some (r\<lparr>rl_rl := Some arr\<rparr>) });
          Some (0, r) } })"

section \<open>Range operations\<close>

definition ntfs_rle_lcn_contiguous :: "rle \<Rightarrow> rle \<Rightarrow> bool" where
  "ntfs_rle_lcn_contiguous left_rle right_rle \<longleftrightarrow>
     rlcn left_rle > LCN_HOLE \<and> s64 (rlcn left_rle + rlen left_rle) = rlcn right_rle \<or>
     rlcn left_rle = LCN_HOLE \<and> rlcn right_rle = LCN_HOLE"

definition ntfs_rle_contain :: "rle \<Rightarrow> int \<Rightarrow> bool" where
  "ntfs_rle_contain x vcn \<longleftrightarrow> rlen x > 0 \<and> rvcn x \<le> vcn \<and> vcn < s64 (rvcn x + rlen x)"

text \<open>
  The VCNs of the elements behind \<open>p\<close> set from their predecessors, up to and including the first
  element whose length satisfies \<open>stop\<close>.
\<close>

fun adjust_vcns :: "(int \<Rightarrow> bool) \<Rightarrow> rle \<Rightarrow> rle list \<Rightarrow> rle list option" where
  "adjust_vcns stop p [] = None"
| "adjust_vcns stop p (x # xs) =
     (let x' = x\<lparr>rvcn := s64 (rvcn p + rlen p)\<rparr>
      in if stop (rlen x) then Some (x' # xs) else map_option (Cons x') (adjust_vcns stop x' xs))"

definition adjust_vcns_from :: "(int \<Rightarrow> bool) \<Rightarrow> rle list \<Rightarrow> int \<Rightarrow> rle list option" where
  "adjust_vcns_from stop rl i = do {
     p \<leftarrow> rl_at rl (i - 1);
     tl \<leftarrow> adjust_vcns stop p (drop (nat i) rl);
     Some (take (nat i) rl @ tl) }"

text \<open>\<open>kvcalloc\<close>: a negative count is a huge one and fails.\<close>

definition rl_calloc :: "int \<Rightarrow> rle list option" where
  "rl_calloc n = (if n < 0 then None else Some (replicate (nat n) zero_rle))"

text \<open>
  \<open>ntfs_rl_insert_range\<close>, the choice at the insertion point: the destination and the source after
  it, where the source now starts and how long it is, and the split-off left part if there is one.
\<close>

definition insert_range_split :: "rle list \<Rightarrow> rle list \<Rightarrow> int \<Rightarrow> int \<Rightarrow> int \<Rightarrow>
    (rle list \<times> int \<times> int \<times> rle option) option" where
  "insert_range_split dst src src_cnt start_vcn k = do {
     x \<leftarrow> rl_at dst k;
     s \<leftarrow> rl_at src 0;
     if rvcn x \<noteq> start_vcn \<and> \<not> (rlcn x = LCN_HOLE \<and> rlcn s = LCN_HOLE) then do {
       let l = s64 (start_vcn - rvcn x);
       dst \<leftarrow> rl_set dst k \<lparr>rvcn = start_vcn, rlcn = s64 (rlcn x + l), rlen = s64 (rlen x - l)\<rparr>;
       Some (dst, 0, src_cnt, Some (x\<lparr>rlen := l\<rparr>)) }
     else do {
       left \<leftarrow> (if k > 0 then do { d \<leftarrow> rl_at dst (k - 1); Some (ntfs_rle_lcn_contiguous d s) } else Some False);
       if left then do {
         dst \<leftarrow> rl_upd dst (k - 1) (\<lambda>d. d\<lparr>rlen := s64 (rlen d + rlen s)\<rparr>);
         Some (dst, 1, src_cnt - 1, None) }
       else do {
         t \<leftarrow> rl_at src (src_cnt - 1);
         if ntfs_rle_lcn_contiguous x t then do {
           dst \<leftarrow> rl_set dst k (x\<lparr>rlen := s64 (rlen x + rlen t)\<rparr>);
           Some (dst, 0, src_cnt - 1, None) }
         else Some (dst, 0, src_cnt, None) } } }"

text \<open>The new array from the three parts, and the VCNs of the last part moved up.\<close>

definition insert_range_build :: "rle list \<Rightarrow> rle list \<Rightarrow> int \<Rightarrow> int \<Rightarrow> int \<Rightarrow> int \<Rightarrow> rle option \<Rightarrow> (int + rle list \<times> int) option" where
  "insert_range_build dst src s0 k new_2nd_cnt new_3rd_cnt spl = do {
     let split = (case spl of Some p \<Rightarrow> rlcn p \<ge> LCN_HOLE | None \<Rightarrow> False);
     (case rl_calloc (k + new_2nd_cnt + new_3rd_cnt + of_bool split) of
        None \<Rightarrow> Some (Inl (- ENOMEM))
      | Some new \<Rightarrow> do {
          new \<leftarrow> ntfs_rl_mc new 0 dst 0 k;
          new \<leftarrow> (case spl of Some p \<Rightarrow> if split then ntfs_rl_mc new k [p] 0 1 else Some new | None \<Rightarrow> Some new);
          let n1 = k + of_bool split;
          new \<leftarrow> ntfs_rl_mc new n1 src s0 new_2nd_cnt;
          new \<leftarrow> ntfs_rl_mc new (n1 + new_2nd_cnt) dst k new_3rd_cnt;
          new \<leftarrow> adjust_vcns_from (\<lambda>l. l \<le> 0) new (if n1 + new_2nd_cnt = 0 then 1 else n1 + new_2nd_cnt);
          Some (Inr (new, n1 + new_2nd_cnt + new_3rd_cnt)) }) }"

definition ntfs_rl_insert_range :: "rle list \<Rightarrow> int \<Rightarrow> rle list \<Rightarrow> int \<Rightarrow> (int + rle list \<times> int) option" where
  "ntfs_rl_insert_range dst dst_cnt src src_cnt =
     (if dst_cnt \<le> 0 \<or> src_cnt \<le> 0 then Some (Inl (- EINVAL))
      else do {
        e \<leftarrow> rl_at dst (dst_cnt - 1);
        t \<leftarrow> rl_at src (src_cnt - 1);
        if \<not> (rlcn e = LCN_ENOENT \<and> rlen e = 0) \<or> rlcn t < LCN_HOLE then Some (Inl (- EINVAL))
        else do {
          s \<leftarrow> rl_at src 0;
          let start_vcn = rvcn s;
          f \<leftarrow> ntfs_rl_find_vcn_nolock dst start_vcn;
          (case f of None \<Rightarrow> Some (Inl (- EINVAL))
           | Some k \<Rightarrow> do {
               x \<leftarrow> rl_at dst (int k);
               if rlcn x = LCN_ENOENT \<and> rvcn x \<noteq> start_vcn \<or> rlcn x \<noteq> LCN_ENOENT \<and> \<not> ntfs_rle_contain x start_vcn
               then Some (Inl (- EINVAL))
               else if int k > dst_cnt \<or> dst_cnt - int k < 1 then Some (Inl (- EINVAL))
               else do {
                 (dst, s0, src_cnt, spl) \<leftarrow> insert_range_split dst src src_cnt start_vcn (int k);
                 insert_range_build dst src s0 (int k) src_cnt (dst_cnt - int k) spl } }) } })"

text \<open>
  What \<open>ntfs_rl_punch_hole\<close> and \<open>ntfs_rl_collapse_range\<close> share: the element of a VCN, which must be
  a mapped run or a hole, and the copying.  \<open>punch_parts\<close> returns the array handed back for freeing,
  the new array and \<open>new_1st_cnt\<close>; \<open>hole\<close> is what is placed between the parts that stay.
\<close>

definition range_run :: "rle list \<Rightarrow> int \<Rightarrow> nat option option" where
  "range_run dst vcn = do {
     f \<leftarrow> ntfs_rl_find_vcn_nolock dst vcn;
     (case f of None \<Rightarrow> Some None
      | Some i \<Rightarrow> do {
          x \<leftarrow> rl_at dst (int i);
          Some (if rlcn x \<le> LCN_ENOENT \<or> \<not> ntfs_rle_contain x vcn then None else Some i) }) }"

definition rle_skip :: "int \<Rightarrow> rle \<Rightarrow> rle" where
  "rle_skip n x = x\<lparr>rlen := s64 (rlen x - n), rlcn := (if rlcn x > LCN_HOLE then s64 (rlcn x + n) else rlcn x)\<rparr>"

definition punch_parts :: "rle list \<Rightarrow> int \<Rightarrow> int \<Rightarrow> int \<Rightarrow> rle list \<Rightarrow> int \<Rightarrow> int \<Rightarrow> bool \<Rightarrow> bool \<Rightarrow>
    rle list \<Rightarrow> rle list \<Rightarrow> (rle list \<times> rle list \<times> int) option" where
  "punch_parts dst dst_cnt start_vcn end_vcn hole s e begin_split end_split punch new = do {
     let punch_cnt = e - s + 1;
     let one_split_3 = (e = s \<and> begin_split \<and> end_split);
     punch \<leftarrow> ntfs_rl_mc punch 0 dst s punch_cnt;
     punch \<leftarrow> rl_upd punch punch_cnt (\<lambda>p. p\<lparr>rlcn := LCN_ENOENT, rlen := 0\<rparr>);
     let new_1st_cnt = (if begin_split then s + 1 else s);
     let third = (if end_split then e else e + 1);
     let dst_3rd_cnt = (if end_split then dst_cnt - 1 - e + 1 else dst_cnt - 1 - e);
     new \<leftarrow> ntfs_rl_mc new 0 dst 0 new_1st_cnt;
     (new, punch) \<leftarrow> (if begin_split then do {
         x \<leftarrow> rl_at dst (new_1st_cnt - 1);
         let first_cnt = s64 (start_vcn - rvcn x);
         new \<leftarrow> rl_upd new (new_1st_cnt - 1) (\<lambda>y. y\<lparr>rlen := first_cnt\<rparr>);
         punch \<leftarrow> rl_upd punch 0 (\<lambda>p. (rle_skip first_cnt p)\<lparr>rvcn := start_vcn\<rparr>);
         Some (new, punch) } else Some (new, punch));
     new \<leftarrow> ntfs_rl_mc new new_1st_cnt hole 0 (int (length hole));
     let at3 = new_1st_cnt + int (length hole);
     new \<leftarrow> ntfs_rl_mc new at3 dst third dst_3rd_cnt;
     (new, punch) \<leftarrow> (if end_split then do {
         y \<leftarrow> rl_at dst third;
         let first_cnt = s64 (end_vcn - rvcn y + 1);
         new \<leftarrow> rl_upd new at3 (\<lambda>z. (rle_skip first_cnt z)\<lparr>rvcn := s64 (end_vcn + 1)\<rparr>);
         z \<leftarrow> rl_at new at3;
         punch \<leftarrow> rl_upd punch (punch_cnt - 1)
                    (\<lambda>p. p\<lparr>rlen := if one_split_3 then s64 (rlen p - rlen z) else first_cnt\<rparr>);
         Some (new, punch) } else Some (new, punch));
     Some (punch, new, new_1st_cnt) }"

text \<open>The terminator of the array handed back gets the VCN behind the last run.\<close>

definition punch_close :: "rle list \<Rightarrow> int \<Rightarrow> rle list option" where
  "punch_close punch punch_cnt = do {
     l \<leftarrow> rl_at punch (punch_cnt - 1);
     rl_upd punch punch_cnt (\<lambda>p. p\<lparr>rvcn := s64 (rvcn l + rlen l)\<rparr>) }"

text \<open>\<open>n\<close> elements behind element \<open>i\<close> dropped, their length having been added to it.\<close>

definition rl_join :: "rle list \<Rightarrow> int \<Rightarrow> int \<Rightarrow> int \<Rightarrow> rle list option" where
  "rl_join new new_cnt i n = ntfs_rl_mm new (i + 1) (i + 1 + n) (new_cnt - 1 - (i + 1 + n) + 1)"

definition rl_add_len :: "rle list \<Rightarrow> int \<Rightarrow> int \<Rightarrow> rle list option" where
  "rl_add_len new i j = do { y \<leftarrow> rl_at new j; rl_upd new i (\<lambda>x. x\<lparr>rlen := s64 (rlen x + rlen y)\<rparr>) }"

definition is_hole_at :: "rle list \<Rightarrow> int \<Rightarrow> bool option" where
  "is_hole_at new i = do { x \<leftarrow> rl_at new i; Some (rlcn x = LCN_HOLE) }"

definition punch_merge :: "rle list \<Rightarrow> int \<Rightarrow> int \<Rightarrow> (rle list \<times> int) option" where
  "punch_merge new new_cnt n1 = do {
     left \<leftarrow> (if n1 > 0 then is_hole_at new (n1 - 1) else Some False);
     right \<leftarrow> (if n1 + 1 < new_cnt then is_hole_at new (n1 + 1) else Some False);
     if left then do {
       new \<leftarrow> rl_add_len new (n1 - 1) n1;
       (if right then do {
          new \<leftarrow> rl_add_len new (n1 - 1) (n1 + 1);
          new \<leftarrow> rl_join new new_cnt (n1 - 1) 2;
          Some (new, 2) }
        else do { new \<leftarrow> rl_join new new_cnt (n1 - 1) 1; Some (new, 1) }) }
     else if right then do {
       new \<leftarrow> rl_add_len new n1 (n1 + 1);
       new \<leftarrow> rl_join new new_cnt n1 1;
       Some (new, 1) }
     else Some (new, 0) }"

text \<open>The result is the new array, the array of the runs taken out and \<open>*new_rl_cnt\<close>.\<close>

definition ntfs_rl_punch_hole :: "rle list \<Rightarrow> int \<Rightarrow> int \<Rightarrow> int \<Rightarrow> (int + rle list \<times> rle list \<times> int) option" where
  "ntfs_rl_punch_hole dst dst_cnt start_vcn len =
     (if dst_cnt < 2 then Some (Inl (- EINVAL))
      else do {
        t \<leftarrow> rl_at dst (dst_cnt - 1);
        if \<not> (rlcn t = LCN_ENOENT \<and> rlen t = 0) then Some (Inl (- EINVAL))
        else do {
          l \<leftarrow> rl_at dst (dst_cnt - 2);
          let end_vcn = min (s64 (start_vcn + len - 1)) (s64 (rvcn l + rlen l - 1));
          fs \<leftarrow> range_run dst start_vcn;
          (case fs of None \<Rightarrow> Some (Inl (- EINVAL))
           | Some s \<Rightarrow> do {
               x \<leftarrow> rl_at dst (int s);
               let begin_split = (rvcn x \<noteq> start_vcn);
               fe \<leftarrow> range_run dst end_vcn;
               (case fe of None \<Rightarrow> Some (Inl (- EINVAL))
                | Some e \<Rightarrow> do {
                    y \<leftarrow> rl_at dst (int e);
                    let end_split = (s64 (rvcn y + rlen y - 1) \<noteq> end_vcn);
                    let punch_cnt = int e - int s + 1;
                    let new_cnt = dst_cnt - punch_cnt + 3;
                    (case (rl_calloc (punch_cnt + 1), rl_calloc new_cnt) of
                       (Some punch, Some new) \<Rightarrow> do {
                         (punch, new, n1) \<leftarrow> punch_parts dst dst_cnt start_vcn end_vcn
                            [\<lparr>rvcn = start_vcn, rlcn = LCN_HOLE, rlen = len\<rparr>] (int s) (int e) begin_split end_split punch new;
                         (new, merge_cnt) \<leftarrow> punch_merge new new_cnt n1;
                         punch \<leftarrow> punch_close punch punch_cnt;
                         Some (Inr (new, punch, dst_cnt - (punch_cnt - of_bool begin_split - of_bool end_split) + 1 - merge_cnt)) }
                     | _ \<Rightarrow> Some (Inl (- ENOMEM))) }) }) } })"

definition collapse_merge :: "rle list \<Rightarrow> int \<Rightarrow> int \<Rightarrow> (rle list \<times> int) option" where
  "collapse_merge new new_cnt n1 = do {
     merge \<leftarrow> (if n1 > 0 then do {
         a \<leftarrow> rl_at new (n1 - 1); b \<leftarrow> rl_at new n1;
         Some (ntfs_rle_lcn_contiguous a b) } else Some False);
     if merge then do {
       new \<leftarrow> rl_add_len new (n1 - 1) n1;
       new \<leftarrow> rl_join new new_cnt (n1 - 1) 1;
       Some (new, 1) }
     else Some (new, 0) }"

definition ntfs_rl_collapse_range :: "rle list \<Rightarrow> int \<Rightarrow> int \<Rightarrow> int \<Rightarrow> (int + rle list \<times> rle list \<times> int) option" where
  "ntfs_rl_collapse_range dst dst_cnt start_vcn len =
     (if dst_cnt < 2 then Some (Inl (- EINVAL))
      else do {
        t \<leftarrow> rl_at dst (dst_cnt - 1);
        if \<not> (rlcn t = LCN_ENOENT \<and> rlen t = 0) then Some (Inl (- EINVAL))
        else do {
          let end_vcn = min (s64 (start_vcn + len - 1)) (s64 (rvcn t - 1));
          fs \<leftarrow> range_run dst start_vcn;
          (case fs of None \<Rightarrow> Some (Inl (- EINVAL))
           | Some s \<Rightarrow> do {
               x \<leftarrow> rl_at dst (int s);
               let begin_split = (rvcn x \<noteq> start_vcn);
               fe \<leftarrow> range_run dst end_vcn;
               (case fe of None \<Rightarrow> Some (Inl (- EINVAL))
                | Some e \<Rightarrow> do {
                    y \<leftarrow> rl_at dst (int e);
                    let end_split = (s64 (rvcn y + rlen y - 1) \<noteq> end_vcn);
                    let punch_cnt = int e - int s + 1;
                    let new_cnt = dst_cnt - punch_cnt + 3;
                    (case (rl_calloc (punch_cnt + 1), rl_calloc new_cnt) of
                       (Some punch, Some new) \<Rightarrow> do {
                         (punch, new, n1) \<leftarrow> punch_parts dst dst_cnt start_vcn end_vcn [] (int s) (int e) begin_split end_split punch new;
                         new \<leftarrow> (if n1 = 0 then rl_upd new 0 (\<lambda>z. z\<lparr>rvcn := 0\<rparr>) else Some new);
                         new \<leftarrow> adjust_vcns_from (\<lambda>l. l = 0) new (if n1 = 0 then 1 else n1);
                         (new, merge_cnt) \<leftarrow> collapse_merge new new_cnt n1;
                         punch \<leftarrow> punch_close punch punch_cnt;
                         Some (Inr (new, punch, dst_cnt - (punch_cnt - of_bool begin_split - of_bool end_split) - merge_cnt)) }
                     | _ \<Rightarrow> Some (Inl (- ENOMEM))) }) }) } })"

section \<open>Segments\<close>

text \<open>Runs of positive length that cover exactly the VCNs from \<open>v\<close> to \<open>u\<close>, and the mapping they define.\<close>

fun seg :: "int \<Rightarrow> rle list \<Rightarrow> int \<Rightarrow> bool" where
  "seg v [] u \<longleftrightarrow> v = u"
| "seg v (x # xs) u \<longleftrightarrow> rvcn x = v \<and> 0 < rlen x \<and> seg (v + rlen x) xs u"

definition run_at :: "rle \<Rightarrow> int \<Rightarrow> int" where
  "run_at x vcn = (if rlcn x \<ge> 0 then rlcn x + (vcn - rvcn x) else rlcn x)"

fun clusters :: "rle list \<Rightarrow> int \<Rightarrow> int" where
  "clusters [] vcn = LCN_ENOENT"
| "clusters (x # xs) vcn = (if vcn < rvcn x + rlen x then run_at x vcn else clusters xs vcn)"

lemma seg_append: "seg v (A @ B) u \<longleftrightarrow> (\<exists>w. seg v A w \<and> seg w B u)"
  by (induction A arbitrary: v) auto

lemma seg_le: "seg v A u \<Longrightarrow> v \<le> u"
  by (induction A arbitrary: v) force+

lemma seg_det: "seg v A u \<Longrightarrow> seg v A w \<Longrightarrow> u = w"
  by (induction A arbitrary: v) auto

lemma seg_mem: "seg v A u \<Longrightarrow> x \<in> set A \<Longrightarrow> v \<le> rvcn x \<and> 0 < rlen x \<and> rvcn x + rlen x \<le> u"
proof (induction A arbitrary: v)
  case (Cons a A)
  then have "seg (v + rlen a) A u" "0 < rlen a" "rvcn a = v" by auto
  then show ?case using Cons.IH [of "v + rlen a"] Cons.prems(2) seg_le [of "v + rlen a" A u] by auto
qed simp

lemma runs_from_seg: "runs_from v (A @ [t]) \<longleftrightarrow> seg v A (rvcn t) \<and> rlen t = 0"
  by (induction A arbitrary: v) auto

lemma runs_from_split:
  assumes "runs_from v rl"
  obtains A where "rl = A @ [last rl]" "seg v A (rvcn (last rl))" "rlen (last rl) = 0"
proof
  let ?A = "butlast rl"
  show rl: "rl = ?A @ [last rl]" using assms by simp
  then have "runs_from v (?A @ [last rl])" using assms by argo
  then show "seg v ?A (rvcn (last rl))" "rlen (last rl) = 0" unfolding runs_from_seg by blast+
qed

lemma clusters_append: "seg v A u \<Longrightarrow> v \<le> vcn \<Longrightarrow> clusters (A @ B) vcn = (if vcn < u then clusters A vcn else clusters B vcn)"
proof (induction A arbitrary: v)
  case (Cons a A)
  then have a: "seg (v + rlen a) A u" "rvcn a = v" by auto
  then show ?case using Cons.IH [OF a(1)] seg_le [OF a(1)] Cons.prems(2) by (cases "vcn < v + rlen a") auto
qed simp

lemma cluster_of_seg: "seg v A (rvcn t) \<Longrightarrow> v \<le> vcn \<Longrightarrow> vcn < rvcn t \<Longrightarrow> cluster_of (A @ [t]) vcn = clusters A vcn"
  by (induction A arbitrary: v) (auto simp: run_at_def)

text \<open>The run that holds a VCN.\<close>

lemma seg_locate:
  assumes "seg v A u" "v \<le> n" "n < u"
  shows "\<exists>B x C. A = B @ x # C \<and> seg v B (rvcn x) \<and> rvcn x \<le> n \<and> n < rvcn x + rlen x \<and> 0 < rlen x \<and>
    seg (rvcn x + rlen x) C u"
  using assms
proof (induction A arbitrary: v)
  case (Cons a A)
  then have a: "rvcn a = v" "0 < rlen a" "seg (v + rlen a) A u" by auto
  show ?case
  proof (cases "n < v + rlen a")
    case True
    then show ?thesis using a Cons.prems by (intro exI [of _ "[]"] exI [of _ a] exI [of _ A]) auto
  next
    case False
    then obtain B x C where "A = B @ x # C" "seg (v + rlen a) B (rvcn x)" "rvcn x \<le> n" "n < rvcn x + rlen x" "0 < rlen x"
      "seg (rvcn x + rlen x) C u" using Cons.IH [OF a(3)] Cons.prems(3) by auto
    then show ?thesis using a by (intro exI [of _ "a # B"] exI [of _ x] exI [of _ C]) auto
  qed
qed simp

text \<open>A segment cut at a VCN: what lies before it and what lies from it on.\<close>

definition rle_head :: "int \<Rightarrow> rle \<Rightarrow> rle" where
  "rle_head n x = x\<lparr>rlen := n - rvcn x\<rparr>"

definition rle_tail :: "int \<Rightarrow> rle \<Rightarrow> rle" where
  "rle_tail n x = \<lparr>rvcn = n, rlcn = (if rlcn x \<ge> 0 then rlcn x + (n - rvcn x) else rlcn x), rlen = rlen x - (n - rvcn x)\<rparr>"

lemma rle_head_sel [simp]: "rvcn (rle_head n x) = rvcn x" "rlcn (rle_head n x) = rlcn x" "rlen (rle_head n x) = n - rvcn x"
  by (simp_all add: rle_head_def)

lemma rle_tail_sel [simp]: "rvcn (rle_tail n x) = n" "rlen (rle_tail n x) = rlen x - (n - rvcn x)"
  "rlcn (rle_tail n x) = (if rlcn x \<ge> 0 then rlcn x + (n - rvcn x) else rlcn x)"
  by (simp_all add: rle_tail_def)

lemma run_at_head [simp]: "run_at (rle_head n x) vcn = run_at x vcn"
  by (simp add: run_at_def)

lemma run_at_tail [simp]: "rvcn x \<le> n \<Longrightarrow> run_at (rle_tail n x) vcn = run_at x vcn"
  by (simp add: run_at_def)

definition cut_head :: "int \<Rightarrow> rle \<Rightarrow> rle list" where
  "cut_head n x = (if rvcn x \<noteq> n then [rle_head n x] else [])"

definition cut_tail :: "int \<Rightarrow> rle \<Rightarrow> rle" where
  "cut_tail n x = (if rvcn x \<noteq> n then rle_tail n x else x)"

lemma cut_head_seg: "rvcn x \<le> n \<Longrightarrow> seg (rvcn x) (cut_head n x) n"
  by (simp add: cut_head_def)

lemma cut_head_clusters: "rvcn x \<le> vcn \<Longrightarrow> vcn < n \<Longrightarrow> clusters (cut_head n x) vcn = run_at x vcn"
  by (simp add: cut_head_def)

lemma cut_tail_sel: "rvcn x \<le> n \<Longrightarrow> rvcn (cut_tail n x) = n \<and> rlen (cut_tail n x) = rvcn x + rlen x - n \<and>
    run_at (cut_tail n x) = run_at x"
  by (auto simp: cut_tail_def)

section \<open>Arrays in parts\<close>

lemma rl_at_parts [simp]:
  "rl_at [] i = None"
  "rl_at (x # xs) i = (if i = 0 then Some x else rl_at xs (i - 1))"
  "rl_at (A @ B) i = (if i < int (length A) then rl_at A i else rl_at B (i - int (length A)))"
  by (auto simp: rl_at_def nth_append nth_Cons' nat_diff_distrib')

lemma rl_set_parts [simp]:
  "rl_set [] i y = None"
  "rl_set (x # xs) i y = (if i = 0 then Some (y # xs) else map_option (Cons x) (rl_set xs (i - 1) y))"
  "rl_set (A @ B) i y = (if i < int (length A) then map_option (\<lambda>A. A @ B) (rl_set A i y)
     else map_option ((@) A) (rl_set B (i - int (length A)) y))"
proof -
  have n: "nat i = Suc (nat (i - 1))" if "0 < i" using that by simp
  show "rl_set [] i y = None" by (simp add: rl_set_def)
  show "rl_set (x # xs) i y = (if i = 0 then Some (y # xs) else map_option (Cons x) (rl_set xs (i - 1) y))"
    by (cases "0 < i") (auto simp: rl_set_def n simp del: nat_0_iff)
  show "rl_set (A @ B) i y = (if i < int (length A) then map_option (\<lambda>A. A @ B) (rl_set A i y)
     else map_option ((@) A) (rl_set B (i - int (length A)) y))"
    by (auto simp: rl_set_def list_update_append nat_diff_distrib')
qed

lemma rl_mc_parts:
  assumes "d = int (length D)" "s = int (length S)" "n = int (length M)" "length M \<le> length Z"
  shows "ntfs_rl_mc (D @ Z) d (S @ M @ Q) s n = Some (D @ M @ drop (length M) Z)"
  using assms by (auto simp: ntfs_rl_mc_def rl_copy_def nat_add_distrib)

lemma rl_mm_parts:
  assumes "d = int (length D)" "s = int (length D + length S)" "n = int (length M)" "S \<noteq> []" "M \<noteq> []"
  shows "ntfs_rl_mm (D @ S @ M) d s n = Some (D @ M @ drop (length M) (S @ M))"
proof -
  have "ntfs_rl_mm (D @ S @ M) d s n = rl_copy (D @ S @ M) d (D @ S @ M) s n" using assms by (simp add: ntfs_rl_mm_def)
  then show ?thesis using assms by (simp add: rl_copy_def nat_add_distrib)
qed

lemma find_end_seg: "seg v A u \<Longrightarrow> rlen t = 0 \<Longrightarrow> find_end (A @ t # Z) i = Some (i + length A)"
  by (induction A arbitrary: v i) auto

lemma truncate_seek_seg:
  assumes "seg v B (rvcn x)" "rvcn x \<le> n"
  shows "truncate_seek (B @ x # Z) n i = truncate_seek (x # Z) n (i + length B)"
  using assms
proof (induction B arbitrary: v i)
  case (Cons b B)
  then have b: "rvcn b = v" "0 < rlen b" "seg (v + rlen b) B (rvcn x)" by auto
  obtain y ys where y: "B @ x # Z = y # ys" "rvcn y = v + rlen b" using b(3) by (cases B) auto
  have "v + rlen b \<le> n" using seg_le [OF b(3)] Cons.prems(2) by simp
  then have "truncate_seek (b # B @ x # Z) n i = truncate_seek (B @ x # Z) n (i + 1)" using b(2) y by simp
  then show ?case using Cons.IH [OF b(3) Cons.prems(2), of "i + 1"] by simp
qed simp

section \<open>Truncation is exact\<close>

text \<open>What the new list has to be: it ends at \<open>n\<close>, keeps the old mapping below \<open>n\<close> and has a hole where the old list had ended.\<close>

definition truncated :: "int \<Rightarrow> int \<Rightarrow> rle list \<Rightarrow> rle list \<Rightarrow> bool" where
  "truncated v n rl rl' \<longleftrightarrow> runs_from v rl' \<and> rvcn (last rl') = n \<and> rlcn (last rl') = LCN_ENOENT \<and>
     (\<forall>vcn. v \<le> vcn \<and> vcn < n \<longrightarrow> cluster_of rl' vcn = (if vcn < rvcn (last rl) then cluster_of rl vcn else LCN_HOLE))"

lemma truncatedI:
  assumes "seg v A (rvcn t)" "seg v A' n" "rlen t' = 0" "rvcn t' = n" "rlcn t' = LCN_ENOENT"
    "\<And>vcn. v \<le> vcn \<Longrightarrow> vcn < n \<Longrightarrow> clusters A' vcn = (if vcn < rvcn t then clusters A vcn else LCN_HOLE)"
  shows "truncated v n (A @ [t]) (A' @ [t'])"
  using assms cluster_of_seg [OF assms(1)] cluster_of_seg [of v A' t'] by (auto simp: truncated_def runs_from_seg)

lemma truncate_shrink_ok:
  assumes s: "seg v B (rvcn x)" "0 < rlen x" "seg (rvcn x + rlen x) C (rvcn t)" "rlen t = 0"
    and n: "rvcn x \<le> n" "n < rvcn x + rlen x" "0 \<le> v" "n < 9223372036854775808"
  shows "\<exists>rl'. truncate_shrink r (B @ x # C @ [t]) n (length B) = Some (r\<lparr>rl_rl := Some rl', rl_count := length rl'\<rparr>) \<and>
    truncated v n (B @ x # C @ [t]) rl'"
proof -
  let ?arr = "B @ x # C @ [t]"
  have fe: "find_end (drop (length B + 1) ?arr) (length B + 1) = Some (length B + 1 + length C)"
    using find_end_seg [OF s(3,4), of "[]" "length B + 1"] by simp
  have le: "n - rvcn x = s64 (n - rvcn x)" using n seg_le [OF s(1)] by simp
  have full: "seg v (B @ x # C) (rvcn t)" using s by (auto simp: seg_append)
  have t: "n < rvcn t" using n(2) seg_le [OF s(3)] by simp
  show ?thesis
  proof (cases "rvcn x = n")
    case True
    let ?t' = "x\<lparr>rlen := 0, rlcn := LCN_ENOENT\<rparr>"
    have "truncate_shrink r ?arr n (length B) = Some (r\<lparr>rl_rl := Some (B @ [?t']), rl_count := length (B @ [?t'])\<rparr>)"
      unfolding truncate_shrink_def fe using True
      by (simp add: rl_upd_def ntfs_rl_realloc_def realloc_filled_def Let_def nat_add_distrib)
    moreover have "truncated v n ((B @ x # C) @ [t]) (B @ [?t'])"
      using full s(1) True t by (intro truncatedI) (auto simp: clusters_append [of v B])
    ultimately show ?thesis by (intro exI [of _ "B @ [?t']"]) simp
  next
    case False
    obtain y ys where y: "C @ [t] = y # ys" "ys = [] \<longleftrightarrow> rlen y = 0" using s(3,4) by (cases C) auto
    let ?t' = "y\<lparr>rvcn := n, rlen := 0, rlcn := LCN_ENOENT\<rparr>"
    have len: "length C = length ys" using arg_cong [OF y(1), of length] by simp
    have "truncate_shrink r ?arr n (length B) = Some (r\<lparr>rl_rl := Some (B @ [rle_head n x, ?t']), rl_count := length (B @ [rle_head n x, ?t'])\<rparr>)"
      unfolding truncate_shrink_def fe using False y(2) len unfolding y(1)
      by (cases "ys = []") (simp_all add: rl_upd_def ntfs_rl_realloc_def realloc_filled_def Let_def nat_add_distrib le [symmetric] rle_head_def)
    moreover have "truncated v n ((B @ x # C) @ [t]) ((B @ [rle_head n x]) @ [?t'])"
      using full s(1) t False n by (intro truncatedI) (auto simp: seg_append clusters_append [OF s(1)])
    ultimately show ?thesis by (intro exI [of _ "B @ [rle_head n x, ?t']"]) simp
  qed
qed

lemma truncate_expand_ok:
  assumes s: "seg v A (rvcn t)" "rlen t = 0" and n: "rvcn t < n" "0 \<le> v" "n < 9223372036854775808"
    and r: "rl_count r = Suc (length A)"
  shows "\<exists>rl'. truncate_expand r (A @ [t]) n (length A) = Some (r\<lparr>rl_rl := Some rl', rl_count := length rl'\<rparr>) \<and> truncated v n (A @ [t]) rl'"
proof (cases "A \<noteq> [] \<and> rlcn (last A) = LCN_HOLE")
  case True
  obtain B p where A: "A = B @ [p]" "rlcn p = LCN_HOLE" using True by (metis append_butlast_last_id)
  have p: "seg v B (rvcn p)" "rvcn t = rvcn p + rlen p" "0 < rlen p" using s(1) A by (auto simp: seg_append)
  let ?p = "p\<lparr>rlen := n - rvcn p\<rparr>" and ?t = "t\<lparr>rvcn := n, rlcn := LCN_ENOENT\<rparr>"
  have le: "s64 (n - rvcn p) = n - rvcn p" using n p seg_le [OF p(1)] by simp
  have "truncate_expand r (A @ [t]) n (length A) = Some (r\<lparr>rl_rl := Some (B @ [?p, ?t]), rl_count := length (B @ [?p, ?t])\<rparr>)"
    using A le r unfolding truncate_expand_def by (simp add: rl_upd_def)
  moreover have "truncated v n (A @ [t]) ((B @ [?p]) @ [?t])"
    using s p n A by (intro truncatedI) (auto simp: seg_append clusters_append [OF p(1)] run_at_def)
  ultimately show ?thesis by (intro exI [of _ "B @ [?p, ?t]"]) simp
next
  case False
  let ?p = "t\<lparr>rlcn := LCN_HOLE, rlen := n - rvcn t\<rparr>" and ?t = "zero_rle\<lparr>rvcn := n, rlcn := LCN_ENOENT, rlen := 0\<rparr>"
  have le: "s64 (n - rvcn t) = n - rvcn t" using n seg_le [OF s(1)] by simp
  have prev: "(if length A > 0 then do { p \<leftarrow> rl_at (A @ [t]) (int (length A) - 1); Some (rlcn p = LCN_HOLE) } else Some False) = Some False"
    using False by (cases A rule: rev_cases) auto
  have "truncate_expand r (A @ [t]) n (length A) = Some (r\<lparr>rl_rl := Some (A @ [?p, ?t]), rl_count := length (A @ [?p, ?t])\<rparr>)"
    unfolding truncate_expand_def prev using le
    by (simp add: rl_upd_def ntfs_rl_realloc_def realloc_filled_def Let_def nat_add_distrib zero_rle_def)
  moreover have "truncated v n (A @ [t]) ((A @ [?p]) @ [?t])"
    using s n by (intro truncatedI) (auto simp: seg_append clusters_append [OF s(1)] run_at_def)
  ultimately show ?thesis by (intro exI [of _ "A @ [?p, ?t]"]) simp
qed

text \<open>
  C16.  \<open>ntfs_rl_truncate_nolock\<close> sets the end of a fully mapped run list exactly: it succeeds for
  every length from the start of the list on, the new list is well formed with its element count
  and terminator right, every cluster below both ends keeps its place on the disk, and what lies
  behind the old end is a hole.  This includes length zero, for which the comment of the function
  announces that the run list is discarded and set to NULL: the code keeps a list of one element, the
  terminator.
\<close>

theorem truncate_exact:
  assumes "runs_from v rl" "rl_rl r = Some rl" "rl_count r = length rl" "0 \<le> v" "v \<le> n" "n < 9223372036854775808"
  shows "\<exists>rl'. ntfs_rl_truncate_nolock r n = Some (0, r\<lparr>rl_rl := Some rl', rl_count := length rl'\<rparr>) \<and> truncated v n rl rl'"
proof -
  obtain A t where t: "rl = A @ [t]" "seg v A (rvcn t)" "rlen t = 0" using runs_from_split [OF assms(1)] by metis
  obtain h where h: "rl_at rl 0 = Some h" "rvcn h = v" using t by (cases A) auto
  have unf: "ntfs_rl_truncate_nolock r n = do {
      i \<leftarrow> truncate_seek rl n 0;
      x \<leftarrow> rl_at rl (int i);
      r \<leftarrow> (if rlen x \<noteq> 0 then truncate_shrink r rl n i
            else if n > rvcn x then truncate_expand r rl n i
            else do { arr \<leftarrow> rl_set rl (int i) (x\<lparr>rlcn := LCN_ENOENT\<rparr>); Some (r\<lparr>rl_rl := Some arr\<rparr>) });
      Some (0, r) }"
    using assms h by (simp add: ntfs_rl_truncate_nolock_def cong: if_cong)
  show ?thesis
  proof (cases "n < rvcn t")
    case True
    obtain B x C where x: "A = B @ x # C" "seg v B (rvcn x)" "rvcn x \<le> n" "n < rvcn x + rlen x" "0 < rlen x" "seg (rvcn x + rlen x) C (rvcn t)"
      using seg_locate [OF t(2) assms(5) True] by blast
    obtain y ys where y: "C @ [t] = y # ys" "rvcn y = rvcn x + rlen x" using x(6) by (cases C) auto
    have "truncate_seek (x # C @ [t]) n i = Some i" for i using x(4,5) y by simp
    then have k: "truncate_seek rl n 0 = Some (length B)" using truncate_seek_seg [OF x(2,3), of "C @ [t]" 0] t(1) x(1) by simp
    show ?thesis using truncate_shrink_ok [OF x(2,5,6) t(3) x(3,4) assms(4,6), of r] x(1,5) t(1) unfolding unf k by auto
  next
    case False
    then have k: "truncate_seek rl n 0 = Some (length A)" using truncate_seek_seg [OF t(2), of n "[]" 0] t(1,3) by simp
    show ?thesis
    proof (cases "n = rvcn t")
      case True
      have "truncated v n (A @ [t]) (A @ [t\<lparr>rlcn := LCN_ENOENT\<rparr>])" using t True by (intro truncatedI) auto
      then show ?thesis using t True assms(2,3) unfolding unf k by (intro exI [of _ "A @ [t\<lparr>rlcn := LCN_ENOENT\<rparr>]"]) simp
    next
      case ne: False
      then have gt: "rvcn t < n" using False by simp
      have "rl_count r = Suc (length A)" using assms(3) t(1) by simp
      from truncate_expand_ok [OF t(2,3) gt assms(4,6) this] show ?thesis using t gt unfolding unf k by auto
    qed
  qed
qed

theorem truncate_exact_witness:
  "\<exists>rl'. ntfs_rl_truncate_nolock \<lparr>rl_rl = Some sample_rl, rl_count = 4, rl_hint = 0\<rparr> 100 =
     Some (0, \<lparr>rl_rl = Some rl', rl_count = length rl', rl_hint = 0\<rparr>) \<and> truncated 0 100 sample_rl rl'"
  using truncate_exact [of 0 sample_rl "\<lparr>rl_rl = Some sample_rl, rl_count = 4, rl_hint = 0\<rparr>" 100] by (simp add: sample_rl_def)

section \<open>Punching a hole\<close>

text \<open>A segment of holes and mapped runs, all within the range of the machine integers.\<close>

definition plain_run :: "rle \<Rightarrow> bool" where
  "plain_run x \<longleftrightarrow> rlcn x = LCN_HOLE \<or> 0 \<le> rlcn x \<and> rlcn x + rlen x < 9223372036854775808"

definition plain_seg :: "int \<Rightarrow> rle list \<Rightarrow> int \<Rightarrow> bool" where
  "plain_seg v A u \<longleftrightarrow> seg v A u \<and> 0 \<le> v \<and> u < 9223372036854775808 \<and> (\<forall>x\<in>set A. plain_run x)"

lemma find_vcn_loop_seg:
  assumes "seg v B (rvcn x)" "rvcn x \<le> n"
  shows "find_vcn_loop (B @ x # Z) n i = find_vcn_loop (x # Z) n (i + length B)"
  using assms
proof (induction B arbitrary: v i)
  case (Cons b B)
  then have b: "rvcn b = v" "0 < rlen b" "seg (v + rlen b) B (rvcn x)" by auto
  obtain y ys where y: "B @ x # Z = y # ys" "rvcn y = v + rlen b" using b(3) by (cases B) auto
  have "v + rlen b \<le> n" using seg_le [OF b(3)] Cons.prems(2) by simp
  then have "find_vcn_loop (b # B @ x # Z) n i = find_vcn_loop (B @ x # Z) n (i + 1)" using b(2) y by simp
  then show ?case using Cons.IH [OF b(3) Cons.prems(2), of "i + 1"] by simp
qed simp

lemma find_vcn_seg:
  assumes "seg v B (rvcn x)" "0 < rlen x" "seg (rvcn x + rlen x) C (rvcn t)" "rvcn x \<le> n" "n < rvcn x + rlen x" "plain_run x"
  shows "ntfs_rl_find_vcn_nolock (B @ x # C @ [t]) n = Some (Some (length B))"
proof -
  obtain h where h: "rl_at (B @ x # C @ [t]) 0 = Some h" "rvcn h = v" using assms(1) by (cases B) auto
  have v: "v \<le> n" using seg_le [OF assms(1)] assms(4) by simp
  obtain y ys where y: "C @ [t] = y # ys" "rvcn y = rvcn x + rlen x" using assms(3) by (cases C) auto
  have "find_vcn_loop (B @ x # C @ [t]) n 0 = Some (Some (length B))"
    using find_vcn_loop_seg [OF assms(1,4), of "C @ [t]" 0] assms(2,5,6) y by (auto simp: plain_run_def)
  then show ?thesis using h v by (simp add: ntfs_rl_find_vcn_nolock_def del: rl_at_parts)
qed

lemma range_run_seg:
  assumes "seg v B (rvcn x)" "0 < rlen x" "seg (rvcn x + rlen x) C (rvcn t)" "rvcn x \<le> n" "n < rvcn x + rlen x" "plain_run x"
    "0 \<le> v" "rvcn t < 9223372036854775808"
  shows "range_run (B @ x # C @ [t]) n = Some (Some (length B))"
proof -
  have "s64 (rvcn x + rlen x) = rvcn x + rlen x" using seg_le [OF assms(1)] seg_le [OF assms(3)] assms by simp
  then show ?thesis unfolding range_run_def find_vcn_seg [OF assms(1-6)] using assms(2,4-6) by (auto simp: ntfs_rle_contain_def plain_run_def)
qed

text \<open>The runs that stay behind the punched range, and the runs taken out.\<close>

definition keep_tail :: "int \<Rightarrow> rle \<Rightarrow> rle list" where
  "keep_tail m y = (if rvcn y + rlen y \<noteq> m then [rle_tail m y] else [])"

definition take_head :: "int \<Rightarrow> rle \<Rightarrow> rle" where
  "take_head m y = (if rvcn y + rlen y \<noteq> m then rle_head m y else y)"

lemma rle_skip_plain:
  assumes "plain_run x" "0 \<le> rvcn x" "rvcn x + rlen x < 9223372036854775808" "0 \<le> n" "n \<le> rlen x"
  shows "(rle_skip n x)\<lparr>rvcn := rvcn x + n\<rparr> = rle_tail (rvcn x + n) x"
  using assms by (auto simp: rle_skip_def rle_tail_def plain_run_def)

lemma punch_parts_ok:
  assumes M: "x # M' = N @ [y]" "cut_tail a x # M' = P @ [yp]" "yp = (if N = [] then cut_tail a y else y)"
    and x: "plain_run x" "0 \<le> rvcn x" "rvcn x \<le> a" "a < rvcn x + rlen x" "rvcn x + rlen x < 9223372036854775808"
    and y: "plain_run y" "0 \<le> rvcn y" "rvcn y < m" "m \<le> rvcn y + rlen y" "rvcn y + rlen y < 9223372036854775808" "a < m"
    and len: "length B + length E + 4 \<le> length Z" "length hole \<le> 1"
    and bs: "bs \<longleftrightarrow> rvcn x \<noteq> a" "es \<longleftrightarrow> rvcn y + rlen y \<noteq> m" "s = int (length B)" "e = int (length B + length N)"
  shows "\<exists>w. punch_parts (B @ (N @ [y]) @ E @ [t]) (int (length B + length N + length E + 2)) a (m - 1) hole s e bs es
      (replicate (length N + 2) zero_rle) Z =
    Some (P @ [take_head m yp, \<lparr>rvcn = w, rlcn = LCN_ENOENT, rlen = 0\<rparr>],
          ((B @ cut_head a x) @ hole @ (keep_tail m y @ E) @ [t]) @
             drop (length ((B @ cut_head a x) @ hole @ (keep_tail m y @ E) @ [t])) Z, int (length (B @ cut_head a x)))"
proof -
  let ?dst = "B @ (N @ [y]) @ E @ [t]" and ?tm = "\<lparr>rvcn = 0, rlcn = LCN_ENOENT, rlen = 0\<rparr>"
  let ?bx = "if bs then [x] else []" and ?by = "if es then [y] else []"
  let ?n1 = "if bs then s + 1 else s"
  have lenP: "length P = length N" using arg_cong [OF M(1), of length] arg_cong [OF M(2), of length] by simp
  have rep: "replicate (length N + 2) zero_rle = [] @ (replicate (length N + 1) zero_rle @ [zero_rle])" by (simp add: replicate_append_same)
  have 1: "ntfs_rl_mc (replicate (length N + 2) zero_rle) 0 ?dst s (e - s + 1) = Some ((N @ [y]) @ [zero_rle])"
    unfolding rep using rl_mc_parts [of 0 "[]" s B "e - s + 1" "N @ [y]" "replicate (length N + 1) zero_rle @ [zero_rle]" "E @ [t]"] bs by simp
  have 2: "rl_upd ((N @ [y]) @ [zero_rle]) (e - s + 1) (\<lambda>p. p\<lparr>rlcn := LCN_ENOENT, rlen := 0\<rparr>) = Some ((x # M') @ [?tm])"
    using bs unfolding M(1) by (simp add: rl_upd_def zero_rle_def)
  have dst1: "?dst = [] @ (B @ ?bx) @ (if bs then M' else x # M') @ E @ [t]" using M(1) by simp
  have 3: "ntfs_rl_mc Z 0 ?dst 0 ?n1 = Some ((B @ ?bx) @ drop (length (B @ ?bx)) Z)"
    unfolding dst1 using rl_mc_parts [of 0 "[]" 0 "[]" ?n1 "B @ ?bx" Z "(if bs then M' else x # M') @ E @ [t]"] bs(3) len by (cases bs) simp_all
  have fa: "s64 (a - rvcn x) = a - rvcn x" using x by simp
  have 4: "rl_at ?dst (s + 1 - 1) = Some x" "rl_upd ((B @ [x]) @ Q) (s + 1 - 1) (\<lambda>y. y\<lparr>rlen := a - rvcn x\<rparr>) = Some ((B @ [rle_head a x]) @ Q)" for Q
    unfolding M(1) [symmetric] using bs by (simp_all add: rl_upd_def rle_head_def)
  have 5: "rl_upd ((x # M') @ [?tm]) 0 (\<lambda>p. (rle_skip (a - rvcn x) p)\<lparr>rvcn := a\<rparr>) = Some ((rle_tail a x # M') @ [?tm])"
    using rle_skip_plain [OF x(1,2,5), of "a - rvcn x"] x by (simp add: rl_upd_def)
  have 6: "(if bs then do {
         z \<leftarrow> rl_at ?dst (?n1 - 1);
         let first_cnt = s64 (a - rvcn z);
         new \<leftarrow> rl_upd ((B @ ?bx) @ drop (length (B @ ?bx)) Z) (?n1 - 1) (\<lambda>y. y\<lparr>rlen := first_cnt\<rparr>);
         punch \<leftarrow> rl_upd ((x # M') @ [?tm]) 0 (\<lambda>p. (rle_skip first_cnt p)\<lparr>rvcn := a\<rparr>);
         Some (new, punch) } else Some ((B @ ?bx) @ drop (length (B @ ?bx)) Z, (x # M') @ [?tm])) =
     Some ((B @ cut_head a x) @ drop (length (B @ cut_head a x)) Z, (P @ [yp]) @ [?tm])"
    unfolding M(2) [symmetric] using bs(1) 4 5 by (cases bs) (simp_all add: fa cut_head_def cut_tail_def Let_def)
  let ?L = "B @ cut_head a x"
  have n1: "?n1 = int (length ?L)" using bs by (simp add: cut_head_def)
  have lL: "length (cut_head a x) \<le> 1" by (simp add: cut_head_def)
  have 7: "ntfs_rl_mc (?L @ drop (length ?L) Z) (int (length ?L)) hole 0 (int (length hole)) = Some (?L @ hole @ drop (length (?L @ hole)) Z)"
    using rl_mc_parts [of "int (length ?L)" ?L 0 "[]" "int (length hole)" hole "drop (length ?L) Z" "[]"] len lL
    by (simp add: add_ac)
  have dst2: "?dst = (B @ (if es then N else N @ [y])) @ (?by @ E @ [t]) @ []" by simp
  have 8: "ntfs_rl_mc (?L @ hole @ drop (length (?L @ hole)) Z) (int (length ?L) + int (length hole)) ?dst (if es then e else e + 1)
      (if es then int (length B + length N + length E + 2) - 1 - e + 1 else int (length B + length N + length E + 2) - 1 - e) =
     Some (?L @ hole @ ?by @ E @ [t] @ drop (length (?L @ hole @ ?by @ E @ [t])) Z)"
    unfolding dst2 using rl_mc_parts [of "int (length ?L) + int (length hole)" "?L @ hole" "if es then e else e + 1" "B @ (if es then N else N @ [y])"
        "if es then int (length B + length N + length E + 2) - 1 - e + 1 else int (length B + length N + length E + 2) - 1 - e" "?by @ E @ [t]"
        "drop (length (?L @ hole)) Z" "[]"] bs(3,4) len lL
    by (cases es) (simp_all add: add_ac)
  let ?fc = "s64 (m - 1 - rvcn y + 1)"
  have fm: "?fc = m - rvcn y" "s64 (m - 1 + 1) = m" using y by simp_all
  have sk: "(rle_skip (m - rvcn y) y)\<lparr>rvcn := m\<rparr> = rle_tail m y" using rle_skip_plain [OF y(1,2,5), of "m - rvcn y"] y by simp
  have at3: "rl_at ?dst e = Some y" using bs by simp
  have 9: "rl_upd (?L @ hole @ y # Q) (int (length ?L) + int (length hole)) (\<lambda>z. (rle_skip (m - rvcn y) z)\<lparr>rvcn := m\<rparr>) = Some (?L @ hole @ rle_tail m y # Q)"
    "rl_at (?L @ hole @ z # Q) (int (length ?L) + int (length hole)) = Some z" for z Q
    using sk by (simp_all add: rl_upd_def)
  have yp: "(if e = s \<and> bs \<and> es then s64 (rlen yp - rlen (rle_tail m y)) else m - rvcn y) = m - rvcn yp" if es
  proof (cases "N = []")
    case True
    then have "y = x" "yp = cut_tail a x" "e = s" using M bs by auto
    then show ?thesis using x y bs that by (auto simp: cut_tail_def)
  next
    case False
    then show ?thesis using M(3) bs by simp
  qed
  have 10: "rl_upd ((P @ [yp]) @ [?tm]) (e - s + 1 - 1)
      (\<lambda>p. p\<lparr>rlen := if e = s \<and> bs \<and> es then s64 (rlen p - rlen (rle_tail m y)) else m - rvcn y\<rparr>) = Some (P @ [rle_head m yp, ?tm])" if es
    using bs lenP yp [OF that] by (simp add: rl_upd_def rle_head_def)
  have e': "es \<longleftrightarrow> rvcn yp + rlen yp \<noteq> m" using M bs x y by (auto simp: cut_tail_def)
  let ?slack = "drop (length (?L @ hole @ ?by @ E @ [t])) Z"
  have 11: "(if es then do {
         y0 \<leftarrow> rl_at ?dst (if es then e else e + 1);
         new \<leftarrow> rl_upd (?L @ hole @ ?by @ E @ [t] @ ?slack) (int (length ?L) + int (length hole))
            (\<lambda>z. (rle_skip (s64 (m - 1 - rvcn y0 + 1)) z)\<lparr>rvcn := s64 (m - 1 + 1)\<rparr>);
         z \<leftarrow> rl_at new (int (length ?L) + int (length hole));
         punch \<leftarrow> rl_upd ((P @ [yp]) @ [?tm]) (e - s + 1 - 1)
                    (\<lambda>p. p\<lparr>rlen := if e = s \<and> bs \<and> es then s64 (rlen p - rlen z) else s64 (m - 1 - rvcn y0 + 1)\<rparr>);
         Some (new, punch) } else Some (?L @ hole @ ?by @ E @ [t] @ ?slack, (P @ [yp]) @ [?tm])) =
      Some ((?L @ hole @ (keep_tail m y @ E) @ [t]) @ drop (length (?L @ hole @ (keep_tail m y @ E) @ [t])) Z, P @ [take_head m yp, ?tm])"
  proof (cases es)
    case True
    show ?thesis unfolding if_P [OF True] at3 fm bind.bind_lunit append_Cons append_Nil 9 using 10 [OF True] True e' bs(2)
      by (simp add: fm keep_tail_def take_head_def)
  next
    case False
    then show ?thesis using e' bs(2) by (simp add: keep_tail_def take_head_def)
  qed
  show ?thesis
    unfolding punch_parts_def Let_def 1 bind.bind_lunit 2 3 6 [unfolded Let_def] prod.case
    unfolding n1 7 bind.bind_lunit 8 11 prod.case
    by (rule exI [of _ 0], simp only:)
qed

text \<open>Joining adjacent holes changes the list and not the mapping.\<close>

definition same_seg :: "int \<Rightarrow> rle list \<Rightarrow> rle list \<Rightarrow> int \<Rightarrow> bool" where
  "same_seg v A A' u \<longleftrightarrow> seg v A' u \<and> (\<forall>vcn. v \<le> vcn \<and> vcn < u \<longrightarrow> clusters A' vcn = clusters A vcn)"

lemma same_seg_refl: "seg v A u \<Longrightarrow> same_seg v A A u"
  by (simp add: same_seg_def)

lemma same_seg_trans: "same_seg v A B u \<Longrightarrow> same_seg v B C u \<Longrightarrow> same_seg v A C u"
  by (simp add: same_seg_def)

lemma same_seg_join:
  assumes "seg v (A @ x # y # B) u" "rlcn x < 0 \<and> rlcn y = rlcn x \<or> 0 \<le> rlcn x \<and> rlcn y = rlcn x + rlen x"
  shows "same_seg v (A @ x # y # B) (A @ x\<lparr>rlen := rlen x + rlen y\<rparr> # B) u"
proof -
  have A: "seg v A (rvcn x)" "0 < rlen x" "rvcn y = rvcn x + rlen x" "0 < rlen y" "seg (rvcn x + rlen x + rlen y) B u"
    using assms(1) by (auto simp: seg_append)
  have "clusters (x\<lparr>rlen := rlen x + rlen y\<rparr> # B) vcn = clusters (x # y # B) vcn" for vcn
    using A assms(2) by (auto simp: run_at_def)
  then show ?thesis using A clusters_append [OF A(1)] by (auto simp: same_seg_def seg_append add.assoc)
qed

lemma rl_add_len_parts:
  assumes "i = int (length A)" "j = i + 1 + int (length M)" "in_s64 (rlen x + rlen y)"
  shows "rl_add_len (A @ x # M @ y # B) i j = Some (A @ x\<lparr>rlen := rlen x + rlen y\<rparr> # M @ y # B)"
  using assms by (simp add: rl_add_len_def rl_upd_def)

lemma rl_join_parts:
  assumes "i = int (length A)" "n = int (length S)" "S \<noteq> []" "M \<noteq> []" "new_cnt = int (length (A @ x # S @ M))"
  shows "\<exists>Z. rl_join (A @ x # S @ M) new_cnt i n = Some (A @ x # M @ Z)"
  using rl_mm_parts [of "i + 1" "A @ [x]" "i + 1 + n" S "int (length M)" M] assms by (simp add: rl_join_def add_ac)

lemma seg_lens:
  assumes "seg v (A @ M @ B) u" "0 \<le> v" "u < 9223372036854775808"
  shows "in_s64 (sum_list (map rlen M))" "0 \<le> sum_list (map rlen M)"
proof -
  obtain w z where w: "seg v A w" "seg w M z" "seg z B u" using assms(1) by (auto simp: seg_append)
  have "sum_list (map rlen M) = z - w" using w(2) by (induction M arbitrary: w) force+
  then show "in_s64 (sum_list (map rlen M))" "0 \<le> sum_list (map rlen M)"
    using seg_le [OF w(1)] seg_le [OF w(2)] seg_le [OF w(3)] assms(2,3) by auto
qed

lemma punch_merge_ok:
  assumes s: "seg v (L @ h # R) u" "rlcn h = LCN_HOLE" "0 \<le> v" "u < 9223372036854775808" "rlcn t = LCN_ENOENT"
    and n: "n1 = int (length L)" "new_cnt = int (length (L @ h # R @ t # Z))"
  shows "\<exists>W Z' k. punch_merge (L @ h # R @ t # Z) new_cnt n1 = Some (W @ t # Z', k) \<and> int (length W) + k = int (length (L @ h # R)) \<and>
    same_seg v (L @ h # R) W u"
proof -
  define left where "left = (L \<noteq> [] \<and> rlcn (last L) = LCN_HOLE)"
  define right where "right = (R \<noteq> [] \<and> rlcn (hd R) = LCN_HOLE)"
  have l: "(if n1 > 0 then is_hole_at (L @ h # R @ t # Z) (n1 - 1) else Some False) = Some left"
    using n unfolding left_def is_hole_at_def by (cases L rule: rev_cases) auto
  have r: "(if n1 + 1 < new_cnt then is_hole_at (L @ h # R @ t # Z) (n1 + 1) else Some False) = Some right"
    using n s(5) unfolding right_def is_hole_at_def by (cases R) auto
  note unf = punch_merge_def l r bind.bind_lunit
  show ?thesis
  proof (cases left)
    case True
    then obtain L0 x where L: "L = L0 @ [x]" "rlcn x = LCN_HOLE" unfolding left_def by (metis append_butlast_last_id)
    have j1: "same_seg v (L @ h # R) (L0 @ x\<lparr>rlen := rlen x + rlen h\<rparr> # R) u"
      using same_seg_join [of v L0 x h R u] s(1,2) L by simp
    have "in_s64 (rlen x + rlen h)" using seg_lens [of v L0 "[x, h]" R u] s L by simp
    from rl_add_len_parts [of "n1 - 1" L0 n1 "[]", OF _ _ this, of "R @ t # Z"]
    have a1: "rl_add_len (L @ h # R @ t # Z) (n1 - 1) n1 = Some (L0 @ x\<lparr>rlen := rlen x + rlen h\<rparr> # h # R @ t # Z)" using n(1) L(1) by simp
    show ?thesis
    proof (cases right)
      case True
      then obtain y R0 where R: "R = y # R0" "rlcn y = LCN_HOLE" unfolding right_def by (metis list.collapse)
      let ?x = "x\<lparr>rlen := rlen x + rlen h + rlen y\<rparr>"
      have j2: "same_seg v (L0 @ x\<lparr>rlen := rlen x + rlen h\<rparr> # R) (L0 @ ?x # R0) u"
        using same_seg_join [of v L0 "x\<lparr>rlen := rlen x + rlen h\<rparr>" y R0 u] j1 L R by (simp add: same_seg_def)
      have "in_s64 (rlen (x\<lparr>rlen := rlen x + rlen h\<rparr>) + rlen y)" using seg_lens [of v L0 "[x, h, y]" R0 u] s L R by (simp add: add_ac)
      from rl_add_len_parts [of "n1 - 1" L0 "n1 + 1" "[h]", OF _ _ this, of "R0 @ t # Z"]
      have a2: "rl_add_len (L0 @ x\<lparr>rlen := rlen x + rlen h\<rparr> # h # R @ t # Z) (n1 - 1) (n1 + 1) = Some (L0 @ ?x # h # y # R0 @ t # Z)"
        using n(1) L(1) R(1) by simp
      obtain Z' where "rl_join (L0 @ ?x # h # y # R0 @ t # Z) new_cnt (n1 - 1) 2 = Some (L0 @ ?x # R0 @ t # Z')"
        using rl_join_parts [of "n1 - 1" L0 2 "[h, y]" "R0 @ t # Z" new_cnt ?x] n L(1) R(1) by auto
      then have "punch_merge (L @ h # R @ t # Z) new_cnt n1 = Some ((L0 @ ?x # R0) @ t # Z', 2)"
        unfolding unf using \<open>left\<close> True a1 a2 by simp
      then show ?thesis using same_seg_trans [OF j1 j2] L R by fastforce
    next
      case False
      obtain Z' where "rl_join (L0 @ x\<lparr>rlen := rlen x + rlen h\<rparr> # h # R @ t # Z) new_cnt (n1 - 1) 1 = Some (L0 @ x\<lparr>rlen := rlen x + rlen h\<rparr> # R @ t # Z')"
        using rl_join_parts [of "n1 - 1" L0 1 "[h]" "R @ t # Z" new_cnt "x\<lparr>rlen := rlen x + rlen h\<rparr>"] n L(1) by auto
      then have "punch_merge (L @ h # R @ t # Z) new_cnt n1 = Some ((L0 @ x\<lparr>rlen := rlen x + rlen h\<rparr> # R) @ t # Z', 1)"
        unfolding unf using \<open>left\<close> False a1 by simp
      then show ?thesis using j1 L by fastforce
    qed
  next
    case nl: False
    show ?thesis
    proof (cases right)
      case True
      then obtain y R0 where R: "R = y # R0" "rlcn y = LCN_HOLE" unfolding right_def by (metis list.collapse)
      let ?h = "h\<lparr>rlen := rlen h + rlen y\<rparr>"
      have j: "same_seg v (L @ h # R) (L @ ?h # R0) u" using same_seg_join [of v L h y R0 u] s(1,2) R by simp
      have "in_s64 (rlen h + rlen y)" using seg_lens [of v L "[h, y]" R0 u] s R by simp
      from rl_add_len_parts [of n1 L "n1 + 1" "[]", OF _ _ this, of "R0 @ t # Z"]
      have a: "rl_add_len (L @ h # R @ t # Z) n1 (n1 + 1) = Some (L @ ?h # y # R0 @ t # Z)" using n(1) R(1) by simp
      obtain Z' where "rl_join (L @ ?h # y # R0 @ t # Z) new_cnt n1 1 = Some (L @ ?h # R0 @ t # Z')"
        using rl_join_parts [of n1 L 1 "[y]" "R0 @ t # Z" new_cnt ?h] n R(1) by auto
      then have "punch_merge (L @ h # R @ t # Z) new_cnt n1 = Some ((L @ ?h # R0) @ t # Z', 1)"
        unfolding unf using nl True a by simp
      then show ?thesis using j R by fastforce
    next
      case False
      then have "punch_merge (L @ h # R @ t # Z) new_cnt n1 = Some ((L @ h # R) @ t # Z, 0)" unfolding unf using nl by simp
      then show ?thesis using same_seg_refl [OF s(1)] by fastforce
    qed
  qed
qed

text \<open>A range of a segment: the parts that stay and the part taken out, with the mapping of each.\<close>

lemma punch_cut:
  assumes A: "plain_seg v A u" and r: "v \<le> a" "a < m" "m \<le> u"
  obtains B x M' N y E P yp where "A = B @ (N @ [y]) @ E" "x # M' = N @ [y]" "cut_tail a x # M' = P @ [yp]"
    "yp = (if N = [] then cut_tail a y else y)" "seg v B (rvcn x)" "rvcn x \<le> a" "a < rvcn x + rlen x"
    "seg (rvcn x + rlen x) (M' @ E) u" "seg v (B @ N) (rvcn y)" "rvcn y < m" "m \<le> rvcn y + rlen y" "seg (rvcn y + rlen y) E u"
    "plain_run x" "plain_run y"
proof -
  have s: "seg v A u" "\<forall>x\<in>set A. plain_run x" using A by (auto simp: plain_seg_def)
  obtain B x C where x: "A = B @ x # C" "seg v B (rvcn x)" "rvcn x \<le> a" "a < rvcn x + rlen x" "0 < rlen x" "seg (rvcn x + rlen x) C u"
    using seg_locate [OF s(1) r(1)] r by auto
  have "seg (rvcn x) (x # C) u" using x by simp
  from seg_locate [OF this, of "m - 1"] obtain N y E where y: "x # C = N @ y # E" "seg (rvcn x) N (rvcn y)" "rvcn y \<le> m - 1"
    "m - 1 < rvcn y + rlen y" "seg (rvcn y + rlen y) E u" using r x(3) by auto
  have w: "plain_run x" "plain_run y" using s(2) x(1) y(1) by (auto, metis UnCI in_set_conv_decomp set_append)
  have BN: "seg v (B @ N) (rvcn y)" using x(2) y(2) by (auto simp: seg_append)
  have m: "rvcn y < m" "m \<le> rvcn y + rlen y" using y by simp_all
  show thesis
  proof (cases N)
    case Nil
    then have yx: "y = x" "C = E" using y(1) by auto
    show thesis by (rule that [of B N y E x "[]" "[]" "cut_tail a y"]) (use x y(5) w BN m Nil yx in simp_all)
  next
    case (Cons n N')
    then have nx: "n = x" "C = N' @ y # E" using y(1) by auto
    show thesis by (rule that [of B N y E x "N' @ [y]" "cut_tail a x # N'" y]) (use x y(5) w BN m Cons nx in simp_all)
  qed
qed

lemma kept_left:
  assumes "seg v B (rvcn x)" "rvcn x \<le> a" "a < rvcn x + rlen x" "A = B @ x # C"
  shows "seg v (B @ cut_head a x) a" "\<And>vcn. v \<le> vcn \<Longrightarrow> vcn < a \<Longrightarrow> clusters (B @ cut_head a x) vcn = clusters A vcn"
  using assms cut_head_seg [OF assms(2)] cut_head_clusters [of x] clusters_append [OF assms(1)]
  by (auto simp: seg_append)

lemma keep_tail_seg: "rvcn y < m \<Longrightarrow> m \<le> rvcn y + rlen y \<Longrightarrow> seg m (keep_tail m y) (rvcn y + rlen y)"
  by (simp add: keep_tail_def)

lemma kept_right:
  assumes "seg v D (rvcn y)" "rvcn y < m" "m \<le> rvcn y + rlen y" "seg (rvcn y + rlen y) E u" "A = D @ y # E"
  shows "seg m (keep_tail m y @ E) u" "\<And>vcn. m \<le> vcn \<Longrightarrow> vcn < u \<Longrightarrow> clusters (keep_tail m y @ E) vcn = clusters A vcn"
proof -
  show "seg m (keep_tail m y @ E) u" using keep_tail_seg [OF assms(2,3)] assms(4) by (auto simp: seg_append)
  fix vcn assume "m \<le> vcn" "vcn < u"
  then show "clusters (keep_tail m y @ E) vcn = clusters A vcn"
    using assms clusters_append [OF assms(1)] seg_le [OF assms(1)] by (auto simp: keep_tail_def)
qed

lemma taken_out:
  assumes "x # M' = N @ [y]" "cut_tail a x # M' = P @ [yp]" "yp = (if N = [] then cut_tail a y else y)"
    "seg v B (rvcn x)" "rvcn x \<le> a" "a < rvcn x + rlen x" "seg v (B @ N) (rvcn y)" "rvcn y < m" "m \<le> rvcn y + rlen y" "a < m"
    "A = B @ (N @ [y]) @ E"
  shows "seg a (P @ [take_head m yp]) m" "\<And>vcn. a \<le> vcn \<Longrightarrow> vcn < m \<Longrightarrow> clusters (P @ [take_head m yp]) vcn = clusters A vcn"
proof -
  have A: "clusters A vcn = clusters ((N @ [y]) @ E) vcn" if "a \<le> vcn" for vcn
    using assms(5,11) seg_le [OF assms(4)] clusters_append [OF assms(4)] that by simp
  consider (one) "N = []" "x = y" "M' = []" "P = []" "yp = cut_tail a x" |
    (more) N' where "N = x # N'" "M' = N' @ [y]" "P = cut_tail a x # N'" "yp = y"
    using assms(1-3) by (cases N) auto
  then have "seg a (P @ [take_head m yp]) m \<and> (\<forall>vcn. a \<le> vcn \<longrightarrow> vcn < m \<longrightarrow> clusters (P @ [take_head m yp]) vcn = clusters A vcn)"
  proof cases
    case one
    have A1: "clusters A vcn = run_at x vcn" if "a \<le> vcn" "vcn < m" for vcn using A [OF that(1)] one(1,2) that assms(9) by simp
    show ?thesis unfolding one(4,5) using cut_tail_sel [OF assms(5)] assms(6,8-10) one(2) A1 by (simp add: take_head_def)
  next
    case more
    have N': "seg (rvcn x + rlen x) N' (rvcn y)" using assms(7) unfolding more(1) seg_append by auto
    let ?x = "cut_tail a x"
    note sel = cut_tail_sel [OF assms(5)]
    have y: "rvcn (take_head m y) = rvcn y" "rlen (take_head m y) = m - rvcn y" "run_at (take_head m y) = run_at y"
      by (auto simp: take_head_def)
    have "seg a (?x # N' @ [take_head m y]) m" using sel N' assms(6,8) y by (auto simp: seg_append)
    moreover have "clusters (?x # N' @ [take_head m y]) vcn = clusters A vcn" if "a \<le> vcn" "vcn < m" for vcn
    proof (cases "vcn < rvcn x + rlen x")
      case True
      then show ?thesis using A [OF that(1)] more(1) sel by simp
    next
      case False
      then show ?thesis using A [OF that(1)] more(1) sel clusters_append [OF N'] y that assms(9) by simp
    qed
    ultimately show ?thesis unfolding more(3,4) by simp
  qed
  then show "seg a (P @ [take_head m yp]) m" "\<And>vcn. a \<le> vcn \<Longrightarrow> vcn < m \<Longrightarrow> clusters (P @ [take_head m yp]) vcn = clusters A vcn" by blast+
qed

text \<open>A complete run list: holes and mapped runs up to a terminator \<open>LCN_ENOENT\<close>.\<close>

definition plain_rl :: "int \<Rightarrow> rle list \<Rightarrow> bool" where
  "plain_rl v rl \<longleftrightarrow> runs_from v rl \<and> rlcn (last rl) = LCN_ENOENT \<and> 0 \<le> v \<and> rvcn (last rl) < 9223372036854775808 \<and>
     list_all plain_run (butlast rl)"

lemma plain_rl_parts:
  assumes "plain_rl v rl"
  obtains A t where "rl = A @ [t]" "plain_seg v A (rvcn t)" "rlen t = 0" "rlcn t = LCN_ENOENT"
proof -
  have p: "runs_from v rl" "rlcn (last rl) = LCN_ENOENT" "0 \<le> v" "rvcn (last rl) < 9223372036854775808" "list_all plain_run (butlast rl)"
    using assms by (auto simp: plain_rl_def)
  obtain A where A: "rl = A @ [last rl]" "seg v A (rvcn (last rl))" "rlen (last rl) = 0" by (rule runs_from_split [OF p(1)])
  have "butlast rl = A" using A(1) by (metis butlast_snoc)
  then show thesis using that [OF A(1)] A p by (simp add: plain_seg_def list_all_iff)
qed

text \<open>The outcome of taking the range from \<open>a\<close> to \<open>m\<close> out of the middle of the array, for both operations.\<close>

definition cut_out :: "rle list \<Rightarrow> int \<Rightarrow> int \<Rightarrow> int \<Rightarrow> rle list \<Rightarrow> rle list \<Rightarrow> rle list \<Rightarrow> bool" where
  "cut_out A v a m L R P \<longleftrightarrow> list_all plain_run L \<and> (\<exists>u. seg v A u \<and> seg v L a \<and> seg m R u \<and> seg a P m \<and>
     (\<forall>vcn. v \<le> vcn \<and> vcn < a \<longrightarrow> clusters L vcn = clusters A vcn) \<and>
     (\<forall>vcn. m \<le> vcn \<and> vcn < u \<longrightarrow> clusters R vcn = clusters A vcn) \<and>
     (\<forall>vcn. a \<le> vcn \<and> vcn < m \<longrightarrow> clusters P vcn = clusters A vcn))"

lemma punch_front:
  assumes A: "plain_seg v A (rvcn t)" "rlen t = 0" and r: "v \<le> a" "a < m" "m \<le> rvcn t" and h: "length hole \<le> 1"
  obtains k n x y L R P where
    "A \<noteq> []" "range_run (A @ [t]) a = Some (Some (k))" "range_run (A @ [t]) (m - 1) = Some (Some (k + n))"
    "rl_at (A @ [t]) (int (k)) = Some x" "rl_at (A @ [t]) (int (k + n)) = Some y"
    "s64 (rvcn y + rlen y - 1) = rvcn y + rlen y - 1"
    "length L = k + of_bool (rvcn x \<noteq> a)" "length A + 1 + of_bool (rvcn x \<noteq> a) + of_bool (rvcn y + rlen y \<noteq> m) = length L + length R + length P + 1"
    "length P = n + 1" "cut_out A v a m L R P"
    "\<forall>Z. length A + 4 \<le> length Z + n + 1 \<longrightarrow> (\<exists>w. punch_parts (A @ [t]) (int (length A) + 1) a (m - 1) hole (int (k)) (int (k + n))
        (rvcn x \<noteq> a) (rvcn y + rlen y \<noteq> m) (replicate (n + 2) zero_rle) Z =
      Some (P @ [\<lparr>rvcn = w, rlcn = LCN_ENOENT, rlen = 0\<rparr>], (L @ hole @ R @ [t]) @ drop (length (L @ hole @ R @ [t])) Z, int (length L)))"
proof -
  obtain B x M' N y E P yp where c: "A = B @ (N @ [y]) @ E" "x # M' = N @ [y]" "cut_tail a x # M' = P @ [yp]"
    "yp = (if N = [] then cut_tail a y else y)" "seg v B (rvcn x)" "rvcn x \<le> a" "a < rvcn x + rlen x"
    "seg (rvcn x + rlen x) (M' @ E) (rvcn t)" "seg v (B @ N) (rvcn y)" "rvcn y < m" "m \<le> rvcn y + rlen y" "seg (rvcn y + rlen y) E (rvcn t)"
    "plain_run x" "plain_run y" by (rule punch_cut [OF A(1) r])
  have w: "0 \<le> v" "rvcn t < 9223372036854775808" "seg v A (rvcn t)" using A(1) by (auto simp: plain_seg_def)
  have Ax: "A = B @ x # M' @ E" "A = (B @ N) @ y # E" using c(1) c(2) [symmetric] by simp_all
  have bx: "0 \<le> rvcn x" "rvcn x + rlen x < 9223372036854775808" using seg_le [OF c(5)] seg_le [OF c(8)] w by simp_all
  have yb: "0 \<le> rvcn y" "rvcn y + rlen y < 9223372036854775808" using seg_le [OF c(9)] seg_le [OF c(12)] w by simp_all
  have lenP: "length P = length N" using arg_cong [OF c(2), of length] arg_cong [OF c(3), of length] by simp
  have "plain_run (rle_head a x)" using c(6,7,13) by (auto simp: plain_run_def)
  then have pl: "list_all plain_run (B @ cut_head a x)" using A(1) Ax(1) by (auto simp: plain_seg_def list_all_iff cut_head_def)
  show thesis
  proof (rule that [of "length B" "length N" x y "B @ cut_head a x" "keep_tail m y @ E" "P @ [take_head m yp]"])
    show "A \<noteq> []" using c(1) by simp
    show "range_run (A @ [t]) a = Some (Some (length B))"
      using range_run_seg [of v B x "M' @ E" t a] c(5-8,13) w Ax(1) by simp
    show "range_run (A @ [t]) (m - 1) = Some (Some (length B + length N))"
      using range_run_seg [of v "B @ N" y E t "m - 1"] c(9-12,14) w unfolding Ax(2) by simp
    show "rl_at (A @ [t]) (int (length B)) = Some x" using Ax(1) by simp
    show "rl_at (A @ [t]) (int (length B + length N)) = Some y" using Ax(2) by simp
    show "s64 (rvcn y + rlen y - 1) = rvcn y + rlen y - 1" using yb c by simp
    show "length (B @ cut_head a x) = length B + of_bool (rvcn x \<noteq> a)" by (simp add: cut_head_def)
    show "length A + 1 + of_bool (rvcn x \<noteq> a) + of_bool (rvcn y + rlen y \<noteq> m) =
        length (B @ cut_head a x) + length (keep_tail m y @ E) + length (P @ [take_head m yp]) + 1"
      using c(1) lenP by (simp add: cut_head_def keep_tail_def)
    show "length (P @ [take_head m yp]) = length N + 1" using lenP by simp
    show "cut_out A v a m (B @ cut_head a x) (keep_tail m y @ E) (P @ [take_head m yp])"
      unfolding cut_out_def using pl w(3) kept_left [OF c(5-7) Ax(1)] kept_right [OF c(9-12) Ax(2)]
        taken_out [OF c(2-7,9-11) r(2) c(1)] by blast
    show "\<forall>Z. length A + 4 \<le> length Z + length N + 1 \<longrightarrow> (\<exists>w. punch_parts (A @ [t]) (int (length A) + 1) a (m - 1) hole (int (length B)) (int (length B + length N))
        (rvcn x \<noteq> a) (rvcn y + rlen y \<noteq> m) (replicate (length N + 2) zero_rle) Z =
      Some ((P @ [take_head m yp]) @ [\<lparr>rvcn = w, rlcn = LCN_ENOENT, rlen = 0\<rparr>],
        ((B @ cut_head a x) @ hole @ (keep_tail m y @ E) @ [t]) @ drop (length ((B @ cut_head a x) @ hole @ (keep_tail m y @ E) @ [t])) Z,
        int (length (B @ cut_head a x))))"
    proof (intro allI impI)
      fix Z :: "rle list" assume z: "length A + 4 \<le> length Z + length N + 1"
      then have "length B + length E + 4 \<le> length Z" using c(1) by simp
      from punch_parts_ok [OF c(2-4) c(13) bx(1) c(6,7) bx(2) c(14) yb(1) c(10,11) yb(2) r(2) this h refl refl refl refl, of t]
      show "\<exists>w. punch_parts (A @ [t]) (int (length A) + 1) a (m - 1) hole (int (length B)) (int (length B + length N))
          (rvcn x \<noteq> a) (rvcn y + rlen y \<noteq> m) (replicate (length N + 2) zero_rle) Z =
        Some ((P @ [take_head m yp]) @ [\<lparr>rvcn = w, rlcn = LCN_ENOENT, rlen = 0\<rparr>],
          ((B @ cut_head a x) @ hole @ (keep_tail m y @ E) @ [t]) @ drop (length ((B @ cut_head a x) @ hole @ (keep_tail m y @ E) @ [t])) Z,
          int (length (B @ cut_head a x)))" using c(1) by (simp add: add_ac)
    qed
  qed
qed

lemma punch_close_ok:
  assumes "seg a P m" "P \<noteq> []" "0 \<le> a" "m < 9223372036854775808" "k = int (length P)"
  shows "punch_close (P @ [\<lparr>rvcn = w, rlcn = LCN_ENOENT, rlen = 0\<rparr>]) k = Some (P @ [\<lparr>rvcn = m, rlcn = LCN_ENOENT, rlen = 0\<rparr>])"
proof -
  obtain Q l where P: "P = Q @ [l]" using assms(2) by (cases P rule: rev_cases) auto
  then have "seg a Q (rvcn l)" "rvcn l + rlen l = m" "0 < rlen l" using assms(1) by (auto simp: seg_append)
  then have "s64 (rvcn l + rlen l) = m" using seg_le [of a Q "rvcn l"] assms by simp
  then show ?thesis using P assms(5) by (simp add: punch_close_def rl_upd_def)
qed

text \<open>What both operations have at hand once \<open>punch_parts\<close> has been called.\<close>

lemma punch_setup:
  assumes A: "plain_seg v A (rvcn t)" "rlen t = 0" and r: "v \<le> a" "a < m" "m \<le> rvcn t" and h: "length hole \<le> 1"
  obtains k n x y L R P c where
    "A \<noteq> []" "range_run (A @ [t]) a = Some (Some k)" "range_run (A @ [t]) (m - 1) = Some (Some (k + n))"
    "rl_at (A @ [t]) (int k) = Some x" "rl_at (A @ [t]) (int (k + n)) = Some y" "s64 (rvcn y + rlen y - 1) \<noteq> m - 1 \<longleftrightarrow> rvcn y + rlen y \<noteq> m"
    "int (length A) + 1 - (int n + 1) + 3 = int c" "length L + length hole + length R + 1 \<le> c" "length L + length R + 2 \<le> c" "cut_out A v a m L R P"
    "int (length A) + 1 - (int n + 1 - of_bool (rvcn x \<noteq> a) - of_bool (rvcn y + rlen y \<noteq> m)) = int (length L + length R + 1)"
    "rl_calloc (int n + 1 + 1) = Some (replicate (n + 2) zero_rle)" "rl_calloc (int c) = Some (replicate c zero_rle)"
    "\<exists>w. punch_parts (A @ [t]) (int (length A) + 1) a (m - 1) hole (int k) (int (k + n)) (rvcn x \<noteq> a) (rvcn y + rlen y \<noteq> m)
        (replicate (n + 2) zero_rle) (replicate c zero_rle) =
      Some (P @ [\<lparr>rvcn = w, rlcn = LCN_ENOENT, rlen = 0\<rparr>], L @ hole @ R @ t # drop (length L + length hole + length R + 1) (replicate c zero_rle), int (length L))"
    "\<forall>w. punch_close (P @ [\<lparr>rvcn = w, rlcn = LCN_ENOENT, rlen = 0\<rparr>]) (int n + 1) = Some (P @ [\<lparr>rvcn = m, rlcn = LCN_ENOENT, rlen = 0\<rparr>])"
proof -
  obtain k n x y L R P where f: "A \<noteq> []" "range_run (A @ [t]) a = Some (Some k)" "range_run (A @ [t]) (m - 1) = Some (Some (k + n))"
    "rl_at (A @ [t]) (int k) = Some x" "rl_at (A @ [t]) (int (k + n)) = Some y" "s64 (rvcn y + rlen y - 1) = rvcn y + rlen y - 1"
    "length L = k + of_bool (rvcn x \<noteq> a)" "length A + 1 + of_bool (rvcn x \<noteq> a) + of_bool (rvcn y + rlen y \<noteq> m) = length L + length R + length P + 1"
    "length P = n + 1" "cut_out A v a m L R P"
    "\<forall>Z. length A + 4 \<le> length Z + n + 1 \<longrightarrow> (\<exists>w. punch_parts (A @ [t]) (int (length A) + 1) a (m - 1) hole (int k) (int (k + n))
        (rvcn x \<noteq> a) (rvcn y + rlen y \<noteq> m) (replicate (n + 2) zero_rle) Z =
      Some (P @ [\<lparr>rvcn = w, rlcn = LCN_ENOENT, rlen = 0\<rparr>], (L @ hole @ R @ [t]) @ drop (length (L @ hole @ R @ [t])) Z, int (length L)))"
    by (rule punch_front [OF A r h])
  have w: "0 \<le> v" "rvcn t < 9223372036854775808" "seg v A (rvcn t)" using A(1) by (auto simp: plain_seg_def)
  have P: "seg a P m" using f(10) by (auto simp: cut_out_def)
  have "(of_bool (rvcn y + rlen y \<noteq> m) :: nat) \<le> 1" by simp
  then have nA: "n \<le> length A" using f(7-9) by linarith
  define c where "c = length A + 3 - n"
  have c: "length A + 3 = c + n" using nA unfolding c_def by simp
  have fit: "length L + length R + 2 \<le> c" using f(8,9) c by (auto simp: of_bool_def split: if_splits)
  show thesis
  proof (rule that [of k n x y c L R P])
    show "s64 (rvcn y + rlen y - 1) \<noteq> m - 1 \<longleftrightarrow> rvcn y + rlen y \<noteq> m" using f(6) by auto
    show "int (length A) + 1 - (int n + 1) + 3 = int c" using c by simp
    show "length L + length hole + length R + 1 \<le> c" "length L + length R + 2 \<le> c" using fit h by simp_all
    show "int (length A) + 1 - (int n + 1 - of_bool (rvcn x \<noteq> a) - of_bool (rvcn y + rlen y \<noteq> m)) = int (length L + length R + 1)"
      using f(8,9) by (auto simp: of_bool_def split: if_splits)
    show "rl_calloc (int n + 1 + 1) = Some (replicate (n + 2) zero_rle)" "rl_calloc (int c) = Some (replicate c zero_rle)"
      by (simp_all add: rl_calloc_def nat_add_distrib)
    show "\<exists>w. punch_parts (A @ [t]) (int (length A) + 1) a (m - 1) hole (int k) (int (k + n)) (rvcn x \<noteq> a) (rvcn y + rlen y \<noteq> m)
        (replicate (n + 2) zero_rle) (replicate c zero_rle) =
      Some (P @ [\<lparr>rvcn = w, rlcn = LCN_ENOENT, rlen = 0\<rparr>], L @ hole @ R @ t # drop (length L + length hole + length R + 1) (replicate c zero_rle), int (length L))"
      using f(11) [rule_format, of "replicate c zero_rle"] c by (simp add: add_ac)
    show "\<forall>w. punch_close (P @ [\<lparr>rvcn = w, rlcn = LCN_ENOENT, rlen = 0\<rparr>]) (int n + 1) = Some (P @ [\<lparr>rvcn = m, rlcn = LCN_ENOENT, rlen = 0\<rparr>])"
      by (rule allI, rule punch_close_ok [OF P]) (use f(9) r w in auto)
  qed (rule f(1-5,10))+
qed

text \<open>
  What punching the range from \<open>a\<close> to \<open>m\<close> has to do: the first \<open>cnt\<close> elements of the new array are
  a complete run list that ends where the old one did, with a hole for the range and the old
  mapping elsewhere; the array handed back maps the range as the old list did.
\<close>

definition punched :: "int \<Rightarrow> int \<Rightarrow> int \<Rightarrow> rle list \<Rightarrow> rle list \<Rightarrow> rle list \<Rightarrow> bool" where
  "punched v a m rl rl' punch \<longleftrightarrow> runs_from v rl' \<and> last rl' = last rl \<and>
     (\<forall>vcn. v \<le> vcn \<and> vcn < rvcn (last rl) \<longrightarrow> cluster_of rl' vcn = (if a \<le> vcn \<and> vcn < m then LCN_HOLE else cluster_of rl vcn)) \<and>
     runs_from a punch \<and> rvcn (last punch) = m \<and> (\<forall>vcn. a \<le> vcn \<and> vcn < m \<longrightarrow> cluster_of punch vcn = cluster_of rl vcn)"

lemma punchedI:
  assumes "cut_out A v a m L R P" "same_seg v (L @ h # R) W (rvcn t)" "seg v A (rvcn t)" "rlen t = 0" "rlen p = 0" "rvcn p = m"
    "h = \<lparr>rvcn = a, rlcn = LCN_HOLE, rlen = m - a\<rparr>" "a < m" "v \<le> a" "m \<le> rvcn t"
  shows "punched v a m (A @ [t]) (W @ [t]) (P @ [p])"
proof -
  have c: "seg v L a" "seg m R (rvcn t)" "seg a P m" "\<And>vcn. v \<le> vcn \<Longrightarrow> vcn < a \<Longrightarrow> clusters L vcn = clusters A vcn"
     "\<And>vcn. m \<le> vcn \<Longrightarrow> vcn < rvcn t \<Longrightarrow> clusters R vcn = clusters A vcn" "\<And>vcn. a \<le> vcn \<Longrightarrow> vcn < m \<Longrightarrow> clusters P vcn = clusters A vcn"
    using assms(1) seg_det [OF assms(3)] by (auto simp: cut_out_def)
  have W: "seg v W (rvcn t)" "\<And>vcn. v \<le> vcn \<Longrightarrow> vcn < rvcn t \<Longrightarrow> clusters W vcn = clusters (L @ h # R) vcn"
    using assms(2) by (auto simp: same_seg_def)
  have "cluster_of (W @ [t]) vcn = (if a \<le> vcn \<and> vcn < m then LCN_HOLE else cluster_of (A @ [t]) vcn)" if "v \<le> vcn" "vcn < rvcn t" for vcn
    using that cluster_of_seg [OF W(1) that] cluster_of_seg [OF assms(3) that] W(2) [OF that] clusters_append [OF c(1) that(1), of "h # R"] c(4,5) assms(7)
    by (auto simp: run_at_def)
  moreover have "cluster_of (P @ [p]) vcn = cluster_of (A @ [t]) vcn" if "a \<le> vcn" "vcn < m" for vcn
    using that cluster_of_seg [of a P p vcn] cluster_of_seg [OF assms(3), of vcn] c(3,6) assms(6,9,10) by simp
  ultimately show ?thesis using W(1) c(3) assms(4-6) by (simp add: punched_def runs_from_seg)
qed

lemma punch_hole_code:
  assumes A: "A \<noteq> []" "rlen t = 0" "rlcn t = LCN_ENOENT" "seg v A (rvcn t)" and ev: "min (s64 (a + len - 1)) (s64 (rvcn t - 1)) = m - 1"
    and f: "range_run (A @ [t]) a = Some (Some k)" "range_run (A @ [t]) (m - 1) = Some (Some (k + n))"
      "rl_at (A @ [t]) (int k) = Some x" "rl_at (A @ [t]) (int (k + n)) = Some y" "s64 (rvcn y + rlen y - 1) \<noteq> m - 1 \<longleftrightarrow> rvcn y + rlen y \<noteq> m"
      "int (length A) + 1 - (int n + 1) + 3 = int c" "rl_calloc (int n + 1 + 1) = Some (replicate (n + 2) zero_rle)" "rl_calloc (int c) = Some (replicate c zero_rle)"
    and p: "\<exists>w. punch_parts (A @ [t]) (int (length A) + 1) a (m - 1) [\<lparr>rvcn = a, rlcn = LCN_HOLE, rlen = len\<rparr>] (int k) (int (k + n))
        (rvcn x \<noteq> a) (rvcn y + rlen y \<noteq> m) (replicate (n + 2) zero_rle) (replicate c zero_rle) =
        Some (P @ [\<lparr>rvcn = w, rlcn = LCN_ENOENT, rlen = 0\<rparr>], new, int i)"
    and g: "punch_merge new (int c) (int i) = Some (new', q)"
    and z: "\<forall>w. punch_close (P @ [\<lparr>rvcn = w, rlcn = LCN_ENOENT, rlen = 0\<rparr>]) (int n + 1) = Some punch"
  shows "ntfs_rl_punch_hole (A @ [t]) (int (length (A @ [t]))) a len =
    Some (Inr (new', punch, int (length A) + 1 - (int n + 1 - of_bool (rvcn x \<noteq> a) - of_bool (rvcn y + rlen y \<noteq> m)) + 1 - q))"
proof -
  obtain A0 l where l: "A = A0 @ [l]" using A(1) by (cases A rule: rev_cases) auto
  then have "rvcn l + rlen l = rvcn t" using A(4) by (auto simp: seg_append)
  then have ev': "min (s64 (a + len - 1)) (s64 (rvcn l + rlen l - 1)) = m - 1" using ev by simp
  have n2: "\<not> int (length A) + 1 < 2" using l by simp
  have at: "rl_at (A @ [t]) (int (length A) + 1 - 1) = Some t" "rl_at (A @ [t]) (int (length A) + 1 - 2) = Some l" using l by simp_all
  have j: "int (k + n) - int k + 1 = int n + 1" "int (length (A @ [t])) = int (length A) + 1" by simp_all
  have t: "(\<not> (rlcn t = LCN_ENOENT \<and> rlen t = 0)) = False" using A(2,3) by simp
  obtain w where pp: "punch_parts (A @ [t]) (int (length A) + 1) a (m - 1) [\<lparr>rvcn = a, rlcn = LCN_HOLE, rlen = len\<rparr>] (int k) (int (k + n))
        (rvcn x \<noteq> a) (rvcn y + rlen y \<noteq> m) (replicate (n + 2) zero_rle) (replicate c zero_rle) =
        Some (P @ [\<lparr>rvcn = w, rlcn = LCN_ENOENT, rlen = 0\<rparr>], new, int i)" using p by blast
  note z = z [rule_format, of w]
  show ?thesis
    unfolding ntfs_rl_punch_hole_def j(2) if_not_P [OF n2] at bind.bind_lunit t if_False Let_def
    unfolding ev' f(1,2) bind.bind_lunit option.case f(3,4,5) j(1) f(6-8) prod.case pp g z by (rule refl)
qed

text \<open>
  C8.  \<open>ntfs_rl_punch_hole\<close> does exactly what it should on a complete run list and a range inside
  it: it succeeds, the clusters of the range become a hole and every other cluster keeps its place,
  adjoining holes being joined, the element count is right, and the run list handed back for
  freeing covers the range and names exactly the clusters that the range had.
\<close>

theorem punch_hole_exact:
  assumes "plain_rl v rl" "v \<le> start" "0 < len" "start + len \<le> rvcn (last rl)"
  shows "\<exists>new punch cnt. ntfs_rl_punch_hole rl (int (length rl)) start len = Some (Inr (new, punch, cnt)) \<and>
    0 \<le> cnt \<and> cnt \<le> int (length new) \<and> punched v start (start + len) rl (take (nat cnt) new) punch"
proof -
  obtain A t where A: "rl = A @ [t]" "plain_seg v A (rvcn t)" "rlen t = 0" "rlcn t = LCN_ENOENT" by (rule plain_rl_parts [OF assms(1)])
  have w: "0 \<le> v" "rvcn t < 9223372036854775808" "seg v A (rvcn t)" using A(2) by (auto simp: plain_seg_def)
  let ?m = "start + len" and ?h = "\<lparr>rvcn = start, rlcn = LCN_HOLE, rlen = len\<rparr>"
  have r: "v \<le> start" "start < ?m" "?m \<le> rvcn t" "length [?h] \<le> 1" using assms A(1) by simp_all
  show ?thesis
  proof (rule punch_setup [OF A(2,3) r], goal_cases)
    case (1 k n x y L R P c)
    note f = this
    let ?Z = "drop (length L + length [?h] + length R + 1) (replicate c zero_rle)" and ?p = "\<lparr>rvcn = ?m, rlcn = LCN_ENOENT, rlen = 0\<rparr>"
    have ev: "min (s64 (start + len - 1)) (s64 (rvcn t - 1)) = ?m - 1" using r w by simp
    have LR: "seg v (L @ ?h # R) (rvcn t)" using f(10) seg_det [OF w(3)] assms(3) by (auto simp: cut_out_def seg_append)
    have len: "int c = int (length (L @ ?h # R @ t # ?Z))" using f(8,9) by simp
    obtain W Z' q where mg: "punch_merge (L @ [?h] @ R @ t # ?Z) (int c) (int (length L)) = Some (W @ t # Z', q)"
      "int (length W) + q = int (length (L @ ?h # R))" "same_seg v (L @ ?h # R) W (rvcn t)"
      using punch_merge_ok [OF LR _ w(1,2) A(4) refl len] by auto
    have "ntfs_rl_punch_hole rl (int (length rl)) start len = Some (Inr (W @ t # Z', P @ [?p], int (length (W @ [t]))))"
      unfolding A(1) punch_hole_code [OF f(1) A(3,4) w(3) ev f(2-7,12-14) mg(1) f(15)] f(11) using mg(2) by simp
    moreover have "punched v start ?m (A @ [t]) (W @ [t]) (P @ [?p])"
      by (rule punchedI [OF f(10) mg(3) w(3) A(3) _ _ _ r(2,1,3)]) simp_all
    ultimately show ?case
      by (intro exI [of _ "W @ t # Z'"] exI [of _ "P @ [?p]"] exI [of _ "int (length (W @ [t]))"]) (simp add: A(1) nat_add_distrib)
  qed
qed

lemma sample_rl_plain: "plain_rl 0 sample_rl"
  by (simp add: plain_rl_def sample_rl_def plain_run_def)

theorem punch_hole_exact_witness:
  "plain_rl 0 sample_rl \<and> (\<exists>new punch cnt. ntfs_rl_punch_hole sample_rl (int (length sample_rl)) 2 303 = Some (Inr (new, punch, cnt)) \<and>
     punched 0 2 305 sample_rl (take (nat cnt) new) punch)"
proof -
  have "\<exists>new punch cnt. ntfs_rl_punch_hole sample_rl (int (length sample_rl)) 2 303 = Some (Inr (new, punch, cnt)) \<and>
    0 \<le> cnt \<and> cnt \<le> int (length new) \<and> punched 0 2 (2 + 303) sample_rl (take (nat cnt) new) punch"
    by (rule punch_hole_exact [OF sample_rl_plain]) (simp_all add: sample_rl_def)
  then show ?thesis using sample_rl_plain by auto
qed

text \<open>
  C39.  A range that starts inside the list and reaches past its end is not clipped as the end VCN is:
  the hole gets the full length that was asked for.  For every such range of a complete run list
  \<open>ntfs_rl_punch_hole\<close> returns success and a list whose runs extend to the end of the range, behind
  the terminator that follows them, so that it is not a run list any more.  The caller
  \<open>ntfs_non_resident_attr_punch_hole\<close> limits the length to the distance to the end plus one
  (attrib.c:5420), one cluster more than there is.
\<close>

theorem punch_hole_overruns:
  assumes "plain_rl v rl" "v \<le> start" "start < rvcn (last rl)" "rvcn (last rl) < start + len" "start + len < 9223372036854775808"
  shows "\<exists>new punch cnt W. ntfs_rl_punch_hole rl (int (length rl)) start len = Some (Inr (new, punch, cnt)) \<and>
    take (nat cnt) new = W @ [last rl] \<and> seg v W (start + len) \<and> \<not> runs_from v (take (nat cnt) new)"
proof -
  obtain A t where A: "rl = A @ [t]" "plain_seg v A (rvcn t)" "rlen t = 0" "rlcn t = LCN_ENOENT" by (rule plain_rl_parts [OF assms(1)])
  have w: "0 \<le> v" "rvcn t < 9223372036854775808" "seg v A (rvcn t)" using A(2) by (auto simp: plain_seg_def)
  let ?h = "\<lparr>rvcn = start, rlcn = LCN_HOLE, rlen = len\<rparr>"
  have r: "v \<le> start" "start < rvcn t" "rvcn t \<le> rvcn t" "length [?h] \<le> 1" using assms A(1) by simp_all
  show ?thesis
  proof (rule punch_setup [OF A(2,3) r], goal_cases)
    case (1 k n x y L R P c)
    note f = this
    have R: "R = []" using f(10) seg_det [OF w(3)] seg_le by (cases R) (fastforce simp: cut_out_def)+
    let ?Z = "drop (length L + length [?h] + length R + 1) (replicate c zero_rle)" and ?p = "\<lparr>rvcn = rvcn t, rlcn = LCN_ENOENT, rlen = 0\<rparr>"
    have ev: "min (s64 (start + len - 1)) (s64 (rvcn t - 1)) = rvcn t - 1" using r w assms A(1) by simp
    have LR: "seg v (L @ ?h # R) (start + len)" using f(10) R assms A(1) by (auto simp: cut_out_def seg_append)
    have len: "int c = int (length (L @ ?h # R @ t # ?Z))" using f(8,9) by simp
    obtain W Z' q where mg: "punch_merge (L @ [?h] @ R @ t # ?Z) (int c) (int (length L)) = Some (W @ t # Z', q)"
      "int (length W) + q = int (length (L @ ?h # R))" "same_seg v (L @ ?h # R) W (start + len)"
      using punch_merge_ok [OF LR _ w(1) assms(5) A(4) refl len] by auto
    have "ntfs_rl_punch_hole rl (int (length rl)) start len = Some (Inr (W @ t # Z', P @ [?p], int (length (W @ [t]))))"
      unfolding A(1) punch_hole_code [OF f(1) A(3,4) w(3) ev f(2-7,12-14) mg(1) f(15)] f(11) using mg(2) by simp
    moreover have W: "seg v W (start + len)" using mg(3) by (simp add: same_seg_def)
    moreover have "\<not> runs_from v (W @ [t])" using seg_det [OF W, of "rvcn t"] assms(4) A(1,3) by (auto simp: runs_from_seg)
    ultimately show ?case
      by (intro exI [of _ "W @ t # Z'"] exI [of _ "P @ [?p]"] exI [of _ "int (length (W @ [t]))"] exI [of _ W]) (simp add: A(1) nat_add_distrib)
  qed
qed

theorem punch_hole_overruns_witness:
  "rvcn (last sample_rl) = 306 \<and> (\<exists>new punch cnt W. ntfs_rl_punch_hole sample_rl (int (length sample_rl)) 305 2 = Some (Inr (new, punch, cnt)) \<and>
    take (nat cnt) new = W @ [last sample_rl] \<and> seg 0 W 307)"
  using punch_hole_overruns [OF sample_rl_plain, of 305 2] by (auto simp: sample_rl_def)

section \<open>Collapsing a range\<close>

definition rle_shift :: "int \<Rightarrow> rle \<Rightarrow> rle" where
  "rle_shift d x = x\<lparr>rvcn := rvcn x + d\<rparr>"

lemma rle_shift_sel [simp]: "rvcn (rle_shift d x) = rvcn x + d" "rlcn (rle_shift d x) = rlcn x" "rlen (rle_shift d x) = rlen x"
  by (simp_all add: rle_shift_def)

lemma seg_shift: "seg v A u \<Longrightarrow> seg (v + d) (map (rle_shift d) A) (u + d)"
  by (induction A arbitrary: v) (auto, metis add.assoc add.commute)

lemma clusters_shift: "clusters (map (rle_shift d) A) vcn = clusters A (vcn - d)"
  by (induction A) (auto simp: run_at_def)

lemma adjust_vcns_ok:
  assumes "seg m R (rvcn t)" "rlen t = 0" "stop 0" "\<And>l. 0 < l \<Longrightarrow> \<not> stop l" "rvcn p + rlen p = m + d"
    "0 \<le> m + d" "rvcn t + d < 9223372036854775808"
  shows "adjust_vcns stop p (R @ t # Z) = Some (map (rle_shift d) R @ rle_shift d t # Z)"
  using assms
proof (induction R arbitrary: m p)
  case Nil
  then show ?case by (simp add: rle_shift_def Let_def)
next
  case (Cons r R)
  then have r: "rvcn r = m" "0 < rlen r" "seg (m + rlen r) R (rvcn t)" by auto
  have s: "s64 (m + d) = m + d" using Cons.prems(6,7) r(2) seg_le [OF r(3)] by simp
  have "adjust_vcns stop (rle_shift d r) (R @ t # Z) = Some (map (rle_shift d) R @ rle_shift d t # Z)"
    using Cons.IH [OF r(3) Cons.prems(2-4)] Cons.prems(6,7) r by simp
  then show ?case using Cons.prems(4) [OF r(2)] Cons.prems(5) r(1) s by (simp add: rle_shift_def)
qed

text \<open>The VCN of the first element and of those behind it, as \<open>ntfs_rl_collapse_range\<close> sets them.\<close>

lemma collapse_adjust:
  assumes s: "seg 0 L a" "seg m R (rvcn t)" "rlen t = 0" "a < m" "rvcn t < 9223372036854775808" "Z \<noteq> []" "hd Z = zero_rle"
    and n: "n1 = int (length L)"
  shows "\<exists>Z'. length Z' = length Z \<and> do {
      new \<leftarrow> (if n1 = 0 then rl_upd (L @ R @ t # Z) 0 (\<lambda>z. z\<lparr>rvcn := 0\<rparr>) else Some (L @ R @ t # Z));
      adjust_vcns_from (\<lambda>l. l = 0) new (if n1 = 0 then 1 else n1) } = Some (L @ map (rle_shift (a - m)) R @ rle_shift (a - m) t # Z')"
proof (cases L rule: rev_cases)
  case (snoc L0 l)
  then have l: "rvcn l + rlen l = m + (a - m)" using s(1) by (auto simp: seg_append)
  have a: "0 \<le> m + (a - m)" "rvcn t + (a - m) < 9223372036854775808" using seg_le [OF s(1)] s(4,5) by simp_all
  have "adjust_vcns (\<lambda>l. l = 0) l (R @ t # Z) = Some (map (rle_shift (a - m)) R @ rle_shift (a - m) t # Z)"
    by (rule adjust_vcns_ok [OF s(2,3) _ _ l a]) simp_all
  then show ?thesis using snoc n by (intro exI [of _ Z]) (simp add: adjust_vcns_from_def nat_add_distrib)
next
  case Nil
  then have a: "a = 0" using s(1) by simp
  obtain z Z0 where Z: "Z = z # Z0" "z = zero_rle" using s(6,7) by (cases Z) auto
  show ?thesis
  proof (cases R)
    case R: Nil
    then have "rvcn t = m" using s(2) by simp
    then have "rle_shift (a - m) t = t\<lparr>rvcn := 0\<rparr>" using a by (simp add: rle_shift_def)
    then show ?thesis using Nil R Z n s(3) by (intro exI [of _ "z\<lparr>rvcn := 0\<rparr> # Z0"]) (simp add: rl_upd_def adjust_vcns_from_def zero_rle_def)
  next
    case (Cons r R')
    have r: "rvcn r = m" "0 < rlen r" "seg (m + rlen r) R' (rvcn t)" using s(2) Cons by auto
    have r0: "r\<lparr>rvcn := 0\<rparr> = rle_shift (a - m) r" using r(1) a by (simp add: rle_shift_def)
    have "adjust_vcns (\<lambda>l. l = 0) (r\<lparr>rvcn := 0\<rparr>) (R' @ t # Z) = Some (map (rle_shift (a - m)) R' @ rle_shift (a - m) t # Z)"
      by (rule adjust_vcns_ok [OF r(3) s(3)]) (use r a s(4,5) in simp_all)
    then show ?thesis using Nil Cons n r0 by (intro exI [of _ Z]) (simp add: rl_upd_def adjust_vcns_from_def)
  qed
qed

lemma collapse_merge_ok:
  assumes s: "seg v (L @ R) u" "list_all plain_run L" "0 \<le> v" "u < 9223372036854775808" "rlcn t = LCN_ENOENT"
    and n: "n1 = int (length L)" "new_cnt = int (length (L @ R @ t # Z))"
  shows "\<exists>W Z' k. collapse_merge (L @ R @ t # Z) new_cnt n1 = Some (W @ t # Z', k) \<and> int (length W) + k = int (length (L @ R)) \<and>
    same_seg v (L @ R) W u"
proof (cases "L \<noteq> [] \<and> R \<noteq> [] \<and> ntfs_rle_lcn_contiguous (last L) (hd R)")
  case True
  then obtain L0 x y R0 where L: "L = L0 @ [x]" "R = y # R0" "ntfs_rle_lcn_contiguous x y" by (metis append_butlast_last_id list.collapse)
  have "rlcn x < 0 \<and> rlcn y = rlcn x \<or> 0 \<le> rlcn x \<and> rlcn y = rlcn x + rlen x"
  proof -
    have "0 < rlen x" using s(1) L by (auto simp: seg_append)
    then show ?thesis using L(3) s(2) L(1) by (auto simp: ntfs_rle_lcn_contiguous_def plain_run_def)
  qed
  then have j: "same_seg v (L @ R) (L0 @ x\<lparr>rlen := rlen x + rlen y\<rparr> # R0) u" using same_seg_join [of v L0 x y R0 u] s(1) L by simp
  have "in_s64 (rlen x + rlen y)" using seg_lens [of v L0 "[x, y]" R0 u] s L by simp
  from rl_add_len_parts [of "n1 - 1" L0 n1 "[]", OF _ _ this, of "R0 @ t # Z"]
  have a: "rl_add_len (L @ R @ t # Z) (n1 - 1) n1 = Some (L0 @ x\<lparr>rlen := rlen x + rlen y\<rparr> # y # R0 @ t # Z)" using n(1) L by simp
  obtain Z' where "rl_join (L0 @ x\<lparr>rlen := rlen x + rlen y\<rparr> # y # R0 @ t # Z) new_cnt (n1 - 1) 1 = Some (L0 @ x\<lparr>rlen := rlen x + rlen y\<rparr> # R0 @ t # Z')"
    using rl_join_parts [of "n1 - 1" L0 1 "[y]" "R0 @ t # Z" new_cnt "x\<lparr>rlen := rlen x + rlen y\<rparr>"] n L by auto
  then have "collapse_merge (L @ R @ t # Z) new_cnt n1 = Some ((L0 @ x\<lparr>rlen := rlen x + rlen y\<rparr> # R0) @ t # Z', 1)"
    unfolding collapse_merge_def using a n L by simp
  then show ?thesis using j L by (intro exI [of _ "L0 @ x\<lparr>rlen := rlen x + rlen y\<rparr> # R0"] exI [of _ Z'] exI [of _ 1]) simp
next
  case False
  have "(if n1 > 0 then do { a \<leftarrow> rl_at (L @ R @ t # Z) (n1 - 1); b \<leftarrow> rl_at (L @ R @ t # Z) n1; Some (ntfs_rle_lcn_contiguous a b) } else Some False) = Some False"
  proof (cases L rule: rev_cases)
    case (snoc L0 x)
    have x: "0 < rlen x" "plain_run x" using s(1,2) snoc by (auto simp: seg_append)
    show ?thesis using False snoc n(1) x s(5) by (cases R) (auto simp: ntfs_rle_lcn_contiguous_def plain_run_def)
  qed (use n in simp)
  then have "collapse_merge (L @ R @ t # Z) new_cnt n1 = Some ((L @ R) @ t # Z, 0)" unfolding collapse_merge_def by simp
  then show ?thesis using same_seg_refl [OF s(1)] by (intro exI [of _ "L @ R"] exI [of _ Z] exI [of _ 0]) simp
qed

text \<open>
  What collapsing the range from \<open>a\<close> to \<open>m\<close> has to do: the new list is shorter by the range, keeps the
  mapping before it and has the mapping behind it moved down; what was taken out is as for punching.
\<close>

definition collapsed :: "int \<Rightarrow> int \<Rightarrow> rle list \<Rightarrow> rle list \<Rightarrow> rle list \<Rightarrow> bool" where
  "collapsed a m rl rl' punch \<longleftrightarrow> runs_from 0 rl' \<and> last rl' = rle_shift (a - m) (last rl) \<and>
     (\<forall>vcn. 0 \<le> vcn \<and> vcn < rvcn (last rl') \<longrightarrow> cluster_of rl' vcn = cluster_of rl (if vcn < a then vcn else vcn + (m - a))) \<and>
     runs_from a punch \<and> rvcn (last punch) = m \<and> (\<forall>vcn. a \<le> vcn \<and> vcn < m \<longrightarrow> cluster_of punch vcn = cluster_of rl vcn)"

lemma collapsedI:
  assumes "cut_out A 0 a m L R P" "same_seg 0 (L @ map (rle_shift (a - m)) R) W (rvcn t + (a - m))" "seg 0 A (rvcn t)" "rlen t = 0"
    "rlen p = 0" "rvcn p = m" "0 \<le> a" "a < m" "m \<le> rvcn t"
  shows "collapsed a m (A @ [t]) (W @ [rle_shift (a - m) t]) (P @ [p])"
proof -
  have c: "seg 0 L a" "seg m R (rvcn t)" "seg a P m" "\<And>vcn. 0 \<le> vcn \<Longrightarrow> vcn < a \<Longrightarrow> clusters L vcn = clusters A vcn"
     "\<And>vcn. m \<le> vcn \<Longrightarrow> vcn < rvcn t \<Longrightarrow> clusters R vcn = clusters A vcn" "\<And>vcn. a \<le> vcn \<Longrightarrow> vcn < m \<Longrightarrow> clusters P vcn = clusters A vcn"
    using assms(1) seg_det [OF assms(3)] by (auto simp: cut_out_def)
  have W: "seg 0 W (rvcn t + (a - m))"
    "\<And>vcn. 0 \<le> vcn \<Longrightarrow> vcn < rvcn t + (a - m) \<Longrightarrow> clusters W vcn = clusters (L @ map (rle_shift (a - m)) R) vcn"
    using assms(2) by (auto simp: same_seg_def)
  have "cluster_of (W @ [rle_shift (a - m) t]) vcn = cluster_of (A @ [t]) (if vcn < a then vcn else vcn + (m - a))"
    if v: "0 \<le> vcn" "vcn < rvcn t + (a - m)" for vcn
  proof (cases "vcn < a")
    case True
    then show ?thesis using v cluster_of_seg [of 0 W "rle_shift (a - m) t" vcn] W cluster_of_seg [OF assms(3), of vcn] c(4)
        clusters_append [OF c(1) v(1)] assms(8) by simp
  next
    case False
    have e: "vcn - (a - m) = vcn + (m - a)" by simp
    have "clusters (map (rle_shift (a - m)) R) vcn = clusters A (vcn + (m - a))" unfolding clusters_shift e using False v c(5) by simp
    then show ?thesis using False v cluster_of_seg [of 0 W "rle_shift (a - m) t" vcn] W cluster_of_seg [OF assms(3), of "vcn + (m - a)"]
        clusters_append [OF c(1) v(1)] assms(8) by simp
  qed
  moreover have "cluster_of (P @ [p]) vcn = cluster_of (A @ [t]) vcn" if "a \<le> vcn" "vcn < m" for vcn
    using that cluster_of_seg [of a P p vcn] cluster_of_seg [OF assms(3), of vcn] c(3,6) assms(6,7,9) by simp
  ultimately show ?thesis using W(1) c(3) assms(4-6) by (simp add: collapsed_def runs_from_seg)
qed

lemma collapse_range_code:
  assumes A: "A \<noteq> []" "rlen t = 0" "rlcn t = LCN_ENOENT" and ev: "min (s64 (a + len - 1)) (s64 (rvcn t - 1)) = m - 1"
    and f: "range_run (A @ [t]) a = Some (Some k)" "range_run (A @ [t]) (m - 1) = Some (Some (k + n))"
      "rl_at (A @ [t]) (int k) = Some x" "rl_at (A @ [t]) (int (k + n)) = Some y" "s64 (rvcn y + rlen y - 1) \<noteq> m - 1 \<longleftrightarrow> rvcn y + rlen y \<noteq> m"
      "int (length A) + 1 - (int n + 1) + 3 = int c" "rl_calloc (int n + 1 + 1) = Some (replicate (n + 2) zero_rle)" "rl_calloc (int c) = Some (replicate c zero_rle)"
    and p: "\<exists>w. punch_parts (A @ [t]) (int (length A) + 1) a (m - 1) [] (int k) (int (k + n))
        (rvcn x \<noteq> a) (rvcn y + rlen y \<noteq> m) (replicate (n + 2) zero_rle) (replicate c zero_rle) =
        Some (P @ [\<lparr>rvcn = w, rlcn = LCN_ENOENT, rlen = 0\<rparr>], new0, i)"
    and d: "do {
      new \<leftarrow> (if i = 0 then rl_upd new0 0 (\<lambda>z. z\<lparr>rvcn := 0\<rparr>) else Some new0);
      adjust_vcns_from (\<lambda>l. l = 0) new (if i = 0 then 1 else i) } = Some new"
    and g: "collapse_merge new (int c) i = Some (new', q)"
    and z: "\<forall>w. punch_close (P @ [\<lparr>rvcn = w, rlcn = LCN_ENOENT, rlen = 0\<rparr>]) (int n + 1) = Some punch"
  shows "ntfs_rl_collapse_range (A @ [t]) (int (length (A @ [t]))) a len =
    Some (Inr (new', punch, int (length A) + 1 - (int n + 1 - of_bool (rvcn x \<noteq> a) - of_bool (rvcn y + rlen y \<noteq> m)) - q))"
proof -
  have n2: "\<not> int (length A) + 1 < 2" using A(1) by (cases A) simp_all
  have at: "rl_at (A @ [t]) (int (length A) + 1 - 1) = Some t" by simp
  have j: "int (k + n) - int k + 1 = int n + 1" "int (length (A @ [t])) = int (length A) + 1" by simp_all
  have t: "(\<not> (rlcn t = LCN_ENOENT \<and> rlen t = 0)) = False" using A(2,3) by simp
  obtain w where pp: "punch_parts (A @ [t]) (int (length A) + 1) a (m - 1) [] (int k) (int (k + n))
        (rvcn x \<noteq> a) (rvcn y + rlen y \<noteq> m) (replicate (n + 2) zero_rle) (replicate c zero_rle) =
        Some (P @ [\<lparr>rvcn = w, rlcn = LCN_ENOENT, rlen = 0\<rparr>], new0, i)" using p by blast
  note z = z [rule_format, of w]
  have d2: "(if i = 0 then rl_upd new0 0 (\<lambda>z. z\<lparr>rvcn := 0\<rparr>) else Some new0) \<bind>
      (\<lambda>new. adjust_vcns_from (\<lambda>l. l = 0) new (if i = 0 then 1 else i) \<bind> f) = f new" for f :: "rle list \<Rightarrow> (int + rle list \<times> rle list \<times> int) option"
    unfolding Option.bind_assoc [symmetric] d by simp
  show ?thesis
    unfolding ntfs_rl_collapse_range_def j(2) if_not_P [OF n2] at bind.bind_lunit t if_False Let_def
    unfolding ev f(1,2) bind.bind_lunit option.case f(3,4,5) j(1) f(6-8) prod.case pp
    unfolding d2 g z bind.bind_lunit prod.case by (rule refl)
qed

text \<open>
  C9.  \<open>ntfs_rl_collapse_range\<close> does exactly what it should on a complete run list that starts at VCN
  0 and a range inside it: the clusters before the range stay, those behind it move down by the
  length of the range, runs that have become adjacent on the disk are joined, the element count is
  right, and the run list handed back for freeing names exactly the clusters that the range had.
\<close>

theorem collapse_range_exact:
  assumes "plain_rl 0 rl" "0 \<le> start" "0 < len" "start + len \<le> rvcn (last rl)"
  shows "\<exists>new punch cnt. ntfs_rl_collapse_range rl (int (length rl)) start len = Some (Inr (new, punch, cnt)) \<and>
    0 \<le> cnt \<and> cnt \<le> int (length new) \<and> collapsed start (start + len) rl (take (nat cnt) new) punch"
proof -
  obtain A t where A: "rl = A @ [t]" "plain_seg 0 A (rvcn t)" "rlen t = 0" "rlcn t = LCN_ENOENT" by (rule plain_rl_parts [OF assms(1)])
  have w: "rvcn t < 9223372036854775808" "seg 0 A (rvcn t)" using A(2) by (auto simp: plain_seg_def)
  let ?m = "start + len" and ?d = "start - (start + len)"
  have r: "0 \<le> start" "start < ?m" "?m \<le> rvcn t" "length ([] :: rle list) \<le> 1" using assms A(1) by simp_all
  show ?thesis
  proof (rule punch_setup [OF A(2,3) r], goal_cases)
    case (1 k n x y L R P c)
    note f = this
    let ?R = "map (rle_shift ?d) R" and ?t = "rle_shift ?d t" and ?p = "\<lparr>rvcn = ?m, rlcn = LCN_ENOENT, rlen = 0\<rparr>"
    define Z where "Z = drop (length L + length ([] :: rle list) + length R + 1) (replicate c zero_rle)"
    have Z: "Z \<noteq> []" "hd Z = zero_rle" "length L + length R + 1 + length Z = c" using f(9) by (simp_all add: Z_def)
    have cs: "seg 0 L start" "seg ?m R (rvcn t)" "list_all plain_run L" using f(10) seg_det [OF w(2)] by (auto simp: cut_out_def)
    obtain Z1 where Z1: "length Z1 = length Z" "do {
        new \<leftarrow> (if int (length L) = 0 then rl_upd (L @ R @ t # Z) 0 (\<lambda>z. z\<lparr>rvcn := 0\<rparr>) else Some (L @ R @ t # Z));
        adjust_vcns_from (\<lambda>l. l = 0) new (if int (length L) = 0 then 1 else int (length L)) } = Some (L @ ?R @ ?t # Z1)"
      using collapse_adjust [OF cs(1,2) A(3) r(2) w(1) Z(1,2) refl] by blast
    have ev: "min (s64 (start + len - 1)) (s64 (rvcn t - 1)) = ?m - 1" using r w by simp
    have LR: "seg 0 (L @ ?R) (rvcn t + ?d)" using cs(1) seg_shift [OF cs(2), of ?d] by (auto simp: seg_append)
    have len: "int c = int (length (L @ ?R @ ?t # Z1))" using Z(3) Z1(1) by simp
    have td: "rvcn t + ?d < 9223372036854775808" "rlcn ?t = LCN_ENOENT" using w(1) assms(3) A(4) by simp_all
    obtain W Z' q where mg: "collapse_merge (L @ ?R @ ?t # Z1) (int c) (int (length L)) = Some (W @ ?t # Z', q)"
      "int (length W) + q = int (length (L @ ?R))" "same_seg 0 (L @ ?R) W (rvcn t + ?d)"
      using collapse_merge_ok [OF LR cs(3) _ td refl len] by auto
    have "ntfs_rl_collapse_range rl (int (length rl)) start len = Some (Inr (W @ ?t # Z', P @ [?p], int (length (W @ [?t]))))"
      unfolding A(1) collapse_range_code [OF f(1) A(3,4) ev f(2-7,12,13) f(14) [folded Z_def, unfolded append_Nil] Z1(2) mg(1) f(15)] f(11) using mg(2) by simp
    moreover have "collapsed start ?m (A @ [t]) (W @ [?t]) (P @ [?p])"
      by (rule collapsedI [OF f(10) mg(3) w(2) A(3) _ _ r(1-3)]) simp_all
    ultimately show ?case
      by (intro exI [of _ "W @ ?t # Z'"] exI [of _ "P @ [?p]"] exI [of _ "int (length (W @ [?t]))"]) (simp add: A(1) nat_add_distrib)
  qed
qed

theorem collapse_range_exact_witness:
  "plain_rl 0 sample_rl \<and> (\<exists>new punch cnt. ntfs_rl_collapse_range sample_rl (int (length sample_rl)) 2 303 = Some (Inr (new, punch, cnt)) \<and>
     collapsed 2 305 sample_rl (take (nat cnt) new) punch)"
proof -
  have "\<exists>new punch cnt. ntfs_rl_collapse_range sample_rl (int (length sample_rl)) 2 303 = Some (Inr (new, punch, cnt)) \<and>
    0 \<le> cnt \<and> cnt \<le> int (length new) \<and> collapsed 2 (2 + 303) sample_rl (take (nat cnt) new) punch"
    by (rule collapse_range_exact [OF sample_rl_plain]) (simp_all add: sample_rl_def)
  then show ?thesis using sample_rl_plain by auto
qed

section \<open>Inserting a hole\<close>

lemma insert_range_build_parts:
  assumes "k = int (length B)" "s0 = int (length S)" "n2 = int (length M)" "n3 = int (length V)"
    "sp = (case spl of None \<Rightarrow> [] | Some p \<Rightarrow> [p])" "\<And>p. spl = Some p \<Longrightarrow> LCN_HOLE \<le> rlcn p"
  shows "insert_range_build (B @ V) (S @ M @ Q) s0 k n2 n3 spl = do {
     new \<leftarrow> adjust_vcns_from (\<lambda>l. l \<le> 0) (B @ sp @ M @ V) (if B @ sp @ M = [] then 1 else int (length (B @ sp @ M)));
     Some (Inr (new, int (length (B @ sp @ M @ V)))) }"
proof -
  let ?c = "length B + length sp + length M + length V"
  have split: "(case spl of None \<Rightarrow> False | Some p \<Rightarrow> LCN_HOLE \<le> rlcn p) = (sp \<noteq> [])" "int (of_bool (sp \<noteq> [])) = int (length sp)"
    using assms(5,6) by (auto split: option.splits)
  have ca: "rl_calloc (k + n2 + n3 + of_bool (sp \<noteq> [])) = Some ([] @ replicate ?c zero_rle)"
    using assms(1-4) split(2) by (simp add: rl_calloc_def nat_add_distrib add_ac)
  have 1: "ntfs_rl_mc ([] @ replicate ?c zero_rle) 0 (B @ V) 0 k = Some (B @ replicate (length sp + length M + length V) zero_rle)"
    using rl_mc_parts [of 0 "[]" 0 "[]" k B "replicate ?c zero_rle" V] assms(1) by simp
  have 2: "(case spl of None \<Rightarrow> Some (B @ replicate (length sp + length M + length V) zero_rle)
       | Some p \<Rightarrow> if sp \<noteq> [] then ntfs_rl_mc (B @ replicate (length sp + length M + length V) zero_rle) k [p] 0 1
            else Some (B @ replicate (length sp + length M + length V) zero_rle)) = Some ((B @ sp) @ replicate (length M + length V) zero_rle)"
  proof (cases spl)
    case (Some p)
    then show ?thesis using rl_mc_parts [of k B 0 "[]" 1 "[p]" "replicate (length sp + length M + length V) zero_rle" "[]"] assms(1,5) by simp
  qed (use assms(5) in simp)
  have n1: "k + of_bool (sp \<noteq> []) = int (length (B @ sp))" using assms(1) split(2) by simp
  have 3: "ntfs_rl_mc ((B @ sp) @ replicate (length M + length V) zero_rle) (int (length (B @ sp))) (S @ M @ Q) s0 n2 =
      Some ((B @ sp @ M) @ replicate (length V) zero_rle)"
    using rl_mc_parts [OF refl assms(2,3), of "replicate (length M + length V) zero_rle" "B @ sp" Q] by simp
  have 4: "ntfs_rl_mc ((B @ sp @ M) @ replicate (length V) zero_rle) (int (length (B @ sp)) + n2) (B @ V) k n3 = Some (B @ sp @ M @ V)"
    using rl_mc_parts [of "int (length (B @ sp)) + n2" "B @ sp @ M" k B n3 V "replicate (length V) zero_rle" "[]"] assms(1,3,4) by simp
  have e: "int (length (B @ sp @ M)) = 0 \<longleftrightarrow> B @ sp @ M = []" by (metis length_0_conv of_nat_eq_0_iff)
  have z: "int (length (B @ sp)) + n2 = int (length (B @ sp @ M))" "int (length (B @ sp @ M)) + n3 = int (length (B @ sp @ M @ V))"
    using assms(3,4) by simp_all
  show ?thesis
    unfolding insert_range_build_def Let_def split(1) ca option.case 1 2 bind.bind_lunit n1 3 4
    unfolding z e by (rule refl)
qed

text \<open>What inserting a hole of \<open>len\<close> clusters at \<open>a\<close> has to do.\<close>

definition hole_inserted :: "int \<Rightarrow> int \<Rightarrow> int \<Rightarrow> rle list \<Rightarrow> rle list \<Rightarrow> bool" where
  "hole_inserted v a len rl rl' \<longleftrightarrow> runs_from v rl' \<and> last rl' = rle_shift len (last rl) \<and>
     (\<forall>vcn. v \<le> vcn \<and> vcn < rvcn (last rl') \<longrightarrow>
        cluster_of rl' vcn = (if vcn < a then cluster_of rl vcn else if vcn < a + len then LCN_HOLE else cluster_of rl (vcn - len)))"

lemma hole_insertedI:
  assumes "seg v A (rvcn t)" "seg v W (rvcn t + len)" "rlen t = 0" "v \<le> a" "a \<le> rvcn t" "0 < len"
    "\<And>vcn. v \<le> vcn \<Longrightarrow> vcn < rvcn t + len \<Longrightarrow>
       clusters W vcn = (if vcn < a then clusters A vcn else if vcn < a + len then LCN_HOLE else clusters A (vcn - len))"
  shows "hole_inserted v a len (A @ [t]) (W @ [rle_shift len t])"
  using assms cluster_of_seg [OF assms(1)] cluster_of_seg [of v W "rle_shift len t"] by (auto simp: hole_inserted_def runs_from_seg)

lemma adjust_from_ok:
  assumes "seg v U (m + d)" "U \<noteq> []" "seg m R (rvcn t)" "rlen t = 0" "0 \<le> v" "rvcn t + d < 9223372036854775808" "i = int (length U)"
  shows "adjust_vcns_from (\<lambda>l. l \<le> 0) (U @ R @ [t]) i = Some (U @ map (rle_shift d) R @ [rle_shift d t])"
proof -
  obtain U0 l where U: "U = U0 @ [l]" using assms(2) by (cases U rule: rev_cases) auto
  have l: "rvcn l + rlen l = m + d" using assms(1) U by (auto simp: seg_append)
  have "adjust_vcns (\<lambda>l. l \<le> 0) l (R @ t # []) = Some (map (rle_shift d) R @ rle_shift d t # [])"
    by (rule adjust_vcns_ok [OF assms(3,4) _ _ l _ assms(6)]) (use seg_le [OF assms(1)] assms(5) in simp_all)
  then show ?thesis using U assms(7) by (simp add: adjust_vcns_from_def nat_add_distrib)
qed

lemma insert_split_left:
  assumes "B = B0 @ [b]" "rlcn b = LCN_HOLE" "rvcn x = a \<or> rlcn x = LCN_HOLE" "rlcn h = LCN_HOLE" "in_s64 (rlen b + rlen h)" "k = int (length B)"
  shows "insert_range_split (B @ x # D) [h] 1 a k = Some (B0 @ b\<lparr>rlen := rlen b + rlen h\<rparr> # x # D, 1, 0, None)"
proof -
  have "ntfs_rle_lcn_contiguous b h" using assms(2,4) by (simp add: ntfs_rle_lcn_contiguous_def)
  then show ?thesis using assms by (auto simp: insert_range_split_def rl_upd_def)
qed

lemma insert_split_right:
  assumes "B = [] \<or> rlcn (last B) \<noteq> LCN_HOLE" "list_all plain_run B" "\<forall>b\<in>set B. 0 < rlen b" "rlcn x = LCN_HOLE" "rlcn h = LCN_HOLE" "in_s64 (rlen x + rlen h)"
    "k = int (length B)"
  shows "insert_range_split (B @ x # D) [h] 1 a k = Some (B @ x\<lparr>rlen := rlen x + rlen h\<rparr> # D, 0, 0, None)"
  using assms by (cases B rule: rev_cases) (auto simp: insert_range_split_def ntfs_rle_lcn_contiguous_def plain_run_def)

lemma insert_split_plain:
  assumes "B = [] \<or> rlcn (last B) \<noteq> LCN_HOLE" "list_all plain_run B" "\<forall>b\<in>set B. 0 < rlen b" "rlcn x \<noteq> LCN_HOLE" "rlcn h = LCN_HOLE" "rvcn x = a"
    "plain_run x \<or> rlcn x = LCN_ENOENT" "0 \<le> rlen x" "k = int (length B)"
  shows "insert_range_split (B @ x # D) [h] 1 a k = Some (B @ x # D, 0, 1, None)"
  using assms by (cases B rule: rev_cases) (auto simp: insert_range_split_def ntfs_rle_lcn_contiguous_def plain_run_def)

lemma insert_split_run:
  assumes "rvcn x < a" "a < rvcn x + rlen x" "0 \<le> rlcn x" "plain_run x" "0 \<le> rvcn x" "rvcn x + rlen x < 9223372036854775808" "k = int (length B)"
  shows "insert_range_split (B @ x # D) [h] 1 a k = Some (B @ rle_tail a x # D, 0, 1, Some (rle_head a x))"
proof -
  have "s64 (a - rvcn x) = a - rvcn x" "s64 (rlcn x + (a - rvcn x)) = rlcn x + (a - rvcn x)" "s64 (rlen x - (a - rvcn x)) = rlen x - (a - rvcn x)"
    using assms by (auto simp: plain_run_def)
  then show ?thesis using assms by (simp add: insert_range_split_def rle_tail_def rle_head_def Let_def)
qed

text \<open>The code up to the split, for an insertion point inside a run or at the end of the list.\<close>

lemma insert_range_unfold:
  assumes "ntfs_rl_find_vcn_nolock (B @ x # D) (rvcn h) = Some (Some (length B))" "rlcn h = LCN_HOLE"
    "rlcn (last (x # D)) = LCN_ENOENT" "rlen (last (x # D)) = 0"
    "rlcn x = LCN_ENOENT \<and> rvcn x = rvcn h \<or> rlcn x \<noteq> LCN_ENOENT \<and> ntfs_rle_contain x (rvcn h)"
  shows "ntfs_rl_insert_range (B @ x # D) (int (length (B @ x # D))) [h] 1 = do {
     (dst, s0, src_cnt, spl) \<leftarrow> insert_range_split (B @ x # D) [h] 1 (rvcn h) (int (length B));
     insert_range_build dst [h] s0 (int (length B)) src_cnt (1 + int (length D)) spl }"
proof -
  have e: "rl_at (B @ x # D) (int (length (B @ x # D)) - 1) = Some (last (x # D))" by (cases D rule: rev_cases) simp_all
  have l: "\<not> (int (length (B @ x # D)) \<le> 0 \<or> (1 :: int) \<le> 0)" "int (length (B @ x # D)) - int (length B) = 1 + int (length D)" by simp_all
  show ?thesis using assms(2-5)
    unfolding ntfs_rl_insert_range_def if_not_P [OF l(1)] e bind.bind_lunit
    by (auto simp: Let_def assms(1) simp del: rl_at_parts(3) cong: if_cong) 
qed

text \<open>An insertion point: the element found there and what the lists around it are.\<close>

definition ins_point :: "int \<Rightarrow> int \<Rightarrow> rle list \<Rightarrow> rle \<Rightarrow> rle list \<Rightarrow> rle \<Rightarrow> rle list \<Rightarrow> rle list \<Rightarrow> bool" where
  "ins_point v a A t B x C D \<longleftrightarrow> A @ [t] = B @ x # D \<and> seg v B (rvcn x) \<and>
     (x = t \<and> a = rvcn t \<and> A = B \<and> C = [] \<and> D = [] \<or>
      A = B @ x # C \<and> D = C @ [t] \<and> rvcn x \<le> a \<and> a < rvcn x + rlen x \<and> 0 < rlen x \<and> plain_run x \<and> seg (rvcn x + rlen x) C (rvcn t))"

lemma ins_point_ex:
  assumes "plain_seg v A (rvcn t)" "v \<le> a" "a \<le> rvcn t"
  obtains B x C D where "ins_point v a A t B x C D"
proof (cases "a = rvcn t")
  case True
  then show thesis using that [of A t "[]" "[]"] assms(1) by (simp add: ins_point_def plain_seg_def)
next
  case False
  then obtain B x C where "A = B @ x # C" "seg v B (rvcn x)" "rvcn x \<le> a" "a < rvcn x + rlen x" "0 < rlen x" "seg (rvcn x + rlen x) C (rvcn t)"
    using seg_locate [of v A "rvcn t" a] assms by (auto simp: plain_seg_def)
  then show thesis using that [of B x C "C @ [t]"] assms(1) by (simp add: ins_point_def plain_seg_def)
qed

lemma ins_point_code:
  assumes p: "ins_point v a A t B x C D" and A: "plain_seg v A (rvcn t)" "rlen t = 0" "rlcn t = LCN_ENOENT"
    and h: "rvcn h = a" "rlcn h = LCN_HOLE"
  shows "ntfs_rl_insert_range (A @ [t]) (int (length (A @ [t]))) [h] 1 = do {
     (dst, s0, src_cnt, spl) \<leftarrow> insert_range_split (B @ x # D) [h] 1 a (int (length B));
     insert_range_build dst [h] s0 (int (length B)) src_cnt (1 + int (length D)) spl }"
proof -
  have w: "0 \<le> v" "rvcn t < 9223372036854775808" "seg v A (rvcn t)" using A(1) by (auto simp: plain_seg_def)
  have AB: "A @ [t] = B @ x # D" "seg v B (rvcn x)" using p by (auto simp: ins_point_def)
  have "last (x # D) = t" using arg_cong [OF AB(1), of last] by simp
  then have l: "rlcn (last (x # D)) = LCN_ENOENT" "rlen (last (x # D)) = 0" using A(2,3) by simp_all
  consider "x = t" "a = rvcn t" "D = []" | "D = C @ [t]" "rvcn x \<le> a" "a < rvcn x + rlen x" "0 < rlen x" "plain_run x" "seg (rvcn x + rlen x) C (rvcn t)"
    using p by (auto simp: ins_point_def)
  then have "ntfs_rl_find_vcn_nolock (B @ x # D) (rvcn h) = Some (Some (length B)) \<and>
      (rlcn x = LCN_ENOENT \<and> rvcn x = rvcn h \<or> rlcn x \<noteq> LCN_ENOENT \<and> ntfs_rle_contain x (rvcn h))"
  proof cases
    case 1
    obtain g where g: "rl_at (B @ x # D) 0 = Some g" "rvcn g = v" using AB(2) by (cases B) auto
    have "find_vcn_loop (B @ x # D) (rvcn h) 0 = Some (Some (length B))"
      using find_vcn_loop_seg [OF AB(2), of "rvcn h" D 0] 1 A(2,3) h(1) by simp
    then show ?thesis using g 1 A(3) h(1) seg_le [OF w(3)] by (simp add: ntfs_rl_find_vcn_nolock_def del: rl_at_parts)
  next
    case 2
    have "s64 (rvcn x + rlen x) = rvcn x + rlen x" using seg_le [OF AB(2)] seg_le [OF 2(6)] 2(4) w by simp
    then have "ntfs_rle_contain x a" using 2 by (simp add: ntfs_rle_contain_def)
    then show ?thesis using find_vcn_seg [OF AB(2) 2(4,6,2,3,5)] 2(1,5) h(1) by (auto simp: plain_run_def)
  qed
  then show ?thesis using insert_range_unfold [OF _ h(2) l] h(1) unfolding AB(1) by simp
qed

lemma adjust_from_step:
  assumes "seg v B (rvcn x)" "B \<noteq> []" "0 < rlen x" "0 \<le> v" "rvcn x < 9223372036854775808" "i = int (length B)"
  shows "adjust_vcns_from (\<lambda>l. l \<le> 0) (B @ x # Z) i = adjust_vcns_from (\<lambda>l. l \<le> 0) (B @ x # Z) (i + 1)"
proof -
  obtain B0 b where B: "B = B0 @ [b]" using assms(2) by (cases B rule: rev_cases) auto
  have "rvcn b + rlen b = rvcn x" using assms(1) B by (auto simp: seg_append)
  then have "s64 (rvcn b + rlen b) = rvcn x" using seg_le [OF assms(1)] assms(4,5) by simp
  then show ?thesis using B assms(3,6) by (simp add: adjust_vcns_from_def nat_add_distrib) (cases "adjust_vcns (\<lambda>l. l \<le> 0) x Z"; simp)
qed

text \<open>Where the hole ends up: the list is \<open>U\<close> followed by \<open>R\<close> moved up by \<open>len\<close>.\<close>

definition ins_parts :: "int \<Rightarrow> int \<Rightarrow> int \<Rightarrow> rle list \<Rightarrow> int \<Rightarrow> rle list \<Rightarrow> rle list \<Rightarrow> bool" where
  "ins_parts v a len A u U R \<longleftrightarrow> (\<exists>m. seg v U (m + len) \<and> seg m R u \<and>
     (\<forall>vcn. v \<le> vcn \<and> vcn < m + len \<longrightarrow> clusters U vcn = (if vcn < a then clusters A vcn else if vcn < a + len then LCN_HOLE else clusters A (vcn - len))) \<and>
     (\<forall>vcn. m \<le> vcn \<and> vcn < u \<longrightarrow> clusters R vcn = (if vcn + len < a then clusters A (vcn + len) else if vcn < a then LCN_HOLE else clusters A vcn)))"

lemma ins_parts_ok:
  assumes "ins_parts v a len A (rvcn t) U R" "seg v A (rvcn t)" "rlen t = 0" "v \<le> a" "a \<le> rvcn t" "0 < len" "0 \<le> v"
    "rvcn t + len < 9223372036854775808" "U \<noteq> []" "i = int (length U)"
  shows "adjust_vcns_from (\<lambda>l. l \<le> 0) (U @ R @ [t]) i = Some (U @ map (rle_shift len) R @ [rle_shift len t])"
    "hole_inserted v a len (A @ [t]) (U @ map (rle_shift len) R @ [rle_shift len t])"
proof -
  obtain m where m: "seg v U (m + len)" "seg m R (rvcn t)"
     "\<And>vcn. v \<le> vcn \<Longrightarrow> vcn < m + len \<Longrightarrow> clusters U vcn = (if vcn < a then clusters A vcn else if vcn < a + len then LCN_HOLE else clusters A (vcn - len))"
     "\<And>vcn. m \<le> vcn \<Longrightarrow> vcn < rvcn t \<Longrightarrow> clusters R vcn = (if vcn + len < a then clusters A (vcn + len) else if vcn < a then LCN_HOLE else clusters A vcn)"
    using assms(1) unfolding ins_parts_def by blast
  show "adjust_vcns_from (\<lambda>l. l \<le> 0) (U @ R @ [t]) i = Some (U @ map (rle_shift len) R @ [rle_shift len t])"
    by (rule adjust_from_ok [OF m(1) assms(9) m(2) assms(3,7,8,10)])
  have "seg v (U @ map (rle_shift len) R) (rvcn t + len)" using m(1) seg_shift [OF m(2), of len] by (auto simp: seg_append)
  moreover have "clusters (U @ map (rle_shift len) R) vcn = (if vcn < a then clusters A vcn else if vcn < a + len then LCN_HOLE else clusters A (vcn - len))"
    if "v \<le> vcn" "vcn < rvcn t + len" for vcn
    using clusters_append [OF m(1) that(1)] m(3) [OF that(1)] m(4) [of "vcn - len"] that assms(6) by (simp add: clusters_shift)
  ultimately have "hole_inserted v a len (A @ [t]) ((U @ map (rle_shift len) R) @ [rle_shift len t])"
    by (intro hole_insertedI [OF assms(2) _ assms(3-6)])
  then show "hole_inserted v a len (A @ [t]) (U @ map (rle_shift len) R @ [rle_shift len t])" by simp
qed

lemma ins_parts_left:
  assumes p: "ins_point v a A t B x C D" and B: "B = B0 @ [b]" "rlcn b = LCN_HOLE" and x: "rvcn x = a \<or> rlcn x = LCN_HOLE" and l: "0 < len"
    and t: "rlcn t = LCN_ENOENT"
  shows "ins_parts v a len A (rvcn t) (B0 @ [b\<lparr>rlen := rlen b + len\<rparr>]) (if D = [] then [] else x # C)"
proof -
  have s: "seg v B0 (rvcn b)" "0 < rlen b" "rvcn x = rvcn b + rlen b" using p B by (auto simp: ins_point_def seg_append)
  note B0 = clusters_append [OF s(1)]
  define R where "R = (if D = [] then [] else x # C)"
  have f: "A = B0 @ b # R" "seg (rvcn x) R (rvcn t)" "rvcn x \<le> a" "\<And>vcn. vcn < a \<Longrightarrow> rvcn x < a \<Longrightarrow> clusters R vcn = LCN_HOLE"
    using p B x by (auto simp: ins_point_def R_def run_at_def)
  have U: "seg v (B0 @ [b\<lparr>rlen := rlen b + len\<rparr>]) (rvcn x + len)" using s l by (auto simp: seg_append)
  have A: "clusters A vcn = (if vcn < rvcn b then clusters B0 vcn else if vcn < rvcn x then LCN_HOLE else clusters R vcn)" if "v \<le> vcn" for vcn
    using f(1) B0 [OF that] s B(2) by (simp add: run_at_def)
  have v: "v \<le> rvcn b" using seg_le [OF s(1)] .
  show ?thesis unfolding ins_parts_def R_def [symmetric]
  proof (intro exI [of _ "rvcn x"] conjI allI impI U f(2))
    fix vcn assume q: "v \<le> vcn \<and> vcn < rvcn x + len"
    have "clusters (B0 @ [b\<lparr>rlen := rlen b + len\<rparr>]) vcn = (if vcn < rvcn b then clusters B0 vcn else LCN_HOLE)"
      using B0 [of vcn "[b\<lparr>rlen := rlen b + len\<rparr>]"] q s B(2) by (simp add: run_at_def)
    then show "clusters (B0 @ [b\<lparr>rlen := rlen b + len\<rparr>]) vcn = (if vcn < a then clusters A vcn else if vcn < a + len then LCN_HOLE else clusters A (vcn - len))"
      using A [of vcn] q f(3) s f(4) [of vcn] v by auto
  next
    fix vcn assume q: "rvcn x \<le> vcn \<and> vcn < rvcn t"
    show "clusters R vcn = (if vcn + len < a then clusters A (vcn + len) else if vcn < a then LCN_HOLE else clusters A vcn)"
      using A [of vcn] A [of "vcn + len"] q f(3) s l v f(4) [of vcn] f(4) [of "vcn + len"] by auto
  qed
qed

lemma ins_parts_right:
  assumes p: "ins_point v a A t B x C D" and x: "rlcn x = LCN_HOLE" "rlcn t = LCN_ENOENT" and l: "0 < len"
  shows "ins_parts v a len A (rvcn t) (B @ [x\<lparr>rlen := rlen x + len\<rparr>]) C" "D = C @ [t]"
proof -
  have f: "A = B @ x # C" "D = C @ [t]" "seg v B (rvcn x)" "rvcn x \<le> a" "a < rvcn x + rlen x" "0 < rlen x" "seg (rvcn x + rlen x) C (rvcn t)"
    using p x by (auto simp: ins_point_def)
  show "D = C @ [t]" by (rule f(2))
  note B = clusters_append [OF f(3)]
  have A: "clusters A vcn = (if vcn < rvcn x then clusters B vcn else if vcn < rvcn x + rlen x then LCN_HOLE else clusters C vcn)" if "v \<le> vcn" for vcn
    using f(1) B [OF that] x(1) by (simp add: run_at_def)
  have v: "v \<le> rvcn x" using seg_le [OF f(3)] .
  show "ins_parts v a len A (rvcn t) (B @ [x\<lparr>rlen := rlen x + len\<rparr>]) C" unfolding ins_parts_def
  proof (intro exI [of _ "rvcn x + rlen x"] conjI allI impI f(7))
    show "seg v (B @ [x\<lparr>rlen := rlen x + len\<rparr>]) (rvcn x + rlen x + len)" using f(3,6) l by (auto simp: seg_append)
    fix vcn assume q: "v \<le> vcn \<and> vcn < rvcn x + rlen x + len"
    have "clusters (B @ [x\<lparr>rlen := rlen x + len\<rparr>]) vcn = (if vcn < rvcn x then clusters B vcn else LCN_HOLE)"
      using B [of vcn "[x\<lparr>rlen := rlen x + len\<rparr>]"] q x(1) by (simp add: run_at_def)
    then show "clusters (B @ [x\<lparr>rlen := rlen x + len\<rparr>]) vcn = (if vcn < a then clusters A vcn else if vcn < a + len then LCN_HOLE else clusters A (vcn - len))"
      using A [of vcn] A [of "vcn - len"] q f(4,5) v l by auto
  next
    fix vcn assume q: "rvcn x + rlen x \<le> vcn \<and> vcn < rvcn t"
    show "clusters C vcn = (if vcn + len < a then clusters A (vcn + len) else if vcn < a then LCN_HOLE else clusters A vcn)"
      using A [of vcn] q f(4,5) v l by auto
  qed
qed

lemma ins_parts_between:
  assumes L: "seg v L a" "\<And>vcn. v \<le> vcn \<Longrightarrow> vcn < a \<Longrightarrow> clusters L vcn = clusters A vcn"
    and R: "seg a R u" "\<And>vcn. a \<le> vcn \<Longrightarrow> vcn < u \<Longrightarrow> clusters R vcn = clusters A vcn"
    and h: "h = \<lparr>rvcn = a, rlcn = LCN_HOLE, rlen = len\<rparr>" and l: "0 < len"
  shows "ins_parts v a len A u (L @ [h]) R"
  unfolding ins_parts_def
proof (intro exI [of _ a] conjI allI impI R(1))
  show "seg v (L @ [h]) (a + len)" using L(1) h l by (auto simp: seg_append)
  show "clusters (L @ [h]) vcn = (if vcn < a then clusters A vcn else if vcn < a + len then LCN_HOLE else clusters A (vcn - len))" if "v \<le> vcn \<and> vcn < a + len" for vcn
    using clusters_append [OF L(1), of vcn "[h]"] L(2) that h by (simp add: run_at_def)
  show "clusters R vcn = (if vcn + len < a then clusters A (vcn + len) else if vcn < a then LCN_HOLE else clusters A vcn)" if "a \<le> vcn \<and> vcn < u" for vcn
    using R(2) that l by simp
qed

text \<open>The situation in which the four cases of the insertion are looked at.\<close>

definition ins_ctx :: "int \<Rightarrow> int \<Rightarrow> int \<Rightarrow> rle list \<Rightarrow> rle \<Rightarrow> rle list \<Rightarrow> rle \<Rightarrow> rle list \<Rightarrow> rle list \<Rightarrow> bool" where
  "ins_ctx v a len A t B x C D \<longleftrightarrow> ins_point v a A t B x C D \<and> plain_seg v A (rvcn t) \<and> rlen t = 0 \<and> rlcn t = LCN_ENOENT \<and>
     v \<le> a \<and> a \<le> rvcn t \<and> 0 < len \<and> rvcn t + len < 9223372036854775808"

lemma ins_ctxD:
  assumes "ins_ctx v a len A t B x C D"
  shows "ins_point v a A t B x C D" "plain_seg v A (rvcn t)" "rlen t = 0" "rlcn t = LCN_ENOENT" "v \<le> a" "a \<le> rvcn t" "0 < len"
    "rvcn t + len < 9223372036854775808" "0 \<le> v" "seg v A (rvcn t)" "list_all plain_run A"
  using assms by (auto simp: ins_ctx_def plain_seg_def list_all_iff)

lemma ins_point_cases:
  assumes "ins_ctx v a len A t B x C D"
  shows "x = t \<and> a = rvcn t \<and> A = B \<and> C = [] \<and> D = [] \<or> A = B @ x # C \<and> D = C @ [t] \<and> rvcn x \<le> a \<and> a < rvcn x + rlen x \<and>
      0 < rlen x \<and> plain_run x \<and> seg (rvcn x + rlen x) C (rvcn t)" "seg v B (rvcn x)"
  using ins_ctxD(1) [OF assms] unfolding ins_point_def by blast+

lemma ins_point_facts:
  assumes "ins_ctx v a len A t B x C D"
  shows "rvcn x \<le> a" "rvcn x \<le> rvcn t" "0 \<le> rlen x" "plain_run x \<or> rlcn x = LCN_ENOENT"
    "x # D = (if D = [] then [] else x # C) @ [t]" "A = B @ (if D = [] then [] else x # C)"
    "list_all plain_run B" "\<forall>b\<in>set B. 0 < rlen b" "y \<in> set A \<Longrightarrow> in_s64 (rlen y + len)"
  using ins_point_cases [OF assms] ins_ctxD [OF assms] seg_mem [OF ins_point_cases(2) [OF assms]] seg_mem [OF ins_ctxD(10) [OF assms], of y] by auto

text \<open>The whole function when its array is \<open>U\<close>, \<open>R\<close> and the terminator before the VCNs are set.\<close>

lemma ins_finish:
  assumes c: "ins_ctx v a len A t B x C D"
    and s: "insert_range_split (B @ x # D) [h] 1 a (int (length B)) = Some (dst, s0, n2, spl)"
    and b: "insert_range_build dst [h] s0 (int (length B)) n2 (1 + int (length D)) spl = do {
      new \<leftarrow> adjust_vcns_from (\<lambda>l. l \<le> 0) (U @ R @ [t]) (int (length U)); Some (Inr (new, int (length (U @ R @ [t])))) }"
    and p: "ins_parts v a len A (rvcn t) U R" and h: "h = \<lparr>rvcn = a, rlcn = LCN_HOLE, rlen = len\<rparr>" and U: "U \<noteq> []"
  shows "\<exists>new. ntfs_rl_insert_range (A @ [t]) (int (length (A @ [t]))) [h] 1 = Some (Inr (new, int (length new))) \<and> hole_inserted v a len (A @ [t]) new"
proof -
  note d = ins_ctxD [OF c]
  have "ntfs_rl_insert_range (A @ [t]) (int (length (A @ [t]))) [h] 1 = do {
      new \<leftarrow> adjust_vcns_from (\<lambda>l. l \<le> 0) (U @ R @ [t]) (int (length U)); Some (Inr (new, int (length (U @ R @ [t])))) }"
    using ins_point_code [OF d(1-4), of h] h unfolding s bind.bind_lunit prod.case b by simp
  then show ?thesis using ins_parts_ok [OF p d(10,3,5-7,9,8) U refl] by simp
qed

lemma insert_hole_left:
  assumes c: "ins_ctx v a len A t B x C D" and l: "B = B0 @ [b]" "rlcn b = LCN_HOLE" "rvcn x = a \<or> rlcn x = LCN_HOLE"
    and h: "h = \<lparr>rvcn = a, rlcn = LCN_HOLE, rlen = len\<rparr>"
  shows "\<exists>new. ntfs_rl_insert_range (A @ [t]) (int (length (A @ [t]))) [h] 1 = Some (Inr (new, int (length new))) \<and> hole_inserted v a len (A @ [t]) new"
proof -
  let ?U = "B0 @ [b\<lparr>rlen := rlen b + len\<rparr>]" and ?R = "if D = [] then [] else x # C"
  note f = ins_point_facts [OF c] and d = ins_ctxD [OF c]
  have "b \<in> set A" using f(6) l(1) by simp
  then have "in_s64 (rlen b + rlen h)" using f(9) h by simp
  then have s: "insert_range_split (B @ x # D) [h] 1 a (int (length B)) = Some (?U @ x # D, 1, 0, None)"
    using insert_split_left [OF l _ _ refl, of h D] h by simp
  have "insert_range_build (?U @ x # D) ([h] @ [] @ []) 1 (int (length B)) 0 (1 + int (length D)) None = do {
      new \<leftarrow> adjust_vcns_from (\<lambda>l. l \<le> 0) (?U @ [] @ [] @ x # D) (if ?U @ [] @ [] = [] then 1 else int (length (?U @ [] @ [])));
      Some (Inr (new, int (length (?U @ [] @ [] @ x # D)))) }"
    by (rule insert_range_build_parts) (use l(1) in simp_all)
  then have b: "insert_range_build (?U @ x # D) [h] 1 (int (length B)) 0 (1 + int (length D)) None = do {
      new \<leftarrow> adjust_vcns_from (\<lambda>l. l \<le> 0) (?U @ ?R @ [t]) (int (length ?U)); Some (Inr (new, int (length (?U @ ?R @ [t])))) }"
    unfolding f(5) by simp
  show ?thesis using ins_finish [OF c s b ins_parts_left [OF d(1) l d(7,4)] h] by simp
qed

lemma insert_hole_right:
  assumes c: "ins_ctx v a len A t B x C D" and l: "B = [] \<or> rlcn (last B) \<noteq> LCN_HOLE" "rlcn x = LCN_HOLE"
    and h: "h = \<lparr>rvcn = a, rlcn = LCN_HOLE, rlen = len\<rparr>"
  shows "\<exists>new. ntfs_rl_insert_range (A @ [t]) (int (length (A @ [t]))) [h] 1 = Some (Inr (new, int (length new))) \<and> hole_inserted v a len (A @ [t]) new"
proof -
  let ?x = "x\<lparr>rlen := rlen x + len\<rparr>"
  note f = ins_point_facts [OF c] and d = ins_ctxD [OF c]
  note ri = ins_parts_right [OF d(1) l(2) d(4,7)]
  have x: "x \<in> set A" "0 < rlen x" using ins_point_cases [OF c] l(2) d(4) by auto
  then have "in_s64 (rlen x + rlen h)" using f(9) h by simp
  then have s: "insert_range_split (B @ x # D) [h] 1 a (int (length B)) = Some (B @ ?x # D, 0, 0, None)"
    using insert_split_right [OF l(1) f(7,8) l(2) _ _ refl, of h D a] h by simp
  have "insert_range_build (B @ ?x # D) ([] @ [] @ [h]) 0 (int (length B)) 0 (1 + int (length D)) None = do {
      new \<leftarrow> adjust_vcns_from (\<lambda>l. l \<le> 0) (B @ [] @ [] @ ?x # D) (if B @ [] @ [] = [] then 1 else int (length (B @ [] @ [])));
      Some (Inr (new, int (length (B @ [] @ [] @ ?x # D)))) }"
    by (rule insert_range_build_parts) simp_all
  moreover have "adjust_vcns_from (\<lambda>l. l \<le> 0) (B @ ?x # D) (int (length B)) = adjust_vcns_from (\<lambda>l. l \<le> 0) (B @ ?x # D) (int (length B) + 1)" if "B \<noteq> []"
    by (rule adjust_from_step [OF _ that]) (use ins_point_cases(2) [OF c] x f(2) d(7,8,9) in auto)
  ultimately have b: "insert_range_build (B @ ?x # D) [h] 0 (int (length B)) 0 (1 + int (length D)) None = do {
      new \<leftarrow> adjust_vcns_from (\<lambda>l. l \<le> 0) ((B @ [?x]) @ C @ [t]) (int (length (B @ [?x]))); Some (Inr (new, int (length ((B @ [?x]) @ C @ [t])))) }"
    using ri(2) by (cases "B = []") (simp_all add: add_ac)
  show ?thesis using ins_finish [OF c s b ri(1) h] by simp
qed

lemma insert_hole_plain:
  assumes c: "ins_ctx v a len A t B x C D" and l: "B = [] \<or> rlcn (last B) \<noteq> LCN_HOLE" "rlcn x \<noteq> LCN_HOLE" "rvcn x = a"
    and h: "h = \<lparr>rvcn = a, rlcn = LCN_HOLE, rlen = len\<rparr>"
  shows "\<exists>new. ntfs_rl_insert_range (A @ [t]) (int (length (A @ [t]))) [h] 1 = Some (Inr (new, int (length new))) \<and> hole_inserted v a len (A @ [t]) new"
proof -
  let ?R = "if D = [] then [] else x # C"
  note f = ins_point_facts [OF c] and d = ins_ctxD [OF c]
  have s: "insert_range_split (B @ x # D) [h] 1 a (int (length B)) = Some (B @ x # D, 0, 1, None)"
    using insert_split_plain [OF l(1) f(7,8) l(2) _ l(3) f(4,3) refl, of h D] h by simp
  have B: "seg v B a" using ins_point_cases(2) [OF c] l(3) by simp
  have R: "seg a ?R (rvcn t)" using ins_point_cases(1) [OF c] l(3) by auto
  have ip: "ins_parts v a len A (rvcn t) (B @ [h]) ?R"
    by (rule ins_parts_between [OF B _ R _ h d(7)]) (use clusters_append [OF B, of _ ?R] f(6) d(5) in simp_all)
  have "insert_range_build (B @ x # D) ([] @ [h] @ []) 0 (int (length B)) 1 (1 + int (length D)) None = do {
      new \<leftarrow> adjust_vcns_from (\<lambda>l. l \<le> 0) (B @ [] @ [h] @ x # D) (if B @ [] @ [h] = [] then 1 else int (length (B @ [] @ [h])));
      Some (Inr (new, int (length (B @ [] @ [h] @ x # D)))) }"
    by (rule insert_range_build_parts) simp_all
  then have b: "insert_range_build (B @ x # D) [h] 0 (int (length B)) 1 (1 + int (length D)) None = do {
      new \<leftarrow> adjust_vcns_from (\<lambda>l. l \<le> 0) ((B @ [h]) @ ?R @ [t]) (int (length (B @ [h]))); Some (Inr (new, int (length ((B @ [h]) @ ?R @ [t])))) }"
    unfolding f(5) by simp
  show ?thesis using ins_finish [OF c s b ip h] by simp
qed

lemma insert_hole_split:
  assumes c: "ins_ctx v a len A t B x C D" and l: "rvcn x < a" "rlcn x \<noteq> LCN_HOLE" and h: "h = \<lparr>rvcn = a, rlcn = LCN_HOLE, rlen = len\<rparr>"
  shows "\<exists>new. ntfs_rl_insert_range (A @ [t]) (int (length (A @ [t]))) [h] 1 = Some (Inr (new, int (length new))) \<and> hole_inserted v a len (A @ [t]) new"
proof -
  let ?R = "rle_tail a x # C" and ?L = "B @ [rle_head a x]"
  note f = ins_point_facts [OF c] and d = ins_ctxD [OF c] and q = ins_point_cases(2) [OF c]
  have x: "A = B @ x # C" "D = C @ [t]" "a < rvcn x + rlen x" "plain_run x" "seg (rvcn x + rlen x) C (rvcn t)"
    using ins_point_cases(1) [OF c] l(1) by auto
  have lc: "0 \<le> rlcn x" using x(4) l(2) by (auto simp: plain_run_def)
  have xb: "0 \<le> rvcn x" "rvcn x + rlen x < 9223372036854775808" using seg_le [OF q] seg_le [OF x(5)] d(7-9) by simp_all
  note s = insert_split_run [OF l(1) x(3) lc x(4) xb refl, of B D h]
  have ch: "cut_head a x = [rle_head a x]" using l(1) by (simp add: cut_head_def)
  have R: "seg a ?R (rvcn t)" using x(3,5) l(1) by (simp add: add.commute)
  have ip: "ins_parts v a len A (rvcn t) (?L @ [h]) ?R"
    by (rule ins_parts_between [OF kept_left [OF q f(1) x(3,1), unfolded ch] R _ h d(7)]) (use clusters_append [OF q] x(1) d(5) l(1) in simp_all)
  have "insert_range_build (B @ rle_tail a x # D) ([] @ [h] @ []) 0 (int (length B)) 1 (1 + int (length D)) (Some (rle_head a x)) = do {
      new \<leftarrow> adjust_vcns_from (\<lambda>l. l \<le> 0) (B @ [rle_head a x] @ [h] @ rle_tail a x # D)
        (if B @ [rle_head a x] @ [h] = [] then 1 else int (length (B @ [rle_head a x] @ [h])));
      Some (Inr (new, int (length (B @ [rle_head a x] @ [h] @ rle_tail a x # D)))) }"
    by (rule insert_range_build_parts) (use lc in simp_all)
  then have b: "insert_range_build (B @ rle_tail a x # D) [h] 0 (int (length B)) 1 (1 + int (length D)) (Some (rle_head a x)) = do {
      new \<leftarrow> adjust_vcns_from (\<lambda>l. l \<le> 0) ((?L @ [h]) @ ?R @ [t]) (int (length (?L @ [h]))); Some (Inr (new, int (length ((?L @ [h]) @ ?R @ [t])))) }"
    unfolding x(2) by simp
  show ?thesis using ins_finish [OF c s b ip h] by simp
qed

text \<open>
  C10.  \<open>ntfs_rl_insert_range\<close> with a hole, as \<open>ntfs_non_resident_attr_insert_range\<close> calls it, does exactly
  what it should on a complete run list and any insertion point up to its end: the clusters before
  the point stay, the hole follows, and every cluster behind the point moves up by the length of
  the hole; holes that meet are joined, and the element count is the size of the new array.
\<close>

theorem insert_hole_exact:
  assumes "plain_rl v rl" "v \<le> start" "start \<le> rvcn (last rl)" "0 < len" "rvcn (last rl) + len < 9223372036854775808"
  shows "\<exists>new. ntfs_rl_insert_range rl (int (length rl)) [\<lparr>rvcn = start, rlcn = LCN_HOLE, rlen = len\<rparr>] 1 = Some (Inr (new, int (length new))) \<and>
    hole_inserted v start len rl new"
proof -
  obtain A t where A: "rl = A @ [t]" "plain_seg v A (rvcn t)" "rlen t = 0" "rlcn t = LCN_ENOENT" by (rule plain_rl_parts [OF assms(1)])
  have r: "start \<le> rvcn t" "rvcn t + len < 9223372036854775808" using assms A(1) by simp_all
  obtain B x C D where "ins_point v start A t B x C D" by (rule ins_point_ex [OF A(2) assms(2) r(1)])
  then have c: "ins_ctx v start len A t B x C D" using A assms(2,4) r by (simp add: ins_ctx_def)
  consider (left) B0 b where "B = B0 @ [b]" "rlcn b = LCN_HOLE" "rvcn x = start \<or> rlcn x = LCN_HOLE"
    | (right) "B = [] \<or> rlcn (last B) \<noteq> LCN_HOLE" "rlcn x = LCN_HOLE"
    | (plain) "B = [] \<or> rlcn (last B) \<noteq> LCN_HOLE" "rlcn x \<noteq> LCN_HOLE" "rvcn x = start"
    | (split) "rvcn x < start" "rlcn x \<noteq> LCN_HOLE"
    using ins_point_facts(1) [OF c] by (cases B rule: rev_cases) (auto, fastforce+)
  then show ?thesis unfolding A(1)
    using insert_hole_left [OF c] insert_hole_right [OF c] insert_hole_plain [OF c] insert_hole_split [OF c] by cases blast+
qed

theorem insert_hole_exact_witness:
  "plain_rl 0 sample_rl \<and> (\<exists>new. ntfs_rl_insert_range sample_rl (int (length sample_rl)) [\<lparr>rvcn = 2, rlcn = LCN_HOLE, rlen = 7\<rparr>] 1 =
     Some (Inr (new, int (length new))) \<and> hole_inserted 0 2 7 sample_rl new)"
proof
  show "\<exists>new. ntfs_rl_insert_range sample_rl (int (length sample_rl)) [\<lparr>rvcn = 2, rlcn = LCN_HOLE, rlen = 7\<rparr>] 1 =
     Some (Inr (new, int (length new))) \<and> hole_inserted 0 2 7 sample_rl new"
    by (rule insert_hole_exact [OF sample_rl_plain]) (simp_all add: sample_rl_def)
qed (rule sample_rl_plain)

text \<open>
  With a data run as the source, \<open>ntfs_rl_insert_range\<close> can join it to the wrong end: it asks
  whether the source follows the run to its right on the disk (runlist.c:1741), where it should ask
  whether that run follows the source.  Here the clusters 1004 and 1005 are inserted in front of
  a file at 1000 to 1003; the result maps VCN 0 to 1000 and VCN 4 to 1004.
\<close>

lemma insert_range_swaps_data:
  "\<exists>new. ntfs_rl_insert_range [\<lparr>rvcn = 0, rlcn = 1000, rlen = 4\<rparr>, \<lparr>rvcn = 4, rlcn = LCN_ENOENT, rlen = 0\<rparr>] 2
       [\<lparr>rvcn = 0, rlcn = 1004, rlen = 2\<rparr>] 1 = Some (Inr (new, 2)) \<and> cluster_of new 0 = 1000 \<and> cluster_of new 4 = 1004"
  by (rule exI, rule conjI, code_simp) code_simp

end
