(* ===== verification/Mapping_Pairs.thy ===== *)
theory Mapping_Pairs
  imports Runlist
begin

text \<open>
  The compressed form of run lists on disk (core/ntfs/runlist.c): \<open>ntfs_mapping_pairs_decompress\<close>,
  \<open>ntfs_get_size_for_mapping_pairs\<close> and \<open>ntfs_mapping_pairs_build\<close>.

  An attribute record is the memory from its first byte on, up to the end of what the caller has
  read; the record's own length is a field of it.  The fields of \<open>struct ntfs_volume\<close> that are
  used (\<open>major_ver\<close>, \<open>cluster_size\<close>, \<open>cluster_size_bits\<close>) are arguments.
\<close>

abbreviation (input) ENOSPC :: int where "ENOSPC \<equiv> 28"

section \<open>Decoding\<close>

abbreviation (input) AR_LENGTH :: nat where "AR_LENGTH \<equiv> 4"
abbreviation (input) AR_LOWEST_VCN :: nat where "AR_LOWEST_VCN \<equiv> 16"
abbreviation (input) AR_HIGHEST_VCN :: nat where "AR_HIGHEST_VCN \<equiv> 24"
abbreviation (input) AR_MAPPING_PAIRS_OFFSET :: nat where "AR_MAPPING_PAIRS_OFFSET \<equiv> 32"
abbreviation (input) AR_ALLOCATED_SIZE :: nat where "AR_ALLOCATED_SIZE \<equiv> 40"

text \<open>A number of one or more bytes, least significant first; the last byte carries the sign.\<close>

definition signed_bytes :: "byte list \<Rightarrow> int" where
  "signed_bytes xs = foldl (\<lambda>d x. s64 (d * 256 + uint x)) (sint (last xs)) (rev (butlast xs))"

text \<open>
  The array that is filled: it grows by zeroed pages, so that the next element always exists.  The list
  has only the elements that were written; the zeroed rest of the page is not in it, so that a read
  behind the last element is \<open>None\<close>.
\<close>

definition arr_put :: "rle list \<Rightarrow> nat \<Rightarrow> rle \<Rightarrow> rle list" where
  "arr_put a i x = (a @ replicate (Suc i - length a) zero_rle)[i := x]"

text \<open>
  One mapping pair at \<open>pos\<close>: the element it describes, the next VCN and the new LCN, or an error
  (all of them are \<open>-EIO\<close>).
\<close>

definition decode_pair :: "buf \<Rightarrow> nat \<Rightarrow> nat \<Rightarrow> int \<Rightarrow> int \<Rightarrow> (int + rle \<times> int \<times> int) option" where
  "decode_pair m attr_end pos vcn lcn = do {
     h \<leftarrow> get8 m pos;
     let b = h AND 0xf;
     let b2 = b + ((h div 16) AND 0xf);
     if b \<noteq> 0 \<and> pos + b > attr_end then Some (Inl (- EIO))
     else do {
       len \<leftarrow> (if b \<noteq> 0 then map_option signed_bytes (slice m (pos + 1) b) else Some (- 1));
       if len < 0 then Some (Inl (- EIO))
       else if \<not> in_s64 (vcn + len) then Some (Inl (- EIO))
       else if h AND 0xf0 = 0 then Some (Inr (\<lparr>rvcn = vcn, rlcn = LCN_HOLE, rlen = len\<rparr>, vcn + len, lcn))
       else if pos + b2 > attr_end then Some (Inl (- EIO))
       else do {
         delta \<leftarrow> map_option signed_bytes (slice m (pos + b + 1) (b2 - b));
         let lcn = s64 (lcn + delta);
         if lcn < -1 then Some (Inl (- EIO))
         else if lcn \<noteq> -1 \<and> len = 0 then Some (Inl (- EIO))
         else Some (Inr (\<lparr>rvcn = vcn, rlcn = lcn, rlen = len\<rparr>, vcn + len, lcn)) } } }"

function decode_pairs :: "buf \<Rightarrow> nat \<Rightarrow> nat \<Rightarrow> int \<Rightarrow> int \<Rightarrow> rle list \<Rightarrow> nat \<Rightarrow>
    (int + rle list \<times> nat \<times> int \<times> nat) option" where
  "decode_pairs m attr_end pos vcn lcn rl rlpos =
     (if pos < attr_end then do {
        h \<leftarrow> get8 m pos;
        if h = 0 then Some (Inr (rl, rlpos, vcn, pos))
        else do {
          r \<leftarrow> decode_pair m attr_end pos vcn lcn;
          (case r of Inl err \<Rightarrow> Some (Inl err)
           | Inr (x, vcn, lcn) \<Rightarrow>
               decode_pairs m attr_end (pos + (h AND 0xf) + ((h div 16) AND 0xf) + 1) vcn lcn (arr_put rl rlpos x)
                 (if rlen x \<noteq> 0 then u16 (rlpos + 1) else rlpos)) } }
      else Some (Inr (rl, rlpos, vcn, pos)))"
  by pat_completeness auto
termination
  by (relation "measure (\<lambda>(m, attr_end, pos, vcn, lcn, rl, rlpos). attr_end - pos)") auto

declare decode_pairs.simps [simp del]

text \<open>The elements behind the last pair: more extents to follow, or the end of the attribute.\<close>

definition finish_runlist :: "nat \<Rightarrow> nat \<Rightarrow> nat \<Rightarrow> int \<Rightarrow> nat \<Rightarrow> rle list \<Rightarrow> nat \<Rightarrow> int \<Rightarrow> int + rle list \<times> nat" where
  "finish_runlist cluster_size bits lowest highest allocated rl rlpos vcn =
     (if highest \<noteq> 0 \<and> s64 (vcn - 1) \<noteq> highest then Inl (- EIO)
      else if lowest = 0 then (
        let max_cluster = s64 (int (u64 (allocated + cluster_size + 18446744073709551615) div 2 ^ bits) - 1) in
        if highest \<noteq> 0 \<and> highest < max_cluster then (
          let gap = s64 (max_cluster - highest);
              rl = arr_put rl rlpos \<lparr>rvcn = vcn, rlcn = LCN_RL_NOT_MAPPED, rlen = gap\<rparr>
          in Inr (arr_put rl (u16 (rlpos + 1)) \<lparr>rvcn = s64 (vcn + gap), rlcn = LCN_ENOENT, rlen = 0\<rparr>, u16 (rlpos + 1)))
        else if highest \<noteq> 0 \<and> highest > max_cluster then Inl (- EIO)
        else Inr (arr_put rl rlpos \<lparr>rvcn = vcn, rlcn = LCN_ENOENT, rlen = 0\<rparr>, rlpos))
      else Inr (arr_put rl rlpos \<lparr>rvcn = vcn, rlcn = LCN_RL_NOT_MAPPED, rlen = 0\<rparr>, rlpos))"

text \<open>
  The new run list on its own.  \<open>lowest_vcn\<close> must fit a signed 64-bit number; the mapping pairs
  must begin within the attribute and end with a zero byte within it.
\<close>

definition decompress_new :: "nat \<Rightarrow> nat \<Rightarrow> buf \<Rightarrow> (int + rle list \<times> nat) option" where
  "decompress_new cluster_size bits m = do {
     lowest \<leftarrow> get_le 8 m AR_LOWEST_VCN;
     if lowest \<ge> 9223372036854775808 then Some (Inl (- EIO))
     else do {
       off \<leftarrow> get_le 2 m AR_MAPPING_PAIRS_OFFSET;
       attr_end \<leftarrow> get_le 4 m AR_LENGTH;
       if off > attr_end then Some (Inl (- EIO))
       else do {
         let (rl, rlpos) = (if lowest \<noteq> 0 then ([\<lparr>rvcn = 0, rlcn = LCN_RL_NOT_MAPPED, rlen = int lowest\<rparr>], 1) else ([], 0));
         r \<leftarrow> decode_pairs m attr_end off (int lowest) 0 rl rlpos;
         (case r of Inl err \<Rightarrow> Some (Inl err)
          | Inr (rl, rlpos, vcn, pos) \<Rightarrow>
              if pos \<ge> attr_end then Some (Inl (- EIO))
              else do {
                highest \<leftarrow> get_le 8 m AR_HIGHEST_VCN;
                allocated \<leftarrow> get_le 8 m AR_ALLOCATED_SIZE;
                Some (finish_runlist cluster_size bits lowest (s64 (int highest)) allocated rl rlpos vcn) }) } } }"

definition ntfs_mapping_pairs_decompress :: "rle \<Rightarrow> nat \<Rightarrow> nat \<Rightarrow> buf \<Rightarrow> runlist option \<Rightarrow>
    ((int + rle list option \<times> int option) \<times> runlist option) option" where
  "ntfs_mapping_pairs_decompress junk cluster_size bits m old = do {
     r \<leftarrow> decompress_new cluster_size bits m;
     (case r of Inl err \<Rightarrow> Some (Inl err, old)
      | Inr (rl, rlpos) \<Rightarrow> (case old of
            None \<Rightarrow> Some (Inr (Some rl, Some (int rlpos + 1)), old)
          | Some o1 \<Rightarrow>
              if rl_rl o1 = None then Some (Inr (Some rl, Some (int rlpos + 1)), old)
              else do {
                (res, o1) \<leftarrow> ntfs_runlists_merge junk o1 (Some rl) (rlpos + 1);
                Some (res, Some o1) })) }"

section \<open>Encoding\<close>

text \<open>The bytes of a number: shifted out until what is left is the sign.\<close>

function sig_len :: "int \<Rightarrow> nat" where
  "sig_len l = (let l' = l div 256 in if l' \<noteq> 0 \<and> l' \<noteq> -1 then Suc (sig_len l') else 1)"
  by pat_completeness auto
termination
proof (relation "measure (\<lambda>l. nat \<bar>l\<bar>)")
  fix l l' :: int assume a: "l' = l div 256" "l' \<noteq> 0 \<and> l' \<noteq> -1"
  have "\<bar>l'\<bar> < \<bar>l\<bar>"
  proof (cases "0 \<le> l")
    case True
    then have "0 \<le> l'" using a(1) by (simp add: pos_imp_zdiv_nonneg_iff)
    moreover have "l' * 256 \<le> l" using a(1) by linarith
    ultimately show ?thesis using a(2) by linarith
  next
    case False
    then have "l' < 0" using a(1) by (simp add: neg_imp_zdiv_neg_iff)
    moreover have "l \<le> l' * 256 + 255" using a(1) by linarith
    ultimately show ?thesis using a(2) by linarith
  qed
  then show "(l', l) \<in> measure (\<lambda>l. nat \<bar>l\<bar>)" by simp
qed simp

declare sig_len.simps [simp del]

text \<open>The byte at \<open>k\<close> read as a signed byte.\<close>

definition sbyte :: "int \<Rightarrow> nat \<Rightarrow> int" where
  "sbyte n k = (let j = n div 256 ^ k mod 256 in if j \<ge> 128 then j - 256 else j)"

definition ntfs_get_nr_significant_bytes :: "int \<Rightarrow> nat" where
  "ntfs_get_nr_significant_bytes n =
     (let i = sig_len n; j = sbyte n (i - 1)
      in if (n < 0 \<and> j \<ge> 0) \<or> (n > 0 \<and> j < 0) then i + 1 else i)"

definition sig_bytes :: "int \<Rightarrow> byte list" where
  "sig_bytes n =
     (let i = sig_len n; j = sbyte n (i - 1); xs = map (\<lambda>k. word_of_int (n div 256 ^ k) :: byte) [0..<i]
      in if n < 0 \<and> j \<ge> 0 then xs @ [255] else if n > 0 \<and> j < 0 then xs @ [0] else xs)"

text \<open>
  \<open>ntfs_write_significant_bytes\<close>: \<open>room\<close> is the number of bytes from \<open>dst\<close> to \<open>dst_max\<close> inclusive;
  the bytes are stored one by one until the room is used up.  The result is the number of bytes
  written or \<open>-ENOSPC\<close>, and the buffer.
\<close>

definition ntfs_write_significant_bytes :: "buf \<Rightarrow> nat \<Rightarrow> nat \<Rightarrow> int \<Rightarrow> (int \<times> buf) option" where
  "ntfs_write_significant_bytes m dst dst_max n =
     (let xs = sig_bytes n; room = Suc dst_max - dst in do {
        m \<leftarrow> blit m dst (take room xs);
        Some (if length xs \<le> room then int (length xs) else - ENOSPC, m) })"

section \<open>The size of the mapping pairs array\<close>

text \<open>Skipping to the element that contains a VCN, from index \<open>i\<close> on; what follows it is the rest of the list.\<close>

fun rl_skip :: "rle list \<Rightarrow> int \<Rightarrow> nat \<Rightarrow> (nat \<times> rle list) option" where
  "rl_skip [] v i = None"
| "rl_skip (x # xs) v i =
     (if rlen x = 0 then Some (i, x # xs)
      else (case xs of [] \<Rightarrow> None | y # _ \<Rightarrow> if v \<ge> rvcn y then rl_skip xs v (i + 1) else Some (i, x # xs)))"

text \<open>The length of a run capped at \<open>last_vcn\<close>, and whether it was.\<close>

definition run_cap :: "int \<Rightarrow> rle \<Rightarrow> rle list \<Rightarrow> (int \<times> bool) option" where
  "run_cap last_vcn x xs =
     (if last_vcn \<ge> 0 then (case xs of [] \<Rightarrow> None
        | y # _ \<Rightarrow> Some (if rvcn y > last_vcn
            then (if rvcn y > s64 (last_vcn + 1) then s64 (s64 (last_vcn + 1) - rvcn x) else rlen x, True)
            else (rlen x, False)))
      else Some (rlen x, False))"

definition bad_run :: "rle \<Rightarrow> bool" where
  "bad_run x \<longleftrightarrow> rlen x < 0 \<or> rlcn x < LCN_HOLE"

definition bad_run_err :: "rle \<Rightarrow> int" where
  "bad_run_err x = (if rlcn x = LCN_RL_NOT_MAPPED then - EINVAL else - EIO)"

fun size_runs :: "nat \<Rightarrow> int \<Rightarrow> int \<Rightarrow> int \<Rightarrow> int \<Rightarrow> bool \<Rightarrow> rle list \<Rightarrow> int option" where
  "size_runs major last_vcn max_mp_size prev_lcn rls the_end [] = None"
| "size_runs major last_vcn max_mp_size prev_lcn rls the_end (x # xs) =
     (if rlen x = 0 \<or> the_end then Some rls
      else if bad_run x then Some (bad_run_err x)
      else do {
        (len, the_end) \<leftarrow> run_cap last_vcn x xs;
        let rls = rls + 1 + int (ntfs_get_nr_significant_bytes len);
        let (rls, prev_lcn) = (if rlcn x \<ge> 0 \<or> major < 3
          then (rls + int (ntfs_get_nr_significant_bytes (s64 (rlcn x - prev_lcn))), rlcn x) else (rls, prev_lcn));
        if rls > max_mp_size then Some rls
        else size_runs major last_vcn max_mp_size prev_lcn rls the_end xs })"

definition ntfs_get_size_for_mapping_pairs :: "nat \<Rightarrow> rle list option \<Rightarrow> int \<Rightarrow> int \<Rightarrow> int \<Rightarrow> int option" where
  "ntfs_get_size_for_mapping_pairs major rl0 first_vcn last_vcn max_mp_size0 =
     (if first_vcn < 0 \<or> last_vcn < -1 then Some (- EINVAL)
      else if last_vcn \<ge> 0 \<and> first_vcn > last_vcn then Some (- EINVAL)
      else case rl0 of None \<Rightarrow> Some 1
      | Some rl \<Rightarrow> do {
          let max_mp_size = (if max_mp_size0 \<le> 0 then 2147483647 else max_mp_size0);
          (i, rl) \<leftarrow> rl_skip rl first_vcn 0;
          x \<leftarrow> rl_at rl 0;
          if (rlen x = 0 \<and> first_vcn > rvcn x) \<or> first_vcn < rvcn x then Some (- EINVAL)
          else if first_vcn > rvcn x then
            (if bad_run x then Some (bad_run_err x)
             else do {
               (len, the_end) \<leftarrow> run_cap last_vcn x (tl rl);
               let delta = s64 (first_vcn - rvcn x);
               let rls = 1 + 1 + int (ntfs_get_nr_significant_bytes (s64 (len - delta)));
               let (rls, prev_lcn) = (if rlcn x \<ge> 0 \<or> major < 3 then
                   (let p = (if rlcn x \<ge> 0 then s64 (rlcn x + delta) else rlcn x)
                    in (rls + int (ntfs_get_nr_significant_bytes p), p)) else (rls, 0));
               size_runs major last_vcn max_mp_size prev_lcn rls the_end (tl rl) })
          else size_runs major last_vcn max_mp_size 0 1 False rl })"

section \<open>Building the mapping pairs array\<close>

text \<open>
  One pair at \<open>dst\<close>: its bytes, then its header.  \<open>None\<close> as the position means that it does not fit
  (\<open>size_err\<close>); the bytes written so far stay behind.
\<close>

definition write_pair :: "buf \<Rightarrow> nat \<Rightarrow> nat \<Rightarrow> int \<Rightarrow> int option \<Rightarrow> (nat option \<times> buf) option" where
  "write_pair m dst dst_max len dlcn = do {
     (len_len, m) \<leftarrow> ntfs_write_significant_bytes m (dst + 1) dst_max len;
     if len_len < 0 then Some (None, m)
     else do {
       (lcn_len, m) \<leftarrow> (case dlcn of None \<Rightarrow> Some (0, m)
          | Some d \<Rightarrow> ntfs_write_significant_bytes m (dst + 1 + nat len_len) dst_max d);
       if lcn_len < 0 then Some (None, m)
       else (
         let dst_next = dst + nat len_len + nat lcn_len + 1 in
         if dst_next > dst_max then Some (None, m)
         else do {
           m \<leftarrow> put8 m dst (nat lcn_len * 16 + nat len_len);
           Some (Some dst_next, m) }) } }"

text \<open>
  The result of the build: the return code, the buffer, where it stopped (\<open>*stop_vcn\<close> and the
  index \<open>*stop_rl\<close>) and \<open>*de_cluster_count\<close>, both \<open>None\<close> where they are not set.
\<close>

type_synonym build_result = "int \<times> buf \<times> (int \<times> nat option) option \<times> int option"

definition build_stop :: "int \<Rightarrow> buf \<Rightarrow> nat \<Rightarrow> rle \<Rightarrow> nat \<Rightarrow> int option \<Rightarrow> build_result option" where
  "build_stop err m dst x i de = do { m \<leftarrow> put8 m dst 0; Some (err, m, Some (rvcn x, Some i), de) }"

fun build_runs :: "nat \<Rightarrow> int \<Rightarrow> nat \<Rightarrow> buf \<Rightarrow> nat \<Rightarrow> int \<Rightarrow> int \<Rightarrow> bool \<Rightarrow> nat \<Rightarrow> rle list \<Rightarrow> build_result option" where
  "build_runs major last_vcn dst_max m dst prev_lcn de the_end i [] = None"
| "build_runs major last_vcn dst_max m dst prev_lcn de the_end i (x # xs) =
     (if rlen x = 0 \<or> the_end then build_stop 0 m dst x i (Some de)
      else if bad_run x then Some (bad_run_err x, m, None, None)
      else do {
        (len, the_end) \<leftarrow> run_cap last_vcn x xs;
        let stored = (rlcn x \<ge> 0 \<or> major < 3);
        (nxt, m) \<leftarrow> write_pair m dst dst_max len (if stored then Some (s64 (rlcn x - prev_lcn)) else None);
        (case nxt of None \<Rightarrow> build_stop (- ENOSPC) m dst x i None
         | Some dst \<Rightarrow> build_runs major last_vcn dst_max m dst (if stored then rlcn x else prev_lcn)
             (if \<not> stored \<and> rlcn x = LCN_DELALLOC then (de + rlen x) mod 4294967296 else de) the_end (i + 1) xs) })"

definition ntfs_mapping_pairs_build :: "nat \<Rightarrow> buf \<Rightarrow> nat \<Rightarrow> rle list option \<Rightarrow> int \<Rightarrow> int \<Rightarrow> build_result option" where
  "ntfs_mapping_pairs_build major m dst_len rl0 first_vcn last_vcn =
     (if first_vcn < 0 \<or> last_vcn < -1 \<or> dst_len < 1 then Some (- EINVAL, m, None, None)
      else if last_vcn \<ge> 0 \<and> first_vcn > last_vcn then Some (- EINVAL, m, None, None)
      else case rl0 of None \<Rightarrow> do { m \<leftarrow> put8 m 0 0; Some (0, m, Some (0, None), None) }
      | Some rl \<Rightarrow> do {
          (i, rl) \<leftarrow> rl_skip rl first_vcn 0;
          x \<leftarrow> rl_at rl 0;
          if (rlen x = 0 \<and> first_vcn > rvcn x) \<or> first_vcn < rvcn x then Some (- EINVAL, m, None, None)
          else (
            let dst_max = dst_len - 1 in
            if first_vcn > rvcn x then
              (if bad_run x then Some (bad_run_err x, m, None, None)
               else do {
                 (len, the_end) \<leftarrow> run_cap last_vcn x (tl rl);
                 let delta = s64 (first_vcn - rvcn x);
                 let stored = (rlcn x \<ge> 0 \<or> major < 3);
                 let p = (if rlcn x \<ge> 0 then s64 (rlcn x + delta) else rlcn x);
                 (nxt, m) \<leftarrow> write_pair m 0 dst_max (s64 (len - delta)) (if stored then Some p else None);
                 (case nxt of None \<Rightarrow> build_stop (- ENOSPC) m 0 x i None
                  | Some dst \<Rightarrow> build_runs major last_vcn dst_max m dst (if stored then p else 0) 0 the_end (i + 1) (tl rl)) })
            else build_runs major last_vcn dst_max m 0 0 0 False i rl) })"

text \<open>What a run list holds: sparse or not, and the size of what is allocated.\<close>

fun ntfs_rl_sparse_loop :: "rle list \<Rightarrow> int option" where
  "ntfs_rl_sparse_loop [] = None"
| "ntfs_rl_sparse_loop (x # xs) =
     (if rlen x = 0 then Some 0
      else if rlcn x < 0 then Some (if rlcn x \<noteq> LCN_HOLE \<and> rlcn x \<noteq> LCN_DELALLOC then - EINVAL else 1)
      else ntfs_rl_sparse_loop xs)"

definition ntfs_rl_sparse :: "rle list option \<Rightarrow> int option" where
  "ntfs_rl_sparse rl = (case rl of None \<Rightarrow> Some (- EINVAL) | Some rl \<Rightarrow> ntfs_rl_sparse_loop rl)"

fun compressed_size_loop :: "nat \<Rightarrow> rle list \<Rightarrow> int \<Rightarrow> int option" where
  "compressed_size_loop bits [] ret = None"
| "compressed_size_loop bits (x # xs) ret =
     (if rlen x = 0 then Some (s64 (ret * 2 ^ bits))
      else if rlcn x < 0 then
        (if rlcn x \<noteq> LCN_HOLE \<and> rlcn x \<noteq> LCN_DELALLOC then Some (- EINVAL) else compressed_size_loop bits xs ret)
      else compressed_size_loop bits xs (s64 (ret + rlen x)))"

definition ntfs_rl_get_compressed_size :: "nat \<Rightarrow> rle list option \<Rightarrow> int option" where
  "ntfs_rl_get_compressed_size bits rl = (case rl of None \<Rightarrow> Some (- EINVAL) | Some rl \<Rightarrow> compressed_size_loop bits rl 0)"

section \<open>Numbers round trip\<close>

text \<open>All bytes of a number up to and including the first one whose sign decides the rest.\<close>

definition num_bytes :: "int \<Rightarrow> nat \<Rightarrow> byte list" where
  "num_bytes n k = map (\<lambda>j. word_of_int (n div 256 ^ j)) [0..<k]"

lemma length_num_bytes [simp]: "length (num_bytes n k) = k"
  by (simp add: num_bytes_def)

lemma div_in_s64: "in_s64 n \<Longrightarrow> in_s64 (n div 256 ^ k)"
proof (induction k)
  case (Suc k)
  have "n div 256 ^ Suc k = n div 256 ^ k div 256" by (simp add: mult.commute [of 256] zdiv_zmult2_eq)
  with Suc show ?case by linarith
qed simp

lemma sint_byte: "- 128 \<le> v \<Longrightarrow> v < 128 \<Longrightarrow> sint (word_of_int v :: byte) = v"
  by (simp add: sint_sbintrunc' signed_take_bit_int_eq_self)

lemma uint_byte: "uint (word_of_int v :: byte) = v mod 256"
  by (simp add: uint_word_of_int)

lemma signed_num_bytes:
  assumes "in_s64 n" "- 128 \<le> n div 256 ^ k" "n div 256 ^ k < 128"
  shows "signed_bytes (num_bytes n (Suc k)) = n"
proof -
  have step: "foldl (\<lambda>d x. s64 (d * 256 + uint x)) (n div 256 ^ k) (rev (num_bytes n k)) = n" for k
  proof (induction k)
    case (Suc k)
    have e: "n div 256 ^ Suc k * 256 + n div 256 ^ k mod 256 = n div 256 ^ k"
      by (simp add: div_mult2_eq mult.commute [of 256] zdiv_zmult2_eq)
    have "rev (num_bytes n (Suc k)) = word_of_int (n div 256 ^ k) # rev (num_bytes n k)" by (simp add: num_bytes_def)
    then show ?case using Suc e div_in_s64 [OF assms(1), of k] by (simp add: uint_byte)
  qed (simp add: num_bytes_def)
  have "last (num_bytes n (Suc k)) = word_of_int (n div 256 ^ k)" "butlast (num_bytes n (Suc k)) = num_bytes n k"
    by (simp_all add: num_bytes_def)
  then show ?thesis using step [of k] sint_byte [OF assms(2,3)] by (simp add: signed_bytes_def)
qed

lemma sig_len_rest: "n div 256 ^ sig_len n = 0 \<or> n div 256 ^ sig_len n = - 1"
proof (induction n rule: sig_len.induct)
  case (1 l)
  show ?case
  proof (cases "l div 256 \<noteq> 0 \<and> l div 256 \<noteq> - 1")
    case True
    then have "sig_len l = Suc (sig_len (l div 256))" by (subst sig_len.simps) (simp add: Let_def)
    moreover have "l div 256 ^ Suc k = l div 256 div 256 ^ k" for k by (simp add: zdiv_zmult2_eq)
    ultimately show ?thesis using "1.IH" [OF refl True] by simp
  next
    case False
    then have "sig_len l = 1" by (subst sig_len.simps) (auto simp: Let_def)
    with False show ?thesis by auto
  qed
qed

lemma sig_len_pos: "1 \<le> sig_len n"
  by (subst sig_len.simps) (simp add: Let_def)

lemma sig_len_le: "in_s64 n \<Longrightarrow> sig_len n \<le> 8"
proof -
  assume n: "in_s64 n"
  have le: "sig_len l \<le> Suc k" if "- (256 ^ Suc k) \<le> l" "l < 256 ^ Suc k" for l k
    using that
  proof (induction k arbitrary: l)
    case 0
    then have "l div 256 = 0 \<or> l div 256 = - 1" by (auto simp: div_pos_pos_trivial)
    then show ?case by (subst sig_len.simps) (auto simp: Let_def)
  next
    case (Suc k)
    have "- (256 ^ Suc k) \<le> l div 256" "l div 256 < 256 ^ Suc k" using Suc.prems by auto
    then have "sig_len (l div 256) \<le> Suc k" by (rule Suc.IH)
    then show ?case by (subst sig_len.simps) (simp add: Let_def)
  qed
  show ?thesis using le [of 7 n] n by simp
qed

lemma sign_byte:
  assumes "n div 256 ^ Suc k = 0 \<or> n div 256 ^ Suc k = - 1" "\<not> ((n < 0 \<and> sbyte n k \<ge> 0) \<or> (n > 0 \<and> sbyte n k < 0))"
  shows "- 128 \<le> n div 256 ^ k \<and> n div 256 ^ k < 128"
proof -
  let ?t = "n div 256 ^ k"
  have d: "?t div 256 = 0 \<or> ?t div 256 = - 1" using assms(1) by (simp add: mult.commute [of 256] zdiv_zmult2_eq)
  have s: "(0 \<le> ?t) = (0 \<le> n)" by (simp add: pos_imp_zdiv_nonneg_iff)
  have m: "?t mod 256 = ?t - 256 * (?t div 256)" by (simp add: minus_mult_div_eq_mod)
  consider "n = 0" | "n < 0" "sbyte n k < 0" | "n > 0" "sbyte n k \<ge> 0" using assms(2) by linarith
  then show ?thesis using d s m by cases (auto simp: sbyte_def Let_def split: if_splits)
qed

lemma sig_bytes_num: "sig_bytes n = num_bytes n (ntfs_get_nr_significant_bytes n)"
proof -
  let ?i = "sig_len n"
  have xs: "map (\<lambda>k. word_of_int (n div 256 ^ k) :: byte) [0..<?i] = num_bytes n ?i" by (simp add: num_bytes_def)
  have neg: "n < 0 \<Longrightarrow> word_of_int (n div 256 ^ ?i) = (255 :: byte)" "n > 0 \<Longrightarrow> word_of_int (n div 256 ^ ?i) = (0 :: byte)"
    using sig_len_rest [of n] pos_imp_zdiv_nonneg_iff [of "256 ^ ?i" n] by auto
  have S: "num_bytes n (Suc ?i) = num_bytes n ?i @ [word_of_int (n div 256 ^ ?i)]" by (simp add: num_bytes_def)
  let ?j = "sbyte n (?i - 1)"
  consider "n < 0" "?j \<ge> 0" | "n > 0" "?j < 0" | "\<not> (n < 0 \<and> ?j \<ge> 0)" "\<not> (n > 0 \<and> ?j < 0)" by linarith
  then show ?thesis
  proof cases
    case 1
    then show ?thesis using neg(1) S by (simp add: sig_bytes_def ntfs_get_nr_significant_bytes_def xs Let_def)
  next
    case 2
    then show ?thesis using neg(2) S by (simp add: sig_bytes_def ntfs_get_nr_significant_bytes_def xs Let_def)
  next
    case 3
    then show ?thesis by (auto simp: sig_bytes_def ntfs_get_nr_significant_bytes_def xs Let_def)
  qed
qed

text \<open>The two facts everything else rests on: a number is read back as it was written, from at most eight bytes.\<close>

lemma signed_sig_bytes: "in_s64 n \<Longrightarrow> signed_bytes (sig_bytes n) = n"
proof -
  assume n: "in_s64 n"
  obtain k where k: "ntfs_get_nr_significant_bytes n = Suc k" "- 128 \<le> n div 256 ^ k \<and> n div 256 ^ k < 128"
  proof (cases "(n < 0 \<and> sbyte n (sig_len n - 1) \<ge> 0) \<or> (n > 0 \<and> sbyte n (sig_len n - 1) < 0)")
    case True
    then have "ntfs_get_nr_significant_bytes n = Suc (sig_len n)" by (auto simp: ntfs_get_nr_significant_bytes_def Let_def)
    with that [of "sig_len n"] sig_len_rest [of n] show ?thesis by auto
  next
    case False
    obtain j where j: "sig_len n = Suc j" using sig_len_pos [of n] by (cases "sig_len n") auto
    then have "ntfs_get_nr_significant_bytes n = Suc j" using False by (auto simp: ntfs_get_nr_significant_bytes_def Let_def)
    with that [of j] sign_byte [of n j] sig_len_rest [of n] False j show ?thesis by auto
  qed
  then show ?thesis using signed_num_bytes [OF n] by (simp add: sig_bytes_num)
qed

lemma sbyte_small:
  assumes "- 128 \<le> n div 256 ^ k" "n div 256 ^ k < 128"
  shows "sbyte n k = n div 256 ^ k"
proof (cases "0 \<le> n div 256 ^ k")
  case True
  then have "n div 256 ^ k mod 256 = n div 256 ^ k" using assms by (intro mod_pos_pos_trivial) auto
  then show ?thesis using assms by (simp add: sbyte_def)
next
  case False
  have "n div 256 ^ k mod 256 = (n div 256 ^ k + 256) mod 256" by simp
  also have "\<dots> = n div 256 ^ k + 256" using assms False by (intro mod_pos_pos_trivial) auto
  finally show ?thesis using assms False by (simp add: sbyte_def)
qed

lemma sig_bytes_length:
  assumes "in_s64 n"
  shows "length (sig_bytes n) = ntfs_get_nr_significant_bytes n" "1 \<le> length (sig_bytes n)" "length (sig_bytes n) \<le> 8"
proof -
  show "length (sig_bytes n) = ntfs_get_nr_significant_bytes n" by (simp add: sig_bytes_num)
  show "1 \<le> length (sig_bytes n)" using sig_len_pos [of n] by (simp add: sig_bytes_num ntfs_get_nr_significant_bytes_def Let_def)
  have "sig_len n \<noteq> 8" if "(n < 0 \<and> sbyte n (sig_len n - 1) \<ge> 0) \<or> (n > 0 \<and> sbyte n (sig_len n - 1) < 0)"
  proof
    assume "sig_len n = 8"
    with that have "(n < 0 \<and> sbyte n 7 \<ge> 0) \<or> (n > 0 \<and> sbyte n 7 < 0)" by simp
    moreover have "- 128 \<le> n div 256 ^ 7 \<and> n div 256 ^ 7 < 128" using assms by (simp, linarith)
    moreover from this have "sbyte n 7 = n div 256 ^ 7" by (intro sbyte_small) auto
    moreover have "(0 \<le> n div 256 ^ 7) = (0 \<le> n)" by (simp add: pos_imp_zdiv_nonneg_iff)
    ultimately show False by linarith
  qed
  then show "length (sig_bytes n) \<le> 8" using sig_len_le [OF assms] by (auto simp: sig_bytes_num ntfs_get_nr_significant_bytes_def Let_def)
qed

section \<open>The encoded form\<close>

definition opt_bytes :: "int option \<Rightarrow> byte list" where
  "opt_bytes d = (case d of None \<Rightarrow> [] | Some d \<Rightarrow> sig_bytes d)"

definition pair_bytes :: "int \<Rightarrow> int option \<Rightarrow> byte list" where
  "pair_bytes len d = word_of_nat (length (opt_bytes d) * 16 + length (sig_bytes len)) # sig_bytes len @ opt_bytes d"

text \<open>The pairs of all runs but the terminator, without the closing zero; holes store no LCN (NTFS 3.0 and later).\<close>

fun enc_runs :: "int \<Rightarrow> rle list \<Rightarrow> byte list" where
  "enc_runs prev [] = []"
| "enc_runs prev (x # xs) = (if xs = [] then []
     else pair_bytes (rlen x) (if rlcn x \<ge> 0 then Some (rlcn x - prev) else None) @ enc_runs (if rlcn x \<ge> 0 then rlcn x else prev) xs)"

lemma blit_append: "blit m p (xs @ ys) = Option.bind (blit m p xs) (\<lambda>m. blit m (p + length xs) ys)"
proof (cases "p + length xs + length ys \<le> length m")
  case True
  then have "length (take p m) = p" by simp
  with True show ?thesis by (simp add: blit_def ac_simps)
qed (auto simp: blit_def)

lemma blit_cons: "blit m p (h # xs) = Option.bind (blit m (p + 1) xs) (\<lambda>m. blit m p [h])"
  by (auto simp: blit_def min_def take_Suc_conv_app_nth simp flip: drop_drop)

lemma put8_blit: "v < 256 \<Longrightarrow> put8 m p v = blit m p [word_of_nat v]"
  by (simp add: put8_def put_le_def)

lemma write_bytes_ok:
  assumes "dst + length (sig_bytes n) \<le> Suc dst_max"
  shows "ntfs_write_significant_bytes m dst dst_max n = map_option (Pair (int (length (sig_bytes n)))) (blit m dst (sig_bytes n))"
proof -
  have "length (sig_bytes n) \<le> Suc dst_max - dst" using assms by simp
  then show ?thesis by (cases "blit m dst (sig_bytes n)") (simp_all add: ntfs_write_significant_bytes_def Let_def)
qed

lemma write_pair_ok:
  assumes "in_s64 len" "\<And>d. dl = Some d \<Longrightarrow> in_s64 d" "dst + length (pair_bytes len dl) \<le> dst_max" "dst_max < length m"
  shows "write_pair m dst dst_max len dl = map_option (Pair (Some (dst + length (pair_bytes len dl)))) (blit m dst (pair_bytes len dl))"
proof -
  let ?a = "sig_bytes len" and ?b = "opt_bytes dl"
  have l: "dst + length ?a + length ?b + 1 \<le> dst_max" using assms(3) by (simp add: pair_bytes_def)
  have s: "length ?a \<le> 8" "length ?b \<le> 8"
    using sig_bytes_length(3) [OF assms(1)] sig_bytes_length(3) [OF assms(2)] by (auto simp: opt_bytes_def split: option.splits)
  have a: "ntfs_write_significant_bytes m (dst + 1) dst_max len = map_option (Pair (int (length ?a))) (blit m (dst + 1) ?a)"
    using l by (intro write_bytes_ok) simp
  have b: "(case dl of None \<Rightarrow> Some (0, m1) | Some d \<Rightarrow> ntfs_write_significant_bytes m1 (dst + 1 + length ?a) dst_max d) =
      map_option (Pair (int (length ?b))) (blit m1 (dst + 1 + length ?a) ?b)" if "length m1 = length m" for m1
  proof (cases dl)
    case None
    then show ?thesis using l that assms(4) by (simp add: opt_bytes_def blit_def)
  next
    case (Some d)
    then show ?thesis using l write_bytes_ok [of "dst + 1 + length ?a" d dst_max m1] by (simp add: opt_bytes_def)
  qed
  obtain m1 where m1: "blit m (dst + 1) ?a = Some m1" using blit_ok [of "dst + 1" ?a m] l assms(4) by auto
  have lm1: "length m1 = length m" by (rule length_blit [OF m1])
  obtain m2 where m2: "blit m1 (dst + 1 + length ?a) ?b = Some m2" using blit_ok [of "dst + 1 + length ?a" ?b m1] l assms(4) lm1 by auto
  have h: "length ?b * 16 + length ?a < 256" using s by simp
  have "write_pair m dst dst_max len dl = Option.bind (put8 m2 dst (length ?b * 16 + length ?a)) (\<lambda>m. Some (Some (dst + length (pair_bytes len dl)), m))"
  proof -
    have n: "\<not> dst_max < Suc (dst + (length ?a + length ?b))" using l by simp
    show ?thesis unfolding write_pair_def a m1 option.map bind.bind_lunit prod.case nat_int b [OF lm1] m2 Let_def
      by (simp add: n pair_bytes_def add.assoc)
  qed
  also have "\<dots> = map_option (Pair (Some (dst + length (pair_bytes len dl)))) (blit m dst (pair_bytes len dl))"
    unfolding put8_blit [OF h] pair_bytes_def blit_cons [of m dst] blit_append m1 bind.bind_lunit m2
    by (cases "blit m2 dst [word_of_nat (length ?b * 16 + length ?a)]") simp_all
  finally show ?thesis .
qed

text \<open>A run that can be stored: of a length and with an LCN that are positive 64-bit numbers, or a hole.\<close>

definition storable :: "rle \<Rightarrow> bool" where
  "storable x \<longleftrightarrow> in_s64 (rlen x) \<and> (rlcn x = LCN_HOLE \<or> 0 \<le> rlcn x \<and> in_s64 (rlcn x))"

lemma storable_delta:
  assumes "storable x" "0 \<le> prev" "in_s64 prev" "(if rlcn x \<ge> 0 then Some (rlcn x - prev) else None) = Some d"
  shows "in_s64 d"
  using assms by (auto simp: storable_def split: if_splits)

lemma storable_len: "storable x \<Longrightarrow> in_s64 (rlen x)"
  by (simp add: storable_def)

lemma length_pair_bytes:
  assumes "storable x" "0 \<le> prev" "in_s64 prev"
  shows "length (pair_bytes (rlen x) (if rlcn x \<ge> 0 then Some (rlcn x - prev) else None)) = 1 + ntfs_get_nr_significant_bytes (rlen x) +
      (if rlcn x \<ge> 0 then ntfs_get_nr_significant_bytes (rlcn x - prev) else 0)"
    "2 \<le> length (pair_bytes (rlen x) (if rlcn x \<ge> 0 then Some (rlcn x - prev) else None))"
    "length (pair_bytes (rlen x) (if rlcn x \<ge> 0 then Some (rlcn x - prev) else None)) \<le> 17"
proof -
  let ?d = "rlcn x - prev"
  have d: "rlcn x \<ge> 0 \<Longrightarrow> in_s64 ?d" using assms by (auto simp: storable_def)
  note l = sig_bytes_length [OF storable_len [OF assms(1)]]
  show "length (pair_bytes (rlen x) (if rlcn x \<ge> 0 then Some ?d else None)) = 1 + ntfs_get_nr_significant_bytes (rlen x) +
      (if rlcn x \<ge> 0 then ntfs_get_nr_significant_bytes ?d else 0)"
    using l(1) sig_bytes_length(1) [OF d] by (simp add: pair_bytes_def opt_bytes_def)
  show "2 \<le> length (pair_bytes (rlen x) (if rlcn x \<ge> 0 then Some ?d else None))" using l(2) by (simp add: pair_bytes_def)
  show "length (pair_bytes (rlen x) (if rlcn x \<ge> 0 then Some ?d else None)) \<le> 17"
    using l(3) sig_bytes_length(3) [OF d] by (cases "rlcn x \<ge> 0") (simp_all add: pair_bytes_def opt_bytes_def)
qed

lemma enc_runs_length:
  assumes "\<forall>x\<in>set (butlast rl). storable x" "0 \<le> prev" "in_s64 prev"
  shows "length (enc_runs prev rl) \<le> 17 * (length rl - 1)"
  using assms
proof (induction rl arbitrary: prev)
  case (Cons x xs)
  show ?case
  proof (cases "xs = []")
    case False
    then have x: "storable x" "\<forall>y\<in>set (butlast xs). storable y" using Cons.prems(1) by auto
    let ?p = "if rlcn x \<ge> 0 then rlcn x else prev"
    have p: "0 \<le> ?p" "in_s64 ?p" using x(1) Cons.prems by (auto simp: storable_def)
    have "1 \<le> length xs" using False by (cases xs) auto
    with Cons.IH [OF x(2) p] length_pair_bytes(3) [OF x(1) Cons.prems(2,3)] False show ?thesis by simp
  qed simp
qed simp

text \<open>The size function computes the length of the encoding.\<close>

lemma size_runs_enc:
  assumes "runs_from v rl" "\<forall>x\<in>set (butlast rl). storable x" "3 \<le> major" "0 \<le> prev" "in_s64 prev"
    "rls + int (length (enc_runs prev rl)) \<le> mx"
  shows "size_runs major (- 1) mx prev rls False rl = Some (rls + int (length (enc_runs prev rl)))"
  using assms
proof (induction rl arbitrary: v prev rls)
  case (Cons x xs)
  show ?case
  proof (cases "xs = []")
    case True
    then show ?thesis using Cons.prems(1) by simp
  next
    case False
    then have x: "storable x" "\<forall>y\<in>set (butlast xs). storable y" "0 < rlen x" "runs_from (v + rlen x) xs" using Cons.prems(1,2) by auto
    let ?p = "if rlcn x \<ge> 0 then rlcn x else prev" and ?pb = "pair_bytes (rlen x) (if rlcn x \<ge> 0 then Some (rlcn x - prev) else None)"
    have p: "0 \<le> ?p" "in_s64 ?p" using x(1) Cons.prems(4,5) by (auto simp: storable_def)
    have s: "rlcn x \<ge> 0 \<Longrightarrow> s64 (rlcn x - prev) = rlcn x - prev" using x(1) Cons.prems(4,5) by (auto simp: storable_def)
    have e: "length (enc_runs prev (x # xs)) = length ?pb + length (enc_runs ?p xs)" using False by simp
    have nb: "\<not> bad_run x" using x(1,3) by (auto simp: bad_run_def storable_def)
    have le: "rls + int (length ?pb) + int (length (enc_runs ?p xs)) \<le> mx" using Cons.prems(6) e by simp
    have "size_runs major (- 1) mx prev rls False (x # xs) = size_runs major (- 1) mx ?p (rls + int (length ?pb)) False xs"
      using x(3) nb Cons.prems(3) le unfolding length_pair_bytes(1) [OF x(1) Cons.prems(4,5)]
      by (cases "rlcn x \<ge> 0") (simp_all add: run_cap_def s ac_simps)
    also have "\<dots> = Some (rls + int (length ?pb) + int (length (enc_runs ?p xs)))"
      by (rule Cons.IH [OF x(4,2) Cons.prems(3) p le])
    finally show ?thesis using e by simp
  qed
qed simp

text \<open>With room for the encoding and the closing zero, the build writes exactly that.\<close>

lemma build_runs_enc:
  assumes "runs_from v rl" "\<forall>x\<in>set (butlast rl). storable x" "3 \<le> major" "0 \<le> prev" "in_s64 prev"
    "dst + length (enc_runs prev rl) \<le> dst_max" "dst_max < length m"
  shows "build_runs major (- 1) dst_max m dst prev de False i rl =
    map_option (\<lambda>m'. (0, m', Some (rvcn (last rl), Some (i + length rl - 1)), Some de)) (blit m dst (enc_runs prev rl @ [0]))"
  using assms
proof (induction rl arbitrary: v prev dst m i)
  case (Cons x xs)
  show ?case
  proof (cases "xs = []")
    case True
    then show ?thesis using Cons.prems(1) put8_blit [of 0 m dst] by (cases "blit m dst [0]") (simp_all add: build_stop_def)
  next
    case False
    then have x: "storable x" "\<forall>y\<in>set (butlast xs). storable y" "0 < rlen x" "runs_from (v + rlen x) xs" using Cons.prems(1,2) by auto
    let ?p = "if rlcn x \<ge> 0 then rlcn x else prev" and ?d = "if rlcn x \<ge> 0 then Some (rlcn x - prev) else None"
    let ?pb = "pair_bytes (rlen x) ?d"
    have p: "0 \<le> ?p" "in_s64 ?p" using x(1) Cons.prems(4,5) by (auto simp: storable_def)
    have s: "(if 0 \<le> rlcn x \<or> major < 3 then Some (s64 (rlcn x - prev)) else None) = ?d"
      using x(1) Cons.prems(3,4,5) by (auto simp: storable_def)
    have nb: "\<not> bad_run x" using x(1,3) by (auto simp: bad_run_def storable_def)
    have nd: "rlcn x \<noteq> LCN_DELALLOC" using x(1) by (auto simp: storable_def)
    have st: "(0 \<le> rlcn x \<or> major < 3) = (0 \<le> rlcn x)" using Cons.prems(3) by simp
    have le: "dst + length ?pb + length (enc_runs ?p xs) \<le> dst_max" using Cons.prems(6) False by simp
    have w: "write_pair m dst dst_max (rlen x) ?d = map_option (Pair (Some (dst + length ?pb))) (blit m dst ?pb)"
      using le Cons.prems(7) by (intro write_pair_ok [OF storable_len [OF x(1)] storable_delta [OF x(1) Cons.prems(4,5)]]) simp_all
    obtain m1 where m1: "blit m dst ?pb = Some m1" using blit_ok [of dst ?pb m] le Cons.prems(7) by auto
    have len: "dst_max < length m1" using length_blit [OF m1] Cons.prems(7) by simp
    have "build_runs major (- 1) dst_max m dst prev de False i (x # xs) = build_runs major (- 1) dst_max m1 (dst + length ?pb) ?p de False (i + 1) xs"
      using x(3) nb s w m1 Cons.prems(3) by (cases "rlcn x \<ge> 0") (simp_all add: run_cap_def st nd)
    also have "\<dots> = map_option (\<lambda>m'. (0, m', Some (rvcn (last xs), Some (i + 1 + length xs - 1)), Some de)) (blit m1 (dst + length ?pb) (enc_runs ?p xs @ [0]))"
      by (rule Cons.IH [OF x(4,2) Cons.prems(3) p le len])
    also have "blit m1 (dst + length ?pb) (enc_runs ?p xs @ [0]) = blit m dst (enc_runs prev (x # xs) @ [0])"
    proof -
      have "enc_runs prev (x # xs) @ [0] = ?pb @ (enc_runs ?p xs @ [0])" using False by simp
      then show ?thesis by (simp only: blit_append [of m dst ?pb] m1 bind.bind_lunit)
    qed
    finally show ?thesis using False by simp
  qed
qed simp

section \<open>Decoding what was encoded\<close>

lemma arr_put_end: "arr_put rl (length rl) x = rl @ [x]"
  by (simp add: arr_put_def)

lemma get8_slice: "slice m p 1 = Some [w] \<Longrightarrow> get8 m p = Some (unat w)"
  by (simp add: get8_def get_le_def)

text \<open>The header byte of a pair and its two halves.\<close>

lemma header_byte:
  assumes "a \<le> 8" "b \<le> 8" "1 \<le> a"
  shows "unat (word_of_nat (b * 16 + a) :: byte) = b * 16 + a" "(b * 16 + a) AND 0xf = a" "((b * 16 + a) div 16) AND 0xf = b"
    "((b * 16 + a) AND 0xf0 = 0) = (b = 0)"
proof -
  show "unat (word_of_nat (b * 16 + a) :: byte) = b * 16 + a" using assms by (simp add: unat_of_nat del: of_nat_add of_nat_mult)
  show "(b * 16 + a) AND 0xf = a" using nat_and_mask_low [of "b * 16 + a" 4] assms by simp
  show "((b * 16 + a) div 16) AND 0xf = b" using nat_and_mask_low [of "(b * 16 + a) div 16" 4] assms by simp
  have t: "\<forall>a\<in>{0, 1, 2, 3, 4, 5, 6, 7, 8}. \<forall>b\<in>{0, 1, 2, 3, 4, 5, 6, 7, 8}. ((b * 16 + a) AND 0xf0 = 0) = (b = (0::nat))" by simp
  have i: "i \<in> {0, 1, 2, 3, 4, 5, 6, 7, 8}" if "i \<le> 8" for i :: nat using that by (simp, presburger)
  show "((b * 16 + a) AND 0xf0 = 0) = (b = 0)" by (rule bspec [OF bspec [OF t i [OF assms(1)]] i [OF assms(2)]])
qed

lemma decode_pair_enc:
  assumes "storable x" "0 < rlen x" "0 \<le> prev" "in_s64 prev" "rvcn x = vcn" "in_s64 (vcn + rlen x)"
  defines "pb \<equiv> pair_bytes (rlen x) (if rlcn x \<ge> 0 then Some (rlcn x - prev) else None)"
  assumes "slice m pos (length pb) = Some pb" "pos + length pb \<le> attr_end"
  shows "decode_pair m attr_end pos vcn prev = Some (Inr (x, vcn + rlen x, if rlcn x \<ge> 0 then rlcn x else prev))"
    "get8 m pos = Some (unat (hd pb))" "unat (hd pb) \<noteq> 0" "(unat (hd pb) AND 0xf) + ((unat (hd pb) div 16) AND 0xf) + 1 = length pb"
proof -
  let ?d = "if rlcn x \<ge> 0 then Some (rlcn x - prev) else None"
  let ?a = "sig_bytes (rlen x)" and ?b = "opt_bytes ?d"
  have la: "1 \<le> length ?a" "length ?a \<le> 8" using sig_bytes_length [OF storable_len [OF assms(1)]] by simp_all
  have dd: "rlcn x \<ge> 0 \<Longrightarrow> in_s64 (rlcn x - prev)" using assms(1,3,4) by (auto simp: storable_def)
  have lb: "length ?b \<le> 8" "(length ?b = 0) = (rlcn x < 0)"
    using sig_bytes_length(2,3) [OF dd] by (auto simp: opt_bytes_def)
  note h = header_byte [OF la(2) lb(1) la(1)]
  have hd: "unat (hd pb) = length ?b * 16 + length ?a" using h(1) by (simp add: pb_def pair_bytes_def)
  have l: "length pb = 1 + length ?a + length ?b" by (simp add: pb_def pair_bytes_def)
  have sl: "slice m pos 1 = Some [hd pb]" "slice m (pos + 1) (length ?a) = Some ?a" "slice m (pos + 1 + length ?a) (length ?b) = Some ?b"
    using assms(8) slice_append [of m pos "[hd pb]" "?a @ ?b"] slice_append [of m "pos + 1" ?a ?b] by (simp_all add: pb_def pair_bytes_def)
  show g: "get8 m pos = Some (unat (hd pb))" using get8_slice [OF sl(1)] .
  show "unat (hd pb) \<noteq> 0" using hd la(1) by linarith
  show "(unat (hd pb) AND 0xf) + ((unat (hd pb) div 16) AND 0xf) + 1 = length pb" using h hd l by simp
  have na: "?a \<noteq> []" using la(1) by auto
  have sa: "signed_bytes ?a = rlen x" by (rule signed_sig_bytes [OF storable_len [OF assms(1)]])
  have e: "pos + length ?a \<le> attr_end" "pos + (length ?a + length ?b) \<le> attr_end" using assms(9) l by simp_all
  show "decode_pair m attr_end pos vcn prev = Some (Inr (x, vcn + rlen x, if rlcn x \<ge> 0 then rlcn x else prev))"
  proof (cases "rlcn x \<ge> 0")
    case True
    have sb: "signed_bytes ?b = rlcn x - prev" using True signed_sig_bytes [OF dd [OF True]] by (simp add: opt_bytes_def)
    have "in_s64 (rlcn x)" "s64 (rlcn x) = rlcn x" using assms(1) True by (auto simp: storable_def)
    then show ?thesis using True na la lb sl e sa sb assms(2,5,6) h
      unfolding decode_pair_def g bind.bind_lunit hd Let_def h by (simp add: add.assoc)
  next
    case False
    then have "rlcn x = LCN_HOLE" using assms(1) by (auto simp: storable_def)
    then show ?thesis using False na la lb sl e sa assms(2,5,6) h
      unfolding decode_pair_def g bind.bind_lunit hd Let_def h by simp
  qed
qed

lemma decode_pairs_enc:
  assumes "runs_from v rl" "\<forall>x\<in>set (butlast rl). storable x" "0 \<le> prev" "in_s64 prev" "rvcn (last rl) < 9223372036854775808" "0 \<le> v"
    "slice m pos (length (enc_runs prev rl) + 1) = Some (enc_runs prev rl @ [0])" "pos + length (enc_runs prev rl) < attr_end"
    "length acc + length rl \<le> 65536"
  shows "decode_pairs m attr_end pos v prev acc (length acc) =
    Some (Inr (acc @ butlast rl, length acc + length rl - 1, rvcn (last rl), pos + length (enc_runs prev rl)))"
  using assms
proof (induction rl arbitrary: v prev pos acc)
  case (Cons x xs)
  show ?case
  proof (cases "xs = []")
    case True
    then have "get8 m pos = Some 0" using Cons.prems(7) get8_slice [of m pos 0] by simp
    then show ?thesis using True Cons.prems(1,8) by (subst decode_pairs.simps) simp
  next
    case False
    then have x: "storable x" "\<forall>y\<in>set (butlast xs). storable y" "0 < rlen x" "runs_from (v + rlen x) xs" "rvcn x = v"
      using Cons.prems(1,2) by auto
    let ?p = "if rlcn x \<ge> 0 then rlcn x else prev" and ?pb = "pair_bytes (rlen x) (if rlcn x \<ge> 0 then Some (rlcn x - prev) else None)"
    have p: "0 \<le> ?p" "in_s64 ?p" using x(1) Cons.prems(3,4) by (auto simp: storable_def)
    have e: "enc_runs prev (x # xs) = ?pb @ enc_runs ?p xs" using False by simp
    have sl: "slice m pos (length ?pb) = Some ?pb" "slice m (pos + length ?pb) (length (enc_runs ?p xs) + 1) = Some (enc_runs ?p xs @ [0])"
      using Cons.prems(7) slice_append [of m pos ?pb "enc_runs ?p xs @ [0]"] unfolding e by (simp_all add: add.assoc)
    have lx: "v + rlen x \<le> rvcn (last xs)" using runs_from_last [OF x(4)] by simp
    have bound: "in_s64 (v + rlen x)" "rvcn (last xs) < 9223372036854775808" "0 \<le> v + rlen x"
      using lx Cons.prems(5,6) x(3) False by auto
    have pe: "pos + length ?pb \<le> attr_end" "pos < attr_end" "pos + length ?pb + length (enc_runs ?p xs) < attr_end"
      using Cons.prems(8) unfolding e by simp_all
    note d = decode_pair_enc [OF x(1,3) Cons.prems(3,4) x(5) bound(1) sl(1) pe(1)]
    have n1: "1 \<le> length xs" using False by (cases xs) auto
    then have len: "u16 (length acc + 1) = length (acc @ [x])" "length (acc @ [x]) + length xs \<le> 65536"
      using Cons.prems(9) by simp_all
    have adv: "pos + (unat (hd ?pb) AND 0xf) + ((unat (hd ?pb) div 16) AND 0xf) + 1 = pos + length ?pb" using d(4) by linarith
    have "decode_pairs m attr_end pos v prev acc (length acc) =
        decode_pairs m attr_end (pos + length ?pb) (v + rlen x) ?p (acc @ [x]) (length (acc @ [x]))"
      apply (subst decode_pairs.simps)
      using pe(2) d(3) x(3) by (simp only: if_True d(1,2) bind.bind_lunit if_False sum.case prod.case adv len(1) arr_put_end if_True simp_thms less_irrefl)
        (simp add: len(1))
    also have "\<dots> = Some (Inr ((acc @ [x]) @ butlast xs, length (acc @ [x]) + length xs - 1, rvcn (last xs), pos + length ?pb + length (enc_runs ?p xs)))"
      by (rule Cons.IH [OF x(4,2) p bound(2,3) sl(2) pe(3) len(2)])
    finally show ?thesis using False n1 e by simp
  qed
qed simp

section \<open>The round trip\<close>

text \<open>
  An attribute record that stores a run list from VCN 0 on: lowest VCN 0, highest VCN the last
  cluster, allocated size to match, and the mapping pairs \<open>mp\<close> within the record.
\<close>

definition extent_of :: "rle list \<Rightarrow> nat \<Rightarrow> nat \<Rightarrow> buf \<Rightarrow> buf \<Rightarrow> bool" where
  "extent_of rl cs bits mp a \<longleftrightarrow> cs = 2 ^ bits \<and> (nat (rvcn (last rl)) + 1) * cs \<le> 18446744073709551616 \<and>
     get_le 8 a AR_LOWEST_VCN = Some 0 \<and> map_option (\<lambda>h. s64 (int h)) (get_le 8 a AR_HIGHEST_VCN) = Some (rvcn (last rl) - 1) \<and>
     get_le 8 a AR_ALLOCATED_SIZE = Some (nat (rvcn (last rl)) * cs) \<and>
     (\<exists>off alen. get_le 2 a AR_MAPPING_PAIRS_OFFSET = Some off \<and> get_le 4 a AR_LENGTH = Some alen \<and>
        slice a off (length mp) = Some mp \<and> off + length mp \<le> alen)"

lemma finish_exact:
  assumes "0 \<le> v" "v < 9223372036854775808" "cs = 2 ^ bits" "(nat v + 1) * cs \<le> 18446744073709551616"
  shows "finish_runlist cs bits 0 (v - 1) (nat v * cs) rl (length rl) v = Inr (rl @ [\<lparr>rvcn = v, rlcn = LCN_ENOENT, rlen = 0\<rparr>], length rl)"
proof -
  have c: "1 \<le> cs" using assms(3) by simp
  let ?x = "nat v * cs + cs"
  have x: "1 \<le> ?x" "?x \<le> 18446744073709551616" using c assms(4) by simp_all
  have "?x + 18446744073709551615 = (?x - 1) + 18446744073709551616" using x by linarith
  then have "u64 (?x + 18446744073709551615) = u64 ((?x - 1) + 18446744073709551616)" by (simp only:)
  also have "\<dots> = ?x - 1"
  proof -
    have "?x - 1 < 18446744073709551616" using x by linarith
    then show ?thesis unfolding u64_def by (simp only: mod_add_self2 mod_less)
  qed
  finally have u: "u64 (?x + 18446744073709551615) = ?x - 1" .
  have e: "?x - 1 = (cs - 1) + cs * nat v" using c by (simp add: mult.commute)
  have "(?x - 1) div cs = nat v" unfolding e using c by (subst div_mult_self2) simp_all
  then have "s64 (int (u64 (?x + 18446744073709551615) div 2 ^ bits) - 1) = v - 1" using u assms by simp
  then show ?thesis using assms(1,2) by (simp add: finish_runlist_def Let_def arr_put_end)
qed

lemma decompress_enc:
  assumes "runs_from 0 rl" "\<forall>x\<in>set (butlast rl). storable x" "rlcn (last rl) = LCN_ENOENT" "length rl \<le> 65535"
    "rvcn (last rl) < 9223372036854775808" "extent_of rl cs bits (enc_runs 0 rl @ [0]) a"
  shows "decompress_new cs bits a = Some (Inr (rl, length rl - 1))"
proof -
  let ?v = "rvcn (last rl)" and ?e = "enc_runs 0 rl"
  note e = assms(6) [unfolded extent_of_def]
  obtain off alen h where a: "get_le 2 a AR_MAPPING_PAIRS_OFFSET = Some off" "get_le 4 a AR_LENGTH = Some alen"
    "slice a off (length ?e + 1) = Some (?e @ [0])" "off + length ?e < alen" "get_le 8 a AR_HIGHEST_VCN = Some h" "s64 (int h) = ?v - 1"
    using e by auto
  have v: "0 \<le> ?v" "rlen (last rl) = 0" using runs_from_last [OF assms(1)] by simp_all
  have d: "decode_pairs a alen off 0 0 [] 0 = Some (Inr (butlast rl, length rl - 1, ?v, off + length ?e))"
    using decode_pairs_enc [OF assms(1,2) order_refl _ assms(5) order_refl a(3,4), of "[]"] assms(4) by simp
  have f: "finish_runlist cs bits 0 (s64 (int h)) (nat ?v * cs) (butlast rl) (length rl - 1) ?v = Inr (rl, length rl - 1)"
  proof -
    have "last rl = \<lparr>rvcn = ?v, rlcn = LCN_ENOENT, rlen = 0\<rparr>" using v(2) assms(3) by simp
    then have "butlast rl @ [\<lparr>rvcn = ?v, rlcn = LCN_ENOENT, rlen = 0\<rparr>] = rl" using assms(1) by (metis append_butlast_last_id runs_from_nonempty)
    moreover have "cs = 2 ^ bits" "(nat ?v + 1) * cs \<le> 18446744073709551616" using e by blast+
    note finish_exact [OF v(1) assms(5) this, of "butlast rl"]
    ultimately show ?thesis by (simp only: a(6) length_butlast)
  qed
  show ?thesis using e a(1,2,4,5) d f by (simp add: decompress_new_def)
qed

lemma size_enc:
  assumes "runs_from 0 rl" "\<forall>x\<in>set (butlast rl). storable x" "length rl \<le> 65535" "3 \<le> major"
  shows "ntfs_get_size_for_mapping_pairs major (Some rl) 0 (- 1) 0 = Some (1 + int (length (enc_runs 0 rl)))"
    "rl_skip rl 0 0 = Some (0, rl)" "rvcn (hd rl) = 0"
proof -
  obtain x xs where rl: "rl = x # xs" using assms(1) by (cases rl) auto
  show h: "rvcn (hd rl) = 0" using runs_from_hd [OF assms(1)] .
  show s: "rl_skip rl 0 0 = Some (0, rl)" using assms(1) rl by (cases xs) (auto split: if_splits)
  have "length (enc_runs 0 rl) \<le> 17 * (length rl - 1)" using assms(2) by (intro enc_runs_length) auto
  then have "size_runs major (- 1) 2147483647 0 1 False rl = Some (1 + int (length (enc_runs 0 rl)))"
    using assms(3) by (intro size_runs_enc [OF assms(1,2,4)]) auto
  then show "ntfs_get_size_for_mapping_pairs major (Some rl) 0 (- 1) 0 = Some (1 + int (length (enc_runs 0 rl)))"
    using s h rl by (simp add: ntfs_get_size_for_mapping_pairs_def rl_at_def)
qed

text \<open>
  C7.  Mapping pairs round trip on a volume of NTFS 3.0 or later: for every well-formed, fully mapped
  run list of at most 65535 elements the size function says how many bytes are needed, the build into
  a buffer of at least that size succeeds and reports the end of the list, and decompressing the
  bytes it wrote, stored in an attribute record, gives back exactly the run list.  The count it
  reports is 0: the code counts clusters of delayed allocation there, of which the list has none,
  where the comment has the number of clusters encoded.
\<close>

theorem rl_mapping_pairs_roundtrip:
  assumes "runs_from 0 rl" "\<forall>x\<in>set (butlast rl). storable x" "rlcn (last rl) = LCN_ENOENT" "length rl \<le> 65535"
    "rvcn (last rl) < 9223372036854775808" "3 \<le> major"
  shows "\<exists>sz. ntfs_get_size_for_mapping_pairs major (Some rl) 0 (- 1) 0 = Some sz \<and>
    (\<forall>m dst_len. sz \<le> int dst_len \<and> dst_len \<le> length m \<longrightarrow>
      (\<exists>m'. ntfs_mapping_pairs_build major m dst_len (Some rl) 0 (- 1) = Some (0, m', Some (rvcn (last rl), Some (length rl - 1)), Some 0) \<and>
        drop (nat sz) m' = drop (nat sz) m \<and>
        (\<forall>cs bits a. extent_of rl cs bits (take (nat sz) m') a \<longrightarrow> decompress_new cs bits a = Some (Inr (rl, length rl - 1)))))"
proof (rule exI [of _ "1 + int (length (enc_runs 0 rl))"], rule conjI)
  let ?e = "enc_runs 0 rl"
  note s = size_enc [OF assms(1,2,4,6)]
  show "ntfs_get_size_for_mapping_pairs major (Some rl) 0 (- 1) 0 = Some (1 + int (length ?e))" by (rule s(1))
  show "\<forall>m dst_len. 1 + int (length ?e) \<le> int dst_len \<and> dst_len \<le> length m \<longrightarrow>
      (\<exists>m'. ntfs_mapping_pairs_build major m dst_len (Some rl) 0 (- 1) = Some (0, m', Some (rvcn (last rl), Some (length rl - 1)), Some 0) \<and>
        drop (nat (1 + int (length ?e))) m' = drop (nat (1 + int (length ?e))) m \<and>
        (\<forall>cs bits a. extent_of rl cs bits (take (nat (1 + int (length ?e))) m') a \<longrightarrow> decompress_new cs bits a = Some (Inr (rl, length rl - 1))))"
  proof (intro allI impI)
    fix m :: buf and dst_len :: nat assume d: "1 + int (length ?e) \<le> int dst_len \<and> dst_len \<le> length m"
    define m' where "m' = (?e @ [0]) @ drop (length ?e + 1) m"
    have b: "blit m 0 (?e @ [0]) = Some m'" using d by (simp add: blit_def m'_def)
    have "0 + length ?e \<le> dst_len - 1" "dst_len - 1 < length m" using d by linarith+
    from build_runs_enc [OF assms(1,2,6) order_refl _ this, of 0 0] b
    have r: "build_runs major (- 1) (dst_len - 1) m 0 0 0 False 0 rl = Some (0, m', Some (rvcn (last rl), Some (length rl - 1)), Some 0)" by simp
    obtain x xs where rl: "rl = x # xs" using assms(1) by (cases rl) auto
    have "ntfs_mapping_pairs_build major m dst_len (Some rl) 0 (- 1) = Some (0, m', Some (rvcn (last rl), Some (length rl - 1)), Some 0)"
    proof -
      have "rl_at rl 0 = Some x" "rvcn x = 0" "\<not> dst_len < 1" using s(3) rl d by (simp_all add: rl_at_def)
      then show ?thesis using s(2) r by (simp add: ntfs_mapping_pairs_build_def)
    qed
    moreover have "take (nat (1 + int (length ?e))) m' = ?e @ [0]" "drop (nat (1 + int (length ?e))) m' = drop (nat (1 + int (length ?e))) m"
      by (simp_all add: m'_def nat_add_distrib)
    ultimately show "\<exists>m'. ntfs_mapping_pairs_build major m dst_len (Some rl) 0 (- 1) = Some (0, m', Some (rvcn (last rl), Some (length rl - 1)), Some 0) \<and>
        drop (nat (1 + int (length ?e))) m' = drop (nat (1 + int (length ?e))) m \<and>
        (\<forall>cs bits a. extent_of rl cs bits (take (nat (1 + int (length ?e))) m') a \<longrightarrow> decompress_new cs bits a = Some (Inr (rl, length rl - 1)))"
      using decompress_enc [OF assms(1-5)] by (intro exI [of _ m']) simp
  qed
qed

text \<open>An attribute record for \<open>sample_rl\<close> on a volume of 4096-byte clusters, with the mapping pairs at 64.\<close>

definition mp_sample_attr :: "buf \<Rightarrow> buf" where
  "mp_sample_attr mp = replicate 4 0 @ le_bytes 4 (64 + length mp) @ replicate 8 0 @ le_bytes 8 0 @ le_bytes 8 305 @
     le_bytes 2 64 @ replicate 6 0 @ le_bytes 8 (306 * 4096) @ replicate 16 0 @ mp"

lemma sample_attr_extent:
  assumes "length mp \<le> 1000"
  shows "extent_of sample_rl 4096 12 mp (mp_sample_attr mp)"
proof -
  have s: "get_le 8 (mp_sample_attr mp) 16 = Some 0" "get_le 8 (mp_sample_attr mp) 24 = Some 305" "get_le 8 (mp_sample_attr mp) 40 = Some (306 * 4096)"
    "get_le 2 (mp_sample_attr mp) 32 = Some 64" "get_le 4 (mp_sample_attr mp) 4 = Some (64 + length mp)"
    using assms by (simp_all add: mp_sample_attr_def get_le_def slice_def)
  have "slice (mp_sample_attr mp) 64 (length mp) = Some mp" by (simp add: mp_sample_attr_def slice_def)
  with s show ?thesis by (simp add: extent_of_def sample_rl_def)
qed

theorem rl_mapping_pairs_roundtrip_witness:
  "\<exists>sz m'. ntfs_get_size_for_mapping_pairs 3 (Some sample_rl) 0 (- 1) 0 = Some sz \<and>
    ntfs_mapping_pairs_build 3 (replicate 100 7) 100 (Some sample_rl) 0 (- 1) = Some (0, m', Some (306, Some 3), Some 0) \<and>
    decompress_new 4096 12 (mp_sample_attr (take (nat sz) m')) = Some (Inr (sample_rl, 3))"
proof -
  have w: "runs_from 0 sample_rl" "\<forall>x\<in>set (butlast sample_rl). storable x" "rlcn (last sample_rl) = LCN_ENOENT" "length sample_rl \<le> 65535"
    "rvcn (last sample_rl) < 9223372036854775808" "3 \<le> (3::nat)" by (simp_all add: sample_rl_def storable_def)
  obtain sz where s: "ntfs_get_size_for_mapping_pairs 3 (Some sample_rl) 0 (- 1) 0 = Some sz"
    "\<forall>m dst_len. sz \<le> int dst_len \<and> dst_len \<le> length m \<longrightarrow>
      (\<exists>m'. ntfs_mapping_pairs_build 3 m dst_len (Some sample_rl) 0 (- 1) = Some (0, m', Some (rvcn (last sample_rl), Some (length sample_rl - 1)), Some 0) \<and>
        (\<forall>cs bits a. extent_of sample_rl cs bits (take (nat sz) m') a \<longrightarrow> decompress_new cs bits a = Some (Inr (sample_rl, length sample_rl - 1))))"
    using rl_mapping_pairs_roundtrip [OF w] by metis
  have "sz \<le> 100" using s(1) size_enc(1) [OF w(1,2,4,6)] enc_runs_length [OF w(2), of 0] by (simp add: sample_rl_def)
  then obtain m' where m: "ntfs_mapping_pairs_build 3 (replicate 100 7) 100 (Some sample_rl) 0 (- 1) = Some (0, m', Some (rvcn (last sample_rl), Some (length sample_rl - 1)), Some 0)"
    "\<forall>cs bits a. extent_of sample_rl cs bits (take (nat sz) m') a \<longrightarrow> decompress_new cs bits a = Some (Inr (sample_rl, length sample_rl - 1))"
    using s(2) [rule_format, of 100 "replicate 100 7"] by auto
  have "length (take (nat sz) m') \<le> 1000" using \<open>sz \<le> 100\<close> by simp
  from m(2) [rule_format, OF sample_attr_extent [OF this]] s(1) m(1) show ?thesis by (auto simp: sample_rl_def)
qed

section \<open>Findings\<close>

text \<open>
  C37.  A finding: the bounds checks of \<open>ntfs_mapping_pairs_decompress\<close> compare \<open>buf + b > attr_end\<close>, so
  that the byte \<open>buf[b]\<close> may be the one behind the attribute.  For every attribute record whose first
  mapping pair declares a length that ends exactly there, the decoder reads outside the record.
\<close>

theorem decompress_reads_past_attr:
  assumes "get_le 8 a AR_LOWEST_VCN = Some lowest" "lowest < 9223372036854775808" "get_le 2 a AR_MAPPING_PAIRS_OFFSET = Some off"
    "get_le 4 a AR_LENGTH = Some (length a)" "get8 a off = Some h" "h AND 0xf \<noteq> 0" "off + (h AND 0xf) = length a"
  shows "decompress_new cluster_size bits a = None"
proof -
  have l: "off < length a" using assms(5) get_le_bound [of 1 a off h] by (simp add: get8_def)
  have "slice a (Suc off) (h AND 0xf) = None" using assms(7) by (simp add: slice_eq_None)
  then have p: "decode_pair a (length a) off vcn lcn = None" for vcn lcn using assms(5,6,7) by (simp add: decode_pair_def Let_def)
  have "h \<noteq> 0" using assms(6) by (cases "h = 0") simp_all
  then have "decode_pairs a (length a) off vcn lcn rl rlpos = None" for vcn lcn rl rlpos
    using l assms(5) p by (subst decode_pairs.simps) simp
  then show ?thesis using assms(1-4) l by (simp add: decompress_new_def split: prod.split)
qed

text \<open>An attribute record of 72 bytes whose only mapping pair starts at its last byte.\<close>

definition short_attr :: buf where
  "short_attr = [0x80, 0, 0, 0, 72, 0, 0, 0, 1, 0, 0, 0, 0, 0, 0, 0] @ replicate 16 0 @ [71, 0] @ replicate 37 0 @ [0x01]"

theorem decompress_reads_past_attr_witness: "length short_attr = 72 \<and> decompress_new 4096 12 short_attr = None"
proof -
  have f: "get_le 8 short_attr 16 = Some 0" "get_le 2 short_attr 32 = Some 71" "get_le 4 short_attr 4 = Some 72" "get8 short_attr 71 = Some 1"
    "length short_attr = 72"
    by code_simp+
  with decompress_reads_past_attr [of short_attr 0 71 1 4096 12] show ?thesis by simp
qed

definition hole_rl :: "int \<Rightarrow> rle list" where
  "hole_rl n = [\<lparr>rvcn = 0, rlcn = LCN_HOLE, rlen = n\<rparr>, \<lparr>rvcn = n, rlcn = LCN_ENOENT, rlen = 0\<rparr>]"

text \<open>
  A finding: on a volume older than NTFS 3.0 a hole is written with its internal code as LCN
  (\<open>LCN_HOLE\<close> is -2 here, where the format has -1), and the decoder refuses what the encoder
  wrote: for every such volume, every buffer and every length, the mapping pairs of a hole are
  built without an error and are refused with \<open>-EIO\<close> when they are read.
\<close>

theorem old_volume_hole_lost:
  assumes "major < 3" "0 < n" "n < 9223372036854775808" "19 \<le> dst_len" "dst_len \<le> length m"
  shows "\<exists>m'. ntfs_mapping_pairs_build major m dst_len (Some (hole_rl n)) 0 (- 1) = Some (0, m', Some (n, Some 1), Some 0) \<and>
     decode_pairs m' dst_len 0 0 0 [] 0 = Some (Inl (- EIO))"
proof -
  let ?a = "sig_bytes n" and ?b = "sig_bytes (- 2)"
  let ?pb = "pair_bytes n (Some (- 2))"
  have i: "in_s64 n" "in_s64 (- 2)" using assms(2,3) by simp_all
  have la: "1 \<le> length ?a" "length ?a \<le> 8" "1 \<le> length ?b" "length ?b \<le> 8" using sig_bytes_length [OF i(1)] sig_bytes_length [OF i(2)] by simp_all
  have pb: "?pb = word_of_nat (length ?b * 16 + length ?a) # ?a @ ?b" by (simp add: pair_bytes_def opt_bytes_def)
  have l: "length ?pb = 1 + length ?a + length ?b" "length ?pb \<le> 17" using la by (simp_all add: pb)
  have "0 + length ?pb \<le> length m" using l(2) assms(4,5) by simp
  then obtain m1 where m1: "blit m 0 ?pb = Some m1" "length m1 = length m" using blit_ok length_blit by metis
  have wp: "write_pair m 0 (dst_len - 1) n (Some (- 2)) = Some (Some (length ?pb), m1)"
    using write_pair_ok [of n "Some (- 2)" 0 "dst_len - 1" m] i l(2) assms(4,5) m1(1) by simp
  have "length ?pb + length [0 :: byte] \<le> length m1" using l(2) m1(2) assms(4,5) by simp
  then obtain m2 where m2: "put8 m1 (length ?pb) 0 = Some m2" "blit m1 (length ?pb) [0] = Some m2"
    using put8_blit [of 0 m1 "length ?pb"] blit_ok by fastforce
  have "ntfs_mapping_pairs_build major m dst_len (Some (hole_rl n)) 0 (- 1) = Some (0, m2, Some (n, Some 1), Some 0)"
    using assms wp m2(1) by (simp add: ntfs_mapping_pairs_build_def hole_rl_def rl_at_def bad_run_def run_cap_def build_stop_def)
  moreover have "slice m2 0 (length ?pb) = Some ?pb" using slice_blit_other [OF m2(2), of 0 "length ?pb"] slice_blit_same [OF m1(1) refl] by simp
  then have sl: "slice m2 0 1 = Some [hd ?pb]" "slice m2 (Suc 0) (length ?a) = Some ?a" "slice m2 (Suc (length ?a)) (length ?b) = Some ?b"
    using slice_append [of m2 0 "[hd ?pb]" "?a @ ?b"] slice_append [of m2 1 ?a ?b] by (simp_all add: pb)
  note h = header_byte [OF la(2,4,1)]
  have g: "get8 m2 0 = Some (length ?b * 16 + length ?a)" using get8_slice [OF sl(1)] h(1) by (simp add: pb del: of_nat_add of_nat_mult)
  have "decode_pair m2 dst_len 0 0 0 = Some (Inl (- EIO))"
    using h sl la l assms(2-4) signed_sig_bytes [OF i(1)] signed_sig_bytes [OF i(2)] unfolding decode_pair_def g bind.bind_lunit Let_def h
    by auto
  then have "decode_pairs m2 dst_len 0 0 0 [] 0 = Some (Inl (- EIO))" using g la(1) assms(4) by (subst decode_pairs.simps) auto
  ultimately show ?thesis by blast
qed

theorem old_volume_hole_lost_witness:
  "\<exists>m'. ntfs_mapping_pairs_build 1 (replicate 20 0) 20 (Some (hole_rl 5)) 0 (- 1) = Some (0, m', Some (5, Some 1), Some 0) \<and>
     decode_pairs m' 20 0 0 0 [] 0 = Some (Inl (- EIO))"
  by (rule old_volume_hole_lost) simp_all

end
