(* ===== verification/Lznt1.thy ===== *)
theory Lznt1
  imports Prelude
begin

text \<open>
  Expanding compressed file data (core/ntfs/compress.c): \<open>ntfs_decompress\<close>, which expands a compression
  block into pages, and the format it reads, as tokens.  The decoder restores the data from every
  encoding in this format (\<open>dec_loop_sub_block\<close>), and it may write one byte behind a page on
  other input (\<open>decompress_symbol_behind_page\<close>).

  The compression block and the pages are lists of bytes, an access outside them is \<open>None\<close>.
\<close>

section \<open>Decompression\<close>

abbreviation (input) NTFS_SB_SIZE_MASK :: nat where "NTFS_SB_SIZE_MASK \<equiv> 0x0fff"
abbreviation (input) NTFS_SB_SIZE :: nat where "NTFS_SB_SIZE \<equiv> 0x1000"
abbreviation (input) NTFS_SB_IS_COMPRESSED :: nat where "NTFS_SB_IS_COMPRESSED \<equiv> 0x8000"
abbreviation (input) NTFS_TOKEN_MASK :: nat where "NTFS_TOKEN_MASK \<equiv> 1"
abbreviation (input) NTFS_SYMBOL_TOKEN :: nat where "NTFS_SYMBOL_TOKEN \<equiv> 0"
abbreviation (input) EOVERFLOW :: int where "EOVERFLOW \<equiv> 84"

function lg_loop :: "nat \<Rightarrow> nat \<Rightarrow> nat" where
  "lg_loop i lg = (if i \<ge> 0x10 then lg_loop (i div 2) (lg + 1) else lg)"
  by pat_completeness auto
termination
  by (relation "measure fst") auto

declare lg_loop.simps [simp del]

fun byte_copy :: "buf \<Rightarrow> nat \<Rightarrow> nat \<Rightarrow> nat \<Rightarrow> buf option" where
  "byte_copy pg dst src 0 = Some pg"
| "byte_copy pg dst src (Suc n) = do { v \<leftarrow> get8 pg src; pg \<leftarrow> put8 pg dst v; byte_copy pg (dst + 1) (src + 1) n }"

definition copy_phrase :: "buf \<Rightarrow> nat \<Rightarrow> nat \<Rightarrow> nat \<Rightarrow> buf option" where
  "copy_phrase pg dp back len =
     (let max_non_overlap = dp - back
      in if len \<le> max_non_overlap then memmove pg dp back len
         else do {
           pg \<leftarrow> memmove pg dp back max_non_overlap;
           byte_copy pg (dp + max_non_overlap) (back + max_non_overlap) (len - max_non_overlap) })"

text \<open>
  The tokens of one tag, from the position \<open>c\<close> of the block on; \<open>dp_addr\<close> and \<open>*dest_ofs\<close> move together and
  are \<open>ofs\<close>.  The flag tells of a jump to \<open>return_overflow\<close>.
\<close>

fun dec_tokens :: "nat \<Rightarrow> buf \<Rightarrow> nat \<Rightarrow> nat \<Rightarrow> nat \<Rightarrow> nat \<Rightarrow> buf \<Rightarrow> nat \<Rightarrow> (bool \<times> nat \<times> buf \<times> nat) option" where
  "dec_tokens 0 cb sb_end start tag c pg ofs = Some (False, c, pg, ofs)"
| "dec_tokens (Suc n) cb sb_end start tag c pg ofs =
     (if c \<ge> sb_end \<or> ofs > start + NTFS_SB_SIZE then Some (False, c, pg, ofs)
      else if tag AND NTFS_TOKEN_MASK = NTFS_SYMBOL_TOKEN then do {
        v \<leftarrow> get8 cb c;
        pg \<leftarrow> put8 pg ofs v;
        dec_tokens n cb sb_end start (tag div 2) (c + 1) pg (ofs + 1) }
      else if ofs = start then Some (True, c, pg, ofs)
      else do {
        let lg = lg_loop (u16 (ofs - start - 1)) 0;
        pt \<leftarrow> get_le 2 cb c;
        let p = pt div 2 ^ (12 - lg) + 1;
        if ofs < start + p then Some (True, c, pg, ofs)
        else do {
          let len = (pt AND (0xfff div 2 ^ lg)) + 3;
          if ofs + len > u16 (start + NTFS_SB_SIZE) then Some (True, c, pg, ofs + len)
          else do {
            pg \<leftarrow> copy_phrase pg ofs (ofs - p) len;
            dec_tokens n cb sb_end start (tag div 2) (c + 2) pg (ofs + len) } } })"

lemma dec_tokens_forward: "dec_tokens n cb sb_end start tag c pg ofs = Some (ov, c', pg', ofs') \<Longrightarrow> c \<le> c'"
  by (induction n arbitrary: tag c pg ofs) (fastforce simp: Let_def bind_eq_Some_conv split: if_split_asm)+

text \<open>The tags of a sub-block, and the zeroes that fill it up.\<close>

function dec_tags :: "nat \<Rightarrow> buf \<Rightarrow> nat \<Rightarrow> nat \<Rightarrow> nat \<Rightarrow> buf \<Rightarrow> nat \<Rightarrow> (bool \<times> buf \<times> nat) option" where
  "dec_tags page_size cb sb_end start c pg ofs =
     (if c = sb_end then
        (if ofs < start + NTFS_SB_SIZE then do {
           let nr_bytes = u16 (start + NTFS_SB_SIZE) - ofs;
           pg \<leftarrow> memset0 pg ofs nr_bytes;
           Some (True, pg, (ofs + nr_bytes) mod page_size) }
         else Some (True, pg, ofs mod page_size))
      else if c > sb_end \<or> ofs > start + NTFS_SB_SIZE then Some (False, pg, ofs)
      else do {
        tag \<leftarrow> get8 cb c;
        (ov, c, pg, ofs) \<leftarrow> dec_tokens 8 cb sb_end start tag (c + 1) pg ofs;
        if ov then Some (False, pg, ofs) else dec_tags page_size cb sb_end start c pg ofs })"
  by pat_completeness auto
termination
  by (relation "measure (\<lambda>(ps, cb, e, s, c, pg, o1). e - c)") (auto dest!: dec_tokens_forward)

declare dec_tags.simps [simp del]

text \<open>
  From \<open>do_next_sb\<close> on: the error, the pages, the destination position and the pages completed, in order.
  \<open>dest_pages[]\<close> has a null pointer where a page is not wanted.
\<close>

type_synonym dec_state = "buf option list \<times> nat \<times> nat \<times> nat list"

definition dec_next :: "nat \<Rightarrow> nat \<Rightarrow> nat \<Rightarrow> nat list \<Rightarrow> bool \<times> nat \<times> nat list" where
  "dec_next max_index di ofs completed =
     (if ofs = 0 then (di + 1 \<le> max_index, di + 1, completed @ [di]) else (True, di, completed))"

function dec_loop :: "nat \<Rightarrow> buf \<Rightarrow> nat \<Rightarrow> nat \<Rightarrow> nat \<Rightarrow> dec_state \<Rightarrow> (int \<times> dec_state) option" where
  "dec_loop page_size cb max_index max_ofs c (pages, di, ofs, completed) = do {
     stop \<leftarrow> (if c = length cb then Some True
              else do { h \<leftarrow> get_le 2 cb c; Some (h = 0 \<or> di = max_index \<and> ofs = max_ofs) });
     if stop then Some (0, pages, di, ofs, completed)
     else if di = max_index \<and> u16 (ofs + NTFS_SB_SIZE) > max_ofs then Some (- EOVERFLOW, pages, di, ofs, completed)
     else if c + 6 > length cb then Some (- EOVERFLOW, pages, di, ofs, completed)
     else do {
       h \<leftarrow> get_le 2 cb c;
       let sb_end = c + (h AND NTFS_SB_SIZE_MASK) + 3;
       if sb_end > length cb then Some (- EOVERFLOW, pages, di, ofs, completed)
       else do {
         dp \<leftarrow> (if di < length pages then Some (pages ! di) else None);
         case dp of
           None \<Rightarrow>
             (let o' = (ofs + NTFS_SB_SIZE) mod page_size; di' = (if o' = 0 then di + 1 else di)
              in if o' = 0 \<and> di' > max_index then Some (- EOVERFLOW, pages, di', o', completed)
                 else dec_loop page_size cb max_index max_ofs sb_end (pages, di', o', completed))
         | Some pg \<Rightarrow> do {
             (ok, pg, o') \<leftarrow>
               (if h AND NTFS_SB_IS_COMPRESSED = 0 then
                  (if sb_end - (c + 2) \<noteq> NTFS_SB_SIZE then Some (False, pg, ofs)
                   else do { d \<leftarrow> slice cb (c + 2) NTFS_SB_SIZE; pg \<leftarrow> blit pg ofs d; Some (True, pg, (ofs + NTFS_SB_SIZE) mod page_size) })
                else dec_tags page_size cb sb_end ofs (c + 2) pg ofs);
             let pages = pages[di := Some pg];
             if \<not> ok then Some (- EOVERFLOW, pages, di, o', completed)
             else (let (go, di', completed') = dec_next max_index di o' completed
                   in if \<not> go then Some (- EOVERFLOW, pages, di', o', completed')
                      else dec_loop page_size cb max_index max_ofs sb_end (pages, di', o', completed')) } } } }"
  by pat_completeness auto
termination
  by (relation "measure (\<lambda>(ps, cb, mi, mo, c, st). length cb - c)") (auto simp: Let_def)

declare dec_loop.simps [simp del]

text \<open>
  The second stage: a completed page is zeroed behind the initialized size and handed over.  \<open>index i\<close> is
  the position of page \<open>i\<close> in the file.
\<close>

definition zero_partial_compressed_page :: "nat \<Rightarrow> nat \<Rightarrow> buf \<Rightarrow> nat \<Rightarrow> buf option" where
  "zero_partial_compressed_page page_size index pg initialized_size =
     (if index * page_size \<ge> initialized_size then memset0 pg 0 page_size
      else (let kp_ofs = initialized_size mod page_size in memset0 pg kp_ofs (page_size - kp_ofs)))"

definition handle_bounds_compressed_page :: "nat \<Rightarrow> nat \<Rightarrow> buf \<Rightarrow> nat \<Rightarrow> nat \<Rightarrow> buf option" where
  "handle_bounds_compressed_page page_size index pg i_size initialized_size =
     (if index \<ge> initialized_size div page_size \<and> initialized_size < i_size
      then zero_partial_compressed_page page_size index pg initialized_size else Some pg)"

fun finish_pages :: "nat \<Rightarrow> (nat \<Rightarrow> nat) \<Rightarrow> nat \<Rightarrow> nat \<Rightarrow> nat list \<Rightarrow> buf option list \<Rightarrow> (nat \<times> buf) list \<Rightarrow> (buf option list \<times> (nat \<times> buf) list) option" where
  "finish_pages page_size index i_size init [] pages uptodate = Some (pages, uptodate)"
| "finish_pages page_size index i_size init (di # dis) pages uptodate = do {
     dp \<leftarrow> (if di < length pages then pages ! di else None);
     pg \<leftarrow> handle_bounds_compressed_page page_size (index di) dp i_size init;
     finish_pages page_size index i_size init dis (pages[di := None]) (uptodate @ [(di, pg)]) }"

definition ntfs_decompress ::
  "nat \<Rightarrow> (nat \<Rightarrow> nat) \<Rightarrow> buf option list \<Rightarrow> nat \<Rightarrow> nat \<Rightarrow> nat \<Rightarrow> nat \<Rightarrow> buf \<Rightarrow> nat \<Rightarrow> nat \<Rightarrow>
   (int \<times> buf option list \<times> nat \<times> nat \<times> (nat \<times> buf) list) option" where
  "ntfs_decompress page_size index dest_pages dest_index dest_ofs dest_max_index dest_max_ofs cb i_size initialized_size = do {
     (err, pages, di, ofs, completed) \<leftarrow> dec_loop page_size cb dest_max_index dest_max_ofs 0 (dest_pages, dest_index, dest_ofs, []);
     (pages, uptodate) \<leftarrow> finish_pages page_size index i_size initialized_size completed pages [];
     Some (err, pages, di, ofs, uptodate) }"

section \<open>The format\<close>

text \<open>
  A sub-block is a sequence of literals and of phrases (distance, length) that repeat earlier data.  The bits
  of a phrase token are divided by the position: \<open>bp_at p\<close> of them hold the distance.
\<close>

datatype tok = Lit byte | Phrase nat nat

fun copy_back :: "nat \<Rightarrow> nat \<Rightarrow> buf \<Rightarrow> buf" where
  "copy_back d 0 acc = acc"
| "copy_back d (Suc n) acc = copy_back d n (acc @ [acc ! (length acc - d)])"

fun expand1 :: "tok \<Rightarrow> buf \<Rightarrow> buf" where
  "expand1 (Lit b) acc = acc @ [b]"
| "expand1 (Phrase d l) acc = copy_back d l acc"

definition expand :: "buf \<Rightarrow> tok list \<Rightarrow> buf" where
  "expand acc ts = fold expand1 ts acc"

definition bp_at :: "nat \<Rightarrow> nat" where
  "bp_at p = 4 + lg_loop (p - 1) 0"

fun tok_len :: "tok \<Rightarrow> nat" where
  "tok_len (Lit b) = 1"
| "tok_len (Phrase d l) = l"

fun wf_tok :: "nat \<Rightarrow> tok \<Rightarrow> bool" where
  "wf_tok p (Lit b) = True"
| "wf_tok p (Phrase d l) = (1 \<le> d \<and> d \<le> p \<and> 3 \<le> l \<and> l \<le> 2 ^ (16 - bp_at p) + 2)"

fun wf_toks :: "nat \<Rightarrow> tok list \<Rightarrow> bool" where
  "wf_toks p [] = True"
| "wf_toks p (t # ts) = (wf_tok p t \<and> wf_toks (p + tok_len t) ts)"

fun enc_tok :: "nat \<Rightarrow> tok \<Rightarrow> buf" where
  "enc_tok p (Lit b) = [b]"
| "enc_tok p (Phrase d l) = le_bytes 2 ((d - 1) * 2 ^ (16 - bp_at p) + (l - 3))"

fun enc_toks :: "nat \<Rightarrow> tok list \<Rightarrow> buf" where
  "enc_toks p [] = []"
| "enc_toks p (t # ts) = enc_tok p t @ enc_toks (p + tok_len t) ts"

fun tag_of :: "tok list \<Rightarrow> nat" where
  "tag_of [] = 0"
| "tag_of (Lit b # ts) = 2 * tag_of ts"
| "tag_of (Phrase d l # ts) = 2 * tag_of ts + 1"

abbreviation (input) toks_len :: "tok list \<Rightarrow> nat" where
  "toks_len ts \<equiv> sum_list (map tok_len ts)"

fun enc_groups :: "nat \<Rightarrow> tok list list \<Rightarrow> buf" where
  "enc_groups p [] = []"
| "enc_groups p (g # gs) = word_of_nat (tag_of g) # enc_toks p g @ enc_groups (p + toks_len g) gs"

text \<open>Every tag but the last has eight tokens.\<close>

fun full_groups :: "tok list list \<Rightarrow> bool" where
  "full_groups [] = True"
| "full_groups [g] = (g \<noteq> [] \<and> length g \<le> 8)"
| "full_groups (g # gs) = (length g = 8 \<and> full_groups gs)"

subsection \<open>Distances and lengths\<close>

lemma lg_loop_add: "lg_loop i lg = lg + lg_loop i 0"
proof (induction i arbitrary: lg rule: less_induct)
  case (less i)
  show ?case
  proof (cases "i \<ge> 16")
    case True
    then have "i div 2 < i" by simp
    from less [OF this, of "lg + 1"] less [OF this, of 1] True show ?thesis
      by (subst (1 2) lg_loop.simps) simp
  qed (simp add: lg_loop.simps)
qed

lemma lg_loop_bounds: "i < 2 ^ (4 + lg_loop i 0) \<and> (lg_loop i 0 = 0 \<or> 2 ^ (3 + lg_loop i 0) \<le> i)"
proof (induction i rule: less_induct)
  case (less i)
  show ?case
  proof (cases "i \<ge> 16")
    case True
    then have i: "lg_loop i 0 = 1 + lg_loop (i div 2) 0" "i div 2 < i"
      using lg_loop_add [of "i div 2" 1] by (simp_all add: lg_loop.simps [of i])
    with less [of "i div 2"] True have
      "i div 2 < 2 ^ (4 + lg_loop (i div 2) 0)" "lg_loop (i div 2) 0 = 0 \<or> 2 ^ (3 + lg_loop (i div 2) 0) \<le> i div 2" by auto
    with True i show ?thesis by (auto simp: power_add)
  qed (simp add: lg_loop.simps)
qed

lemma bp_at_unique:
  assumes "4 \<le> bp" "p \<le> 2 ^ bp" "bp = 4 \<or> 2 ^ (bp - 1) < p"
  shows "bp = bp_at p"
proof -
  define b where "b = bp_at p"
  have "p \<le> 2 ^ b" "4 \<le> b" "lg_loop (p - 1) 0 = 0 \<or> (2 :: nat) ^ (b - 1) \<le> p - 1"
    using lg_loop_bounds [of "p - 1"] unfolding b_def bp_at_def by (auto simp: power_add)
  moreover have "0 < (2 :: nat) ^ (b - 1)" by simp
  ultimately have b: "p \<le> 2 ^ b" "4 \<le> b" "b = 4 \<or> 2 ^ (b - 1) < p" by (auto simp: b_def bp_at_def lg_loop.simps [of 0])
  have False if "4 \<le> x" "x < y" "p \<le> 2 ^ x" "y = 4 \<or> 2 ^ (y - 1) < p" for x y :: nat
  proof -
    have "(2 :: nat) ^ x \<le> 2 ^ (y - 1)" using that(2) by (intro power_increasing) auto
    moreover have "2 ^ (y - 1) < p" using that by auto
    ultimately show False using that(3) by linarith
  qed
  with b assms have "\<not> bp < b" "\<not> b < bp" by blast+
  then show ?thesis by (simp add: b_def)
qed

lemma bp_at_bounds: "p \<le> 2 ^ bp_at p" "4 \<le> bp_at p" "p \<le> 4096 \<Longrightarrow> bp_at p \<le> 12"
proof -
  show "p \<le> 2 ^ bp_at p" "4 \<le> bp_at p"
    using lg_loop_bounds [of "p - 1"] unfolding bp_at_def by (auto simp: power_add)
  show "bp_at p \<le> 12" if "p \<le> 4096"
  proof (rule ccontr)
    assume "\<not> bp_at p \<le> 12"
    then have "12 \<le> 3 + lg_loop (p - 1) 0" "lg_loop (p - 1) 0 \<noteq> 0" by (auto simp: bp_at_def)
    moreover from this(1) have "(2 :: nat) ^ 12 \<le> 2 ^ (3 + lg_loop (p - 1) 0)" by (intro power_increasing) auto
    ultimately show False using lg_loop_bounds [of "p - 1"] that by auto
  qed
qed

subsection \<open>Bytes\<close>

lemma put8_update: "p < length b \<Longrightarrow> put8 b p v = Some (b[p := word_of_nat v])"
  by (simp add: put8_def put_le_def blit_def upd_conv_take_nth_drop)

lemma put8_nth: "p < length b \<Longrightarrow> put8 b p (unat (x :: byte)) = Some (b[p := x])"
  by (simp add: put8_update)

lemma copy_back_snoc:
  "copy_back d (Suc n) acc = (let a = copy_back d n acc in a @ [a ! (length a - d)])"
proof (induction n arbitrary: acc)
  case (Suc n)
  show ?case by (subst copy_back.simps(2)) (subst Suc, simp)
qed (simp add: Let_def)

lemma length_copy_back [simp]: "length (copy_back d n acc) = length acc + n"
  by (induction n arbitrary: acc) simp_all

lemma copy_back_add: "copy_back d (m + n) acc = copy_back d n (copy_back d m acc)"
  by (induction m arbitrary: acc) simp_all

lemma length_expand1 [simp]: "length (expand1 t acc) = length acc + tok_len t"
  by (cases t) simp_all

lemma expand_simps [simp]: "expand acc [] = acc" "expand acc (t # ts) = expand (expand1 t acc) ts"
  "expand acc (ts @ us) = expand (expand acc ts) us"
  by (simp_all add: expand_def)

lemma length_expand [simp]: "length (expand acc ts) = length acc + toks_len ts"
  by (induction ts arbitrary: acc) simp_all

lemma copy_back_disjoint:
  assumes "n \<le> d" "d \<le> length acc"
  shows "copy_back d n acc = acc @ take n (drop (length acc - d) acc)"
  using assms(1)
proof (induction n)
  case (Suc n)
  let ?a = "copy_back d n acc"
  have a: "?a = acc @ take n (drop (length acc - d) acc)" using Suc by simp
  have l: "length ?a - d = length acc - d + n" using assms Suc.prems by simp
  have "?a ! (length ?a - d) = acc ! (length acc - d + n)" unfolding l unfolding a using assms Suc.prems by (simp add: nth_append)
  moreover have "take (Suc n) (drop (length acc - d) acc) = take n (drop (length acc - d) acc) @ [acc ! (length acc - d + n)]"
    using assms Suc.prems by (subst take_Suc_conv_app_nth) auto
  ultimately show ?case using a by (simp add: copy_back_snoc Let_def del: copy_back.simps(2))
qed simp

lemma byte_copy_correct:
  assumes "src < dst" "dst + n \<le> length pg"
  obtains pg' where "byte_copy pg dst src n = Some pg'" "length pg' = length pg" "take (dst + n) pg' = copy_back (dst - src) n (take dst pg)"
  using assms
proof (induction n arbitrary: pg dst src thesis)
  case (Suc n)
  let ?p = "pg[dst := pg ! src]"
  have b: "Suc src < Suc dst" "Suc dst + n \<le> length ?p" using Suc.prems by auto
  obtain pg' where r: "byte_copy ?p (Suc dst) (Suc src) n = Some pg'" "length pg' = length pg"
    "take (Suc dst + n) pg' = copy_back (dst - src) n (take (Suc dst) ?p)"
    using Suc.IH [OF _ b] by auto
  have "take (Suc dst) ?p = take dst pg @ [pg ! src]" using Suc.prems by (simp add: take_Suc_conv_app_nth)
  moreover have "take dst pg ! (length (take dst pg) - (dst - src)) = pg ! src" using Suc.prems by simp
  ultimately have "take (dst + Suc n) pg' = copy_back (dst - src) (Suc n) (take dst pg)" using r(3) by simp
  with r(1,2) Suc.prems show ?case by (intro Suc.prems(1) [of pg']) (simp_all add: get8_nth put8_nth)
qed simp

lemma memmove_forward:
  assumes "dp \<le> length pg" "1 \<le> d" "d \<le> dp" "n \<le> d" "dp + n \<le> length pg"
  obtains pg' where "memmove pg dp (dp - d) n = Some pg'" "length pg' = length pg" "take (dp + n) pg' = copy_back d n (take dp pg)"
proof -
  let ?x = "take n (drop (dp - d) pg)"
  have s: "slice pg (dp - d) n = Some ?x" using assms by (simp add: slice_def)
  have l: "length ?x = n" using assms by simp
  let ?p = "take dp pg @ ?x @ drop (dp + n) pg"
  have m: "memmove pg dp (dp - d) n = Some ?p" using s l assms by (simp add: memmove_def blit_def)
  have "take n (drop (dp - d) (take dp pg)) = ?x" using assms by (simp add: drop_take min_def)
  then have "take (dp + n) ?p = copy_back d n (take dp pg)" using assms l by (simp add: copy_back_disjoint)
  moreover have "length ?p = length pg" using assms l by simp
  ultimately show ?thesis using that [of ?p] m by simp
qed

lemma copy_phrase_correct:
  assumes "1 \<le> d" "d \<le> dp" "dp + len \<le> length pg"
  obtains pg' where "copy_phrase pg dp (dp - d) len = Some pg'" "length pg' = length pg" "take (dp + len) pg' = copy_back d len (take dp pg)"
proof (cases "len \<le> d")
  case True
  then obtain pg' where "memmove pg dp (dp - d) len = Some pg'" "length pg' = length pg" "take (dp + len) pg' = copy_back d len (take dp pg)"
    using memmove_forward [of dp pg d len] assms by auto
  with True assms that show ?thesis by (simp add: copy_phrase_def Let_def)
next
  case False
  obtain p1 where p1: "memmove pg dp (dp - d) d = Some p1" "length p1 = length pg" "take (dp + d) p1 = copy_back d d (take dp pg)"
    using memmove_forward [of dp pg d d] assms False by auto
  have "dp < dp + d" "dp + d + (len - d) \<le> length p1" using assms p1(2) False by auto
  then obtain p2 where p2: "byte_copy p1 (dp + d) dp (len - d) = Some p2" "length p2 = length p1"
    "take (dp + d + (len - d)) p2 = copy_back (dp + d - dp) (len - d) (take (dp + d) p1)"
    by (rule byte_copy_correct)
  have "take (dp + len) p2 = copy_back d (d + (len - d)) (take dp pg)"
    using p2(3) False unfolding copy_back_add by (simp add: p1(3))
  with False assms p1 p2 that show ?thesis by (simp add: copy_phrase_def Let_def)
qed

section \<open>Decompression is expansion\<close>

lemma tag_of_div2: "tag_of (t # ts) div 2 = tag_of ts" "tag_of (Lit b # ts) AND 1 = 0" "tag_of (Phrase d l # ts) AND 1 = 1"
  by (cases t; simp) (simp_all add: and_one_eq)

lemma tag_of_less: "tag_of ts < 2 ^ length ts"
  by (induction ts rule: tag_of.induct) auto

lemma phrase_bits:
  assumes "wf_tok p (Phrase d l)" "p \<le> 4096" "pt = (d - 1) * 2 ^ (16 - bp_at p) + (l - 3)"
  shows "pt < 65536" "pt div 2 ^ (16 - bp_at p) + 1 = d" "(pt AND (0xfff div 2 ^ (bp_at p - 4))) + 3 = l"
proof -
  define k where "k = 16 - bp_at p"
  note b = bp_at_bounds(1,2) [of p] bp_at_bounds(3) [OF assms(2)]
  have w: "1 \<le> d" "d \<le> p" "3 \<le> l" "l - 3 < 2 ^ k" and pt: "pt = (d - 1) * 2 ^ k + (l - 3)"
    using assms(1,3) by (auto simp: k_def)
  obtain r where r: "l = r + 3" "r < 2 ^ k" using w(3,4) by (metis add.commute le_add_diff_inverse)
  show "pt div 2 ^ (16 - bp_at p) + 1 = d" using w(1) r unfolding pt by (simp flip: k_def)
  have "(d - 1 + 1) * 2 ^ k \<le> 2 ^ bp_at p * 2 ^ k" using w b by (intro mult_right_mono) auto
  also have "\<dots> = 65536"
    using b by (simp add: k_def flip: power_add)
  finally show "pt < 65536" using w pt unfolding add_mult_distrib by linarith
  have m: "2 ^ k * 2 ^ (bp_at p - 4) = (4096 :: nat)" using b by (simp add: k_def flip: power_add)
  have "(2 :: nat) ^ (bp_at p - 4) \<le> 4096" "1 \<le> (2 :: nat) ^ (bp_at p - 4)"
    using b power_increasing [of "bp_at p - 4" 12 "2 :: nat"] by auto
  then have "0xfff = (2 ^ k - 1) * 2 ^ (bp_at p - 4) + (2 ^ (bp_at p - 4) - (1 :: nat))"
    unfolding diff_mult_distrib m by linarith
  then have "0xfff div 2 ^ (bp_at p - 4) = 2 ^ k - (1 :: nat)"
    by (metis div_mult_self3 div_less diff_less power_not_zero zero_less_one zero_less_numeral zero_less_power add.right_neutral zero_neq_numeral)
  then show "(pt AND (0xfff div 2 ^ (bp_at p - 4))) + 3 = l" using r unfolding pt by (simp add: nat_and_mask_low [unfolded One_nat_def])
qed

lemma slice_halves:
  assumes "slice b c (length (xs @ ys)) = Some (xs @ ys)"
  shows "slice b c (length xs) = Some xs" "slice b (c + length xs) (length ys) = Some ys"
  using assms by (simp_all add: slice_append)

lemma enc_tok_bounds: "enc_tok p t \<noteq> []" "length (enc_tok p t) \<le> 2"
  by (cases t; simp add: numeral_2_eq_2)+

lemma wf_tok_len: "wf_tok p t \<Longrightarrow> 1 \<le> tok_len t"
  by (cases t) auto

lemma dec_tokens_lit:
  assumes "slice cb c 1 = Some [b]" "c < sb_end" "ofs < 4096" "ofs < length pg"
  shows "dec_tokens (Suc n) cb sb_end 0 (tag_of (Lit b # ts)) c pg ofs = dec_tokens n cb sb_end 0 (tag_of ts) (c + 1) (pg[ofs := b]) (ofs + 1)"
proof -
  have "get8 cb c = Some (unat b)" using assms(1) by (simp add: get8_def get_le_def)
  with assms show ?thesis
    by (simp add: tag_of_div2(2) [simplified] put8_nth del: tag_of.simps) (simp add: tag_of_div2(1))
qed

lemma dec_tokens_phrase:
  assumes "slice cb c 2 = Some (enc_tok ofs (Phrase d l))" "c < sb_end" "wf_tok ofs (Phrase d l)" "ofs + l \<le> 4096"
    "copy_phrase pg ofs (ofs - d) l = Some pg'"
  shows "dec_tokens (Suc n) cb sb_end 0 (tag_of (Phrase d l # ts)) c pg ofs = dec_tokens n cb sb_end 0 (tag_of ts) (c + 2) pg' (ofs + l)"
proof -
  define pt where "pt = (d - 1) * 2 ^ (16 - bp_at ofs) + (l - 3)"
  have o: "ofs \<le> 4096" "0 < ofs" "d \<le> ofs" using assms(3,4) by auto
  note p = phrase_bits [OF assms(3) o(1) pt_def]
  have g: "get_le 2 cb c = Some pt" using assms(1) p(1) by (simp add: get_le_def pt_def)
  have lg: "lg_loop (u16 (ofs - 0 - 1)) 0 = bp_at ofs - 4" using o by (simp add: bp_at_def)
  have e: "12 - (bp_at ofs - 4) = 16 - bp_at ofs" using bp_at_bounds(2) [of ofs] by simp
  show ?thesis
    unfolding dec_tokens.simps lg g e Let_def bind.bind_lunit p(2,3) tag_of_div2 using assms o by simp
qed

lemma dec_tokens_correct:
  assumes "wf_toks ofs ts" "slice cb c (length (enc_toks ofs ts)) = Some (enc_toks ofs ts)"
    "c + length (enc_toks ofs ts) \<le> sb_end" "length ts \<le> n" "length ts = n \<or> c + length (enc_toks ofs ts) = sb_end"
    "ofs + toks_len ts \<le> 4096" "4096 \<le> length pg"
  obtains pg' where "dec_tokens n cb sb_end 0 (tag_of ts) c pg ofs = Some (False, c + length (enc_toks ofs ts), pg', ofs + toks_len ts)"
    "length pg' = length pg" "take (ofs + toks_len ts) pg' = expand (take ofs pg) ts"
  using assms
proof (induction ts arbitrary: n c pg ofs thesis)
  case Nil
  then show ?case by (cases n) auto
next
  case (Cons t ts)
  obtain m where n: "n = Suc m" using Cons.prems by (cases n) auto
  have sl: "slice cb c (length (enc_tok ofs t)) = Some (enc_tok ofs t)"
    "slice cb (c + length (enc_tok ofs t)) (length (enc_toks (ofs + tok_len t) ts)) = Some (enc_toks (ofs + tok_len t) ts)"
    using Cons.prems(3) slice_halves [of cb c "enc_tok ofs t" "enc_toks (ofs + tok_len t) ts"] by simp_all
  have c: "c < sb_end" using Cons.prems(4) enc_tok_bounds(1) [of ofs t] by (simp add: length_greater_0_conv [symmetric] del: length_greater_0_conv)
  have w: "1 \<le> tok_len t" "ofs + tok_len t \<le> 4096" using Cons.prems wf_tok_len by auto
  obtain p1 where p1: "dec_tokens n cb sb_end 0 (tag_of (t # ts)) c pg ofs = dec_tokens m cb sb_end 0 (tag_of ts) (c + length (enc_tok ofs t)) p1 (ofs + tok_len t)"
    "length p1 = length pg" "take (ofs + tok_len t) p1 = expand1 t (take ofs pg)"
  proof (cases t)
    case (Lit b)
    have "dec_tokens n cb sb_end 0 (tag_of (t # ts)) c pg ofs = dec_tokens m cb sb_end 0 (tag_of ts) (c + 1) (pg[ofs := b]) (ofs + 1)"
      unfolding n Lit using sl(1) c w Cons.prems(8) Lit by (intro dec_tokens_lit) auto
    with Lit w Cons.prems(8) show ?thesis by (intro that [of "pg[ofs := b]"]) (auto simp: take_Suc_conv_app_nth)
  next
    case (Phrase d l)
    then obtain pg' where pg': "copy_phrase pg ofs (ofs - d) l = Some pg'" "length pg' = length pg" "take (ofs + l) pg' = copy_back d l (take ofs pg)"
      using copy_phrase_correct [of d ofs l pg] Cons.prems(2,8) w by auto
    have "dec_tokens n cb sb_end 0 (tag_of (t # ts)) c pg ofs = dec_tokens m cb sb_end 0 (tag_of ts) (c + 2) pg' (ofs + l)"
      unfolding n Phrase using sl(1) c w Cons.prems(2) Phrase pg'(1) by (intro dec_tokens_phrase) auto
    with Phrase pg' show ?thesis by (intro that [of pg']) auto
  qed
  obtain p2 where "dec_tokens m cb sb_end 0 (tag_of ts) (c + length (enc_tok ofs t)) p1 (ofs + tok_len t) =
      Some (False, c + length (enc_tok ofs t) + length (enc_toks (ofs + tok_len t) ts), p2, ofs + tok_len t + toks_len ts)"
    "length p2 = length p1" "take (ofs + tok_len t + toks_len ts) p2 = expand (take (ofs + tok_len t) p1) ts"
    by (rule Cons.IH [where pg = p1 and n = m]) (use sl(2) Cons.prems n p1(2) in \<open>auto simp: add.assoc\<close>)
  with p1 show ?case by (intro Cons.prems(1) [of p2]) (auto simp: add.assoc)
qed

lemma wf_toks_append [simp]: "wf_toks p (ts @ us) \<longleftrightarrow> wf_toks p ts \<and> wf_toks (p + toks_len ts) us"
  by (induction ts arbitrary: p) (auto simp: add.assoc)

lemma enc_toks_append [simp]: "enc_toks p (ts @ us) = enc_toks p ts @ enc_toks (p + toks_len ts) us"
  by (induction ts arbitrary: p) (auto simp: add.assoc)

lemma full_groups_cases:
  "full_groups (g # gs) \<Longrightarrow> g \<noteq> [] \<and> length g \<le> 8 \<and> (length g = 8 \<or> gs = []) \<and> full_groups gs"
  by (cases gs) auto

lemma tag_byte: "length g \<le> 8 \<Longrightarrow> unat (word_of_nat (tag_of g) :: byte) = tag_of g"
proof -
  assume "length g \<le> 8"
  then have "(2 :: nat) ^ length g \<le> 2 ^ 8" by (intro power_increasing) auto
  with tag_of_less [of g] show ?thesis by (simp add: unat_of_nat)
qed

lemma dec_tags_correct:
  assumes "wf_toks ofs (concat gs)" "full_groups gs" "slice cb c (length (enc_groups ofs gs)) = Some (enc_groups ofs gs)"
    "sb_end = c + length (enc_groups ofs gs)" "ofs + toks_len (concat gs) \<le> 4096" "length pg = 4096"
  shows "dec_tags 4096 cb sb_end 0 c pg ofs =
    Some (True, expand (take ofs pg) (concat gs) @ replicate (4096 - (ofs + toks_len (concat gs))) 0, 0)"
  using assms
proof (induction gs arbitrary: c pg ofs)
  case Nil
  then show ?case by (auto simp: dec_tags.simps memset0_def blit_def)
next
  case (Cons g gs)
  let ?e = "enc_toks ofs g" and ?o = "ofs + toks_len g"
  note fg = full_groups_cases [OF Cons.prems(2)]
  have sl: "slice cb c 1 = Some [word_of_nat (tag_of g)]" "slice cb (c + 1) (length ?e) = Some ?e"
    "slice cb (c + 1 + length ?e) (length (enc_groups ?o gs)) = Some (enc_groups ?o gs)"
    using Cons.prems(3) slice_halves [of cb c "[word_of_nat (tag_of g)]" "?e @ enc_groups ?o gs"]
      slice_halves [of cb "c + 1" ?e "enc_groups ?o gs"] by simp_all
  have e: "sb_end = c + 1 + length ?e + length (enc_groups ?o gs)" using Cons.prems(4) by simp
  have tag: "get8 cb c = Some (tag_of g)" using sl(1) fg by (simp add: get8_def get_le_def tag_byte)
  obtain p1 where p1: "dec_tokens 8 cb sb_end 0 (tag_of g) (c + 1) pg ofs = Some (False, c + 1 + length ?e, p1, ?o)"
    "length p1 = length pg" "take ?o p1 = expand (take ofs pg) g"
    by (rule dec_tokens_correct [where ts = g and ofs = ofs and n = 8 and c = "c + 1" and pg = pg and sb_end = sb_end])
      (use Cons.prems sl e fg in auto)
  have "dec_tags 4096 cb sb_end 0 c pg ofs = dec_tags 4096 cb sb_end 0 (c + 1 + length ?e) p1 ?o"
    using e tag p1(1) Cons.prems(5) by (subst dec_tags.simps) simp
  also have "\<dots> = Some (True, expand (take ?o p1) (concat gs) @ replicate (4096 - (?o + toks_len (concat gs))) 0, 0)"
    using Cons.prems p1(2) sl(3) e fg by (intro Cons.IH) auto
  finally show ?case using p1(3) by (simp add: add.assoc)
qed

text \<open>\<open>sub_block bs data\<close>: the bytes of a sub-block and the page it stands for.\<close>

definition packed_block :: "buf \<Rightarrow> tok list list \<Rightarrow> bool" where
  "packed_block bs gs \<longleftrightarrow>
     length bs < 4098 \<and> bs = le_bytes 2 (0xb000 + (length bs - 3)) @ enc_groups 0 gs \<and> gs \<noteq> [] \<and> full_groups gs \<and>
     wf_toks 0 (concat gs) \<and> toks_len (concat gs) \<le> 4096"

definition sub_block :: "buf \<Rightarrow> buf \<Rightarrow> bool" where
  "sub_block bs data \<longleftrightarrow> length data = 4096 \<and>
     (bs = [0xff, 0x3f] @ data \<or>
      (\<exists>gs. packed_block bs gs \<and> data = expand [] (concat gs) @ replicate (4096 - toks_len (concat gs)) 0))"

definition page_done :: "buf option list \<Rightarrow> nat \<Rightarrow> buf \<Rightarrow> buf option list" where
  "page_done pages di data = (if pages ! di = None then pages else pages[di := Some data])"

definition note_done :: "buf option list \<Rightarrow> nat \<Rightarrow> nat list \<Rightarrow> nat list" where
  "note_done pages di completed = (if pages ! di = None then completed else completed @ [di])"

lemma header_bits: "m < 4096 \<Longrightarrow> (0xb000 + m) AND 0xfff = m" "m < 4096 \<Longrightarrow> (0xb000 + m) AND 0x8000 \<noteq> (0 :: nat)"
proof -
  assume m: "m < (4096 :: nat)"
  have "(0xb000 + m) AND (2 ^ 12 - 1) = (0xb000 + m) mod 2 ^ 12" by (rule nat_and_mask_low)
  also have "\<dots> = m" using m by (simp add: mod_add_eq [symmetric, of _ m])
  finally show "(0xb000 + m) AND 0xfff = m" by simp
  have "(0xb000 + m) div 2 ^ 15 = 1" using m by simp
  then have "bit (0xb000 + m) 15" by (simp add: bit_iff_odd)
  then have "(0xb000 + m) AND 2 ^ 15 \<noteq> 0" by (subst and_exp_eq_0_iff_not_bit) blast
  then show "(0xb000 + m) AND 0x8000 \<noteq> 0" by simp
qed

lemma length_enc_groups: "gs \<noteq> [] \<Longrightarrow> full_groups gs \<Longrightarrow> 2 \<le> length (enc_groups p gs)"
  using enc_tok_bounds(1) by (cases gs; cases "hd gs") (auto dest: full_groups_cases simp: Suc_le_eq)

lemma packed_length:
  assumes "packed_block bs gs"
  shows "length bs = 2 + length (enc_groups 0 gs)" "4 \<le> length bs"
proof -
  have "bs = le_bytes 2 (0xb000 + (length bs - 3)) @ enc_groups 0 gs" using assms by (simp add: packed_block_def)
  from arg_cong [OF this, of length] show "length bs = 2 + length (enc_groups 0 gs)" by simp
  with assms length_enc_groups show "4 \<le> length bs" by (simp add: packed_block_def)
qed

lemma dec_loop_enter:
  assumes "get_le 2 cb c = Some h" "h \<noteq> 0" "c + 6 \<le> length cb" "di < mi" "di < length pages" "c + (h AND 0xfff) + 3 \<le> length cb"
    "\<And>pg. pages ! di = Some pg \<Longrightarrow>
       (if h AND NTFS_SB_IS_COMPRESSED = 0 then
          (if c + (h AND 0xfff) + 3 - (c + 2) \<noteq> NTFS_SB_SIZE then Some (False, pg, 0)
           else do { d \<leftarrow> slice cb (c + 2) NTFS_SB_SIZE; pg \<leftarrow> blit pg 0 d; Some (True, pg, (0 + NTFS_SB_SIZE) mod 4096) })
        else dec_tags 4096 cb (c + (h AND 0xfff) + 3) 0 (c + 2) pg 0) = Some (True, data, 0)"
  shows "dec_loop 4096 cb mi mo c (pages, di, 0, dn) =
    dec_loop 4096 cb mi mo (c + (h AND 0xfff) + 3) (page_done pages di data, di + 1, 0, note_done pages di dn)"
proof -
  have "c \<noteq> length cb" using assms(3) by simp
  then show ?thesis
    using assms by (subst dec_loop.simps) (cases "pages ! di"; simp add: Let_def dec_next_def page_done_def note_done_def)
qed

lemma dec_loop_sub_block:
  assumes "sub_block bs data" "slice cb c (length bs) = Some bs" "c + 6 \<le> length cb" "di < mi" "di < length pages"
    "\<And>pg. pages ! di = Some pg \<Longrightarrow> length pg = 4096"
  shows "dec_loop 4096 cb mi mo c (pages, di, 0, dn) =
    dec_loop 4096 cb mi mo (c + length bs) (page_done pages di data, di + 1, 0, note_done pages di dn)"
proof -
  consider (raw) "bs = [0xff, 0x3f] @ data"
    | (packed) gs where "packed_block bs gs" "data = expand [] (concat gs) @ replicate (4096 - toks_len (concat gs)) 0"
    using assms(1) by (auto simp: sub_block_def)
  then show ?thesis
  proof cases
    case raw
    have d: "length data = 4096" using assms(1) by (simp add: sub_block_def)
    have sl: "slice cb c 2 = Some [0xff, 0x3f]" "slice cb (c + 2) 4096 = Some data"
      using slice_halves [of cb c "[0xff, 0x3f]" data] assms(2) raw d by (simp_all add: numeral_2_eq_2)
    have "get_le 2 cb c = Some 0x3fff" using sl(1) by (simp add: get_le_def)
    moreover have "c + 4098 \<le> length cb" using assms(2) raw d by (simp add: slice_eq_Some)
    ultimately show ?thesis using dec_loop_enter [where cb = cb and c = c and h = "0x3fff" and di = di and mi = mi and pages = pages and data = data] assms sl(2) d raw by (simp add: blit_def add.commute [of c])
  next
    case packed
    define m where "m = length bs - 3"
    have p: "bs = le_bytes 2 (0xb000 + m) @ enc_groups 0 gs" "m < 4096" "length bs = m + 3" "full_groups gs" "wf_toks 0 (concat gs)"
      "toks_len (concat gs) \<le> 4096" 
      using packed(1) packed_length(2) [OF packed(1)] by (auto simp: packed_block_def m_def)
    note l = packed_length(1) [OF packed(1)]
    have sl: "slice cb c 2 = Some (le_bytes 2 (0xb000 + m))" "slice cb (c + 2) (length (enc_groups 0 gs)) = Some (enc_groups 0 gs)"
      using slice_halves [of cb c "le_bytes 2 (0xb000 + m)" "enc_groups 0 gs"] assms(2) p(1) l by simp_all
    have h: "get_le 2 cb c = Some (0xb000 + m)" using sl(1) p(2) by (simp add: get_le_def)
    have e: "c + (0xb000 + m AND 0xfff) + 3 = c + length bs" using p(2,3) header_bits(1) by simp
    have b: "c + length bs \<le> length cb" using assms(2) by (simp add: slice_eq_Some)
    have "dec_tags 4096 cb (c + length bs) 0 (c + 2) pg 0 = Some (True, data, 0)" if "pages ! di = Some pg" for pg
      using dec_tags_correct [OF p(5,4) sl(2), of "c + length bs" pg] assms(6) [OF that] p(6) l packed(2) by simp
    then show ?thesis
      using dec_loop_enter [OF h _ assms(3-5), where data = data and mo = mo and dn = dn] header_bits(2) [OF p(2)] b unfolding e by simp
  qed
qed

lemma le_bytes_two: "le_bytes 2 v = [word_of_nat v, word_of_nat (v div 256)]"
  by (simp add: numeral_2_eq_2)

text \<open>
  A literal that follows a full sub-block passes the test \<open>dp_addr > dp_sb_end\<close> and is written behind the
  page: the seven bytes below are a sub-block with a literal, a phrase of 4095 bytes and one more literal.
\<close>

lemma decompress_symbol_behind_page:
  assumes "length pg = 4096"
  shows "ntfs_decompress 4096 index [Some pg] 0 0 1 0 [0x04, 0xb0, 0x02, 0x00, 0xfc, 0x0f, 0xaa] i_size initialized_size = None"
proof -
  let ?cb = "[0x04, 0xb0, 0x02, 0x00, 0xfc, 0x0f, 0xaa] :: buf"
  have w: "bp_at 1 = 4" by (simp add: bp_at_def lg_loop.simps)
  obtain p2 where p2: "copy_phrase (pg[0 := 0]) 1 (1 - 1) 4095 = Some p2" "length p2 = 4096"
  proof (rule copy_phrase_correct [of 1 1 4095 "pg[0 := 0]"])
    fix p assume "copy_phrase (pg[0 := 0]) 1 (1 - 1) 4095 = Some p" "length p = length (pg[0 := 0])"
    with assms that show ?thesis by simp
  qed (use assms in simp_all)
  have "dec_tokens (Suc 7) ?cb 7 0 (tag_of [Lit 0, Phrase 1 4095]) 3 pg 0 = dec_tokens 7 ?cb 7 0 (tag_of [Phrase 1 4095]) (3 + 1) (pg[0 := 0]) (0 + 1)"
    by (rule dec_tokens_lit) (use assms in \<open>simp_all add: slice_def\<close>)
  moreover have "dec_tokens (Suc 6) ?cb 7 0 (tag_of [Phrase 1 4095]) 4 (pg[0 := 0]) 1 = dec_tokens 6 ?cb 7 0 (tag_of []) (4 + 2) p2 (1 + 4095)"
    by (rule dec_tokens_phrase) (use p2(1) w in \<open>simp_all add: slice_def le_bytes_two\<close>)
  moreover have "dec_tokens (Suc 5) ?cb 7 0 0 6 p2 4096 = None"
    unfolding dec_tokens.simps(2) using p2(2) by (simp add: get8_nth put8_def put_le_def blit_def)
  moreover have "Suc 7 = 8" "Suc 6 = 7" "Suc 5 = 6" "tag_of [Lit 0, Phrase 1 4095] = 2" "tag_of [Phrase 1 4095] = 1" "(3 + 1 :: nat) = 4" "(4 + 2 :: nat) = 6"
    "(0 + 1 :: nat) = 1" "(1 + 4095 :: nat) = 4096" "tag_of [] = 0" by simp_all
  ultimately have "dec_tokens 8 ?cb 7 0 2 3 pg 0 = None" by metis
  then have "dec_tags 4096 ?cb 7 0 2 pg 0 = None"
    by (subst dec_tags.simps) (simp add: get8_nth)
  then have "dec_tags 4096 ?cb 7 0 (Suc (Suc 0)) pg 0 = None" unfolding numeral_2_eq_2 .
  moreover have "get_le 2 ?cb 0 = Some 0xb004" by (simp add: get_le_def slice_def)
  moreover have "0xb004 AND 0xfff = (4 :: nat)" "0xb004 AND 0x8000 \<noteq> (0 :: nat)" using header_bits [of 4] by simp_all
  ultimately show ?thesis by (simp add: ntfs_decompress_def dec_loop.simps)
qed

end
