(* ===== verification/Lznt1_Compress.thy ===== *)
theory Lznt1_Compress
  imports Lznt1
begin

text \<open>
  \<open>ntfs_compress_block\<close> (core/ntfs/compress.c), which compresses up to 4096 bytes with lazy matching over
  hash chains: the chains, the search for the longest match, the loop with its output position and the
  choice of storing the bytes as they are.  \<open>compress_block_ok\<close> shows that it always ends, stays within
  its arrays and buffers, and that its output is an encoding of the data in the format of \<open>Lznt1\<close>.
\<close>

section \<open>Finding matches\<close>

abbreviation (input) NICE_MATCH_LEN :: nat where "NICE_MATCH_LEN \<equiv> 18"
abbreviation (input) MAX_SEARCH_DEPTH :: nat where "MAX_SEARCH_DEPTH \<equiv> 24"
abbreviation (input) HASH_SHIFT :: nat where "HASH_SHIFT \<equiv> 14"
abbreviation (input) HASH_MULTIPLIER :: nat where "HASH_MULTIPLIER \<equiv> 0x1E35A7BD"

text \<open>\<open>inbuf\<close> and \<open>bufsize\<close> are the list of the bytes to compress.\<close>

record compress_context =
  cx_size :: nat
  cx_rel :: int
  cx_mxsz :: nat
  cx_head :: "int list"
  cx_prev :: "int list"

definition ntfs_hash :: "buf \<Rightarrow> nat \<Rightarrow> nat option" where
  "ntfs_hash inbuf p = do {
     v \<leftarrow> get_le 4 inbuf p;
     let str = v AND 0xFFFFFF;
     Some (u32 (str * HASH_MULTIPLIER) div 2 ^ (32 - HASH_SHIFT)) }"

definition arr_get :: "int list \<Rightarrow> int \<Rightarrow> int option" where
  "arr_get xs i = (if 0 \<le> i \<and> i < int (length xs) then Some (xs ! nat i) else None)"

definition arr_set :: "int list \<Rightarrow> nat \<Rightarrow> int \<Rightarrow> int list option" where
  "arr_set xs i v = (if i < length xs then Some (xs[i := v]) else None)"

definition eq_at :: "buf \<Rightarrow> nat \<Rightarrow> nat \<Rightarrow> nat \<Rightarrow> bool option" where
  "eq_at inbuf m s t = do { x \<leftarrow> get8 inbuf (m + t); y \<leftarrow> get8 inbuf (s + t); Some (x = y) }"

fun all_eq :: "buf \<Rightarrow> nat \<Rightarrow> nat \<Rightarrow> nat \<Rightarrow> nat \<Rightarrow> bool option" where
  "all_eq inbuf m s t 0 = Some True"
| "all_eq inbuf m s t (Suc n) = do { e \<leftarrow> eq_at inbuf m s t; if e then all_eq inbuf m s (t + 1) n else Some False }"

definition longer_match :: "buf \<Rightarrow> nat \<Rightarrow> nat \<Rightarrow> nat \<Rightarrow> bool option" where
  "longer_match inbuf m s best_len = do {
     e \<leftarrow> eq_at inbuf m s best_len;
     if \<not> e then Some False
     else do {
       e \<leftarrow> eq_at inbuf m s (best_len - 1);
       if \<not> e then Some False
       else do {
         e \<leftarrow> eq_at inbuf m s 0;
         if \<not> e then Some False else all_eq inbuf m s 1 (best_len - 2) } } }"

function extend_max :: "buf \<Rightarrow> nat \<Rightarrow> nat \<Rightarrow> nat \<Rightarrow> nat \<Rightarrow> nat option" where
  "extend_max inbuf m s max_len best_len =
     (if best_len < max_len then do {
        e \<leftarrow> eq_at inbuf m s best_len;
        if e then extend_max inbuf m s max_len (best_len + 1) else Some best_len }
      else Some best_len)"
  by pat_completeness auto
termination
  by (relation "measure (\<lambda>(b, m, s, x, l). x - l)") auto

text \<open>The \<open>do\<close> loop; the flag tells that \<open>nice_len\<close> was reached.\<close>

function extend_match :: "buf \<Rightarrow> nat \<Rightarrow> nat \<Rightarrow> nat \<Rightarrow> nat \<Rightarrow> nat \<Rightarrow> (bool \<times> nat) option" where
  "extend_match inbuf m s max_len nice_len best_len =
     (if best_len + 1 \<ge> nice_len then do { l \<leftarrow> extend_max inbuf m s max_len (best_len + 1); Some (True, l) }
      else do {
        e \<leftarrow> eq_at inbuf m s (best_len + 1);
        if e then extend_match inbuf m s max_len nice_len (best_len + 1) else Some (False, best_len + 1) })"
  by pat_completeness auto
termination
  by (relation "measure (\<lambda>(b, m, s, x, n, l). n - l)") auto

declare extend_max.simps [simp del] extend_match.simps [simp del]

fun match_chain :: "nat \<Rightarrow> buf \<Rightarrow> int list \<Rightarrow> nat \<Rightarrow> nat \<Rightarrow> nat \<Rightarrow> int \<Rightarrow> nat \<Rightarrow> nat \<Rightarrow> (nat \<times> nat) option" where
  "match_chain 0 inbuf prev i max_len nice_len cur_match best_len best = Some (best_len, best)"
| "match_chain (Suc depth) inbuf prev i max_len nice_len cur_match best_len best =
     (if cur_match < 0 then Some (best_len, best)
      else do {
        longer \<leftarrow> longer_match inbuf (nat cur_match) i best_len;
        (stop, l, b) \<leftarrow> (if longer then do {
            (nice, l) \<leftarrow> extend_match inbuf (nat cur_match) i max_len nice_len best_len;
            Some (nice, l, nat cur_match) }
          else Some (False, best_len, best));
        if stop then Some (l, b)
        else do { nxt \<leftarrow> arr_get prev cur_match; match_chain depth inbuf prev i max_len nice_len nxt l b } })"

definition ntfs_best_match :: "buf \<Rightarrow> compress_context \<Rightarrow> nat \<Rightarrow> nat \<Rightarrow> compress_context option" where
  "ntfs_best_match inbuf cx i best_len =
     (let max_len = min (length inbuf - i) (cx_mxsz cx); nice_len = min NICE_MATCH_LEN max_len
      in if max_len < 4 then Some (cx\<lparr>cx_size := best_len, cx_rel := 0\<rparr>)
         else do {
           hash \<leftarrow> ntfs_hash inbuf i;
           cur_match \<leftarrow> arr_get (cx_head cx) (int hash);
           prev \<leftarrow> arr_set (cx_prev cx) i cur_match;
           head \<leftarrow> arr_set (cx_head cx) hash (int i);
           let cx = cx\<lparr>cx_head := head, cx_prev := prev\<rparr>;
           if best_len \<ge> max_len then Some (cx\<lparr>cx_size := best_len, cx_rel := 0\<rparr>)
           else do {
             (l, b) \<leftarrow> match_chain MAX_SEARCH_DEPTH inbuf prev i max_len nice_len cur_match best_len i;
             Some (cx\<lparr>cx_size := l, cx_rel := int b - int i\<rparr>) } })"

definition ntfs_skip_position :: "buf \<Rightarrow> compress_context \<Rightarrow> nat \<Rightarrow> compress_context option" where
  "ntfs_skip_position inbuf cx i =
     (if length inbuf - i < 4 then Some cx
      else do {
        hash \<leftarrow> ntfs_hash inbuf i;
        h \<leftarrow> arr_get (cx_head cx) (int hash);
        prev \<leftarrow> arr_set (cx_prev cx) i h;
        head \<leftarrow> arr_set (cx_head cx) hash (int i);
        Some (cx\<lparr>cx_head := head, cx_prev := prev\<rparr>) })"

text \<open>\<open>do ... while (++i != j)\<close>, which does not end when \<open>i\<close> starts at \<open>j\<close> or behind it.\<close>

function skip_range :: "buf \<Rightarrow> compress_context \<Rightarrow> nat \<Rightarrow> nat \<Rightarrow> compress_context option" where
  "skip_range inbuf cx i j =
     (if j \<le> i then None
      else do { cx \<leftarrow> ntfs_skip_position inbuf cx i; if i + 1 = j then Some cx else skip_range inbuf cx (i + 1) j })"
  by pat_completeness auto
termination
  by (relation "measure (\<lambda>(b, c, i, j). j - i)") auto

declare skip_range.simps [simp del]

section \<open>Compression\<close>

record compress_state =
  cs_i :: nat
  cs_bp :: nat
  cs_have_match :: bool
  cs_tag :: nat
  cs_ntag :: nat
  cs_ptag :: nat
  cs_xout :: nat
  cs_out :: buf
  cs_cx :: compress_context

text \<open>\<open>mxoff\<close> is \<open>1 << bp\<close> throughout.\<close>

function adjust_bp :: "nat \<Rightarrow> nat \<Rightarrow> nat \<Rightarrow> nat \<times> nat" where
  "adjust_bp i bp mxsz = (if 2 ^ bp < i then adjust_bp i (bp + 1) ((mxsz + 2) div 2) else (bp, mxsz))"
  by pat_completeness auto
termination
  by (relation "measure (\<lambda>(i, bp, m). i - 2 ^ bp)") (auto intro: diff_less_mono2)

declare adjust_bp.simps [simp del]

definition put_literal :: "buf \<Rightarrow> compress_state \<Rightarrow> compress_state option" where
  "put_literal inbuf cs = do {
     v \<leftarrow> get8 inbuf (cs_i cs);
     out \<leftarrow> put8 (cs_out cs) (cs_xout cs) v;
     Some (cs\<lparr>cs_out := out, cs_xout := cs_xout cs + 1, cs_i := cs_i cs + 1\<rparr>) }"

definition put_match :: "compress_state \<Rightarrow> int \<Rightarrow> nat \<Rightarrow> nat \<Rightarrow> compress_state option" where
  "put_match cs offs bp_cur len = do {
     let q = nat (((- offs - 1) * 2 ^ (16 - bp_cur) + (int len - 3)) mod 4294967296);
     out \<leftarrow> put8 (cs_out cs) (cs_xout cs) (q mod 256);
     out \<leftarrow> put8 out (cs_xout cs + 1) (q div 256 mod 256);
     Some (cs\<lparr>cs_out := out, cs_xout := cs_xout cs + 2, cs_tag := cs_tag cs OR 2 ^ (8 - cs_ntag cs)\<rparr>) }"

definition tag_done :: "compress_state \<Rightarrow> compress_state option" where
  "tag_done cs =
     (if cs_ntag cs - 1 = 0 then do {
        out \<leftarrow> put8 (cs_out cs) (cs_ptag cs) (cs_tag cs mod 256);
        Some (cs\<lparr>cs_out := out, cs_ntag := 8, cs_ptag := cs_xout cs, cs_xout := cs_xout cs + 1, cs_tag := 0\<rparr>) }
      else Some (cs\<lparr>cs_ntag := cs_ntag cs - 1\<rparr>))"

definition search_here :: "buf \<Rightarrow> compress_state \<Rightarrow> compress_state option" where
  "search_here inbuf cs =
     (if cs_have_match cs then Some cs
      else do {
        let (bp, mxsz) = adjust_bp (cs_i cs) (cs_bp cs) (cx_mxsz (cs_cx cs));
        cx \<leftarrow> ntfs_best_match inbuf ((cs_cx cs)\<lparr>cx_mxsz := mxsz\<rparr>) (cs_i cs) 2;
        Some (cs\<lparr>cs_bp := bp, cs_cx := cx\<rparr>) })"

definition search_next :: "buf \<Rightarrow> compress_state \<Rightarrow> compress_state option" where
  "search_next inbuf cs = do {
     let grow = 2 ^ cs_bp cs < cs_i cs + 1;
     let cx = (if grow then (cs_cx cs)\<lparr>cx_mxsz := (cx_mxsz (cs_cx cs) + 2) div 2\<rparr> else cs_cx cs);
     cx \<leftarrow> ntfs_best_match inbuf cx (cs_i cs + 1) (cx_size cx);
     Some (cs\<lparr>cs_bp := (if grow then cs_bp cs + 1 else cs_bp cs), cs_cx := cx\<rparr>) }"

text \<open>A long match is taken at once; a shorter one, unless the match at the next position is longer.\<close>

definition long_match :: "buf \<Rightarrow> compress_state \<Rightarrow> (bool \<times> compress_state) option" where
  "long_match inbuf cs = do {
     let i = cs_i cs;
     let j = i + cx_size (cs_cx cs);
     cs \<leftarrow> put_match cs (cx_rel (cs_cx cs)) (cs_bp cs) (j - i);
     if j = length inbuf then Some (True, cs\<lparr>cs_i := j, cs_ntag := cs_ntag cs - 1\<rparr>)
     else do {
       cx \<leftarrow> skip_range inbuf (cs_cx cs) (i + 1) j;
       cs \<leftarrow> tag_done (cs\<lparr>cs_cx := cx, cs_i := j, cs_have_match := False\<rparr>);
       Some (False, cs) } }"

definition lazy_match :: "buf \<Rightarrow> compress_state \<Rightarrow> (bool \<times> compress_state) option" where
  "lazy_match inbuf cs = do {
     let i = cs_i cs;
     let j = i + cx_size (cs_cx cs);
     let bp_cur = cs_bp cs;
     let offs = cx_rel (cs_cx cs);
     cs \<leftarrow> search_next inbuf cs;
     if i + 1 + cx_size (cs_cx cs) > j + 1 then do {
       cs \<leftarrow> put_literal inbuf cs;
       cs \<leftarrow> tag_done (cs\<lparr>cs_have_match := True\<rparr>);
       Some (False, cs) }
     else do {
       cs \<leftarrow> put_match cs offs bp_cur (j - i);
       cx \<leftarrow> skip_range inbuf (cs_cx cs) (i + 2) j;
       cs \<leftarrow> tag_done (cs\<lparr>cs_cx := cx, cs_i := j, cs_have_match := False\<rparr>);
       Some (False, cs) } }"

text \<open>One round of the loop; the flag tells of the \<open>break\<close>.\<close>

definition compress_step :: "buf \<Rightarrow> compress_state \<Rightarrow> (bool \<times> compress_state) option" where
  "compress_step inbuf cs = do {
     cs \<leftarrow> search_here inbuf cs;
     if cx_size (cs_cx cs) \<ge> NICE_MATCH_LEN then long_match inbuf cs
     else if cx_size (cs_cx cs) \<ge> 3 then lazy_match inbuf cs
     else do {
       cs \<leftarrow> put_literal inbuf cs;
       cs \<leftarrow> tag_done (cs\<lparr>cs_have_match := False\<rparr>);
       Some (False, cs) } }"

lemma cs_i_steps:
  "put_literal inbuf cs = Some cs' \<Longrightarrow> cs_i cs' = cs_i cs + 1"
  "put_match cs offs bp_cur len = Some cs' \<Longrightarrow> cs_i cs' = cs_i cs"
  "tag_done cs = Some cs' \<Longrightarrow> cs_i cs' = cs_i cs"
  "search_here inbuf cs = Some cs' \<Longrightarrow> cs_i cs' = cs_i cs"
  "search_next inbuf cs = Some cs' \<Longrightarrow> cs_i cs' = cs_i cs"
  by (auto simp: put_literal_def put_match_def tag_done_def search_here_def search_next_def Let_def bind_eq_Some_conv
      split: if_split_asm prod.splits)

lemma compress_step_forward: "compress_step inbuf cs = Some (b, cs') \<Longrightarrow> cs_i cs < cs_i cs'"
  by (auto simp: compress_step_def long_match_def lazy_match_def Let_def bind_eq_Some_conv dest!: cs_i_steps split: if_split_asm)

function compress_loop :: "buf \<Rightarrow> compress_state \<Rightarrow> compress_state option" where
  "compress_loop inbuf cs =
     (if cs_i cs < length inbuf \<and> cs_xout cs < NTFS_SB_SIZE + 2 then do {
        (stop, cs) \<leftarrow> compress_step inbuf cs;
        if stop then Some cs else compress_loop inbuf cs }
      else Some cs)"
  by pat_completeness auto
termination
  by (relation "measure (\<lambda>(b, cs). length b - cs_i cs)") (auto dest: compress_step_forward intro: diff_less_mono2)

declare compress_loop.simps [simp del]

definition compress_start :: "buf \<Rightarrow> compress_state" where
  "compress_start outbuf = \<lparr>cs_i = 0, cs_bp = 4, cs_have_match = False, cs_tag = 0, cs_ntag = 8, cs_ptag = 2, cs_xout = 3, cs_out = outbuf,
     cs_cx = \<lparr>cx_size = 0, cx_rel = 0, cx_mxsz = 2 ^ (16 - 4) + 2,
       cx_head = replicate (2 ^ HASH_SHIFT) (- 1), cx_prev = replicate NTFS_SB_SIZE 0\<rparr>\<rparr>"

text \<open>
  \<open>alloc\<close> tells whether \<open>kvzalloc\<close> returned memory; the result is an \<open>unsigned int\<close>, \<open>-ENOMEM\<close> as well.
\<close>

definition ntfs_compress_block :: "bool \<Rightarrow> buf \<Rightarrow> buf \<Rightarrow> (nat \<times> buf) option" where
  "ntfs_compress_block alloc inbuf outbuf = (if \<not> alloc then Some (nat ((- ENOMEM) mod 4294967296), outbuf) else do {
     cs \<leftarrow> compress_loop inbuf (compress_start outbuf);
     (xout, out) \<leftarrow> (if cs_ntag cs = 8 then Some (cs_xout cs - 1, cs_out cs)
                     else do { out \<leftarrow> put8 (cs_out cs) (cs_ptag cs) (cs_tag cs mod 256); Some (cs_xout cs, out) });
     if cs_i cs \<ge> length inbuf \<and> xout < NTFS_SB_SIZE + 2 then do {
       out \<leftarrow> put8 out 0 (sub32 xout 3 AND 255);
       out \<leftarrow> put8 out 1 (0xb0 + (sub32 xout 3 div 256 AND 15));
       Some (xout, out) }
     else do {
       out \<leftarrow> blit out 2 inbuf;
       out \<leftarrow> (if length inbuf < NTFS_SB_SIZE then memset0 out (length inbuf + 2) (NTFS_SB_SIZE - length inbuf) else Some out);
       out \<leftarrow> put8 out 0 0xff;
       out \<leftarrow> put8 out 1 0x3f;
       Some (NTFS_SB_SIZE + 2, out) } })"

section \<open>The matches found are matches\<close>

definition links_ok :: "nat \<Rightarrow> compress_context \<Rightarrow> bool" where
  "links_ok i cx \<longleftrightarrow> length (cx_head cx) = 2 ^ HASH_SHIFT \<and> length (cx_prev cx) = NTFS_SB_SIZE \<and>
     (\<forall>h < 2 ^ HASH_SHIFT. - 1 \<le> cx_head cx ! h \<and> cx_head cx ! h < int i) \<and>
     (\<forall>p < NTFS_SB_SIZE. - 1 \<le> cx_prev cx ! p \<and> cx_prev cx ! p \<le> int p)"

definition same_upto :: "buf \<Rightarrow> nat \<Rightarrow> nat \<Rightarrow> nat \<Rightarrow> bool" where
  "same_upto inbuf m s l \<longleftrightarrow> (\<forall>u < l. inbuf ! (m + u) = inbuf ! (s + u))"

definition match_at :: "buf \<Rightarrow> nat \<Rightarrow> nat \<Rightarrow> nat \<Rightarrow> bool" where
  "match_at inbuf b i l \<longleftrightarrow> b < i \<and> i + l \<le> length inbuf \<and> same_upto inbuf b i l"

lemma eq_at_value: "m < s \<Longrightarrow> s + t < length inbuf \<Longrightarrow> eq_at inbuf m s t = Some (inbuf ! (m + t) = inbuf ! (s + t))"
  by (simp add: eq_at_def get8_nth word_unat_eq_iff)

lemma all_eq_value:
  "m < s \<Longrightarrow> s + t + n \<le> length inbuf \<Longrightarrow> all_eq inbuf m s t n = Some (\<forall>u. t \<le> u \<and> u < t + n \<longrightarrow> inbuf ! (m + u) = inbuf ! (s + u))"
proof (induction n arbitrary: t)
  case (Suc n)
  have "(\<forall>u. t \<le> u \<and> u < t + Suc n \<longrightarrow> inbuf ! (m + u) = inbuf ! (s + u)) \<longleftrightarrow>
    inbuf ! (m + t) = inbuf ! (s + t) \<and> (\<forall>u. t + 1 \<le> u \<and> u < t + 1 + n \<longrightarrow> inbuf ! (m + u) = inbuf ! (s + u))"
    by (metis Suc_eq_plus1 Suc_leI add_Suc_right add_Suc le_less less_add_Suc1 less_imp_le Suc_le_lessD)
  with Suc show ?case by (simp add: eq_at_value)
qed auto

lemma longer_match_value:
  assumes "m < s" "s + best_len < length inbuf" "2 \<le> best_len"
  shows "longer_match inbuf m s best_len = Some (same_upto inbuf m s (best_len + 1))"
proof -
  let ?e = "\<lambda>u. inbuf ! (m + u) = inbuf ! (s + u)"
  have a: "all_eq inbuf m s 1 (best_len - 2) = Some (\<forall>u. 1 \<le> u \<and> u < best_len - 1 \<longrightarrow> ?e u)"
    using assms by (subst all_eq_value) auto
  have "u = 0 \<or> 1 \<le> u \<and> u < best_len - 1 \<or> u = best_len - 1 \<or> u = best_len" if "u < best_len + 1" for u
    using that by linarith
  moreover have "0 < best_len + 1" "best_len - 1 < best_len + 1" "best_len < best_len + 1" "\<And>u. u < best_len - 1 \<Longrightarrow> u < best_len + 1" by auto
  ultimately have "same_upto inbuf m s (best_len + 1) \<longleftrightarrow> ?e best_len \<and> ?e (best_len - 1) \<and> ?e 0 \<and> (\<forall>u. 1 \<le> u \<and> u < best_len - 1 \<longrightarrow> ?e u)"
    unfolding same_upto_def by metis
  moreover have "eq_at inbuf m s u = Some (?e u)" if "u \<le> best_len" for u using assms that by (simp add: eq_at_value)
  ultimately show ?thesis using assms by (simp add: longer_match_def a [simplified])
qed

lemma same_upto_Suc: "same_upto inbuf m s (Suc l) \<longleftrightarrow> same_upto inbuf m s l \<and> inbuf ! (m + l) = inbuf ! (s + l)"
  by (auto simp: same_upto_def less_Suc_eq)

lemma extend_max_same:
  assumes "m < s" "s + max_len \<le> length inbuf" "l \<le> max_len" "same_upto inbuf m s l"
  obtains l' where "extend_max inbuf m s max_len l = Some l'" "l \<le> l'" "l' \<le> max_len" "same_upto inbuf m s l'"
  using assms
proof (induction inbuf m s max_len l arbitrary: thesis rule: extend_max.induct)
  case (1 inbuf m s max_len l)
  show ?case
  proof (cases "l < max_len \<and> inbuf ! (m + l) = inbuf ! (s + l)")
    case True
    then have e: "eq_at inbuf m s l = Some True" using 1(3,4) by (simp add: eq_at_value)
    from True 1(6) have "same_upto inbuf m s (l + 1)" by (simp add: same_upto_Suc)
    with True 1(3,4) obtain l' where "extend_max inbuf m s max_len (l + 1) = Some l'" "l + 1 \<le> l'" "l' \<le> max_len" "same_upto inbuf m s l'"
      using 1(1) [of True] e by auto
    with True e show ?thesis by (intro 1(2) [of l']) (simp_all add: extend_max.simps [of inbuf m s max_len l])
  next
    case False
    then have "extend_max inbuf m s max_len l = Some l" using 1(3,4) by (subst extend_max.simps) (auto simp: eq_at_value)
    with 1 show ?thesis by auto
  qed
qed

lemma extend_match_same:
  assumes "m < s" "s + max_len \<le> length inbuf" "l < nice_len" "nice_len \<le> max_len" "same_upto inbuf m s (l + 1)"
  obtains nice l' where "extend_match inbuf m s max_len nice_len l = Some (nice, l')" "l < l'" "l' \<le> max_len" "\<not> nice \<Longrightarrow> l' < nice_len"
    "same_upto inbuf m s l'"
  using assms
proof (induction inbuf m s max_len nice_len l arbitrary: thesis rule: extend_match.induct)
  case (1 inbuf m s max_len nice_len l)
  show ?case
  proof (cases "l + 1 \<ge> nice_len")
    case True
    with 1(5,6) have "l + 1 \<le> max_len" by simp
    then obtain l' where "extend_max inbuf m s max_len (l + 1) = Some l'" "l + 1 \<le> l'" "l' \<le> max_len" "same_upto inbuf m s l'"
      using extend_max_same [of m s max_len inbuf "l + 1"] 1(3,4,7) by blast
    with True show ?thesis by (intro 1(2) [of True l']) (simp_all add: extend_match.simps [of inbuf m s max_len nice_len l])
  next
    case False
    then have e: "eq_at inbuf m s (l + 1) = Some (inbuf ! (m + (l + 1)) = inbuf ! (s + (l + 1)))" using 1(3,4,6) by (intro eq_at_value) auto
    show ?thesis
    proof (cases "inbuf ! (m + (l + 1)) = inbuf ! (s + (l + 1))")
      case True
      then have "same_upto inbuf m s (l + 1 + 1)" using 1(7) by (simp add: same_upto_Suc)
      moreover have "l + 1 < nice_len" using False by simp
      ultimately obtain nice l' where "extend_match inbuf m s max_len nice_len (l + 1) = Some (nice, l')" "l + 1 < l'" "l' \<le> max_len"
          "\<not> nice \<Longrightarrow> l' < nice_len" "same_upto inbuf m s l'"
        using 1(1) [OF False e True] 1(3,4,6) by blast
      with False e True show ?thesis by (intro 1(2) [of nice l']) (simp_all add: extend_match.simps [of inbuf m s max_len nice_len l])
    next
      case differ: False
      with False e have "extend_match inbuf m s max_len nice_len l = Some (False, l + 1)"
        by (subst extend_match.simps) simp
      with False 1(6,7) show ?thesis by (intro 1(2) [of False "l + 1"]) auto
    qed
  qed
qed

lemma match_chain_finds:
  assumes "cur < int i" "- 1 \<le> cur" "length prev = NTFS_SB_SIZE" "i \<le> NTFS_SB_SIZE" "\<forall>p < NTFS_SB_SIZE. - 1 \<le> prev ! p \<and> prev ! p \<le> int p"
    "2 \<le> l" "l < nice_len" "nice_len \<le> max_len" "i + max_len \<le> length inbuf"
  obtains l' b' where "match_chain depth inbuf prev i max_len nice_len cur l b = Some (l', b')"
    "l' = l \<and> b' = b \<or> l < l' \<and> l' \<le> max_len \<and> match_at inbuf b' i l'"
  using assms
proof (induction depth arbitrary: cur l b thesis)
  case (Suc depth)
  show ?case
  proof (cases "cur < 0")
    case False
    define m where "m = nat cur"
    have m: "cur = int m" "m < i" using False Suc.prems(2) by (auto simp: m_def)
    have lm: "longer_match inbuf m i l = Some (same_upto inbuf m i (l + 1))" using Suc.prems m by (intro longer_match_value) auto
    have nx: "arr_get prev cur = Some (prev ! m)" "prev ! m < int i" "- 1 \<le> prev ! m"
      using m Suc.prems(4-6) by (auto simp: arr_get_def dest!: spec [of _ m])
    show ?thesis
    proof (cases "same_upto inbuf m i (l + 1)")
      case True
      obtain nice l1 where e: "extend_match inbuf m i max_len nice_len l = Some (nice, l1)" "l < l1" "l1 \<le> max_len" "\<not> nice \<Longrightarrow> l1 < nice_len"
          "same_upto inbuf m i l1"
        using extend_match_same [of m i max_len inbuf l nice_len] m(2) Suc.prems True by auto
      have at: "match_at inbuf m i l1" using m(2) e Suc.prems(10) by (simp add: match_at_def)
      show ?thesis
      proof (cases nice)
        case True
        with \<open>same_upto inbuf m i (l + 1)\<close> e at m lm show ?thesis by (intro Suc.prems(1) [of l1 m]) simp_all
      next
        case False
        obtain l' b' where "match_chain depth inbuf prev i max_len nice_len (prev ! m) l1 m = Some (l', b')"
            "l' = l1 \<and> b' = m \<or> l1 < l' \<and> l' \<le> max_len \<and> match_at inbuf b' i l'"
          by (rule Suc.IH [where cur = "prev ! m" and l = l1 and b = m]) (use nx e False Suc.prems in auto)
        with True False e at m lm nx show ?thesis by (intro Suc.prems(1) [of l' b']) auto
      qed
    next
      case False
      obtain l' b' where "match_chain depth inbuf prev i max_len nice_len (prev ! m) l b = Some (l', b')"
          "l' = l \<and> b' = b \<or> l < l' \<and> l' \<le> max_len \<and> match_at inbuf b' i l'"
        by (rule Suc.IH [where cur = "prev ! m" and l = l and b = b]) (use nx Suc.prems in auto)
      with False m lm nx show ?thesis by (intro Suc.prems(1) [of l' b']) auto
    qed
  qed (use Suc.prems in auto)
qed simp

lemma ntfs_hash_value: "p + 4 \<le> length inbuf \<Longrightarrow> \<exists>h. ntfs_hash inbuf p = Some h \<and> h < 2 ^ HASH_SHIFT"
proof -
  assume "p + 4 \<le> length inbuf"
  then obtain v where "get_le 4 inbuf p = Some v" using get_le_ok by blast
  moreover have "u32 x div 2 ^ (32 - HASH_SHIFT) < 2 ^ HASH_SHIFT" for x
    using u32_less [of x] by (simp add: div_less_iff_less_mult)
  ultimately show ?thesis by (simp add: ntfs_hash_def Let_def)
qed

text \<open>A position enters its chain.\<close>

lemma insert_position:
  assumes "links_ok i cx" "i < NTFS_SB_SIZE" "h < 2 ^ HASH_SHIFT"
  obtains cur prev head where "arr_get (cx_head cx) (int h) = Some cur" "arr_set (cx_prev cx) i cur = Some prev"
    "arr_set (cx_head cx) h (int i) = Some head" "- 1 \<le> cur" "cur < int i" "links_ok (i + 1) (cx\<lparr>cx_head := head, cx_prev := prev\<rparr>)"
proof -
  let ?c = "cx_head cx ! h"
  have c: "- 1 \<le> ?c" "?c < int i" using assms(1,3) by (auto simp: links_ok_def)
  have "- 1 \<le> (cx_head cx)[h := int i] ! g \<and> (cx_head cx)[h := int i] ! g < int (i + 1)" if "g < 2 ^ HASH_SHIFT" for g
    using assms(1,3) that by (cases "g = h") (auto simp: links_ok_def intro: less_trans)
  moreover have "- 1 \<le> (cx_prev cx)[i := ?c] ! p \<and> (cx_prev cx)[i := ?c] ! p \<le> int p" if "p < NTFS_SB_SIZE" for p
    using assms(1,2) c that by (cases "p = i") (auto simp: links_ok_def)
  ultimately have "links_ok (i + 1) (cx\<lparr>cx_head := (cx_head cx)[h := int i], cx_prev := (cx_prev cx)[i := ?c]\<rparr>)"
    using assms(1) by (simp add: links_ok_def)
  with c assms show ?thesis by (intro that) (auto simp: arr_get_def arr_set_def links_ok_def)
qed

lemma links_ok_mono: "links_ok i cx \<Longrightarrow> i \<le> j \<Longrightarrow> links_ok j cx"
  by (fastforce simp: links_ok_def)

lemma links_ok_frame [simp]:
  "links_ok i (cx\<lparr>cx_size := s\<rparr>) = links_ok i cx" "links_ok i (cx\<lparr>cx_rel := r\<rparr>) = links_ok i cx" "links_ok i (cx\<lparr>cx_mxsz := m\<rparr>) = links_ok i cx"
  by (simp_all add: links_ok_def)

definition found :: "buf \<Rightarrow> compress_context \<Rightarrow> nat \<Rightarrow> bool" where
  "found inbuf cx i \<longleftrightarrow> cx_size cx \<le> cx_mxsz cx \<and> (\<exists>b. match_at inbuf b i (cx_size cx) \<and> cx_rel cx = int b - int i)"

lemma best_match_ok:
  assumes "links_ok i cx" "i < length inbuf" "length inbuf \<le> NTFS_SB_SIZE" "2 \<le> l" "l < NICE_MATCH_LEN"
  obtains cx' where "ntfs_best_match inbuf cx i l = Some cx'" "links_ok (i + 1) cx'" "cx_mxsz cx' = cx_mxsz cx"
    "cx_size cx' = l \<or> l < cx_size cx' \<and> found inbuf cx' i"
proof -
  let ?x = "min (length inbuf - i) (cx_mxsz cx)"
  consider "?x < 4" | "4 \<le> ?x" by linarith
  then show ?thesis
  proof cases
    case 1
    then show ?thesis using that [of "cx\<lparr>cx_size := l, cx_rel := 0\<rparr>"] assms links_ok_mono by (auto simp: ntfs_best_match_def Let_def)
  next
    case 2
    then have "i + 4 \<le> length inbuf" by auto
    then obtain h where h: "ntfs_hash inbuf i = Some h" "h < 2 ^ HASH_SHIFT" using ntfs_hash_value by blast
    have i: "i < NTFS_SB_SIZE" using assms(2,3) by simp
    obtain cur prev head where p: "arr_get (cx_head cx) (int h) = Some cur" "arr_set (cx_prev cx) i cur = Some prev"
      "arr_set (cx_head cx) h (int i) = Some head" "- 1 \<le> cur" "cur < int i" "links_ok (i + 1) (cx\<lparr>cx_head := head, cx_prev := prev\<rparr>)"
      using insert_position [OF assms(1) i h(2)] by metis
    show ?thesis
    proof (cases "?x \<le> l")
      case True
      then show ?thesis
        using that [of "cx\<lparr>cx_head := head, cx_prev := prev, cx_size := l, cx_rel := 0\<rparr>"] p h 2 by (simp add: ntfs_best_match_def Let_def not_less)
    next
      case False
      obtain l' b' where m: "match_chain MAX_SEARCH_DEPTH inbuf prev i ?x (min NICE_MATCH_LEN ?x) cur l i = Some (l', b')"
        "l' = l \<and> b' = i \<or> l < l' \<and> l' \<le> ?x \<and> match_at inbuf b' i l'"
      proof (rule match_chain_finds [of cur i prev l "min NICE_MATCH_LEN ?x" ?x inbuf MAX_SEARCH_DEPTH i])
        show "l < min NICE_MATCH_LEN ?x" "i + ?x \<le> length inbuf" "min NICE_MATCH_LEN ?x \<le> ?x" using assms(2,5) False by linarith+
        show "\<forall>p < NTFS_SB_SIZE. - 1 \<le> prev ! p \<and> prev ! p \<le> int p" "length prev = NTFS_SB_SIZE" using p(6) by (simp_all add: links_ok_def)
      qed (use p(4,5) i assms(4) that in auto)
      then show ?thesis
        using that [of "cx\<lparr>cx_head := head, cx_prev := prev, cx_size := l', cx_rel := int b' - int i\<rparr>"] p h 2 False
        by (auto simp: ntfs_best_match_def Let_def not_less found_def)
    qed
  qed
qed

lemma skip_position_ok:
  assumes "links_ok i cx" "i < length inbuf" "length inbuf \<le> NTFS_SB_SIZE"
  obtains cx' where "ntfs_skip_position inbuf cx i = Some cx'" "links_ok (i + 1) cx'" "cx_mxsz cx' = cx_mxsz cx"
proof (cases "length inbuf - i < 4")
  case True
  then show ?thesis using that [of cx] assms links_ok_mono by (auto simp: ntfs_skip_position_def)
next
  case False
  then have "i + 4 \<le> length inbuf" by simp
  then obtain h where h: "ntfs_hash inbuf i = Some h" "h < 2 ^ HASH_SHIFT" using ntfs_hash_value by blast
  have i: "i < NTFS_SB_SIZE" using assms(2,3) by simp
  obtain cur prev head where p: "arr_get (cx_head cx) (int h) = Some cur" "arr_set (cx_prev cx) i cur = Some prev"
    "arr_set (cx_head cx) h (int i) = Some head" "links_ok (i + 1) (cx\<lparr>cx_head := head, cx_prev := prev\<rparr>)"
    using insert_position [OF assms(1) i h(2)] by metis
  then show ?thesis using that [of "cx\<lparr>cx_head := head, cx_prev := prev\<rparr>"] h False by (simp add: ntfs_skip_position_def)
qed

lemma skip_range_ok:
  assumes "links_ok i cx" "i < j" "j \<le> length inbuf" "length inbuf \<le> NTFS_SB_SIZE"
  obtains cx' where "skip_range inbuf cx i j = Some cx'" "links_ok j cx'" "cx_mxsz cx' = cx_mxsz cx"
  using assms
proof (induction inbuf cx i j arbitrary: thesis rule: skip_range.induct)
  case (1 inbuf cx i j)
  obtain c1 where c1: "ntfs_skip_position inbuf cx i = Some c1" "links_ok (i + 1) c1" "cx_mxsz c1 = cx_mxsz cx"
    using skip_position_ok [of i cx inbuf] 1(3-6) by auto
  show ?case
  proof (cases "i + 1 = j")
    case True
    with c1 1(4) show ?thesis by (intro 1(2) [of c1]) (simp_all add: skip_range.simps [of inbuf cx i])
  next
    case False
    with 1(4) have "\<not> j \<le> i" "i + 1 < j" by auto
    then obtain c2 where "skip_range inbuf c1 (i + 1) j = Some c2" "links_ok j c2" "cx_mxsz c2 = cx_mxsz c1"
      using 1(1) [OF _ c1(1) False] c1(2) 1(5,6) by blast
    with c1 False \<open>\<not> j \<le> i\<close> show ?thesis by (intro 1(2) [of c2]) (simp_all add: skip_range.simps [of inbuf cx i])
  qed
qed

text \<open>A match repeats data that is already there.\<close>

lemma copy_back_match:
  assumes "match_at inbuf b i l"
  shows "copy_back (i - b) l (take i inbuf) = take (i + l) inbuf"
proof -
  have "copy_back (i - b) n (take i inbuf) = take (i + n) inbuf" if "n \<le> l" for n
    using that
  proof (induction n)
    case (Suc n)
    have n: "i + n < length inbuf" "b < i" "inbuf ! (b + n) = inbuf ! (i + n)" using assms Suc.prems by (auto simp: match_at_def same_upto_def)
    then have "take (i + n) inbuf ! (length (take (i + n) inbuf) - (i - b)) = inbuf ! (i + n)" by (simp add: min_def add.commute [of n b])
    with Suc n show ?case by (simp add: copy_back_snoc Let_def take_Suc_conv_app_nth del: copy_back.simps(2))
  qed simp
  then show ?thesis by simp
qed

section \<open>What has been written encodes what has been read\<close>

definition emitted :: "buf \<Rightarrow> tok list list \<Rightarrow> tok list \<Rightarrow> buf \<Rightarrow> nat \<Rightarrow> nat \<Rightarrow> nat \<Rightarrow> bool" where
  "emitted inbuf gs g out ptag xout i \<longleftrightarrow>
     (\<forall>g \<in> set gs. length g = 8) \<and> i \<le> length inbuf \<and>
     ptag = 2 + length (enc_groups 0 gs) \<and> xout = ptag + 1 + length (enc_toks (toks_len (concat gs)) g) \<and>
     slice out 2 (length (enc_groups 0 gs)) = Some (enc_groups 0 gs) \<and>
     slice out (ptag + 1) (length (enc_toks (toks_len (concat gs)) g)) = Some (enc_toks (toks_len (concat gs)) g) \<and>
     expand [] (concat gs @ g) = take i inbuf \<and> wf_toks 0 (concat gs @ g)"

lemma emitted_len: "emitted inbuf gs g out ptag xout i \<Longrightarrow> toks_len (concat gs) + toks_len g = i"
proof -
  assume "emitted inbuf gs g out ptag xout i"
  then have "length (expand [] (concat gs @ g)) = length (take i inbuf)" "i \<le> length inbuf" by (simp_all add: emitted_def)
  then show ?thesis unfolding length_expand by simp
qed

lemma slice_join:
  assumes "slice b c m = Some xs" "slice b (c + m) k = Some ys"
  shows "slice b c (m + k) = Some (xs @ ys)"
  using assms by (auto simp: slice_def take_add add.commute [of m c] split: if_splits)

lemma tag_of_snoc: "tag_of (g @ [Lit b]) = tag_of g" "tag_of (g @ [Phrase d l]) = tag_of g OR 2 ^ length g"
proof -
  show "tag_of (g @ [Lit b]) = tag_of g" by (induction g rule: tag_of.induct) simp_all
  have "tag_of (g @ [Phrase d l]) = tag_of g + 2 ^ length g" by (induction g rule: tag_of.induct) simp_all
  also have "\<dots> = tag_of g OR 2 ^ length g"
  proof (rule disjunctive_add_eq_or, rule bit_eqI)
    fix n
    have "take_bit (length g) (tag_of g) = tag_of g" using tag_of_less by (simp add: take_bit_nat_eq_self)
    then have "\<not> bit (tag_of g) (length g)" by (metis bit_take_bit_iff less_irrefl)
    then show "bit (tag_of g AND 2 ^ length g) n = bit 0 n" by (auto simp: bit_simps)
  qed
  finally show "tag_of (g @ [Phrase d l]) = tag_of g OR 2 ^ length g" .
qed

lemma emitted_tok:
  assumes "emitted inbuf gs g out ptag xout i" "blit out xout (enc_tok i t) = Some out'" "wf_tok i t"
    "expand1 t (take i inbuf) = take (i + tok_len t) inbuf" "i + tok_len t \<le> length inbuf"
  shows "emitted inbuf gs (g @ [t]) out' ptag (xout + length (enc_tok i t)) (i + tok_len t)"
proof -
  let ?p = "toks_len (concat gs)"
  note len = emitted_len [OF assms(1)]
  have e: "enc_toks ?p (g @ [t]) = enc_toks ?p g @ enc_tok i t" using len by simp
  have "slice out' (ptag + 1) (length (enc_toks ?p g)) = Some (enc_toks ?p g)" "slice out' 2 (length (enc_groups 0 gs)) = Some (enc_groups 0 gs)"
    using assms(1) slice_blit_other [OF assms(2)] by (auto simp: emitted_def)
  moreover have "slice out' (ptag + 1 + length (enc_toks ?p g)) (length (enc_tok i t)) = Some (enc_tok i t)"
    using slice_blit_same [OF assms(2) refl] assms(1) by (simp add: emitted_def)
  moreover have "expand [] (concat gs @ g @ [t]) = take (i + tok_len t) inbuf" "wf_toks 0 (concat gs @ g @ [t])"
    using assms len by (auto simp: emitted_def)
  ultimately show ?thesis using assms(1,5) slice_join [of out' "ptag + 1" "length (enc_toks ?p g)" _ "length (enc_tok i t)"] unfolding emitted_def e by simp
qed

lemma enc_groups_snoc: "enc_groups p (gs @ [g]) = enc_groups p gs @ word_of_nat (tag_of g) # enc_toks (p + toks_len (concat gs)) g"
  by (induction gs arbitrary: p) (simp_all add: add.assoc)

lemma emitted_tag:
  assumes "emitted inbuf gs g out ptag xout i" "put8 out ptag (tag_of g mod 256) = Some out'"
  shows "slice out' 2 (length (enc_groups 0 (gs @ [g]))) = Some (enc_groups 0 (gs @ [g]))" "xout = 2 + length (enc_groups 0 (gs @ [g]))"
proof -
  let ?e = "enc_toks (toks_len (concat gs)) g" and ?w = "word_of_nat (tag_of g) :: byte"
  have "(word_of_nat (tag_of g mod 256) :: byte) = ?w" by (rule word_unat_eq_iff [THEN iffD2]) (simp add: unat_of_nat)
  then have b: "blit out ptag [?w] = Some out'" using assms(2) by (simp add: put8_def put_le_def)
  have sl: "slice out' 2 (length (enc_groups 0 gs)) = Some (enc_groups 0 gs)" "slice out' (ptag + 1) (length ?e) = Some ?e"
    using assms(1) slice_blit_other [OF b] by (auto simp: emitted_def)
  have "slice out' ptag 1 = Some [?w]" using slice_blit_same [OF b refl] by simp
  from slice_join [OF this sl(2)] have "slice out' ptag (1 + length ?e) = Some (?w # ?e)" by simp
  with slice_join [OF sl(1), of "1 + length ?e" "?w # ?e"] assms(1)
  show "slice out' 2 (length (enc_groups 0 (gs @ [g]))) = Some (enc_groups 0 (gs @ [g]))" by (simp add: emitted_def enc_groups_snoc)
  show "xout = 2 + length (enc_groups 0 (gs @ [g]))" using assms(1) by (simp add: emitted_def enc_groups_snoc)
qed

lemma emitted_next:
  assumes "emitted inbuf gs g out ptag xout i" "put8 out ptag (tag_of g mod 256) = Some out'" "length g = 8" "xout < length out"
  shows "emitted inbuf (gs @ [g]) [] out' xout (xout + 1) i"
  using assms emitted_tag [OF assms(1,2)] length_put_le [of 1 out ptag "tag_of g mod 256" out']
  by (auto simp: emitted_def put8_def slice_def)

definition out_inv :: "buf \<Rightarrow> nat \<Rightarrow> compress_state \<Rightarrow> bool" where
  "out_inv inbuf k cs \<longleftrightarrow> (\<exists>gs g. length g + cs_ntag cs = k \<and> cs_tag cs = tag_of g \<and>
     emitted inbuf gs g (cs_out cs) (cs_ptag cs) (cs_xout cs) (cs_i cs))"

lemma out_inv_cong:
  "cs_ntag cs' = cs_ntag cs \<Longrightarrow> cs_tag cs' = cs_tag cs \<Longrightarrow> cs_out cs' = cs_out cs \<Longrightarrow> cs_ptag cs' = cs_ptag cs \<Longrightarrow>
   cs_xout cs' = cs_xout cs \<Longrightarrow> cs_i cs' = cs_i cs \<Longrightarrow> out_inv inbuf k cs' = out_inv inbuf k cs"
  by (simp add: out_inv_def)

lemma word_mod_256 [simp]: "(word_of_nat (q mod 256) :: byte) = word_of_nat q"
  by (rule word_unat_eq_iff [THEN iffD2]) (simp add: unat_of_nat)

lemma blit_one: "p < length b \<Longrightarrow> blit b p [x] = Some (b[p := x])"
  by (simp add: blit_def upd_conv_take_nth_drop)

lemma blit_two:
  assumes "p + 1 < length b"
  shows "blit b p [x, y] = Some (b[p := x, p + 1 := y])"
proof -
  have b: "b = take p b @ b ! p # b ! Suc p # drop (Suc (Suc p)) b"
    using assms by (metis Cons_nth_drop_Suc Suc_eq_plus1 Suc_lessD append_take_drop_id)
  have "b[p := x, p + 1 := y] = take p b @ x # y # drop (Suc (Suc p)) b"
    using assms by (subst b) (simp add: list_update_append min_def)
  with assms show ?thesis by (simp add: blit_def)
qed

lemma put_literal_ok:
  assumes "out_inv inbuf 8 cs" "cs_i cs < length inbuf" "cs_xout cs < length (cs_out cs)"
  obtains out where "put_literal inbuf cs = Some (cs\<lparr>cs_out := out, cs_xout := cs_xout cs + 1, cs_i := cs_i cs + 1\<rparr>)"
    "length out = length (cs_out cs)" "out_inv inbuf 9 (cs\<lparr>cs_out := out, cs_xout := cs_xout cs + 1, cs_i := cs_i cs + 1\<rparr>)"
proof -
  obtain gs g where e: "length g + cs_ntag cs = 8" "cs_tag cs = tag_of g" "emitted inbuf gs g (cs_out cs) (cs_ptag cs) (cs_xout cs) (cs_i cs)"
    using assms(1) by (auto simp: out_inv_def)
  let ?x = "inbuf ! cs_i cs" and ?out = "(cs_out cs)[cs_xout cs := inbuf ! cs_i cs]"
  have "blit (cs_out cs) (cs_xout cs) (enc_tok (cs_i cs) (Lit ?x)) = Some ?out" using assms(3) by (simp add: blit_one)
  from emitted_tok [OF e(3) this] assms(2)
  have "emitted inbuf gs (g @ [Lit ?x]) ?out (cs_ptag cs) (cs_xout cs + 1) (cs_i cs + 1)" by (simp add: take_Suc_conv_app_nth)
  then have "out_inv inbuf 9 (cs\<lparr>cs_out := ?out, cs_xout := cs_xout cs + 1, cs_i := cs_i cs + 1\<rparr>)"
    unfolding out_inv_def using e(1,2) by (intro exI [of _ gs] exI [of _ "g @ [Lit ?x]"]) (simp add: tag_of_snoc)
  with assms show ?thesis by (intro that [of ?out]) (simp_all add: put_literal_def get8_nth put8_nth)
qed

lemma put_match_ok:
  assumes "out_inv inbuf 8 cs" "match_at inbuf b (cs_i cs) l" "3 \<le> l" "l \<le> 2 ^ (16 - bp_at (cs_i cs)) + 2" "offs = int b - int (cs_i cs)"
    "cs_xout cs + 1 < length (cs_out cs)" "length inbuf \<le> 4096"
  obtains out tag where "put_match cs offs (bp_at (cs_i cs)) l = Some (cs\<lparr>cs_out := out, cs_xout := cs_xout cs + 2, cs_tag := tag\<rparr>)"
    "length out = length (cs_out cs)" "out_inv inbuf 9 (cs\<lparr>cs_out := out, cs_xout := cs_xout cs + 2, cs_tag := tag, cs_i := cs_i cs + l\<rparr>)"
proof -
  obtain gs g where e: "length g + cs_ntag cs = 8" "cs_tag cs = tag_of g" "emitted inbuf gs g (cs_out cs) (cs_ptag cs) (cs_xout cs) (cs_i cs)"
    using assms(1) by (auto simp: out_inv_def)
  let ?i = "cs_i cs" and ?t = "Phrase (cs_i cs - b) l"
  define k where "k = 16 - bp_at ?i"
  define pt where "pt = (?i - b - 1) * 2 ^ k + (l - 3)"
  let ?out = "(cs_out cs)[cs_xout cs := word_of_nat pt, cs_xout cs + 1 := word_of_nat (pt div 256)]"
  have m: "b < ?i" "?i + l \<le> length inbuf" using assms(2) by (auto simp: match_at_def)
  then have w: "wf_tok ?i ?t" using assms(3,4) by simp
  have pt: "pt < 65536" by (rule phrase_bits(1) [OF w]) (use m assms(7) in \<open>simp_all add: pt_def k_def\<close>)
  obtain d r where dr: "?i = b + 1 + d" "l = 3 + r" using m(1) assms(3) by (metis Suc_eq_plus1 Suc_leI le_Suc_ex)
  have "(- offs - 1) * 2 ^ k + (int l - 3) = int pt"
    unfolding pt_def assms(5) dr by simp
  then have q: "nat (((- offs - 1) * 2 ^ k + (int l - 3)) mod 4294967296) = pt" using pt by (simp add: nat_mod_distrib)
  have "enc_tok ?i ?t = [word_of_nat pt, word_of_nat (pt div 256)]" by (simp add: pt_def k_def numeral_2_eq_2)
  moreover from this have "blit (cs_out cs) (cs_xout cs) (enc_tok ?i ?t) = Some ?out" using assms(6) by (simp only: blit_two)
  ultimately have "emitted inbuf gs (g @ [?t]) ?out (cs_ptag cs) (cs_xout cs + 2) (?i + l)"
    using emitted_tok [OF e(3) _ w] m copy_back_match [OF assms(2)] by simp
  then have "out_inv inbuf 9 (cs\<lparr>cs_out := ?out, cs_xout := cs_xout cs + 2, cs_tag := tag_of (g @ [?t]), cs_i := ?i + l\<rparr>)"
    unfolding out_inv_def using e(1) by (intro exI [of _ gs] exI [of _ "g @ [?t]"]) simp
  moreover have "8 - cs_ntag cs = length g" using e(1) by simp
  then have "put_match cs offs (bp_at ?i) l = Some (cs\<lparr>cs_out := ?out, cs_xout := cs_xout cs + 2, cs_tag := tag_of (g @ [?t])\<rparr>)"
    using assms(6) q unfolding put_match_def by (simp add: k_def put8_update tag_of_snoc e(2))
  ultimately show ?thesis by (intro that [where out = ?out and tag = "tag_of (g @ [?t])"]) simp_all
qed

lemma tag_done_ok:
  assumes "out_inv inbuf 9 cs" "1 \<le> cs_ntag cs" "cs_xout cs < length (cs_out cs)"
  obtains cs' where "tag_done cs = Some cs'" "out_inv inbuf 8 cs'" "1 \<le> cs_ntag cs'" "cs_xout cs' \<le> cs_xout cs + 1"
    "length (cs_out cs') = length (cs_out cs)" "cs_i cs' = cs_i cs" "cs_bp cs' = cs_bp cs" "cs_cx cs' = cs_cx cs" "cs_have_match cs' = cs_have_match cs"
proof -
  obtain gs g where e: "length g + cs_ntag cs = 9" "cs_tag cs = tag_of g" "emitted inbuf gs g (cs_out cs) (cs_ptag cs) (cs_xout cs) (cs_i cs)"
    using assms(1) by (auto simp: out_inv_def)
  show ?thesis
  proof (cases "cs_ntag cs = 1")
    case True
    let ?out = "(cs_out cs)[cs_ptag cs := word_of_nat (tag_of g)]"
    have p: "cs_ptag cs < length (cs_out cs)" using e(3) assms(3) by (simp add: emitted_def)
    then have t: "put8 (cs_out cs) (cs_ptag cs) (tag_of g mod 256) = Some ?out" by (simp add: put8_update)
    have "emitted inbuf (gs @ [g]) [] ?out (cs_xout cs) (cs_xout cs + 1) (cs_i cs)"
      by (rule emitted_next [OF e(3) t]) (use e(1) True assms(3) in auto)
    then have "out_inv inbuf 8 (cs\<lparr>cs_out := ?out, cs_ntag := 8, cs_ptag := cs_xout cs, cs_xout := cs_xout cs + 1, cs_tag := 0\<rparr>)"
      unfolding out_inv_def by (intro exI [of _ "gs @ [g]"] exI [of _ "[]"]) simp
    with True t e(2) show ?thesis
      by (intro that [of "cs\<lparr>cs_out := ?out, cs_ntag := 8, cs_ptag := cs_xout cs, cs_xout := cs_xout cs + 1, cs_tag := 0\<rparr>"])
        (simp_all add: tag_done_def)
  next
    case False
    with e assms(2) have "out_inv inbuf 8 (cs\<lparr>cs_ntag := cs_ntag cs - 1\<rparr>)"
      unfolding out_inv_def by (intro exI [of _ gs] exI [of _ g]) simp
    with False assms(2) show ?thesis by (intro that [of "cs\<lparr>cs_ntag := cs_ntag cs - 1\<rparr>"]) (auto simp: tag_done_def)
  qed
qed

subsection \<open>The bits of an offset\<close>

definition bp_ok :: "nat \<Rightarrow> nat \<Rightarrow> nat \<Rightarrow> bool" where
  "bp_ok i bp mxsz \<longleftrightarrow> 4 \<le> bp \<and> (bp = 4 \<or> 2 ^ (bp - 1) < i) \<and> mxsz = 2 ^ (16 - bp) + 2"

lemma bp_at_ok: "bp_ok i (bp_at i) (2 ^ (16 - bp_at i) + 2)"
proof -
  have "lg_loop (i - 1) 0 = 0 \<or> (2 :: nat) ^ (3 + lg_loop (i - 1) 0) \<le> i - 1" using lg_loop_bounds [of "i - 1"] by blast
  moreover have "0 < (2 :: nat) ^ (3 + lg_loop (i - 1) 0)" by simp
  ultimately have "lg_loop (i - 1) 0 = 0 \<or> (2 :: nat) ^ (3 + lg_loop (i - 1) 0) < i" by linarith
  then show ?thesis by (auto simp: bp_ok_def bp_at_def)
qed

lemma bp_ok_mono: "bp_ok i bp mxsz \<Longrightarrow> i \<le> j \<Longrightarrow> bp_ok j bp mxsz"
  by (auto simp: bp_ok_def)

lemma bp_ok_grow:
  assumes "bp_ok i bp mxsz" "2 ^ bp < j" "j \<le> 4096"
  shows "bp_ok j (bp + 1) ((mxsz + 2) div 2)"
proof -
  have "bp < 12" using assms(2,3) power_increasing [of 12 bp "2 :: nat"] by (cases "bp < 12") auto
  then have "16 - bp = Suc (15 - bp)" by simp
  with assms show ?thesis by (auto simp: bp_ok_def)
qed

lemma bp_ok_done: "bp_ok i bp mxsz \<Longrightarrow> i \<le> 2 ^ bp \<Longrightarrow> bp = bp_at i \<and> mxsz = 2 ^ (16 - bp_at i) + 2"
  using bp_at_unique [of bp i] by (auto simp: bp_ok_def)

lemma adjust_bp_ok: "bp_ok i bp mxsz \<Longrightarrow> i \<le> 4096 \<Longrightarrow> adjust_bp i bp mxsz = (bp_at i, 2 ^ (16 - bp_at i) + 2)"
proof (induction i bp mxsz rule: adjust_bp.induct)
  case (1 i bp mxsz)
  then show ?case using bp_ok_grow [of i bp mxsz i] bp_ok_done [of i bp mxsz] by (subst adjust_bp.simps) auto
qed

lemma bp_at_next:
  assumes "i + 1 \<le> 4096"
  shows "bp_at (i + 1) = (if 2 ^ bp_at i < i + 1 then bp_at i + 1 else bp_at i)"
    "2 ^ (16 - bp_at (i + 1)) + 2 = (if 2 ^ bp_at i < i + 1 then (2 ^ (16 - bp_at i) + 2 + 2) div 2 else 2 ^ (16 - bp_at i) + (2 :: nat))"
proof -
  have "i + 1 \<le> 2 ^ (bp_at i + 1)" using bp_at_bounds(1) [of i] by (cases "i = 0") auto
  then have "bp_at i + 1 = bp_at (i + 1) \<and> (2 ^ (16 - bp_at i) + 2 + 2) div 2 = 2 ^ (16 - bp_at (i + 1)) + (2 :: nat)" if "2 ^ bp_at i < i + 1"
    using bp_ok_done [OF bp_ok_grow [OF bp_at_ok that assms]] by simp
  moreover have "bp_at i = bp_at (i + 1) \<and> 2 ^ (16 - bp_at i) + 2 = 2 ^ (16 - bp_at (i + 1)) + (2 :: nat)" if "\<not> 2 ^ bp_at i < i + 1"
    using bp_ok_done [OF bp_ok_mono [OF bp_at_ok [of i]], of "i + 1"] that by simp
  ultimately show "bp_at (i + 1) = (if 2 ^ bp_at i < i + 1 then bp_at i + 1 else bp_at i)"
    "2 ^ (16 - bp_at (i + 1)) + 2 = (if 2 ^ bp_at i < i + 1 then (2 ^ (16 - bp_at i) + 2 + 2) div 2 else 2 ^ (16 - bp_at i) + (2 :: nat))"
    by presburger+
qed

subsection \<open>The state between two rounds\<close>

definition ready :: "buf \<Rightarrow> compress_context \<Rightarrow> nat \<Rightarrow> nat \<Rightarrow> bool" where
  "ready inbuf cx i bp \<longleftrightarrow> bp = bp_at i \<and> cx_mxsz cx = 2 ^ (16 - bp_at i) + 2 \<and> links_ok (i + 1) cx \<and> (3 \<le> cx_size cx \<longrightarrow> found inbuf cx i)"

definition cs_inv :: "buf \<Rightarrow> nat \<Rightarrow> compress_state \<Rightarrow> bool" where
  "cs_inv inbuf n cs \<longleftrightarrow> out_inv inbuf 8 cs \<and> 1 \<le> cs_ntag cs \<and> length (cs_out cs) = n \<and> cs_xout cs \<le> 4100 \<and>
     (if cs_have_match cs then ready inbuf (cs_cx cs) (cs_i cs) (cs_bp cs)
      else bp_ok (cs_i cs) (cs_bp cs) (cx_mxsz (cs_cx cs)) \<and> links_ok (cs_i cs) (cs_cx cs))"

lemma search_here_ok:
  assumes "cs_inv inbuf n cs" "cs_i cs < length inbuf" "length inbuf \<le> 4096"
  obtains bp cx where "search_here inbuf cs = Some (cs\<lparr>cs_bp := bp, cs_cx := cx\<rparr>)" "ready inbuf cx (cs_i cs) bp"
proof (cases "cs_have_match cs")
  case True
  then show ?thesis using that [where bp = "cs_bp cs" and cx = "cs_cx cs"] assms(1) by (simp add: search_here_def cs_inv_def)
next
  case False
  let ?c = "(cs_cx cs)\<lparr>cx_mxsz := 2 ^ (16 - bp_at (cs_i cs)) + 2\<rparr>"
  have a: "adjust_bp (cs_i cs) (cs_bp cs) (cx_mxsz (cs_cx cs)) = (bp_at (cs_i cs), 2 ^ (16 - bp_at (cs_i cs)) + 2)"
    using False assms by (intro adjust_bp_ok) (auto simp: cs_inv_def)
  have "links_ok (cs_i cs) ?c" using False assms(1) by (simp add: cs_inv_def)
  then obtain cx where "ntfs_best_match inbuf ?c (cs_i cs) 2 = Some cx" "links_ok (cs_i cs + 1) cx" "cx_mxsz cx = cx_mxsz ?c"
      "cx_size cx = 2 \<or> 2 < cx_size cx \<and> found inbuf cx (cs_i cs)"
    using best_match_ok [of "cs_i cs" ?c inbuf 2] assms(2,3) by auto
  with False a show ?thesis by (intro that [where bp = "bp_at (cs_i cs)" and cx = cx]) (auto simp: search_here_def ready_def)
qed

lemma search_next_ok:
  assumes "ready inbuf (cs_cx cs) (cs_i cs) (cs_bp cs)" "3 \<le> cx_size (cs_cx cs)" "cx_size (cs_cx cs) < 18" "cs_i cs + 1 < length inbuf" "length inbuf \<le> 4096"
  obtains bp cx where "search_next inbuf cs = Some (cs\<lparr>cs_bp := bp, cs_cx := cx\<rparr>)" "bp = bp_at (cs_i cs + 1)"
    "cx_mxsz cx = 2 ^ (16 - bp_at (cs_i cs + 1)) + 2" "links_ok (cs_i cs + 2) cx"
    "cx_size cx = cx_size (cs_cx cs) \<or> cx_size (cs_cx cs) < cx_size cx \<and> found inbuf cx (cs_i cs + 1)"
proof -
  let ?i = "cs_i cs"
  define c where "c = (if 2 ^ cs_bp cs < ?i + 1 then (cs_cx cs)\<lparr>cx_mxsz := (cx_mxsz (cs_cx cs) + 2) div 2\<rparr> else cs_cx cs)"
  have l: "?i + 1 \<le> 4096" using assms(4,5) by simp
  have c: "cx_mxsz c = 2 ^ (16 - bp_at (?i + 1)) + 2" "links_ok (?i + 1) c" "cx_size c = cx_size (cs_cx cs)"
    using bp_at_next(2) [OF l] assms(1) by (auto simp: c_def ready_def split: if_splits)
  obtain cx where "ntfs_best_match inbuf c (?i + 1) (cx_size c) = Some cx" "links_ok (?i + 1 + 1) cx" "cx_mxsz cx = cx_mxsz c"
      "cx_size cx = cx_size c \<or> cx_size c < cx_size cx \<and> found inbuf cx (?i + 1)"
    using best_match_ok [OF c(2), of inbuf "cx_size c"] assms(2-5) c(3) by auto
  with c show ?thesis
    using bp_at_next(1) [OF l] assms(1) by (intro that [where bp = "bp_at (?i + 1)" and cx = cx]) (auto simp: search_next_def ready_def c_def Let_def)
qed

text \<open>The end of a round: the tag is advanced, and the state is ready for the next round.\<close>

lemma finish_round:
  assumes "out_inv inbuf 9 cs" "1 \<le> cs_ntag cs" "length (cs_out cs) = n" "cs_xout cs < 4100" "4100 \<le> n"
    "if cs_have_match cs then ready inbuf (cs_cx cs) (cs_i cs) (cs_bp cs)
     else bp_ok (cs_i cs) (cs_bp cs) (cx_mxsz (cs_cx cs)) \<and> links_ok (cs_i cs) (cs_cx cs)"
  obtains cs' where "tag_done cs = Some cs'" "cs_inv inbuf n cs'"
proof -
  have "cs_xout cs < length (cs_out cs)" using assms(3-5) by simp
  from tag_done_ok [OF assms(1,2) this] obtain cs' where "tag_done cs = Some cs'" "out_inv inbuf 8 cs'" "1 \<le> cs_ntag cs'" "cs_xout cs' \<le> cs_xout cs + 1"
    "length (cs_out cs') = length (cs_out cs)" "cs_i cs' = cs_i cs" "cs_bp cs' = cs_bp cs" "cs_cx cs' = cs_cx cs" "cs_have_match cs' = cs_have_match cs" .
  with assms(3,4,6) show ?thesis by (intro that [of cs']) (auto simp: cs_inv_def)
qed

definition step_ok :: "buf \<Rightarrow> nat \<Rightarrow> bool \<Rightarrow> compress_state \<Rightarrow> bool" where
  "step_ok inbuf n stop cs \<longleftrightarrow>
     (if stop then out_inv inbuf 8 cs \<and> cs_i cs = length inbuf \<and> length (cs_out cs) = n \<and> cs_xout cs \<le> 4100 else cs_inv inbuf n cs)"

lemma literal_round:
  assumes "out_inv inbuf 8 cs" "1 \<le> cs_ntag cs" "length (cs_out cs) = n" "4100 \<le> n" "cs_xout cs < 4098" "cs_i cs < length inbuf"
    "if hm then ready inbuf (cs_cx cs) (cs_i cs + 1) (cs_bp cs)
     else bp_ok (cs_i cs + 1) (cs_bp cs) (cx_mxsz (cs_cx cs)) \<and> links_ok (cs_i cs + 1) (cs_cx cs)"
  obtains cs' where "do { cs \<leftarrow> put_literal inbuf cs; cs \<leftarrow> tag_done (cs\<lparr>cs_have_match := hm\<rparr>); Some (False, cs) } = Some (False, cs')"
    "cs_inv inbuf n cs'"
proof -
  have "cs_xout cs < length (cs_out cs)" using assms(3-5) by simp
  from put_literal_ok [OF assms(1,6) this] obtain out where p: "put_literal inbuf cs = Some (cs\<lparr>cs_out := out, cs_xout := cs_xout cs + 1, cs_i := cs_i cs + 1\<rparr>)"
    "length out = length (cs_out cs)" "out_inv inbuf 9 (cs\<lparr>cs_out := out, cs_xout := cs_xout cs + 1, cs_i := cs_i cs + 1\<rparr>)" .
  let ?s = "cs\<lparr>cs_out := out, cs_xout := cs_xout cs + 1, cs_i := cs_i cs + 1, cs_have_match := hm\<rparr>"
  have "out_inv inbuf 9 ?s" using p(3) by (subst out_inv_cong [of ?s]) simp_all
  then obtain cs' where "tag_done ?s = Some cs'" "cs_inv inbuf n cs'"
    by (rule finish_round) (use assms p(2) in \<open>auto split: if_splits\<close>)
  with p(1) show ?thesis by (intro that [of cs']) simp_all
qed

lemma match_round:
  assumes "out_inv inbuf 8 cs" "1 \<le> cs_ntag cs" "length (cs_out cs) = n" "4100 \<le> n" "cs_xout cs < 4098" "length inbuf \<le> 4096"
    "found inbuf c0 (cs_i cs)" "3 \<le> cx_size c0" "cx_mxsz c0 = 2 ^ (16 - bp_at (cs_i cs)) + 2"
  obtains out tag where "put_match cs (cx_rel c0) (bp_at (cs_i cs)) (cx_size c0) = Some (cs\<lparr>cs_out := out, cs_xout := cs_xout cs + 2, cs_tag := tag\<rparr>)"
    "length out = n" "out_inv inbuf 9 (cs\<lparr>cs_out := out, cs_xout := cs_xout cs + 2, cs_tag := tag, cs_i := cs_i cs + cx_size c0\<rparr>)"
    "cs_i cs + cx_size c0 \<le> length inbuf"
proof -
  obtain b where b: "match_at inbuf b (cs_i cs) (cx_size c0)" "cx_rel c0 = int b - int (cs_i cs)" "cx_size c0 \<le> cx_mxsz c0"
    using assms(7) by (auto simp: found_def)
  have x: "cs_xout cs + 1 < length (cs_out cs)" using assms(3-5) by simp
  from put_match_ok [OF assms(1) b(1) assms(8) b(3)[unfolded assms(9)] b(2) x assms(6)] b(1) that assms(3) show ?thesis
    by (auto simp: match_at_def)
qed

lemma skip_round:
  assumes "out_inv inbuf 9 (cs\<lparr>cs_i := j\<rparr>)" "1 \<le> cs_ntag cs" "length (cs_out cs) = n" "4100 \<le> n" "cs_xout cs < 4100" "length inbuf \<le> 4096"
    "links_ok p (cs_cx cs)" "p < j" "j \<le> length inbuf" "bp_ok p (cs_bp cs) (cx_mxsz (cs_cx cs))"
  obtains cs' where "do { cx \<leftarrow> skip_range inbuf (cs_cx cs) p j; cs \<leftarrow> tag_done (cs\<lparr>cs_cx := cx, cs_i := j, cs_have_match := False\<rparr>); Some (False, cs) }
      = Some (False, cs')" "cs_inv inbuf n cs'"
proof -
  obtain cx where cx: "skip_range inbuf (cs_cx cs) p j = Some cx" "links_ok j cx" "cx_mxsz cx = cx_mxsz (cs_cx cs)"
    using skip_range_ok [OF assms(7-9,6)] by blast
  let ?s = "cs\<lparr>cs_cx := cx, cs_i := j, cs_have_match := False\<rparr>"
  have "out_inv inbuf 9 ?s" using assms(1) by (subst out_inv_cong [of ?s "cs\<lparr>cs_i := j\<rparr>"]) simp_all
  moreover have "bp_ok j (cs_bp cs) (cx_mxsz cx)" using bp_ok_mono [OF assms(10)] assms(8) cx(3) by simp
  ultimately obtain cs' where "tag_done ?s = Some cs'" "cs_inv inbuf n cs'" using finish_round [of inbuf ?s n] assms cx(2) by auto
  with cx(1) show ?thesis by (intro that [of cs']) simp_all
qed

lemma out_inv_dec: "out_inv inbuf 9 cs \<Longrightarrow> 1 \<le> cs_ntag cs \<Longrightarrow> out_inv inbuf 8 (cs\<lparr>cs_ntag := cs_ntag cs - 1\<rparr>)"
proof -
  assume "out_inv inbuf 9 cs" and n: "1 \<le> cs_ntag cs"
  then obtain gs g where "length g + cs_ntag cs = 9" "cs_tag cs = tag_of g" "emitted inbuf gs g (cs_out cs) (cs_ptag cs) (cs_xout cs) (cs_i cs)"
    unfolding out_inv_def by blast
  with n show ?thesis unfolding out_inv_def by (intro exI [of _ gs] exI [of _ g]) simp
qed

definition at_match :: "buf \<Rightarrow> nat \<Rightarrow> compress_state \<Rightarrow> bool" where
  "at_match inbuf n cs \<longleftrightarrow> out_inv inbuf 8 cs \<and> 1 \<le> cs_ntag cs \<and> length (cs_out cs) = n \<and> 4100 \<le> n \<and> cs_xout cs < 4098 \<and>
     length inbuf \<le> 4096 \<and> ready inbuf (cs_cx cs) (cs_i cs) (cs_bp cs)"

lemma long_match_ok:
  assumes "at_match inbuf n cs" "18 \<le> cx_size (cs_cx cs)"
  obtains stop cs' where "long_match inbuf cs = Some (stop, cs')" "step_ok inbuf n stop cs'"
proof -
  let ?i = "cs_i cs" and ?cx = "cs_cx cs" and ?j = "cs_i cs + cx_size (cs_cx cs)"
  have a: "out_inv inbuf 8 cs" "1 \<le> cs_ntag cs" "length (cs_out cs) = n" "4100 \<le> n" "cs_xout cs < 4098" "length inbuf \<le> 4096"
    and r: "cs_bp cs = bp_at ?i" "cx_mxsz ?cx = 2 ^ (16 - bp_at ?i) + 2" "links_ok (?i + 1) ?cx" "found inbuf ?cx ?i" "3 \<le> cx_size ?cx"
    using assms by (auto simp: at_match_def ready_def)
  from match_round [OF a r(4,5,2)] obtain out tag where
    p: "put_match cs (cx_rel ?cx) (bp_at ?i) (cx_size ?cx) = Some (cs\<lparr>cs_out := out, cs_xout := cs_xout cs + 2, cs_tag := tag\<rparr>)"
    "length out = n" "out_inv inbuf 9 (cs\<lparr>cs_out := out, cs_xout := cs_xout cs + 2, cs_tag := tag, cs_i := ?j\<rparr>)" "?j \<le> length inbuf"
    by metis
  let ?c = "cs\<lparr>cs_out := out, cs_xout := cs_xout cs + 2, cs_tag := tag\<rparr>"
  show ?thesis
  proof (cases "?j = length inbuf")
    case True
    have "out_inv inbuf 8 (?c\<lparr>cs_i := ?j, cs_ntag := cs_ntag cs - 1\<rparr>)" using out_inv_dec [OF p(3)] a(2) by simp
    then have "step_ok inbuf n True (?c\<lparr>cs_i := ?j, cs_ntag := cs_ntag cs - 1\<rparr>)" using p(2) a(5) True by (simp add: step_ok_def)
    with p(1) r(1) True show ?thesis by (intro that) (simp_all add: long_match_def)
  next
    case False
    have b: "bp_ok (?i + 1) (bp_at ?i) (cx_mxsz ?cx)" unfolding r(2) by (rule bp_ok_mono [OF bp_at_ok]) simp
    obtain cs' where "do { cx \<leftarrow> skip_range inbuf (cs_cx ?c) (?i + 1) ?j;
        cs \<leftarrow> tag_done (?c\<lparr>cs_cx := cx, cs_i := ?j, cs_have_match := False\<rparr>); Some (False, cs) } = Some (False, cs')" "cs_inv inbuf n cs'"
      by (rule skip_round [where cs = ?c and j = ?j and p = "?i + 1" and n = n and inbuf = inbuf]) (use p a r b in auto)
    with p(1) r(1) False show ?thesis by (intro that [of False cs']) (simp_all add: long_match_def step_ok_def)
  qed
qed

lemma lazy_match_ok:
  assumes "at_match inbuf n cs" "3 \<le> cx_size (cs_cx cs)" "cx_size (cs_cx cs) < 18"
  obtains cs' where "lazy_match inbuf cs = Some (False, cs')" "cs_inv inbuf n cs'"
proof -
  let ?i = "cs_i cs" and ?cx = "cs_cx cs" and ?j = "cs_i cs + cx_size (cs_cx cs)"
  have a: "out_inv inbuf 8 cs" "1 \<le> cs_ntag cs" "length (cs_out cs) = n" "4100 \<le> n" "cs_xout cs < 4098" "length inbuf \<le> 4096"
    and r: "cs_bp cs = bp_at ?i" "cx_mxsz ?cx = 2 ^ (16 - bp_at ?i) + 2" "found inbuf ?cx ?i" "ready inbuf ?cx ?i (cs_bp cs)"
    using assms by (auto simp: at_match_def ready_def)
  have j: "?j \<le> length inbuf" "?i + 1 < length inbuf" using r(3) assms(2) by (auto simp: found_def match_at_def)
  from search_next_ok [OF r(4) assms(2,3) j(2) a(6)] obtain cx where
    n: "search_next inbuf cs = Some (cs\<lparr>cs_bp := bp_at (?i + 1), cs_cx := cx\<rparr>)" "cx_mxsz cx = 2 ^ (16 - bp_at (?i + 1)) + 2" "links_ok (?i + 2) cx"
    "cx_size cx = cx_size ?cx \<or> cx_size ?cx < cx_size cx \<and> found inbuf cx (?i + 1)" by metis
  define c2 where "c2 = cs\<lparr>cs_bp := bp_at (?i + 1), cs_cx := cx\<rparr>"
  have g: "cs_i c2 = ?i" "cs_cx c2 = cx" "cs_bp c2 = bp_at (?i + 1)" by (simp_all add: c2_def)
  have nx: "search_next inbuf cs = Some c2" using n(1) by (simp add: c2_def)
  have o: "out_inv inbuf 8 c2" "1 \<le> cs_ntag c2" "length (cs_out c2) = n" "cs_xout c2 < 4098"
    using a out_inv_cong [of c2 cs inbuf 8] by (auto simp: c2_def)
  show ?thesis
  proof (cases "cx_size cx = cx_size ?cx")
    case True
    from match_round [OF o(1-3) a(4) o(4) a(6), of ?cx] r(2,3) assms(2) obtain out tag where
      p: "put_match c2 (cx_rel ?cx) (bp_at ?i) (cx_size ?cx) = Some (c2\<lparr>cs_out := out, cs_xout := cs_xout c2 + 2, cs_tag := tag\<rparr>)"
      "length out = n" "out_inv inbuf 9 (c2\<lparr>cs_out := out, cs_xout := cs_xout c2 + 2, cs_tag := tag, cs_i := ?j\<rparr>)"
      unfolding g(1) by metis
    let ?c = "c2\<lparr>cs_out := out, cs_xout := cs_xout c2 + 2, cs_tag := tag\<rparr>"
    have b: "bp_ok (?i + 2) (bp_at (?i + 1)) (cx_mxsz cx)" unfolding n(2) by (rule bp_ok_mono [OF bp_at_ok]) simp
    obtain cs' where "do { cx \<leftarrow> skip_range inbuf (cs_cx ?c) (?i + 2) ?j;
        cs \<leftarrow> tag_done (?c\<lparr>cs_cx := cx, cs_i := ?j, cs_have_match := False\<rparr>); Some (False, cs) } = Some (False, cs')" "cs_inv inbuf n cs'"
      by (rule skip_round [where cs = ?c and j = ?j and p = "?i + 2" and n = n and inbuf = inbuf])
        (use p o a n g b j assms(2) in auto)
    with p(1) nx r(1) True show ?thesis by (intro that [of cs']) (simp_all add: lazy_match_def g Let_def)
  next
    case False
    then have f: "ready inbuf cx (?i + 1) (bp_at (?i + 1))" "cx_size ?cx < cx_size cx" using n by (auto simp: ready_def)
    then obtain cs' where "do { cs \<leftarrow> put_literal inbuf c2; cs \<leftarrow> tag_done (cs\<lparr>cs_have_match := True\<rparr>); Some (False, cs) } = Some (False, cs')" "cs_inv inbuf n cs'"
      using literal_round [OF o(1-3) a(4) o(4), of True] j(2) g by auto
    with nx f(2) show ?thesis by (intro that [of cs']) (simp_all add: lazy_match_def g Let_def)
  qed
qed

lemma compress_step_ok:
  assumes "cs_inv inbuf n cs" "4100 \<le> n" "cs_i cs < length inbuf" "length inbuf \<le> 4096" "cs_xout cs < 4098"
  obtains stop cs' where "compress_step inbuf cs = Some (stop, cs')" "step_ok inbuf n stop cs'"
proof -
  obtain bp cx where s: "search_here inbuf cs = Some (cs\<lparr>cs_bp := bp, cs_cx := cx\<rparr>)" and r: "ready inbuf cx (cs_i cs) bp"
    using search_here_ok [OF assms(1,3,4)] by blast
  define c where "c = cs\<lparr>cs_bp := bp, cs_cx := cx\<rparr>"
  have m: "at_match inbuf n c" using assms r out_inv_cong [of c cs inbuf 8] by (simp add: at_match_def c_def cs_inv_def)
  consider "cx_size cx < 3" | "18 \<le> cx_size cx" | "3 \<le> cx_size cx" "cx_size cx < 18" by linarith
  then show ?thesis
  proof cases
    case 1
    have "bp_ok (cs_i cs + 1) bp (cx_mxsz cx)" "links_ok (cs_i cs + 1) cx" using r bp_ok_mono [OF bp_at_ok [of "cs_i cs"], of "cs_i cs + 1"] by (simp_all add: ready_def)
    then obtain cs' where "do { cs \<leftarrow> put_literal inbuf c; cs \<leftarrow> tag_done (cs\<lparr>cs_have_match := False\<rparr>); Some (False, cs) } = Some (False, cs')" "cs_inv inbuf n cs'"
      using literal_round [of inbuf c n False] m assms(2,3) by (auto simp: at_match_def c_def)
    with 1 s show ?thesis by (intro that [of False cs']) (simp_all add: compress_step_def step_ok_def c_def)
  next
    case 2
    with long_match_ok [OF m] s that show ?thesis by (auto simp: compress_step_def c_def)
  next
    case 3
    with lazy_match_ok [OF m] s that [of False] show ?thesis by (auto simp: compress_step_def c_def step_ok_def)
  qed
qed

lemma compress_loop_ok:
  assumes "cs_inv inbuf n cs" "4100 \<le> n" "length inbuf \<le> 4096"
  obtains cs' where "compress_loop inbuf cs = Some cs'" "out_inv inbuf 8 cs'" "length (cs_out cs') = n" "cs_xout cs' \<le> 4100"
  using assms
proof (induction inbuf cs arbitrary: thesis rule: compress_loop.induct)
  case (1 inbuf cs)
  show ?case
  proof (cases "cs_i cs < length inbuf \<and> cs_xout cs < 4098")
    case True
    then obtain stop c1 where s: "compress_step inbuf cs = Some (stop, c1)" "step_ok inbuf n stop c1"
      using compress_step_ok [OF 1(3,4)] 1(5) by blast
    have l: "compress_loop inbuf cs = (if stop then Some c1 else compress_loop inbuf c1)"
      using True s(1) by (subst compress_loop.simps) simp
    show ?thesis
    proof (cases stop)
      case True
      with s(2) l show ?thesis by (intro 1(2) [of c1]) (simp_all add: step_ok_def)
    next
      case False
      with s(2) have "cs_inv inbuf n c1" by (simp add: step_ok_def)
      with False 1(4,5) \<open>cs_i cs < length inbuf \<and> cs_xout cs < 4098\<close> s(1) obtain c2 where
        "compress_loop inbuf c1 = Some c2" "out_inv inbuf 8 c2" "length (cs_out c2) = n" "cs_xout c2 \<le> 4100"
        using 1(1) [of "(stop, c1)" stop c1] by auto
      with False l show ?thesis by (intro 1(2) [of c2]) simp_all
    qed
  next
    case False
    then have "compress_loop inbuf cs = Some cs" by (subst compress_loop.simps) auto
    with 1(2,3) show ?thesis by (auto simp: cs_inv_def)
  qed
qed

lemma compress_start_inv:
  assumes "4100 \<le> length outbuf"
  shows "cs_inv inbuf (length outbuf) (compress_start outbuf)"
proof -
  have "emitted inbuf [] [] outbuf 2 3 0" using assms by (simp add: emitted_def slice_def)
  then have "out_inv inbuf 8 (compress_start outbuf)"
    unfolding out_inv_def by (intro exI [of _ "[]"]) (simp add: compress_start_def)
  then show ?thesis by (simp add: cs_inv_def compress_start_def bp_ok_def links_ok_def)
qed

subsection \<open>The block\<close>

lemma full_groups_all: "(\<forall>g \<in> set gs. length g = 8) \<Longrightarrow> full_groups gs"
proof (induction gs)
  case (Cons g gs)
  then show ?case by (cases gs) auto
qed simp

lemma full_groups_last: "(\<forall>g \<in> set gs. length g = 8) \<Longrightarrow> g \<noteq> [] \<Longrightarrow> length g \<le> 8 \<Longrightarrow> full_groups (gs @ [g])"
proof (induction gs)
  case (Cons h gs)
  then show ?case by (cases gs) auto
qed simp

text \<open>The last tag: the output ends behind the last complete group.\<close>

lemma last_tag:
  assumes "out_inv inbuf 8 cs" "length (cs_out cs) = n" "cs_xout cs \<le> n"
  obtains xout out gs where
    "(if cs_ntag cs = 8 then Some (cs_xout cs - 1, cs_out cs)
      else do { out \<leftarrow> put8 (cs_out cs) (cs_ptag cs) (cs_tag cs mod 256); Some (cs_xout cs, out) }) = Some (xout, out)"
    "length out = n" "full_groups gs" "xout = 2 + length (enc_groups 0 gs)" "slice out 2 (length (enc_groups 0 gs)) = Some (enc_groups 0 gs)"
    "expand [] (concat gs) = take (cs_i cs) inbuf" "wf_toks 0 (concat gs)" "cs_i cs \<le> length inbuf"
proof -
  obtain gs g where e: "length g + cs_ntag cs = 8" "cs_tag cs = tag_of g" "emitted inbuf gs g (cs_out cs) (cs_ptag cs) (cs_xout cs) (cs_i cs)"
    using assms(1) by (auto simp: out_inv_def)
  have a: "\<forall>g \<in> set gs. length g = 8" using e(3) by (simp add: emitted_def)
  show ?thesis
  proof (cases "cs_ntag cs = 8")
    case True
    with e(1) have "g = []" by simp
    with True e(3) assms(2) full_groups_all [OF a] show ?thesis
      by (intro that [of "cs_xout cs - 1" "cs_out cs" gs]) (auto simp: emitted_def)
  next
    case False
    then have g: "g \<noteq> []" "length g \<le> 8" using e(1) by auto
    have "cs_ptag cs < length (cs_out cs)" using e(3) assms(2,3) by (simp add: emitted_def)
    then obtain out where p: "put8 (cs_out cs) (cs_ptag cs) (tag_of g mod 256) = Some out" "length out = n" using assms(2) by (simp add: put8_update)
    note t = emitted_tag [OF e(3) p(1)]
    show ?thesis
      using t e(2,3) p False full_groups_last [OF a g]
      by (intro that [of "cs_xout cs" out "gs @ [g]"]) (auto simp: emitted_def)
  qed
qed

lemma header_bytes:
  assumes "m < 4096"
  shows "[word_of_nat (m AND 255), word_of_nat (0xb0 + (m div 256 AND 15))] = le_bytes 2 (0xb000 + m)"
proof -
  have "m AND 255 = m mod 256" "m div 256 AND 15 = m div 256 mod 16"
    using nat_and_mask_low [of m 8] nat_and_mask_low [of "m div 256" 4] by simp_all
  moreover have "m div 256 < 16" using assms by simp
  moreover have "(0xb000 + m) div 256 = 0xb0 + m div 256" by simp
  moreover have "(word_of_nat (0xb000 + m) :: byte) = word_of_nat m"
  proof -
    have "(45056 :: byte) = 0" by simp
    then show ?thesis unfolding of_nat_add of_nat_numeral by simp
  qed
  ultimately show ?thesis by (simp add: numeral_2_eq_2)
qed

lemma take_header:
  assumes "slice out 2 k = Some xs" "2 \<le> length out"
  shows "take (2 + k) (out[0 := a, 1 := b]) = [a, b] @ xs"
proof -
  obtain u v w where "out = u # v # w" using assms(2) by (metis Suc_le_length_iff numeral_2_eq_2)
  with assms(1) show ?thesis by (auto simp: slice_def split: if_splits)
qed

lemma put_header: "2 \<le> length b \<Longrightarrow> put8 b 0 x = Some (b[0 := word_of_nat x])" "2 \<le> length b \<Longrightarrow> put8 b 1 x = Some (b[1 := word_of_nat x])"
  by (rule put8_update, linarith)+

lemma compress_block_ok:
  assumes "1 \<le> length inbuf" "length inbuf \<le> 4096" "4100 \<le> length outbuf"
  obtains n out where "ntfs_compress_block True inbuf outbuf = Some (n, out)" "length out = length outbuf" "n \<le> 4098"
    "sub_block (take n out) (inbuf @ replicate (4096 - length inbuf) 0)"
proof -
  let ?data = "inbuf @ replicate (4096 - length inbuf) 0"
  obtain cs where cs: "compress_loop inbuf (compress_start outbuf) = Some cs" "out_inv inbuf 8 cs" "length (cs_out cs) = length outbuf" "cs_xout cs \<le> 4100"
    using compress_loop_ok [OF compress_start_inv assms(3,2)] assms(3) by blast
  obtain xout out gs where t:
    "(if cs_ntag cs = 8 then Some (cs_xout cs - 1, cs_out cs)
      else do { out \<leftarrow> put8 (cs_out cs) (cs_ptag cs) (cs_tag cs mod 256); Some (cs_xout cs, out) }) = Some (xout, out)"
    "length out = length outbuf" "full_groups gs" "xout = 2 + length (enc_groups 0 gs)" "slice out 2 (length (enc_groups 0 gs)) = Some (enc_groups 0 gs)"
    "expand [] (concat gs) = take (cs_i cs) inbuf" "wf_toks 0 (concat gs)" "cs_i cs \<le> length inbuf"
    by (rule last_tag [OF cs(2,3)]) (use cs(4) assms(3) in auto)
  show ?thesis
  proof (cases "cs_i cs \<ge> length inbuf \<and> xout < 4098")
    case True
    then have x: "expand [] (concat gs) = inbuf" "xout < 4098" using t(6) by simp_all
    then have len: "toks_len (concat gs) = length inbuf" using length_expand [of "[]" "concat gs"] by simp
    with assms(1) have "gs \<noteq> []" by auto
    with t(3,4) length_enc_groups have ge: "4 \<le> xout" by fastforce
    let ?o = "out[0 := word_of_nat (xout - 3 AND 255), 1 := word_of_nat (0xb0 + ((xout - 3) div 256 AND 15))]"
    have tk: "take xout ?o = le_bytes 2 (0xb000 + (xout - 3)) @ enc_groups 0 gs"
      unfolding t(4) using take_header [OF t(5)] header_bytes [of "xout - 3"] x(2) t(2,4) assms(3) by simp
    moreover from arg_cong [OF this, of length] have "length (take xout ?o) = xout" using t(4) by simp
    ultimately have "packed_block (take xout ?o) gs"
      unfolding packed_block_def using x(2) \<open>gs \<noteq> []\<close> t(3,7) len assms(2) by simp
    then have "sub_block (take xout ?o) ?data" using x(1) len assms(2) by (auto simp: sub_block_def)
    moreover have "ntfs_compress_block True inbuf outbuf = Some (xout, ?o)"
      using True cs(1) t(1,2) assms(3) ge unfolding ntfs_compress_block_def by (simp add: put_header [unfolded One_nat_def])
    ultimately show ?thesis using x(2) t(2) by (intro that [of xout ?o]) simp_all
  next
    case False
    let ?p = "take 2 out @ ?data @ drop 4098 out"
    have l: "length out = length outbuf" "length ?data = 4096" using t(2) assms by simp_all
    have b: "do { out \<leftarrow> blit out 2 inbuf;
        if length inbuf < 4096 then memset0 out (length inbuf + 2) (4096 - length inbuf) else Some out } = Some ?p"
      using l assms by (cases "length inbuf < 4096") (auto simp: blit_def memset0_def min_def)
    have "slice ?p 2 4096 = Some ?data" using l assms by (simp add: slice_def min_def)
    from take_header [OF this, of "0xff" "0x3f"] l assms(3) have "take 4098 (?p[0 := 0xff, 1 := 0x3f]) = [0xff, 0x3f] @ ?data" by simp
    then have "sub_block (take 4098 (?p[0 := 0xff, 1 := 0x3f])) ?data" using l(2) by (simp only: sub_block_def simp_thms)
    moreover have "ntfs_compress_block True inbuf outbuf = Some (4098, ?p[0 := 0xff, 1 := 0x3f])"
      using False cs(1) t(1) b l assms(3) unfolding ntfs_compress_block_def
      by (auto simp: put_header [unfolded One_nat_def] bind_eq_Some_conv)
    ultimately show ?thesis using l assms(3) by (intro that [of 4098 "?p[0 := 0xff, 1 := 0x3f]"]) simp_all
  qed
qed

end
