(* ===== verification/Compress.thy ===== *)
theory Compress
  imports Lznt1_Compress Runlist
begin

text \<open>
  A compression block on its way to the disk and back (core/ntfs/compress.c): the part of
  \<open>ntfs_write_cb\<close> that compresses the pages of a block one after the other and decides whether the block
  is stored compressed, as it is, or as a hole; and \<open>ntfs_decompress\<close> on what it wrote.

  \<open>compressed_block_roundtrip\<close> shows that a decision is always reached, that only a block of zeroes becomes
  a hole, that a compressed block leaves at least one cluster free, by which the reader recognises it, and
  that reading it gives back every page.  \<open>compress_alloc_failure\<close> is what happens when the compressor
  gets no memory.
\<close>

section \<open>Encoding a block\<close>

text \<open>\<open>onezero\<close>, \<open>twozeroes\<close> and \<open>morezeroes\<close>.\<close>

definition zeroes_block :: "nat \<Rightarrow> buf \<Rightarrow> bool option" where
  "zeroes_block sz pbuf =
     (if sz = 4 then map_option (\<lambda>x. x = [0x01, 0xb0, 0x00, 0x00]) (slice pbuf 0 4)
      else if sz = 5 then map_option (\<lambda>x. x = [0x02, 0xb0, 0x00, 0x00, 0x00]) (slice pbuf 0 5)
      else if sz = 6 then map_option (\<lambda>x. x = [0x03, 0xb0, 0x02, 0x00]) (slice pbuf 0 4)
      else Some False)"

text \<open>
  The loop over the pages: \<open>fail\<close>, \<open>allzeroes\<close>, \<open>compsz\<close> and the buffer.  \<open>alloc p\<close> tells whether the
  compressor got its memory for the page at \<open>p\<close>.
\<close>

function cb_loop :: "(nat \<Rightarrow> bool) \<Rightarrow> nat \<Rightarrow> nat \<Rightarrow> buf \<Rightarrow> nat \<Rightarrow> buf \<Rightarrow> nat \<Rightarrow> bool \<Rightarrow> (bool \<times> bool \<times> nat \<times> buf) option" where
  "cb_loop alloc cluster_size block_size inbuf p outbuf compsz allzeroes =
     (if p < length inbuf then do {
        let bsz = (if p + NTFS_SB_SIZE < length inbuf then NTFS_SB_SIZE else length inbuf - p);
        d \<leftarrow> slice inbuf p bsz;
        (sz, pbuf) \<leftarrow> (if compsz \<le> length outbuf then ntfs_compress_block (alloc p) d (drop compsz outbuf) else None);
        let outbuf = take compsz outbuf @ pbuf;
        if sz = 0 \<or> u32 (compsz + sz + cluster_size + 2) > block_size then Some (True, allzeroes, compsz, outbuf)
        else do {
          allzeroes \<leftarrow> (if allzeroes then zeroes_block sz pbuf else Some False);
          cb_loop alloc cluster_size block_size inbuf (p + NTFS_SB_SIZE) outbuf (u32 (compsz + sz)) allzeroes } }
      else Some (False, allzeroes, compsz, outbuf))"
  by pat_completeness auto
termination
  by (relation "measure (\<lambda>(a, c, b, i, p, r). length i - p)") auto

declare cb_loop.simps [simp del]

datatype cb_plan = Cb_hole | Cb_raw | Cb_packed buf

definition cb_encode :: "(nat \<Rightarrow> bool) \<Rightarrow> nat \<Rightarrow> nat \<Rightarrow> buf \<Rightarrow> buf \<Rightarrow> cb_plan option" where
  "cb_encode alloc cluster_size block_size inbuf outbuf = do {
     (fail, allzeroes, compsz, outbuf) \<leftarrow> cb_loop alloc cluster_size block_size inbuf 0 outbuf 0 True;
     if \<not> fail \<and> \<not> allzeroes then do {
       outbuf \<leftarrow> put8 outbuf compsz 0;
       outbuf \<leftarrow> put8 outbuf (compsz + 1) 0;
       let compsz = compsz + 2;
       let rounded = ((compsz - 1) OR (cluster_size - 1)) + 1;
       outbuf \<leftarrow> memset0 outbuf compsz (rounded - compsz);
       d \<leftarrow> slice outbuf 0 rounded;
       Some (Cb_packed d) }
     else if allzeroes then Some Cb_hole
     else Some Cb_raw }"

text \<open>The bytes of \<open>pages_count\<close> pages.\<close>

definition cb_outbuf_size :: "nat \<Rightarrow> nat" where
  "cb_outbuf_size block_size = (block_size + 2 * (block_size div NTFS_SB_SIZE) + 2 + 4095) div 4096 * 4096"

section \<open>Sub-blocks of zeroes\<close>

lemma enc_toks_Nil: "enc_toks p ts = [] \<longleftrightarrow> ts = []"
  using enc_tok_bounds(1) by (cases ts) auto

lemma length_sub_block: "sub_block bs data \<Longrightarrow> 4 \<le> length bs \<and> length bs \<le> 4098"
  using packed_length(2) by (auto simp: sub_block_def packed_block_def)

lemma copy_back_zeroes: "1 \<le> k \<Longrightarrow> copy_back 1 l (replicate k 0) = replicate (k + l) 0"
proof (induction l arbitrary: k)
  case (Suc l)
  have "replicate k (0 :: byte) @ [0] = replicate (Suc k) 0" by (simp add: replicate_append_same)
  with Suc(1) [of "Suc k"] Suc(2) show ?case by simp
qed simp

lemma enc_groups_Nil: "full_groups gs \<Longrightarrow> length (enc_groups p gs) \<le> 1 \<Longrightarrow> gs = []"
  using length_enc_groups [of gs p] by auto

lemma first_token:
  assumes "full_groups (g # gs)" "wf_toks 0 (concat (g # gs))" "enc_groups 0 (g # gs) = tag # x # rest"
  obtains g' where "g = Lit x # g'" "rest = enc_toks 1 g' @ enc_groups (1 + toks_len g') gs" "tag_of g' = unat tag div 2" "full_groups gs"
proof -
  note f = full_groups_cases [OF assms(1)]
  obtain t g' where g: "g = t # g'" using f by (cases g) auto
  obtain b where t: "t = Lit b" using assms(2) g by (cases t) auto
  have "tag_of g = unat tag" using assms(3) f tag_byte by auto
  with assms(3) f g t that show ?thesis by auto
qed

lemma zeroes_bytes:
  assumes "zeroes_block (length bs) bs = Some True"
  shows "\<exists>x y. drop 2 bs \<in> {[0, 0], [0, 0, 0], [2, 0, x, y]}"
proof -
  consider "bs = [0x01, 0xb0, 0, 0]" | "bs = [0x02, 0xb0, 0, 0, 0]" | "length bs = 6" "take 4 bs = [0x03, 0xb0, 0x02, 0]"
    using assms by (auto simp: zeroes_block_def slice_def split: if_splits)
  then show ?thesis
  proof cases
    case 3
    have "bs = take 4 bs @ [bs ! 4, bs ! 5]" using 3(1) by (auto intro!: nth_equalityI simp: nth_append less_Suc_eq numeral_eq_Suc)
    with 3(2) have "drop 2 bs = [2, 0, bs ! 4, bs ! 5]" by (metis append_Cons append_Nil drop_Suc_Cons drop0 numeral_2_eq_2)
    then show ?thesis by blast
  qed simp_all
qed

lemma one_literal: "full_groups gs \<Longrightarrow> enc_toks 1 g @ enc_groups p gs = [0] \<Longrightarrow> tag_of g = 0 \<Longrightarrow> g = [Lit 0] \<and> gs = []"
proof -
  assume a: "full_groups gs" "enc_toks 1 g @ enc_groups p gs = [0]" "tag_of g = 0"
  from arg_cong [OF a(2), of length] have l: "length (enc_toks 1 g) + length (enc_groups p gs) = 1" by simp
  then have gs: "gs = []" using enc_groups_Nil [OF a(1), of p] by simp
  then obtain t g' where g: "g = t # g'" using a(2) by (cases g) auto
  then obtain b where "t = Lit b" using a(3) by (cases t) auto
  with g gs a(2) show ?thesis by (auto simp: enc_toks_Nil)
qed

lemma zero_groups:
  assumes "full_groups gs" "wf_toks 0 (concat gs)" "gs \<noteq> []" "\<exists>x y. enc_groups 0 gs \<in> {[0, 0], [0, 0, 0], [2, 0, x, y]}"
  shows "\<exists>k. expand [] (concat gs) = replicate k 0"
proof -
  obtain g gs' where gs: "gs = g # gs'" using assms(3) by (cases gs) auto
  obtain tag rest where r: "enc_groups 0 (g # gs') = tag # 0 # rest" "(tag, length rest) \<in> {(0, 0), (0, 1), (2, 2)}" "tag = 0 \<Longrightarrow> set rest \<subseteq> {0}"
    using assms(4) unfolding gs by (auto simp del: enc_groups.simps)
  obtain g' where g: "g = Lit 0 # g'" "rest = enc_toks 1 g' @ enc_groups (1 + toks_len g') gs'" "tag_of g' = unat tag div 2" "full_groups gs'"
    using first_token [OF assms(1,2)[unfolded gs] r(1)] by metis
  consider "rest = []" | "rest = [0]" "tag = 0" | "tag = 2" "length rest = 2" using r(2,3) by (auto simp: length_Suc_conv)
  then show ?thesis
  proof cases
    case 1
    with g(2) have "g' = []" "gs' = []" using enc_groups_Nil [OF g(4), of "1 + toks_len g'"] by (auto simp: enc_toks_Nil)
    then have "expand [] (concat gs) = replicate 1 0" unfolding gs g(1) by simp
    then show ?thesis by blast
  next
    case 2
    then have "enc_toks 1 g' @ enc_groups (1 + toks_len g') gs' = [0]" "tag_of g' = 0" using g(2,3) by simp_all
    from one_literal [OF g(4) this] have "g' = [Lit 0]" "gs' = []" by simp_all
    then have "expand [] (concat gs) = replicate 2 0" unfolding gs g(1) by (simp add: numeral_2_eq_2)
    then show ?thesis by blast
  next
    case 3
    have o: "odd (tag_of g')" using g(3) 3(1) by simp
    then obtain t g2 where g': "g' = t # g2" by (cases g') auto
    then obtain d l where t: "t = Phrase d l" using o by (cases t) auto
    have "length (enc_toks (1 + l) g2) + length (enc_groups (1 + toks_len g') gs') = 0" using arg_cong [OF g(2), of length] 3(2) unfolding g' t by simp
    then have "g2 = []" "gs' = []" using enc_groups_Nil [OF g(4), of "1 + toks_len g'"] by (auto simp: enc_toks_Nil)
    moreover have "d = 1" using assms(2) gs g(1) g' t by simp
    ultimately have "expand [] (concat gs) = copy_back 1 l (replicate 1 0)" using gs g(1) g' t by simp
    then show ?thesis unfolding copy_back_zeroes [OF order_refl] by blast
  qed
qed

lemma zeroes_block_zero:
  assumes "sub_block bs data" "zeroes_block (length bs) bs = Some True"
  shows "data = replicate 4096 0"
proof -
  obtain gs where p: "packed_block bs gs" "data = expand [] (concat gs) @ replicate (4096 - toks_len (concat gs)) 0"
    using assms by (auto simp: sub_block_def zeroes_block_def split: if_splits)
  have w: "full_groups gs" "wf_toks 0 (concat gs)" "toks_len (concat gs) \<le> 4096" "gs \<noteq> []" using p(1) by (auto simp: packed_block_def)
  have e: "enc_groups 0 gs = drop 2 bs" using p(1) unfolding packed_block_def by (metis append_eq_conv_conj length_le_bytes)
  have "\<exists>k. expand [] (concat gs) = replicate k 0" 
    by (rule zero_groups [OF w(1,2,4)]) (unfold e, rule zeroes_bytes [OF assms(2)])
  then obtain k where k: "expand [] (concat gs) = replicate k 0" by blast
  with length_expand [of "[]" "concat gs"] have "k = toks_len (concat gs)" by simp
  with k w(3) show ?thesis by (simp add: p(2) flip: replicate_add)
qed

section \<open>The loop over the pages\<close>

text \<open>The clusters a volume with compression has; a block is sixteen of them.\<close>

definition cb_params :: "nat \<Rightarrow> nat \<Rightarrow> bool" where
  "cb_params cluster_size block_size \<longleftrightarrow> cluster_size \<in> {512, 1024, 2048, 4096} \<and> block_size = 16 * cluster_size"

definition sb_data :: "buf \<Rightarrow> nat \<Rightarrow> buf" where
  "sb_data inbuf j = take 4096 (drop (4096 * j) inbuf)"

definition encodes :: "buf \<Rightarrow> buf list \<Rightarrow> bool" where
  "encodes inbuf bss \<longleftrightarrow> (\<forall>i < length bss. sub_block (bss ! i) (sb_data inbuf i))"

text \<open>\<open>ns\<close> are sizes that \<open>ntfs_compress_block\<close> returns for the first pages of the block.\<close>

definition packs_as :: "buf \<Rightarrow> nat list \<Rightarrow> bool" where
  "packs_as inbuf ns \<longleftrightarrow> (\<forall>i < length ns. \<exists>buf out. ntfs_compress_block True (sb_data inbuf i) buf = Some (ns ! i, out))"

definition too_large :: "nat \<Rightarrow> nat \<Rightarrow> buf \<Rightarrow> bool" where
  "too_large cluster_size block_size inbuf \<longleftrightarrow>
     (\<exists>ns. length ns \<le> block_size div 4096 \<and> packs_as inbuf ns \<and> sum_list ns + cluster_size + 2 > block_size)"

definition cb_inv :: "buf \<Rightarrow> nat \<Rightarrow> nat \<Rightarrow> nat \<Rightarrow> buf \<Rightarrow> nat \<Rightarrow> bool \<Rightarrow> bool" where
  "cb_inv inbuf cluster_size block_size j outbuf compsz allzeroes \<longleftrightarrow>
     length outbuf = cb_outbuf_size block_size \<and> compsz + cluster_size + 2 \<le> block_size \<and>
     (\<exists>bss. length bss = j \<and> take compsz outbuf = concat bss \<and> encodes inbuf bss \<and> packs_as inbuf (map length bss)) \<and>
     (allzeroes \<longrightarrow> compsz \<le> 6 * j \<and> (\<forall>i < j. sb_data inbuf i = replicate 4096 0))"

lemma cb_outbuf_fits: "cb_params c b \<Longrightarrow> cb_outbuf_size b = b + 4096"
  by (auto simp: cb_params_def cb_outbuf_size_def)

lemma zeroes_block_take: "n \<le> length b \<Longrightarrow> zeroes_block n (take n b) = zeroes_block n b"
  by (simp add: zeroes_block_def slice_def)

lemma zeroes_block_total: "n \<le> length b \<Longrightarrow> \<exists>z. zeroes_block n b = Some z"
  by (auto simp: zeroes_block_def slice_def)

lemma zeroes_block_small: "zeroes_block n b = Some True \<Longrightarrow> n \<le> 6"
  by (auto simp: zeroes_block_def split: if_splits)

lemma encodes_snoc: "encodes inbuf (bss @ [bs]) \<longleftrightarrow> encodes inbuf bss \<and> sub_block bs (sb_data inbuf (length bss))"
  by (auto simp: encodes_def nth_append less_Suc_eq)

lemma packs_as_snoc:
  "packs_as inbuf (ns @ [n]) \<longleftrightarrow> packs_as inbuf ns \<and> (\<exists>buf out. ntfs_compress_block True (sb_data inbuf (length ns)) buf = Some (n, out))"
  by (auto simp: packs_as_def nth_append less_Suc_eq)

lemma length_sb_data: "4096 * (j + 1) \<le> length inbuf \<Longrightarrow> length (sb_data inbuf j) = 4096"
  by (simp add: sb_data_def)

lemma chunk_slice:
  assumes "length inbuf = 4096 * m" "j < m"
  shows "slice inbuf (4096 * j) (if 4096 * j + 4096 < length inbuf then 4096 else length inbuf - 4096 * j) = Some (sb_data inbuf j)"
    "length (sb_data inbuf j) = 4096"
proof -
  have l: "4096 * (j + 1) \<le> length inbuf" unfolding assms(1) using assms(2) by (intro mult_le_mono2) simp
  then show "length (sb_data inbuf j) = 4096" by (rule length_sb_data)
  have "(if 4096 * j + 4096 < length inbuf then 4096 else length inbuf - 4096 * j) = 4096" using l by auto
  then show "slice inbuf (4096 * j) (if 4096 * j + 4096 < length inbuf then 4096 else length inbuf - 4096 * j) = Some (sb_data inbuf j)"
    using l by (simp add: slice_def sb_data_def)
qed

lemma cb_loop_step:
  assumes "cb_params c b" "\<forall>p. alloc p" "length inbuf = b" "4096 * j < b" "cb_inv inbuf c b j outbuf compsz allz"
  obtains n out allz' where "n \<le> 4098" "length out = length outbuf" "(if allz then zeroes_block n (drop compsz out) else Some False) = Some allz'"
    "cb_loop alloc c b inbuf (4096 * j) outbuf compsz allz =
       (if compsz + n + c + 2 > b then Some (True, allz, compsz, out)
        else cb_loop alloc c b inbuf (4096 * (j + 1)) out (compsz + n) allz')"
    "compsz + n + c + 2 \<le> b \<Longrightarrow> cb_inv inbuf c b (j + 1) out (compsz + n) allz'" "compsz + n + c + 2 > b \<Longrightarrow> too_large c b inbuf"
proof -
  have par: "c \<le> 4096" "length inbuf = 4096 * (c div 256)" "j < c div 256" "length outbuf = b + 4096" "compsz + c + 2 \<le> b" "b \<le> 65536"
    using assms(1,3-5) cb_outbuf_fits [OF assms(1)] by (auto simp: cb_params_def cb_inv_def)
  have "512 \<le> c" using assms(1) by (auto simp: cb_params_def)
  note ch = chunk_slice [OF par(2,3)]
  obtain n pb where n: "ntfs_compress_block True (sb_data inbuf j) (drop compsz outbuf) = Some (n, pb)" "length pb = length (drop compsz outbuf)" "n \<le> 4098"
    "sub_block (take n pb) (sb_data inbuf j @ replicate (4096 - length (sb_data inbuf j)) 0)"
    by (rule compress_block_ok [of "sb_data inbuf j" "drop compsz outbuf"]) (use ch(2) par(4,5) \<open>512 \<le> c\<close> in auto)
  have np: "n \<le> length pb" using n(2,3) par(4,5) \<open>512 \<le> c\<close> by simp
  have sb: "sub_block (take n pb) (sb_data inbuf j)" "n \<noteq> 0" using n(4) ch(2) length_sub_block [OF n(4)] by auto
  let ?out = "take compsz outbuf @ pb"
  have l: "length ?out = length outbuf" "drop compsz ?out = pb" "take (compsz + n) ?out = take compsz outbuf @ take n pb"
    using n(2) par(4,5) by (simp_all add: min_def)
  obtain allz' where z: "(if allz then zeroes_block n pb else Some False) = Some allz'"
    using zeroes_block_total [OF np] by (cases allz) auto
  have za: "sb_data inbuf j = replicate 4096 0 \<and> n \<le> 6 \<and> allz" if allz'
    using z that zeroes_block_zero [OF sb(1)] zeroes_block_take [OF np] zeroes_block_small np by (auto split: if_splits)
  have lp: "cb_loop alloc c b inbuf (4096 * j) outbuf compsz allz =
      (if compsz + n + c + 2 > b then Some (True, allz, compsz, ?out) else cb_loop alloc c b inbuf (4096 * (j + 1)) ?out (compsz + n) allz')"
    using ch(1) n(1) sb(2) par z n(3) assms(2-4) by (subst cb_loop.simps) (auto simp: Let_def add.assoc add.commute [of 4096])
  obtain bss where b: "length bss = j" "take compsz outbuf = concat bss" "encodes inbuf bss" "packs_as inbuf (map length bss)"
    using assms(5) by (auto simp: cb_inv_def)
  have pk: "packs_as inbuf (map length bss @ [n])" using b(1,4) n(1) by (auto simp: packs_as_snoc)
  have "length (take compsz outbuf) = compsz" using par(4,5) by simp
  then have sum: "sum_list (map length bss) = compsz" unfolding b(2) by (simp add: length_concat)
  have big: "too_large c b inbuf" if "compsz + n + c + 2 > b"
    unfolding too_large_def using that pk sum b(1) par(2,3) assms(3) by (intro exI [of _ "map length bss @ [n]"]) auto
  have iv: "cb_inv inbuf c b (j + 1) ?out (compsz + n) allz'" if "compsz + n + c + 2 \<le> b"
  proof -
    from b have "encodes inbuf (bss @ [take n pb])" "take (compsz + n) ?out = concat (bss @ [take n pb])" using sb(1) l(3) by (simp_all add: encodes_snoc)
    moreover have "packs_as inbuf (map length (bss @ [take n pb]))" using pk np by simp
    ultimately show ?thesis using b(1) that assms(5) l(1) za unfolding cb_inv_def
      by (intro conjI exI [of _ "bss @ [take n pb]"]) (auto simp: less_Suc_eq)
  qed
  have "(if allz then zeroes_block n (drop compsz ?out) else Some False) = Some allz'" unfolding l(2) by (rule z)
  from that [OF n(3) l(1) this lp iv big] show ?thesis .
qed

lemma cb_loop_ok:
  assumes "cb_params c b" "\<forall>p. alloc p" "length inbuf = b" "4096 * j \<le> b" "cb_inv inbuf c b j outbuf compsz allz"
  obtains fail allz' compsz' out where "cb_loop alloc c b inbuf (4096 * j) outbuf compsz allz = Some (fail, allz', compsz', out)"
    "fail \<Longrightarrow> \<not> allz' \<and> too_large c b inbuf" "\<not> fail \<Longrightarrow> cb_inv inbuf c b (b div 4096) out compsz' allz'"
  using assms(4,5)
proof (induction "b div 4096 - j" arbitrary: j outbuf compsz allz thesis)
  case 0
  then have j: "4096 * j = b" "j = b div 4096" using assms(1) by (auto simp: cb_params_def)
  then have "cb_loop alloc c b inbuf (4096 * j) outbuf compsz allz = Some (False, allz, compsz, outbuf)"
    using assms(3) by (subst cb_loop.simps) simp
  with j(2) 0 show ?case by blast
next
  case (Suc m)
  from Suc.hyps(2) have j: "4096 * j < b" by simp
  obtain n out allz1 where s: "n \<le> 4098" "cb_loop alloc c b inbuf (4096 * j) outbuf compsz allz =
       (if compsz + n + c + 2 > b then Some (True, allz, compsz, out) else cb_loop alloc c b inbuf (4096 * (j + 1)) out (compsz + n) allz1)"
    "compsz + n + c + 2 \<le> b \<Longrightarrow> cb_inv inbuf c b (j + 1) out (compsz + n) allz1" "compsz + n + c + 2 > b \<Longrightarrow> too_large c b inbuf"
    using cb_loop_step [OF assms(1-3) j Suc.prems(3)] by metis
  show ?case
  proof (cases "compsz + n + c + 2 > b")
    case True
    have "\<not> allz" using True s(1) Suc.prems(3) j assms(1) by (auto simp: cb_inv_def cb_params_def)
    with True s(2,4) show ?thesis by (intro Suc.prems(1)) auto
  next
    case False
    then have inv: "cb_inv inbuf c b (j + 1) out (compsz + n) allz1" using s(3) by simp
    have "m = b div 4096 - (j + 1)" "4096 * (j + 1) \<le> b" using Suc.hyps(2) j assms(1) by (auto simp: cb_params_def)
    from Suc.hyps(1) [OF this(1) _ this(2) inv] obtain fail allz' compsz' o' where
      "cb_loop alloc c b inbuf (4096 * (j + 1)) out (compsz + n) allz1 = Some (fail, allz', compsz', o')"
      "fail \<Longrightarrow> \<not> allz' \<and> too_large c b inbuf" "\<not> fail \<Longrightarrow> cb_inv inbuf c b (b div 4096) o' compsz' allz'" by metis
    with False s(2) show ?thesis by (intro Suc.prems(1) [of fail allz' compsz' o']) simp_all
  qed
qed

lemma cb_inv_start: "cb_params c b \<Longrightarrow> length outbuf = cb_outbuf_size b \<Longrightarrow> cb_inv inbuf c b 0 outbuf 0 True"
  by (auto simp: cb_inv_def cb_params_def encodes_def packs_as_def)

lemma all_chunks_zero:
  assumes "length inbuf = 4096 * m" "\<forall>i < m. sb_data inbuf i = replicate 4096 0"
  shows "inbuf = replicate (4096 * m) 0"
proof (rule nth_equalityI)
  fix i assume i: "i < length inbuf"
  then have "i div 4096 < m" using assms(1) by (simp add: less_mult_imp_div_less mult.commute)
  with assms(2) have c: "sb_data inbuf (i div 4096) = replicate 4096 0" by blast
  have "sb_data inbuf (i div 4096) ! (i mod 4096) = inbuf ! i" using i by (simp add: sb_data_def)
  then show "inbuf ! i = replicate (4096 * m) 0 ! i" using i assms(1) unfolding c by simp
qed (simp add: assms(1))

text \<open>The block is rounded up to whole clusters, and at least one cluster of it is left over.\<close>

lemma round_up_or:
  fixes x :: nat
  assumes "1 \<le> x"
  shows "((x - 1) OR (2 ^ k - 1)) + 1 = ((x - 1) div 2 ^ k + 1) * 2 ^ k"
proof -
  have "(x - 1) OR (2 ^ k - 1) = push_bit k (drop_bit k (x - 1)) OR mask k"
    unfolding mask_eq_exp_minus_1 [symmetric] by (rule bit_eqI) (auto simp: bit_simps)
  also have "\<dots> = push_bit k (drop_bit k (x - 1)) + mask k"
    by (rule disjunctive_add_eq_or [symmetric]) (auto simp: bit_eq_iff bit_simps)
  also have "\<dots> = (x - 1) div 2 ^ k * 2 ^ k + (2 ^ k - 1)" by (simp add: push_bit_eq_mult drop_bit_eq_div mask_eq_exp_minus_1)
  finally show ?thesis by (simp add: add.assoc)
qed

lemma finish_packed:
  assumes "c = 2 ^ k" "compsz + 2 \<le> m * c" "m * c \<le> length out"
  obtains d where
    "do { outbuf \<leftarrow> put8 out compsz 0;
          outbuf \<leftarrow> put8 outbuf (compsz + 1) 0;
          let compsz = compsz + 2;
          let rounded = ((compsz - 1) OR (c - 1)) + 1;
          outbuf \<leftarrow> memset0 outbuf compsz (rounded - compsz);
          d \<leftarrow> slice outbuf 0 rounded;
          Some (Cb_packed d) } = Some (Cb_packed d)"
    "take compsz d = take compsz out" "compsz + 2 \<le> length d" "c dvd length d" "length d \<le> m * c"
proof -
  let ?r = "((compsz + 2 - 1) div c + 1) * c"
  have r: "((compsz + 2 - 1) OR (c - 1)) + 1 = ?r" unfolding assms(1) by (rule round_up_or) simp
  have "(compsz + 1) div c * c + (compsz + 1) mod c = compsz + 1" "(compsz + 1) mod c < c" using assms(1) by (simp_all add: div_mult_mod_eq)
  moreover have "compsz + 2 - 1 = compsz + 1" by simp
  ultimately have lo: "compsz + 2 \<le> ?r" unfolding add_mult_distrib by (simp only:)
  have "(compsz + 1) div c < m" using assms(1,2) by (simp add: less_mult_imp_div_less)
  then have hi: "?r \<le> m * c" by (intro mult_le_mono1) simp
  obtain q where q: "?r = compsz + 2 + q" using lo le_iff_add by blast
  let ?o = "out[compsz := 0, compsz + 1 := 0]"
  let ?d = "take (compsz + 2) ?o @ replicate q 0"
  have l: "compsz + 1 < length out" "compsz + 2 + q \<le> length out" using lo hi assms(2,3) q by simp_all
  have p: "put8 out compsz 0 = Some (out[compsz := 0])" "put8 (out[compsz := 0]) (compsz + 1) 0 = Some ?o"
    using l by (simp_all add: put8_update)
  have s: "do { outbuf \<leftarrow> memset0 ?o (compsz + 2) (compsz + 2 + q - (compsz + 2)); d \<leftarrow> slice outbuf 0 (compsz + 2 + q); Some (Cb_packed d) } = Some (Cb_packed ?d)"
    using l(2) by (simp add: memset0_def blit_def slice_def)
  have d: "length ?d = ?r" using l(2) q by simp
  show ?thesis
  proof (rule that)
    show "take compsz ?d = take compsz out" using l by simp
    show "c dvd length ?d" "compsz + 2 \<le> length ?d" "length ?d \<le> m * c" unfolding d using lo hi by simp_all
  qed (simp only: Let_def r q p s bind.bind_lunit)
qed

lemma cb_encode_cases:
  assumes "cb_params c b" "\<forall>p. alloc p" "length inbuf = b" "length outbuf = cb_outbuf_size b"
  obtains (hole) "cb_encode alloc c b inbuf outbuf = Some Cb_hole" "inbuf = replicate b 0"
  | (raw) "cb_encode alloc c b inbuf outbuf = Some Cb_raw" "too_large c b inbuf"
  | (packed) d bss where "cb_encode alloc c b inbuf outbuf = Some (Cb_packed d)" "encodes inbuf bss" "length bss = b div 4096"
      "take (length (concat bss)) d = concat bss" "length (concat bss) + 2 \<le> length d" "c dvd length d" "length d + c \<le> b"
proof -
  obtain fail allz compsz out where l: "cb_loop alloc c b inbuf (4096 * 0) outbuf 0 True = Some (fail, allz, compsz, out)"
    "fail \<Longrightarrow> \<not> allz \<and> too_large c b inbuf" "\<not> fail \<Longrightarrow> cb_inv inbuf c b (b div 4096) out compsz allz"
    by (rule cb_loop_ok [OF assms(1-3) _ cb_inv_start [OF assms(1,4)]]) auto
  have l0: "cb_loop alloc c b inbuf 0 outbuf 0 True = Some (fail, allz, compsz, out)" using l(1) by simp
  have m: "b = 4096 * (b div 4096)" using assms(1) by (auto simp: cb_params_def)
  consider "fail" | "\<not> fail" "allz" | "\<not> fail" "\<not> allz" by blast
  then show ?thesis
  proof cases
    case 1
    with l(2) l0 show ?thesis by (intro raw) (simp_all add: cb_encode_def)
  next
    case 2
    then have "inbuf = replicate b 0" using all_chunks_zero [of inbuf "b div 4096"] l(3) m assms(3) by (simp add: cb_inv_def)
    with 2 l0 show ?thesis by (intro hole) (simp_all add: cb_encode_def)
  next
    case 3
    then obtain bss where b: "length out = cb_outbuf_size b" "compsz + c + 2 \<le> b" "length bss = b div 4096" "take compsz out = concat bss" "encodes inbuf bss"
      using l(3) by (auto simp: cb_inv_def)
    have "c = 2 ^ 9 \<or> c = 2 ^ 10 \<or> c = 2 ^ 11 \<or> c = 2 ^ 12" "b = 16 * c" using assms(1) by (auto simp: cb_params_def)
    moreover from this(2) have kb: "compsz + 2 \<le> 15 * c" "15 * c \<le> length out" "15 * c + c \<le> b"
      using b(1,2) cb_outbuf_fits [OF assms(1)] by simp_all
    ultimately obtain k where k: "c = 2 ^ k" by blast
    obtain d where "cb_encode alloc c b inbuf outbuf = Some (Cb_packed d)" "take compsz d = take compsz out" "compsz + 2 \<le> length d" "c dvd length d" "length d \<le> 15 * c"
      by (rule finish_packed [OF k kb(1,2)]) (use 3 l0 in \<open>simp add: cb_encode_def\<close>)
    moreover have "length (concat bss) = compsz" using b(1,2) cb_outbuf_fits [OF assms(1)] unfolding b(4) [symmetric] by simp
    ultimately show ?thesis using b(3-5) kb(3) by (intro packed [of d bss]) simp_all
  qed
qed

section \<open>Reading a compressed block\<close>

fun fill_pages :: "buf option list \<Rightarrow> nat \<Rightarrow> buf list \<Rightarrow> buf option list" where
  "fill_pages pages di [] = pages"
| "fill_pages pages di (d # ds) = fill_pages (page_done pages di d) (di + 1) ds"

abbreviation (input) wanted :: "buf option list \<Rightarrow> nat \<Rightarrow> nat \<Rightarrow> nat list" where
  "wanted pages i j \<equiv> filter (\<lambda>j. pages ! j \<noteq> None) [i..<j]"

lemma length_page_done [simp]: "length (page_done pages di d) = length pages"
  by (simp add: page_done_def)

lemma page_done_nth: "j < length pages \<Longrightarrow> page_done pages di d ! j = (if j = di \<and> pages ! j \<noteq> None then Some d else pages ! j)"
  by (auto simp: page_done_def)

lemma page_done_None [simp]: "j < length pages \<Longrightarrow> (page_done pages di d ! j = None) = (pages ! j = None)"
  by (auto simp: page_done_nth)

lemma length_fill_pages [simp]: "length (fill_pages pages di ds) = length pages"
  by (induction ds arbitrary: pages di) simp_all

lemma fill_pages_nth:
  "j < length pages \<Longrightarrow>
   fill_pages pages di ds ! j = (if di \<le> j \<and> j < di + length ds \<and> pages ! j \<noteq> None then Some (ds ! (j - di)) else pages ! j)"
proof (induction ds arbitrary: pages di)
  case (Cons d ds)
  have "j - di = Suc (j - Suc di)" if "Suc di \<le> j" using that by simp
  with Cons show ?case by (auto simp: page_done_nth)
qed auto

lemma page_lengths:
  "(\<And>j pg. j < length pages \<Longrightarrow> pages ! j = Some pg \<Longrightarrow> length pg = 4096) \<Longrightarrow> length d = 4096 \<Longrightarrow>
   j < length pages \<Longrightarrow> page_done pages di d ! j = Some pg \<Longrightarrow> length pg = 4096"
  by (auto simp: page_done_nth split: if_splits)

lemma dec_loop_blocks:
  assumes "list_all2 sub_block bss datas" "slice cb c (length (concat bss)) = Some (concat bss)" "c + length (concat bss) + 2 \<le> length cb"
    "di + length bss \<le> mi" "mi \<le> length pages" "\<And>j pg. j < length pages \<Longrightarrow> pages ! j = Some pg \<Longrightarrow> length pg = 4096"
  shows "dec_loop 4096 cb mi mo c (pages, di, 0, dn) =
    dec_loop 4096 cb mi mo (c + length (concat bss)) (fill_pages pages di datas, di + length bss, 0, dn @ wanted pages di (di + length bss))"
  using assms
proof (induction bss datas arbitrary: c pages di dn rule: list_all2_induct)
  case (Cons bs bss d datas)
  have len: "4 \<le> length bs" "length d = 4096" using Cons.hyps(1) length_sub_block by (auto simp: sub_block_def)
  have sl: "slice cb c (length bs) = Some bs" "slice cb (c + length bs) (length (concat bss)) = Some (concat bss)"
    using slice_halves [of cb c bs "concat bss"] Cons.prems(1) by simp_all
  have "dec_loop 4096 cb mi mo c (pages, di, 0, dn) =
      dec_loop 4096 cb mi mo (c + length bs) (page_done pages di d, di + 1, 0, note_done pages di dn)"
    using Cons.prems(2-4) Cons.prems(5) [of di] len by (intro dec_loop_sub_block [OF Cons.hyps(1) sl(1)]) auto
  also have "\<dots> = dec_loop 4096 cb mi mo (c + length bs + length (concat bss)) (fill_pages (page_done pages di d) (di + 1) datas,
      di + 1 + length bss, 0, note_done pages di dn @ wanted (page_done pages di d) (di + 1) (di + 1 + length bss))"
    using Cons.prems(2-5) page_lengths [of pages d _ di] len(2) by (intro Cons.IH sl(2)) auto
  also have "wanted (page_done pages di d) (di + 1) (di + 1 + length bss) = wanted pages (di + 1) (di + 1 + length bss)"
  proof (intro filter_cong refl)
    fix x assume "x \<in> set [di + 1..<di + 1 + length bss]"
    then have "x < length pages" using Cons.prems(3,4) by auto
    then show "(page_done pages di d ! x \<noteq> None) = (pages ! x \<noteq> None)" by (simp del: not_None_eq)
  qed
  also have "note_done pages di dn @ wanted pages (di + 1) (di + 1 + length bss) = dn @ wanted pages di (di + length (bs # bss))"
  proof -
    have "[di..<di + length (bs # bss)] = di # [di + 1..<di + 1 + length bss]" using upt_conv_Cons [of di "di + 1 + length bss"] by simp
    then show ?thesis by (simp only: note_done_def filter.simps split: if_split) simp
  qed
  finally show ?case by (simp add: add.assoc)
qed simp

lemma finish_pages_all:
  assumes "i_size \<le> init" "distinct dis" "\<And>di. di \<in> set dis \<Longrightarrow> di < length pages \<and> pages ! di = Some (f di)"
  shows "\<exists>pages'. finish_pages ps index i_size init dis pages up = Some (pages', up @ map (\<lambda>di. (di, f di)) dis)"
  using assms
proof (induction dis arbitrary: pages up)
  case (Cons di dis)
  have h: "handle_bounds_compressed_page ps (index di) (f di) i_size init = Some (f di)"
    using Cons.prems(1) by (simp add: handle_bounds_compressed_page_def)
  have "pages[di := None] ! x = Some (f x)" "x < length pages" if "x \<in> set dis" for x
    using Cons.prems(2) Cons.prems(3) [of x] that by (cases "x = di"; simp)+
  then have "\<exists>pages'. finish_pages ps index i_size init dis (pages[di := None]) (up @ [(di, f di)]) = Some (pages', (up @ [(di, f di)]) @ map (\<lambda>di. (di, f di)) dis)"
    using Cons.prems(1,2) by (intro Cons.IH) auto
  with h Cons.prems(3) [of di] show ?case by simp
qed simp

lemma encodes_list_all2:
  assumes "encodes inbuf bss" "m \<le> length bss"
  shows "list_all2 sub_block (take m bss) (map (sb_data inbuf) [0..<m])"
  using assms by (auto simp: encodes_def list_all2_conv_all_nth)

lemma packed_reads_back:
  assumes "encodes inbuf bss" "take (length (concat bss)) d = concat bss" "length (concat bss) + 2 \<le> length d"
    "length d \<le> length cb" "take (length d) cb = d" "m \<le> length bss" "m \<le> length pages"
    "\<And>j pg. j < length pages \<Longrightarrow> pages ! j = Some pg \<Longrightarrow> length pg = 4096" "i_size \<le> init"
  shows "\<exists>pages'. ntfs_decompress 4096 index pages 0 0 m 0 cb i_size init =
    Some (0, pages', m, 0, map (\<lambda>j. (j, sb_data inbuf j)) (filter (\<lambda>j. pages ! j \<noteq> None) [0..<m]))"
proof -
  let ?b = "take m bss" and ?ds = "map (sb_data inbuf) [0..<m]" and ?w = "wanted pages 0 m"
  let ?n = "length (concat ?b)"
  have e: "concat bss = concat ?b @ concat (drop m bss)" by (metis append_take_drop_id concat_append)
  from arg_cong [OF e, of length] have n: "?n + 2 \<le> length cb" using assms(3,4) by simp
  have "take (length (concat bss)) cb = concat bss" using assms(2,3,5) by (metis add_leD1 min.absorb1 take_take)
  then have "take ?n cb = concat ?b"
    unfolding e by (metis append_eq_conv_conj length_append min.absorb1 le_add1 take_take)
  then have sl: "slice cb 0 ?n = Some (concat ?b)" using n by (simp add: slice_def)
  have "dec_loop 4096 cb m 0 0 (pages, 0, 0, []) = dec_loop 4096 cb m 0 ?n (fill_pages pages 0 ?ds, m, 0, ?w)"
    using dec_loop_blocks [OF encodes_list_all2 [OF assms(1,6)] sl, where di = 0 and mi = m and pages = pages and dn = "[]"] n assms(6-8) by simp
  also have "\<dots> = Some (0, fill_pages pages 0 ?ds, m, 0, ?w)"
  proof -
    obtain h where "get_le 2 cb ?n = Some h" using get_le_ok [of ?n 2 cb] n by auto
    then show ?thesis using n by (subst dec_loop.simps) simp
  qed
  finally have "dec_loop 4096 cb m 0 0 (pages, 0, 0, []) = Some (0, fill_pages pages 0 ?ds, m, 0, ?w)" .
  moreover have "\<exists>pages'. finish_pages 4096 index i_size init ?w (fill_pages pages 0 ?ds) [] = Some (pages', [] @ map (\<lambda>j. (j, sb_data inbuf j)) ?w)"
    using assms(7,9) by (intro finish_pages_all) (auto simp: fill_pages_nth)
  ultimately show ?thesis by (auto simp: ntfs_decompress_def)
qed

text \<open>
  \<open>cb\<close> is the reader's buffer: it starts with what was written, and may hold anything behind it.  \<open>m\<close> pages
  of the block are in the file; a page is wanted unless \<open>pages\<close> has a null pointer for it.
\<close>

definition reads_back :: "nat \<Rightarrow> buf \<Rightarrow> buf \<Rightarrow> bool" where
  "reads_back block_size d inbuf \<longleftrightarrow>
     (\<forall>cb pages m index i_size initialized_size.
        length cb = block_size \<and> take (length d) cb = d \<and> m \<le> block_size div 4096 \<and> m \<le> length pages \<and>
        (\<forall>j pg. j < length pages \<longrightarrow> pages ! j = Some pg \<longrightarrow> length pg = 4096) \<and> i_size \<le> initialized_size \<longrightarrow>
        (\<exists>pages'. ntfs_decompress 4096 index pages 0 0 m 0 cb i_size initialized_size =
           Some (0, pages', m, 0, map (\<lambda>j. (j, sb_data inbuf j)) (filter (\<lambda>j. pages ! j \<noteq> None) [0..<m]))))"

text \<open>
  C33. What \<open>ntfs_write_cb\<close> makes of a compression block.  Encoding always reaches a decision, without an
  access outside a buffer.  A block that becomes a hole holds zeroes only.  A block is stored as it is only
  when the compressed pages would not leave a cluster free.  A block that is stored compressed
  is written in whole clusters and leaves at least one cluster of its sixteen over, by which the reader
  recognises it; and from the clusters written, whatever follows them in its buffer, \<open>ntfs_decompress\<close>
  restores every page that is wanted, byte by byte.
\<close>

theorem compressed_block_roundtrip:
  assumes "cb_params cluster_size block_size" "\<forall>p. alloc p" "length inbuf = block_size" "length outbuf = cb_outbuf_size block_size"
  shows "\<exists>plan. cb_encode alloc cluster_size block_size inbuf outbuf = Some plan \<and>
    (case plan of
       Cb_hole \<Rightarrow> inbuf = replicate block_size 0
     | Cb_raw \<Rightarrow> too_large cluster_size block_size inbuf
     | Cb_packed d \<Rightarrow> cluster_size dvd length d \<and> length d + cluster_size \<le> block_size \<and> reads_back block_size d inbuf)"
  using assms
proof (cases rule: cb_encode_cases)
  case (packed d bss)
  then have "reads_back block_size d inbuf"
    unfolding reads_back_def using packed_reads_back [OF packed(2,4,5)] by auto
  with packed show ?thesis by auto
qed auto

theorem compressed_block_roundtrip_witness:
  "\<exists>plan. cb_encode (\<lambda>_. True) 512 8192 (replicate 8192 0) (replicate 12288 0) = Some plan \<and>
    (case plan of
       Cb_hole \<Rightarrow> replicate 8192 (0 :: byte) = replicate 8192 0
     | Cb_raw \<Rightarrow> too_large 512 8192 (replicate 8192 0)
     | Cb_packed d \<Rightarrow> 512 dvd length d \<and> length d + 512 \<le> 8192 \<and> reads_back 8192 d (replicate 8192 0))"
  by (rule compressed_block_roundtrip) (simp_all add: cb_params_def cb_outbuf_size_def)

text \<open>
  C38. When the compressor cannot get its memory it returns \<open>-ENOMEM\<close> as an unsigned number, which is neither 0
  nor too large once the cluster size is added in 32 bits; the loop goes on with \<open>compsz\<close> near \<open>2 ^ 32\<close>, and
  the address at which the next page is compressed, or the end mark is written, lies outside its buffer.  The comment of \<open>ntfs_compress_block\<close> promises 0 on an error.
\<close>

theorem compress_alloc_failure:
  assumes "cb_params cluster_size block_size" "\<not> alloc 0" "length inbuf = block_size" "length outbuf = cb_outbuf_size block_size"
  shows "ntfs_compress_block (alloc 0) (sb_data inbuf 0) outbuf = Some (4294967284, outbuf) \<and>
    cb_encode alloc cluster_size block_size inbuf outbuf = None"
proof -
  have f: "ntfs_compress_block (alloc 0) (sb_data inbuf 0) outbuf = Some (4294967284, outbuf)"
    using assms(2) by (simp add: ntfs_compress_block_def)
  have p: "8192 \<le> block_size" "cluster_size + 10 \<le> block_size" "10 \<le> cluster_size" "cluster_size \<le> 4096" "length outbuf = block_size + 4096" "block_size \<le> 65536"
    using assms(1,4) cb_outbuf_fits [OF assms(1)] by (auto simp: cb_params_def)
  have s: "slice inbuf 0 4096 = Some (sb_data inbuf 0)" using assms(3) p(1) by (simp add: slice_def sb_data_def)
  have "u32 (4294967284 + cluster_size + 2) = cluster_size - 10"
    using p(3,4) by (simp add: u32_def mod_if)
  moreover have "\<not> block_size < cluster_size - 10" using p(2) by simp
  ultimately have "cb_loop alloc cluster_size block_size inbuf 0 outbuf 0 True = cb_loop alloc cluster_size block_size inbuf 4096 outbuf 4294967284 False"
    using assms(3) p s f by (subst cb_loop.simps) (simp add: zeroes_block_def)
  also have "\<dots> = None"
    using assms(3) p by (subst cb_loop.simps) (simp add: bind_eq_None_conv)
  finally show ?thesis using f by (simp add: cb_encode_def)
qed

theorem compress_alloc_failure_witness:
  "ntfs_compress_block False (sb_data (replicate 8192 0) 0) (replicate 12288 0) = Some (4294967284, replicate 12288 0) \<and>
   cb_encode (\<lambda>_. False) 512 8192 (replicate 8192 0) (replicate 12288 0) = None"
  using compress_alloc_failure [of 512 8192 "\<lambda>_. False" "replicate 8192 0" "replicate 12288 0"]
  by (simp add: cb_params_def cb_outbuf_size_def)

section \<open>Turning a block into a hole\<close>

text \<open>
  \<open>cb_is_allocated\<close>: \<open>map_err\<close> tells that the whole run list could not be mapped.  A block of zeroes is punched
  out only if it holds clusters.
\<close>

fun cb_alloc_loop :: "rle list \<Rightarrow> int \<Rightarrow> int \<Rightarrow> bool option" where
  "cb_alloc_loop [] cb_vcn end_vcn = None"
| "cb_alloc_loop (x # xs) cb_vcn end_vcn =
     (if rlen x = 0 \<or> rvcn x \<ge> end_vcn then Some False
      else if s64 (rvcn x + rlen x) \<le> cb_vcn then cb_alloc_loop xs cb_vcn end_vcn
      else if rlcn x \<ge> 0 then Some True
      else cb_alloc_loop xs cb_vcn end_vcn)"

definition cb_is_allocated :: "bool \<Rightarrow> rle list option \<Rightarrow> int \<Rightarrow> int \<Rightarrow> bool option" where
  "cb_is_allocated map_err rl cb_vcn block_clusters =
     (if map_err then Some True
      else (case rl of None \<Rightarrow> Some False | Some rl \<Rightarrow> cb_alloc_loop rl cb_vcn (s64 (cb_vcn + block_clusters))))"

lemma cb_alloc_loop_exact:
  assumes "runs_from b rl" "\<forall>x \<in> set rl. in_s64 (rvcn x + rlen x)" "cb_vcn < end_vcn"
  shows "cb_alloc_loop rl cb_vcn end_vcn = Some (\<exists>v. b \<le> v \<and> cb_vcn \<le> v \<and> v < end_vcn \<and> 0 \<le> cluster_of rl v)"
  using assms(1,2)
proof (induction rl arbitrary: b)
  case (Cons x xs)
  show ?case
  proof (cases "xs = []")
    case True
    with Cons.prems show ?thesis by simp
  next
    case False
    let ?n = "rvcn x + rlen x"
    have x: "rvcn x = b" "0 < rlen x" "runs_from ?n xs" "s64 ?n = ?n" using Cons.prems False by auto
    have IH: "cb_alloc_loop xs cb_vcn end_vcn = Some (\<exists>v. ?n \<le> v \<and> cb_vcn \<le> v \<and> v < end_vcn \<and> 0 \<le> cluster_of xs v)"
      using Cons.IH [OF x(3)] Cons.prems(2) by simp
    have c: "0 \<le> cluster_of (x # xs) v \<longleftrightarrow> (if v < ?n then 0 \<le> rlcn x else 0 \<le> cluster_of xs v)" if "b \<le> v" for v
      using False x(1) that by simp
    have e: "0 \<le> cluster_of (x # xs) v \<longleftrightarrow> 0 \<le> cluster_of xs v" "b \<le> v" if "?n \<le> v" for v using c [of v] that x(1,2) by simp_all
    have s: "(\<exists>v. b \<le> v \<and> cb_vcn \<le> v \<and> v < end_vcn \<and> 0 \<le> cluster_of (x # xs) v) \<longleftrightarrow> (\<exists>v. ?n \<le> v \<and> cb_vcn \<le> v \<and> v < end_vcn \<and> 0 \<le> cluster_of xs v)"
      if "\<And>v. b \<le> v \<Longrightarrow> cb_vcn \<le> v \<Longrightarrow> 0 \<le> cluster_of (x # xs) v \<Longrightarrow> ?n \<le> v"
      using e that by blast
    consider "end_vcn \<le> b" | "b < end_vcn" "?n \<le> cb_vcn" | "b < end_vcn" "cb_vcn < ?n" by linarith
    then show ?thesis
    proof cases
      case 1
      then show ?thesis using x by auto
    next
      case 2
      then have "cb_alloc_loop (x # xs) cb_vcn end_vcn = cb_alloc_loop xs cb_vcn end_vcn" using x by simp
      then show ?thesis unfolding IH using s 2 by auto
    next
      case 3
      show ?thesis
      proof (cases "0 \<le> rlcn x")
        case True
        then have "\<exists>v. b \<le> v \<and> cb_vcn \<le> v \<and> v < end_vcn \<and> 0 \<le> cluster_of (x # xs) v"
          using c [of "max b cb_vcn"] 3 assms(3) x(1,2) by (intro exI [of _ "max b cb_vcn"]) (auto simp del: cluster_of.simps)
        with 3 x True show ?thesis by (simp del: cluster_of.simps)
      next
        case neg: False
        then have "cb_alloc_loop (x # xs) cb_vcn end_vcn = cb_alloc_loop xs cb_vcn end_vcn" using x 3 by simp
        moreover have "?n \<le> v" if "b \<le> v" "0 \<le> cluster_of (x # xs) v" for v using c [OF that(1)] that(2) neg by (simp split: if_splits del: cluster_of.simps)
        ultimately show ?thesis unfolding IH using s by auto
      qed
    qed
  qed
qed simp

end
