(* ===== verification/Lfs_State.thy ===== *)
theory Lfs_State
  imports Lfs_Layout
begin

text \<open>
  The state of the log engine (struct \<open>ntfs_logfile\<close> of core/logfile/logfile_internal.h) and
  the LSN arithmetic on it.

  The record is built in layers so that a function can be stated over the part it reads:
  \<open>lfs_geom\<close> holds what \<open>setup_geometry\<close> derives from the restart page and never changes
  afterwards, \<open>lfs_log\<close> adds the state of the log.  Pointers that may be NULL are options; the
  message buffer and the logger callback are left out.
\<close>

section \<open>The state\<close>

record lfs_geom =
  io_read :: "nat \<Rightarrow> nat \<Rightarrow> int \<times> buf"
  cluster_size :: nat
  mft_record_size :: nat
  orig_size :: nat
  l_size :: nat
  page_size :: nat
  page_bits :: nat
  page_mask :: nat
  sys_page_size :: nat
  major_ver :: nat
  minor_ver :: nat
  first_page :: nat
  data_off :: nat
  record_header_len :: nat
  seq_num_bits :: nat
  file_data_bits :: nat
  clst_per_page :: nat

text \<open>One restart page as found (the anonymous struct \<open>rst[2]\<close>).\<close>

record lfs_rst =
  rst_chkdsk :: bool
  rst_vbo :: nat
  rst_lsn :: nat
  rst_page :: buf

datatype log_state = NTFS_LOG_EMPTY | NTFS_LOG_CLEAN | NTFS_LOG_DIRTY | NTFS_LOG_CHKDSK
  | NTFS_LOG_CORRUPT | NTFS_LOG_UNSUPPORTED

datatype plan_kind = NTFS_PLAN_MFT_RECORD | NTFS_PLAN_CLUSTERS | NTFS_PLAN_SKIPPED

record plan_entry =
  pe_kind :: plan_kind
  pe_lsn :: nat
  pe_op :: nat
  pe_undo :: bool
  pe_target_attr :: nat
  pe_target_vcn :: nat
  pe_mft_no :: nat
  pe_lcn :: nat
  pe_count :: nat

record lfs_log = lfs_geom +
  rst :: "lfs_rst list"
  cur_rst :: "nat option"
  ra :: "buf option"
  client_idx :: nat
  client_seq :: nat
  client_oldest_lsn :: nat
  client_restart_lsn :: nat
  state :: log_state
  initialized :: bool
  current_lsn :: nat
  last_lsn :: nat
  oldest_lsn :: nat
  seq_num :: nat
  next_page :: nat
  wrapped :: bool
  reuse_tail :: bool
  no_last_lsn :: bool
  single_page_io :: bool
  tail_scanned :: bool
  tail_err :: int
  open_log_count :: nat
  ovr :: "(nat \<times> buf) list"
  crst :: "buf option"
  checkpoint_lsn :: nat
  bytes_per_attr_entry :: nat
  crst_major :: nat
  trtbl :: "buf option"
  dptbl :: "buf option"
  oatbl :: "buf option"
  attr_names :: "buf option"
  plan :: "plan_entry list"

section \<open>LSN arithmetic\<close>

definition lfs_lsn_to_vbo :: "('a) lfs_geom_scheme \<Rightarrow> nat \<Rightarrow> nat" where
  "lfs_lsn_to_vbo log lsn =
     u32 (u64 (lsn * 2 ^ seq_num_bits log) div 2 ^ (seq_num_bits log - 3))"

definition lfs_vbo_to_lsn :: "('a) lfs_geom_scheme \<Rightarrow> nat \<Rightarrow> nat \<Rightarrow> nat" where
  "lfs_vbo_to_lsn log vbo seq = u64 (vbo div 8 + u64 (seq * 2 ^ file_data_bits log))"

definition lfs_lsn_seq :: "('a) lfs_geom_scheme \<Rightarrow> nat \<Rightarrow> nat" where
  "lfs_lsn_seq log lsn = lsn div 2 ^ file_data_bits log"

definition lfs_next_page_off :: "('a) lfs_geom_scheme \<Rightarrow> nat \<Rightarrow> nat" where
  "lfs_next_page_off log off =
     (let off' = u32 (and_not32 off (page_mask log) + page_size log)
      in if off' \<ge> l_size log then first_page log else off')"

definition lfs_lsn_in_file :: "('a) lfs_log_scheme \<Rightarrow> nat \<Rightarrow> bool" where
  "lfs_lsn_in_file log lsn \<longleftrightarrow> lsn \<noteq> 0 \<and> oldest_lsn log \<le> lsn \<and> lsn \<le> last_lsn log"

text \<open>
  The page walk of \<open>lfs_final_log_off\<close>.  The C loop runs for ever when a page has no data
  area (\<open>tail = 0\<close>); that case is \<open>None\<close>.
\<close>

function final_walk :: "('a) lfs_geom_scheme \<Rightarrow> nat \<Rightarrow> nat \<Rightarrow> nat \<Rightarrow> (nat \<times> nat) option" where
  "final_walk log fin data_len tail =
     (let fin' = lfs_next_page_off log fin
      in if data_len \<le> tail then Some (fin', data_len)
         else if tail = 0 then None
         else final_walk log fin' (data_len - tail) tail)"
  by pat_completeness auto
termination
  by (relation "measure (\<lambda>(log, fin, data_len, tail). data_len)") auto

declare final_walk.simps [simp del]

definition lfs_final_log_off :: "('a) lfs_geom_scheme \<Rightarrow> nat \<Rightarrow> nat \<Rightarrow> nat option" where
  "lfs_final_log_off log lsn data_len0 = (
     let base_vbo = u32 (lsn * 8);
         fin = and_not32 (base_vbo AND sub32 (u32 (8 * 2 ^ file_data_bits log)) 1) (page_mask log);
         page_off = base_vbo AND page_mask log;
         tail = sub32 (page_size log) page_off;
         page_off1 = sub32 page_off 1;
         data_len = u32 (data_len0 + record_header_len log)
     in if data_len > tail then do {
          (fin', len') \<leftarrow> final_walk log fin (sub32 data_len tail) (sub32 (page_size log) (data_off log));
          Some (u32 (fin' + len' + sub32 (data_off log) 1)) }
        else Some (u32 (fin + data_len + page_off1)))"

section \<open>Well-formed geometry\<close>

text \<open>What \<open>setup_geometry\<close> establishes before any record is read.\<close>

definition geom_ok :: "('a) lfs_geom_scheme \<Rightarrow> bool" where
  "geom_ok log \<longleftrightarrow>
     9 \<le> page_bits log \<and> page_bits log \<le> 16 \<and> page_size log = 2 ^ page_bits log \<and>
     page_mask log = page_size log - 1 \<and>
     l_size log mod page_size log = 0 \<and> 50 * page_size log \<le> l_size log \<and>
     l_size log \<le> orig_size log \<and> orig_size log < 4294967296 \<and>
     seq_num_bits log + file_data_bits log = 64 \<and> file_data_bits log \<le> 29 \<and>
     l_size log \<le> 2 ^ (file_data_bits log + 3) \<and>
     (first_page log = 4 * page_size log \<or> first_page log = 34 * page_size log) \<and>
     48 \<le> record_header_len log \<and> record_header_len log < page_size log \<and>
     40 \<le> data_off log \<and> data_off log < page_size log"

lemma geom_okD:
  assumes "geom_ok log"
  shows "9 \<le> page_bits log" "page_bits log \<le> 16" "page_size log = 2 ^ page_bits log"
    "page_mask log = page_size log - 1" "l_size log mod page_size log = 0"
    "50 * page_size log \<le> l_size log" "l_size log \<le> orig_size log" "orig_size log < 4294967296"
    "seq_num_bits log + file_data_bits log = 64" "file_data_bits log \<le> 29"
    "l_size log \<le> 2 ^ (file_data_bits log + 3)"
    "first_page log = 4 * page_size log \<or> first_page log = 34 * page_size log"
    "48 \<le> record_header_len log" "record_header_len log < page_size log"
    "40 \<le> data_off log" "data_off log < page_size log"
  using assms unfolding geom_ok_def by blast+

lemma geom_page_size:
  assumes "geom_ok log"
  shows "512 \<le> page_size log" "page_size log \<le> 65536" "page_mask log = 2 ^ page_bits log - 1"
    "page_bits log \<le> 32" "first_page log < l_size log" "first_page log mod page_size log = 0"
    "0 < page_size log - data_off log" "l_size log < 4294967296"
proof -
  note g = geom_okD [OF assms]
  have "(2::nat) ^ 9 \<le> 2 ^ page_bits log" using g(1) by (intro power_increasing) simp_all
  moreover have "(2::nat) ^ page_bits log \<le> 2 ^ 16" using g(2) by (intro power_increasing) simp_all
  ultimately show p: "512 \<le> page_size log" "page_size log \<le> 65536" unfolding g(3) by simp_all
  then show "first_page log < l_size log" using g(6,12) by linarith
  show "page_mask log = 2 ^ page_bits log - 1" by (simp only: g(3,4))
  show "page_bits log \<le> 32" "0 < page_size log - data_off log" "l_size log < 4294967296"
    using g by linarith+
  show "first_page log mod page_size log = 0" using g(12) by (elim disjE) simp_all
qed

lemma page_start:
  assumes "geom_ok log" "off < 4294967296"
  shows "and_not32 off (page_mask log) = off - off mod page_size log"
  using and_not32_pow2 [OF geom_page_size(4) [OF assms(1)] assms(2)]
  by (simp only: geom_page_size(3) [OF assms(1)] geom_okD(3) [OF assms(1)])

lemma page_offset:
  assumes "geom_ok log"
  shows "off AND page_mask log = off mod page_size log"
  using nat_and_mask_low [of off "page_bits log"]
  by (simp only: geom_page_size(3) [OF assms] geom_okD(3) [OF assms])

lemma lsn_to_vbo_eq:
  assumes "geom_ok log"
  shows "lfs_lsn_to_vbo log lsn = lsn mod 2 ^ file_data_bits log * 8"
proof -
  let ?s = "seq_num_bits log" and ?f = "file_data_bits log"
  have sf: "?s + ?f = 64" "?f \<le> 29" using assms by (auto simp: geom_ok_def)
  then have s3: "?s = (?s - 3) + 3" by linarith
  have e: "18446744073709551616 = (2::nat) ^ (?s + ?f)" unfolding sf(1) by simp
  have "u64 (lsn * 2 ^ ?s) = 2 ^ ?s * (lsn mod 2 ^ ?f)"
    unfolding u64_def e power_add by (simp only: mult_mod_right mult.commute [of lsn])
  also have "\<dots> = 2 ^ (?s - 3) * (lsn mod 2 ^ ?f * 8)"
    by (subst s3, subst power_add) simp
  finally have "u64 (lsn * 2 ^ ?s) div 2 ^ (?s - 3) = lsn mod 2 ^ ?f * 8" by simp
  moreover have "(2::nat) ^ ?f \<le> 2 ^ 29" using sf(2) by (intro power_increasing) auto
  then have "lsn mod 2 ^ ?f * 8 < 4294967296"
    using mod_less_divisor [of "2 ^ ?f" lsn] by (simp del: mod_less_divisor)
  ultimately show ?thesis by (simp add: lfs_lsn_to_vbo_def)
qed

lemma vbo_to_lsn_eq:
  assumes "geom_ok log" "vbo < 2 ^ (file_data_bits log + 3)" "seq < 2 ^ seq_num_bits log"
  shows "lfs_vbo_to_lsn log vbo seq = seq * 2 ^ file_data_bits log + vbo div 8"
    and "vbo div 8 < 2 ^ file_data_bits log"
proof -
  let ?s = "seq_num_bits log" and ?f = "file_data_bits log"
  have sf: "?s + ?f = 64" using assms by (auto simp: geom_ok_def)
  show v: "vbo div 8 < 2 ^ ?f" using assms(2) by (simp add: power_add less_mult_imp_div_less)
  have "Suc seq * 2 ^ ?f \<le> 2 ^ ?s * 2 ^ ?f" using assms(3) by (intro mult_le_mono1) simp
  also have "\<dots> = 18446744073709551616" using sf by (simp flip: power_add)
  finally have "seq * 2 ^ ?f + 2 ^ ?f \<le> 18446744073709551616" by simp
  with v have b: "seq * 2 ^ ?f + vbo div 8 < 18446744073709551616" by linarith
  then have "u64 (seq * 2 ^ ?f) = seq * 2 ^ ?f" by simp
  then have "lfs_vbo_to_lsn log vbo seq = u64 (seq * 2 ^ ?f + vbo div 8)"
    by (simp add: lfs_vbo_to_lsn_def add.commute)
  with b show "lfs_vbo_to_lsn log vbo seq = seq * 2 ^ ?f + vbo div 8" by simp
qed

text \<open>A concrete geometry: 64 pages of 4096 bytes, log format 1.1.\<close>

definition sample_geom :: lfs_geom where
  "sample_geom = \<lparr>io_read = (\<lambda>off len. (0, replicate len 0)), cluster_size = 4096,
     mft_record_size = 1024, orig_size = 262144, l_size = 262144, page_size = 4096, page_bits = 12,
     page_mask = 4095, sys_page_size = 4096, major_ver = 1, minor_ver = 1, first_page = 16384,
     data_off = 64, record_header_len = 48, seq_num_bits = 49, file_data_bits = 15,
     clst_per_page = 1\<rparr>"

lemma sample_geom_simps [simp]:
  "l_size sample_geom = 262144" "page_size sample_geom = 4096" "file_data_bits sample_geom = 15"
  "seq_num_bits sample_geom = 49" "data_off sample_geom = 64" "record_header_len sample_geom = 48"
  by (simp_all add: sample_geom_def)

lemma sample_geom_ok: "geom_ok sample_geom"
  by (simp add: geom_ok_def sample_geom_def)

text \<open>
  C30.  LSNs and file positions correspond: from the position and sequence number packed into
  an LSN both are recovered exactly, for every 8-byte aligned position in the file.
\<close>

theorem lsn_roundtrip:
  assumes "geom_ok log" "vbo < l_size log" "8 dvd vbo" "seq < 2 ^ seq_num_bits log"
  shows "lfs_lsn_to_vbo log (lfs_vbo_to_lsn log vbo seq) = vbo \<and>
    lfs_lsn_seq log (lfs_vbo_to_lsn log vbo seq) = seq"
proof (intro conjI)
  have "l_size log \<le> 2 ^ (file_data_bits log + 3)" using assms(1) by (simp add: geom_ok_def)
  with assms(2) have "vbo < 2 ^ (file_data_bits log + 3)" by linarith
  note eq = vbo_to_lsn_eq [OF assms(1) this assms(4)]
  show "lfs_lsn_to_vbo log (lfs_vbo_to_lsn log vbo seq) = vbo"
    using assms(3) eq by (simp add: lsn_to_vbo_eq [OF assms(1)])
  show "lfs_lsn_seq log (lfs_vbo_to_lsn log vbo seq) = seq"
    using eq by (simp add: lfs_lsn_seq_def)
qed

theorem lsn_roundtrip_witness:
  "lfs_lsn_to_vbo sample_geom (lfs_vbo_to_lsn sample_geom 16448 7) = 16448 \<and>
   lfs_lsn_seq sample_geom (lfs_vbo_to_lsn sample_geom 16448 7) = 7"
  using lsn_roundtrip [OF sample_geom_ok, of 16448 7] by simp

lemma align8: "x + 7 < 4294967296 \<Longrightarrow> x \<le> LF_ALIGN8 x \<and> LF_ALIGN8 x < x + 8 \<and> 8 dvd LF_ALIGN8 x"
proof -
  assume x: "x + 7 < 4294967296"
  have "LF_ALIGN8 x = x + 7 - (x + 7) mod 8" using and_not32_pow2 [of 3 "x + 7"] x by (simp add: LF_ALIGN8_def)
  moreover have "(x + 7) mod 8 \<le> 7" using mod_less_divisor [of 8 "x + 7"] by linarith
  moreover have "8 dvd x + 7 - (x + 7) mod 8" by (rule dvd_minus_mod)
  ultimately show ?thesis by auto
qed

section \<open>Where a record ends\<close>

text \<open>
  The reference: the position of the next data byte of the log, one byte at a time.  Data
  continues at \<open>data_off\<close> of the following page and wraps to the first log page.
\<close>

definition next_byte :: "('a) lfs_geom_scheme \<Rightarrow> nat \<Rightarrow> nat" where
  "next_byte log off =
     (if (off + 1) mod page_size log = 0 then lfs_next_page_off log off + data_off log else off + 1)"

lemma next_byte_in_page:
  assumes "off mod page_size log + k < page_size log"
  shows "(next_byte log ^^ k) off = off + k"
  using assms
proof (induction k)
  case (Suc k)
  have "(off + k + 1) mod page_size log = off mod page_size log + (k + 1)"
    using Suc.prems by (metis add.assoc add_Suc_right mod_add_left_eq mod_less add_Suc Suc_eq_plus1)
  then have "next_byte log (off + k) = off + k + 1" by (simp add: next_byte_def)
  with Suc show ?case by simp
qed simp

lemma page_fits:
  assumes "geom_ok log" "P mod page_size log = 0" "P < l_size log"
  shows "P + page_size log \<le> l_size log"
proof -
  obtain a b where ab: "P = a * page_size log" "l_size log = b * page_size log"
    using assms(2) geom_okD(5) [OF assms(1)] by (metis mod_0_imp_dvd dvd_def mult.commute)
  with assms(3) have "a < b" by simp
  then have "(a + 1) * page_size log \<le> b * page_size log" by (intro mult_le_mono1) simp
  then show ?thesis by (simp add: ab)
qed

lemma next_page_off_aligned:
  assumes "geom_ok log" "P mod page_size log = 0" "P < l_size log" "k < page_size log"
  shows "lfs_next_page_off log (P + k) =
      (if P + page_size log = l_size log then first_page log else P + page_size log)"
    and "lfs_next_page_off log P mod page_size log = 0" and "lfs_next_page_off log P < l_size log"
proof -
  let ?ps = "page_size log"
  note g = geom_page_size [OF assms(1)]
  have le: "P + ?ps \<le> l_size log" by (rule page_fits [OF assms(1-3)])
  have main: "lfs_next_page_off log (P + j) = (if P + ?ps = l_size log then first_page log else P + ?ps)"
    if "j < ?ps" for j
  proof -
    have "(P + j) mod ?ps = j" using assms(2) that by (metis add_0 mod_add_left_eq mod_less)
    moreover have "P + j < 4294967296" using le that g(8) by linarith
    ultimately have "and_not32 (P + j) (page_mask log) = P" using page_start [OF assms(1)] by simp
    moreover have "u32 (P + ?ps) = P + ?ps" using le g(8) by simp
    ultimately show ?thesis using le by (auto simp: lfs_next_page_off_def Let_def)
  qed
  show "lfs_next_page_off log (P + k) = (if P + ?ps = l_size log then first_page log else P + ?ps)"
    by (rule main [OF assms(4)])
  have p0: "0 < ?ps" using g(1) by linarith
  show "lfs_next_page_off log P mod ?ps = 0" "lfs_next_page_off log P < l_size log"
    using main [OF p0] g le assms(2) by (auto simp: mod_add_self2)
qed

lemma next_byte_page_end:
  assumes "geom_ok log" "P mod page_size log = 0" "P < l_size log"
  shows "next_byte log (P + page_size log - 1) = lfs_next_page_off log P + data_off log"
proof -
  let ?ps = "page_size log"
  have p0: "0 < ?ps" using geom_page_size(1) [OF assms(1)] by linarith
  then have e: "P + ?ps - 1 = P + (?ps - 1)" by simp
  have "(P + (?ps - 1) + 1) mod ?ps = 0" using assms(2) p0 by simp
  moreover have "lfs_next_page_off log (P + (?ps - 1)) = lfs_next_page_off log P"
    using next_page_off_aligned(1) [OF assms, of "?ps - 1"] next_page_off_aligned(1) [OF assms, of 0] p0
    by simp
  ultimately show ?thesis by (simp only: next_byte_def e simp_thms if_True)
qed

lemma final_walk_spec:
  assumes "geom_ok log" "fin mod page_size log = 0" "fin < l_size log" "0 < d"
    "tail = page_size log - data_off log"
  shows "\<exists>fin' d'. final_walk log fin d tail = Some (fin', d') \<and> 1 \<le> d' \<and> d' \<le> tail \<and>
    fin' mod page_size log = 0 \<and> fin' < l_size log \<and>
    (next_byte log ^^ d) (fin + page_size log - 1) = fin' + data_off log + d' - 1"
  using assms
proof (induction log fin d tail rule: final_walk.induct)
  case (1 log fin d tail)
  note g = geom_page_size [OF "1.prems"(1)]
  let ?ps = "page_size log" and ?n = "lfs_next_page_off log fin"
  have d0: "data_off log < ?ps" using g(7) by linarith
  note al = next_page_off_aligned [OF "1.prems"(1-3), of 0]
  have n: "?n mod ?ps = 0" "?n < l_size log" using al g(1) by auto
  have dm: "(?n + data_off log) mod ?ps = data_off log"
    using n(1) d0 by (metis add_0 mod_add_left_eq mod_less)
  have step: "(next_byte log ^^ k) (fin + ?ps - 1) = ?n + data_off log + k - 1" if "1 \<le> k" "k \<le> tail" for k
  proof -
    have "(next_byte log ^^ k) (fin + ?ps - 1) = (next_byte log ^^ (k - 1)) (next_byte log (fin + ?ps - 1))"
      using that(1) by (metis Suc_pred' funpow_simps_right(2) comp_apply One_nat_def Suc_le_lessD)
    also have "\<dots> = (next_byte log ^^ (k - 1)) (?n + data_off log)"
      by (simp only: next_byte_page_end [OF "1.prems"(1-3)])
    also have "\<dots> = ?n + data_off log + (k - 1)"
      using that dm "1.prems"(5) by (intro next_byte_in_page) simp
    finally show ?thesis using that(1) by simp
  qed
  show ?case
  proof (cases "d \<le> tail")
    case True
    then show ?thesis using step [of d] "1.prems"(4) n by (subst final_walk.simps) (simp add: Let_def)
  next
    case False
    have t0: "1 \<le> tail" using "1.prems"(5) g(7) by simp
    from "1.IH" [OF refl False _ "1.prems"(1) n _ "1.prems"(5)] t0 False obtain fin' d' where
      IH: "final_walk log ?n (d - tail) tail = Some (fin', d')" "1 \<le> d'" "d' \<le> tail"
      "fin' mod ?ps = 0" "fin' < l_size log"
      "(next_byte log ^^ (d - tail)) (?n + ?ps - 1) = fin' + data_off log + d' - 1" by auto
    have "(next_byte log ^^ d) (fin + ?ps - 1) =
        (next_byte log ^^ (d - tail)) ((next_byte log ^^ tail) (fin + ?ps - 1))"
      using False by (metis add_diff_inverse_nat comp_apply funpow_add less_imp_le_nat not_le
          le_add_diff_inverse2 linorder_not_less)
    also have "(next_byte log ^^ tail) (fin + ?ps - 1) = ?n + ?ps - 1"
      using step [OF t0 order_refl] "1.prems"(5) d0 by simp
    finally show ?thesis using IH t0 False by (subst final_walk.simps) (simp add: Let_def)
  qed
qed

lemma vbo_mod_eq:
  assumes "geom_ok log"
  shows "(lsn * 8) mod 2 ^ (file_data_bits log + 3) = lfs_lsn_to_vbo log lsn"
proof -
  have p8: "8 * 2 ^ file_data_bits log = (2::nat) ^ (file_data_bits log + 3)" by (simp add: power_add)
  show ?thesis
    by (simp only: p8 [symmetric] mult.commute [of _ 8] mult_mod_right lsn_to_vbo_eq [OF assms])
qed

lemma base_vbo_masked:
  assumes "geom_ok log"
  shows "u32 (lsn * 8) AND sub32 (u32 (8 * 2 ^ file_data_bits log)) 1 = lfs_lsn_to_vbo log lsn"
proof -
  let ?f = "file_data_bits log"
  have p8: "8 * 2 ^ ?f = (2::nat) ^ (?f + 3)" by (simp add: power_add)
  have f32: "?f + 3 \<le> 32" using geom_okD(10) [OF assms] by simp
  have mask: "sub32 (u32 (8 * 2 ^ ?f)) 1 = 2 ^ (?f + 3) - 1"
  proof (cases "?f + 3 = 32")
    case True
    show ?thesis unfolding p8 True by (simp add: u32_def sub32_def)
  next
    case False
    then have "(2::nat) ^ (?f + 3) \<le> 2 ^ 31" using f32 by (intro power_increasing) simp_all
    then have lt: "(2::nat) ^ (?f + 3) < 4294967296" by simp
    then show ?thesis unfolding p8 by (simp only: u32_id sub32_id one_le_power one_le_numeral)
  qed
  have "(2::nat) ^ (?f + 3) dvd 2 ^ 32" using f32 by (rule le_imp_power_dvd)
  then have "u32 (lsn * 8) mod 2 ^ (?f + 3) = (lsn * 8) mod 2 ^ (?f + 3)"
    by (simp add: u32_def mod_mod_cancel)
  then show ?thesis unfolding mask nat_and_mask_low vbo_mod_eq [OF assms] .
qed

lemma base_page_off:
  assumes "geom_ok log"
  shows "u32 (lsn * 8) AND page_mask log = lfs_lsn_to_vbo log lsn mod page_size log"
proof -
  let ?f = "file_data_bits log"
  note d = geom_okD [OF assms]
  have pb: "page_bits log \<le> ?f + 3"
  proof (rule ccontr)
    assume "\<not> page_bits log \<le> ?f + 3"
    then have "(2::nat) ^ (?f + 3) \<le> 2 ^ page_bits log" by (intro power_increasing) simp_all
    with d(3,6,11) geom_page_size(1) [OF assms] show False by linarith
  qed
  have "(2::nat) ^ page_bits log dvd 2 ^ (?f + 3)" using pb by (rule le_imp_power_dvd)
  then have "(lsn * 8) mod 2 ^ (?f + 3) mod page_size log = (lsn * 8) mod page_size log"
    unfolding d(3) by (rule mod_mod_cancel)
  moreover have "(2::nat) ^ page_bits log dvd 2 ^ 32" using d(2) by (intro le_imp_power_dvd) simp
  then have "u32 (lsn * 8) mod page_size log = (lsn * 8) mod page_size log"
    unfolding d(3) u32_def by (simp add: mod_mod_cancel)
  ultimately show ?thesis unfolding page_offset [OF assms] vbo_mod_eq [OF assms] by simp
qed

lemma u32_add_sub_one:
  assumes "1 \<le> a" "a + k \<le> 4294967296"
  shows "u32 (a + sub32 k 1) = a + k - 1"
proof (cases "k = 0")
  case True
  have "a + 4294967295 = (a - 1) + 4294967296" "a - 1 < 4294967296" using assms by linarith+
  then have "(a + 4294967295) mod 4294967296 = a - 1" by (simp only: mod_add_self2 mod_less)
  moreover have "sub32 0 1 = 4294967295" by (simp add: sub32_def)
  ultimately show ?thesis using True by (simp only: u32_def add_0_right)
next
  case False
  then have "1 \<le> k" "k < 4294967296" using assms by linarith+
  then have "sub32 k 1 = k - 1" by (rule sub32_id)
  moreover have "a + (k - 1) = a + k - 1" "a + k - 1 < 4294967296"
    using False assms by linarith+
  ultimately show ?thesis by (simp only: u32_id)
qed

lemma split_page:
  assumes "geom_ok log" "v < l_size log"
  obtains P k where "v = P + k" "k < page_size log" "k = v mod page_size log"
    "P mod page_size log = 0" "P < l_size log" "and_not32 v (page_mask log) = P"
proof
  have p0: "0 < page_size log" using geom_page_size(1) [OF assms(1)] by linarith
  let ?k = "v mod page_size log" and ?P = "v - v mod page_size log"
  show "v = ?P + ?k" "?k < page_size log" "?k = ?k" using p0 by simp_all
  show "?P mod page_size log = 0" unfolding minus_mod_eq_mult_div by simp
  show "?P < l_size log" using assms(2) by linarith
  have "v < 4294967296" using assms(2) geom_page_size(8) [OF assms(1)] by linarith
  then show "and_not32 v (page_mask log) = ?P" by (rule page_start [OF assms(1)])
qed

lemma final_log_off_eq:
  assumes "geom_ok log" "lfs_lsn_to_vbo log lsn < l_size log" "data_len + record_header_len log < 4294967296"
  shows "lfs_final_log_off log lsn data_len =
    Some ((next_byte log ^^ (data_len + record_header_len log - 1)) (lfs_lsn_to_vbo log lsn))"
proof -
  let ?ps = "page_size log" and ?v = "lfs_lsn_to_vbo log lsn"
  note g = geom_page_size [OF assms(1)] and d = geom_okD [OF assms(1)]
  define D where "D = data_len + record_header_len log"
  have D: "48 \<le> D" "D < 4294967296" "u32 D = D" using d(13) assms(3) by (auto simp: D_def)
  obtain P k where P: "?v = P + k" "k < ?ps" "k = ?v mod ?ps" "P mod ?ps = 0" "P < l_size log"
    "and_not32 ?v (page_mask log) = P" by (rule split_page [OF assms(1,2)])
  have tl: "sub32 ?ps k = ?ps - k" using P(2) g(2) by simp
  note fits = page_fits [OF assms(1) P(4,5)]
  have unf: "lfs_final_log_off log lsn data_len =
     (if D > ?ps - k then do {
          (fin', len') \<leftarrow> final_walk log P (sub32 D (?ps - k)) (sub32 ?ps (data_off log));
          Some (u32 (fin' + len' + sub32 (data_off log) 1)) }
        else Some (u32 (P + D + sub32 k 1)))"
    unfolding lfs_final_log_off_def Let_def base_vbo_masked [OF assms(1)] base_page_off [OF assms(1)]
      P(6) P(3) [symmetric] D_def [symmetric] D(3) tl ..
  show ?thesis
  proof (cases "D > ?ps - k")
    case True
    have s: "sub32 D (?ps - k) = D - (?ps - k)" "sub32 ?ps (data_off log) = ?ps - data_off log"
      using True D(2) g(2) d(16) by simp_all
    have "0 < D - (?ps - k)" using True by simp
    from final_walk_spec [OF assms(1) P(4,5) this refl] obtain fin' d' where
      w: "final_walk log P (D - (?ps - k)) (?ps - data_off log) = Some (fin', d')" "1 \<le> d'"
      "d' \<le> ?ps - data_off log" "fin' mod ?ps = 0" "fin' < l_size log"
      "(next_byte log ^^ (D - (?ps - k))) (P + ?ps - 1) = fin' + data_off log + d' - 1" by metis
    have "?v mod ?ps + (?ps - k - 1) < ?ps" using P(2) unfolding P(3) [symmetric] by linarith
    then have "(next_byte log ^^ (?ps - k - 1)) ?v = ?v + (?ps - k - 1)" by (rule next_byte_in_page)
    also have "\<dots> = P + ?ps - 1" unfolding P(1) using P(2) by linarith
    finally have "(next_byte log ^^ (?ps - k - 1)) ?v = P + ?ps - 1" .
    moreover have "D - 1 = (D - (?ps - k)) + (?ps - k - 1)" using True P(2) by linarith
    ultimately have e: "(next_byte log ^^ (D - 1)) ?v = fin' + data_off log + d' - 1"
      using w(6) by (simp only: funpow_add comp_apply)
    have "u32 (fin' + d' + sub32 (data_off log) 1) = fin' + d' + data_off log - 1"
      using page_fits [OF assms(1) w(4,5)] w(2,3) g(8) d(16) by (intro u32_add_sub_one) linarith+
    with e True show ?thesis unfolding unf s w(1) D_def [symmetric] by (simp add: ac_simps)
  next
    case False
    have "?v mod ?ps + (D - 1) < ?ps" using False D(1) P(2) unfolding P(3) [symmetric] by linarith
    then have "(next_byte log ^^ (D - 1)) ?v = ?v + (D - 1)" by (rule next_byte_in_page)
    moreover have "u32 (P + D + sub32 k 1) = P + D + k - 1"
      using False D(1) P(2) fits g(8) by (intro u32_add_sub_one) linarith+
    ultimately show ?thesis using False D(1) unfolding unf D_def [symmetric] P(1) by simp
  qed
qed

text \<open>
  C31.  \<open>lfs_final_log_off\<close> terminates and computes the position of the last byte of a record
  (header plus \<open>data_len\<close> client bytes) exactly as walking the log byte by byte would, across
  any number of page boundaries and the wrap to the first log page.  (Its comment calls the result the
  offset just past the client data; it is the offset of the last byte, one less.)
\<close>

theorem final_log_off_walk:
  assumes "geom_ok log" "lfs_lsn_to_vbo log lsn < l_size log" "data_len + record_header_len log < 4294967296"
  shows "lfs_final_log_off log lsn data_len =
    Some ((next_byte log ^^ (data_len + record_header_len log - 1)) (lfs_lsn_to_vbo log lsn))"
  using final_log_off_eq [OF assms] .

theorem final_log_off_walk_witness:
  "lfs_final_log_off sample_geom (7 * 2 ^ 15 + 2056) 9000 =
     Some ((next_byte sample_geom ^^ 9047) (lfs_lsn_to_vbo sample_geom (7 * 2 ^ 15 + 2056)))"
  using final_log_off_walk [OF sample_geom_ok, of "7 * 2 ^ 15 + 2056" 9000]
  by (simp add: lsn_to_vbo_eq [OF sample_geom_ok])

end
