(* ===== verification/Lfs_Tables.thy ===== *)
theory Lfs_Tables
  imports Lfs_State
begin

text \<open>
  Restart tables (core/logfile/logfile_tables.c): a byte buffer with a header and fixed-size
  entries, whose free entries are chained through their first word.  A table whose \<open>buf\<close> may
  be NULL is a \<open>buf option\<close>; functions that dereference \<open>buf\<close> unconditionally take the
  buffer.  The \<open>bytes\<close> field always is the length of the buffer.  Pointers to entries are
  offsets.

  The first half is the code.  The second half gives the invariant (\<open>table_wf\<close>), which names
  the free list explicitly, and shows that the operations implement an abstract allocator.
\<close>

section \<open>The code\<close>

definition table_bytes :: "buf \<Rightarrow> nat option" where
  "table_bytes rt = do {
     ne \<leftarrow> lf_get16 rt RT_NUMBER_ENTRIES;
     es \<leftarrow> lf_get16 rt RT_ENTRY_SIZE;
     Some (u32 (RT_HEADER_SIZE + ne * es)) }"

definition lfs_table_esize :: "buf \<Rightarrow> nat option" where
  "lfs_table_esize t = lf_get16 t RT_ENTRY_SIZE"

definition lfs_table_total :: "buf option \<Rightarrow> nat option" where
  "lfs_table_total t = (case t of None \<Rightarrow> Some 0 | Some b \<Rightarrow> lf_get16 b RT_NUMBER_ALLOCATED)"

definition lfs_table_entry_ok :: "buf option \<Rightarrow> nat \<Rightarrow> bool option" where
  "lfs_table_entry_ok t off = (case t of None \<Rightarrow> Some False | Some b \<Rightarrow>
     if off < RT_HEADER_SIZE then Some False
     else do {
       es \<leftarrow> lfs_table_esize b;
       if u32 (off + es) \<le> length b then do {
         v \<leftarrow> lf_get32 b off;
         Some (v = RT_ENTRY_ALLOCATED) }
       else Some False })"

text \<open>The two loops of \<open>lfs_table_check\<close>: every entry's first word, then the free list.\<close>

primrec check_entries :: "buf \<Rightarrow> nat \<Rightarrow> nat list \<Rightarrow> bool option" where
  "check_entries rt rsize [] = Some True"
| "check_entries rt rsize (i # is) = do {
     off \<leftarrow> lf_get32 rt (RT_HEADER_SIZE + i * rsize);
     if off \<noteq> RT_ENTRY_ALLOCATED \<and> off \<noteq> 0 \<and>
        (off < RT_HEADER_SIZE \<or> (off - RT_HEADER_SIZE) mod rsize \<noteq> 0)
     then Some False
     else check_entries rt rsize is }"

function check_free_list :: "buf \<Rightarrow> nat \<Rightarrow> nat \<Rightarrow> nat \<Rightarrow> nat \<Rightarrow> bool option" where
  "check_free_list rt ts ne off guard =
     (if off = 0 then Some True
      else if off = RT_ENTRY_ALLOCATED \<or> guard > ne then Some False
      else do {
        off' \<leftarrow> lf_get32 rt off;
        if off' > ts - 4 then Some False
        else check_free_list rt ts ne off' (guard + 1) })"
  by pat_completeness auto
termination
  by (relation "measure (\<lambda>(rt, ts, ne, off, guard). Suc ne - guard)") auto

declare check_free_list.simps [simp del]

definition lfs_table_check :: "buf \<Rightarrow> nat \<Rightarrow> bool option" where
  "lfs_table_check rt bytes =
     (if bytes < RT_HEADER_SIZE then Some False
      else do {
        rsize \<leftarrow> lf_get16 rt RT_ENTRY_SIZE;
        ne \<leftarrow> lf_get16 rt RT_NUMBER_ENTRIES;
        ff \<leftarrow> lf_get32 rt RT_FIRST_FREE;
        lf \<leftarrow> lf_get32 rt RT_LAST_FREE;
        na \<leftarrow> lf_get16 rt RT_NUMBER_ALLOCATED;
        let ts = u32 (RT_HEADER_SIZE + rsize * ne);
        if rsize = 0 \<or> rsize < 4 \<or> rsize > bytes \<or> bytes < ts \<or> na > ne \<or>
           ff > sub32 ts 4 \<or> lf > sub32 ts 4 \<or>
           (ff \<noteq> 0 \<and> ff < RT_HEADER_SIZE) \<or> (lf \<noteq> 0 \<and> lf < RT_HEADER_SIZE)
        then Some False
        else do {
          ok \<leftarrow> check_entries rt rsize [0..<ne];
          if \<not> ok then Some False else check_free_list rt ts ne ff 0 } })"

definition lfs_table_copy :: "buf option \<Rightarrow> buf \<Rightarrow> nat \<Rightarrow> (int \<times> buf option) option" where
  "lfs_table_copy t src bytes = do {
     need \<leftarrow> table_bytes src;
     if need > bytes then Some (- EINVAL, t)
     else do {
       b \<leftarrow> slice src 0 need;
       Some (0, Some b) } }"

primrec init_links :: "nat \<Rightarrow> nat list \<Rightarrow> buf \<Rightarrow> buf option" where
  "init_links esize [] b = Some b"
| "init_links esize (i # is) b = do {
     b' \<leftarrow> lf_put32 b (RT_HEADER_SIZE + i * esize) (u32 (RT_HEADER_SIZE + i * esize + esize));
     init_links esize is b' }"

definition lfs_table_init :: "nat \<Rightarrow> nat \<Rightarrow> buf option" where
  "lfs_table_init esize used = (
     let bytes = u32 (RT_HEADER_SIZE + esize * used);
         lf = u32 (RT_HEADER_SIZE + sub32 used 1 * esize)
     in do {
       b \<leftarrow> lf_put16 (replicate bytes 0) RT_ENTRY_SIZE esize;
       b \<leftarrow> lf_put16 b RT_NUMBER_ENTRIES used;
       b \<leftarrow> lf_put32 b RT_FREE_GOAL 0xffffffff;
       b \<leftarrow> lf_put32 b RT_FIRST_FREE RT_HEADER_SIZE;
       b \<leftarrow> lf_put32 b RT_LAST_FREE lf;
       init_links esize [0..<used - 1] b })"

text \<open>
  The next allocated entry at or after offset \<open>e\<close>.  The loop does not advance when the entry
  size is 0; that case is \<open>None\<close>.  \<open>e + rsize\<close> does not wrap: a table has at most
  \<open>24 + 65535 * 65535\<close> bytes.
\<close>

function table_next_from :: "buf \<Rightarrow> nat \<Rightarrow> nat \<Rightarrow> nat option option" where
  "table_next_from b rsize e =
     (if e + rsize \<le> length b then do {
        v \<leftarrow> lf_get32 b e;
        if v = RT_ENTRY_ALLOCATED then Some (Some e)
        else if rsize = 0 then None
        else table_next_from b rsize (e + rsize) }
      else Some None)"
  by pat_completeness auto
termination
  by (relation "measure (\<lambda>(b, rsize, e). Suc (length b) - e)") auto

declare table_next_from.simps [simp del]

definition lfs_table_next :: "buf option \<Rightarrow> nat option \<Rightarrow> nat option option" where
  "lfs_table_next t cur = (case t of None \<Rightarrow> Some None | Some b \<Rightarrow> do {
     total \<leftarrow> lfs_table_total t;
     if total = 0 then Some None
     else do {
       rsize \<leftarrow> lfs_table_esize b;
       table_next_from b rsize (case cur of Some c \<Rightarrow> c + rsize | None \<Rightarrow> RT_HEADER_SIZE) } })"

definition table_extend :: "buf \<Rightarrow> nat \<Rightarrow> nat \<Rightarrow> (int \<times> buf) option" where
  "table_extend t add free_goal_entry = do {
     esize \<leftarrow> lfs_table_esize t;
     used \<leftarrow> lf_get16 t RT_NUMBER_ENTRIES;
     if u32 (used + add) > 0xffff then Some (- E2BIG, t)
     else do {
       nt \<leftarrow> lfs_table_init esize (u32 (used + add));
       old \<leftarrow> slice t RT_HEADER_SIZE (esize * used);
       nt \<leftarrow> blit nt RT_HEADER_SIZE old;
       nt \<leftarrow> lf_put32 nt RT_FREE_GOAL
              (if free_goal_entry = 0xffffffff then 0xffffffff
               else u32 (RT_HEADER_SIZE + u32 (free_goal_entry * esize)));
       ff \<leftarrow> lf_get32 t RT_FIRST_FREE;
       nt \<leftarrow> (if ff \<noteq> 0 then do {
                nt \<leftarrow> lf_put32 nt RT_FIRST_FREE ff;
                lf \<leftarrow> lf_get32 t RT_LAST_FREE;
                lf_put32 nt lf (length t) }
              else lf_put32 nt RT_FIRST_FREE (length t));
       na \<leftarrow> lf_get16 t RT_NUMBER_ALLOCATED;
       nt \<leftarrow> lf_put16 nt RT_NUMBER_ALLOCATED na;
       Some (0, nt) } }"

definition lfs_table_alloc :: "buf \<Rightarrow> (buf \<times> nat option) option" where
  "lfs_table_alloc t = do {
     ff \<leftarrow> lf_get32 t RT_FIRST_FREE;
     (err, t) \<leftarrow> (if ff = 0 then table_extend t 16 0xffffffff else Some (0, t));
     if err \<noteq> 0 then Some (t, None)
     else do {
       off \<leftarrow> lf_get32 t RT_FIRST_FREE;
       esize \<leftarrow> lfs_table_esize t;
       if off < RT_HEADER_SIZE \<or> u32 (off + esize) > length t then Some (t, None)
       else do {
         nxt \<leftarrow> lf_get32 t off;
         t \<leftarrow> lf_put32 t RT_FIRST_FREE nxt;
         t \<leftarrow> memset0 t off esize;
         t \<leftarrow> lf_put32 t off RT_ENTRY_ALLOCATED;
         ff \<leftarrow> lf_get32 t RT_FIRST_FREE;
         t \<leftarrow> (if ff = 0 then lf_put32 t RT_LAST_FREE 0 else Some t);
         na \<leftarrow> lf_get16 t RT_NUMBER_ALLOCATED;
         t \<leftarrow> lf_put16 t RT_NUMBER_ALLOCATED (na + 1);
         Some (t, Some off) } } }"

text \<open>
  The search for the predecessor of \<open>vbo\<close> on the free list: the entry whose link is \<open>vbo\<close>, or
  no result when the list ends or the guard trips.
\<close>

function find_prev :: "buf \<Rightarrow> nat \<Rightarrow> nat \<Rightarrow> nat \<Rightarrow> nat option option" where
  "find_prev b vbo prev_off guard =
     (if prev_off = 0 then Some None
      else do {
        off \<leftarrow> lf_get32 b prev_off;
        if off = vbo then Some (Some prev_off)
        else if guard + 1 > 0x10000 then Some None
        else find_prev b vbo off (guard + 1) })"
  by pat_completeness auto
termination
  by (relation "measure (\<lambda>(b, vbo, prev_off, guard). 0x10000 - guard)") auto

declare find_prev.simps [simp del]

definition alloc_at_unlink :: "buf \<Rightarrow> nat \<Rightarrow> buf option option" where
  "alloc_at_unlink t vbo = do {
     off \<leftarrow> lf_get32 t RT_FIRST_FREE;
     nxt \<leftarrow> lf_get32 t vbo;
     if off = vbo then do {
       t \<leftarrow> lf_put32 t RT_FIRST_FREE nxt;
       Some (Some t) }
     else do {
       prev \<leftarrow> find_prev t vbo off 0;
       case prev of None \<Rightarrow> Some None
       | Some prev_off \<Rightarrow> do {
           t \<leftarrow> lf_put32 t prev_off nxt;
           lf \<leftarrow> lf_get32 t RT_LAST_FREE;
           t \<leftarrow> (if lf = vbo then lf_put32 t RT_LAST_FREE prev_off else Some t);
           Some (Some t) } } }"

definition lfs_table_alloc_at :: "buf \<Rightarrow> nat \<Rightarrow> (buf \<times> nat option) option" where
  "lfs_table_alloc_at t vbo = do {
     esize \<leftarrow> lfs_table_esize t;
     if vbo < RT_HEADER_SIZE then Some (t, None)
     else if esize = 0 then None
     else if (vbo - RT_HEADER_SIZE) mod esize \<noteq> 0 then Some (t, None)
     else do {
       (err, t) \<leftarrow>
         (if vbo \<ge> length t then do {
            old_entries \<leftarrow> lf_get16 t RT_NUMBER_ENTRIES;
            table_extend t ((vbo - length t) div esize + 1) old_entries }
          else Some (0, t));
       if err \<noteq> 0 then Some (t, None)
       else do {
         v \<leftarrow> lf_get32 t vbo;
         if v = RT_ENTRY_ALLOCATED then Some (t, Some vbo)
         else do {
           un \<leftarrow> alloc_at_unlink t vbo;
           case un of None \<Rightarrow> Some (t, None)
           | Some t \<Rightarrow> do {
               ff \<leftarrow> lf_get32 t RT_FIRST_FREE;
               t \<leftarrow> (if ff = 0 then lf_put32 t RT_LAST_FREE 0 else Some t);
               t \<leftarrow> memset0 t vbo esize;
               t \<leftarrow> lf_put32 t vbo RT_ENTRY_ALLOCATED;
               na \<leftarrow> lf_get16 t RT_NUMBER_ALLOCATED;
               t \<leftarrow> lf_put16 t RT_NUMBER_ALLOCATED (na + 1);
               Some (t, Some vbo) } } } } }"

definition lfs_table_free_idx :: "buf \<Rightarrow> nat \<Rightarrow> buf option" where
  "lfs_table_free_idx t off = do {
     lf \<leftarrow> lf_get32 t RT_LAST_FREE;
     ok \<leftarrow> lfs_table_entry_ok (Some t) off;
     if \<not> ok then Some t
     else do {
       goal \<leftarrow> lf_get32 t RT_FREE_GOAL;
       t \<leftarrow> (if off < goal then do {
               ff \<leftarrow> lf_get32 t RT_FIRST_FREE;
               t \<leftarrow> lf_put32 t off ff;
               t \<leftarrow> lf_put32 t RT_FIRST_FREE off;
               if lf = 0 then lf_put32 t RT_LAST_FREE off else Some t }
             else do {
               t \<leftarrow> (if lf \<noteq> 0 then lf_put32 t lf off else lf_put32 t RT_FIRST_FREE off);
               t \<leftarrow> lf_put32 t RT_LAST_FREE off;
               lf_put32 t off 0 });
       na \<leftarrow> lf_get16 t RT_NUMBER_ALLOCATED;
       lf_put16 t RT_NUMBER_ALLOCATED (na + 0xffff) } }"

section \<open>The table invariant\<close>

text \<open>
  \<open>table_wf es ne b fl\<close>: \<open>b\<close> is a table of \<open>ne\<close> entries of \<open>es\<close> bytes whose free list
  holds the entries with the indices \<open>fl\<close>, in that order; all others are allocated.
\<close>

definition slot :: "nat \<Rightarrow> nat \<Rightarrow> nat" where
  "slot es i = RT_HEADER_SIZE + i * es"

definition nxt_of :: "nat \<Rightarrow> nat list \<Rightarrow> nat" where
  "nxt_of es fl = (case fl of [] \<Rightarrow> 0 | j # _ \<Rightarrow> slot es j)"

primrec links :: "nat \<Rightarrow> buf \<Rightarrow> nat list \<Rightarrow> bool" where
  "links es b [] = True"
| "links es b (i # is) = (get_le 4 b (slot es i) = Some (nxt_of es is) \<and> links es b is)"

definition last_of :: "nat \<Rightarrow> nat list \<Rightarrow> nat" where
  "last_of es fl = (if fl = [] then 0 else slot es (last fl))"

definition table_shape :: "nat \<Rightarrow> nat \<Rightarrow> buf \<Rightarrow> bool" where
  "table_shape es ne b \<longleftrightarrow> 4 \<le> es \<and> es < 65536 \<and> ne < 65536 \<and> length b = slot es ne \<and>
     get_le 2 b RT_ENTRY_SIZE = Some es \<and> get_le 2 b RT_NUMBER_ENTRIES = Some ne"

definition table_lists :: "nat \<Rightarrow> nat \<Rightarrow> buf \<Rightarrow> nat list \<Rightarrow> bool" where
  "table_lists es ne b fl \<longleftrightarrow>
     get_le 4 b RT_FIRST_FREE = Some (nxt_of es fl) \<and> get_le 4 b RT_LAST_FREE = Some (last_of es fl) \<and>
     distinct fl \<and> (\<forall>i\<in>set fl. i < ne) \<and> links es b fl \<and>
     (\<forall>i<ne. i \<notin> set fl \<longrightarrow> get_le 4 b (slot es i) = Some RT_ENTRY_ALLOCATED)"

definition table_wf :: "nat \<Rightarrow> nat \<Rightarrow> buf \<Rightarrow> nat list \<Rightarrow> bool" where
  "table_wf es ne b fl \<longleftrightarrow> table_shape es ne b \<and> table_lists es ne b fl \<and>
     get_le 2 b RT_NUMBER_ALLOCATED = Some (ne - length fl)"

text \<open>What the client stores in entry \<open>i\<close>: everything behind the allocation word.\<close>

definition entry_payload :: "nat \<Rightarrow> buf \<Rightarrow> nat \<Rightarrow> buf option" where
  "entry_payload es b i = slice b (slot es i + 4) (es - 4)"

lemma slot_ge [simp]: "24 \<le> slot es i"
  by (simp add: slot_def)

lemma slot_nz [simp]: "slot es i \<noteq> 0" "0 < slot es i"
  by (simp_all add: slot_def)

lemma slot_next: "i < j \<Longrightarrow> slot es i + es \<le> slot es j"
proof -
  assume "i < j"
  then have "(i + 1) * es \<le> j * es" by (intro mult_le_mono1) simp
  then show ?thesis by (simp add: slot_def)
qed

lemma slot_disjoint: "i \<noteq> j \<Longrightarrow> slot es i + es \<le> slot es j \<or> slot es j + es \<le> slot es i"
  using slot_next [of i j es] slot_next [of j i es] by linarith

lemma slot_inject: "0 < es \<Longrightarrow> slot es i = slot es j \<longleftrightarrow> i = j"
  by (auto simp: slot_def)

lemma slot_bound: "es < 65536 \<Longrightarrow> i < 65536 \<Longrightarrow> slot es i \<le> 4294836249"
proof -
  assume "es < 65536" "i < 65536"
  then have "i * es \<le> 65535 * 65535" by (intro mult_le_mono) simp_all
  then show ?thesis by (simp add: slot_def)
qed

lemma nxt_of_simps [simp]: "nxt_of es [] = 0" "nxt_of es (i # is) = slot es i"
  by (simp_all add: nxt_of_def)

lemma nxt_of_eq_0 [simp]: "nxt_of es fl = 0 \<longleftrightarrow> fl = []"
  by (cases fl) simp_all

lemma links_cong:
  "(\<And>i. i \<in> set fl \<Longrightarrow> get_le 4 b' (slot es i) = get_le 4 b (slot es i)) \<Longrightarrow> links es b' fl = links es b fl"
  by (induction fl) auto

lemma table_shapeD:
  assumes "table_shape es ne b"
  shows "4 \<le> es" "es < 65536" "ne < 65536" "length b = slot es ne"
    "get_le 2 b 0 = Some es" "get_le 2 b 2 = Some ne" "24 \<le> length b" "length b \<le> 4294836249"
proof -
  show d: "4 \<le> es" "es < 65536" "ne < 65536" "length b = slot es ne"
    "get_le 2 b 0 = Some es" "get_le 2 b 2 = Some ne" using assms by (simp_all add: table_shape_def)
  show "24 \<le> length b" "length b \<le> 4294836249" using d(4) slot_bound [OF d(2,3)] by simp_all
qed

lemma slot_in_table:
  assumes "table_shape es ne b" "i < ne"
  shows "slot es i + es \<le> length b" "slot es i < 4294967296" "u32 (slot es i + es) \<le> length b"
proof -
  note d = table_shapeD [OF assms(1)]
  show s: "slot es i + es \<le> length b" using slot_next [OF assms(2)] d(4) by simp
  then show "slot es i < 4294967296" "u32 (slot es i + es) \<le> length b" using d(8) by simp_all
qed

lemma table_shape_cong:
  assumes "table_shape es ne b" "length b' = length b"
    "get_le 2 b' 0 = get_le 2 b 0" "get_le 2 b' 2 = get_le 2 b 2"
  shows "table_shape es ne b'"
  using assms by (simp add: table_shape_def)

lemma table_listsD:
  assumes "table_lists es ne b fl"
  shows "get_le 4 b 16 = Some (nxt_of es fl)" "get_le 4 b 20 = Some (last_of es fl)" "distinct fl"
    "\<And>i. i \<in> set fl \<Longrightarrow> i < ne" "links es b fl"
    "\<And>i. i < ne \<Longrightarrow> i \<notin> set fl \<Longrightarrow> get_le 4 b (slot es i) = Some RT_ENTRY_ALLOCATED"
  using assms by (auto simp: table_lists_def)

lemma nxt_of_less:
  assumes "table_shape es ne b" "\<And>i. i \<in> set fl \<Longrightarrow> i < ne"
  shows "nxt_of es fl mod 4294967296 = nxt_of es fl"
  using slot_in_table(2) [OF assms(1)] assms(2) by (cases fl) simp_all

lemma free_list_length:
  assumes "table_lists es ne b fl"
  shows "length fl \<le> ne"
proof -
  note d = table_listsD [OF assms]
  have "card (set fl) \<le> card {..<ne}" by (rule card_mono) (use d(4) in auto)
  then show ?thesis using distinct_card [OF d(3)] by simp
qed

text \<open>Updates inside one entry leave the header and the other entries alone.\<close>

lemma slot_frame:
  assumes "i \<noteq> j" "4 \<le> es" "k \<le> es" "m \<le> es"
  shows "slot es i + k \<le> slot es j \<or> slot es j + m \<le> slot es i"
  using slot_disjoint [OF assms(1), of es] assms(2-4) by linarith

lemma get_put_slot:
  assumes "put_le 4 b (slot es j) v = Some b'" "4 \<le> es"
  shows "get_le 4 b' (slot es i) = (if i = j then Some (v mod 4294967296) else get_le 4 b (slot es i))"
  using get_put_le_same [OF assms(1)]
    get_put_le_other [OF assms(1), of "slot es i" 4] slot_frame [of i j es 4 4] assms(2) by auto

lemma get_put_slot_header:
  "put_le 4 b (slot es j) v = Some b' \<Longrightarrow> q + m \<le> 24 \<Longrightarrow> get_le m b' q = get_le m b q"
  by (rule get_put_le_other, assumption) (use slot_ge [of es j] in linarith)

lemma get_put_header_slot:
  "put_le k b p v = Some b' \<Longrightarrow> p + k \<le> 24 \<Longrightarrow> get_le m b' (slot es i) = get_le m b (slot es i)"
  by (rule get_put_le_other, assumption) (use slot_ge [of es i] in linarith)

lemma payload_put_slot:
  assumes "put_le 4 b (slot es j) v = Some b'" "4 \<le> es"
  shows "entry_payload es b' i = entry_payload es b i"
proof -
  have "slot es i + 4 + (es - 4) \<le> slot es j \<or> slot es j + 4 \<le> slot es i + 4"
    using slot_disjoint [of i j es] assms(2) by (cases "i = j") auto
  then show ?thesis
    using assms by (simp add: entry_payload_def put_le_def slice_blit_other)
qed

lemma payload_put_header:
  assumes "put_le k b p v = Some b'" "p + k \<le> 24"
  shows "entry_payload es b' i = entry_payload es b i"
proof -
  have "p + k \<le> slot es i + 4" using assms(2) slot_ge [of es i] by linarith
  then show ?thesis using assms(1) by (simp add: entry_payload_def put_le_def slice_blit_other)
qed

lemmas slot_updates = get_put_slot get_put_slot_header get_put_header_slot payload_put_slot payload_put_header

lemma memset0_slot:
  assumes "memset0 b (slot es j) es = Some b'" "4 \<le> es"
  shows "i \<noteq> j \<Longrightarrow> get_le 4 b' (slot es i) = get_le 4 b (slot es i)"
    and "i \<noteq> j \<Longrightarrow> entry_payload es b' i = entry_payload es b i"
    and "entry_payload es b' j = Some (replicate (es - 4) 0)"
    and "q + m \<le> 24 \<Longrightarrow> get_le m b' q = get_le m b q"
proof -
  have bl: "blit b (slot es j) (replicate es 0) = Some b'" using assms(1) by (simp add: memset0_def)
  show "get_le 4 b' (slot es i) = get_le 4 b (slot es i)" if "i \<noteq> j"
    using slot_frame [OF that assms(2), of 4 es] assms(2) by (intro get_blit_other [OF bl]) simp
  show "entry_payload es b' i = entry_payload es b i" if "i \<noteq> j"
    unfolding entry_payload_def using slot_disjoint [OF that, of es] assms(2)
    by (intro slice_blit_other [OF bl]) auto
  show "entry_payload es b' j = Some (replicate (es - 4) 0)"
  proof -
    have l: "slot es j + es \<le> length b'" using blit_bound [OF bl] length_blit [OF bl] by simp
    have "take (es - 4) (drop (slot es j + 4) b') = replicate (es - 4) 0"
      using l assms(2) length_blit [OF bl] by (intro nth_equalityI) (auto simp: nth_blit [OF bl])
    with l assms(2) show ?thesis by (simp add: entry_payload_def slice_def)
  qed
  show "get_le m b' q = get_le m b q" if "q + m \<le> 24"
    using that slot_ge [of es j] by (intro get_blit_other [OF bl]) linarith
qed

section \<open>Allocation and release\<close>

lemma table_wfD:
  assumes "table_wf es ne b fl"
  shows "table_shape es ne b" "table_lists es ne b fl" "get_le 2 b 4 = Some (ne - length fl)"
  using assms by (simp_all add: table_wf_def)

lemma table_wf_claim:
  assumes "table_wf es ne b fl" "i \<in> set fl" "table_shape es ne b'"
    "get_le 4 b' 16 = Some (nxt_of es (remove1 i fl))" "get_le 4 b' 20 = Some (last_of es (remove1 i fl))"
    "links es b' (remove1 i fl)" "get_le 2 b' 4 = Some (ne - length fl + 1)"
    "get_le 4 b' (slot es i) = Some RT_ENTRY_ALLOCATED"
    "\<And>j. j \<notin> set fl \<Longrightarrow> get_le 4 b' (slot es j) = get_le 4 b (slot es j)"
  shows "table_wf es ne b' (remove1 i fl)"
proof -
  note d = table_listsD [OF table_wfD(2) [OF assms(1)]]
  have len: "length fl \<le> ne" by (rule free_list_length [OF table_wfD(2) [OF assms(1)]])
  have l: "length (remove1 i fl) = length fl - 1" using assms(2) by (simp add: length_remove1)
  have "0 < length fl" using assms(2) by (cases fl) auto
  then have "ne - length fl + 1 = ne - length (remove1 i fl)" using len l by linarith
  moreover have "table_lists es ne b' (remove1 i fl)"
    unfolding table_lists_def using assms(4-6,8,9) d(3,4,6)
    by (auto simp: set_remove1_eq distinct_remove1)
  ultimately show ?thesis using assms(3,7) by (simp add: table_wf_def)
qed

lemma na_less:
  assumes "table_wf es ne b fl" "fl \<noteq> []"
  shows "(ne - length fl + 1) mod 65536 = ne - length fl + 1"
proof -
  have "ne < 65536" "1 \<le> length fl" "length fl \<le> ne"
    using table_shapeD(3) [OF table_wfD(1) [OF assms(1)]] assms(2)
      free_list_length [OF table_wfD(2) [OF assms(1)]] by (simp_all add: Suc_leI)
  then have "ne - length fl + 1 < 65536" by linarith
  then show ?thesis by (rule mod_less)
qed

lemma alloc_head:
  assumes "table_wf es ne b (i # is)"
  shows "\<exists>b'. lfs_table_alloc b = Some (b', Some (slot es i)) \<and> table_wf es ne b' is \<and>
    entry_payload es b' i = Some (replicate (es - 4) 0) \<and>
    (\<forall>j. j \<noteq> i \<longrightarrow> entry_payload es b' j = entry_payload es b j)"
proof -
  note w = table_wfD [OF assms] and sh = table_shapeD [OF table_wfD(1) [OF assms]]
    and li = table_listsD [OF table_wfD(2) [OF assms]]
  have i: "i < ne" using li(4) by simp
  have lnk: "get_le 4 b (slot es i) = Some (nxt_of es is)" "links es b is" using li(5) by simp_all
  note si = slot_in_table [OF w(1) i]
  have nx: "nxt_of es is mod 4294967296 = nxt_of es is"
    using li(4) by (intro nxt_of_less [OF w(1)]) simp
  obtain b1 where b1: "put_le 4 b 16 (nxt_of es is) = Some b1" using put_le_ok sh(7) by fastforce
  note l1 = length_put_le [OF b1]
  obtain b2 where b2: "memset0 b1 (slot es i) es = Some b2"
    using si(1) l1 by (metis blit_ok memset0_def length_replicate)
  note l2 = length_memset0 [OF b2]
  obtain b3 where b3: "put_le 4 b2 (slot es i) RT_ENTRY_ALLOCATED = Some b3"
    using put_le_ok [of "slot es i" 4 b2] si(1) sh(1) l1 l2 by fastforce
  note l3 = length_put_le [OF b3]
  obtain b4 where b4: "(if is = [] then put_le 4 b3 20 0 else Some b3) = Some b4"
    using put_le_ok [of 20 4 b3] sh(7) l1 l2 l3 by fastforce
  have l4: "length b4 = length b3" using b4 by (auto split: if_splits dest: length_put_le)
  obtain b5 where b5: "put_le 2 b4 4 (ne - length (i # is) + 1) = Some b5"
    using put_le_ok [of 4 2 b4] sh(7) l1 l2 l3 l4 by fastforce
  note l5 = length_put_le [OF b5]
  note up = slot_updates [OF b3] memset0_slot [OF b2 sh(1)] get_put_le_same [OF b1] get_put_le_other [OF b1]
    get_put_le_same [OF b3] get_put_le_same [OF b5] get_put_le_other [OF b5]
    get_put_header_slot [OF b5] get_put_header_slot [OF b1]
  have h4: "get_le m b4 q = get_le m b3 q" if "q + m \<le> 20 \<or> 24 \<le> q" for m q
    using b4 that by (auto split: if_splits dest: get_put_le_other)
  have p4: "entry_payload es b4 j = entry_payload es b3 j" for j
    using b4 by (auto split: if_splits dest: payload_put_header)
  have ff: "get_le 4 b3 16 = Some (nxt_of es is)" by (simp add: up nx)
  have na: "get_le 2 b4 4 = Some (ne - length (i # is))" using w(3) by (simp add: h4 up)
  have e: "lfs_table_alloc b = Some (b5, Some (slot es i))"
    unfolding lfs_table_alloc_def lfs_table_esize_def lf_defs
    using li(1) lnk(1) b1 b2 b3 b4 b5 ff na sh(5) si(3) slot_ge [of es i]
    by (auto simp: not_less)
  have wf: "table_wf es ne b5 (remove1 i (i # is))"
  proof (rule table_wf_claim [OF assms])
    show "table_shape es ne b5" using l1 l2 l3 l4 l5
      by (intro table_shape_cong [OF w(1)]) (simp_all add: up h4)
    show "get_le 4 b5 16 = Some (nxt_of es (remove1 i (i # is)))" by (simp add: up h4 nx)
    show "get_le 2 b5 4 = Some (ne - length (i # is) + 1)"
      using na_less [OF assms] by (simp only: up) simp
    have fr: "get_le 4 b5 (slot es j) = get_le 4 b (slot es j)" if "j \<noteq> i" for j
      using that sh(1) by (simp add: up h4)
    show "links es b5 (remove1 i (i # is))"
      using lnk(2) li(3) links_cong [of "is" b5 es b] fr by fastforce
    show "get_le 4 b5 (slot es i) = Some RT_ENTRY_ALLOCATED"
      using sh(1) by (simp add: up h4)
    show "get_le 4 b5 (slot es j) = get_le 4 b (slot es j)" if "j \<notin> set (i # is)" for j
      using that fr by simp
    show "get_le 4 b5 20 = Some (last_of es (remove1 i (i # is)))"
    proof (cases "is = []")
      case True
      then have "get_le 4 b4 20 = Some 0" using b4 get_put_le_same [of 4 b3 20 0 b4] by simp
      with True show ?thesis by (simp add: get_put_le_other [OF b5] last_of_def)
    next
      case False
      then have "b4 = b3" using b4 by simp
      with False show ?thesis using li(2) by (simp add: up last_of_def)
    qed
  qed simp
  have "entry_payload es b5 j = entry_payload es b4 j" for j by (rule payload_put_header [OF b5]) simp
  then have "entry_payload es b5 i = Some (replicate (es - 4) 0)"
    "\<forall>j. j \<noteq> i \<longrightarrow> entry_payload es b5 j = entry_payload es b j"
    using sh(1) by (simp_all add: p4 up payload_put_header [OF b1])
  with e wf show ?thesis by auto
qed

section \<open>Initialisation and extension\<close>

lemma init_links_spec:
  assumes "4 \<le> es" "\<forall>i\<in>set is. slot es i + 4 \<le> length b \<and> slot es (i + 1) < 4294967296" "distinct is"
  shows "\<exists>b'. init_links es is b = Some b' \<and> length b' = length b \<and>
    (\<forall>i. get_le 4 b' (slot es i) = (if i \<in> set is then Some (slot es (i + 1)) else get_le 4 b (slot es i))) \<and>
    (\<forall>q m. q + m \<le> 24 \<longrightarrow> get_le m b' q = get_le m b q)"
  using assms(2,3)
proof (induction "is" arbitrary: b)
  case (Cons i "is")
  have s: "RT_HEADER_SIZE + i * es = slot es i" "u32 (slot es i + es) = slot es (i + 1)"
    using Cons.prems(1) by (simp_all add: slot_def add.assoc add.commute)
  obtain b1 where b1: "put_le 4 b (slot es i) (slot es (i + 1)) = Some b1"
    using Cons.prems(1) put_le_ok by fastforce
  have "\<forall>j\<in>set is. slot es j + 4 \<le> length b1 \<and> slot es (j + 1) < 4294967296"
    using Cons.prems(1) length_put_le [OF b1] by simp
  with Cons.IH [of b1] Cons.prems(2) obtain b' where b': "init_links es is b1 = Some b'" "length b' = length b1"
    "\<forall>i. get_le 4 b' (slot es i) = (if i \<in> set is then Some (slot es (i + 1)) else get_le 4 b1 (slot es i))"
    "\<forall>q m. q + m \<le> 24 \<longrightarrow> get_le m b' q = get_le m b1 q" by auto
  have "init_links es (i # is) b = Some b'" unfolding init_links.simps s lf_defs using b1 b'(1) by simp
  moreover have "get_le 4 b' (slot es j) =
      (if j \<in> set (i # is) then Some (slot es (j + 1)) else get_le 4 b (slot es j))" for j
    using b'(3) get_put_slot [OF b1 assms(1)] Cons.prems by auto
  ultimately show ?case using b'(2,4) length_put_le [OF b1] get_put_slot_header [OF b1] by auto
qed simp

lemma links_upt:
  "(\<And>i. i \<in> {a..<n} \<Longrightarrow> get_le 4 b (slot es i) = Some (if Suc i < n then slot es (i + 1) else 0)) \<Longrightarrow>
    links es b [a..<n]"
proof (induction "n - a" arbitrary: a)
  case (Suc k)
  then have "a < n" by simp
  then have "[a..<n] = a # [Suc a..<n]" by (rule upt_conv_Cons)
  moreover have "nxt_of es [Suc a..<n] = (if Suc a < n then slot es (a + 1) else 0)"
    by (simp add: nxt_of_def upt_rec [of "Suc a"])
  ultimately show ?case using Suc.prems [of a] Suc.hyps(1) [of "Suc a"] Suc.prems Suc.hyps(2) \<open>a < n\<close> by simp
qed simp

lemma get_le_replicate_0: "p + k \<le> n \<Longrightarrow> get_le k (replicate n 0) p = Some 0"
  by (simp add: get_le_def slice_def le_of_zeros)

lemma put_header_ok: "24 \<le> length b \<Longrightarrow> p + k \<le> 24 \<Longrightarrow> \<exists>b'. put_le k b p v = Some b'"
  by (rule put_le_ok) simp

lemma init_header_spec:
  assumes "24 \<le> m" "es < 65536" "n < 65536" "lf < 4294967296"
  shows "\<exists>b. do { b \<leftarrow> put_le 2 (replicate m 0) 0 es; b \<leftarrow> put_le 2 b 2 n; b \<leftarrow> put_le 4 b 12 0xffffffff;
      b \<leftarrow> put_le 4 b 16 24; put_le 4 b 20 lf } = Some b \<and> length b = m \<and>
    get_le 2 b 0 = Some es \<and> get_le 2 b 2 = Some n \<and> get_le 2 b 4 = Some 0 \<and> get_le 4 b 16 = Some 24 \<and>
    get_le 4 b 20 = Some lf \<and> (\<forall>i. slot e i + 4 \<le> m \<longrightarrow> get_le 4 b (slot e i) = Some 0)"
proof -
  define z where "z = (replicate m 0 :: buf)"
  have lz: "length z = m" "24 \<le> length z" using assms(1) by (simp_all add: z_def)
  obtain b1 where b1: "put_le 2 z 0 es = Some b1" using put_header_ok lz by fastforce
  note l1 = length_put_le [OF b1]
  obtain b2 where b2: "put_le 2 b1 2 n = Some b2" using put_header_ok lz l1 by fastforce
  note l2 = length_put_le [OF b2]
  obtain b3 where b3: "put_le 4 b2 12 0xffffffff = Some b3" using put_header_ok [of b2] lz l1 l2 by fastforce
  note l3 = length_put_le [OF b3]
  obtain b4 where b4: "put_le 4 b3 16 24 = Some b4" using put_header_ok [of b3] lz l1 l2 l3 by fastforce
  note l4 = length_put_le [OF b4]
  obtain b5 where b5: "put_le 4 b4 20 lf = Some b5" using put_header_ok [of b4] lz l1 l2 l3 l4 by fastforce
  note l5 = length_put_le [OF b5]
  note up = get_put_le_same [OF b1] get_put_le_same [OF b2] get_put_le_same [OF b4] get_put_le_same [OF b5]
    get_put_le_other [OF b1] get_put_le_other [OF b2] get_put_le_other [OF b3] get_put_le_other [OF b4]
    get_put_le_other [OF b5] get_put_header_slot [OF b1] get_put_header_slot [OF b2] get_put_header_slot [OF b3]
    get_put_header_slot [OF b4] get_put_header_slot [OF b5]
  have "get_le 2 b5 4 = Some 0" using assms(1) by (simp add: up z_def get_le_replicate_0)
  moreover have "get_le 4 b5 (slot e i) = Some 0" if "slot e i + 4 \<le> m" for i
    using that by (simp add: up z_def get_le_replicate_0)
  ultimately show ?thesis
    using b1 b2 b3 b4 b5 l1 l2 l3 l4 l5 assms(2-4) by (auto simp: up z_def)
qed

text \<open>A new table is well-formed and all its entries are free, in order.\<close>

lemma table_init_wf:
  assumes "4 \<le> es" "es < 65536" "0 < n" "n < 65536"
  shows "\<exists>b. lfs_table_init es n = Some b \<and> table_wf es n b [0..<n]"
proof -
  have bd: "slot es i < 4294967296" if "i < 65536" for i using slot_bound [OF assms(2) that] by simp
  have s: "u32 (RT_HEADER_SIZE + es * n) = slot es n" "u32 (RT_HEADER_SIZE + sub32 n 1 * es) = slot es (n - 1)"
    using bd [OF assms(4)] bd [of "n - 1"] assms(3,4) by (simp_all add: slot_def mult.commute)
  have sn: "24 \<le> slot es n" "slot es (n - 1) < 4294967296" using bd [of "n - 1"] assms(4) by simp_all
  obtain b5 where h: "do { b \<leftarrow> put_le 2 (replicate (slot es n) 0) 0 es; b \<leftarrow> put_le 2 b 2 n;
      b \<leftarrow> put_le 4 b 12 0xffffffff; b \<leftarrow> put_le 4 b 16 24; put_le 4 b 20 (slot es (n - 1)) } = Some b5"
    "length b5 = slot es n" "get_le 2 b5 0 = Some es" "get_le 2 b5 2 = Some n" "get_le 2 b5 4 = Some 0"
    "get_le 4 b5 16 = Some 24" "get_le 4 b5 20 = Some (slot es (n - 1))"
    "\<And>i. slot es i + 4 \<le> slot es n \<Longrightarrow> get_le 4 b5 (slot es i) = Some 0"
    using init_header_spec [OF sn(1) assms(2,4) sn(2), of es] by blast
  have in_tab: "slot es i + 4 \<le> slot es n" if "i < n" for i
    using slot_next [OF that, of es] assms(1) by linarith
  have "\<forall>i\<in>set [0..<n - 1]. slot es i + 4 \<le> length b5 \<and> slot es (i + 1) < 4294967296"
    using in_tab h(2) assms(4) bd by auto
  from init_links_spec [OF assms(1) this] obtain b where
    b: "init_links es [0..<n - 1] b5 = Some b" "length b = length b5"
    "\<And>i. get_le 4 b (slot es i) = (if i < n - 1 then Some (slot es (i + 1)) else get_le 4 b5 (slot es i))"
    "\<And>q m. q + m \<le> 24 \<Longrightarrow> get_le m b q = get_le m b5 q" by auto
  have e: "lfs_table_init es n = Some b"
    unfolding lfs_table_init_def Let_def s lf_defs using h(1) b(1) by (auto simp: bind_eq_Some_conv)
  have sh: "table_shape es n b" unfolding table_shape_def using assms h b(2) by (simp add: b(4))
  have lk: "links es b [0..<n]"
    by (intro links_upt) (use h(8) in_tab in \<open>auto simp: b(3)\<close>)
  have "last_of es [0..<n] = slot es (n - 1)" "nxt_of es [0..<n] = 24"
    using assms(3) by (simp_all add: last_of_def nxt_of_def upt_rec [of 0] slot_def)
  then have "table_lists es n b [0..<n]" using h lk by (simp add: table_lists_def b(4))
  with e sh show ?thesis by (simp add: table_wf_def b(4) h(5))
qed

text \<open>
  Copying the old entries over the start of a larger table, as \<open>table_extend\<close> does.
\<close>

lemma blit_entries:
  assumes "table_shape es ne t" "slice t RT_HEADER_SIZE (es * ne) = Some old" "blit nt RT_HEADER_SIZE old = Some nt'"
  shows "i < ne \<Longrightarrow> get_le 4 nt' (slot es i) = get_le 4 t (slot es i)"
    and "i < ne \<Longrightarrow> entry_payload es nt' i = entry_payload es t i"
    and "ne \<le> i \<Longrightarrow> get_le 4 nt' (slot es i) = get_le 4 nt (slot es i)"
    and "q + m \<le> 24 \<Longrightarrow> get_le m nt' q = get_le m nt q"
proof -
  note sh = table_shapeD [OF assms(1)]
  have lo: "24 + length old = slot es ne" using length_slice [OF assms(2)] by (simp add: slot_def mult.commute)
  have sl: "slice nt' q n = slice t q n" if "24 \<le> q" "q + n \<le> slot es ne" for q n
  proof -
    have "slice nt' q n = slice old (q - 24) n"
      using that lo by (intro slice_blit_inside [OF assms(3)]) simp_all
    also have "\<dots> = slice t (24 + (q - 24)) n"
      using that lo length_slice [OF assms(2)] by (intro slice_slice [OF assms(2)]) simp
    finally show ?thesis using that by simp
  qed
  show "get_le 4 nt' (slot es i) = get_le 4 t (slot es i)" if "i < ne"
    using slot_next [OF that, of es] sh(1) by (simp add: get_le_def sl)
  show "entry_payload es nt' i = entry_payload es t i" if "i < ne"
    using slot_next [OF that, of es] sh(1) order_trans [OF slot_ge le_add1] by (simp add: entry_payload_def sl)
  show "get_le 4 nt' (slot es i) = get_le 4 nt (slot es i)" if "ne \<le> i"
    using mult_le_mono1 [OF that, of es] lo
    by (intro get_blit_other [OF assms(3)]) (simp add: slot_def)
  show "get_le m nt' q = get_le m nt q" if "q + m \<le> 24"
    using that by (intro get_blit_other [OF assms(3)]) simp
qed

lemma links_append:
  assumes "links es b xs" "links es b ys" "4 \<le> es" "distinct xs" "xs \<noteq> []"
    "put_le 4 b (slot es (last xs)) (nxt_of es ys) = Some b'" "nxt_of es ys < 4294967296" "last xs \<notin> set ys"
  shows "links es b' (xs @ ys)"
proof -
  note gp = get_put_slot [OF assms(6,3)]
  have "get_le 4 b' (slot es i) = get_le 4 b (slot es i)" if "i \<in> set ys" for i
    using gp [of i] that assms(8) by auto
  then have ys: "links es b' ys" using links_cong assms(2) by blast
  show ?thesis using assms(1,4,5,6,8) gp
  proof (induction xs)
    case (Cons x xs)
    show ?case
    proof (cases xs)
      case Nil
      with Cons.prems assms(7) ys show ?thesis by simp
    next
      case c: (Cons x' xs')
      with Cons.prems have "x \<noteq> last xs" by (metis distinct.simps(2) last_in_set list.distinct(1))
      with Cons c show ?thesis by simp
    qed
  qed simp
qed

lemma extend_join:
  assumes "table_wf es ne t fl" "table_shape es n b" "ne < n"
    "\<And>i. i < ne \<Longrightarrow> get_le 4 b (slot es i) = get_le 4 t (slot es i)" "links es b [ne..<n]"
  shows "\<exists>b'. (if fl = [] then put_le 4 b 16 (slot es ne)
       else do { b1 \<leftarrow> put_le 4 b 16 (nxt_of es fl); put_le 4 b1 (last_of es fl) (slot es ne) }) = Some b' \<and>
     length b' = length b \<and> get_le 4 b' 16 = Some (nxt_of es (fl @ [ne..<n])) \<and> links es b' (fl @ [ne..<n]) \<and>
     (\<forall>i. i < ne \<and> i \<notin> set fl \<longrightarrow> get_le 4 b' (slot es i) = get_le 4 b (slot es i)) \<and>
     (\<forall>i. entry_payload es b' i = entry_payload es b i) \<and>
     (\<forall>q m. q + m \<le> 16 \<or> 20 \<le> q \<and> q + m \<le> 24 \<longrightarrow> get_le m b' q = get_le m b q)"
proof -
  note sh = table_shapeD [OF assms(2)] and li = table_listsD [OF table_wfD(2) [OF assms(1)]]
  have new: "nxt_of es [ne..<n] = slot es ne" using assms(3) by (simp add: nxt_of_def upt_rec [of ne])
  have sn: "slot es ne < 4294967296" by (rule slot_in_table(2) [OF assms(2,3)])
  show ?thesis
  proof (cases "fl = []")
    case True
    obtain b' where b': "put_le 4 b 16 (slot es ne) = Some b'" using put_header_ok sh(7) by fastforce
    have "links es b' [ne..<n]"
      using assms(5) links_cong [of "[ne..<n]" b' es b] get_put_header_slot [OF b', of 4] by simp
    then show ?thesis
      using True b' length_put_le [OF b'] get_put_le_same [OF b'] sn new payload_put_header [OF b']
        get_put_header_slot [OF b'] get_put_le_other [OF b'] by auto
  next
    case False
    then have lf: "last_of es fl = slot es (last fl)" "last fl < ne" "last fl \<in> set fl"
      using li(4) last_in_set [OF False] by (simp_all add: last_of_def)
    obtain b1 where b1: "put_le 4 b 16 (nxt_of es fl) = Some b1" using put_header_ok sh(7) by fastforce
    note w1 = get_put_header_slot [OF b1, of 4]
    have "slot es (last fl) + 4 \<le> length b1"
      using slot_in_table(1) [OF assms(2), of "last fl"] lf(2) assms(3) sh(1) length_put_le [OF b1] by simp
    then obtain b' where b': "put_le 4 b1 (slot es (last fl)) (slot es ne) = Some b'" using put_le_ok by blast
    have "links es b1 fl" "links es b1 [ne..<n]"
      using links_cong [of fl b1 es t] links_cong [of "[ne..<n]" b1 es b] w1 li(4,5) assms(4,5) by auto
    then have "links es b' (fl @ [ne..<n])"
      using links_append [of es b1 fl "[ne..<n]" b'] sh(1) li(3) False b' new sn lf(2) by simp
    moreover have "get_le 4 b1 16 = Some (nxt_of es fl)"
      using get_put_le_same [OF b1] nxt_of_less [OF table_wfD(1) [OF assms(1)] li(4)] by simp
    moreover have "nxt_of es (fl @ [ne..<n]) = nxt_of es fl" using False by (cases fl) simp_all
    ultimately show ?thesis
      using False b1 b' lf w1 length_put_le [OF b1] length_put_le [OF b'] get_put_slot_header [OF b']
        get_put_slot [OF b' sh(1)] payload_put_slot [OF b' sh(1)] payload_put_header [OF b1] get_put_le_other [OF b1]
      by auto
  qed
qed

lemma links_drop: "links es b (xs @ ys) \<Longrightarrow> links es b ys"
  by (induction xs) simp_all

lemma extend_copy:
  assumes "table_wf es ne t fl" "0 < add" "ne + add < 65536"
  shows "\<exists>n0 old n1 n2. lfs_table_init es (ne + add) = Some n0 \<and> slice t 24 (es * ne) = Some old \<and>
    blit n0 24 old = Some n1 \<and> put_le 4 n1 12 g = Some n2 \<and> table_shape es (ne + add) n2 \<and>
    (\<forall>i<ne. get_le 4 n2 (slot es i) = get_le 4 t (slot es i)) \<and> links es n2 [ne..<ne + add] \<and>
    get_le 4 n2 20 = Some (slot es (ne + add - 1)) \<and> (\<forall>i<ne. entry_payload es n2 i = entry_payload es t i)"
proof -
  note w = table_wfD [OF assms(1)] and sh = table_shapeD [OF table_wfD(1) [OF assms(1)]]
  let ?n = "ne + add"
  obtain n0 where n0: "lfs_table_init es ?n = Some n0" "table_wf es ?n n0 [0..<?n]"
    using table_init_wf [OF sh(1,2)] assms(2,3) by (meson add_gr_0)
  note s0 = table_shapeD [OF table_wfD(1) [OF n0(2)]] and l0 = table_listsD [OF table_wfD(2) [OF n0(2)]]
  obtain old where old: "slice t 24 (es * ne) = Some old"
    using sh(4) by (simp add: slice_def slot_def mult.commute)
  have "24 + length old \<le> length n0"
    using length_slice [OF old] s0(4) by (simp add: slot_def mult.commute)
  then obtain n1 where n1: "blit n0 24 old = Some n1" using blit_ok by blast
  have ln1: "length n1 = slot es ?n" using length_blit [OF n1] s0(4) by simp
  obtain n2 where n2: "put_le 4 n1 12 g = Some n2" using put_header_ok [of n1] ln1 by fastforce
  note up1 = blit_entries [OF w(1) old n1]
  have up2: "get_le 4 n2 (slot es i) = get_le 4 n1 (slot es i)" "entry_payload es n2 i = entry_payload es n1 i"
    "q + m \<le> 12 \<or> 16 \<le> q \<Longrightarrow> get_le m n2 q = get_le m n1 q" for i q m
    using get_put_header_slot [OF n2] payload_put_header [OF n2] get_put_le_other [OF n2] by auto
  have "table_shape es ?n n2"
    using ln1 length_put_le [OF n2] s0(4) by (intro table_shape_cong [OF table_wfD(1) [OF n0(2)]]) (simp_all add: up2 up1)
  moreover have "links es n0 [ne..<?n]"
    using l0(5) by (metis links_drop upt_add_eq_append le_add1 add_0 zero_le)
  then have "links es n2 [ne..<?n]" using links_cong [of "[ne..<?n]" n2 es n0] up1 up2 by auto
  moreover have "last_of es [0..<?n] = slot es (?n - 1)" using assms(2) by (simp add: last_of_def)
  then have "get_le 4 n2 20 = Some (slot es (?n - 1))" using l0(2) by (simp add: up2 up1)
  ultimately show ?thesis using n0(1) old n1 n2 up1 up2 by auto
qed

text \<open>
  Extending a table appends the new entries to its free list and keeps what the old ones hold.
\<close>

lemma extend_wf:
  assumes "table_wf es ne t fl" "0 < add" "ne + add < 65536"
  shows "\<exists>t'. table_extend t add goal = Some (0, t') \<and> table_wf es (ne + add) t' (fl @ [ne..<ne + add]) \<and>
    (\<forall>i<ne. entry_payload es t' i = entry_payload es t i)"
proof -
  note w = table_wfD [OF assms(1)] and sh = table_shapeD [OF table_wfD(1) [OF assms(1)]]
    and li = table_listsD [OF table_wfD(2) [OF assms(1)]]
  let ?n = "ne + add" and ?fl = "fl @ [ne..<ne + add]"
  obtain g where g: "g = (if goal = 0xffffffff then 0xffffffff else u32 (24 + u32 (goal * es)))" by simp
  from extend_copy [OF assms, of g] obtain n0 old n1 n2 where
    c: "lfs_table_init es ?n = Some n0" "slice t 24 (es * ne) = Some old" "blit n0 24 old = Some n1"
    "put_le 4 n1 12 g = Some n2" and sh2: "table_shape es ?n n2"
    and k2: "\<And>i. i < ne \<Longrightarrow> get_le 4 n2 (slot es i) = get_le 4 t (slot es i)" "links es n2 [ne..<?n]"
      "get_le 4 n2 20 = Some (slot es (?n - 1))" "\<forall>i<ne. entry_payload es n2 i = entry_payload es t i" by blast
  have "ne < ?n" using assms(2) by simp
  from extend_join [OF assms(1) sh2 this k2(1,2)] obtain n3 where
    n3: "(if fl = [] then put_le 4 n2 16 (slot es ne)
       else do { b1 \<leftarrow> put_le 4 n2 16 (nxt_of es fl); put_le 4 b1 (last_of es fl) (slot es ne) }) = Some n3"
     "length n3 = length n2" "get_le 4 n3 16 = Some (nxt_of es ?fl)" "links es n3 ?fl"
     "\<And>i. i < ne \<Longrightarrow> i \<notin> set fl \<Longrightarrow> get_le 4 n3 (slot es i) = get_le 4 n2 (slot es i)"
     "\<And>i. entry_payload es n3 i = entry_payload es n2 i"
     "\<And>q m. q + m \<le> 16 \<or> 20 \<le> q \<and> q + m \<le> 24 \<Longrightarrow> get_le m n3 q = get_le m n2 q" by blast
  have "24 \<le> length n3" using n3(2) table_shapeD(7) [OF sh2] by simp
  then obtain n4 where n4: "put_le 2 n3 4 (ne - length fl) = Some n4" using put_header_ok [of n3 4 2] by auto
  have e: "table_extend t add goal = Some (0, n4)"
    unfolding table_extend_def lfs_table_esize_def lf_defs
    using sh(4,5,6) c n3(1) n4 w(3) li(1,2) g assms(3)
    by (cases "fl = []") (auto simp: bind_eq_Some_conv)
  note up = get_put_le_other [OF n4] get_put_header_slot [OF n4]
  have s4: "table_shape es ?n n4"
    using length_put_le [OF n4] n3(2) by (intro table_shape_cong [OF sh2]) (simp_all add: up n3(7))
  have "links es n4 ?fl" using links_cong [of ?fl n4 es n3] n3(4) up by simp
  moreover have "last_of es ?fl = slot es (?n - 1)" using assms(2) by (simp add: last_of_def)
  moreover have "distinct ?fl" "\<forall>i\<in>set ?fl. i < ?n" using li(3) by (auto dest!: li(4))
  moreover have "get_le 4 n4 (slot es i) = Some RT_ENTRY_ALLOCATED" if "i < ?n" "i \<notin> set ?fl" for i
    using that n3(5) k2(1) li(6) by (simp add: up)
  ultimately have "table_lists es ?n n4 ?fl"
    unfolding table_lists_def using n3(3,7) k2(3) by (simp add: up)
  moreover have "get_le 2 n4 4 = Some (?n - length ?fl)"
    using get_put_le_same [OF n4] sh(3) by simp
  ultimately show ?thesis
    using e s4 k2(4) n3(6) payload_put_header [OF n4] by (auto simp: table_wf_def)
qed

section \<open>Releasing an entry\<close>

lemma links_frame:
  "links es b fl \<Longrightarrow> (\<And>i. i \<in> set fl \<Longrightarrow> get_le 4 b' (slot es i) = get_le 4 b (slot es i)) \<Longrightarrow> links es b' fl"
  using links_cong by blast

lemma free_list_room:
  assumes "table_wf es ne b fl" "i < ne" "i \<notin> set fl"
  shows "length fl < ne"
proof -
  note d = table_listsD [OF table_wfD(2) [OF assms(1)]]
  have "card (set fl) \<le> card ({..<ne} - {i})" by (rule card_mono) (use d(4) assms(3) in auto)
  then show ?thesis using distinct_card [OF d(3)] assms(2) by (simp add: card_Diff_subset)
qed

lemma table_wf_release:
  assumes "table_wf es ne b fl" "i < ne" "i \<notin> set fl" "table_shape es ne b'"
    "set fl' = insert i (set fl)" "distinct fl'" "get_le 4 b' 16 = Some (nxt_of es fl')"
    "get_le 4 b' 20 = Some (last_of es fl')" "links es b' fl'" "get_le 2 b' 4 = Some (ne - length fl - 1)"
    "\<And>j. j \<notin> set fl' \<Longrightarrow> get_le 4 b' (slot es j) = get_le 4 b (slot es j)"
  shows "table_wf es ne b' fl'"
proof -
  note d = table_listsD [OF table_wfD(2) [OF assms(1)]]
  have "length fl' = Suc (length fl)"
    using distinct_card [OF assms(6)] distinct_card [OF d(3)] assms(3,5) by simp
  moreover have "table_lists es ne b' fl'"
    unfolding table_lists_def using assms(2,5-9,11) d(4,6) by auto
  ultimately show ?thesis using assms(4,10) by (simp add: table_wf_def)
qed

text \<open>The two ways of \<open>lfs_table_free_idx\<close>: in front of the free list or behind it.\<close>

definition released :: "nat \<Rightarrow> nat \<Rightarrow> buf \<Rightarrow> nat list \<Rightarrow> nat \<Rightarrow> nat list \<Rightarrow> buf \<Rightarrow> bool" where
  "released es ne b fl i fl' b' \<longleftrightarrow> length b' = length b \<and> get_le 4 b' 16 = Some (nxt_of es fl') \<and>
     get_le 4 b' 20 = Some (last_of es fl') \<and> links es b' fl' \<and>
     (\<forall>j. j \<notin> set fl' \<longrightarrow> get_le 4 b' (slot es j) = get_le 4 b (slot es j)) \<and>
     (\<forall>j. entry_payload es b' j = entry_payload es b j) \<and> (\<forall>q m. q + m \<le> 16 \<longrightarrow> get_le m b' q = get_le m b q)"

lemma release_front:
  assumes "table_wf es ne b fl" "i < ne" "i \<notin> set fl"
  shows "\<exists>b'. do { b \<leftarrow> put_le 4 b (slot es i) (nxt_of es fl); b \<leftarrow> put_le 4 b 16 (slot es i);
      if last_of es fl = 0 then put_le 4 b 20 (slot es i) else Some b } = Some b' \<and>
    released es ne b fl i (i # fl) b'"
proof -
  note w = table_wfD [OF assms(1)] and sh = table_shapeD [OF table_wfD(1) [OF assms(1)]]
    and li = table_listsD [OF table_wfD(2) [OF assms(1)]] and si = slot_in_table [OF table_wfD(1) [OF assms(1)] assms(2)]
  have "slot es i + 4 \<le> length b" using si(1) sh(1) by linarith
  then obtain b1 where b1: "put_le 4 b (slot es i) (nxt_of es fl) = Some b1" using put_le_ok by blast
  have l1: "24 \<le> length b1" using length_put_le [OF b1] sh(7) by simp
  obtain b2 where b2: "put_le 4 b1 16 (slot es i) = Some b2" using put_header_ok [OF l1, of 16 4] by auto
  have l2: "24 \<le> length b2" using length_put_le [OF b2] l1 by simp
  have lo: "last_of es fl = 0 \<longleftrightarrow> fl = []" by (simp add: last_of_def)
  obtain b3 where b3: "(if fl = [] then put_le 4 b2 20 (slot es i) else Some b2) = Some b3"
    using put_header_ok [OF l2, of 20 4] by (cases "fl = []") auto
  have l3: "length b3 = length b2" using b3 by (auto split: if_splits dest: length_put_le)
  have k3: "get_le 4 b3 (slot es j) = get_le 4 b2 (slot es j)" "entry_payload es b3 j = entry_payload es b2 j"
    "q + m \<le> 20 \<Longrightarrow> get_le m b3 q = get_le m b2 q" for j q m
    using b3 get_put_header_slot [of 4 b2 20 "slot es i" b3] payload_put_header [of 4 b2 20 "slot es i" b3]
      get_put_le_other [of 4 b2 20 "slot es i" b3 q m] by (auto split: if_splits)
  have k: "get_le 4 b3 (slot es j) = (if j = i then Some (nxt_of es fl) else get_le 4 b (slot es j))" for j
    using get_put_slot [OF b1 sh(1), of j] nxt_of_less [OF w(1) li(4)] get_put_header_slot [OF b2] by (simp add: k3)
  have "links es b3 fl" by (rule links_frame [OF li(5)]) (use k assms(3) in auto)
  moreover have "get_le 4 b3 20 = Some (last_of es (i # fl))"
  proof (cases "fl = []")
    case True
    with b3 si(2) show ?thesis using get_put_le_same [of 4 b2 20 "slot es i" b3] by (simp add: last_of_def)
  next
    case False
    with b3 li(2) show ?thesis
      using get_put_le_other [OF b2, of 20 4] get_put_slot_header [OF b1, of 20 4] by (simp add: last_of_def)
  qed
  ultimately have "released es ne b fl i (i # fl) b3"
    using k si(2) l3 length_put_le [OF b1] length_put_le [OF b2] get_put_le_same [OF b2] get_put_le_other [OF b2]
      get_put_slot_header [OF b1] payload_put_slot [OF b1 sh(1)] payload_put_header [OF b2]
    by (auto simp: released_def k3)
  then show ?thesis using b1 b2 b3 by (auto simp: lo)
qed

lemma links_snoc:
  assumes "links es b fl" "distinct fl" "get_le 4 b' (slot es i) = Some 0"
    "\<And>j. j \<in> set fl \<Longrightarrow> get_le 4 b' (slot es j) = (if j = last fl then Some (slot es i) else get_le 4 b (slot es j))"
  shows "links es b' (fl @ [i])"
  using assms(1,2,4)
proof (induction fl)
  case (Cons x xs)
  show ?case
  proof (cases "xs = []")
    case False
    with Cons.prems(2) have "x \<noteq> last xs" by auto
    with Cons.prems(1) Cons.prems(3) [of x] False have "get_le 4 b' (slot es x) = Some (nxt_of es (xs @ [i]))"
      by (cases xs) auto
    with Cons False show ?thesis by simp
  qed (use Cons.prems(3) [of x] assms(3) in simp)
qed (use assms(3) in simp)

lemma release_back:
  assumes "table_wf es ne b fl" "i < ne" "i \<notin> set fl"
  shows "\<exists>b'. do { b \<leftarrow> (if last_of es fl \<noteq> 0 then put_le 4 b (last_of es fl) (slot es i) else put_le 4 b 16 (slot es i));
      b \<leftarrow> put_le 4 b 20 (slot es i); put_le 4 b (slot es i) 0 } = Some b' \<and>
    released es ne b fl i (fl @ [i]) b'"
proof -
  note w = table_wfD [OF assms(1)] and sh = table_shapeD [OF table_wfD(1) [OF assms(1)]]
    and li = table_listsD [OF table_wfD(2) [OF assms(1)]] and si = slot_in_table [OF table_wfD(1) [OF assms(1)] assms(2)]
  have lo: "last_of es fl \<noteq> 0 \<longleftrightarrow> fl \<noteq> []" "fl \<noteq> [] \<Longrightarrow> last_of es fl = slot es (last fl)"
    by (simp_all add: last_of_def)
  have in_t: "slot es j + 4 \<le> length b" if "j < ne" for j
    using slot_in_table(1) [OF w(1) that] sh(1) by linarith
  obtain b1 where b1: "(if fl \<noteq> [] then put_le 4 b (slot es (last fl)) (slot es i) else put_le 4 b 16 (slot es i)) = Some b1"
    using put_le_ok [OF in_t [OF li(4) [OF last_in_set]]] put_header_ok [OF sh(7), of 16 4] by (cases "fl = []") auto
  have k1: "length b1 = length b" "get_le 4 b1 16 = Some (nxt_of es (fl @ [i]))" "entry_payload es b1 j = entry_payload es b j"
    "j \<notin> set fl \<Longrightarrow> get_le 4 b1 (slot es j) = get_le 4 b (slot es j)"
    "q + m \<le> 16 \<Longrightarrow> get_le m b1 q = get_le m b q" for j q m
    using b1 length_put_le [of 4 b] li(1) get_put_le_same [of 4 b 16 "slot es i" b1] si(2) last_in_set [of fl]
      slot_updates(1) [of b es "last fl" "slot es i" b1 j] slot_updates(2) [of b es "last fl" "slot es i" b1]
      slot_updates(3) [of 4 b 16 "slot es i" b1] slot_updates(4) [of b es "last fl" "slot es i" b1] sh(1)
      slot_updates(5) [of 4 b 16 "slot es i" b1] get_put_le_other [of 4 b 16 "slot es i" b1 q m]
    by (cases fl; auto split: if_splits)+
  have "24 \<le> length b1" using k1(1) sh(7) by simp
  then obtain b2 where b2: "put_le 4 b1 20 (slot es i) = Some b2" using put_header_ok [of b1 20 4] by auto
  have "slot es i + 4 \<le> length b2" using length_put_le [OF b2] k1(1) in_t [OF assms(2)] by simp
  then obtain b3 where b3: "put_le 4 b2 (slot es i) 0 = Some b3" using put_le_ok by blast
  have "links es b3 (fl @ [i])"
  proof (rule links_snoc [OF li(5,3)])
    show "get_le 4 b3 (slot es i) = Some 0" using get_put_slot [OF b3 sh(1), of i] by simp
    fix j assume j: "j \<in> set fl"
    then have "get_le 4 b3 (slot es j) = get_le 4 b1 (slot es j)"
      using get_put_slot [OF b3 sh(1), of j] get_put_header_slot [OF b2, of 4] assms(3) by auto
    with j b1 si(2) show "get_le 4 b3 (slot es j) = (if j = last fl then Some (slot es i) else get_le 4 b (slot es j))"
      using get_put_slot [of b es "last fl" "slot es i" b1 j] sh(1) by (auto split: if_splits)
  qed
  moreover have "get_le 4 b3 20 = Some (last_of es (fl @ [i]))"
    using get_put_slot_header [OF b3, of 20 4] get_put_le_same [OF b2] si(2) by (simp add: last_of_def)
  ultimately have "released es ne b fl i (fl @ [i]) b3"
    using k1 length_put_le [OF b2] length_put_le [OF b3] get_put_le_other [OF b2] get_put_header_slot [OF b2]
      get_put_slot_header [OF b3] get_put_slot [OF b3 sh(1)] payload_put_slot [OF b3 sh(1)] payload_put_header [OF b2]
    by (auto simp: released_def)
  then show ?thesis using b1 b2 b3 lo by auto
qed

lemma free_link_bound:
  assumes "table_wf es ne b fl" "i \<in> set fl"
  shows "\<exists>v. get_le 4 b (slot es i) = Some v \<and> v < 4294967295"
proof -
  note sh = table_shapeD [OF table_wfD(1) [OF assms(1)]] and li = table_listsD [OF table_wfD(2) [OF assms(1)]]
  have nb: "nxt_of es xs < 4294967295" if "set xs \<subseteq> set fl" for xs
  proof (cases xs)
    case (Cons j ys)
    then have "j < 65536" using that li(4) sh(3) by fastforce
    then show ?thesis using slot_bound [OF sh(2), of j] Cons by simp
  qed simp
  have "\<exists>v. get_le 4 b (slot es i) = Some v \<and> v < 4294967295"
    if "links es b xs" "i \<in> set xs" "set xs \<subseteq> set fl" for xs
    using that by (induction xs) (use nb in auto)
  with li(5) assms(2) show ?thesis by blast
qed

lemma free_dead:
  assumes "table_wf es ne b fl" "i \<in> set fl"
  shows "lfs_table_free_idx b (slot es i) = Some b"
proof -
  note w = table_wfD [OF assms(1)] and sh = table_shapeD [OF table_wfD(1) [OF assms(1)]]
    and li = table_listsD [OF table_wfD(2) [OF assms(1)]]
  obtain v where v: "get_le 4 b (slot es i) = Some v" "v \<noteq> RT_ENTRY_ALLOCATED"
    using free_link_bound [OF assms] by force
  then show ?thesis using li(2) slot_in_table(3) [OF w(1) li(4) [OF assms(2)]] sh(5)
    by (simp add: lfs_table_free_idx_def lfs_table_entry_ok_def lfs_table_esize_def lf_defs not_less)
qed

lemma free_live:
  assumes "table_wf es ne b fl" "i < ne" "i \<notin> set fl"
  shows "\<exists>b' goal. get_le 4 b RT_FREE_GOAL = Some goal \<and> lfs_table_free_idx b (slot es i) = Some b' \<and>
      table_wf es ne b' (if slot es i < goal then i # fl else fl @ [i]) \<and>
      (\<forall>j. entry_payload es b' j = entry_payload es b j)"
proof -
  note w = table_wfD [OF assms(1)] and sh = table_shapeD [OF table_wfD(1) [OF assms(1)]]
    and li = table_listsD [OF table_wfD(2) [OF assms(1)]] and si = slot_in_table [OF table_wfD(1) [OF assms(1)] assms(2)]
  define fl' where "fl' g = (if slot es i < g then i # fl else fl @ [i])" for g
  obtain g where g: "get_le 4 b 12 = Some g" using get_le_ok [of 12 4 b] sh(7) by auto
  obtain b1 where b1: "(if slot es i < g
     then do { b \<leftarrow> put_le 4 b (slot es i) (nxt_of es fl); b \<leftarrow> put_le 4 b 16 (slot es i);
       if last_of es fl = 0 then put_le 4 b 20 (slot es i) else Some b }
     else do { b \<leftarrow> (if last_of es fl \<noteq> 0 then put_le 4 b (last_of es fl) (slot es i) else put_le 4 b 16 (slot es i));
       b \<leftarrow> put_le 4 b 20 (slot es i); put_le 4 b (slot es i) 0 }) = Some b1" "released es ne b fl i (fl' g) b1"
    using release_front [OF assms] release_back [OF assms] by (cases "slot es i < g") (auto simp: fl'_def)
  note r = b1(2) [unfolded released_def]
  obtain b2 where b2: "put_le 2 b1 4 (ne - length fl + 0xffff) = Some b2"
    using put_header_ok [of b1 4 2] r sh(7) by fastforce
  have ok: "lfs_table_entry_ok (Some b) (slot es i) = Some True"
    using li(6) [OF assms(2,3)] si(3) sh(5) by (simp add: lfs_table_entry_ok_def lfs_table_esize_def lf_defs not_less)
  have na: "get_le 2 b1 4 = Some (ne - length fl)" using r w(3) by simp
  have "lfs_table_free_idx b (slot es i) = Some b2"
    unfolding lfs_table_free_idx_def lf_defs ok using li(1,2) g b1(1) b2 na
    by (cases "slot es i < g"; cases "last_of es fl = 0") (auto simp: bind_eq_Some_conv)
  moreover have "table_wf es ne b2 (fl' g)"
  proof (rule table_wf_release [OF assms])
    note up = get_put_le_other [OF b2] get_put_header_slot [OF b2]
    show "table_shape es ne b2" using r length_put_le [OF b2]
      by (intro table_shape_cong [OF w(1)]) (simp_all add: up)
    show "set (fl' g) = insert i (set fl)" "distinct (fl' g)" using li(3) assms(3) by (auto simp: fl'_def)
    show "get_le 4 b2 16 = Some (nxt_of es (fl' g))" "get_le 4 b2 20 = Some (last_of es (fl' g))"
      using r by (simp_all add: up)
    show "links es b2 (fl' g)" by (rule links_frame [of es b1]) (use r up in auto)
    show "get_le 4 b2 (slot es j) = get_le 4 b (slot es j)" if "j \<notin> set (fl' g)" for j
      using r that by (simp add: up)
    have "ne - length fl + 65535 = (ne - length fl - 1) + 65536" "ne - length fl - 1 < 65536"
      using free_list_room [OF assms] sh(3) by linarith+
    then have "(ne - length fl + 65535) mod 65536 = ne - length fl - 1" by (metis mod_add_self2 mod_less)
    then show "get_le 2 b2 4 = Some (ne - length fl - 1)" using get_put_le_same [OF b2] by simp
  qed
  moreover have "\<forall>j. entry_payload es b2 j = entry_payload es b j"
    using r payload_put_header [OF b2] by simp
  ultimately show ?thesis using g by (auto simp: fl'_def)
qed

text \<open>
  C27.  Releasing an allocated entry of a well-formed table puts it at the front of the free list
  when it lies below the free goal and at its end otherwise; no entry's contents change.
  Releasing an entry that is already free (a double free) leaves the table as it is.
\<close>

theorem table_free_spec:
  assumes "table_wf es ne b fl" "i < ne"
  shows "if i \<in> set fl then lfs_table_free_idx b (slot es i) = Some b
    else \<exists>b' goal. get_le 4 b RT_FREE_GOAL = Some goal \<and> lfs_table_free_idx b (slot es i) = Some b' \<and>
      table_wf es ne b' (if slot es i < goal then i # fl else fl @ [i]) \<and>
      (\<forall>j. entry_payload es b' j = entry_payload es b j)"
  using free_dead [OF assms(1)] free_live [OF assms] by simp

theorem table_free_spec_witness:
  "\<exists>b. lfs_table_init 8 3 = Some b \<and> lfs_table_free_idx b 32 = Some b"
proof -
  obtain b where b: "lfs_table_init 8 3 = Some b" "table_wf 8 3 b [0..<3]" using table_init_wf [of 8 3] by auto
  have "slot 8 1 = 32" by (simp add: slot_def)
  with table_free_spec [OF b(2), of 1] b(1) show ?thesis by simp
qed

section \<open>Claiming a given entry\<close>

lemma find_prev_spec:
  assumes "links es b (xs @ i # ys)" "xs \<noteq> []" "distinct (xs @ i # ys)" "0 < es" "guard + length xs \<le> 0x10000"
  shows "find_prev b (slot es i) (slot es (hd xs)) guard = Some (Some (slot es (last xs)))"
  using assms(1,2,3,5)
proof (induction xs arbitrary: guard)
  case (Cons x xs)
  show ?case
  proof (cases xs)
    case Nil
    with Cons.prems show ?thesis by (simp add: find_prev.simps [of _ _ "slot es x"] lf_defs)
  next
    case (Cons x' xs')
    have "find_prev b (slot es i) (slot es (hd xs)) (guard + 1) = Some (Some (slot es (last xs)))"
      using Cons.IH [of "guard + 1"] Cons.prems Cons by simp
    moreover have "slot es x' \<noteq> slot es i" using Cons.prems(3) Cons assms(4) by (auto simp: slot_inject)
    ultimately show ?thesis
      using Cons.prems(1,4) Cons by (simp add: find_prev.simps [of _ _ "slot es x"] lf_defs)
  qed
qed simp

definition unlinked :: "nat \<Rightarrow> buf \<Rightarrow> nat list \<Rightarrow> buf \<Rightarrow> bool" where
  "unlinked es b rest b' \<longleftrightarrow> length b' = length b \<and> get_le 4 b' 16 = Some (nxt_of es rest) \<and>
     get_le 4 b' 20 = Some (last_of es rest) \<and> links es b' rest \<and>
     (\<forall>j. j \<notin> set rest \<longrightarrow> get_le 4 b' (slot es j) = get_le 4 b (slot es j)) \<and>
     (\<forall>j. entry_payload es b' j = entry_payload es b j) \<and> (\<forall>q m. q + m \<le> 16 \<longrightarrow> get_le m b' q = get_le m b q)"

lemma claim_finish:
  assumes "table_wf es ne b fl" "i \<in> set fl" "unlinked es b (remove1 i fl) b1"
  shows "\<exists>b'. do { t \<leftarrow> memset0 b1 (slot es i) es; t \<leftarrow> put_le 4 t (slot es i) RT_ENTRY_ALLOCATED;
      na \<leftarrow> get_le 2 t 4; put_le 2 t 4 (na + 1) } = Some b' \<and> table_wf es ne b' (remove1 i fl) \<and>
    entry_payload es b' i = Some (replicate (es - 4) 0) \<and>
    (\<forall>j. j \<noteq> i \<longrightarrow> entry_payload es b' j = entry_payload es b j)"
proof -
  note w = table_wfD [OF assms(1)] and sh = table_shapeD [OF table_wfD(1) [OF assms(1)]]
    and li = table_listsD [OF table_wfD(2) [OF assms(1)]] and un = assms(3) [unfolded unlinked_def]
  note si = slot_in_table [OF w(1) li(4) [OF assms(2)]]
  have ni: "i \<notin> set (remove1 i fl)" using li(3) by simp
  have lb: "length b1 = length b" using un by blast
  obtain b2 where b2: "memset0 b1 (slot es i) es = Some b2"
    using si(1) lb by (metis blit_ok memset0_def length_replicate)
  have "slot es i + 4 \<le> length b2" using length_memset0 [OF b2] si(1) sh(1) lb by simp
  then obtain b3 where b3: "put_le 4 b2 (slot es i) RT_ENTRY_ALLOCATED = Some b3" using put_le_ok by blast
  have l3: "length b3 = length b" using length_put_le [OF b3] length_memset0 [OF b2] lb by simp
  then obtain b4 where b4: "put_le 2 b3 4 (ne - length fl + 1) = Some b4"
    using put_header_ok [of b3 4 2] sh(7) by fastforce
  note up = get_put_header_slot [OF b4] get_put_slot [OF b3 sh(1)] get_put_slot_header [OF b3]
    memset0_slot [OF b2 sh(1)] get_put_le_other [OF b4] get_put_le_same [OF b4]
  have na: "get_le 2 b3 4 = Some (ne - length fl)" using un w(3) by (simp add: up)
  have "table_wf es ne b4 (remove1 i fl)"
  proof (rule table_wf_claim [OF assms(1,2)])
    show "table_shape es ne b4" using un l3 length_put_le [OF b4]
      by (intro table_shape_cong [OF w(1)]) (simp_all add: up)
    show "get_le 4 b4 16 = Some (nxt_of es (remove1 i fl))" "get_le 4 b4 20 = Some (last_of es (remove1 i fl))"
      using un by (simp_all add: up)
    show "links es b4 (remove1 i fl)" by (rule links_frame [of es b1]) (use un ni up in auto)
    have "fl \<noteq> []" using assms(2) by auto
    then show "get_le 2 b4 4 = Some (ne - length fl + 1)" using na_less [OF assms(1)] by (simp only: up) simp
    show "get_le 4 b4 (slot es i) = Some RT_ENTRY_ALLOCATED" by (simp add: up)
    fix j assume "j \<notin> set fl"
    then have "j \<noteq> i" "j \<notin> set (remove1 i fl)" using assms(2) set_remove1_subset [of i fl] by auto
    then show "get_le 4 b4 (slot es j) = get_le 4 b (slot es j)" using un by (simp add: up)
  qed
  moreover have "entry_payload es b4 j = entry_payload es b2 j" for j
    using payload_put_header [OF b4] payload_put_slot [OF b3 sh(1)] by simp
  ultimately show ?thesis using b2 b3 b4 na un by (auto simp: up)
qed

lemma links_splice:
  assumes "links es b (xs @ i # ys)" "xs \<noteq> []" "distinct (xs @ i # ys)"
    "\<And>j. j \<in> set (xs @ ys) \<Longrightarrow>
      get_le 4 b' (slot es j) = (if j = last xs then Some (nxt_of es ys) else get_le 4 b (slot es j))"
  shows "links es b' (xs @ ys)"
  using assms
proof (induction xs)
  case (Cons x xs)
  show ?case
  proof (cases "xs = []")
    case True
    have "get_le 4 b' (slot es j) = get_le 4 b (slot es j)" if "j \<in> set ys" for j
      using that True Cons.prems(3) Cons.prems(4) [of j] by auto
    moreover have "links es b ys" using Cons.prems(1) True by simp
    ultimately have "links es b' ys" by (rule links_frame [rotated])
    with True Cons.prems(4) [of x] show ?thesis by simp
  next
    case False
    with Cons.prems(3) have "x \<noteq> last xs" by auto
    then have "get_le 4 b' (slot es x) = get_le 4 b (slot es x)" using Cons.prems(4) [of x] False by simp
    moreover have "nxt_of es (xs @ ys) = nxt_of es (xs @ i # ys)" using False by (cases xs) simp_all
    moreover have "links es b' (xs @ ys)" using Cons.prems False by (intro Cons.IH) simp_all
    ultimately show ?thesis using Cons.prems(1) by simp
  qed
qed simp

lemma unlink_front:
  assumes "table_wf es ne b (i # ys)"
  shows "\<exists>t1 t2. alloc_at_unlink b (slot es i) = Some (Some t1) \<and>
    do { ff \<leftarrow> get_le 4 t1 16; if ff = 0 then put_le 4 t1 20 0 else Some t1 } = Some t2 \<and> unlinked es b ys t2"
proof -
  note w = table_wfD [OF assms] and sh = table_shapeD [OF table_wfD(1) [OF assms]]
    and li = table_listsD [OF table_wfD(2) [OF assms]]
  have nx: "nxt_of es ys mod 4294967296 = nxt_of es ys" using li(4) by (intro nxt_of_less [OF w(1)]) simp
  obtain t1 where t1: "put_le 4 b 16 (nxt_of es ys) = Some t1" using put_header_ok sh(7) by fastforce
  have ff: "get_le 4 t1 16 = Some (nxt_of es ys)" using get_put_le_same [OF t1] nx by simp
  have e: "alloc_at_unlink b (slot es i) = Some (Some t1)"
    unfolding alloc_at_unlink_def lf_defs using li(1,5) t1 by simp
  have u1: "get_le 4 t1 (slot es j) = get_le 4 b (slot es j)" "entry_payload es t1 j = entry_payload es b j"
    "q + m \<le> 16 \<or> 20 \<le> q \<Longrightarrow> get_le m t1 q = get_le m b q" for j q m
    using get_put_header_slot [OF t1] payload_put_header [OF t1] get_put_le_other [OF t1] by auto
  have lk: "links es t1 ys" by (rule links_frame [of es b]) (use li(5) u1 in auto)
  show ?thesis
  proof (cases "ys = []")
    case True
    have "24 \<le> length t1" using length_put_le [OF t1] sh(7) by simp
    then obtain t2 where t2: "put_le 4 t1 20 0 = Some t2" using put_header_ok [of t1 20 4] by auto
    have "unlinked es b [] t2"
      using length_put_le [OF t1] length_put_le [OF t2] get_put_le_same [OF t2] get_put_le_other [OF t2]
        get_put_header_slot [OF t2] payload_put_header [OF t2] ff u1 True by (simp add: unlinked_def last_of_def)
    then show ?thesis using e ff t2 True by auto
  next
    case False
    have "unlinked es b ys t1"
      using False lk ff u1 li(2) length_put_le [OF t1] by (simp add: unlinked_def last_of_def)
    then show ?thesis using e ff False by auto
  qed
qed

lemma unlink_inner:
  assumes "table_wf es ne b (xs @ i # ys)" "xs \<noteq> []"
  shows "\<exists>t1. alloc_at_unlink b (slot es i) = Some (Some t1) \<and>
    do { ff \<leftarrow> get_le 4 t1 16; if ff = 0 then put_le 4 t1 20 0 else Some t1 } = Some t1 \<and> unlinked es b (xs @ ys) t1"
proof -
  note w = table_wfD [OF assms(1)] and sh = table_shapeD [OF table_wfD(1) [OF assms(1)]]
    and li = table_listsD [OF table_wfD(2) [OF assms(1)]]
  have nx: "nxt_of es ys mod 4294967296 = nxt_of es ys" using li(4) by (intro nxt_of_less [OF w(1)]) simp
  have wi: "get_le 4 b (slot es i) = Some (nxt_of es ys)" using links_drop [OF li(5)] by simp
  have ls: "last xs \<in> set xs" "last xs < ne" using assms(2) li(4) by simp_all
  have hd: "nxt_of es (xs @ zs) = slot es (hd xs)" for zs using assms(2) by (cases xs) simp_all
  have ne1: "slot es (hd xs) \<noteq> slot es i" using li(3) assms(2) sh(1) by (cases xs) (auto simp: slot_inject)
  have "length xs \<le> 65536" using free_list_length [OF w(2)] sh(3) by simp
  then have fp: "find_prev b (slot es i) (slot es (hd xs)) 0 = Some (Some (slot es (last xs)))"
    using find_prev_spec [OF li(5) assms(2) li(3), of 0] sh(1) by simp
  have "slot es (last xs) + 4 \<le> length b" using slot_in_table(1) [OF w(1) ls(2)] sh(1) by linarith
  then obtain t where t: "put_le 4 b (slot es (last xs)) (nxt_of es ys) = Some t" using put_le_ok by blast
  have lf: "get_le 4 t 20 = Some (last_of es (xs @ i # ys))" using li(2) get_put_slot_header [OF t, of 20 4] by simp
  have lfi: "last_of es (xs @ i # ys) = slot es i \<longleftrightarrow> ys = []"
    using li(3) sh(1) last_in_set [of ys] by (auto simp: last_of_def slot_inject)
  have "24 \<le> length t" using length_put_le [OF t] sh(7) by simp
  then obtain t1 where t1: "(if ys = [] then put_le 4 t 20 (slot es (last xs)) else Some t) = Some t1"
    using put_header_ok [of t 20 4] by (cases "ys = []") auto
  have u1: "length t1 = length t" "get_le 4 t1 (slot es j) = get_le 4 t (slot es j)"
    "entry_payload es t1 j = entry_payload es t j" "q + m \<le> 20 \<Longrightarrow> get_le m t1 q = get_le m t q" for j q m
    using t1 length_put_le [of 4 t 20 _ t1] get_put_header_slot [of 4 t 20 _ t1] payload_put_header [of 4 t 20 _ t1]
      get_put_le_other [of 4 t 20 _ t1 q m] by (auto split: if_splits)
  have w1: "get_le 4 t1 (slot es j) = (if j = last xs then Some (nxt_of es ys) else get_le 4 b (slot es j))" for j
    using get_put_slot [OF t sh(1), of j] nx by (simp add: u1)
  have ff: "get_le 4 t1 16 = Some (slot es (hd xs))"
    using li(1) get_put_slot_header [OF t, of 16 4] by (simp add: u1 hd)
  have l20: "get_le 4 t1 20 = Some (last_of es (xs @ ys))"
    using t1 lf get_put_le_same [of 4 t 20 "slot es (last xs)" t1] slot_in_table(2) [OF w(1) ls(2)] assms(2)
    by (cases "ys = []") (auto simp: last_of_def)
  have e: "alloc_at_unlink b (slot es i) = Some (Some t1)"
    unfolding alloc_at_unlink_def lf_defs using li(1) wi hd ne1 fp t lf lfi t1 by auto
  have "links es t1 (xs @ ys)" by (rule links_splice [OF li(5) assms(2) li(3)]) (rule w1)
  moreover have "get_le 4 t1 (slot es j) = get_le 4 b (slot es j)" if "j \<notin> set (xs @ ys)" for j
    using w1 [of j] that ls(1) by auto
  ultimately have "unlinked es b (xs @ ys) t1"
    using u1(1,3,4) ff l20 hd length_put_le [OF t] get_put_slot_header [OF t] payload_put_slot [OF t sh(1)]
    by (simp add: unlinked_def)
  then show ?thesis using e ff by simp
qed

lemma alloc_at_free:
  assumes "table_wf es ne b fl" "i \<in> set fl"
  shows "\<exists>b'. lfs_table_alloc_at b (slot es i) = Some (b', Some (slot es i)) \<and> table_wf es ne b' (remove1 i fl) \<and>
    entry_payload es b' i = Some (replicate (es - 4) 0) \<and>
    (\<forall>j. j \<noteq> i \<longrightarrow> entry_payload es b' j = entry_payload es b j)"
proof -
  note w = table_wfD [OF assms(1)] and sh = table_shapeD [OF table_wfD(1) [OF assms(1)]]
    and li = table_listsD [OF table_wfD(2) [OF assms(1)]]
  note si = slot_in_table [OF w(1) li(4) [OF assms(2)]]
  obtain xs ys where fl: "fl = xs @ i # ys" using assms(2) by (meson split_list)
  have rm: "remove1 i fl = xs @ ys" using li(3) fl by (simp add: remove1_append)
  obtain t1 t2 where u: "alloc_at_unlink b (slot es i) = Some (Some t1)"
    "do { ff \<leftarrow> get_le 4 t1 16; if ff = 0 then put_le 4 t1 20 0 else Some t1 } = Some t2" "unlinked es b (remove1 i fl) t2"
  proof (cases "xs = []")
    case True
    with assms(1) fl unlink_front [of es ne b i ys] rm that show thesis by auto
  next
    case False
    with assms(1) fl unlink_inner [of es ne b xs i ys] rm that show thesis by auto
  qed
  obtain b' where b': "do { t \<leftarrow> memset0 t2 (slot es i) es; t \<leftarrow> put_le 4 t (slot es i) RT_ENTRY_ALLOCATED;
      na \<leftarrow> get_le 2 t 4; put_le 2 t 4 (na + 1) } = Some b'" "table_wf es ne b' (remove1 i fl)"
    "entry_payload es b' i = Some (replicate (es - 4) 0)" "\<forall>j. j \<noteq> i \<longrightarrow> entry_payload es b' j = entry_payload es b j"
    using claim_finish [OF assms u(3)] by blast
  obtain v where v: "get_le 4 b (slot es i) = Some v" "v \<noteq> RT_ENTRY_ALLOCATED"
    using free_link_bound [OF assms] by force
  have al: "(slot es i - RT_HEADER_SIZE) mod es = 0" "\<not> slot es i < RT_HEADER_SIZE" "\<not> length b \<le> slot es i" "es \<noteq> 0"
    using si(1) sh(1) by (simp_all add: slot_def)
  from u(2) obtain ff where ff: "get_le 4 t1 16 = Some ff" "(if ff = 0 then put_le 4 t1 20 0 else Some t1) = Some t2"
    by (auto simp: bind_eq_Some_conv)
  from b'(1) obtain t3 t4 na where t3: "memset0 t2 (slot es i) es = Some t3"
    "put_le 4 t3 (slot es i) RT_ENTRY_ALLOCATED = Some t4" "get_le 2 t4 4 = Some na" "put_le 2 t4 4 (na + 1) = Some b'"
    by (auto simp: bind_eq_Some_conv)
  have "lfs_table_alloc_at b (slot es i) = Some (b', Some (slot es i))"
    unfolding lfs_table_alloc_at_def lfs_table_esize_def lf_defs
    using al sh(5) v u(1) ff t3 by simp
  with b' show ?thesis by blast
qed

lemma slot_diff_div: "ne \<le> i \<Longrightarrow> 0 < es \<Longrightarrow> (slot es i - slot es ne) div es = i - ne"
proof -
  assume "ne \<le> i" "0 < es"
  then have "slot es i - slot es ne = (i - ne) * es" by (simp add: slot_def diff_mult_distrib)
  then show ?thesis using \<open>0 < es\<close> by simp
qed

lemma slot_aligned: "(slot es i - RT_HEADER_SIZE) mod es = 0" "\<not> slot es i < RT_HEADER_SIZE"
  by (simp_all add: slot_def)

lemma alloc_at_live:
  assumes "table_wf es ne b fl" "i < ne" "i \<notin> set fl"
  shows "lfs_table_alloc_at b (slot es i) = Some (b, Some (slot es i))"
proof -
  note w = table_wfD [OF assms(1)] and sh = table_shapeD [OF table_wfD(1) [OF assms(1)]]
  have "\<not> length b \<le> slot es i" "es \<noteq> 0" using slot_in_table(1) [OF w(1) assms(2)] sh(1) by linarith+
  with assms slot_aligned sh(5) table_listsD(6) [OF w(2)] show ?thesis
    by (simp add: lfs_table_alloc_at_def lfs_table_esize_def lf_defs)
qed

lemma alloc_at_beyond:
  assumes "table_wf es ne b fl" "ne \<le> i" "i < 65535"
  shows "\<exists>b'. lfs_table_alloc_at b (slot es i) = Some (b', Some (slot es i)) \<and>
    table_wf es (i + 1) b' (remove1 i (fl @ [ne..<i + 1])) \<and> entry_payload es b' i = Some (replicate (es - 4) 0) \<and>
    (\<forall>j<ne. j \<noteq> i \<longrightarrow> entry_payload es b' j = entry_payload es b j)"
proof -
  note w = table_wfD [OF assms(1)] and sh = table_shapeD [OF table_wfD(1) [OF assms(1)]]
  have len: "length b \<le> slot es i" "(slot es i - length b) div es + 1 = i - ne + 1" "es \<noteq> 0"
    using assms(2) sh(1) slot_diff_div [OF assms(2), of es] sh(4) by (simp_all add: slot_def)
  have n: "ne + (i - ne + 1) = i + 1" using assms(2) by simp
  obtain t where t: "table_extend b (i - ne + 1) ne = Some (0, t)" "table_wf es (i + 1) t (fl @ [ne..<i + 1])"
    "\<forall>j<ne. entry_payload es t j = entry_payload es b j"
    using extend_wf [OF assms(1), of "i - ne + 1" ne] assms(3) n by auto
  note st = table_shapeD [OF table_wfD(1) [OF t(2)]]
  have "\<not> length t \<le> slot es i" using st(1,4) by (simp add: slot_def)
  then have "lfs_table_alloc_at b (slot es i) = lfs_table_alloc_at t (slot es i)"
    unfolding lfs_table_alloc_at_def lfs_table_esize_def lf_defs
    using slot_aligned sh(5,6) st(5) len t(1) by simp
  moreover have "i \<in> set (fl @ [ne..<i + 1])" using assms(2) by simp
  ultimately show ?thesis using alloc_at_free [OF t(2), of i] t(3) by auto
qed

text \<open>
  C26.  \<open>lfs_table_alloc_at\<close> claims exactly the entry asked for.  An entry that is already
  allocated is returned and nothing changes.  A free entry leaves the free list wherever it is
  in it, is cleared, and no other entry's contents change.  An entry behind the end of the table
  makes the table grow up to it, the entries before it becoming free.
\<close>

theorem table_alloc_at_spec:
  assumes "table_wf es ne b fl" "i < 65535"
  shows "\<exists>b'. lfs_table_alloc_at b (slot es i) = Some (b', Some (slot es i)) \<and>
    (if i < ne \<and> i \<notin> set fl then b' = b
     else table_wf es (max ne (i + 1)) b' (remove1 i (fl @ [ne..<i + 1])) \<and>
       entry_payload es b' i = Some (replicate (es - 4) 0) \<and>
       (\<forall>j<ne. j \<noteq> i \<longrightarrow> entry_payload es b' j = entry_payload es b j))"
proof -
  consider (live) "i < ne" "i \<notin> set fl" | (free) "i < ne" "i \<in> set fl" | (ext) "ne \<le> i" by linarith
  then show ?thesis
  proof cases
    case live
    with alloc_at_live [OF assms(1)] show ?thesis by simp
  next
    case free
    then have "max ne (i + 1) = ne" "fl @ [ne..<i + 1] = fl" by simp_all
    with free alloc_at_free [OF assms(1) free(2)] show ?thesis by auto
  next
    case ext
    then have "max ne (i + 1) = i + 1" by simp
    with alloc_at_beyond [OF assms(1) ext assms(2)] ext show ?thesis by auto
  qed
qed

theorem table_alloc_at_spec_witness:
  "\<exists>b b'. lfs_table_init 8 3 = Some b \<and> lfs_table_alloc_at b 48 = Some (b', Some 48) \<and> table_wf 8 4 b' [0, 1, 2]"
proof -
  obtain b where b: "lfs_table_init 8 3 = Some b" "table_wf 8 3 b [0..<3]" using table_init_wf [of 8 3] by auto
  have "slot 8 3 = 48" "remove1 3 ([0..<3] @ [3..<3 + 1]) = [0, 1, 2::nat]" "max 3 (3 + 1) = (4::nat)"
    by (simp_all add: slot_def upt_rec)
  with table_alloc_at_spec [OF b(2), of 3] b(1) show ?thesis by auto
qed

lemma alloc_after_extend:
  assumes "get_le 4 t 16 = Some 0" "table_extend t 16 0xffffffff = Some (0, t')" "get_le 4 t' 16 = Some v" "v \<noteq> 0"
  shows "lfs_table_alloc t = lfs_table_alloc t'"
  unfolding lfs_table_alloc_def lf_defs using assms by simp

lemma alloc_grow:
  assumes "table_wf es ne b []" "ne + 16 < 65536"
  shows "\<exists>b'. lfs_table_alloc b = Some (b', Some (slot es ne)) \<and> table_wf es (ne + 16) b' [Suc ne..<ne + 16] \<and>
    entry_payload es b' ne = Some (replicate (es - 4) 0) \<and> (\<forall>j<ne. entry_payload es b' j = entry_payload es b j)"
proof -
  obtain t where t: "table_extend b 16 0xffffffff = Some (0, t)" "table_wf es (ne + 16) t [ne..<ne + 16]"
    "\<forall>j<ne. entry_payload es t j = entry_payload es b j"
    using extend_wf [OF assms(1), of 16 "0xffffffff"] assms(2) by auto
  have up: "[ne..<ne + 16] = ne # [Suc ne..<ne + 16]" by (rule upt_conv_Cons) simp
  have "get_le 4 t 16 = Some (slot es ne)" using table_listsD(1) [OF table_wfD(2) [OF t(2)]] unfolding up by simp
  then have "lfs_table_alloc b = lfs_table_alloc t"
    using alloc_after_extend [OF _ t(1)] table_listsD(1) [OF table_wfD(2) [OF assms(1)]] by simp
  with alloc_head [of es "ne + 16" t ne "[Suc ne..<ne + 16]"] t(2,3) up show ?thesis by auto
qed

lemma alloc_full:
  assumes "table_wf es ne b []" "\<not> ne + 16 < 65536"
  shows "lfs_table_alloc b = Some (b, None)"
proof -
  note sh = table_shapeD [OF table_wfD(1) [OF assms(1)]]
  have "u32 (ne + 16) > 0xffff" using assms(2) sh(3) by simp
  with sh table_listsD(1) [OF table_wfD(2) [OF assms(1)]] show ?thesis
    by (simp add: lfs_table_alloc_def table_extend_def lfs_table_esize_def lf_defs)
qed

text \<open>
  C25.  \<open>lfs_table_alloc\<close> takes the first entry of the free list, cleared, and leaves every other
  entry's contents alone.  When the list is empty the table grows by 16 entries first, and only
  a table that would exceed 65535 entries makes the allocation fail, unchanged.
\<close>

theorem table_alloc_spec:
  assumes "table_wf es ne b fl"
  shows "case (if fl = [] \<and> ne + 16 < 65536 then (ne + 16, [ne..<ne + 16]) else (ne, fl)) of
      (n, []) \<Rightarrow> lfs_table_alloc b = Some (b, None)
    | (n, i # is) \<Rightarrow> \<exists>b'. lfs_table_alloc b = Some (b', Some (slot es i)) \<and> table_wf es n b' is \<and>
        entry_payload es b' i = Some (replicate (es - 4) 0) \<and>
        (\<forall>j<ne. j \<noteq> i \<longrightarrow> entry_payload es b' j = entry_payload es b j)"
proof (cases fl)
  case Nil
  have up: "[ne..<ne + 16] = ne # [Suc ne..<ne + 16]" by (rule upt_conv_Cons) simp
  from Nil show ?thesis using alloc_grow [of es ne b] alloc_full [of es ne b] assms unfolding up by auto
next
  case (Cons i "is")
  with alloc_head [of es ne b i "is"] assms show ?thesis by auto
qed

theorem table_alloc_spec_witness:
  "\<exists>b b'. lfs_table_init 8 2 = Some b \<and> lfs_table_alloc b = Some (b', Some 24) \<and> table_wf 8 2 b' [1]"
proof -
  obtain b where b: "lfs_table_init 8 2 = Some b" "table_wf 8 2 b [0..<2]" using table_init_wf [of 8 2] by auto
  have "[0..<2] = [0, 1::nat]" "slot 8 0 = 24" by (simp_all add: slot_def upt_rec)
  with table_alloc_spec [OF b(2)] b(1) show ?thesis by auto
qed

section \<open>The allocator as an interface\<close>

text \<open>
  What the passes of a replay rely on when they keep transactions, dirty pages and open
  attributes in restart tables: an allocator of entries that never touches a live entry.
  \<open>run_ops\<close> is a sequence of calls made by a client.
\<close>

datatype 'e entry_op = Alloc | Claim 'e | Release 'e

primrec op_on :: "('e \<Rightarrow> bool) \<Rightarrow> 'e entry_op \<Rightarrow> bool" where
  "op_on ok Alloc = True"
| "op_on ok (Claim e) = ok e"
| "op_on ok (Release e) = ok e"

primrec run_op :: "('t \<Rightarrow> ('t \<times> 'e option) option) \<Rightarrow> ('t \<Rightarrow> 'e \<Rightarrow> ('t \<times> 'e option) option) \<Rightarrow>
    ('t \<Rightarrow> 'e \<Rightarrow> 't option) \<Rightarrow> 'e entry_op \<Rightarrow> 't \<Rightarrow> 't option" where
  "run_op al cl re Alloc t = map_option fst (al t)"
| "run_op al cl re (Claim e) t = map_option fst (cl t e)"
| "run_op al cl re (Release e) t = re t e"

primrec run_ops :: "('t \<Rightarrow> ('t \<times> 'e option) option) \<Rightarrow> ('t \<Rightarrow> 'e \<Rightarrow> ('t \<times> 'e option) option) \<Rightarrow>
    ('t \<Rightarrow> 'e \<Rightarrow> 't option) \<Rightarrow> 'e entry_op list \<Rightarrow> 't \<Rightarrow> 't option" where
  "run_ops al cl re [] t = Some t"
| "run_ops al cl re (x # xs) t = Option.bind (run_op al cl re x t) (run_ops al cl re xs)"

locale entry_allocator =
  fixes inv :: "'t \<Rightarrow> bool" and valid :: "'e \<Rightarrow> bool" and live :: "'t \<Rightarrow> 'e \<Rightarrow> bool"
    and content :: "'t \<Rightarrow> 'e \<Rightarrow> 'c option"
    and alloc :: "'t \<Rightarrow> ('t \<times> 'e option) option" and claim :: "'t \<Rightarrow> 'e \<Rightarrow> ('t \<times> 'e option) option"
    and release :: "'t \<Rightarrow> 'e \<Rightarrow> 't option"
  assumes alloc_law: "inv t \<Longrightarrow> \<exists>t' r. alloc t = Some (t', r) \<and> inv t' \<and>
      (case r of None \<Rightarrow> t' = t | Some e \<Rightarrow> \<not> live t e \<and> (\<forall>x. live t' x \<longleftrightarrow> live t x \<or> x = e) \<and>
         (\<forall>x. live t x \<longrightarrow> content t' x = content t x))"
    and claim_law: "inv t \<Longrightarrow> valid e \<Longrightarrow> \<exists>t'. claim t e = Some (t', Some e) \<and> inv t' \<and>
      (\<forall>x. live t' x \<longleftrightarrow> live t x \<or> x = e) \<and> (\<forall>x. live t x \<longrightarrow> content t' x = content t x)"
    and release_law: "inv t \<Longrightarrow> valid e \<Longrightarrow> \<exists>t'. release t e = Some t' \<and> inv t' \<and>
      (\<forall>x. live t' x \<longleftrightarrow> live t x \<and> x \<noteq> e) \<and> (\<forall>x. live t x \<and> x \<noteq> e \<longrightarrow> content t' x = content t x)"
begin

lemma run_op_frame:
  assumes "inv t" "op_on valid x"
  shows "\<exists>t'. run_op alloc claim release x t = Some t' \<and> inv t' \<and>
    (\<forall>e. live t e \<and> x \<noteq> Release e \<longrightarrow> live t' e \<and> content t' e = content t e)"
proof (cases x)
  case Alloc
  obtain t' r where r: "alloc t = Some (t', r)" "inv t'"
    "case r of None \<Rightarrow> t' = t | Some e \<Rightarrow> \<not> live t e \<and> (\<forall>x. live t' x \<longleftrightarrow> live t x \<or> x = e) \<and>
       (\<forall>x. live t x \<longrightarrow> content t' x = content t x)" using alloc_law [OF assms(1)] by blast
  with Alloc show ?thesis by (cases r) auto
next
  case (Claim e)
  with claim_law [OF assms(1), of e] assms(2) show ?thesis by auto
next
  case (Release e)
  with release_law [OF assms(1), of e] assms(2) show ?thesis by auto
qed

lemma run_ops_frame:
  assumes "inv t" "list_all (op_on valid) xs"
  shows "\<exists>t'. run_ops alloc claim release xs t = Some t' \<and> inv t' \<and>
    (\<forall>e. live t e \<and> Release e \<notin> set xs \<longrightarrow> live t' e \<and> content t' e = content t e)"
  using assms
proof (induction xs arbitrary: t)
  case (Cons x xs)
  obtain t1 where t1: "run_op alloc claim release x t = Some t1" "inv t1"
    "\<forall>e. live t e \<and> x \<noteq> Release e \<longrightarrow> live t1 e \<and> content t1 e = content t e"
    using run_op_frame [of t x] Cons.prems by auto
  with Cons.IH [of t1] Cons.prems obtain t' where "run_ops alloc claim release xs t1 = Some t'" "inv t'"
    "\<forall>e. live t1 e \<and> Release e \<notin> set xs \<longrightarrow> live t' e \<and> content t' e = content t1 e" by auto
  with t1 show ?case by auto
qed simp

end

text \<open>Restart tables with entries of \<open>es\<close> bytes; entries are named by their offsets.\<close>

definition table_inv :: "nat \<Rightarrow> buf \<Rightarrow> bool" where
  "table_inv es b \<longleftrightarrow> (\<exists>ne fl. table_wf es ne b fl)"

definition entry_off :: "nat \<Rightarrow> nat \<Rightarrow> bool" where
  "entry_off es off \<longleftrightarrow> RT_HEADER_SIZE \<le> off \<and> (off - RT_HEADER_SIZE) mod es = 0 \<and> (off - RT_HEADER_SIZE) div es < 65535"

definition entry_live :: "nat \<Rightarrow> buf \<Rightarrow> nat \<Rightarrow> bool" where
  "entry_live es b off \<longleftrightarrow> RT_HEADER_SIZE \<le> off \<and> (off - RT_HEADER_SIZE) mod es = 0 \<and> off + es \<le> length b \<and>
     lf_get32 b off = Some RT_ENTRY_ALLOCATED"

definition entry_data :: "nat \<Rightarrow> buf \<Rightarrow> nat \<Rightarrow> buf option" where
  "entry_data es b off = slice b (off + 4) (es - 4)"

lemma off_slot:
  "(24 :: nat) \<le> off \<Longrightarrow> (off - 24) mod es = 0 \<Longrightarrow> slot es ((off - 24) div es) = off"
  by (simp add: slot_def) (metis Nat.add_diff_assoc div_mult_mod_eq add_diff_cancel_left' add.right_neutral le_add_diff_inverse)

lemma entry_off_slot: "entry_off es off \<Longrightarrow> \<exists>i<65535. off = slot es i"
  using off_slot by (auto simp: entry_off_def intro!: exI [of _ "(off - 24) div es"])

lemma entry_live_iff:
  assumes "table_wf es ne b fl"
  shows "entry_live es b off \<longleftrightarrow> (\<exists>i<ne. i \<notin> set fl \<and> off = slot es i)"
proof
  note w = table_wfD [OF assms] and sh = table_shapeD [OF table_wfD(1) [OF assms]]
    and li = table_listsD [OF table_wfD(2) [OF assms]]
  show "entry_live es b off" if "\<exists>i<ne. i \<notin> set fl \<and> off = slot es i"
  proof -
    from that obtain i where i: "i < ne" "i \<notin> set fl" "off = slot es i" by blast
    then show ?thesis using slot_in_table(1) [OF w(1) i(1)] li(6) by (simp add: entry_live_def lf_defs slot_def)
  qed
  assume l: "entry_live es b off"
  define i where "i = (off - 24) div es"
  from l have off: "off = slot es i" using off_slot [of off es] by (simp add: entry_live_def i_def)
  have "i < ne"
  proof (rule ccontr)
    assume "\<not> i < ne"
    then have "slot es ne \<le> slot es i" by (simp add: slot_def)
    with l off sh(1,4) show False by (simp add: entry_live_def)
  qed
  moreover have "i \<notin> set fl" using free_link_bound [OF assms, of i] l off by (auto simp: entry_live_def lf_defs)
  ultimately show "\<exists>i<ne. i \<notin> set fl \<and> off = slot es i" using off by blast
qed

lemma entry_data_slot: "entry_data es b (slot es i) = entry_payload es b i"
  by (simp add: entry_data_def entry_payload_def)

text \<open>How the set of live entries changes when the free list does.\<close>

lemma live_after:
  assumes "table_wf es ne b fl" "table_wf es ne' b' fl'" "\<And>i. (i < ne' \<and> i \<notin> set fl') \<longleftrightarrow> P i"
  shows "entry_live es b' off \<longleftrightarrow> (\<exists>i. P i \<and> off = slot es i)"
  using entry_live_iff [OF assms(2)] assms(3) by blast

lemma data_after:
  assumes "table_wf es ne b fl" "\<And>j. j < ne \<Longrightarrow> j \<notin> set fl \<Longrightarrow> j \<noteq> i \<Longrightarrow> entry_payload es b' j = entry_payload es b j"
    "entry_live es b x" "x \<noteq> slot es i"
  shows "entry_data es b' x = entry_data es b x"
proof -
  from assms(1,3) obtain j where j: "j < ne" "j \<notin> set fl" "x = slot es j" using entry_live_iff by blast
  with assms(4) have "j \<noteq> i" by auto
  with j assms(2) show ?thesis by (simp add: entry_data_slot)
qed

lemma claimed_laws:
  assumes "table_wf es ne b fl" "table_wf es n b' fl'" "\<not> (i < ne \<and> i \<notin> set fl)"
    "\<And>j. (j < n \<and> j \<notin> set fl') \<longleftrightarrow> (j < ne \<and> j \<notin> set fl) \<or> j = i"
    "\<And>j. j < ne \<Longrightarrow> j \<noteq> i \<Longrightarrow> entry_payload es b' j = entry_payload es b j"
  shows "table_inv es b'" and "\<not> entry_live es b (slot es i)"
    and "entry_live es b' x \<longleftrightarrow> entry_live es b x \<or> x = slot es i"
    and "entry_live es b x \<Longrightarrow> entry_data es b' x = entry_data es b x"
proof -
  have es: "0 < es" using table_shapeD(1) [OF table_wfD(1) [OF assms(1)]] by simp
  show "table_inv es b'" using assms(2) by (auto simp: table_inv_def)
  show nl: "\<not> entry_live es b (slot es i)"
    using entry_live_iff [OF assms(1)] assms(3) slot_inject [OF es] by auto
  show "entry_live es b' x \<longleftrightarrow> entry_live es b x \<or> x = slot es i"
    using live_after [OF assms(1,2,4)] entry_live_iff [OF assms(1)] by auto
  show "entry_live es b x \<Longrightarrow> entry_data es b' x = entry_data es b x"
    using data_after [OF assms(1), of i b' x] assms(5) nl by auto
qed

lemma alloc_law_table:
  assumes "table_inv es b"
  shows "\<exists>b' r. lfs_table_alloc b = Some (b', r) \<and> table_inv es b' \<and>
    (case r of None \<Rightarrow> b' = b | Some e \<Rightarrow> \<not> entry_live es b e \<and> (\<forall>x. entry_live es b' x \<longleftrightarrow> entry_live es b x \<or> x = e) \<and>
       (\<forall>x. entry_live es b x \<longrightarrow> entry_data es b' x = entry_data es b x))"
proof -
  from assms obtain ne fl where wf: "table_wf es ne b fl" by (auto simp: table_inv_def)
  note li = table_listsD [OF table_wfD(2) [OF wf]]
  consider (take) i "is" where "fl = i # is" | (grow) "fl = []" "ne + 16 < 65536" | (full) "fl = []" "\<not> ne + 16 < 65536"
    by (cases fl) auto
  then show ?thesis
  proof cases
    case take
    with alloc_head [of es ne b i "is"] wf obtain b' where b': "lfs_table_alloc b = Some (b', Some (slot es i))"
      "table_wf es ne b' is" "\<forall>j. j \<noteq> i \<longrightarrow> entry_payload es b' j = entry_payload es b j" by auto
    have "i \<notin> set is" "i < ne" using li(3,4) take by simp_all
    then show ?thesis using b' claimed_laws [OF wf b'(2), of i] take by auto
  next
    case grow
    with alloc_grow [of es ne b] wf obtain b' where b': "lfs_table_alloc b = Some (b', Some (slot es ne))"
      "table_wf es (ne + 16) b' [Suc ne..<ne + 16]" "\<forall>j<ne. entry_payload es b' j = entry_payload es b j" by auto
    then show ?thesis using claimed_laws [OF wf b'(2), of ne] grow(1) by fastforce
  next
    case full
    with alloc_full [of es ne b] wf assms show ?thesis by auto
  qed
qed

lemma claim_law_table:
  assumes "table_inv es b" "entry_off es e"
  shows "\<exists>b'. lfs_table_alloc_at b e = Some (b', Some e) \<and> table_inv es b' \<and>
    (\<forall>x. entry_live es b' x \<longleftrightarrow> entry_live es b x \<or> x = e) \<and> (\<forall>x. entry_live es b x \<longrightarrow> entry_data es b' x = entry_data es b x)"
proof -
  from assms obtain ne fl i where wf: "table_wf es ne b fl" and i: "e = slot es i" "i < 65535"
    using entry_off_slot by (fastforce simp: table_inv_def)
  note li = table_listsD [OF table_wfD(2) [OF wf]]
  consider (live) "i < ne" "i \<notin> set fl" | (free) "i < ne" "i \<in> set fl" | (ext) "ne \<le> i" by linarith
  then show ?thesis
  proof cases
    case live
    then have "entry_live es b e" using entry_live_iff [OF wf] i(1) by blast
    with alloc_at_live [OF wf live] i assms(1) show ?thesis by auto
  next
    case free
    with alloc_at_free [OF wf free(2)] obtain b' where b': "lfs_table_alloc_at b (slot es i) = Some (b', Some (slot es i))"
      "table_wf es ne b' (remove1 i fl)" "\<forall>j. j \<noteq> i \<longrightarrow> entry_payload es b' j = entry_payload es b j" by blast
    then show ?thesis using claimed_laws [OF wf b'(2), of i] free li(3) i(1) by auto
  next
    case ext
    with alloc_at_beyond [OF wf ext i(2)] obtain b' where b': "lfs_table_alloc_at b (slot es i) = Some (b', Some (slot es i))"
      "table_wf es (i + 1) b' (remove1 i (fl @ [ne..<i + 1]))" "\<forall>j<ne. j \<noteq> i \<longrightarrow> entry_payload es b' j = entry_payload es b j"
      by blast
    have "i \<notin> set fl" using li(4) ext by (meson leD)
    then have "remove1 i (fl @ [ne..<i + 1]) = fl @ [ne..<i]" using ext by (simp add: remove1_append)
    then have "(j < i + 1 \<and> j \<notin> set (remove1 i (fl @ [ne..<i + 1]))) \<longleftrightarrow> (j < ne \<and> j \<notin> set fl) \<or> j = i" for j
      using ext \<open>i \<notin> set fl\<close> by auto
    then show ?thesis using claimed_laws [OF wf b'(2), of i] ext b' i(1) by auto
  qed
qed

lemma free_beyond:
  assumes "table_wf es ne b fl" "ne \<le> i" "i < 65535"
  shows "lfs_table_free_idx b (slot es i) = Some b"
proof -
  note w = table_wfD [OF assms(1)] and sh = table_shapeD [OF table_wfD(1) [OF assms(1)]]
    and li = table_listsD [OF table_wfD(2) [OF assms(1)]]
  have "slot es i + es = slot es (i + 1)" by (simp add: slot_def)
  then have "slot es i + es < 4294967296" using slot_bound [OF sh(2), of "i + 1"] assms(3) by simp
  moreover have "length b < slot es i + es"
    unfolding sh(4) slot_def using sh(1) mult_le_mono1 [OF assms(2), of es] by linarith
  ultimately show ?thesis using li(2) sh(5)
    by (simp add: lfs_table_free_idx_def lfs_table_entry_ok_def lfs_table_esize_def lf_defs)
qed

lemma release_law_table:
  assumes "table_inv es b" "entry_off es e"
  shows "\<exists>b'. lfs_table_free_idx b e = Some b' \<and> table_inv es b' \<and>
    (\<forall>x. entry_live es b' x \<longleftrightarrow> entry_live es b x \<and> x \<noteq> e) \<and>
    (\<forall>x. entry_live es b x \<and> x \<noteq> e \<longrightarrow> entry_data es b' x = entry_data es b x)"
proof -
  from assms obtain ne fl i where wf: "table_wf es ne b fl" and i: "e = slot es i" "i < 65535"
    using entry_off_slot by (fastforce simp: table_inv_def)
  have es: "0 < es" using table_shapeD(1) [OF table_wfD(1) [OF wf]] by simp
  show ?thesis
  proof (cases "i < ne \<and> i \<notin> set fl")
    case True
    then obtain b' g where fr: "lfs_table_free_idx b (slot es i) = Some b'"
      "table_wf es ne b' (if slot es i < g then i # fl else fl @ [i])" "\<forall>j. entry_payload es b' j = entry_payload es b j"
      using free_live [OF wf] by blast
    obtain fl' where b': "lfs_table_free_idx b (slot es i) = Some b'" "table_wf es ne b' fl'"
      "set fl' = insert i (set fl)" "\<forall>j. entry_payload es b' j = entry_payload es b j"
      by (rule that [OF fr(1,2) _ fr(3)]) simp
    then have "entry_live es b' x \<longleftrightarrow> entry_live es b x \<and> x \<noteq> e" for x
      using entry_live_iff [OF wf] entry_live_iff [OF b'(2)] slot_inject [OF es] i(1) by auto
    moreover have "entry_live es b x \<and> x \<noteq> e \<Longrightarrow> entry_data es b' x = entry_data es b x" for x
      using data_after [OF wf, of i b' x] b'(4) i(1) by simp
    ultimately show ?thesis using b'(1,2) i(1) by (auto simp: table_inv_def)
  next
    case False
    then have "lfs_table_free_idx b e = Some b"
      using free_dead [OF wf, of i] free_beyond [OF wf, of i] i by force
    moreover have "\<not> entry_live es b e" using False entry_live_iff [OF wf] slot_inject [OF es] i(1) by auto
    ultimately show ?thesis using assms(1) by auto
  qed
qed

interpretation tbl: entry_allocator "table_inv es" "entry_off es" "entry_live es" "entry_data es"
  lfs_table_alloc lfs_table_alloc_at lfs_table_free_idx for es
  by unfold_locales (fact alloc_law_table claim_law_table release_law_table)+

text \<open>
  C4.  Any sequence of allocations, claims of given entries and releases on a restart table runs
  without leaving the table, keeps it well-formed, and leaves every live entry that the sequence
  does not release live and with its contents: a new allocation never overlaps one in use.
\<close>

theorem table_ops_frame:
  assumes "table_inv es b" "list_all (op_on (entry_off es)) xs"
  shows "\<exists>b'. run_ops lfs_table_alloc lfs_table_alloc_at lfs_table_free_idx xs b = Some b' \<and> table_inv es b' \<and>
    (\<forall>e. entry_live es b e \<and> Release e \<notin> set xs \<longrightarrow> entry_live es b' e \<and> entry_data es b' e = entry_data es b e)"
  by (rule tbl.run_ops_frame [OF assms])

theorem table_ops_frame_witness:
  "\<exists>b b'. lfs_table_init 8 2 = Some b \<and>
    run_ops lfs_table_alloc lfs_table_alloc_at lfs_table_free_idx [Alloc, Claim 40, Release 24, Alloc] b = Some b' \<and>
    table_inv 8 b'"
proof -
  obtain b where b: "lfs_table_init 8 2 = Some b" "table_wf 8 2 b [0..<2]" using table_init_wf [of 8 2] by auto
  then have "table_inv 8 b" by (auto simp: table_inv_def)
  from table_ops_frame [OF this, of "[Alloc, Claim 40, Release 24, Alloc]"] b(1) show ?thesis
    by (auto simp: entry_off_def)
qed

section \<open>Checking a table read from the log\<close>

lemma check_entries_total:
  assumes "\<forall>i\<in>set is. RT_HEADER_SIZE + i * rsize + 4 \<le> length b"
  shows "\<exists>ok. check_entries b rsize is = Some ok"
  using assms
proof (induction "is")
  case (Cons i "is")
  then obtain v where "get_le 4 b (24 + i * rsize) = Some v" using get_le_ok by fastforce
  with Cons show ?case by (auto simp: lf_defs)
qed auto

lemma check_free_list_total:
  assumes "off = 0 \<or> off \<le> ts - 4" "4 \<le> ts" "ts \<le> length b"
  shows "\<exists>ok. check_free_list b ts ne off guard = Some ok"
  using assms
proof (induction b ts ne off guard rule: check_free_list.induct)
  case (1 b ts ne off guard)
  show ?case
  proof (cases "off = 0 \<or> off = RT_ENTRY_ALLOCATED \<or> guard > ne")
    case True
    then show ?thesis by (subst check_free_list.simps) auto
  next
    case False
    with "1.prems" have "off + 4 \<le> length b" by linarith
    then obtain v where v: "get_le 4 b off = Some v" using get_le_ok by blast
    show ?thesis
    proof (cases "v > ts - 4")
      case True
      with v False show ?thesis by (subst check_free_list.simps) (auto simp: lf_defs)
    next
      case le: False
      with "1.IH" [of v] False v "1.prems" have "\<exists>ok. check_free_list b ts ne v (guard + 1) = Some ok"
        by (simp add: lf_defs)
      with v le False show ?thesis by (subst check_free_list.simps) (simp add: lf_defs)
    qed
  qed
qed

text \<open>
  C28.  \<open>lfs_table_check\<close> decides every buffer read from the log: whatever the bytes are, it
  ends, never reads outside the buffer, and it accepts only a buffer that holds the header and
  all the entries the header announces, so that \<open>lfs_table_copy\<close> of an accepted table succeeds.
\<close>

theorem table_check_safe:
  assumes "length b < 4294967296"
  shows "\<exists>ok. lfs_table_check b (length b) = Some ok \<and>
    (if ok then \<exists>t'. lfs_table_copy t b (length b) = Some (0, Some t') \<and> table_bytes t' = Some (length t') else True)"
proof (cases "length b < 24")
  case True
  then show ?thesis by (auto simp: lfs_table_check_def)
next
  case False
  then obtain rsize ne ff lf na where g: "get_le 2 b 0 = Some rsize" "get_le 2 b 2 = Some ne"
    "get_le 4 b 16 = Some ff" "get_le 4 b 20 = Some lf" "get_le 2 b 4 = Some na"
    using get_le_ok [of 0 2 b] get_le_ok [of 2 2 b] get_le_ok [of 16 4 b] get_le_ok [of 20 4 b] get_le_ok [of 4 2 b]
    by fastforce
  have bd: "rsize < 65536" "ne < 65536" using get_le_less [OF g(1)] get_le_less [OF g(2)] by simp_all
  have ts: "u32 (24 + rsize * ne) = slot rsize ne" "24 \<le> slot rsize ne" "slot rsize ne < 4294967296"
    using slot_bound [OF bd] by (simp_all add: slot_def mult.commute)
  have s4: "sub32 (slot rsize ne) 4 = slot rsize ne - 4" by (rule sub32_id) (use ts in linarith)+
  define rej where "rej \<longleftrightarrow> rsize = 0 \<or> rsize < 4 \<or> rsize > length b \<or> length b < slot rsize ne \<or> na > ne \<or>
    ff > slot rsize ne - 4 \<or> lf > slot rsize ne - 4 \<or> (ff \<noteq> 0 \<and> ff < 24) \<or> (lf \<noteq> 0 \<and> lf < 24)"
  have e: "lfs_table_check b (length b) = (if rej then Some False else
      do { ok \<leftarrow> check_entries b rsize [0..<ne]; if \<not> ok then Some False else check_free_list b (slot rsize ne) ne ff 0 })"
    using False by (simp add: lfs_table_check_def lf_defs Let_def rej_def g ts(1) s4 cong: if_cong)
  show ?thesis
  proof (cases rej)
    case True
    with e show ?thesis by auto
  next
    case nrej: False
    then have r: "4 \<le> rsize" "slot rsize ne \<le> length b" "ff \<le> slot rsize ne - 4" by (auto simp: rej_def)
    have "24 + i * rsize + 4 \<le> length b" if "i < ne" for i
      using slot_next [OF that, of rsize] r by (simp add: slot_def)
    then obtain ok1 where ok1: "check_entries b rsize [0..<ne] = Some ok1"
      using check_entries_total [of "[0..<ne]" rsize b] by auto
    obtain ok2 where ok2: "check_free_list b (slot rsize ne) ne ff 0 = Some ok2"
      using check_free_list_total [of ff "slot rsize ne" b ne 0] r ts by auto
    have cp: "lfs_table_copy t b (length b) = Some (0, Some (take (slot rsize ne) b))"
      using g ts r(2) by (simp add: lfs_table_copy_def table_bytes_def lf_defs slice_def mult.commute)
    have "get_le 2 (take (slot rsize ne) b) q = get_le 2 b q" if "q + 2 \<le> 24" for q
    proof -
      have "slice (take (slot rsize ne) b) q 2 = slice b (0 + q) 2"
        using r(2) by (intro slice_slice [of b 0 "slot rsize ne"], simp add: slice_def) (use that ts(2) in linarith)
      then show ?thesis by (simp add: get_le_def)
    qed
    then have "table_bytes (take (slot rsize ne) b) = Some (length (take (slot rsize ne) b))"
      using g ts r(2) by (simp add: table_bytes_def lf_defs mult.commute)
    with cp e nrej ok1 ok2 show ?thesis by auto
  qed
qed

theorem table_check_safe_witness:
  "length (replicate 40 0 :: buf) < 4294967296 \<and>
    lfs_table_check (replicate 40 0) (length (replicate 40 0 :: buf)) \<noteq> None"
  using table_check_safe [of "replicate 40 0" None] by auto

text \<open>
  C29.  A finding: \<open>lfs_table_entry_ok\<close> adds the entry size to the offset in 32 bits.  An offset
  within the last entry size of the 32-bit range therefore passes the test \<open>off + esize <= bytes\<close>
  and the entry's first word is read outside the table.
\<close>

theorem entry_ok_wraps:
  assumes "table_wf es ne b fl" "0 < ne" "4294967296 - es \<le> off" "off < 4294967296"
  shows "lfs_table_entry_ok (Some b) off = None"
proof -
  note w = table_wfD [OF assms(1)] and sh = table_shapeD [OF table_wfD(1) [OF assms(1)]]
  obtain k where k: "off + es = k + 4294967296" "k < es"
    by (rule that [of "off + es - 4294967296"]) (use assms(3,4) sh(2) in linarith)+
  then have "u32 (off + es) = k" using sh(2) by (simp add: u32_def)
  moreover have "es \<le> length b" using slot_in_table(1) [OF w(1) assms(2)] by linarith
  ultimately have "u32 (off + es) \<le> length b" using k(2) by linarith
  moreover have "get_le 4 b off = None" using sh(2,8) assms(3) by (simp add: buf_simps)
  ultimately show ?thesis using sh(2,5) assms(3) by (simp add: lfs_table_entry_ok_def lfs_table_esize_def lf_defs)
qed

theorem entry_ok_wraps_witness:
  "\<exists>b. lfs_table_init 40 3 = Some b \<and> lfs_table_entry_ok (Some b) 4294967290 = None"
proof -
  obtain b where b: "lfs_table_init 40 3 = Some b" "table_wf 40 3 b [0..<3]" using table_init_wf [of 40 3] by auto
  from entry_ok_wraps [OF b(2), of 4294967290] b(1) show ?thesis by simp
qed

end
