(* ===== verification/Lfs_Records.thy ===== *)
theory Lfs_Records
  imports Lfs_State Lfs_Fixup
begin

text \<open>
  Reading pages and records of the log (\<open>lfs_read_page\<close> of core/logfile/logfile_pages.c and
  core/logfile/logfile_records.c): assembling a record that may span pages, finding the next
  one, validating the framing of an NTFS client record and decoding it.

  The read callback of \<open>struct ntfs_log_io\<close> is the field \<open>io_read\<close>: an offset and a length
  give an error code and the bytes placed in the caller's buffer.
\<close>

section \<open>Pages\<close>

text \<open>
  \<open>lfs_read_page log vbo want_torn\<close> gives the return code, the page buffer and \<open>*torn\<close>;
  \<open>want_torn\<close> says that the caller passed a pointer for \<open>torn\<close>.
\<close>

definition page_override :: "(nat \<times> buf) list \<Rightarrow> nat \<Rightarrow> buf option" where
  "page_override os pvbo = map_option snd (find (\<lambda>p. fst p = pvbo) os)"

definition lfs_read_page :: "('a) lfs_log_scheme \<Rightarrow> nat \<Rightarrow> bool \<Rightarrow> (int \<times> buf \<times> bool) option" where
  "lfs_read_page log vbo want_torn = (
     let pvbo = and_not32 vbo (page_mask log) in
     if pvbo \<ge> l_size log \<or> u32 (pvbo + page_size log) > orig_size log then Some (- EINVAL, [], False)
     else (case page_override (ovr log) pvbo of
       Some p \<Rightarrow> do { page \<leftarrow> slice p 0 (page_size log); Some (0, page, False) }
     | None \<Rightarrow> (
         let (err, page) = io_read log pvbo (page_size log) in
         if err \<noteq> 0 then Some (io_err err, page, False)
         else do {
           magic \<leftarrow> lf_get32 page 0;
           if magic = LFS_MAGIC_EMPTY then Some (0, page, False)
           else if magic = LFS_MAGIC_RCRD \<or> magic = LFS_MAGIC_RSTR \<or> magic = LFS_MAGIC_CHKD then do {
             (err, page, t) \<leftarrow> lfs_fixup_post_read page (page_size log) LFS_SECTOR_SIZE;
             if err \<noteq> 0 then Some (err, page, False)
             else if t \<and> \<not> want_torn then Some (- EINVAL, page, False)
             else Some (0, page, t) }
           else Some (0, page, False) })))"

section \<open>Records\<close>

record lfs_record =
  rec_hdr :: buf
  rec_data :: buf
  rec_data_len :: nat
  rec_data_avail :: nat
  rec_lsn :: nat

definition no_record :: lfs_record where
  "no_record = \<lparr>rec_hdr = replicate LR_HEADER_SIZE 0, rec_data = [], rec_data_len = 0,
     rec_data_avail = 0, rec_lsn = 0\<rparr>"

text \<open>
  \<open>read_record_data\<close>: the loop over the pages of a record, and its start.  \<open>acc\<close> is what was
  copied into the caller's buffer so far.  A loop that never ends is \<open>None\<close>.
\<close>

partial_function (option) read_data_loop ::
    "('a) lfs_log_scheme \<Rightarrow> nat \<Rightarrow> nat \<Rightarrow> nat \<Rightarrow> nat \<Rightarrow> buf \<Rightarrow> (int \<times> buf) option" where
  "read_data_loop log lsn data_len vbo off acc = (
     let tail = (let t = sub32 (page_size log) off in if t \<ge> data_len then data_len else t);
         data_len = data_len - tail
     in Option.bind (lfs_read_page log vbo False) (\<lambda>r. case r of (err, page, t) \<Rightarrow>
       if err \<noteq> 0 then Some (err, acc)
       else Option.bind (lf_get32 page PG_MAGIC) (\<lambda>magic.
         if magic \<noteq> LFS_MAGIC_RCRD then Some (- EINVAL, acc)
         else Option.bind (lf_get64 page PG_LAST_LSN) (\<lambda>page_lsn.
           if lsn > page_lsn then Some (- EINVAL, acc)
           else Option.bind (slice page off tail) (\<lambda>part.
             Option.bind (lf_get32 page PG_FLAGS) (\<lambda>flags.
               Option.bind (lf_get64 page PG_LAST_END_LSN) (\<lambda>end_lsn.
                 if data_len = 0 then
                   (if flags AND LFS_PAGE_LOG_RECORD_END = 0 \<or> lsn > end_lsn
                    then Some (- EINVAL, acc @ part)
                    else Some (0, acc @ part))
                 else if page_lsn = end_lsn then Some (- EINVAL, acc @ part)
                 else read_data_loop log lsn data_len (lfs_next_page_off log vbo) (data_off log)
                        (acc @ part))))))))"

definition read_record_data :: "('a) lfs_log_scheme \<Rightarrow> nat \<Rightarrow> nat \<Rightarrow> (int \<times> buf) option" where
  "read_record_data log lsn data_len =
     read_data_loop log lsn data_len
       (and_not32 (lfs_lsn_to_vbo log lsn) (page_mask log))
       (u32 ((lfs_lsn_to_vbo log lsn AND page_mask log) + record_header_len log)) []"

text \<open>
  How much of the record's client data is made readable: the declared length, extended to
  what the redo and undo offsets refer to unless that is implausible.
\<close>

definition record_avail :: "('a) lfs_log_scheme \<Rightarrow> buf \<Rightarrow> buf \<Rightarrow> nat \<Rightarrow> nat \<Rightarrow> nat \<Rightarrow> nat option" where
  "record_avail log page hdr poff len total_avail = do {
     rtype \<leftarrow> lf_get32 hdr LR_RECORD_TYPE;
     if len \<ge> NR_HEADER_SIZE \<and> rtype = LFS_RECORD_TYPE_CLIENT \<and>
        poff + record_header_len log + NR_HEADER_SIZE \<le> page_size log
     then do {
       let lr = poff + record_header_len log;
       ro \<leftarrow> lf_get16 page (lr + NR_REDO_OFFSET);
       rl \<leftarrow> lf_get16 page (lr + NR_REDO_LENGTH);
       uo \<leftarrow> lf_get16 page (lr + NR_UNDO_OFFSET);
       ul \<leftarrow> lf_get16 page (lr + NR_UNDO_LENGTH);
       let avail = max (max len (ro + rl)) (uo + ul);
       Some (if avail + record_header_len log \<ge> total_avail then len else avail) }
     else Some len }"

text \<open>The body of \<open>lfs_read_record\<close> once the record's header is known to be in \<open>page\<close>.\<close>

definition read_record_body ::
    "('a) lfs_log_scheme \<Rightarrow> nat \<Rightarrow> nat \<Rightarrow> buf \<Rightarrow> (int \<times> lfs_record) option" where
  "read_record_body log lsn poff page = do {
     hdr \<leftarrow> slice page poff LR_HEADER_SIZE;
     this_lsn \<leftarrow> lf_get64 hdr LR_THIS_LSN;
     if this_lsn \<noteq> lsn then Some (- EINVAL, no_record)
     else do {
       len \<leftarrow> lf_get32 hdr LR_CLIENT_DATA_LENGTH;
       let total_avail = (sub32 (l_size log) (first_page log) div 2 ^ page_bits log) *
                         sub32 (page_size log) (data_off log);
       if len + record_header_len log \<ge> total_avail then Some (- EINVAL, no_record)
       else if len = 0 then
         Some (0, \<lparr>rec_hdr = hdr, rec_data = [], rec_data_len = 0, rec_data_avail = 0, rec_lsn = lsn\<rparr>)
       else do {
         avail \<leftarrow> record_avail log page hdr poff len total_avail;
         flags \<leftarrow> lf_get16 hdr LR_FLAGS;
         (err, bytes) \<leftarrow>
           (if flags AND LFS_RECORD_MULTI_PAGE \<noteq> 0 then read_record_data log lsn len
            else if u32 (poff + record_header_len log + len) > page_size log then Some (- EINVAL, [])
            else do {
              d \<leftarrow> slice page (poff + record_header_len log) len;
              Some (0, d) });
         if err \<noteq> 0 then Some (err, no_record)
         else Some (0, \<lparr>rec_hdr = hdr, rec_data = bytes @ replicate (avail - len) 0,
                        rec_data_len = len, rec_data_avail = avail, rec_lsn = lsn\<rparr>) } } }"

text \<open>
  \<open>lfs_read_record\<close>.  On an error the caller does not look at the record (it is then
  \<open>no_record\<close>); allocation failures are not modelled.
\<close>

definition lfs_read_record :: "('a) lfs_log_scheme \<Rightarrow> nat \<Rightarrow> (int \<times> lfs_record) option" where
  "lfs_read_record log lsn =
     (if \<not> lfs_lsn_in_file log lsn then Some (- EINVAL, no_record)
      else (
        let vbo = lfs_lsn_to_vbo log lsn in
        if vbo < first_page log \<or> u32 (vbo + record_header_len log) > l_size log
        then Some (- EINVAL, no_record)
        else do {
          (err, page, t) \<leftarrow> lfs_read_page log vbo False;
          if err \<noteq> 0 then Some (err, no_record)
          else do {
            magic \<leftarrow> lf_get32 page PG_MAGIC;
            if magic \<noteq> LFS_MAGIC_RCRD then Some (- EINVAL, no_record)
            else (
              let poff = vbo AND page_mask log in
              if poff < data_off log \<or> u32 (poff + record_header_len log) > page_size log
              then Some (- EINVAL, no_record)
              else read_record_body log lsn poff page) } }))"

text \<open>\<open>lfs_next_lsn\<close>: the return code and \<open>*next\<close>, 0 when the end of the log is reached.\<close>

definition lfs_next_lsn :: "('a) lfs_log_scheme \<Rightarrow> lfs_record \<Rightarrow> (int \<times> nat) option" where
  "lfs_next_lsn log rec = do {
     let this_lsn = rec_lsn rec;
     let vbo = lfs_lsn_to_vbo log this_lsn;
     e \<leftarrow> lfs_final_log_off log this_lsn (rec_data_len rec);
     let hdr_off = and_not32 e (page_mask log);
     let seq = (if e \<le> vbo then u64 (lfs_lsn_seq log this_lsn + 1) else lfs_lsn_seq log this_lsn);
     (err, page, t) \<leftarrow> lfs_read_page log hdr_off False;
     if err \<noteq> 0 then Some (err, 0)
     else do {
       page_lsn \<leftarrow> lf_get64 page PG_LAST_LSN;
       let (vbo', seq') =
         (if this_lsn = page_lsn then
            (let h = lfs_next_page_off log hdr_off
             in (u32 (h + data_off log), if h = first_page log then u64 (seq + 1) else seq))
          else (LF_ALIGN8 e, seq));
       let next = lfs_vbo_to_lsn log vbo' seq';
       Some (0, if lfs_lsn_in_file log next then next else 0) } }"

section \<open>NTFS client records\<close>

definition attr_required :: "nat list" where
  "attr_required = [0xfc, 0xfb, 0xff, 0x10, 0x06]"

definition op_needs_target :: "nat \<Rightarrow> bool" where
  "op_needs_target op \<longleftrightarrow> op \<le> LOP_UpdateRecordDataAllocation \<and>
     (attr_required ! (op div 8) div 2 ^ (op AND 7)) AND 1 \<noteq> 0"

definition lfs_check_client_rec :: "lfs_record \<Rightarrow> nat \<Rightarrow> bool option" where
  "lfs_check_client_rec rec bpa = (
     let lr = rec_data rec in
     if rec_data_len rec < NR_HEADER_SIZE then Some False
     else do {
       redo_off \<leftarrow> lf_get16 lr NR_REDO_OFFSET;
       redo_len \<leftarrow> lf_get16 lr NR_REDO_LENGTH;
       undo_off \<leftarrow> lf_get16 lr NR_UNDO_OFFSET;
       undo_len \<leftarrow> lf_get16 lr NR_UNDO_LENGTH;
       lcns \<leftarrow> lf_get16 lr NR_LCNS_TO_FOLLOW;
       target \<leftarrow> lf_get16 lr NR_TARGET_ATTRIBUTE;
       redo_op \<leftarrow> lf_get16 lr NR_REDO_OP;
       undo_op \<leftarrow> lf_get16 lr NR_UNDO_OP;
       let hdr_len = NR_HEADER_SIZE + 8 * (if lcns \<noteq> 0 then lcns else 1);
       Some (\<not> (redo_off AND 7 \<noteq> 0 \<or> undo_off AND 7 \<noteq> 0) \<and>
             \<not> (target = 0 \<and> (op_needs_target redo_op \<or> op_needs_target undo_op)) \<and>
             \<not> (lcns \<noteq> 0 \<and> target \<noteq> 0 \<and> bpa \<noteq> 0 \<and>
                (target < RT_HEADER_SIZE \<or> (target - RT_HEADER_SIZE) mod bpa \<noteq> 0)) \<and>
             \<not> rec_data_len rec < hdr_len \<and>
             \<not> (redo_len \<noteq> 0 \<and> redo_off + redo_len > rec_data_avail rec) \<and>
             \<not> (undo_len \<noteq> 0 \<and> undo_off + undo_len > rec_data_avail rec)) })"

text \<open>The decoded record (\<open>struct ntfs_log_record\<close>); the payload pointers are byte ranges.\<close>

record ntfs_log_record =
  nr_lsn :: nat
  nr_client_prev_lsn :: nat
  nr_client_undo_next_lsn :: nat
  nr_transaction_id :: nat
  nr_record_type :: nat
  nr_flags :: nat
  nr_data_len :: nat
  nr_redo_op :: nat
  nr_undo_op :: nat
  nr_target_attr :: nat
  nr_lcns_follow :: nat
  nr_record_off :: nat
  nr_attr_off :: nat
  nr_cluster_off :: nat
  nr_target_vcn :: nat
  nr_page_lcns :: buf
  nr_redo :: "buf option"
  nr_undo :: "buf option"
  nr_redo_len :: nat
  nr_undo_len :: nat
  nr_raw :: buf
  nr_client_seq :: nat
  nr_client_idx :: nat
  nr_hdr_len :: nat

definition decode_header :: "lfs_record \<Rightarrow> ntfs_log_record option" where
  "decode_header rec = do {
     let h = rec_hdr rec;
     prev \<leftarrow> lf_get64 h LR_CLIENT_PREV_LSN;
     undo_next \<leftarrow> lf_get64 h LR_CLIENT_UNDO_NEXT_LSN;
     tid \<leftarrow> lf_get32 h LR_TRANSACTION_ID;
     rtype \<leftarrow> lf_get32 h LR_RECORD_TYPE;
     flags \<leftarrow> lf_get16 h LR_FLAGS;
     cseq \<leftarrow> lf_get16 h LR_CLIENT_SEQ_NUMBER;
     cidx \<leftarrow> lf_get16 h LR_CLIENT_INDEX;
     Some \<lparr>nr_lsn = rec_lsn rec, nr_client_prev_lsn = prev, nr_client_undo_next_lsn = undo_next,
       nr_transaction_id = tid, nr_record_type = rtype, nr_flags = flags, nr_data_len = rec_data_len rec,
       nr_redo_op = 0, nr_undo_op = 0, nr_target_attr = 0, nr_lcns_follow = 0, nr_record_off = 0,
       nr_attr_off = 0, nr_cluster_off = 0, nr_target_vcn = 0, nr_page_lcns = [], nr_redo = None,
       nr_undo = None, nr_redo_len = 0, nr_undo_len = 0, nr_raw = rec_data rec, nr_client_seq = cseq,
       nr_client_idx = cidx, nr_hdr_len = 0\<rparr> }"

text \<open>A payload pointer is set when the payload lies within the declared client data.\<close>

definition payload_ptr :: "lfs_record \<Rightarrow> nat \<Rightarrow> nat \<Rightarrow> buf option option" where
  "payload_ptr rec off len =
     (if len \<noteq> 0 \<and> off + len \<le> rec_data_len rec
      then do { d \<leftarrow> slice (rec_data rec) off len; Some (Some d) } else Some None)"

definition lfs_decode_record :: "lfs_record \<Rightarrow> ntfs_log_record option" where
  "lfs_decode_record rec = do {
     out \<leftarrow> decode_header rec;
     if nr_record_type out \<noteq> LFS_RECORD_TYPE_CLIENT \<or> rec_data_len rec < NR_HEADER_SIZE then Some out
     else do {
       let lr = rec_data rec;
       lcns \<leftarrow> lf_get16 lr NR_LCNS_TO_FOLLOW;
       redo_op \<leftarrow> lf_get16 lr NR_REDO_OP;
       undo_op \<leftarrow> lf_get16 lr NR_UNDO_OP;
       redo_len \<leftarrow> lf_get16 lr NR_REDO_LENGTH;
       undo_len \<leftarrow> lf_get16 lr NR_UNDO_LENGTH;
       target \<leftarrow> lf_get16 lr NR_TARGET_ATTRIBUTE;
       rec_off \<leftarrow> lf_get16 lr NR_RECORD_OFFSET;
       att_off \<leftarrow> lf_get16 lr NR_ATTRIBUTE_OFFSET;
       clu_off \<leftarrow> lf_get16 lr NR_CLUSTER_BLOCK_OFFSET;
       vcn \<leftarrow> lf_get64 lr NR_TARGET_VCN;
       redo_off \<leftarrow> lf_get16 lr NR_REDO_OFFSET;
       undo_off \<leftarrow> lf_get16 lr NR_UNDO_OFFSET;
       redo \<leftarrow> payload_ptr rec redo_off redo_len;
       undo \<leftarrow> payload_ptr rec undo_off undo_len;
       Some (out\<lparr>nr_hdr_len := NR_HEADER_SIZE + 8 * (if lcns \<noteq> 0 then lcns else 1),
         nr_redo_op := redo_op, nr_undo_op := undo_op, nr_redo_len := redo_len,
         nr_undo_len := undo_len, nr_target_attr := target, nr_lcns_follow := lcns,
         nr_record_off := rec_off, nr_attr_off := att_off, nr_cluster_off := clu_off,
         nr_target_vcn := vcn, nr_page_lcns := drop NR_PAGE_LCNS lr, nr_redo := redo,
         nr_undo := undo\<rparr>) } }"

end
