(* ===== verification/Lfs_Tail.thy ===== *)
theory Lfs_Tail
  imports Lfs_Records
begin

text \<open>
  The tail scan (\<open>lfs_tail_scan\<close> and its helpers, core/logfile/logfile_pages.c): walking
  forward from the page the restart area names to the true end of the log, letting a tail
  copy stand in for a page that is unreadable or older than its copy, and refusing the log
  when pages were written behind a torn transfer.
\<close>

section \<open>Tail copies\<close>

abbreviation (input) LFS_MAX_TAIL_OVERRIDES :: nat where "LFS_MAX_TAIL_OVERRIDES \<equiv> 32"

record tail_copy =
  tc_valid :: bool
  tc_has_end :: bool
  tc_vbo :: nat
  tc_file_off :: nat
  tc_last_lsn :: nat
  tc_last_end_lsn :: nat
  tc_end :: nat
  tc_seq :: nat
  tc_page :: buf

definition no_tail :: tail_copy where
  "no_tail = \<lparr>tc_valid = False, tc_has_end = False, tc_vbo = 0, tc_file_off = 0, tc_last_lsn = 0,
     tc_last_end_lsn = 0, tc_end = 0, tc_seq = 0, tc_page = []\<rparr>"

definition page_is_rcrd :: "buf \<Rightarrow> bool option" where
  "page_is_rcrd page = map_option (\<lambda>m. m = LFS_MAGIC_RCRD) (lf_get32 page PG_MAGIC)"

definition page_file_off :: "('a) lfs_log_scheme \<Rightarrow> buf \<Rightarrow> nat option" where
  "page_file_off log page =
     (if major_ver log < 2 then map_option u32 (lf_get64 page PG_LAST_LSN)
      else lf_get32 page PG_FILE_OFFSET)"

text \<open>The page \<open>add_override\<close> stores: the copy made to look like an in-place page.\<close>

definition override_page :: "('a) lfs_log_scheme \<Rightarrow> buf \<Rightarrow> buf option" where
  "override_page log page = do {
     c \<leftarrow> slice page 0 (page_size log);
     c \<leftarrow> (if major_ver log < 2 then do {
             e \<leftarrow> lf_get64 c PG_LAST_END_LSN;
             lf_put64 c PG_LAST_LSN e }
           else lf_put32 c PG_FILE_OFFSET 0);
     c \<leftarrow> lf_put16 c PG_PAGE_COUNT 1;
     lf_put16 c PG_PAGE_POSITION 1 }"

definition add_override :: "'a lfs_log_scheme \<Rightarrow> nat \<Rightarrow> buf \<Rightarrow> (int \<times> 'a lfs_log_scheme) option" where
  "add_override log vbo page =
     (if vbo \<in> fst ` set (ovr log) then do {
        c \<leftarrow> override_page log page;
        Some (0, log\<lparr>ovr := map (\<lambda>(v, p). (v, if v = vbo then c else p)) (ovr log)\<rparr>) }
      else if length (ovr log) \<ge> LFS_MAX_TAIL_OVERRIDES then Some (- E2BIG, log)
      else do {
        c \<leftarrow> override_page log page;
        Some (0, log\<lparr>ovr := ovr log @ [(vbo, c)]\<rparr>) })"

definition load_tail :: "('a) lfs_log_scheme \<Rightarrow> nat \<Rightarrow> tail_copy option" where
  "load_tail log vbo = do {
     (err, page, torn) \<leftarrow> lfs_read_page log vbo True;
     if err \<noteq> 0 \<or> torn then Some no_tail
     else do {
       rcrd \<leftarrow> page_is_rcrd page;
       if \<not> rcrd then Some no_tail
       else do {
         file_off \<leftarrow> page_file_off log page;
         flags \<leftarrow> lf_get32 page PG_FLAGS;
         end_lsn \<leftarrow> lf_get64 page PG_LAST_END_LSN;
         llsn \<leftarrow> lf_get64 page PG_LAST_LSN;
         let has_end = (flags AND LFS_PAGE_LOG_RECORD_END \<noteq> 0);
         let valid = (file_off \<ge> first_page log \<and> file_off < l_size log \<and> file_off AND page_mask log = 0);
         let t = no_tail\<lparr>tc_vbo := vbo, tc_file_off := file_off, tc_has_end := has_end,
           tc_last_end_lsn := end_lsn, tc_valid := valid, tc_page := page\<rparr>;
         Some (if major_ver log < 2
           then t\<lparr>tc_valid := valid \<and> has_end, tc_end := end_lsn, tc_seq := lfs_lsn_seq log end_lsn\<rparr>
           else t\<lparr>tc_last_lsn := llsn, tc_end := (if has_end then end_lsn else llsn),
             tc_seq := u64 (lfs_lsn_seq log llsn +
               (if file_off < and_not32 (lfs_lsn_to_vbo log llsn) (page_mask log) then 1 else 0))\<rparr>) } } }"

primrec load_tails :: "('a) lfs_log_scheme \<Rightarrow> nat list \<Rightarrow> tail_copy list option" where
  "load_tails log [] = Some []"
| "load_tails log (v # vs) = do { t \<leftarrow> load_tail log v; ts \<leftarrow> load_tails log vs; Some (t # ts) }"

definition tail_positions :: "('a) lfs_log_scheme \<Rightarrow> nat list" where
  "tail_positions log =
     (if major_ver log < 2 then map (\<lambda>i. i * page_size log) [2, 3]
      else map (\<lambda>i. u32 (i * page_size log)) ([2..<18] @ [18..<34]))"

section \<open>The scan\<close>

definition note_record_end ::
    "'a lfs_log_scheme \<Rightarrow> buf \<Rightarrow> nat \<Rightarrow> nat \<Rightarrow> nat \<Rightarrow> bool \<Rightarrow> 'a lfs_log_scheme option" where
  "note_record_end log page cur next seq wrapped_file = do {
     nro \<leftarrow> lf_get16 page PG_NEXT_RECORD_OFFSET;
     end_lsn \<leftarrow> lf_get64 page PG_LAST_END_LSN;
     let log = log\<lparr>seq_num := seq, no_last_lsn := False, last_lsn := end_lsn\<rparr>;
     let log = (if nro \<le> page_size log \<and> record_header_len log \<le> page_size log - nro
                then log\<lparr>reuse_tail := True, next_page := cur\<rparr>
                else log\<lparr>reuse_tail := False, next_page := next\<rparr>);
     Some (if wrapped_file then log\<lparr>wrapped := True\<rparr> else log) }"

definition page_is_subsequent :: "('a) lfs_log_scheme \<Rightarrow> buf \<Rightarrow> nat \<Rightarrow> nat \<Rightarrow> bool option" where
  "page_is_subsequent log page vbo seq = do {
     lsn \<leftarrow> lf_get64 page PG_LAST_LSN;
     let s = lfs_lsn_seq log lsn;
     Some (s \<ge> seq \<or> (s = sub64 seq 1 \<and> first_page log = vbo \<and>
       vbo \<noteq> and_not32 (lfs_lsn_to_vbo log lsn) (page_mask log))) }"

text \<open>The loop variables of \<open>lfs_tail_scan\<close>, and where the loop stopped.\<close>

record scan_st =
  sc_cur :: nat
  sc_seq :: nat
  sc_last_ok :: nat
  sc_cnt :: nat
  sc_pos :: nat
  sc_wrapped :: bool
  sc_reuse :: bool
  sc_replaced :: bool

record scan_stop =
  stop_cur :: nat
  stop_remaining :: int
  stop_new_transfer :: bool

datatype 'l scan_result = Scan_Err int 'l | Scan_Stop scan_stop 'l | Scan_Next 'l scan_st

text \<open>The newest valid tail copy of the current page from the expected sequence.\<close>

definition better_tail :: "scan_st \<Rightarrow> tail_copy option \<Rightarrow> tail_copy \<Rightarrow> tail_copy option" where
  "better_tail st best t =
     (if \<not> tc_valid t \<or> tc_file_off t \<noteq> sc_cur st \<or> tc_seq t \<noteq> sc_seq st then best
      else if tc_end t < sc_last_ok st then best
      else (case best of None \<Rightarrow> Some t | Some b \<Rightarrow> if tc_end t > tc_end b then Some t else best))"

definition best_tail :: "scan_st \<Rightarrow> tail_copy list \<Rightarrow> tail_copy option" where
  "best_tail st tails = foldl (better_tail st) None tails"

text \<open>
  The page the iteration looks at: the page in place, its tail copy when that is newer or the
  page is not usable, or nothing.  The flag says that the copy was taken.
\<close>

definition scan_source :: "'a lfs_log_scheme \<Rightarrow> tail_copy list \<Rightarrow> scan_st \<Rightarrow>
    (int \<times> 'a lfs_log_scheme \<times> (buf \<times> bool) option) option" where
  "scan_source log tails st = do {
     let best = best_tail st tails;
     (err, page, torn) \<leftarrow> lfs_read_page log (sc_cur st) True;
     if err \<noteq> 0 \<and> err \<noteq> - EINVAL then Some (err, log, None)
     else do {
       usable \<leftarrow> (if err \<noteq> 0 \<or> torn then Some False else page_is_rcrd page);
       usable \<leftarrow> (if usable \<and> major_ver log \<ge> 2 then do {
                    fo \<leftarrow> lf_get32 page PG_FILE_OFFSET;
                    Some (fo = 0 \<or> fo = sc_cur st) }
                  else Some usable);
       newer \<leftarrow> (case best of None \<Rightarrow> Some False | Some b \<Rightarrow>
                   if \<not> usable then Some True
                   else do { l \<leftarrow> lf_get64 page PG_LAST_LSN; Some (tc_end b > l) });
       if newer then do {
         b \<leftarrow> best;
         (err, log) \<leftarrow> add_override log (sc_cur st) (tc_page b);
         if err \<noteq> 0 then Some (err, log, None)
         else do {
           page \<leftarrow> page_override (ovr log) (sc_cur st);
           Some (0, log, Some (page, True)) } }
       else Some (0, log, if usable then Some (page, False) else None) } }"

definition scan_page :: "'a lfs_log_scheme \<Rightarrow> tail_copy list \<Rightarrow> scan_st \<Rightarrow> 'a lfs_log_scheme scan_result option" where
  "scan_page log tails st = do {
     let cur = sc_cur st;
     let next = lfs_next_page_off log cur;
     let wraps = (next = first_page log);
     let rest = int (sc_cnt st) - int (sc_pos st) - 1;
     let fresh = (sc_cnt st = sc_pos st);
     (err, log, src) \<leftarrow> scan_source log tails st;
     if err \<noteq> 0 then Some (Scan_Err err log)
     else (case src of
       None \<Rightarrow> Some (Scan_Stop \<lparr>stop_cur = cur, stop_remaining = rest, stop_new_transfer = fresh\<rparr> log)
     | Some (page, replaced) \<Rightarrow> do {
         lsn_cur \<leftarrow> lf_get64 page PG_LAST_LSN;
         pp \<leftarrow> lf_get16 page PG_PAGE_POSITION;
         pc \<leftarrow> lf_get16 page PG_PAGE_COUNT;
         flags \<leftarrow> lf_get32 page PG_FLAGS;
         if sc_last_ok st \<noteq> lsn_cur \<and> sc_seq st \<noteq> lfs_lsn_seq log lsn_cur
         then Some (Scan_Stop \<lparr>stop_cur = cur, stop_remaining = rest, stop_new_transfer = fresh\<rparr> log)
         else if fresh \<and> pp \<noteq> 1 \<and> (\<not> sc_reuse st \<or> pp \<noteq> pc)
         then Some (Scan_Stop \<lparr>stop_cur = cur, stop_remaining = 0, stop_new_transfer = True\<rparr> log)
         else if \<not> fresh \<and> (pc \<noteq> sc_cnt st \<or> pp \<noteq> sc_pos st + 1)
         then Some (Scan_Stop \<lparr>stop_cur = cur, stop_remaining = rest, stop_new_transfer = False\<rparr> log)
         else do {
           log \<leftarrow> (if flags AND LFS_PAGE_LOG_RECORD_END \<noteq> 0
                  then note_record_end log page cur next (sc_seq st) (sc_wrapped st) else Some log);
           if pc = 0 \<or> pp = 0 \<or> pp > pc
           then Some (Scan_Stop \<lparr>stop_cur = cur, stop_remaining = 0, stop_new_transfer = True\<rparr> log)
           else Some (Scan_Next log \<lparr>sc_cur = next,
             sc_seq = (if wraps then u64 (sc_seq st + 1) else sc_seq st), sc_last_ok = lsn_cur,
             sc_cnt = pc, sc_pos = pp, sc_wrapped = (wraps \<or> sc_wrapped st), sc_reuse = False,
             sc_replaced = replaced\<rparr>) } }) }"

text \<open>
  The loop ends after at most \<open>max_pages + 1\<close> pages.  Its result is the error code, the log,
  where it stopped (\<open>None\<close>: every page validated) and the loop variables.
\<close>

function scan_loop :: "'a lfs_log_scheme \<Rightarrow> tail_copy list \<Rightarrow> nat \<Rightarrow> nat \<Rightarrow> scan_st \<Rightarrow>
    (int \<times> 'a lfs_log_scheme \<times> scan_stop option \<times> scan_st) option" where
  "scan_loop log tails max_pages seen st = do {
     r \<leftarrow> scan_page log tails st;
     (case r of
        Scan_Err err log \<Rightarrow> Some (err, log, None, st)
      | Scan_Stop stop log \<Rightarrow> Some (0, log, Some stop, st)
      | Scan_Next log st \<Rightarrow>
          if seen + 1 > max_pages then Some (0, log, None, st)
          else scan_loop log tails max_pages (seen + 1) st) }"
  by pat_completeness auto
termination
  by (relation "measure (\<lambda>(log, tails, max_pages, seen, st). max_pages - seen)") auto

declare scan_loop.simps [simp del]

text \<open>
  The check behind the stop: the page after the transfer the scan stopped in must not have been
  written later.
\<close>

fun probe_advance :: "('a) lfs_log_scheme \<Rightarrow> nat \<Rightarrow> nat \<Rightarrow> nat \<Rightarrow> nat \<times> nat" where
  "probe_advance log 0 probe seq = (probe, seq)"
| "probe_advance log (Suc n) probe seq =
     (let nx = lfs_next_page_off log probe
      in probe_advance log n nx (if nx = first_page log then u64 (seq + 1) else seq))"

definition written_after :: "('a) lfs_log_scheme \<Rightarrow> nat \<Rightarrow> nat \<Rightarrow> buf option option" where
  "written_after log vbo seq = do {
     (err, page, torn) \<leftarrow> lfs_read_page log vbo True;
     if err \<noteq> 0 \<or> torn then Some None
     else do {
       rcrd \<leftarrow> page_is_rcrd page;
       if \<not> rcrd then Some None
       else do {
         sub \<leftarrow> page_is_subsequent log page vbo seq;
         Some (if sub then Some page else None) } } }"

definition stop_transfer_len :: "('a) lfs_log_scheme \<Rightarrow> scan_stop \<Rightarrow> scan_st \<Rightarrow> (int \<times> nat) option" where
  "stop_transfer_len log stop st =
     (if sc_replaced st \<or> single_page_io log then Some (0, 0)
      else if stop_new_transfer stop then (
        let nx = lfs_next_page_off log (stop_cur stop) in
        if nx = first_page log then Some (0, 0)
        else do {
          w \<leftarrow> written_after log nx (sc_seq st);
          (case w of None \<Rightarrow> Some (0, 0)
           | Some page \<Rightarrow> do {
               pp \<leftarrow> lf_get16 page PG_PAGE_POSITION;
               pc \<leftarrow> lf_get16 page PG_PAGE_COUNT;
               Some (if pp = 2 \<and> pc \<ge> 2 then (0, pc - 1) else (- EINVAL, 0)) }) })
      else Some (0, nat (stop_remaining stop)))"

definition check_stop :: "('a) lfs_log_scheme \<Rightarrow> scan_stop \<Rightarrow> scan_st \<Rightarrow> int option" where
  "check_stop log stop st = do {
     (err, remaining) \<leftarrow> stop_transfer_len log stop st;
     if err \<noteq> 0 then Some err
     else (
       let (probe, seq) = probe_advance log (Suc remaining) (stop_cur stop) (sc_seq st) in do {
         w \<leftarrow> written_after log probe seq;
         Some (if w \<noteq> None then - EINVAL else 0) }) }"

definition scan_start :: "('a) lfs_log_scheme \<Rightarrow> scan_st" where
  "scan_start log = (
     let w = (next_page log = first_page log \<and> \<not> no_last_lsn log \<and> \<not> reuse_tail log)
     in \<lparr>sc_cur = next_page log, sc_seq = (if w then u64 (seq_num log + 1) else seq_num log),
         sc_last_ok = (if reuse_tail log then last_lsn log else 0), sc_cnt = 1, sc_pos = 1,
         sc_wrapped = w, sc_reuse = reuse_tail log, sc_replaced = False\<rparr>)"

definition lfs_tail_scan :: "'a lfs_log_scheme \<Rightarrow> (int \<times> 'a lfs_log_scheme) option" where
  "lfs_tail_scan log =
     (if tail_scanned log then Some (tail_err log, log)
      else (
        let log = log\<lparr>tail_scanned := True\<rparr> in
        if state log = NTFS_LOG_EMPTY \<or> cur_rst log = None then Some (0, log)
        else do {
          let max_pages = sub32 (l_size log) (first_page log) div 2 ^ page_bits log;
          tails \<leftarrow> load_tails log (tail_positions log);
          (err, log, stop, st) \<leftarrow> scan_loop log tails max_pages 0 (scan_start log);
          err \<leftarrow> (if err \<noteq> 0 then Some err
                 else (case stop of None \<Rightarrow> Some 0 | Some s \<Rightarrow> check_stop log s st));
          Some (err, log\<lparr>tail_err := err\<rparr>) }))"

end
