(* ===== verification/Lfs_Checkpoint.thy ===== *)
theory Lfs_Checkpoint
  imports Lfs_Tables Lfs_Tail
begin

text \<open>
  The checkpoint (second half of core/logfile/logfile_tables.c): the client restart record, the
  three restart tables and the attribute names it refers to, the enumeration of the tables,
  and the public walk over the records of the log (core/logfile/logfile_records.c).

  Loops over the allocated entries of a table that change the table are partial functions; a
  loop that never ends is \<open>None\<close>.
\<close>

section \<open>Table records\<close>

definition load_table_record :: "('a) lfs_log_scheme \<Rightarrow> nat \<Rightarrow> buf option \<Rightarrow> (int \<times> buf option) option" where
  "load_table_record log lsn t = do {
     (err, rec) \<leftarrow> lfs_read_record log lsn;
     if err \<noteq> 0 then Some (err, t)
     else do {
       ok \<leftarrow> lfs_check_client_rec rec (bytes_per_attr_entry log);
       if \<not> ok then Some (- EINVAL, t)
       else do {
         redo_off \<leftarrow> lf_get16 (rec_data rec) NR_REDO_OFFSET;
         if redo_off \<ge> rec_data_len rec then Some (- EINVAL, t)
         else do {
           let src = drop redo_off (rec_data rec);
           good \<leftarrow> lfs_table_check src (rec_data_len rec - redo_off);
           if \<not> good then Some (- EINVAL, t)
           else lfs_table_copy t src (rec_data_len rec - redo_off) } } } }"

definition load_attr_names :: "'a lfs_log_scheme \<Rightarrow> nat \<Rightarrow> (int \<times> 'a lfs_log_scheme) option" where
  "load_attr_names log lsn = do {
     (err, rec) \<leftarrow> lfs_read_record log lsn;
     if err \<noteq> 0 then Some (err, log)
     else do {
       ok \<leftarrow> lfs_check_client_rec rec (bytes_per_attr_entry log);
       if \<not> ok then Some (- EINVAL, log)
       else do {
         lcns \<leftarrow> lf_get16 (rec_data rec) NR_LCNS_TO_FOLLOW;
         let hdr_len = NR_HEADER_SIZE + 8 * (if lcns \<noteq> 0 then lcns else 1);
         names \<leftarrow> slice (rec_data rec) hdr_len (sub32 (rec_data_len rec) hdr_len);
         Some (0, log\<lparr>attr_names := Some names\<rparr>) } } }"

section \<open>The dirty page table\<close>

definition convert_dp_v0 :: "buf \<Rightarrow> nat \<Rightarrow> buf option" where
  "convert_dp_v0 t dp = do {
     lcns \<leftarrow> lf_get32 t (dp + DP1_LCNS_FOLLOW);
     esize \<leftarrow> lfs_table_esize t;
     let n = u32 (16 + 8 * lcns);
     let n = (if u32 (DP1_VCN + n) > esize then sub32 esize DP1_VCN else n);
     let n = (if u32 (DP0_VCN + n) > esize then sub32 esize DP0_VCN else n);
     memmove t (dp + DP1_VCN) (dp + DP0_VCN) n }"

partial_function (option) convert_loop :: "buf \<Rightarrow> nat option \<Rightarrow> buf option" where
  "convert_loop t cur =
     Option.bind (lfs_table_next (Some t) cur) (\<lambda>nxt. case nxt of None \<Rightarrow> Some t
       | Some dp \<Rightarrow> Option.bind (convert_dp_v0 t dp) (\<lambda>t'. convert_loop t' (Some dp)))"

definition convert_dptbl_v0 :: "buf \<Rightarrow> buf option" where
  "convert_dptbl_v0 t = convert_loop t None"

definition same_page :: "buf \<Rightarrow> nat \<Rightarrow> nat \<Rightarrow> bool option" where
  "same_page t a b = do {
     ta \<leftarrow> lf_get32 t (a + DP1_TARGET_ATTR);
     tb \<leftarrow> lf_get32 t (b + DP1_TARGET_ATTR);
     va \<leftarrow> lf_get64 t (a + DP1_VCN);
     vb \<leftarrow> lf_get64 t (b + DP1_VCN);
     Some (ta = tb \<and> va = vb) }"

text \<open>Merging the duplicate \<open>nxt\<close> into \<open>dp\<close>: the older LSN survives, the entry is freed.\<close>

definition merge_dp :: "buf \<Rightarrow> nat \<Rightarrow> nat \<Rightarrow> buf option" where
  "merge_dp t dp nxt = do {
     ln \<leftarrow> lf_get64 t (nxt + DP1_OLDEST_LSN);
     ld \<leftarrow> lf_get64 t (dp + DP1_OLDEST_LSN);
     t \<leftarrow> (if ln < ld then lf_put64 t (dp + DP1_OLDEST_LSN) ln else Some t);
     lfs_table_free_idx t nxt }"

partial_function (option) dedupe_inner :: "buf \<Rightarrow> nat \<Rightarrow> nat \<Rightarrow> buf option" where
  "dedupe_inner t dp cur =
     Option.bind (lfs_table_next (Some t) (Some cur)) (\<lambda>nxt. case nxt of None \<Rightarrow> Some t
       | Some e \<Rightarrow> Option.bind (same_page t e dp) (\<lambda>same.
           if same then Option.bind (merge_dp t dp e) (\<lambda>t'. dedupe_inner t' dp e)
           else dedupe_inner t dp e))"

partial_function (option) dedupe_outer :: "buf \<Rightarrow> nat option \<Rightarrow> buf option" where
  "dedupe_outer t cur =
     Option.bind (lfs_table_next (Some t) cur) (\<lambda>nxt. case nxt of None \<Rightarrow> Some t
       | Some dp \<Rightarrow> Option.bind (dedupe_inner t dp dp) (\<lambda>t'. dedupe_outer t' (Some dp)))"

definition dedupe_dptbl :: "buf \<Rightarrow> buf option" where
  "dedupe_dptbl t = dedupe_outer t None"

text \<open>Every entry's LCNs must fit the entry.\<close>

partial_function (option) lcns_fit :: "buf \<Rightarrow> nat option \<Rightarrow> bool option" where
  "lcns_fit t cur =
     Option.bind (lfs_table_next (Some t) cur) (\<lambda>nxt. case nxt of None \<Rightarrow> Some True
       | Some dp \<Rightarrow> Option.bind (lf_get32 t (dp + DP1_LCNS_FOLLOW)) (\<lambda>lcns.
           Option.bind (lfs_table_esize t) (\<lambda>esize.
             if DP1_SIZE + 8 * lcns > esize then Some False else lcns_fit t (Some dp))))"

section \<open>Loading the checkpoint\<close>

text \<open>
  The four conditional loads of \<open>lfs_load_checkpoint\<close>, in the order of the code; \<open>c\<close> is the
  client restart record.
\<close>

definition load_trtbl :: "'a lfs_log_scheme \<Rightarrow> buf \<Rightarrow> (int \<times> 'a lfs_log_scheme) option" where
  "load_trtbl log c = do {
     len \<leftarrow> lf_get32 c CRST_TRANSACTION_TABLE_LEN;
     if len = 0 then Some (0, log)
     else do {
       lsn \<leftarrow> lf_get64 c CRST_TRANSACTION_TABLE_LSN;
       (err, t) \<leftarrow> load_table_record log lsn (trtbl log);
       let log = log\<lparr>trtbl := t\<rparr>;
       if err \<noteq> 0 then Some (err, log)
       else do {
         tb \<leftarrow> t;
         es \<leftarrow> lfs_table_esize tb;
         Some (if es \<noteq> TR_SIZE then - EINVAL else 0, log) } } }"

definition load_dptbl :: "'a lfs_log_scheme \<Rightarrow> buf \<Rightarrow> (int \<times> 'a lfs_log_scheme) option" where
  "load_dptbl log c = do {
     len \<leftarrow> lf_get32 c CRST_DIRTY_PAGE_TABLE_LEN;
     if len = 0 then Some (0, log)
     else do {
       lsn \<leftarrow> lf_get64 c CRST_DIRTY_PAGE_TABLE_LSN;
       (err, t) \<leftarrow> load_table_record log lsn (dptbl log);
       if err \<noteq> 0 then Some (err, log\<lparr>dptbl := t\<rparr>)
       else do {
         tb \<leftarrow> t;
         tb \<leftarrow> (if crst_major log = 0 then convert_dptbl_v0 tb else Some tb);
         es \<leftarrow> lfs_table_esize tb;
         if es < DP1_SIZE + 8 then Some (- EINVAL, log\<lparr>dptbl := Some tb\<rparr>)
         else do {
           fit \<leftarrow> lcns_fit tb None;
           if \<not> fit then Some (- EINVAL, log\<lparr>dptbl := Some tb\<rparr>)
           else do {
             tb \<leftarrow> dedupe_dptbl tb;
             Some (0, log\<lparr>dptbl := Some tb\<rparr>) } } } } }"

definition load_names :: "'a lfs_log_scheme \<Rightarrow> buf \<Rightarrow> (int \<times> 'a lfs_log_scheme) option" where
  "load_names log c = do {
     len \<leftarrow> lf_get32 c CRST_ATTR_NAMES_LEN;
     if len = 0 then Some (0, log)
     else do {
       lsn \<leftarrow> lf_get64 c CRST_ATTR_NAMES_LSN;
       load_attr_names log lsn } }"

definition load_oatbl :: "'a lfs_log_scheme \<Rightarrow> buf \<Rightarrow> (int \<times> 'a lfs_log_scheme) option" where
  "load_oatbl log c = do {
     len \<leftarrow> lf_get32 c CRST_OPEN_ATTR_TABLE_LEN;
     if len = 0 then Some (0, log)
     else do {
       lsn \<leftarrow> lf_get64 c CRST_OPEN_ATTR_TABLE_LSN;
       (err, t) \<leftarrow> load_table_record log lsn (oatbl log);
       let log = log\<lparr>oatbl := t\<rparr>;
       if err \<noteq> 0 then Some (err, log)
       else do {
         tb \<leftarrow> t;
         es \<leftarrow> lfs_table_esize tb;
         Some (if es \<noteq> bytes_per_attr_entry log then - EINVAL else 0, log) } } }"

definition load_tables :: "'a lfs_log_scheme \<Rightarrow> buf \<Rightarrow> (int \<times> 'a lfs_log_scheme) option" where
  "load_tables log c = do {
     (err, log) \<leftarrow> load_trtbl log c;
     if err \<noteq> 0 then Some (err, log)
     else do {
       (err, log) \<leftarrow> load_dptbl log c;
       if err \<noteq> 0 then Some (err, log)
       else do {
         (err, log) \<leftarrow> load_names log c;
         if err \<noteq> 0 then Some (err, log)
         else load_oatbl log c } } }"

definition lfs_load_checkpoint :: "'a lfs_log_scheme \<Rightarrow> (int \<times> 'a lfs_log_scheme) option" where
  "lfs_load_checkpoint log = (
     let lsn = client_restart_lsn log in
     if crst log \<noteq> None then Some (0, log)
     else if lsn = 0 then Some (- ENOENT, log)
     else do {
       (err, log) \<leftarrow> lfs_tail_scan log;
       if err \<noteq> 0 then Some (err, log)
       else do {
         (err, rec) \<leftarrow> lfs_read_record log lsn;
         if err \<noteq> 0 then Some (err, log)
         else do {
           rtype \<leftarrow> lf_get32 (rec_hdr rec) LR_RECORD_TYPE;
           if rtype \<noteq> LFS_RECORD_TYPE_CLIENT_RESTART then Some (- EINVAL, log)
           else if rec_data_len rec = 0 then Some (- ENOENT, log)
           else if rec_data_len rec < CRST_SIZE then Some (- EINVAL, log)
           else do {
             c \<leftarrow> slice (rec_data rec) 0 (rec_data_len rec);
             major \<leftarrow> lf_get32 c CRST_MAJOR_VER;
             start \<leftarrow> lf_get64 c CRST_START_OF_CHECKPOINT;
             let log = log\<lparr>crst := Some c, crst_major := major,
               bytes_per_attr_entry := (if major \<noteq> 0 then OA1_SIZE else OA0_SIZE),
               checkpoint_lsn := (if start = 0 then lsn else start)\<rparr>;
             load_tables log c } } } })"

definition ntfs_logfile_load_checkpoint :: "'a lfs_log_scheme \<Rightarrow> (int \<times> 'a lfs_log_scheme) option" where
  "ntfs_logfile_load_checkpoint log =
     (if state log = NTFS_LOG_EMPTY then Some (- ENOENT, log)
      else if state log = NTFS_LOG_CORRUPT \<or> state log = NTFS_LOG_UNSUPPORTED then Some (- EINVAL, log)
      else do {
        (err, log) \<leftarrow> lfs_tail_scan log;
        if err \<noteq> 0 then Some (err, log) else lfs_load_checkpoint log })"

section \<open>Enumerating the tables\<close>

text \<open>
  The name of the open attribute \<open>off\<close>: position and length (in UTF-16 units) within the names.
  \<open>p + 4 + nb\<close> does not wrap: the names are part of one record.
\<close>

function attr_name_at :: "buf \<Rightarrow> nat \<Rightarrow> nat \<Rightarrow> (nat \<times> nat) option option" where
  "attr_name_at names off p =
     (if p + AN_NAME \<le> length names then do {
        eo \<leftarrow> lf_get16 names (p + AN_OFFSET);
        nb \<leftarrow> lf_get16 names (p + AN_NAME_BYTES);
        if eo = 0 \<or> p + AN_NAME + nb > length names then Some None
        else if eo = off then Some (Some (p + AN_NAME, nb div 2))
        else attr_name_at names off (p + AN_NAME + nb) }
      else Some None)"
  by pat_completeness auto
termination
  by (relation "measure (\<lambda>(names, off, p). length names - p)") auto

declare attr_name_at.simps [simp del]

definition find_attr_name :: "('a) lfs_log_scheme \<Rightarrow> nat \<Rightarrow> (nat \<times> nat) option option" where
  "find_attr_name log off = (case attr_names log of None \<Rightarrow> Some None | Some names \<Rightarrow> attr_name_at names off 0)"

record log_transaction =
  lt_id :: nat
  lt_state :: nat
  lt_first_lsn :: nat
  lt_prev_lsn :: nat
  lt_undo_next_lsn :: nat
  lt_undo_records :: nat
  lt_undo_bytes :: nat

record log_dirty_page =
  ld_id :: nat
  ld_target_attr :: nat
  ld_transfer_len :: nat
  ld_lcns_follow :: nat
  ld_vcn :: nat
  ld_oldest_lsn :: nat

record log_open_attr =
  lo_id :: nat
  lo_type :: nat
  lo_mft_no :: nat
  lo_mft_seq :: nat
  lo_bytes_per_index :: nat
  lo_open_record_lsn :: nat
  lo_dirty_pages :: nat
  lo_name :: "(nat \<times> nat) option"

definition get_transaction :: "buf \<Rightarrow> nat \<Rightarrow> log_transaction option" where
  "get_transaction t e = do {
     st \<leftarrow> get8 t (e + TR_STATE);
     first \<leftarrow> lf_get64 t (e + TR_FIRST_LSN);
     prev \<leftarrow> lf_get64 t (e + TR_PREV_LSN);
     nxt \<leftarrow> lf_get64 t (e + TR_UNDO_NEXT_LSN);
     ur \<leftarrow> lf_get32 t (e + TR_UNDO_RECORDS);
     ub \<leftarrow> lf_get32 t (e + TR_UNDO_BYTES);
     Some \<lparr>lt_id = e, lt_state = st, lt_first_lsn = first, lt_prev_lsn = prev,
           lt_undo_next_lsn = nxt, lt_undo_records = ur, lt_undo_bytes = ub\<rparr> }"

definition get_dirty_page :: "buf \<Rightarrow> nat \<Rightarrow> log_dirty_page option" where
  "get_dirty_page t e = do {
     target \<leftarrow> lf_get32 t (e + DP1_TARGET_ATTR);
     tlen \<leftarrow> lf_get32 t (e + DP1_TRANSFER_LEN);
     lcns \<leftarrow> lf_get32 t (e + DP1_LCNS_FOLLOW);
     vcn \<leftarrow> lf_get64 t (e + DP1_VCN);
     old \<leftarrow> lf_get64 t (e + DP1_OLDEST_LSN);
     Some \<lparr>ld_id = e, ld_target_attr = target, ld_transfer_len = tlen, ld_lcns_follow = lcns,
           ld_vcn = vcn, ld_oldest_lsn = old\<rparr> }"

definition get_open_attr :: "('a) lfs_log_scheme \<Rightarrow> buf \<Rightarrow> nat \<Rightarrow> log_open_attr option" where
  "get_open_attr log t e = do {
     let v1 = (crst_major log \<noteq> 0);
     ty \<leftarrow> lf_get32 t (e + (if v1 then OA1_TYPE else OA0_TYPE));
     bpi \<leftarrow> lf_get32 t (e + (if v1 then OA1_BYTES_PER_INDEX else OA0_BYTES_PER_INDEX));
     olsn \<leftarrow> lf_get64 t (e + (if v1 then OA1_OPEN_RECORD_LSN else OA0_OPEN_RECORD_LSN));
     dirty \<leftarrow> get8 t (e + (if v1 then OA1_DIRTY_PAGES else OA0_DIRTY_PAGES));
     let fref = e + (if v1 then OA1_FILE_REF else OA0_FILE_REF);
     lo \<leftarrow> lf_get32 t fref;
     hi \<leftarrow> lf_get16 t (fref + 4);
     sq \<leftarrow> lf_get16 t (fref + 6);
     nm \<leftarrow> find_attr_name log e;
     Some \<lparr>lo_id = e, lo_type = ty, lo_mft_no = lo + hi * 2 ^ 32, lo_mft_seq = sq,
           lo_bytes_per_index = bpi, lo_open_record_lsn = olsn, lo_dirty_pages = dirty, lo_name = nm\<rparr> }"

text \<open>One enumeration loop: decode each allocated entry and hand it to the callback.\<close>

partial_function (option) enum_loop ::
    "buf option \<Rightarrow> (buf \<Rightarrow> nat \<Rightarrow> 'r option) \<Rightarrow> ('r \<Rightarrow> 'c \<Rightarrow> int \<times> 'c) \<Rightarrow> nat option \<Rightarrow> 'c \<Rightarrow> (int \<times> 'c) option" where
  "enum_loop t decode cb cur ctx =
     Option.bind (lfs_table_next t cur) (\<lambda>nxt. case nxt of None \<Rightarrow> Some (0, ctx)
       | Some e \<Rightarrow> Option.bind t (\<lambda>b. Option.bind (decode b e) (\<lambda>x.
           (case cb x ctx of (rc, ctx') \<Rightarrow>
              if rc \<noteq> 0 then Some (rc, ctx') else enum_loop t decode cb (Some e) ctx'))))"

definition enum_table ::
    "buf option \<Rightarrow> (buf \<Rightarrow> nat \<Rightarrow> 'r option) \<Rightarrow> ('r \<Rightarrow> 'c \<Rightarrow> int \<times> 'c) option \<Rightarrow> 'c \<Rightarrow> (int \<times> 'c) option" where
  "enum_table t decode cb ctx = (case cb of None \<Rightarrow> Some (0, ctx) | Some f \<Rightarrow> enum_loop t decode f None ctx)"

definition ntfs_logfile_tables ::
    "('a) lfs_log_scheme \<Rightarrow> (log_transaction \<Rightarrow> 'c \<Rightarrow> int \<times> 'c) option \<Rightarrow>
     (log_dirty_page \<Rightarrow> 'c \<Rightarrow> int \<times> 'c) option \<Rightarrow> (log_open_attr \<Rightarrow> 'c \<Rightarrow> int \<times> 'c) option \<Rightarrow>
     'c \<Rightarrow> (int \<times> 'c) option" where
  "ntfs_logfile_tables log cb_tr cb_dp cb_oa ctx = do {
     (rc, ctx) \<leftarrow> enum_table (trtbl log) get_transaction cb_tr ctx;
     if rc \<noteq> 0 then Some (rc, ctx)
     else do {
       (rc, ctx) \<leftarrow> enum_table (dptbl log) get_dirty_page cb_dp ctx;
       if rc \<noteq> 0 then Some (rc, ctx)
       else enum_table (oatbl log) (get_open_attr log) cb_oa ctx } }"

section \<open>Walking the records\<close>

partial_function (option) walk_loop ::
    "('a) lfs_log_scheme \<Rightarrow> (ntfs_log_record \<Rightarrow> 'c \<Rightarrow> int \<times> 'c) \<Rightarrow> nat \<Rightarrow> 'c \<Rightarrow> (int \<times> 'c) option" where
  "walk_loop log cb lsn ctx =
     (if lsn = 0 then Some (0, ctx)
      else Option.bind (lfs_read_record log lsn) (\<lambda>r. case r of (err, rec) \<Rightarrow>
        if err \<noteq> 0 then Some (err, ctx)
        else Option.bind (lfs_decode_record rec) (\<lambda>info.
          (case cb info ctx of (stop, ctx') \<Rightarrow>
             if stop \<noteq> 0 then Some (0, ctx')
             else Option.bind (lfs_next_lsn log rec) (\<lambda>n. case n of (err, nxt) \<Rightarrow>
               if err \<noteq> 0 then Some (err, ctx') else walk_loop log cb nxt ctx')))))"

definition ntfs_logfile_walk ::
    "'a lfs_log_scheme \<Rightarrow> nat \<Rightarrow> (ntfs_log_record \<Rightarrow> 'c \<Rightarrow> int \<times> 'c) \<Rightarrow> 'c \<Rightarrow> (int \<times> 'a lfs_log_scheme \<times> 'c) option" where
  "ntfs_logfile_walk log from_lsn cb ctx =
     (if state log = NTFS_LOG_EMPTY then Some (0, log, ctx)
      else if state log = NTFS_LOG_CORRUPT \<or> state log = NTFS_LOG_UNSUPPORTED then Some (- EINVAL, log, ctx)
      else do {
        (err, log) \<leftarrow> lfs_tail_scan log;
        if err \<noteq> 0 then Some (err, log, ctx)
        else do {
          (err, log) \<leftarrow> (if crst log = None \<and> checkpoint_lsn log = 0 then lfs_load_checkpoint log
                        else Some (0, log));
          if err \<noteq> 0 \<and> err \<noteq> - ENOENT then Some (err, log, ctx)
          else do {
            let lsn = (if from_lsn \<noteq> 0 then from_lsn
                       else if checkpoint_lsn log \<noteq> 0 then checkpoint_lsn log
                       else client_restart_lsn log);
            (err, ctx) \<leftarrow> walk_loop log cb lsn ctx;
            Some (err, log, ctx) } } })"

end
