(* ===== verification/Lfs_Walk.thy ===== *)
theory Lfs_Walk
  imports Lfs_Checkpoint
begin

text \<open>
  Reading and walking the records of a log (core/logfile/logfile_records.c) is memory-safe and
  ends, whatever the log file holds.  The theory has no definitions of the program; it states
  what the readers of Lfs_Records and Lfs_Checkpoint rely on (\<open>log_ok\<close>) and shows that a record
  that was read is complete, that the LSNs of a walk increase strictly and that the walk returns.
\<close>

section \<open>Pages and records\<close>

text \<open>
  A geometry as \<open>setup_geometry\<close> leaves it, a read callback that fills the buffer when it
  reports success, and page overrides of one page each.
\<close>

definition log_ok :: "'a lfs_log_scheme \<Rightarrow> bool" where
  "log_ok log \<longleftrightarrow> geom_ok log \<and> (\<forall>off len x. io_read log off len = (0, x) \<longrightarrow> length x = len) \<and>
     (\<forall>p\<in>set (ovr log). length (snd p) = page_size log)"

lemma log_okD:
  assumes "log_ok log"
  shows "geom_ok log" "io_read log off len = (0, x) \<Longrightarrow> length x = len" "p \<in> set (ovr log) \<Longrightarrow> length (snd p) = page_size log"
  using assms by (auto simp: log_ok_def)

lemma read_page_ok:
  assumes "log_ok log"
  shows "\<exists>err page t. lfs_read_page log vbo w = Some (err, page, t) \<and> (err = 0 \<longrightarrow> length page = page_size log)"
proof (cases "page_override (ovr log) (and_not32 vbo (page_mask log))")
  case (Some p)
  then obtain q where "q \<in> set (ovr log)" "p = snd q" by (auto simp: page_override_def find_Some_iff) (metis nth_mem snd_conv)
  then have "length p = page_size log" using log_okD(3) [OF assms] by blast
  then show ?thesis using Some by (auto simp: lfs_read_page_def Let_def slice_def)
next
  case None
  obtain err page where r: "io_read log (and_not32 vbo (page_mask log)) (page_size log) = (err, page)" by fastforce
  show ?thesis
  proof (cases "err = 0")
    case True
    with r have len: "length page = page_size log" using log_okD(2) [OF assms] by simp
    have ps: "512 \<le> page_size log" using geom_page_size(1) log_okD(1) assms by blast
    obtain magic where m: "lf_get32 page 0 = Some magic" using get_le_ok [of 0 4 page] len ps by (auto simp: lf_defs)
    have "8 \<le> length page" using len ps by simp
    from fixups_total [OF this, of 512] obtain e p' t where
      "lfs_fixup_post_read page (length page) 512 = Some (e, p', t)" "length p' = length page" by auto
    then show ?thesis using r True None m len by (auto simp: lfs_read_page_def Let_def)
  qed (use r None in \<open>auto simp: lfs_read_page_def Let_def\<close>)
qed

lemma read_page_inside:
  assumes "log_ok log" "lfs_read_page log vbo w = Some (0, page, t)" "vbo < 4294967296"
  shows "vbo < l_size log"
proof -
  note g = log_okD(1) [OF assms(1)]
  have p: "and_not32 vbo (page_mask log) < l_size log" using assms(2) by (auto simp: lfs_read_page_def Let_def split: if_splits)
  have e: "and_not32 vbo (page_mask log) = vbo - vbo mod page_size log" by (rule page_start [OF g assms(3)])
  have "(vbo - vbo mod page_size log) mod page_size log = 0" unfolding minus_mod_eq_mult_div by simp
  from page_fits [OF g this] p e have "vbo - vbo mod page_size log + page_size log \<le> l_size log" by simp
  moreover have "vbo mod page_size log < page_size log" using geom_page_size(1) [OF g] by (intro mod_less_divisor) linarith
  ultimately show ?thesis by linarith
qed

lemma read_data_step:
  fixes len :: nat
  assumes "log_ok log" "off \<le> page_size log"
  defines "n \<equiv> min (page_size log - off) len"
  shows "(\<exists>err bytes. read_data_loop log lsn len vbo off acc = Some (err, bytes) \<and> (err = 0 \<longrightarrow> length bytes = length acc + len)) \<or>
    (\<exists>part vbo'. length part = n \<and> n < len \<and>
       read_data_loop log lsn len vbo off acc = read_data_loop log lsn (len - n) vbo' (data_off log) (acc @ part))"
proof -
  note g = geom_page_size [OF log_okD(1) [OF assms(1)]]
  have t: "(if len \<le> sub32 (page_size log) off then len else sub32 (page_size log) off) = n"
    using assms(2) g(2) by (simp add: n_def min_def)
  obtain err page tt where p: "lfs_read_page log vbo False = Some (err, page, tt)" "err = 0 \<longrightarrow> length page = page_size log"
    using read_page_ok [OF assms(1)] by blast
  show ?thesis
  proof (cases "err = 0")
    case True
    then have len: "length page = page_size log" using p(2) by simp
    have small: "\<exists>v. get_le k page q = Some v" if "q + k \<le> 512" for k q using that len g(1) by (intro get_le_ok) simp
    obtain magic where m: "lf_get32 page PG_MAGIC = Some magic" using small [of 0 4] by (auto simp: lf_defs)
    obtain pl where pl: "lf_get64 page PG_LAST_LSN = Some pl" using small [of 8 8] by (auto simp: lf_defs)
    obtain fl where fl: "lf_get32 page PG_FLAGS = Some fl" using small [of 16 4] by (auto simp: lf_defs)
    obtain el where el: "lf_get64 page PG_LAST_END_LSN = Some el" using small [of 32 8] by (auto simp: lf_defs)
    have "off + n \<le> length page" using len assms(2) unfolding n_def by linarith
    then obtain part where s: "slice page off n = Some part" "length part = n" by (simp add: slice_def)
    have step: "read_data_loop log lsn len vbo off acc = (if magic \<noteq> LFS_MAGIC_RCRD then Some (- EINVAL, acc)
      else if lsn > pl then Some (- EINVAL, acc)
      else if len - n = 0 then (if fl AND LFS_PAGE_LOG_RECORD_END = 0 \<or> lsn > el then Some (- EINVAL, acc @ part) else Some (0, acc @ part))
      else if pl = el then Some (- EINVAL, acc @ part)
      else read_data_loop log lsn (len - n) (lfs_next_page_off log vbo) (data_off log) (acc @ part))"
      by (subst read_data_loop.simps) (simp only: t Let_def p(1) m pl fl el s(1) bind.bind_lunit True prod.case if_False simp_thms)
    have n: "n \<le> len" by (simp add: n_def)
    consider "\<exists>bytes. read_data_loop log lsn len vbo off acc = Some (- EINVAL, bytes)" |
      "len = n" "read_data_loop log lsn len vbo off acc = Some (0, acc @ part)" |
      "n < len" "read_data_loop log lsn len vbo off acc = read_data_loop log lsn (len - n) (lfs_next_page_off log vbo) (data_off log) (acc @ part)"
      using step n by (auto split: if_splits)
    then show ?thesis
    proof cases
      case 2
      then show ?thesis using s(2) by simp
    qed (use s(2) in auto)
  qed (use p in \<open>subst read_data_loop.simps, simp\<close>)
qed

text \<open>The loop over the pages of a record always ends, with an error or with all the bytes asked for.\<close>

lemma read_data_loop_ok:
  assumes "log_ok log" "off \<le> page_size log"
  shows "\<exists>err bytes. read_data_loop log lsn len vbo off acc = Some (err, bytes) \<and> (err = 0 \<longrightarrow> length bytes = length acc + len)"
proof -
  have d: "data_off log < page_size log" using geom_okD(16) log_okD(1) assms(1) by blast
  have inner: "\<exists>err bytes. read_data_loop log lsn len vbo (data_off log) acc = Some (err, bytes) \<and> (err = 0 \<longrightarrow> length bytes = length acc + len)"
    for len vbo acc
  proof (induction len arbitrary: vbo acc rule: less_induct)
    case (less len)
    let ?n = "min (page_size log - data_off log) len"
    from read_data_step [OF assms(1), of "data_off log" lsn len vbo acc] d consider
      "\<exists>err bytes. read_data_loop log lsn len vbo (data_off log) acc = Some (err, bytes) \<and> (err = 0 \<longrightarrow> length bytes = length acc + len)" |
      part vbo' where "length part = ?n" "?n < len"
        "read_data_loop log lsn len vbo (data_off log) acc = read_data_loop log lsn (len - ?n) vbo' (data_off log) (acc @ part)" by auto
    then show ?case
    proof cases
      case 2
      have "len - ?n < len" using d 2(2) by auto
      from less.IH [OF this, of vbo' "acc @ part"] 2 show ?thesis by auto
    qed
  qed
  from read_data_step [OF assms, of lsn len vbo acc] show ?thesis
  proof (elim disjE exE conjE)
    fix part vbo' assume a: "length part = min (page_size log - off) len" "min (page_size log - off) len < len"
      "read_data_loop log lsn len vbo off acc = read_data_loop log lsn (len - min (page_size log - off) len) vbo' (data_off log) (acc @ part)"
    then show ?thesis using inner [of "len - min (page_size log - off) len" vbo' "acc @ part"] by auto
  qed blast
qed

text \<open>What a caller of \<open>lfs_read_record\<close> gets: the header, and as many bytes of data as the record says are readable.\<close>

definition record_ok :: "lfs_record \<Rightarrow> bool" where
  "record_ok rec \<longleftrightarrow> length (rec_hdr rec) = LR_HEADER_SIZE \<and> length (rec_data rec) = rec_data_avail rec \<and>
     rec_data_len rec \<le> rec_data_avail rec"


lemma record_avail_ok:
  assumes "geom_ok log" "length page = page_size log" "length hdr = LR_HEADER_SIZE"
  shows "\<exists>a. record_avail log page hdr poff len tot = Some a \<and> len \<le> a"
proof -
  obtain rt where rt: "lf_get32 hdr LR_RECORD_TYPE = Some rt" using get_le_ok [of 32 4 hdr] assms(3) by (auto simp: lf_defs)
  show ?thesis
  proof (cases "poff + record_header_len log + NR_HEADER_SIZE \<le> page_size log")
    case True
    let ?lr = "poff + record_header_len log"
    have f: "\<exists>v. lf_get16 page (?lr + q) = Some v" if "q + 2 \<le> NR_HEADER_SIZE" for q
      using get_le_ok [of "?lr + q" 2 page] that True assms(2) by (auto simp: lf_defs)
    obtain ro rl uo ul where "lf_get16 page (?lr + NR_REDO_OFFSET) = Some ro" "lf_get16 page (?lr + NR_REDO_LENGTH) = Some rl"
      "lf_get16 page (?lr + NR_UNDO_OFFSET) = Some uo" "lf_get16 page (?lr + NR_UNDO_LENGTH) = Some ul"
      using f [of 4] f [of 6] f [of 8] f [of 10] by auto
    then show ?thesis using rt by (auto simp: record_avail_def Let_def le_max_iff_disj)
  qed (simp add: record_avail_def rt)
qed

lemma read_record_body_ok:
  assumes "log_ok log" "length page = page_size log" "poff < page_size log" "poff + record_header_len log \<le> page_size log"
    "poff = lfs_lsn_to_vbo log lsn AND page_mask log"
  shows "\<exists>err rec. read_record_body log lsn poff page = Some (err, rec) \<and> (err = 0 \<longrightarrow> record_ok rec \<and> rec_lsn rec = lsn \<and>
    rec_data_len rec + record_header_len log < 4294967296)"
proof -
  note g = geom_page_size [OF log_okD(1) [OF assms(1)]] and d = geom_okD [OF log_okD(1) [OF assms(1)]]
  obtain hdr where hdr: "slice page poff LR_HEADER_SIZE = Some hdr" "length hdr = LR_HEADER_SIZE"
    using assms(2,4) d(13) by (simp add: slice_def)
  have f: "\<exists>v. get_le k hdr q = Some v" if "q + k \<le> LR_HEADER_SIZE" for k q using that hdr(2) by (intro get_le_ok) simp
  obtain this len fl where h: "lf_get64 hdr LR_THIS_LSN = Some this" "lf_get32 hdr LR_CLIENT_DATA_LENGTH = Some len" "lf_get16 hdr LR_FLAGS = Some fl"
    using f [of 0 8] f [of 24 4] f [of 40 2] by (auto simp: lf_defs)
  define tot where "tot = (sub32 (l_size log) (first_page log) div 2 ^ page_bits log) * sub32 (page_size log) (data_off log)"
  have tot: "tot \<le> l_size log - first_page log"
  proof -
    have "tot = (l_size log - first_page log) div page_size log * (page_size log - data_off log)"
      using g(2,5,8) d(16) unfolding tot_def d(3) [symmetric] by simp
    also have "\<dots> \<le> (l_size log - first_page log) div page_size log * page_size log" by (rule mult_le_mono2) simp
    also have "\<dots> \<le> l_size log - first_page log" by (rule div_times_less_eq_dividend)
    finally show ?thesis .
  qed
  obtain a where a: "record_avail log page hdr poff len tot = Some a" "len \<le> a"
    using record_avail_ok [OF log_okD(1) [OF assms(1)] assms(2) hdr(2)] by blast
  let ?off = "u32 ((lfs_lsn_to_vbo log lsn AND page_mask log) + record_header_len log)"
  have "?off \<le> page_size log" using assms(4) g(2) unfolding assms(5) [symmetric] by simp
  from read_data_loop_ok [OF assms(1) this] obtain e1 b1 where
    m: "read_record_data log lsn len = Some (e1, b1)" "e1 = 0 \<longrightarrow> length b1 = len"
    unfolding read_record_data_def by (metis add_0 list.size(3))
  let ?r = "if fl AND LFS_RECORD_MULTI_PAGE \<noteq> 0 then read_record_data log lsn len
    else if u32 (poff + record_header_len log + len) > page_size log then Some (- EINVAL, [])
    else do { d \<leftarrow> slice page (poff + record_header_len log) len; Some (0, d) }"
  have r: "\<exists>e b. ?r = Some (e, b) \<and> (e = 0 \<longrightarrow> length b = len)" if "len + record_header_len log < tot"
  proof -
    have "u32 (poff + record_header_len log + len) = poff + record_header_len log + len"
      using that tot g(5,8) assms(3) d(12) by (intro u32_id) linarith
    then show ?thesis using m assms(2) by (auto simp: slice_def)
  qed
  show ?thesis
  proof (cases "this \<noteq> lsn \<or> len + record_header_len log \<ge> tot \<or> len = 0")
    case True
    have "read_record_body log lsn poff page = (if this \<noteq> lsn then Some (- EINVAL, no_record)
      else if len + record_header_len log \<ge> tot then Some (- EINVAL, no_record)
      else Some (0, \<lparr>rec_hdr = hdr, rec_data = [], rec_data_len = 0, rec_data_avail = 0, rec_lsn = lsn\<rparr>))"
      using True unfolding read_record_body_def hdr(1) h tot_def [symmetric] Let_def bind.bind_lunit by auto
    then show ?thesis using tot g(8) hdr(2) by (auto simp: record_ok_def)
  next
    case False
    then obtain e b where eb: "?r = Some (e, b)" "e = 0 \<longrightarrow> length b = len" using r by auto
    have "read_record_body log lsn poff page = (if e \<noteq> 0 then Some (e, no_record)
      else Some (0, \<lparr>rec_hdr = hdr, rec_data = b @ replicate (a - len) 0, rec_data_len = len, rec_data_avail = a, rec_lsn = lsn\<rparr>))"
      using False unfolding read_record_body_def hdr(1) h tot_def [symmetric] Let_def a(1) bind.bind_lunit eb(1) by simp
    then show ?thesis using eb(2) a(2) hdr(2) False tot g(8) by (auto simp: record_ok_def)
  qed
qed


lemma read_record_ok:
  assumes "log_ok log"
  shows "\<exists>err rec. lfs_read_record log lsn = Some (err, rec) \<and> (err = 0 \<longrightarrow> record_ok rec \<and> rec_lsn rec = lsn \<and>
    rec_data_len rec + record_header_len log < 4294967296 \<and> lfs_lsn_in_file log lsn \<and> lfs_lsn_to_vbo log lsn < l_size log)"
proof -
  let ?v = "lfs_lsn_to_vbo log lsn"
  note g = geom_page_size [OF log_okD(1) [OF assms]] and d = geom_okD [OF log_okD(1) [OF assms]]
  obtain err page t where p: "lfs_read_page log ?v False = Some (err, page, t)" "err = 0 \<longrightarrow> length page = page_size log"
    using read_page_ok [OF assms] by blast
  show ?thesis
  proof (cases "\<not> lfs_lsn_in_file log lsn \<or> ?v < first_page log \<or> u32 (?v + record_header_len log) > l_size log \<or> err \<noteq> 0")
    case True
    then show ?thesis unfolding lfs_read_record_def Let_def p(1) bind.bind_lunit by auto
  next
    case False
    then have len: "length page = page_size log" using p(2) by simp
    obtain magic where m: "lf_get32 page PG_MAGIC = Some magic" using get_le_ok [of 0 4 page] len g(1) by (auto simp: lf_defs)
    let ?o = "?v AND page_mask log"
    have o: "?o < page_size log" using g(1) by (simp add: page_offset [OF log_okD(1) [OF assms]])
    have v: "?v < l_size log" using read_page_inside [OF assms, of ?v] p(1) False by (simp add: lfs_lsn_to_vbo_def)
    show ?thesis
    proof (cases "magic \<noteq> LFS_MAGIC_RCRD \<or> ?o < data_off log \<or> u32 (?o + record_header_len log) > page_size log")
      case True
      then show ?thesis using False unfolding lfs_read_record_def Let_def p(1) bind.bind_lunit prod.case m by auto
    next
      case ok: False
      have "u32 (?o + record_header_len log) = ?o + record_header_len log" using o d(14) g(2) by (intro u32_id) linarith
      then have "?o + record_header_len log \<le> page_size log" using ok by simp
      note b = read_record_body_ok [OF assms len o this refl]
      have "lfs_read_record log lsn = read_record_body log lsn ?o page"
        using False ok unfolding lfs_read_record_def Let_def p(1) bind.bind_lunit prod.case m by simp
      then show ?thesis using b False v by auto
    qed
  qed
qed

text \<open>Decoding and checking a record that was read stays within it.\<close>

lemma decode_record_ok:
  assumes "record_ok rec"
  shows "\<exists>info. lfs_decode_record rec = Some info \<and> nr_lsn info = rec_lsn rec"
proof -
  have h: "\<exists>v. get_le k (rec_hdr rec) q = Some v" if "q + k \<le> 48" for k q
    using that assms by (intro get_le_ok) (simp add: record_ok_def)
  obtain a b c dd e f g where hd: "lf_get64 (rec_hdr rec) LR_CLIENT_PREV_LSN = Some a" "lf_get64 (rec_hdr rec) LR_CLIENT_UNDO_NEXT_LSN = Some b"
    "lf_get32 (rec_hdr rec) LR_TRANSACTION_ID = Some c" "lf_get32 (rec_hdr rec) LR_RECORD_TYPE = Some dd" "lf_get16 (rec_hdr rec) LR_FLAGS = Some e"
    "lf_get16 (rec_hdr rec) LR_CLIENT_SEQ_NUMBER = Some f" "lf_get16 (rec_hdr rec) LR_CLIENT_INDEX = Some g"
    using h [of 8 8] h [of 16 8] h [of 36 4] h [of 32 4] h [of 40 2] h [of 28 2] h [of 30 2] by (auto simp: lf_defs)
  obtain out where out: "decode_header rec = Some out" "nr_lsn out = rec_lsn rec" "nr_record_type out = dd"
    by (simp add: decode_header_def hd Let_def)
  show ?thesis
  proof (cases "dd \<noteq> LFS_RECORD_TYPE_CLIENT \<or> rec_data_len rec < NR_HEADER_SIZE")
    case True
    then show ?thesis using out by (simp add: lfs_decode_record_def)
  next
    case False
    have f: "\<exists>v. get_le k (rec_data rec) q = Some v" if "q + k \<le> 32" for k q
      using that assms False by (intro get_le_ok) (simp add: record_ok_def)
    have p: "\<exists>d. payload_ptr rec o1 l1 = Some d" for o1 l1 using assms by (auto simp: payload_ptr_def slice_def record_ok_def)
    note fs = f [of 0 2] f [of 2 2] f [of 4 2] f [of 6 2] f [of 8 2] f [of 10 2] f [of 12 2] f [of 14 2] f [of 16 2] f [of 18 2] f [of 20 2] f [of 24 8]
    obtain ro rl uo ul where ru: "get_le 2 (rec_data rec) 4 = Some ro" "get_le 2 (rec_data rec) 6 = Some rl" "get_le 2 (rec_data rec) 8 = Some uo"
      "get_le 2 (rec_data rec) 10 = Some ul" using f [of 4 2] f [of 6 2] f [of 8 2] f [of 10 2] by auto
    obtain pr pu where pp: "payload_ptr rec ro rl = Some pr" "payload_ptr rec uo ul = Some pu" using p by blast
    show ?thesis using fs out False ru pp by (auto simp: lfs_decode_record_def lf_defs Let_def)
  qed
qed

text \<open>The framing check accepts only records whose payloads lie within the bytes that were made readable.\<close>

lemma check_client_rec_ok:
  assumes "record_ok rec"
  shows "\<exists>ok. lfs_check_client_rec rec bpa = Some ok \<and> (ok \<longrightarrow> NR_HEADER_SIZE + 8 \<le> rec_data_len rec \<and>
    (\<exists>ro rl uo ul. lf_get16 (rec_data rec) NR_REDO_OFFSET = Some ro \<and> lf_get16 (rec_data rec) NR_REDO_LENGTH = Some rl \<and>
       lf_get16 (rec_data rec) NR_UNDO_OFFSET = Some uo \<and> lf_get16 (rec_data rec) NR_UNDO_LENGTH = Some ul \<and>
       (rl \<noteq> 0 \<longrightarrow> ro + rl \<le> length (rec_data rec)) \<and> (ul \<noteq> 0 \<longrightarrow> uo + ul \<le> length (rec_data rec))))"
proof (cases "rec_data_len rec < NR_HEADER_SIZE")
  case False
  have f: "\<exists>v. get_le k (rec_data rec) q = Some v" if "q + k \<le> 32" for k q
    using that assms False by (intro get_le_ok) (simp add: record_ok_def)
  obtain a b c d e t ro uo where "get_le 2 (rec_data rec) 4 = Some a" "get_le 2 (rec_data rec) 6 = Some b" "get_le 2 (rec_data rec) 8 = Some c"
    "get_le 2 (rec_data rec) 10 = Some d" "get_le 2 (rec_data rec) 14 = Some e" "get_le 2 (rec_data rec) 12 = Some t"
    "get_le 2 (rec_data rec) 0 = Some ro" "get_le 2 (rec_data rec) 2 = Some uo"
    using f [of 4 2] f [of 6 2] f [of 8 2] f [of 10 2] f [of 14 2] f [of 12 2] f [of 0 2] f [of 2 2] by auto
  then show ?thesis using False assms by (auto simp: lfs_check_client_rec_def lf_defs Let_def record_ok_def not_le split: if_splits)
qed (simp add: lfs_check_client_rec_def exI [of _ False])

section \<open>The next record\<close>

lemma next_byte_inside:
  assumes "geom_ok log" "v < l_size log"
  shows "next_byte log v < l_size log"
proof -
  obtain P k where P: "v = P + k" "k < page_size log" "P mod page_size log = 0" "P < l_size log" by (rule split_page [OF assms])
  note fits = page_fits [OF assms(1) P(3,4)] and g = geom_page_size [OF assms(1)]
  show ?thesis
  proof (cases "(v + 1) mod page_size log = 0")
    case True
    have n: "lfs_next_page_off log v = lfs_next_page_off log P"
      using next_page_off_aligned(1) [OF assms(1) P(3,4), of k] next_page_off_aligned(1) [OF assms(1) P(3,4), of 0] P(1,2) g(1) by simp
    have "lfs_next_page_off log P + page_size log \<le> l_size log"
      using next_page_off_aligned(2,3) [OF assms(1) P(3,4), of 0] g(1) by (intro page_fits [OF assms(1)]) simp_all
    then show ?thesis using True g(7) by (simp add: next_byte_def n)
  next
    case False
    then have "k + 1 < page_size log"
    proof -
      have "(v + 1) mod page_size log = (k + 1) mod page_size log" using P(1,3) by (metis add.assoc add_0 mod_add_left_eq)
      with False P(2) show ?thesis by (metis Suc_eq_plus1 Suc_lessI mod_self)
    qed
    moreover have "next_byte log v = v + 1" using False by (simp add: next_byte_def)
    ultimately show ?thesis using fits P(1) by linarith
  qed
qed

lemma final_log_off_inside:
  assumes "geom_ok log" "lfs_lsn_to_vbo log lsn < l_size log" "len + record_header_len log < 4294967296"
  shows "\<exists>e. lfs_final_log_off log lsn len = Some e \<and> e < l_size log"
proof -
  have "(next_byte log ^^ k) (lfs_lsn_to_vbo log lsn) < l_size log" for k
    by (induction k) (use assms(1,2) next_byte_inside in auto)
  then show ?thesis using final_log_off_eq [OF assms] by simp
qed

text \<open>An LSN is made from a position up to and including the end of the file as long as the sequence number has room.\<close>

lemma vbo_to_lsn_value:
  assumes "geom_ok log" "vbo \<le> l_size log" "seq * 2 ^ file_data_bits log + 2 ^ file_data_bits log < 18446744073709551616"
  shows "lfs_vbo_to_lsn log vbo seq = seq * 2 ^ file_data_bits log + vbo div 8"
proof -
  have "vbo \<le> 2 ^ (file_data_bits log + 3)" using assms(2) geom_okD(11) [OF assms(1)] by linarith
  then have "vbo div 8 \<le> 2 ^ (file_data_bits log + 3) div 8" by (rule div_le_mono)
  also have "(2::nat) ^ (file_data_bits log + 3) div 8 = 2 ^ file_data_bits log" by (simp add: power_add)
  finally have "vbo div 8 \<le> 2 ^ file_data_bits log" .
  with assms(3) show ?thesis by (simp add: lfs_vbo_to_lsn_def add.commute)
qed

lemma lsn_split:
  assumes "geom_ok log"
  shows "lsn = lfs_lsn_seq log lsn * 2 ^ file_data_bits log + lfs_lsn_to_vbo log lsn div 8" "8 dvd lfs_lsn_to_vbo log lsn"
    "lsn < (lfs_lsn_seq log lsn + 1) * 2 ^ file_data_bits log"
proof -
  show "lsn = lfs_lsn_seq log lsn * 2 ^ file_data_bits log + lfs_lsn_to_vbo log lsn div 8" "8 dvd lfs_lsn_to_vbo log lsn"
    by (simp_all add: lsn_to_vbo_eq [OF assms] lfs_lsn_seq_def div_mult_mod_eq)
  show "lsn < (lfs_lsn_seq log lsn + 1) * 2 ^ file_data_bits log"
    unfolding lfs_lsn_seq_def by (metis add.commute dividend_less_div_times plus_1_eq_Suc mult_Suc zero_less_numeral zero_less_power)
qed

text \<open>
  Where the next record may start: on the page after the record's last page, or 8-byte aligned
  behind the record.  In both cases the LSN grows, because a position that does not grow comes
  with a larger sequence number.
\<close>

lemma next_position_grows:
  assumes "geom_ok log" "vbo \<le> l_size log" "lsn < 9223372036854775808" "seq \<le> lfs_lsn_seq log lsn + 2"
    "lfs_lsn_seq log lsn < seq \<or> lfs_lsn_seq log lsn = seq \<and> lfs_lsn_to_vbo log lsn + 8 \<le> vbo"
  shows "lsn < lfs_vbo_to_lsn log vbo seq"
proof -
  let ?f = "2 ^ file_data_bits log :: nat" and ?s = "lfs_lsn_seq log lsn"
  note s = lsn_split [OF assms(1), of lsn]
  have f: "?f \<le> 536870912" using power_increasing [of "file_data_bits log" 29 "2::nat"] geom_okD(10) [OF assms(1)] by simp
  have "seq * ?f \<le> (?s + 2) * ?f" by (rule mult_le_mono1 [OF assms(4)])
  then have "seq * ?f + ?f \<le> ?s * ?f + 3 * ?f" by (simp add: algebra_simps)
  moreover have "?s * ?f \<le> lsn" using s(1) by linarith
  ultimately have b: "seq * ?f + ?f < 18446744073709551616" using assms(3) f by linarith
  note v = vbo_to_lsn_value [OF assms(1,2) b]
  from assms(5) show ?thesis
  proof
    assume "?s < seq"
    then have "(?s + 1) * ?f \<le> seq * ?f" by (intro mult_le_mono1) simp
    with v s(3) show ?thesis by linarith
  next
    assume a: "?s = seq \<and> lfs_lsn_to_vbo log lsn + 8 \<le> vbo"
    then have "(lfs_lsn_to_vbo log lsn + 8) div 8 \<le> vbo div 8" by (intro div_le_mono) simp
    with a v s(1) show ?thesis by simp
  qed
qed

lemma next_lsn_grows:
  assumes "log_ok log" "lfs_lsn_to_vbo log (rec_lsn rec) < l_size log" "rec_data_len rec + record_header_len log < 4294967296"
    "rec_lsn rec < 9223372036854775808"
  shows "\<exists>err nxt. lfs_next_lsn log rec = Some (err, nxt) \<and>
    (err = 0 \<longrightarrow> nxt = 0 \<or> rec_lsn rec < nxt \<and> lfs_lsn_in_file log nxt)"
proof -
  let ?l = "rec_lsn rec" and ?v = "lfs_lsn_to_vbo log (rec_lsn rec)" and ?ps = "page_size log"
  note g = log_okD(1) [OF assms(1)]
  note gp = geom_page_size [OF g]
  define s0 where "s0 = lfs_lsn_seq log ?l"
  obtain e where e: "lfs_final_log_off log ?l (rec_data_len rec) = Some e" "e < l_size log"
    using final_log_off_inside [OF g assms(2,3)] by blast
  obtain P k where P: "e = P + k" "k < ?ps" "P mod ?ps = 0" "P < l_size log" "and_not32 e (page_mask log) = P"
    by (rule split_page [OF g e(2)])
  have sm: "s0 + 2 < 18446744073709551616"
  proof -
    have "s0 \<le> ?l" by (simp add: s0_def lfs_lsn_seq_def)
    with assms(4) show ?thesis by linarith
  qed
  define seq where "seq = (if e \<le> ?v then s0 + 1 else s0)"
  have sq: "(if e \<le> ?v then u64 (s0 + 1) else s0) = seq" using sm by (simp add: seq_def)
  have seq: "s0 \<le> seq" "seq \<le> s0 + 1" "e \<le> ?v \<Longrightarrow> s0 < seq" by (simp_all add: seq_def)
  obtain err page t where pg: "lfs_read_page log P False = Some (err, page, t)" "err = 0 \<longrightarrow> length page = ?ps"
    using read_page_ok [OF assms(1)] by blast
  show ?thesis
  proof (cases "err = 0")
    case True
    obtain pl where pl: "lf_get64 page PG_LAST_LSN = Some pl" using get_le_ok [of 8 8 page] pg(2) True gp(1) by (auto simp: lf_defs)
    define h where "h = lfs_next_page_off log P"
    have p0: "0 < ?ps" using gp(1) by linarith
    have ha: "h = (if P + ?ps = l_size log then first_page log else P + ?ps)" "h mod ?ps = 0" "h < l_size log"
      using next_page_off_aligned [OF g P(3,4), of 0] p0 by (simp_all add: h_def)
    have hf: "h + ?ps \<le> l_size log" by (rule page_fits [OF g ha(2,3)])
    have u: "u32 (h + data_off log) = h + data_off log" "h + data_off log \<le> l_size log" using hf gp(7,8) by simp_all
    define nxt where "nxt = (if ?l = pl then lfs_vbo_to_lsn log (h + data_off log) (if h = first_page log then seq + 1 else seq)
      else lfs_vbo_to_lsn log (LF_ALIGN8 e) seq)"
    have "u64 (seq + 1) = seq + 1" using sm seq(2) by simp
    then have n: "lfs_next_lsn log rec = Some (0, if lfs_lsn_in_file log nxt then nxt else 0)"
      unfolding lfs_next_lsn_def Let_def e(1) bind.bind_lunit P(5) pg(1) prod.case pl s0_def [symmetric] sq h_def [symmetric] u(1)
      using True by (simp add: nxt_def)
    note gr = next_position_grows [OF g _ assms(4), folded s0_def]
    have d8: "8 dvd ?v" by (rule lsn_split(2) [OF g])
    have "?l < nxt"
    proof (cases "?l = pl")
      case True
      show ?thesis
      proof (cases "h = first_page log")
        case f: True
        show ?thesis using True f gr [OF u(2), of "seq + 1"] seq by (simp add: nxt_def)
      next
        case f: False
        have "s0 < seq \<or> s0 = seq \<and> ?v + 8 \<le> h + data_off log"
        proof (cases "e \<le> ?v")
          case False
          moreover have "h = P + ?ps" using f ha(1) by (simp split: if_splits)
          moreover have "40 \<le> data_off log" by (rule geom_okD(15) [OF g])
          ultimately show ?thesis using P(1,2) seq by (cases "s0 = seq") linarith+
        qed (use seq(3) in simp)
        then show ?thesis using True f gr [OF u(2), of seq] seq by (simp add: nxt_def)
      qed
    next
      case False
      have "(2::nat) ^ 3 dvd 2 ^ page_bits log" using geom_okD(1) [OF g] by (intro le_imp_power_dvd) simp
      then have "8 dvd l_size log" using dvd_trans [of 8 "page_size log" "l_size log"] geom_okD(3,5) [OF g] by (simp add: mod_0_imp_dvd)
      then obtain m where m: "l_size log = 8 * m" by blast
      have "m < 536870912" using gp(8) m by simp
      then have "e + 7 < 4294967296" using e(2) m by linarith
      note al = align8 [OF this]
      have "LF_ALIGN8 e \<le> l_size log"
      proof -
        obtain b where "LF_ALIGN8 e = 8 * b" using al by blast
        moreover from this have "8 * b < 8 * m + 8" using al e(2) m by linarith
        then have "b \<le> m" by simp
        ultimately show ?thesis using m by simp
      qed
      moreover have "s0 < seq \<or> s0 = seq \<and> ?v + 8 \<le> LF_ALIGN8 e"
      proof (cases "e \<le> ?v")
        case ev: False
        obtain a b where ab: "?v = 8 * a" "LF_ALIGN8 e = 8 * b" using d8 al by (auto simp: dvd_def)
        then have "a < b" using ev al by linarith
        then show ?thesis using ab seq by (cases "s0 = seq") auto
      qed (use seq(3) in simp)
      ultimately show ?thesis using False gr [of "LF_ALIGN8 e" seq] seq by (simp add: nxt_def)
    qed
    then show ?thesis using n by auto
  next
    case False
    then have "lfs_next_lsn log rec = Some (err, 0)"
      unfolding lfs_next_lsn_def Let_def e(1) bind.bind_lunit P(5) pg(1) prod.case by simp
    then show ?thesis using False by simp
  qed
qed

section \<open>The walk\<close>

text \<open>
  A callback that collects the LSNs it sees shows the order of the visits; the walk is total for
  every callback.
\<close>

lemma walk_loop_zero: "walk_loop log cb 0 ctx = Some (0, ctx)"
  by (subst walk_loop.simps) simp

lemma walk_loop_step:
  assumes "log_ok log" "last_lsn log < 9223372036854775808" "lsn \<noteq> 0"
  shows "(\<exists>err. walk_loop log cb lsn ctx = Some (err, ctx)) \<or>
    (\<exists>info stop ctx' err. nr_lsn info = lsn \<and> lfs_lsn_in_file log lsn \<and> cb info ctx = (stop, ctx') \<and> walk_loop log cb lsn ctx = Some (err, ctx')) \<or>
    (\<exists>info ctx' nxt. nr_lsn info = lsn \<and> lfs_lsn_in_file log lsn \<and> cb info ctx = (0, ctx') \<and> lsn < nxt \<and> lfs_lsn_in_file log nxt \<and>
       walk_loop log cb lsn ctx = walk_loop log cb nxt ctx')"
proof -
  obtain err rec where r: "lfs_read_record log lsn = Some (err, rec)" "err = 0 \<longrightarrow> record_ok rec \<and> rec_lsn rec = lsn \<and>
    rec_data_len rec + record_header_len log < 4294967296 \<and> lfs_lsn_in_file log lsn \<and> lfs_lsn_to_vbo log lsn < l_size log"
    using read_record_ok [OF assms(1)] by blast
  show ?thesis
  proof (cases "err = 0")
    case True
    with r(2) have rec: "record_ok rec" "rec_lsn rec = lsn" "rec_data_len rec + record_header_len log < 4294967296"
      "lfs_lsn_in_file log lsn" "lfs_lsn_to_vbo log lsn < l_size log" by simp_all
    have small: "lsn < 9223372036854775808" using rec(4) assms(2) by (simp add: lfs_lsn_in_file_def)
    obtain info where i: "lfs_decode_record rec = Some info" "nr_lsn info = lsn" using decode_record_ok [OF rec(1)] rec(2) by blast
    obtain stop ctx' where c: "cb info ctx = (stop, ctx')" by fastforce
    obtain e2 nxt where n: "lfs_next_lsn log rec = Some (e2, nxt)" "e2 = 0 \<longrightarrow> nxt = 0 \<or> lsn < nxt \<and> lfs_lsn_in_file log nxt"
      using next_lsn_grows [OF assms(1), of rec] rec small by auto
    have step: "walk_loop log cb lsn ctx = (if stop \<noteq> 0 then Some (0, ctx') else if e2 \<noteq> 0 then Some (e2, ctx') else walk_loop log cb nxt ctx')"
      using assms(3) True by (subst walk_loop.simps) (simp add: r(1) i(1) c n(1))
    show ?thesis
    proof (cases "stop = 0 \<and> e2 = 0 \<and> nxt \<noteq> 0")
      case True
      then have "walk_loop log cb lsn ctx = walk_loop log cb nxt ctx'" "lsn < nxt" "lfs_lsn_in_file log nxt" using step n(2) by simp_all
      with True c i(2) rec(4) show ?thesis by blast
    next
      case False
      then have "\<exists>err. walk_loop log cb lsn ctx = Some (err, ctx')" using step walk_loop_zero [of log cb ctx'] by (auto split: if_splits)
      then show ?thesis using c i(2) rec(4) by blast
    qed
  next
    case False
    then have "walk_loop log cb lsn ctx = Some (err, ctx)" using assms(3) by (subst walk_loop.simps) (simp add: r(1))
    then show ?thesis by blast
  qed
qed

text \<open>
  C6.  Walking the log ends, whatever its pages hold, and never accesses memory outside its
  buffers: with a valid geometry and a last LSN below \<open>2 ^ 63\<close>, \<open>walk_loop\<close>, the loop of
  \<open>ntfs_logfile_walk\<close>, returns for every callback and every starting LSN, and an observer that
  records the LSNs it is given sees strictly increasing ones, all between the oldest and the last
  LSN of the log.  The bound on the last LSN is a condition on the log: the engine takes the value
  from the log and does not check it, and above the bound the sequence number may wrap around.
\<close>

theorem walk_terminates:
  assumes "log_ok log" "last_lsn log < 9223372036854775808"
  shows "(\<exists>err ctx'. walk_loop log cb lsn ctx = Some (err, ctx')) \<and>
    (\<exists>err seen. walk_loop log (\<lambda>info xs. (0, xs @ [nr_lsn info])) lsn [] = Some (err, seen) \<and> sorted_wrt (<) seen \<and>
       (\<forall>x\<in>set seen. lsn \<le> x \<and> lfs_lsn_in_file log x))"
proof
  show "\<exists>err ctx'. walk_loop log cb lsn ctx = Some (err, ctx')"
  proof (induction "last_lsn log - lsn" arbitrary: lsn ctx rule: less_induct)
    case less
    show ?case
    proof (cases "lsn = 0")
      case False
      from walk_loop_step [OF assms False, of cb ctx] show ?thesis
      proof (elim disjE exE conjE)
        fix ctx' nxt assume "lfs_lsn_in_file log lsn" "lsn < nxt" "lfs_lsn_in_file log nxt" "walk_loop log cb lsn ctx = walk_loop log cb nxt ctx'"
        moreover from this have "last_lsn log - nxt < last_lsn log - lsn" by (simp add: lfs_lsn_in_file_def)
        ultimately show ?thesis using less [of nxt ctx'] by simp
      qed blast+
    qed (simp add: walk_loop_zero)
  qed
  let ?cb = "\<lambda>info xs. (0 :: int, xs @ [nr_lsn info])"
  have "\<exists>err ys. walk_loop log ?cb lsn xs = Some (err, xs @ ys) \<and> sorted_wrt (<) ys \<and> (\<forall>x\<in>set ys. lsn \<le> x \<and> lfs_lsn_in_file log x)" for xs
  proof (induction "last_lsn log - lsn" arbitrary: lsn xs rule: less_induct)
    case less
    show ?case
    proof (cases "lsn = 0")
      case False
      from walk_loop_step [OF assms False, of ?cb xs] show ?thesis
      proof (elim disjE exE conjE)
        fix err assume "walk_loop log ?cb lsn xs = Some (err, xs)"
        then show ?thesis by (intro exI [of _ err] exI [of _ "[]"]) simp
      next
        fix info stop ctx' err assume "nr_lsn info = lsn" "lfs_lsn_in_file log lsn" "(0, xs @ [nr_lsn info]) = (stop, ctx')" "walk_loop log ?cb lsn xs = Some (err, ctx')"
        then show ?thesis by (intro exI [of _ err] exI [of _ "[lsn]"]) auto
      next
        fix info ctx' nxt assume a: "nr_lsn info = lsn" "lfs_lsn_in_file log lsn" "(0 :: int, xs @ [nr_lsn info]) = (0, ctx')" "lsn < nxt"
          "lfs_lsn_in_file log nxt" "walk_loop log ?cb lsn xs = walk_loop log ?cb nxt ctx'"
        then have "last_lsn log - nxt < last_lsn log - lsn" by (simp add: lfs_lsn_in_file_def)
        from less [OF this, of "xs @ [lsn]"] obtain err ys where "walk_loop log ?cb nxt (xs @ [lsn]) = Some (err, xs @ lsn # ys)" "sorted_wrt (<) ys"
          "\<forall>x\<in>set ys. nxt \<le> x \<and> lfs_lsn_in_file log x" by auto
        with a show ?thesis by (intro exI [of _ err] exI [of _ "lsn # ys"]) fastforce
      qed
    qed (intro exI [of _ 0] exI [of _ "[]"], simp add: walk_loop_zero)
  qed
  from this [of "[]"] show "\<exists>err seen. walk_loop log ?cb lsn [] = Some (err, seen) \<and> sorted_wrt (<) seen \<and>
       (\<forall>x\<in>set seen. lsn \<le> x \<and> lfs_lsn_in_file log x)" by simp
qed

text \<open>A geometry of 4096-byte pages over a log of zeros.\<close>

definition walk_log :: lfs_log where
  "walk_log = \<lparr>io_read = (\<lambda>off len. (0, replicate len 0)), cluster_size = 4096, mft_record_size = 1024, orig_size = 262144,
     l_size = 262144, page_size = 4096, page_bits = 12, page_mask = 4095, sys_page_size = 4096, major_ver = 1, minor_ver = 1,
     first_page = 16384, data_off = 64, record_header_len = 48, seq_num_bits = 49, file_data_bits = 15, clst_per_page = 1,
     rst = [], cur_rst = None, ra = None, client_idx = 0, client_seq = 0, client_oldest_lsn = 0, client_restart_lsn = 0,
     state = NTFS_LOG_DIRTY, initialized = True, current_lsn = 240000, last_lsn = 240000, oldest_lsn = 231432, seq_num = 7, next_page = 0,
     wrapped = False, reuse_tail = False, no_last_lsn = False, single_page_io = False, tail_scanned = True, tail_err = 0,
     open_log_count = 0, ovr = [], crst = None, checkpoint_lsn = 0, bytes_per_attr_entry = 0, crst_major = 0, trtbl = None,
     dptbl = None, oatbl = None, attr_names = None, plan = []\<rparr>"

text \<open>A log whose first page holds two empty records; the walk visits both.\<close>

definition walk_page :: buf where
  "walk_page = le_bytes 4 LFS_MAGIC_RCRD @ replicate 4 0 @ le_bytes 8 231438 @ replicate 48 0 @
     le_bytes 8 231432 @ replicate 40 0 @ le_bytes 8 231438 @ replicate 3976 0"

definition two_record_log :: lfs_log where
  "two_record_log = walk_log\<lparr>last_lsn := 231438, ovr := [(16384, walk_page)]\<rparr>"

lemma two_record_log_ok: "log_ok two_record_log"
  by (auto simp: log_ok_def geom_ok_def walk_log_def two_record_log_def walk_page_def)

lemma length_walk_page: "length walk_page = 4096" by (simp add: walk_page_def)

lemma walk_masks: "and_not32 16448 4095 = 16384" "and_not32 16496 4095 = 16384"  "and_not32 16384 4095 = 16384"
   "16448 AND 4095 = (64::nat)" "16496 AND 4095 = (112::nat)"  
  using and_not32_pow2 [of 12 16448] and_not32_pow2 [of 12 16496] and_not32_pow2 [of 12 16384] nat_and_mask_low [of 16448 12] nat_and_mask_low [of 16496 12] by simp_all

lemma walk_page_fields: "lf_get32 walk_page 0 = Some LFS_MAGIC_RCRD" "lf_get64 walk_page 8 = Some 231438"
  "slice walk_page 64 48 = Some (le_bytes 8 231432 @ replicate 40 0)" "slice walk_page 112 48 = Some (le_bytes 8 231438 @ replicate 40 0)"
  by (simp_all add: walk_page_def lf_defs get_le_def slice_def)

lemma two_read_page: "v \<in> {16448, 16496, 16384} \<Longrightarrow> lfs_read_page two_record_log v False = Some (0, walk_page, False)"
  by (auto simp: lfs_read_page_def two_record_log_def walk_log_def walk_masks page_override_def slice_def length_walk_page)

definition empty_rec :: "nat \<Rightarrow> lfs_record" where
  "empty_rec l = \<lparr>rec_hdr = le_bytes 8 l @ replicate 40 0, rec_data = [], rec_data_len = 0, rec_data_avail = 0, rec_lsn = l\<rparr>"

lemma two_geom: "l_size two_record_log = 262144" "first_page two_record_log = 16384" "page_bits two_record_log = 12" "page_size two_record_log = 4096" "page_mask two_record_log = 4095"
  "data_off two_record_log = 64" "record_header_len two_record_log = 48" "oldest_lsn two_record_log = 231432" "last_lsn two_record_log = 231438"
  "file_data_bits two_record_log = 15" "seq_num_bits two_record_log = 49"
  by (simp_all add: two_record_log_def walk_log_def)

lemma two_vbo: "lfs_lsn_to_vbo two_record_log 231432 = 16448" "lfs_lsn_to_vbo two_record_log 231438 = 16496"
  by (simp_all add: two_geom lfs_lsn_to_vbo_def u32_def u64_def)

lemma empty_hdr: "lf_get64 (le_bytes 8 l @ replicate 40 0) 0 = Some (u64 l)" "k \<ge> 8 \<Longrightarrow> k + 8 \<le> 48 \<Longrightarrow> lf_get64 (le_bytes 8 l @ replicate 40 0) k = Some 0"
   "k \<ge> 8 \<Longrightarrow> k + 4 \<le> 48 \<Longrightarrow> lf_get32 (le_bytes 8 l @ replicate 40 0) k = Some 0"  "k \<ge> 8 \<Longrightarrow> k + 2 \<le> 48 \<Longrightarrow> lf_get16 (le_bytes 8 l @ replicate 40 0) k = Some 0"
  by (simp_all add: lf_defs get_le_def slice_def u64_def drop_append le_of_zeros)

lemma two_read: "l \<in> {231432, 231438} \<Longrightarrow> lfs_read_record two_record_log l = Some (0, empty_rec l)"
  by (auto simp: lfs_read_record_def read_record_body_def Let_def two_vbo two_read_page two_geom lfs_lsn_in_file_def walk_page_fields walk_masks empty_hdr empty_rec_def)

lemma empty_rec_decode: "\<exists>i. lfs_decode_record (empty_rec l) = Some i \<and> nr_lsn i = l"
  by (simp add: lfs_decode_record_def decode_header_def empty_rec_def empty_hdr)

lemma two_final: "lfs_final_log_off two_record_log 231432 0 = Some 16495" "lfs_final_log_off two_record_log 231438 0 = Some 16543"
  using nat_and_mask_low [of 1851456 18] nat_and_mask_low [of 1851504 18] nat_and_mask_low [of 1851456 12] nat_and_mask_low [of 1851504 12]
  by (simp_all add: lfs_final_log_off_def two_geom u32_def walk_masks)

lemma two_next:
  "lfs_next_lsn two_record_log (empty_rec 231432) = Some (0, 231438)" "lfs_next_lsn two_record_log (empty_rec 231438) = Some (0, 0)"
proof -
  have m: "and_not32 16495 4095 = 16384" "and_not32 16543 4095 = 16384" "and_not32 16502 7 = 16496" "and_not32 16550 7 = 16544"
    using and_not32_pow2 [of 12 16495] and_not32_pow2 [of 12 16543] and_not32_pow2 [of 3 16502] and_not32_pow2 [of 3 16550] by simp_all
  show "lfs_next_lsn two_record_log (empty_rec 231432) = Some (0, 231438)" "lfs_next_lsn two_record_log (empty_rec 231438) = Some (0, 0)"
    by (simp_all add: lfs_next_lsn_def empty_rec_def two_vbo two_final two_geom m two_read_page walk_page_fields lfs_lsn_seq_def lfs_vbo_to_lsn_def
        LF_ALIGN8_def lfs_next_page_off_def walk_masks lfs_lsn_in_file_def)
qed

lemma two_record_walk: "walk_loop two_record_log (\<lambda>info xs. (0, xs @ [nr_lsn info])) 231432 [] = Some (0, [231432, 231438])"
proof -
  obtain i j where "lfs_decode_record (empty_rec 231432) = Some i" "nr_lsn i = 231432" "lfs_decode_record (empty_rec 231438) = Some j" "nr_lsn j = 231438"
    using empty_rec_decode by metis
  then show ?thesis
    by (subst walk_loop.simps, subst walk_loop.simps) (simp add: two_read two_next walk_loop_zero)
qed

theorem walk_terminates_witness:
  "log_ok two_record_log \<and> (\<exists>err seen. walk_loop two_record_log (\<lambda>info xs. (0, xs @ [nr_lsn info])) 231432 [] = Some (err, seen) \<and>
     seen = [231432, 231438] \<and> sorted_wrt (<) seen \<and> (\<forall>x\<in>set seen. lfs_lsn_in_file two_record_log x))"
proof -
  have "last_lsn two_record_log < 9223372036854775808" by (simp add: two_geom)
  from walk_terminates [OF two_record_log_ok this, of "\<lambda>_ _. (0, ())" 231432 "()"] obtain err seen where
    "walk_loop two_record_log (\<lambda>info xs. (0, xs @ [nr_lsn info])) 231432 [] = Some (err, seen)" "sorted_wrt (<) seen"
    "\<forall>x\<in>set seen. lfs_lsn_in_file two_record_log x" by blast
  with two_record_log_ok two_record_walk show ?thesis by auto
qed

text \<open>
  C34.  Every record the reader hands out is well-formed: \<open>lfs_read_record\<close> returns on every log
  file, and on success the record has its 48-byte header, carries the LSN asked for, holds as many
  bytes as it declares readable and at least the declared client data; \<open>lfs_decode_record\<close> and
  \<open>lfs_check_client_rec\<close> stay within it, and a record the check accepts has both payloads inside.
\<close>

theorem read_record_wf:
  assumes "log_ok log"
  shows "\<exists>err rec. lfs_read_record log lsn = Some (err, rec) \<and> (err = 0 \<longrightarrow> rec_lsn rec = lsn \<and> length (rec_hdr rec) = LR_HEADER_SIZE \<and>
    rec_data_len rec \<le> rec_data_avail rec \<and> length (rec_data rec) = rec_data_avail rec \<and> (\<exists>info. lfs_decode_record rec = Some info) \<and>
    (\<exists>ok. lfs_check_client_rec rec bpa = Some ok \<and> (ok \<longrightarrow>
      (\<exists>ro rl uo ul. lf_get16 (rec_data rec) NR_REDO_OFFSET = Some ro \<and> lf_get16 (rec_data rec) NR_REDO_LENGTH = Some rl \<and>
       lf_get16 (rec_data rec) NR_UNDO_OFFSET = Some uo \<and> lf_get16 (rec_data rec) NR_UNDO_LENGTH = Some ul \<and>
       (rl \<noteq> 0 \<longrightarrow> ro + rl \<le> length (rec_data rec)) \<and> (ul \<noteq> 0 \<longrightarrow> uo + ul \<le> length (rec_data rec))))))"
proof -
  obtain err rec where r: "lfs_read_record log lsn = Some (err, rec)" "err = 0 \<longrightarrow> record_ok rec \<and> rec_lsn rec = lsn"
    using read_record_ok [OF assms] by blast
  show ?thesis
  proof (cases "err = 0")
    case True
    with r(2) have ok: "record_ok rec" "rec_lsn rec = lsn" by simp_all
    show ?thesis using r(1) ok(2) decode_record_ok [OF ok(1)] check_client_rec_ok [OF ok(1), of bpa] ok(1) [unfolded record_ok_def]
      by (intro exI [of _ err] exI [of _ rec]) blast
  qed (use r(1) in simp)
qed

theorem read_record_wf_witness: "log_ok walk_log \<and> (\<exists>err rec. lfs_read_record walk_log 231432 = Some (err, rec))"
proof -
  have ok: "log_ok walk_log" by (auto simp: log_ok_def geom_ok_def walk_log_def)
  with read_record_wf [OF ok, of 231432 0] show ?thesis by blast
qed

end
