(* ===== verification/Lfs_Open.thy ===== *)
theory Lfs_Open
  imports Lfs_Tables Lfs_Fixup
begin

text \<open>
  Opening a $LogFile (core/logfile/logfile_open.c): validating and choosing the restart
  pages, deriving the geometry, classifying the log, and writing a clean pair of restart
  pages.  The error text and the logger are left out; a rejected restart page is its error
  code.
\<close>

section \<open>Small helpers\<close>

definition is_pow2 :: "nat \<Rightarrow> bool" where
  "is_pow2 v \<longleftrightarrow> v \<noteq> 0 \<and> v AND (v - 1) = 0"

fun ilog2_u32 :: "nat \<Rightarrow> nat" where
  "ilog2_u32 v = (if v div 2 = 0 then 0 else Suc (ilog2_u32 (v div 2)))"

declare ilog2_u32.simps [simp del]

text \<open>The number of bits of a value, computed by shifting it to zero.\<close>

fun bit_count :: "nat \<Rightarrow> nat" where
  "bit_count v = (if v = 0 then 0 else Suc (bit_count (v div 2)))"

declare bit_count.simps [simp del]

section \<open>Restart pages\<close>

text \<open>\<open>check_rp_header\<close>: the return code and \<open>*have_usa\<close>.\<close>

definition check_rp_header :: "buf \<Rightarrow> nat \<Rightarrow> (int \<times> bool) option" where
  "check_rp_header rp pos = do {
     sys_ps \<leftarrow> lf_get32 rp RP_SYSTEM_PAGE_SIZE;
     log_ps \<leftarrow> lf_get32 rp RP_LOG_PAGE_SIZE;
     major \<leftarrow> lf_get16 rp RP_MAJOR_VER;
     minor \<leftarrow> lf_get16 rp RP_MINOR_VER;
     magic \<leftarrow> lf_get32 rp RP_MAGIC;
     if sys_ps < LFS_SECTOR_SIZE \<or> log_ps < LFS_SECTOR_SIZE \<or> \<not> is_pow2 sys_ps \<or> \<not> is_pow2 log_ps
     then Some (- EINVAL, True)
     else if pos \<noteq> 0 \<and> pos \<noteq> sys_ps then Some (- EINVAL, True)
     else if \<not> (major = 1 \<and> (minor = 0 \<or> minor = 1) \<or> major = 2 \<and> minor = 0)
     then Some (- ENOTSUP, True)
     else do {
       count \<leftarrow> lf_get16 rp RP_USA_COUNT;
       usa_ofs \<leftarrow> lf_get16 rp RP_USA_OFS;
       let have_usa = \<not> (magic = LFS_MAGIC_CHKD \<and> count = 0);
       let usa_count = u16 (1 + sys_ps div 2 ^ LFS_SECTOR_SHIFT);
       let usa_end = (if have_usa then usa_ofs + usa_count * 2 else 0);
       if have_usa \<and> usa_count \<noteq> count then Some (- EINVAL, have_usa)
       else if have_usa \<and> (usa_ofs < RP_HEADER_SIZE \<or> usa_end > LFS_SECTOR_SIZE - 2)
       then Some (- EINVAL, have_usa)
       else do {
         ra_ofs \<leftarrow> lf_get16 rp RP_RESTART_AREA_OFFSET;
         chkdsk_lsn \<leftarrow> lf_get64 rp RP_CHKDSK_LSN;
         if ra_ofs AND 7 \<noteq> 0 \<or> (if have_usa then ra_ofs < usa_end else ra_ofs < RP_HEADER_SIZE) \<or>
            ra_ofs > sys_ps
         then Some (- EINVAL, have_usa)
         else if magic \<noteq> LFS_MAGIC_CHKD \<and> chkdsk_lsn \<noteq> 0 then Some (- EINVAL, have_usa)
         else Some (0, have_usa) } } }"

definition check_ra :: "buf \<Rightarrow> int option" where
  "check_ra rp = do {
     ra_ofs \<leftarrow> lf_get16 rp RP_RESTART_AREA_OFFSET;
     sys_ps \<leftarrow> lf_get32 rp RP_SYSTEM_PAGE_SIZE;
     if ra_ofs + RA_FILE_SIZE > LFS_SECTOR_SIZE - 2 then Some (- EINVAL)
     else do {
       ca_ofs \<leftarrow> lf_get16 rp (ra_ofs + RA_CLIENT_ARRAY_OFFSET);
       if ca_ofs AND 7 \<noteq> 0 \<or> ra_ofs + ca_ofs > LFS_SECTOR_SIZE - 2 then Some (- EINVAL)
       else do {
         clients \<leftarrow> lf_get16 rp (ra_ofs + RA_LOG_CLIENTS);
         ra_len \<leftarrow> lf_get16 rp (ra_ofs + RA_RESTART_AREA_LENGTH);
         let ra_len_calc = u16 (ca_ofs + clients * CR_SIZE);
         if ra_ofs + ra_len_calc > sys_ps \<or> ra_ofs + ra_len > sys_ps \<or> ra_len_calc > ra_len
         then Some (- EINVAL)
         else do {
           fl \<leftarrow> lf_get16 rp (ra_ofs + RA_CLIENT_FREE_LIST);
           ul \<leftarrow> lf_get16 rp (ra_ofs + RA_CLIENT_IN_USE_LIST);
           if (fl \<noteq> LFS_NO_CLIENT \<and> fl \<ge> clients) \<or> (ul \<noteq> LFS_NO_CLIENT \<and> ul \<ge> clients)
           then Some (- EINVAL)
           else do {
             fs \<leftarrow> lf_get64 rp (ra_ofs + RA_FILE_SIZE);
             bits \<leftarrow> lf_get32 rp (ra_ofs + RA_SEQ_NUMBER_BITS);
             if bits \<noteq> 67 - bit_count fs then Some (- EINVAL)
             else do {
               rhl \<leftarrow> lf_get16 rp (ra_ofs + RA_LOG_RECORD_HEADER_LENGTH);
               if rhl AND 7 \<noteq> 0 then Some (- EINVAL)
               else do {
                 dof \<leftarrow> lf_get16 rp (ra_ofs + RA_LOG_PAGE_DATA_OFFSET);
                 if dof AND 7 \<noteq> 0 then Some (- EINVAL) else Some 0 } } } } } } }"

text \<open>One of the two client lists; \<open>ca\<close> is the offset of the client array in the page.\<close>

fun check_client_list :: "buf \<Rightarrow> nat \<Rightarrow> nat \<Rightarrow> nat \<Rightarrow> nat \<Rightarrow> bool \<Rightarrow> int option" where
  "check_client_list rp ca nr idx budget first =
     (if idx = LFS_NO_CLIENT then Some 0
      else if budget = 0 \<or> idx \<ge> nr then Some (- EINVAL)
      else do {
        prev \<leftarrow> lf_get16 rp (ca + idx * CR_SIZE + CR_PREV_CLIENT);
        if first \<and> prev \<noteq> LFS_NO_CLIENT then Some (- EINVAL)
        else do {
          nxt \<leftarrow> lf_get16 rp (ca + idx * CR_SIZE + CR_NEXT_CLIENT);
          check_client_list rp ca nr nxt (budget - 1) False } })"

declare check_client_list.simps [simp del]

definition check_client_array :: "buf \<Rightarrow> int option" where
  "check_client_array rp = do {
     ra \<leftarrow> lf_get16 rp RP_RESTART_AREA_OFFSET;
     ca_ofs \<leftarrow> lf_get16 rp (ra + RA_CLIENT_ARRAY_OFFSET);
     nr \<leftarrow> lf_get16 rp (ra + RA_LOG_CLIENTS);
     idx0 \<leftarrow> lf_get16 rp (ra + RA_CLIENT_FREE_LIST);
     err \<leftarrow> check_client_list rp (ra + ca_ofs) nr idx0 nr True;
     if err \<noteq> 0 then Some err
     else do {
       idx1 \<leftarrow> lf_get16 rp (ra + RA_CLIENT_IN_USE_LIST);
       check_client_list rp (ra + ca_ofs) nr idx1 nr True } }"

text \<open>The read, deprotection and client check of \<open>load_restart_page\<close>.\<close>

definition restart_page_fixup :: "buf \<Rightarrow> nat \<Rightarrow> bool \<Rightarrow> (int \<times> buf) option" where
  "restart_page_fixup page sys_ps have_usa =
     (if \<not> have_usa then Some (0, page)
      else do {
        (err, page, torn) \<leftarrow> lfs_fixup_post_read page sys_ps LFS_SECTOR_SIZE;
        if err \<noteq> 0 \<or> torn then do {
          ra \<leftarrow> lf_get16 page RP_RESTART_AREA_OFFSET;
          len \<leftarrow> lf_get16 page (ra + RA_RESTART_AREA_LENGTH);
          if err \<noteq> 0 \<or> ra + len > LFS_SECTOR_SIZE - 2 then Some (- EINVAL, page)
          else Some (0, page) }
        else Some (0, page) })"

definition load_restart_page :: "('a) lfs_log_scheme \<Rightarrow> nat \<Rightarrow> buf \<Rightarrow> (int \<times> lfs_rst option) option" where
  "load_restart_page log pos head = do {
     (err, have_usa) \<leftarrow> check_rp_header head pos;
     if err \<noteq> 0 then Some (err, None)
     else do {
       err \<leftarrow> check_ra head;
       if err \<noteq> 0 then Some (err, None)
       else do {
         sys_ps \<leftarrow> lf_get32 head RP_SYSTEM_PAGE_SIZE;
         magic \<leftarrow> lf_get32 head RP_MAGIC;
         if pos + sys_ps > orig_size log then Some (- EINVAL, None)
         else (
           let (err, page) = io_read log pos sys_ps in
           if err \<noteq> 0 then Some (io_err err, None)
           else do {
             (err, page) \<leftarrow> restart_page_fixup page sys_ps have_usa;
             if err \<noteq> 0 then Some (err, None)
             else do {
               ra \<leftarrow> lf_get16 page RP_RESTART_AREA_OFFSET;
               err \<leftarrow> (if magic = LFS_MAGIC_RSTR then do {
                         ul \<leftarrow> lf_get16 page (ra + RA_CLIENT_IN_USE_LIST);
                         if ul \<noteq> LFS_NO_CLIENT then check_client_array page else Some 0 }
                       else Some 0);
               if err \<noteq> 0 then Some (err, None)
               else do {
                 lsn \<leftarrow> (if magic = LFS_MAGIC_RSTR then lf_get64 page (ra + RA_CURRENT_LSN)
                        else lf_get64 page RP_CHKDSK_LSN);
                 Some (0, Some \<lparr>rst_chkdsk = (magic = LFS_MAGIC_CHKD), rst_vbo = pos,
                                rst_lsn = lsn, rst_page = page\<rparr>) } } }) } } }"

text \<open>
  The probe loop of \<open>find_restart_pages\<close>.  The result is the return code (the number of pages
  found, or an error), the log and \<open>empty\<close>; a loop that never ends is \<open>None\<close>.
\<close>

definition next_probe :: "nat \<Rightarrow> nat" where
  "next_probe pos = (if pos \<noteq> 0 then u32 (pos * 2) else LFS_SECTOR_SIZE)"

partial_function (option) find_loop ::
    "'a lfs_log_scheme \<Rightarrow> nat \<Rightarrow> bool \<Rightarrow> (int \<times> 'a lfs_log_scheme \<times> bool) option" where
  "find_loop log pos emp =
     (if \<not> pos < orig_size log then Some (int (length (rst log)), log, emp)
      else if u32 (pos + LFS_SECTOR_SIZE) > orig_size log then Some (int (length (rst log)), log, emp)
      else (
        let (err, head) = io_read log pos LFS_SECTOR_SIZE in
        if err \<noteq> 0 then Some (io_err err, log, emp)
        else Option.bind (lf_get32 head 0) (\<lambda>magic.
          if magic = LFS_MAGIC_EMPTY \<and> \<not> emp then Some (int (length (rst log)), log, emp)
          else (
            let emp = (emp \<and> magic = LFS_MAGIC_EMPTY) in
            if magic = LFS_MAGIC_RCRD then Some (int (length (rst log)), log, emp)
            else if magic \<noteq> LFS_MAGIC_RSTR \<and> magic \<noteq> LFS_MAGIC_CHKD
            then find_loop log (next_probe pos) emp
            else Option.bind (load_restart_page log pos head) (\<lambda>r. case r of (err, pg) \<Rightarrow>
              (case pg of
                 Some p \<Rightarrow> (
                   let log = log\<lparr>rst := rst log @ [p]\<rparr> in
                   if length (rst log) = 2 then Some (2, log, emp)
                   else find_loop log (next_probe pos) emp)
               | None \<Rightarrow>
                   if err \<noteq> - EINVAL \<and> err \<noteq> - ENOTSUP then Some (err, log, emp)
                   else find_loop (if err = - ENOTSUP then log\<lparr>state := NTFS_LOG_UNSUPPORTED\<rparr> else log)
                          (next_probe pos) emp))))))"

definition find_restart_pages :: "'a lfs_log_scheme \<Rightarrow> (int \<times> 'a lfs_log_scheme) option" where
  "find_restart_pages log = do {
     (found, log, emp) \<leftarrow> find_loop log 0 True;
     if found < 0 then Some (found, log)
     else Some (found, log\<lparr>initialized := \<not> emp\<rparr>) }"

section \<open>Geometry\<close>

text \<open>The checks and assignments of \<open>setup_geometry\<close>, in the order of the code.\<close>

definition geometry_base :: "'a lfs_log_scheme \<Rightarrow> buf \<Rightarrow> nat \<Rightarrow> (int \<times> 'a lfs_log_scheme) option" where
  "geometry_base log rp ra_ofs = do {
     major \<leftarrow> lf_get16 rp RP_MAJOR_VER;
     minor \<leftarrow> lf_get16 rp RP_MINOR_VER;
     sys_ps \<leftarrow> lf_get32 rp RP_SYSTEM_PAGE_SIZE;
     ps \<leftarrow> lf_get32 rp RP_LOG_PAGE_SIZE;
     let log = log\<lparr>major_ver := major, minor_ver := minor, sys_page_size := sys_ps, page_size := ps\<rparr>;
     if ps \<noteq> sys_ps then Some (- ENOTSUP, log)
     else if ps > 64 * 1024 then Some (- ENOTSUP, log)
     else do {
       let log = log\<lparr>page_bits := ilog2_u32 ps, page_mask := sub32 ps 1\<rparr>;
       fsize \<leftarrow> lf_get64 rp (ra_ofs + RA_FILE_SIZE);
       if fsize > orig_size log then Some (- EINVAL, log)
       else do {
         let log = log\<lparr>l_size := and_not32 (u32 fsize) (page_mask log)\<rparr>;
         if l_size log < u32 ((LFS_MIN_RECORD_PAGES + 2) * ps) then Some (- EINVAL, log)
         else do {
           snb \<leftarrow> lf_get32 rp (ra_ofs + RA_SEQ_NUMBER_BITS);
           rhl \<leftarrow> lf_get16 rp (ra_ofs + RA_LOG_RECORD_HEADER_LENGTH);
           dof \<leftarrow> lf_get16 rp (ra_ofs + RA_LOG_PAGE_DATA_OFFSET);
           opens \<leftarrow> lf_get32 rp (ra_ofs + RA_RESTART_LOG_OPEN_COUNT);
           let log = log\<lparr>seq_num_bits := snb, file_data_bits := sub32 64 snb, record_header_len := rhl,
             data_off := dof, open_log_count := opens,
             first_page := (if major \<ge> 2 then 34 else 4) * ps,
             clst_per_page := (if ps div cluster_size log = 0 then 1 else ps div cluster_size log)\<rparr>;
           if rhl < LR_HEADER_SIZE \<or> rhl \<ge> ps \<or> dof < PG_USA \<or> dof \<ge> ps then Some (- EINVAL, log)
           else Some (0, log) } } } }"

text \<open>
  The walks over the in-use client list: the index of the first client named NTFS, and the
  smallest non-zero oldest LSN.  Neither loop has a budget, so a cyclic list makes it run for
  ever (\<open>None\<close>).
\<close>

definition client_is_ntfs :: "buf \<Rightarrow> nat \<Rightarrow> bool option" where
  "client_is_ntfs rp cr = do {
     n \<leftarrow> lf_get32 rp (cr + CR_CLIENT_NAME_LENGTH);
     a \<leftarrow> lf_get16 rp (cr + CR_CLIENT_NAME);
     b \<leftarrow> lf_get16 rp (cr + CR_CLIENT_NAME + 2);
     c \<leftarrow> lf_get16 rp (cr + CR_CLIENT_NAME + 4);
     d \<leftarrow> lf_get16 rp (cr + CR_CLIENT_NAME + 6);
     Some (n = 8 \<and> a = 0x4e \<and> b = 0x54 \<and> c = 0x46 \<and> d = 0x53) }"

partial_function (option) find_client :: "buf \<Rightarrow> nat \<Rightarrow> nat \<Rightarrow> nat \<Rightarrow> nat option option" where
  "find_client rp ca nr idx =
     (if idx = LFS_NO_CLIENT \<or> idx \<ge> nr then Some None
      else Option.bind (client_is_ntfs rp (ca + idx * CR_SIZE)) (\<lambda>hit.
        if hit then Some (Some idx)
        else Option.bind (lf_get16 rp (ca + idx * CR_SIZE + CR_NEXT_CLIENT)) (\<lambda>nxt.
          find_client rp ca nr nxt)))"

partial_function (option) min_oldest :: "buf \<Rightarrow> nat \<Rightarrow> nat \<Rightarrow> nat \<Rightarrow> nat \<Rightarrow> nat option" where
  "min_oldest rp ca nr idx oldest =
     (if idx = LFS_NO_CLIENT \<or> idx \<ge> nr then Some oldest
      else Option.bind (lf_get64 rp (ca + idx * CR_SIZE + CR_OLDEST_LSN)) (\<lambda>l.
        Option.bind (lf_get16 rp (ca + idx * CR_SIZE + CR_NEXT_CLIENT)) (\<lambda>nxt.
          min_oldest rp ca nr nxt (if l \<noteq> 0 \<and> l < oldest then l else oldest))))"

definition geometry_client :: "'a lfs_log_scheme \<Rightarrow> buf \<Rightarrow> nat \<Rightarrow> 'a lfs_log_scheme option" where
  "geometry_client log rp ra_ofs = do {
     ca_ofs \<leftarrow> lf_get16 rp (ra_ofs + RA_CLIENT_ARRAY_OFFSET);
     nr \<leftarrow> lf_get16 rp (ra_ofs + RA_LOG_CLIENTS);
     ul \<leftarrow> lf_get16 rp (ra_ofs + RA_CLIENT_IN_USE_LIST);
     let ca = ra_ofs + ca_ofs;
     hit \<leftarrow> find_client rp ca nr ul;
     log \<leftarrow> (case hit of None \<Rightarrow> Some (log\<lparr>client_idx := LFS_NO_CLIENT\<rparr>)
            | Some idx \<Rightarrow> do {
                sq \<leftarrow> lf_get16 rp (ca + idx * CR_SIZE + CR_SEQ_NUMBER);
                old \<leftarrow> lf_get64 rp (ca + idx * CR_SIZE + CR_OLDEST_LSN);
                res \<leftarrow> lf_get64 rp (ca + idx * CR_SIZE + CR_CLIENT_RESTART_LSN);
                Some (log\<lparr>client_idx := idx, client_seq := sq, client_oldest_lsn := old,
                          client_restart_lsn := res\<rparr>) });
     oldest \<leftarrow> min_oldest rp ca nr ul (current_lsn log);
     Some (log\<lparr>oldest_lsn := (if lfs_lsn_to_vbo log oldest < first_page log then 0 else oldest)\<rparr>) }"

definition geometry_next_page :: "'a lfs_log_scheme \<Rightarrow> nat \<Rightarrow> 'a lfs_log_scheme option" where
  "geometry_next_page log last_len = (
     let vbo = lfs_lsn_to_vbo log (current_lsn log) in
     if vbo < first_page log then Some (log\<lparr>no_last_lsn := True, next_page := first_page log\<rparr>)
     else do {
       e \<leftarrow> lfs_final_log_off log (current_lsn log) last_len;
       let log = (if e \<le> vbo then log\<lparr>seq_num := u64 (seq_num log + 1), wrapped := True\<rparr> else log);
       let vbo = and_not32 vbo (page_mask log);
       let tail = sub32 (sub32 (page_size log) (e AND page_mask log)) 1;
       Some (if tail \<ge> record_header_len log then log\<lparr>reuse_tail := True, next_page := vbo\<rparr>
             else log\<lparr>next_page := lfs_next_page_off log vbo\<rparr>) })"

definition setup_geometry :: "'a lfs_log_scheme \<Rightarrow> buf \<Rightarrow> (int \<times> 'a lfs_log_scheme) option" where
  "setup_geometry log rp = do {
     ra_ofs \<leftarrow> lf_get16 rp RP_RESTART_AREA_OFFSET;
     (err, log) \<leftarrow> geometry_base log rp ra_ofs;
     if err \<noteq> 0 then Some (err, log)
     else do {
       cur \<leftarrow> lf_get64 rp (ra_ofs + RA_CURRENT_LSN);
       flags \<leftarrow> lf_get16 rp (ra_ofs + RA_FLAGS);
       len \<leftarrow> lf_get16 rp (ra_ofs + RA_RESTART_AREA_LENGTH);
       area \<leftarrow> slice rp ra_ofs len;
       let log = log\<lparr>current_lsn := cur, last_lsn := cur, seq_num := lfs_lsn_seq log cur,
         single_page_io := (flags AND RESTART_SINGLE_PAGE_IO \<noteq> 0), ra := Some area\<rparr>;
       log \<leftarrow> geometry_client log rp ra_ofs;
       last_len \<leftarrow> lf_get32 rp (ra_ofs + RA_LAST_LSN_DATA_LENGTH);
       log \<leftarrow> geometry_next_page log last_len;
       Some (0, log) } }"

section \<open>Opening\<close>

text \<open>The state \<open>calloc\<close> and the first assignments of \<open>ntfs_logfile_open\<close> leave.\<close>

definition new_log :: "(nat \<Rightarrow> nat \<Rightarrow> int \<times> buf) \<Rightarrow> nat \<Rightarrow> nat \<Rightarrow> nat \<Rightarrow> lfs_log" where
  "new_log rd sz cs rs = \<lparr>io_read = rd, cluster_size = cs, mft_record_size = rs,
     orig_size = u32 (if sz > LFS_MAX_FILE_SIZE then LFS_MAX_FILE_SIZE else sz),
     l_size = 0, page_size = 0, page_bits = 0, page_mask = 0, sys_page_size = 0, major_ver = 0,
     minor_ver = 0, first_page = 0, data_off = 0, record_header_len = 0, seq_num_bits = 0,
     file_data_bits = 0, clst_per_page = 0, rst = [], cur_rst = None, ra = None, client_idx = 0,
     client_seq = 0, client_oldest_lsn = 0, client_restart_lsn = 0, state = NTFS_LOG_CORRUPT,
     initialized = False, current_lsn = 0, last_lsn = 0, oldest_lsn = 0, seq_num = 0, next_page = 0,
     wrapped = False, reuse_tail = False, no_last_lsn = False, single_page_io = False,
     tail_scanned = False, tail_err = 0, open_log_count = 0, ovr = [], crst = None,
     checkpoint_lsn = 0, bytes_per_attr_entry = 0, crst_major = 0, trtbl = None, dptbl = None,
     oatbl = None, attr_names = None, plan = []\<rparr>"

text \<open>The choice of the restart page and the classification of a log that has one.\<close>

definition choose_rst :: "lfs_rst list \<Rightarrow> nat" where
  "choose_rst rs =
     (if length rs = 2 \<and> rst_chkdsk (rs ! 0) \<and> \<not> rst_chkdsk (rs ! 1) then 0
      else if length rs = 2 \<and> rst_lsn (rs ! 1) > rst_lsn (rs ! 0) then 1 else 0)"

definition classify :: "buf \<Rightarrow> bool \<Rightarrow> log_state option" where
  "classify area chkdsk = do {
     ul \<leftarrow> lf_get16 area RA_CLIENT_IN_USE_LIST;
     flags \<leftarrow> lf_get16 area RA_FLAGS;
     Some (if \<not> ul \<noteq> LFS_NO_CLIENT \<or> flags AND RESTART_VOLUME_IS_CLEAN \<noteq> 0 then NTFS_LOG_CLEAN
           else if chkdsk then NTFS_LOG_CHKDSK else NTFS_LOG_DIRTY) }"

text \<open>
  \<open>ntfs_logfile_open\<close>: the return code and the log; no log is returned when the read callback
  fails.
\<close>

definition ntfs_logfile_open ::
    "(nat \<Rightarrow> nat \<Rightarrow> int \<times> buf) option \<Rightarrow> nat \<Rightarrow> nat \<Rightarrow> nat \<Rightarrow> (int \<times> lfs_log option) option" where
  "ntfs_logfile_open rd sz cs rs = (case rd of None \<Rightarrow> Some (- EINVAL, None) | Some rd \<Rightarrow>
     if cs = 0 \<or> rs = 0 then Some (- EINVAL, None)
     else do {
       (found, log) \<leftarrow> find_restart_pages (new_log rd sz cs rs);
       if found < 0 then Some (found, None)
       else if \<not> initialized log then Some (0, Some (log\<lparr>state := NTFS_LOG_EMPTY\<rparr>))
       else if found = 0 then Some (0, Some log)
       else do {
         let cur = choose_rst (rst log);
         let log = log\<lparr>cur_rst := Some cur\<rparr>;
         (err, log) \<leftarrow> setup_geometry log (rst_page (rst log ! cur));
         if err \<noteq> 0 then
           Some (0, Some (log\<lparr>state := (if err = - ENOTSUP then NTFS_LOG_UNSUPPORTED else NTFS_LOG_CORRUPT)\<rparr>))
         else do {
           area \<leftarrow> ra log;
           st \<leftarrow> classify area (rst_chkdsk (rst log ! cur));
           Some (0, Some (log\<lparr>state := st\<rparr>)) } } })"

definition ntfs_logfile_is_clean :: "('a) lfs_log_scheme \<Rightarrow> bool" where
  "ntfs_logfile_is_clean log \<longleftrightarrow> state log = NTFS_LOG_EMPTY \<or> state log = NTFS_LOG_CLEAN"

text \<open>\<open>ntfs_log_op_name\<close> with its table, which is dense from \<open>LOP_Noop\<close> on.\<close>

definition op_names :: "string list" where
  "op_names = [''Noop'', ''CompensationLogRecord'', ''InitializeFileRecordSegment'',
   ''DeallocateFileRecordSegment'', ''WriteEndOfFileRecordSegment'', ''CreateAttribute'',
   ''DeleteAttribute'', ''UpdateResidentValue'', ''UpdateNonresidentValue'',
   ''UpdateMappingPairs'', ''DeleteDirtyClusters'', ''SetNewAttributeSizes'',
   ''AddIndexEntryRoot'', ''DeleteIndexEntryRoot'', ''AddIndexEntryAllocation'',
   ''DeleteIndexEntryAllocation'', ''WriteEndOfIndexBuffer'', ''SetIndexEntryVcnRoot'',
   ''SetIndexEntryVcnAllocation'', ''UpdateFileNameRoot'', ''UpdateFileNameAllocation'',
   ''SetBitsInNonresidentBitMap'', ''ClearBitsInNonresidentBitMap'', ''HotFix'',
   ''EndTopLevelAction'', ''PrepareTransaction'', ''CommitTransaction'',
   ''ForgetTransaction'', ''OpenNonresidentAttribute'', ''OpenAttributeTableDump'',
   ''AttributeNamesDump'', ''DirtyPageTableDump'', ''TransactionTableDump'',
   ''UpdateRecordDataRoot'', ''UpdateRecordDataAllocation'', ''UpdateRelativeDataInIndex'',
   ''UpdateRelativeDataInIndex2'', ''ZeroEndOfFileRecord'']"

definition ntfs_log_op_name :: "nat \<Rightarrow> string" where
  "ntfs_log_op_name op = (if op < LOP__MAX then op_names ! op else ''Unknown'')"

record logfile_info =
  li_state :: log_state
  li_major_ver :: nat
  li_minor_ver :: nat
  li_system_page_size :: nat
  li_log_page_size :: nat
  li_file_size :: nat
  li_current_lsn :: nat
  li_last_lsn :: nat
  li_oldest_lsn :: nat
  li_client_restart_lsn :: nat
  li_checkpoint_lsn :: nat
  li_seq_number_bits :: nat
  li_open_log_count :: nat
  li_restart_area_flags :: nat
  li_client_in_use :: nat
  li_client_free :: nat
  li_volume_is_clean_flag :: bool
  li_restart_page_used :: "bool \<times> bool"
  li_table_transactions :: nat
  li_table_dirty_pages :: nat
  li_table_open_attrs :: nat
  li_tail_scanned :: bool
  li_tail_overrides :: nat
  li_next_page :: nat
  li_reuse_tail :: bool
  li_client_restart_version :: nat
  li_attr_names_bytes :: nat

definition ntfs_logfile_get_info :: "('a) lfs_log_scheme \<Rightarrow> logfile_info option" where
  "ntfs_logfile_get_info log = do {
     (flags, ul, fl) \<leftarrow> (case ra log of None \<Rightarrow> Some (0, 0, 0)
       | Some area \<Rightarrow> do {
           flags \<leftarrow> lf_get16 area RA_FLAGS;
           ul \<leftarrow> lf_get16 area RA_CLIENT_IN_USE_LIST;
           fl \<leftarrow> lf_get16 area RA_CLIENT_FREE_LIST;
           Some (flags, ul, fl) });
     tr \<leftarrow> lfs_table_total (trtbl log);
     dp \<leftarrow> lfs_table_total (dptbl log);
     oa \<leftarrow> lfs_table_total (oatbl log);
     Some \<lparr>li_state = state log, li_major_ver = major_ver log, li_minor_ver = minor_ver log,
       li_system_page_size = sys_page_size log, li_log_page_size = page_size log,
       li_file_size = l_size log, li_current_lsn = current_lsn log, li_last_lsn = last_lsn log,
       li_oldest_lsn = oldest_lsn log, li_client_restart_lsn = client_restart_lsn log,
       li_checkpoint_lsn = checkpoint_lsn log, li_seq_number_bits = seq_num_bits log,
       li_open_log_count = open_log_count log, li_restart_area_flags = flags,
       li_client_in_use = ul, li_client_free = fl,
       li_volume_is_clean_flag = (flags AND RESTART_VOLUME_IS_CLEAN \<noteq> 0),
       li_restart_page_used = (cur_rst log = Some 0, cur_rst log = Some 1),
       li_table_transactions = tr, li_table_dirty_pages = dp, li_table_open_attrs = oa,
       li_tail_scanned = tail_scanned log, li_tail_overrides = length (ovr log),
       li_next_page = next_page log, li_reuse_tail = reuse_tail log,
       li_client_restart_version = crst_major log,
       li_attr_names_bytes = (case attr_names log of None \<Rightarrow> 0 | Some b \<Rightarrow> length b)\<rparr> }"

section \<open>Writing the log clean\<close>

text \<open>
  The page \<open>ntfs_logfile_mark_clean\<close> builds: the restart page header, the part of the restart
  area that depends on whether the log had one, the rest of the area, and the NTFS client
  record.
\<close>

definition clean_page_header :: "nat \<Rightarrow> nat \<Rightarrow> nat \<Rightarrow> buf option" where
  "clean_page_header ps usa_count ra_ofs = do {
     p \<leftarrow> lf_put32 (replicate ps 0) RP_MAGIC LFS_MAGIC_RSTR;
     p \<leftarrow> lf_put16 p RP_USA_OFS RP_HEADER_SIZE;
     p \<leftarrow> lf_put16 p RP_USA_COUNT usa_count;
     p \<leftarrow> lf_put32 p RP_SYSTEM_PAGE_SIZE ps;
     p \<leftarrow> lf_put32 p RP_LOG_PAGE_SIZE ps;
     p \<leftarrow> lf_put16 p RP_RESTART_AREA_OFFSET ra_ofs;
     p \<leftarrow> lf_put16 p RP_MINOR_VER 1;
     lf_put16 p RP_MAJOR_VER 1 }"

definition clean_area_kept :: "('a) lfs_log_scheme \<Rightarrow> nat \<Rightarrow> buf \<Rightarrow> buf option" where
  "clean_area_kept log area p = do {
     p \<leftarrow> lf_put64 p (area + RA_CURRENT_LSN) (last_lsn log);
     p \<leftarrow> lf_put32 p (area + RA_SEQ_NUMBER_BITS) (seq_num_bits log);
     p \<leftarrow> lf_put64 p (area + RA_FILE_SIZE) (l_size log);
     p \<leftarrow> lf_put16 p (area + RA_LOG_RECORD_HEADER_LENGTH) (record_header_len log);
     p \<leftarrow> lf_put16 p (area + RA_LOG_PAGE_DATA_OFFSET) (data_off log);
     lf_put32 p (area + RA_RESTART_LOG_OPEN_COUNT) (open_log_count log + 1) }"

definition clean_area_fresh :: "nat \<Rightarrow> nat \<Rightarrow> nat \<Rightarrow> nat \<Rightarrow> buf \<Rightarrow> buf option" where
  "clean_area_fresh osize ps usa_count area p = do {
     let need = u32 (ps * (LFS_MIN_RECORD_PAGES + 2));
     let v = (if osize \<ge> need then osize else need);
     p \<leftarrow> lf_put32 p (area + RA_SEQ_NUMBER_BITS) (67 - bit_count v);
     p \<leftarrow> lf_put64 p (area + RA_FILE_SIZE) v;
     p \<leftarrow> lf_put16 p (area + RA_LOG_RECORD_HEADER_LENGTH) LR_HEADER_SIZE;
     lf_put16 p (area + RA_LOG_PAGE_DATA_OFFSET) (LF_ALIGN8 (u32 (PG_USA + usa_count * 2))) }"

definition clean_area_common :: "nat \<Rightarrow> buf \<Rightarrow> buf option" where
  "clean_area_common area p = do {
     p \<leftarrow> lf_put16 p (area + RA_LOG_CLIENTS) 1;
     p \<leftarrow> lf_put16 p (area + RA_CLIENT_FREE_LIST) 0;
     p \<leftarrow> lf_put16 p (area + RA_CLIENT_IN_USE_LIST) LFS_NO_CLIENT;
     p \<leftarrow> lf_put16 p (area + RA_FLAGS) RESTART_VOLUME_IS_CLEAN;
     p \<leftarrow> lf_put16 p (area + RA_RESTART_AREA_LENGTH) (RA_SIZE_XP + CR_SIZE);
     p \<leftarrow> lf_put16 p (area + RA_CLIENT_ARRAY_OFFSET) RA_SIZE_XP;
     lf_put32 p (area + RA_LAST_LSN_DATA_LENGTH) 0 }"

definition clean_client :: "nat \<Rightarrow> buf \<Rightarrow> buf option" where
  "clean_client cr p = do {
     p \<leftarrow> lf_put64 p (cr + CR_OLDEST_LSN) 0;
     p \<leftarrow> lf_put64 p (cr + CR_CLIENT_RESTART_LSN) 0;
     p \<leftarrow> lf_put16 p (cr + CR_PREV_CLIENT) LFS_NO_CLIENT;
     p \<leftarrow> lf_put16 p (cr + CR_NEXT_CLIENT) LFS_NO_CLIENT;
     p \<leftarrow> lf_put16 p (cr + CR_SEQ_NUMBER) 1;
     p \<leftarrow> lf_put32 p (cr + CR_CLIENT_NAME_LENGTH) 8;
     p \<leftarrow> lf_put16 p (cr + CR_CLIENT_NAME) 0x4e;
     p \<leftarrow> lf_put16 p (cr + CR_CLIENT_NAME + 2) 0x54;
     p \<leftarrow> lf_put16 p (cr + CR_CLIENT_NAME + 4) 0x46;
     lf_put16 p (cr + CR_CLIENT_NAME + 6) 0x53 }"

definition clean_page :: "('a) lfs_log_scheme \<Rightarrow> nat \<Rightarrow> buf option" where
  "clean_page log ps = do {
     let usa_count = ps div 2 ^ LFS_SECTOR_SHIFT + 1;
     let area = LF_ALIGN8 (u32 (RP_HEADER_SIZE + usa_count * 2));
     p \<leftarrow> clean_page_header ps usa_count area;
     p \<leftarrow> (case ra log of Some _ \<Rightarrow> clean_area_kept log area p
          | None \<Rightarrow> clean_area_fresh (orig_size log) ps usa_count area p);
     p \<leftarrow> clean_area_common area p;
     clean_client (area + RA_SIZE_XP) p }"

text \<open>
  The writes.  The device is a state of any type; the write callback takes an offset and the
  bytes and gives an error code and the new device.
\<close>

fun write_overrides :: "('a) lfs_log_scheme \<Rightarrow> (nat \<Rightarrow> buf \<Rightarrow> 'd \<Rightarrow> int \<times> 'd) \<Rightarrow> (nat \<times> buf) list \<Rightarrow>
    'd \<Rightarrow> (int \<times> 'd) option" where
  "write_overrides log wr [] d = Some (0, d)"
| "write_overrides log wr ((vbo, page) # os) d = do {
     c \<leftarrow> slice page 0 (page_size log);
     c \<leftarrow> lf_put16 c PG_PAGE_COUNT 1;
     c \<leftarrow> lf_put16 c PG_PAGE_POSITION 1;
     c \<leftarrow> (if major_ver log < 2 then do {
             e \<leftarrow> lf_get64 c PG_LAST_END_LSN;
             lf_put64 c PG_LAST_LSN e }
           else lf_put32 c PG_FILE_OFFSET 0);
     (_, c) \<leftarrow> lfs_fixup_pre_write c (page_size log) LFS_SECTOR_SIZE;
     let (err, d) = wr vbo c d;
     if err \<noteq> 0 then Some (err, d) else write_overrides log wr os d }"

fun write_restart_pages :: "('a) lfs_log_scheme \<Rightarrow> (nat \<Rightarrow> buf \<Rightarrow> 'd \<Rightarrow> int \<times> 'd) \<Rightarrow> nat \<Rightarrow> buf \<Rightarrow>
    nat list \<Rightarrow> 'd \<Rightarrow> (int \<times> 'd) option" where
  "write_restart_pages log wr ps page [] d = Some (0, d)"
| "write_restart_pages log wr ps page (i # is) d = do {
     c \<leftarrow> lf_put16 page RP_HEADER_SIZE (u16 (0x1000 + i + (open_log_count log AND 0xff)));
     (_, c) \<leftarrow> lfs_fixup_pre_write c ps LFS_SECTOR_SIZE;
     let (err, d) = wr (i * ps) c d;
     if err \<noteq> 0 then Some (err, d) else write_restart_pages log wr ps page is d }"

definition ntfs_logfile_mark_clean ::
    "'a lfs_log_scheme \<Rightarrow> (nat \<Rightarrow> buf \<Rightarrow> 'd \<Rightarrow> int \<times> 'd) option \<Rightarrow> 'd \<Rightarrow> (int \<times> 'a lfs_log_scheme \<times> 'd) option" where
  "ntfs_logfile_mark_clean log wr d = (case wr of None \<Rightarrow> Some (- ENOTSUP, log, d) | Some wr \<Rightarrow>
     if state log = NTFS_LOG_UNSUPPORTED then Some (- EINVAL, log, d)
     else do {
       let ps = (if page_size log \<noteq> 0 then page_size log else LFS_DEFAULT_PAGE_SIZE);
       page \<leftarrow> clean_page log ps;
       (err, d) \<leftarrow> write_overrides log wr (ovr log) d;
       if err \<noteq> 0 then Some (err, log, d)
       else do {
         (err, d) \<leftarrow> write_restart_pages log wr ps page [0, 1] d;
         if err \<noteq> 0 then Some (err, log, d)
         else Some (0, log\<lparr>state := NTFS_LOG_CLEAN\<rparr>, d) } })"

section \<open>The helpers compute what their names say\<close>

lemma bit_count_le: "bit_count v \<le> n \<longleftrightarrow> v < 2 ^ n"
proof (induction v arbitrary: n rule: bit_count.induct)
  case (1 v)
  show ?case
  proof (cases "v = 0")
    case True
    then show ?thesis by (simp add: bit_count.simps)
  next
    case False
    show ?thesis
    proof (cases n)
      case 0
      with False show ?thesis by (subst bit_count.simps) simp
    next
      case (Suc m)
      have "bit_count v \<le> n \<longleftrightarrow> bit_count (v div 2) \<le> m" using False Suc by (subst bit_count.simps) simp
      also have "\<dots> \<longleftrightarrow> v div 2 < 2 ^ m" using "1.IH" False by simp
      also have "\<dots> \<longleftrightarrow> v < 2 ^ n" unfolding Suc by (simp add: div_less_iff_less_mult mult.commute)
      finally show ?thesis .
    qed
  qed
qed

lemma bit_count_bounds: "v < 2 ^ bit_count v" "0 < v \<Longrightarrow> 2 ^ (bit_count v - 1) \<le> v"
proof -
  show "v < 2 ^ bit_count v" using bit_count_le [of v "bit_count v"] by simp
  assume "0 < v"
  then have "bit_count v \<noteq> 0" by (simp add: bit_count.simps)
  then have "\<not> bit_count v \<le> bit_count v - 1" by simp
  then show "2 ^ (bit_count v - 1) \<le> v" using bit_count_le by (meson not_less)
qed

lemma is_pow2_iff: "is_pow2 v \<longleftrightarrow> (\<exists>k. v = 2 ^ k)"
proof
  assume p: "is_pow2 v"
  then have v: "0 < v" "v AND (v - 1) = 0" by (simp_all add: is_pow2_def)
  define k where "k = bit_count v - 1"
  have k: "2 ^ k \<le> v" "v < 2 ^ Suc k"
    using bit_count_bounds [of v] v(1) by (auto simp: k_def bit_count.simps [of v])
  have "v = 2 ^ k"
  proof (rule ccontr)
    assume "v \<noteq> 2 ^ k"
    with k have "2 ^ k \<le> v - 1" "v - 1 < 2 ^ Suc k" by auto
    moreover have "bit x k" if "2 ^ k \<le> x" "x < 2 ^ Suc k" for x :: nat
    proof -
      have "x div 2 ^ k = 1" using that by (intro div_nat_eqI) auto
      then show ?thesis by (simp add: bit_iff_odd)
    qed
    ultimately have "bit (v AND (v - 1)) k" using k by (simp add: bit_simps)
    with v(2) show False by simp
  qed
  then show "\<exists>k. v = 2 ^ k" by blast
next
  assume "\<exists>k. v = 2 ^ k"
  then obtain k where "v = 2 ^ k" by blast
  then show "is_pow2 v" using nat_and_mask_low [of v k] by (simp add: is_pow2_def)
qed

lemma ilog2_pow2: "ilog2_u32 (2 ^ k) = k"
  by (induction k) (simp_all add: ilog2_u32.simps)

section \<open>What an accepted restart page establishes\<close>

lemma check_rp_header_ok:
  assumes "check_rp_header rp pos = Some (0, u)"
  obtains sys_ps log_ps where "get_le 4 rp RP_SYSTEM_PAGE_SIZE = Some sys_ps" "get_le 4 rp RP_LOG_PAGE_SIZE = Some log_ps"
    "512 \<le> sys_ps" "512 \<le> log_ps" "is_pow2 sys_ps" "is_pow2 log_ps"
proof -
  obtain sys_ps log_ps where g: "get_le 4 rp RP_SYSTEM_PAGE_SIZE = Some sys_ps" "get_le 4 rp RP_LOG_PAGE_SIZE = Some log_ps"
    using assms by (auto simp: check_rp_header_def lf_defs bind_eq_Some_conv)
  moreover have "\<not> (sys_ps < 512 \<or> log_ps < 512 \<or> \<not> is_pow2 sys_ps \<or> \<not> is_pow2 log_ps)"
  proof
    assume "sys_ps < 512 \<or> log_ps < 512 \<or> \<not> is_pow2 sys_ps \<or> \<not> is_pow2 log_ps"
    with assms g show False by (simp add: check_rp_header_def lf_defs bind_eq_Some_conv)
  qed
  ultimately show ?thesis using that by auto
qed

lemma check_ra_ok:
  assumes "check_ra rp = Some 0" "get_le 2 rp RP_RESTART_AREA_OFFSET = Some ro"
  obtains fs bits where "get_le 8 rp (ro + RA_FILE_SIZE) = Some fs" "get_le 4 rp (ro + RA_SEQ_NUMBER_BITS) = Some bits"
    "bits = 67 - bit_count fs"
    "\<exists>rhl. get_le 2 rp (ro + RA_LOG_RECORD_HEADER_LENGTH) = Some rhl \<and> rhl AND 7 = 0"
    "\<exists>dof. get_le 2 rp (ro + RA_LOG_PAGE_DATA_OFFSET) = Some dof \<and> dof AND 7 = 0"
proof -
  from assms obtain fs bits rhl dof where "get_le 8 rp (ro + RA_FILE_SIZE) = Some fs" "get_le 4 rp (ro + RA_SEQ_NUMBER_BITS) = Some bits"
    "bits = 67 - bit_count fs" "get_le 2 rp (ro + RA_LOG_RECORD_HEADER_LENGTH) = Some rhl" "rhl AND 7 = 0"
    "get_le 2 rp (ro + RA_LOG_PAGE_DATA_OFFSET) = Some dof" "dof AND 7 = 0"
    by (auto simp: check_ra_def lf_defs bind_eq_Some_conv Let_def split: if_splits)
  then show ?thesis using that by blast
qed

text \<open>The further facts about the geometry that a rewritten restart page depends on.\<close>

definition geom_bits :: "('a) lfs_geom_scheme \<Rightarrow> bool" where
  "geom_bits log \<longleftrightarrow> seq_num_bits log = 67 - bit_count (l_size log) \<and>
     record_header_len log AND 7 = 0 \<and> data_off log AND 7 = 0"

lemma bit_count_floor:
  assumes "2 ^ p \<le> v"
  shows "bit_count (v - v mod 2 ^ p) = bit_count v"
proof -
  have v: "0 < v" using assms by (metis gr0I le_zero_eq power_not_zero zero_neq_numeral)
  let ?k = "bit_count v - 1"
  have b: "2 ^ ?k \<le> v" "v < 2 ^ Suc ?k" using bit_count_bounds [of v] v by (auto simp: bit_count.simps [of v])
  have "(2::nat) ^ p < 2 ^ Suc ?k" using assms b(2) by linarith
  then have "p \<le> ?k" by (metis less_Suc_eq_le power_less_imp_less_exp one_less_numeral_iff semiring_norm(76))
  then have "(2::nat) ^ p dvd 2 ^ ?k" by (rule le_imp_power_dvd)
  then obtain m where m: "(2::nat) ^ ?k = 2 ^ p * m" by blast
  have "2 ^ p * m \<le> 2 ^ p * (v div 2 ^ p)"
    using b(1) m by (metis div_le_mono mult_le_mono2 nonzero_mult_div_cancel_left power_not_zero zero_neq_numeral)
  also have "\<dots> = v - v mod 2 ^ p" by (simp add: minus_mod_eq_mult_div)
  finally have lo: "2 ^ ?k \<le> v - v mod 2 ^ p" using m by simp
  have "bit_count (v - v mod 2 ^ p) \<le> Suc ?k" using b(2) by (simp add: bit_count_le)
  moreover have "\<not> bit_count (v - v mod 2 ^ p) \<le> ?k" using lo by (simp add: bit_count_le)
  moreover have "bit_count v = Suc ?k" using v by (simp add: bit_count.simps [of v])
  ultimately show ?thesis by linarith
qed

lemma geometry_base_ok:
  assumes "geometry_base log rp ro = Some (0, log')" "get_le 4 rp RP_LOG_PAGE_SIZE = Some ps" "512 \<le> ps" "is_pow2 ps"
    "get_le 8 rp (ro + RA_FILE_SIZE) = Some fs" "get_le 4 rp (ro + RA_SEQ_NUMBER_BITS) = Some (67 - bit_count fs)"
    "orig_size log < 4294967296" "get_le 2 rp (ro + RA_LOG_RECORD_HEADER_LENGTH) = Some rhl" "rhl AND 7 = 0"
    "get_le 2 rp (ro + RA_LOG_PAGE_DATA_OFFSET) = Some dof" "dof AND 7 = 0"
  shows "geom_ok log' \<and> geom_bits log' \<and> orig_size log' = orig_size log"
proof -
  note e = assms(1) [unfolded geometry_base_def lf_defs]
  obtain major where g1: "get_le 2 rp RP_MAJOR_VER = Some major" using e by (cases "get_le 2 rp RP_MAJOR_VER") simp_all
  obtain minor where g2: "get_le 2 rp RP_MINOR_VER = Some minor" using e g1 by (cases "get_le 2 rp RP_MINOR_VER") simp_all
  obtain sys where g3: "get_le 4 rp RP_SYSTEM_PAGE_SIZE = Some sys" using e g1 g2 by (cases "get_le 4 rp RP_SYSTEM_PAGE_SIZE") simp_all
  note e = e [simplified g1 g2 g3 assms(2,5,6) Option.bind.simps Let_def]
  have c1: "sys = ps" by (rule ccontr) (use e in simp)
  have c2: "ps \<le> 65536" by (rule ccontr) (use e c1 in simp)
  have c3: "fs \<le> orig_size log" by (rule ccontr) (use e c1 c2 in simp)
  note e = e [unfolded c1]
  have s1: "sub32 ps 1 = ps - 1" "u32 (50 * ps) = 50 * ps" using assms(3) c2 by simp_all
  have c4: "\<not> and_not32 (u32 fs) (ps - 1) < 50 * ps" by (rule ccontr) (use e c2 c3 assms(3) in simp)
  note g4 = assms(8) and g5 = assms(10)
  obtain opens where g6: "get_le 4 rp (ro + RA_RESTART_LOG_OPEN_COUNT) = Some opens"
    using e assms(3) c2 c3 c4 g4 g5 by (cases "get_le 4 rp (ro + RA_RESTART_LOG_OPEN_COUNT)") simp_all
  have c5: "\<not> (rhl < 48 \<or> rhl \<ge> ps \<or> dof < 40 \<or> dof \<ge> ps)" by (rule ccontr) (use e assms(3) c2 c3 c4 g4 g5 g6 in simp)
  have l: "log' = log\<lparr>major_ver := major, minor_ver := minor, sys_page_size := ps, page_size := ps, page_bits := ilog2_u32 ps,
       page_mask := ps - 1, l_size := and_not32 (u32 fs) (ps - 1), seq_num_bits := 67 - bit_count fs,
       file_data_bits := sub32 64 (67 - bit_count fs), record_header_len := rhl, data_off := dof, open_log_count := opens,
       first_page := (if major \<ge> 2 then 34 else 4) * ps,
       clst_per_page := (if ps div cluster_size log = 0 then 1 else ps div cluster_size log)\<rparr>"
    using e assms(3) c2 c3 c4 c5 g4 g5 g6 by (simp cong: if_cong)
  obtain p where p: "ps = 2 ^ p" using assms(4) is_pow2_iff by blast
  have pb: "9 \<le> p" "p \<le> 16"
  proof -
    have "(2::nat) ^ 9 \<le> 2 ^ p" "(2::nat) ^ p \<le> 2 ^ 16" using p assms(3) c2 by simp_all
    then show "9 \<le> p" "p \<le> 16" by (simp_all only: power_increasing_iff one_less_numeral_iff semiring_norm)
  qed
  have fs: "fs < 4294967296" using c3 assms(7) by linarith
  have sz: "and_not32 (u32 fs) (ps - 1) = fs - fs mod ps"
    using and_not32_pow2 [of p fs] fs pb(2) assms(3) c2 p by simp
  have n: "50 * ps \<le> fs - fs mod ps" using c2 c4 sz by simp
  then have psfs: "2 ^ p \<le> fs" using p by linarith
  have b: "bit_count fs \<le> 32" using fs by (simp add: bit_count_le)
  moreover have "\<not> bit_count fs \<le> 9" using n assms(3) by (simp add: bit_count_le not_less)
  ultimately have bits: "67 - bit_count fs + (bit_count fs - 3) = 64" "sub32 64 (67 - bit_count fs) = bit_count fs - 3"
    "bit_count fs - 3 + 3 = bit_count fs" by auto
  have "fs - fs mod ps < 2 ^ bit_count fs" using bit_count_bounds(1) [of fs] by (meson diff_le_self le_less_trans)
  moreover have "(fs - fs mod ps) mod ps = 0" by (simp add: minus_mod_eq_mult_div)
  ultimately show ?thesis
    using c2 c3 c5 p pb n b bits sz assms(3,7,9,11) bit_count_floor [OF psfs]
    by (auto simp: l geom_ok_def geom_bits_def ilog2_pow2)
qed

text \<open>The client and the next page do not touch the geometry.\<close>

lemma geom_truncate:
  "geom_ok (lfs_geom.truncate log) = geom_ok log" "geom_bits (lfs_geom.truncate log) = geom_bits log"
  by (simp_all add: geom_ok_def geom_bits_def lfs_geom.truncate_def)

lemma geometry_client_keeps:
  assumes "geometry_client log rp ro = Some log'"
  shows "lfs_geom.truncate log' = lfs_geom.truncate log"
  using assms by (auto simp: geometry_client_def bind_eq_Some_conv Let_def lfs_geom.truncate_def split: option.splits)

lemma geometry_next_page_form:
  assumes "geometry_next_page log len = Some log'"
  obtains sq w rt nl n where "log' = log\<lparr>seq_num := sq, next_page := n, wrapped := w, reuse_tail := rt, no_last_lsn := nl\<rparr>"
proof (cases "lfs_lsn_to_vbo log (current_lsn log) < first_page log")
  case True
  with assms have "log' = log\<lparr>seq_num := seq_num log, next_page := first_page log, wrapped := wrapped log, reuse_tail := reuse_tail log,
    no_last_lsn := True\<rparr>" by (auto simp: geometry_next_page_def)
  then show ?thesis by (rule that)
next
  case False
  let ?v = "lfs_lsn_to_vbo log (current_lsn log)"
  from assms False obtain e where e: "lfs_final_log_off log (current_lsn log) len = Some e"
    by (cases "lfs_final_log_off log (current_lsn log) len") (simp_all add: geometry_next_page_def Let_def)
  obtain l1 where l1: "l1 = (if e \<le> ?v then log\<lparr>seq_num := u64 (seq_num log + 1), wrapped := True\<rparr> else log)" by blast
  from assms False e l1 have "\<exists>b n. log' = l1\<lparr>reuse_tail := b, next_page := n\<rparr> \<or> log' = l1\<lparr>next_page := n\<rparr>"
    unfolding geometry_next_page_def Let_def by (simp split: if_splits) metis+
  then obtain b n where "log' = l1\<lparr>reuse_tail := b, next_page := n\<rparr> \<or> log' = l1\<lparr>next_page := n\<rparr>" by blast
  then have "log' = log\<lparr>seq_num := seq_num l1, next_page := next_page log', wrapped := wrapped l1, reuse_tail := reuse_tail log',
    no_last_lsn := no_last_lsn log\<rparr>" unfolding l1 by auto
  then show ?thesis by (rule that)
qed

lemma geometry_next_page_keeps:
  assumes "geometry_next_page log len = Some log'"
  shows "lfs_geom.truncate log' = lfs_geom.truncate log" "ra log' = ra log" "rst log' = rst log"
  by (rule geometry_next_page_form [OF assms]; simp add: lfs_geom.truncate_def)+

lemma setup_geometry_parts:
  assumes "setup_geometry log rp = Some (0, log')"
  obtains ro log1 cur flags len area log2 log3 ll where "get_le 2 rp RP_RESTART_AREA_OFFSET = Some ro" "geometry_base log rp ro = Some (0, log1)"
    "geometry_client (log1\<lparr>current_lsn := cur, last_lsn := cur, seq_num := lfs_lsn_seq log1 cur,
       single_page_io := (flags AND RESTART_SINGLE_PAGE_IO \<noteq> 0), ra := Some area\<rparr>) rp ro = Some log2"
    "geometry_next_page log2 ll = Some log'"
  using assms by (auto simp: setup_geometry_def bind_eq_Some_conv lf_defs Let_def split: if_splits)

text \<open>
  C20.  A log that opens has a well-formed geometry: whenever both checks of a restart page accept
  it and \<open>setup_geometry\<close> succeeds, page size, page mask, file size, LSN bit widths, record header
  length and data offset satisfy everything the LSN arithmetic and the record reader rely on.
\<close>

theorem setup_geometry_wf:
  assumes "check_rp_header rp pos = Some (0, u)" "check_ra rp = Some 0" "setup_geometry log rp = Some (0, log')"
    "orig_size log < 4294967296"
  shows "geom_ok log' \<and> geom_bits log'"
proof -
  obtain ro log1 cur flags len area log2 log3 ll where s: "get_le 2 rp RP_RESTART_AREA_OFFSET = Some ro" "geometry_base log rp ro = Some (0, log1)"
    "geometry_client (log1\<lparr>current_lsn := cur, last_lsn := cur, seq_num := lfs_lsn_seq log1 cur,
       single_page_io := (flags AND RESTART_SINGLE_PAGE_IO \<noteq> 0), ra := Some area\<rparr>) rp ro = Some log2"
    "geometry_next_page log2 ll = Some log'" by (rule setup_geometry_parts [OF assms(3)])
  obtain ps where p: "get_le 4 rp RP_LOG_PAGE_SIZE = Some ps" "512 \<le> ps" "is_pow2 ps" by (rule check_rp_header_ok [OF assms(1)])
  obtain fs bits where f: "get_le 8 rp (ro + RA_FILE_SIZE) = Some fs" "get_le 4 rp (ro + RA_SEQ_NUMBER_BITS) = Some bits"
    "bits = 67 - bit_count fs" and r: "\<exists>rhl. get_le 2 rp (ro + RA_LOG_RECORD_HEADER_LENGTH) = Some rhl \<and> rhl AND 7 = 0"
    "\<exists>dof. get_le 2 rp (ro + RA_LOG_PAGE_DATA_OFFSET) = Some dof \<and> dof AND 7 = 0" by (rule check_ra_ok [OF assms(2) s(1)])
  have "geom_ok log1 \<and> geom_bits log1"
    using geometry_base_ok [OF s(2) p f(1) _ assms(4)] f(2,3) r by blast
  moreover have "lfs_geom.truncate log' = lfs_geom.truncate log1"
    using geometry_client_keeps [OF s(3)] geometry_next_page_keeps(1) [OF s(4)] by (simp add: lfs_geom.truncate_def)
  ultimately show ?thesis by (metis geom_truncate)
qed

end
