(* ===== verification/Lfs_Clean.thy ===== *)
theory Lfs_Clean
  imports Lfs_Open
begin

text \<open>
  Writing a log clean and opening it again: the restart pages \<open>ntfs_logfile_mark_clean\<close> writes
  are accepted by \<open>ntfs_logfile_open\<close>, which classifies the log as clean.  The device of this
  theory is a byte string with reads and writes at an offset.
\<close>

section \<open>Sequences of field stores\<close>

text \<open>A list of stores \<open>(width, offset, value)\<close>, performed in order.\<close>

fun put_all :: "(nat \<times> nat \<times> nat) list \<Rightarrow> buf \<Rightarrow> buf option" where
  "put_all [] b = Some b"
| "put_all ((k, p, v) # xs) b = Option.bind (put_le k b p v) (put_all xs)"

definition apart :: "nat \<Rightarrow> nat \<Rightarrow> nat \<times> nat \<times> nat \<Rightarrow> bool" where
  "apart k p x = (case x of (k', p', _) \<Rightarrow> p + k \<le> p' \<or> p' + k' \<le> p)"

lemma put_all_append: "put_all (xs @ ys) b = Option.bind (put_all xs b) (put_all ys)"
  by (induction xs b rule: put_all.induct) (auto split: bind_splits)

lemma put_all_fun:
  "put_all [] = Some" "put_all ((k, p, v) # xs) = (\<lambda>b. Option.bind (put_le k b p v) (put_all xs))"
  "put_all (xs @ ys) = (\<lambda>b. Option.bind (put_all xs b) (put_all ys))"
  by (rule ext, simp add: put_all_append)+

lemma put_all_ok: "\<forall>x\<in>set xs. fst (snd x) + fst x \<le> length b \<Longrightarrow> \<exists>b'. put_all xs b = Some b' \<and> length b' = length b"
proof (induction xs b rule: put_all.induct)
  case (2 k p v xs b)
  then obtain b1 where b1: "put_le k b p v = Some b1" using put_le_ok [of p k b v] by auto
  with 2 length_put_le [OF b1] show ?case by auto
qed simp

lemma put_all_other: "put_all xs b = Some b' \<Longrightarrow> \<forall>x\<in>set xs. apart k p x \<Longrightarrow> get_le k b' p = get_le k b p"
proof (induction xs b rule: put_all.induct)
  case (2 k1 p1 v xs b)
  then obtain b1 where b1: "put_le k1 b p1 v = Some b1" "put_all xs b1 = Some b'" by (auto simp: bind_eq_Some_conv)
  have "get_le k b1 p = get_le k b p" using 2(3) by (intro get_put_le_other [OF b1(1)]) (auto simp: apart_def)
  with 2(1) [OF b1] 2(3) show ?case by simp
qed simp

lemma put_all_get:
  "put_all (xs @ (k, p, v) # ys) b = Some b' \<Longrightarrow> \<forall>x\<in>set ys. apart k p x \<Longrightarrow> get_le k b' p = Some (v mod 256 ^ k)"
  by (auto simp: put_all_append bind_eq_Some_conv put_all_other get_put_le_same)

section \<open>The page that is written\<close>

definition header_stores :: "nat \<Rightarrow> nat \<Rightarrow> nat \<Rightarrow> (nat \<times> nat \<times> nat) list" where
  "header_stores ps n area = [(4, 0, LFS_MAGIC_RSTR), (2, 4, 30), (2, 6, n), (4, 16, ps), (4, 20, ps), (2, 24, area), (2, 26, 1), (2, 28, 1)]"

definition kept_stores :: "nat \<Rightarrow> nat \<Rightarrow> nat \<Rightarrow> nat \<Rightarrow> nat \<Rightarrow> nat \<Rightarrow> nat \<Rightarrow> (nat \<times> nat \<times> nat) list" where
  "kept_stores area lsn bits sz rhl dof cnt = [(8, area, lsn), (4, area + 16, bits), (8, area + 24, sz), (2, area + 36, rhl), (2, area + 38, dof),
     (4, area + 40, cnt)]"

definition fresh_stores :: "nat \<Rightarrow> nat \<Rightarrow> nat \<Rightarrow> (nat \<times> nat \<times> nat) list" where
  "fresh_stores area sz dof = [(4, area + 16, 67 - bit_count sz), (8, area + 24, sz), (2, area + 36, 48), (2, area + 38, dof)]"

definition common_stores :: "nat \<Rightarrow> (nat \<times> nat \<times> nat) list" where
  "common_stores area = [(2, area + 8, 1), (2, area + 10, 0), (2, area + 12, 65535), (2, area + 14, 2), (2, area + 20, 224), (2, area + 22, 64),
     (4, area + 32, 0)]"

definition client_stores :: "nat \<Rightarrow> (nat \<times> nat \<times> nat) list" where
  "client_stores cr = [(8, cr, 0), (8, cr + 8, 0), (2, cr + 16, 65535), (2, cr + 18, 65535), (2, cr + 20, 1), (4, cr + 28, 8),
     (2, cr + 32, 0x4e), (2, cr + 32 + 2, 0x54), (2, cr + 32 + 4, 0x46), (2, cr + 32 + 6, 0x53)]"

lemmas stores_defs = header_stores_def kept_stores_def fresh_stores_def common_stores_def client_stores_def

lemma clean_parts:
  "clean_page_header ps n area = put_all (header_stores ps n area) (replicate ps 0)"
  "clean_area_kept log area p = put_all (kept_stores area (last_lsn log) (seq_num_bits log) (l_size log) (record_header_len log) (data_off log)
     (open_log_count log + 1)) p"
  "clean_area_common area p = put_all (common_stores area) p"
  "clean_client cr p = put_all (client_stores cr) p"
  by (simp_all add: clean_page_header_def clean_area_kept_def clean_area_common_def clean_client_def lf_defs stores_defs put_all_fun del: put_all.simps)

lemma clean_fresh_stores:
  "clean_area_fresh osize ps n area p = put_all (fresh_stores area (max osize (u32 (ps * 50))) (LF_ALIGN8 (u32 (40 + n * 2)))) p"
  by (simp add: clean_area_fresh_def lf_defs stores_defs max_def Let_def put_all_fun del: put_all.simps)

text \<open>All the stores of the clean page, with what the two cases have in common named.\<close>

definition page_stores :: "'a lfs_log_scheme \<Rightarrow> nat \<Rightarrow> nat \<Rightarrow> nat \<Rightarrow> (nat \<times> nat \<times> nat) list" where
  "page_stores log ps n area = header_stores ps n area @
     (case ra log of Some _ \<Rightarrow> kept_stores area (last_lsn log) (seq_num_bits log) (l_size log) (record_header_len log) (data_off log)
        (open_log_count log + 1)
      | None \<Rightarrow> fresh_stores area (max (orig_size log) (u32 (ps * 50))) (LF_ALIGN8 (u32 (40 + n * 2)))) @
     common_stores area @ client_stores (area + 64)"

lemma clean_page_stores:
  "clean_page log ps = put_all (page_stores log ps (ps div 512 + 1) (LF_ALIGN8 (u32 (30 + (ps div 512 + 1) * 2)))) (replicate ps 0)"
  by (cases "ra log") (simp_all add: clean_page_def clean_parts clean_fresh_stores page_stores_def put_all_fun Let_def del: put_all.simps)

text \<open>The value a list of stores leaves at a field.\<close>

fun last_store :: "nat \<Rightarrow> nat \<Rightarrow> (nat \<times> nat \<times> nat) list \<Rightarrow> nat option" where
  "last_store k p [] = None"
| "last_store k p ((k', p', v) # xs) = (case last_store k p xs of Some w \<Rightarrow> Some w
     | None \<Rightarrow> if k' = k \<and> p' = p then Some v else None)"

lemma put_all_field:
  assumes "put_all xs b = Some b'" "\<forall>x\<in>set xs. apart k p x \<or> (fst x = k \<and> fst (snd x) = p)"
  shows "get_le k b' p = (case last_store k p xs of Some v \<Rightarrow> Some (v mod 256 ^ k) | None \<Rightarrow> get_le k b p)"
  using assms
proof (induction xs b rule: put_all.induct)
  case (2 k1 p1 v xs b)
  then obtain b1 where b1: "put_le k1 b p1 v = Some b1" "put_all xs b1 = Some b'" by (auto simp: bind_eq_Some_conv)
  have "get_le k b1 p = (if k1 = k \<and> p1 = p then Some (v mod 256 ^ k) else get_le k b p)"
    using 2(3) get_put_le_same [OF b1(1)] get_put_le_other [OF b1(1), of p k] by (auto simp: apart_def)
  with 2(1) [OF b1] 2(3) show ?case by (auto split: option.splits)
qed simp

definition clean_fields :: "nat \<Rightarrow> nat \<Rightarrow> nat \<Rightarrow> nat \<Rightarrow> nat \<Rightarrow> nat \<Rightarrow> nat \<Rightarrow> buf \<Rightarrow> bool" where
  "clean_fields ps n area lsn sz rhl dof p \<longleftrightarrow> length p = ps \<and>
     get_le 4 p 0 = Some LFS_MAGIC_RSTR \<and> get_le 2 p 4 = Some 30 \<and> get_le 2 p 6 = Some n \<and> get_le 8 p 8 = Some 0 \<and>
     get_le 4 p 16 = Some ps \<and> get_le 4 p 20 = Some ps \<and> get_le 2 p 24 = Some area \<and> get_le 2 p 26 = Some 1 \<and> get_le 2 p 28 = Some 1 \<and>
     get_le 8 p area = Some lsn \<and> get_le 2 p (area + 8) = Some 1 \<and> get_le 2 p (area + 10) = Some 0 \<and>
     get_le 2 p (area + 12) = Some 65535 \<and> get_le 2 p (area + 14) = Some 2 \<and> get_le 4 p (area + 16) = Some (67 - bit_count sz) \<and>
     get_le 2 p (area + 20) = Some 224 \<and> get_le 2 p (area + 22) = Some 64 \<and> get_le 8 p (area + 24) = Some sz \<and>
     get_le 4 p (area + 32) = Some 0 \<and> get_le 2 p (area + 36) = Some rhl \<and> get_le 2 p (area + 38) = Some dof \<and>
     (\<forall>q. 512 dvd q \<and> 512 \<le> q \<and> q + 4 \<le> ps \<longrightarrow> get_le 4 p q = Some 0)"

definition clean_lsn :: "'a lfs_log_scheme \<Rightarrow> nat" where
  "clean_lsn log = (if ra log = None then 0 else last_lsn log)"

definition clean_size :: "'a lfs_log_scheme \<Rightarrow> nat \<Rightarrow> nat" where
  "clean_size log ps = (if ra log = None then max (orig_size log) (u32 (ps * 50)) else l_size log)"

definition clean_rhl :: "'a lfs_log_scheme \<Rightarrow> nat" where
  "clean_rhl log = (if ra log = None then 48 else record_header_len log)"

definition clean_dof :: "'a lfs_log_scheme \<Rightarrow> nat \<Rightarrow> nat" where
  "clean_dof log n = (if ra log = None then LF_ALIGN8 (u32 (40 + n * 2)) else data_off log)"

lemma page_fields:
  assumes "put_all (page_stores log ps n (a + 34)) (replicate ps 0) = Some p" "n < 65536" "ps < 4294967296" "a + 34 + 224 \<le> 512" "512 \<le> ps"
    "clean_lsn log < 18446744073709551616" "clean_size log ps < 18446744073709551616" "clean_rhl log < 65536" "clean_dof log n < 65536"
    "if ra log = None then True else seq_num_bits log = 67 - bit_count (l_size log)"
  shows "clean_fields ps n (a + 34) (clean_lsn log) (clean_size log ps) (clean_rhl log) (clean_dof log n) p"
proof -
  have len: "length p = ps"
  proof -
    have "\<forall>x\<in>set (page_stores log ps n (a + 34)). fst (snd x) + fst x \<le> length (replicate ps (0::byte))"
      using assms(4,5) by (auto simp: page_stores_def stores_defs split: option.splits)
    from put_all_ok [OF this] assms(1) show ?thesis by simp
  qed
  have f: "get_le k p q = (case last_store k q (page_stores log ps n (a + 34)) of Some v \<Rightarrow> Some (v mod 256 ^ k) | None \<Rightarrow> Some 0)"
    if "\<forall>x\<in>set (page_stores log ps n (a + 34)). apart k q x \<or> (fst x = k \<and> fst (snd x) = q)" "q + k \<le> ps" for k q
    using put_all_field [OF assms(1) that(1)] get_le_replicate_0 [OF that(2)] by (simp split: option.splits)
  note c = clean_lsn_def clean_size_def clean_rhl_def clean_dof_def
  note defs = page_stores_def stores_defs apart_def
  show ?thesis
  proof (cases "ra log")
    case None
    show ?thesis unfolding clean_fields_def
    proof (intro conjI allI impI)
      fix q :: nat assume "512 dvd q \<and> 512 \<le> q \<and> q + 4 \<le> ps"
      then show "get_le 4 p q = Some 0" using assms(4) None by (simp add: f defs)
    qed (use assms(2-9) None len in \<open>simp_all add: f defs c\<close>)
  next
    case (Some x)
    show ?thesis unfolding clean_fields_def
    proof (intro conjI allI impI)
      fix q :: nat assume "512 dvd q \<and> 512 \<le> q \<and> q + 4 \<le> ps"
      then show "get_le 4 p q = Some 0" using assms(4) Some by (simp add: f defs)
    qed (use assms(2-10) Some len in \<open>simp_all add: f defs c\<close>)
  qed
qed

section \<open>The page as it is read back\<close>

lemma get_le_cong:
  assumes "length b' = length b" "\<And>i. p \<le> i \<Longrightarrow> i < p + k \<Longrightarrow> i < length b \<Longrightarrow> b' ! i = b ! i"
  shows "get_le k b' p = get_le k b p"
proof (cases "p + k \<le> length b")
  case True
  then have "take k (drop p b') = take k (drop p b)" using assms by (intro nth_equalityI) auto
  with True assms(1) show ?thesis by (simp add: get_le_def slice_def)
qed (simp add: get_le_def slice_def assms(1))

lemma get_le_take: "q + k \<le> m \<Longrightarrow> m \<le> length p \<Longrightarrow> get_le k (take m p) q = get_le k p q"
  using slice_slice [of p 0 m "take m p" q k] by (simp add: get_le_def slice_def)

lemma get_le_slice: "slice p o1 m = Some x \<Longrightarrow> q + k \<le> m \<Longrightarrow> get_le k x q = get_le k p (o1 + q)"
  by (simp add: get_le_def slice_slice)

text \<open>Protection touches the update sequence array and the last words of the sectors only.\<close>

lemma protect_agrees:
  assumes "mst_wf 512 r" "lf_get16 r 4 = Some usa" "lf_get16 r 6 = Some n"
  shows "\<exists>w r'. lfs_fixup_pre_write r (length r) 512 = Some (0, w) \<and> length w = length r \<and>
    (\<forall>k<length r. \<not> (usa \<le> k \<and> k < usa + 2 * n) \<and> k mod 512 < 510 \<longrightarrow> w ! k = r ! k) \<and>
    lfs_fixup_post_read w (length r) 512 = Some (0, r', False) \<and> length r' = length r \<and>
    (\<forall>k<length r. \<not> (usa \<le> k \<and> k < usa + 2 * n) \<longrightarrow> r' ! k = r ! k)"
proof -
  obtain v r1 r2 where h: "even usa" and fits: "usa_fits 512 usa n (length r)"
    and r1: "lf_put16 r usa (next_usn v) = Some r1" and r2: "save_sectors 512 usa (next_usn v) [1..<n] r1 = Some r2"
    and w: "lfs_fixup_pre_write r (length r) 512 = Some (0, r2)" using lfs_pre_write_parts [OF assms(1) refl] assms(2,3) by auto
  have usn: "next_usn v < 65536" using next_usn_bounds [of v] by simp
  note pc = protect_core [OF fits usn r1 r2]
  have l1: "length r1 = length r" using r1 by (simp add: lf_defs buf_simps)
  have tl: "tail_off 512 i = i * 512 - 2" "tail_off 512 i + 2 = i * 512" if "1 \<le> i" "i < n" for i
    using tail_off_bounds(1) [OF fits that] that by (simp_all add: mult.commute)
  have ag: "r2 ! k = r ! k" if k: "k < length r" "\<not> (usa \<le> k \<and> k < usa + 2 * n)" "k mod 512 < 510" for k
  proof -
    have "k \<noteq> tail_off 512 i \<and> k \<noteq> Suc (tail_off 512 i) \<and> k \<noteq> usa + i * 2 \<and> k \<noteq> Suc (usa + i * 2)" if i: "1 \<le> i" "i < n" for i
    proof -
      obtain j where j: "i = Suc j" using i by (cases i) simp_all
      then have "tail_off 512 i = 510 + 512 * j" using tl(1) [OF i] by simp
      then have "tail_off 512 i mod 512 = 510" "Suc (tail_off 512 i) mod 512 = 511" by (simp_all add: mod_Suc)
      with k(3) have "k \<noteq> tail_off 512 i" "k \<noteq> Suc (tail_off 512 i)" by auto
      with k(2) i show ?thesis by auto
    qed
    then have "r2 ! k = r1 ! k"
      using save_sectors_spec [OF fits [folded l1], of "[1..<n]" "next_usn v"] usn r2 l1 k(1) by auto
    moreover have "r1 ! k = r ! k" using k(1,2) usa_fits_bounds(3) [OF fits] by (intro put16_nth_other [OF r1]) auto
    ultimately show ?thesis by simp
  qed
  from pc(6) obtain r3 where r3: "restore_sectors 512 usa [1..<n] r2 = Some r3" "length r3 = length r"
    "\<forall>k<length r. \<not> (usa \<le> k \<and> k < usa + 2 * n) \<longrightarrow> r3 ! k = r ! k" by auto
  have "lfs_fixup_post_read r2 (length r) 512 = Some (0, r3, False)"
    using lfs_fixup_post_read_eq [of r2 usa n 512 "next_usn v"] pc h fits r3(1) assms by auto
  with w pc(1) ag r3 show ?thesis by blast
qed

lemma clean_fields_frame:
  assumes "clean_fields ps n area lsn sz rhl dof p" "length p' = ps" "30 + 2 * n \<le> area" "area \<le> 288"
    "\<And>k. k < ps \<Longrightarrow> \<not> (30 \<le> k \<and> k < 30 + 2 * n) \<Longrightarrow> k mod 512 < 510 \<Longrightarrow> p' ! k = p ! k"
  shows "clean_fields ps n area lsn sz rhl dof p'"
proof -
  have len: "length p' = length p" using assms(1,2) by (simp add: clean_fields_def)
  have low: "get_le k p' q = get_le k p q" if "q + k \<le> 30 \<or> area \<le> q \<and> q + k \<le> 510" for k q
    using that assms(3,5) len assms(2) by (intro get_le_cong [OF len]) auto
  have mg: "get_le 4 p' q = get_le 4 p q" if "512 dvd q" "512 \<le> q" for q
  proof (rule get_le_cong [OF len])
    fix i assume i: "q \<le> i" "i < q + 4" "i < length p"
    from that obtain m where m: "q = 512 * m" by blast
    obtain e where e: "i = e + 512 * m" "e < 4" using i m by (metis add.commute le_Suc_ex nat_add_left_cancel_less)
    then have "i mod 512 < 510" by simp
    with i show "p' ! i = p ! i" using assms(2-5) len that(2) by auto
  qed
  show ?thesis using assms(1,2,4) unfolding clean_fields_def by (simp add: low mg)
qed

section \<open>Acceptance\<close>

text \<open>The parameters of a clean page that the checks need.\<close>

definition clean_params :: "nat \<Rightarrow> nat \<Rightarrow> nat \<Rightarrow> nat \<Rightarrow> nat \<Rightarrow> nat \<Rightarrow> bool" where
  "clean_params ps n area sz rhl dof \<longleftrightarrow> is_pow2 ps \<and> 512 \<le> ps \<and> ps \<le> 65536 \<and> n = ps div 512 + 1 \<and>
     30 + 2 * n \<le> area \<and> area \<le> 288 \<and> 8 dvd area \<and> rhl AND 7 = 0 \<and> dof AND 7 = 0 \<and>
     48 \<le> rhl \<and> rhl < ps \<and> 40 \<le> dof \<and> dof < ps \<and> 50 * ps \<le> sz - sz mod ps"

lemma dvd8_and: "8 dvd (x :: nat) \<Longrightarrow> x AND 7 = 0"
  using nat_and_mask_low [of x 3] by (simp add: dvd_eq_mod_eq_0)

lemma head_field:
  assumes "clean_fields ps n area lsn sz rhl dof p" "512 \<le> ps" "q + k \<le> 512"
  shows "get_le k (take 512 p) q = get_le k p q"
  using assms by (intro get_le_take) (simp_all add: clean_fields_def)

lemma check_rp_header_clean:
  assumes "clean_fields ps n area lsn sz rhl dof p" "clean_params ps n area sz rhl dof" "pos = 0 \<or> pos = ps"
  shows "check_rp_header (take 512 p) pos = Some (0, True)"
proof -
  have c: "is_pow2 ps" "512 \<le> ps" "ps \<le> 65536" "n = ps div 512 + 1" "30 + 2 * n \<le> area" "area \<le> 288" "area AND 7 = 0"
    using assms(2) dvd8_and [of area] by (simp_all add: clean_params_def)
  note h = head_field [OF assms(1) c(2)]
  have u: "u16 (1 + ps div 512) = n" "ps div 512 \<le> 128" using c(3,4) by (simp_all add: div_le_mono [of ps 65536 512, simplified])
  show ?thesis using assms(1,3) c u
    by (simp add: check_rp_header_def lf_defs h clean_fields_def Let_def)
qed

lemma check_ra_clean:
  assumes "clean_fields ps n area lsn sz rhl dof p" "clean_params ps n area sz rhl dof"
  shows "check_ra (take 512 p) = Some 0"
proof -
  have c: "512 \<le> ps" "area \<le> 288" "rhl AND 7 = 0" "dof AND 7 = 0" using assms(2) by (simp_all add: clean_params_def)
  note h = head_field [OF assms(1) c(1)]
  have "(64::nat) AND 7 = 0" by simp
  with assms(1) c show ?thesis by (simp add: check_ra_def lf_defs h clean_fields_def Let_def)
qed

lemma load_clean_page:
  assumes "clean_fields ps n area lsn sz rhl dof w" "clean_fields ps n area lsn sz rhl dof p" "clean_params ps n area sz rhl dof"
    "pos = 0 \<or> pos = ps" "pos + ps \<le> orig_size log" "io_read log pos ps = (0, w)" "lfs_fixup_post_read w ps 512 = Some (0, p, False)"
  shows "load_restart_page log pos (take 512 w) =
    Some (0, Some \<lparr>rst_chkdsk = False, rst_vbo = pos, rst_lsn = lsn, rst_page = p\<rparr>)"
proof -
  have c: "512 \<le> ps" using assms(3) by (simp add: clean_params_def)
  have f: "get_le 4 (take 512 w) 16 = Some ps" "get_le 4 (take 512 w) 0 = Some LFS_MAGIC_RSTR"
    using assms(1) head_field [OF assms(1) c] by (simp_all add: clean_fields_def)
  have p: "get_le 2 p 24 = Some area" "get_le 2 p (area + 12) = Some 65535" "get_le 8 p area = Some lsn"
    using assms(2) by (simp_all add: clean_fields_def)
  show ?thesis
    using check_rp_header_clean [OF assms(1,3,4)] check_ra_clean [OF assms(1,3)] f p assms(5-7)
    by (simp add: load_restart_page_def lf_defs restart_page_fixup_def)
qed

lemma total_if: "\<exists>e. a = Some e \<Longrightarrow> \<exists>e. b = Some e \<Longrightarrow> \<exists>e. (if c then a else b) = Some e"
  by simp

lemma total_bind: "\<exists>x. m = Some x \<Longrightarrow> (\<And>x. \<exists>e. f x = Some e) \<Longrightarrow> \<exists>e. Option.bind m f = Some e"
  by auto

lemma final_walk_total: "0 < tail \<Longrightarrow> \<exists>x. final_walk log fin len tail = Some x"
  by (induction log fin len tail rule: final_walk.induct) (subst final_walk.simps, auto simp: Let_def)

lemma final_log_off_total:
  assumes "data_off log < page_size log" "page_size log < 4294967296"
  shows "\<exists>e. lfs_final_log_off log lsn len = Some e"
proof -
  have "0 < sub32 (page_size log) (data_off log)" using assms by simp
  then have w: "\<exists>x. final_walk log fin d (sub32 (page_size log) (data_off log)) = Some x" for fin d by (rule final_walk_total)
  show ?thesis unfolding lfs_final_log_off_def Let_def by (rule total_if, rule total_bind [OF w]) (auto split: prod.splits)
qed

lemma geometry_next_page_total:
  assumes "data_off log < page_size log" "page_size log < 4294967296"
  shows "\<exists>log'. geometry_next_page log len = Some log'"
proof -
  obtain e where e: "lfs_final_log_off log (current_lsn log) len = Some e" using final_log_off_total [OF assms] by blast
  show ?thesis
  proof (cases "lfs_lsn_to_vbo log (current_lsn log) < first_page log")
    case True
    show ?thesis unfolding geometry_next_page_def Let_def if_P [OF True] by (rule exI, rule refl)
  next
    case False
    show ?thesis unfolding geometry_next_page_def Let_def if_not_P [OF False] e Option.bind.simps by (rule exI, rule refl)
  qed
qed

lemma geometry_base_clean:
  assumes "clean_fields ps n area lsn sz rhl dof p" "clean_params ps n area sz rhl dof" "sz \<le> orig_size log" "orig_size log < 4294967296"
  shows "\<exists>log'. geometry_base log p area = Some (0, log') \<and> data_off log' < page_size log' \<and> page_size log' < 4294967296 \<and>
    rst log' = rst log"
proof -
  have c: "is_pow2 ps" "512 \<le> ps" "ps \<le> 65536" "48 \<le> rhl" "rhl < ps" "40 \<le> dof" "dof < ps" "50 * ps \<le> sz - sz mod ps" "area \<le> 288"
    using assms(2) by (simp_all add: clean_params_def)
  obtain k where k: "ps = 2 ^ k" using c(1) is_pow2_iff by blast
  have "(2::nat) ^ k < 2 ^ 32" using k c(3) by simp
  then have k32: "k \<le> 32" by (metis less_imp_le_nat power_less_imp_less_exp one_less_numeral_iff semiring_norm(76))
  have sz: "and_not32 (u32 sz) (ps - 1) = sz - sz mod ps" using and_not32_pow2 [OF k32, of sz] assms(3,4) k by simp
  have s: "sub32 ps 1 = ps - 1" "u32 (50 * ps) = 50 * ps" using c by simp_all
  obtain opens where o: "get_le 4 p (area + 40) = Some opens"
    using get_le_ok [of "area + 40" 4 p] assms(1) c(2,9) by (auto simp: clean_fields_def)
  show ?thesis using assms(1,3) c sz s o
    by (simp add: geometry_base_def lf_defs clean_fields_def Let_def cong: if_cong)
qed

lemma setup_geometry_clean:
  assumes "clean_fields ps n area lsn sz rhl dof p" "clean_params ps n area sz rhl dof" "sz \<le> orig_size log" "orig_size log < 4294967296"
  shows "\<exists>log' a. setup_geometry log p = Some (0, log') \<and> ra log' = Some a \<and> classify a chk = Some NTFS_LOG_CLEAN \<and> rst log' = rst log"
proof -
  have c: "512 \<le> ps" "area \<le> 288" using assms(2) by (simp_all add: clean_params_def)
  note f = assms(1) [unfolded clean_fields_def]
  obtain l1 where l1: "geometry_base log p area = Some (0, l1)" "data_off l1 < page_size l1" "page_size l1 < 4294967296" "rst l1 = rst log"
    using geometry_base_clean [OF assms] by blast
  obtain a where a: "slice p area 224 = Some a" using f c by (simp add: slice_def)
  have ul: "get_le 2 a 12 = Some 65535" "get_le 2 a 14 = Some 2" using get_le_slice [OF a, of _ 2] f by simp_all
  define l2 where "l2 = l1\<lparr>current_lsn := lsn, last_lsn := lsn, seq_num := lfs_lsn_seq l1 lsn, single_page_io := (2 AND 1 \<noteq> (0::nat)), ra := Some a\<rparr>"
  have g: "\<exists>x. geometry_client l2 p area = Some (l2\<lparr>client_idx := 65535, oldest_lsn := x\<rparr>)"
    using f by (simp add: geometry_client_def lf_defs find_client.simps min_oldest.simps) blast
  then obtain x where g: "geometry_client l2 p area = Some (l2\<lparr>client_idx := 65535, oldest_lsn := x\<rparr>)" by blast
  obtain l4 where l4: "geometry_next_page (l2\<lparr>client_idx := 65535, oldest_lsn := x\<rparr>) 0 = Some l4"
    using geometry_next_page_total [of "l2\<lparr>client_idx := 65535, oldest_lsn := x\<rparr>" 0] l1(2,3) by (auto simp: l2_def)
  have keep: "ra l4 = Some a" "rst l4 = rst log"
    using geometry_next_page_keeps [OF l4] l1(4) by (simp_all add: l2_def)
  have "setup_geometry log p = Some (0, l4)"
    using f l1(1) a g l4 by (simp add: setup_geometry_def lf_defs l2_def)
  with keep ul show ?thesis by (simp add: classify_def lf_defs)
qed

section \<open>The round trip\<close>

text \<open>A device that is a byte string: reads and writes outside it fail.\<close>

definition dev_read :: "buf \<Rightarrow> nat \<Rightarrow> nat \<Rightarrow> int \<times> buf" where
  "dev_read d off len = (case slice d off len of None \<Rightarrow> (- EIO, []) | Some x \<Rightarrow> (0, x))"

definition dev_write :: "nat \<Rightarrow> buf \<Rightarrow> buf \<Rightarrow> int \<times> buf" where
  "dev_write off x d = (case blit d off x of None \<Rightarrow> (- EIO, d) | Some d' \<Rightarrow> (0, d'))"

lemma pow2_pages:
  assumes "clean_params ps n area sz rhl dof"
  obtains m where "ps = 512 * 2 ^ m"
proof -
  from assms obtain k where k: "ps = 2 ^ k" "512 \<le> ps" using is_pow2_iff by (auto simp: clean_params_def)
  then have "(2::nat) ^ 9 \<le> 2 ^ k" by simp
  then have "9 \<le> k" by (simp only: power_increasing_iff one_less_numeral_iff semiring_norm)
  then have "(2::nat) ^ k = 2 ^ 9 * 2 ^ (k - 9)" by (metis le_add_diff_inverse power_add)
  then have "ps = 512 * 2 ^ (k - 9)" using k(1) by simp
  then show ?thesis by (rule that)
qed

lemma protect_clean:
  assumes "clean_fields ps n area lsn sz rhl dof page" "clean_params ps n area sz rhl dof"
  shows "\<exists>c w p. lf_put16 page 30 usn = Some c \<and> lfs_fixup_pre_write c ps 512 = Some (0, w) \<and> clean_fields ps n area lsn sz rhl dof w \<and>
    lfs_fixup_post_read w ps 512 = Some (0, p, False) \<and> clean_fields ps n area lsn sz rhl dof p"
proof -
  have c: "512 \<le> ps" "ps \<le> 65536" "n = ps div 512 + 1" "30 + 2 * n \<le> area" "area \<le> 288" using assms(2) by (simp_all add: clean_params_def)
  obtain m where m: "ps = 512 * 2 ^ m" by (rule pow2_pages [OF assms(2)])
  have len: "length page = ps" using assms(1) by (simp add: clean_fields_def)
  then obtain x where x: "lf_put16 page 30 usn = Some x" using put_le_ok [of 30 2 page] c(1) by (auto simp: lf_defs)
  have lx: "length x = ps" using length_put_le [OF x [unfolded lf_defs]] len by simp
  have n2: "2 \<le> n" "(n - 1) * 512 = ps" using c(1,3) m by simp_all
  have ag: "x ! k = page ! k" if "k < ps" "\<not> (30 \<le> k \<and> k < 30 + 2 * n)" for k
    using that n2(1) len by (intro put16_nth_other [OF x]) auto
  have fx: "clean_fields ps n area lsn sz rhl dof x" using ag by (intro clean_fields_frame [OF assms(1) lx c(4,5)]) auto
  then have h: "lf_get16 x 4 = Some 30" "lf_get16 x 6 = Some n" by (simp_all add: clean_fields_def lf_defs)
  have "usa_fits 512 30 n (length x)" using c n2 lx by (simp add: usa_fits_def)
  then have "mst_wf 512 x" using h by (auto simp: mst_wf_def)
  from protect_agrees [OF this h] lx obtain w p where w: "lfs_fixup_pre_write x ps 512 = Some (0, w)" "length w = ps"
    "\<forall>k<ps. \<not> (30 \<le> k \<and> k < 30 + 2 * n) \<and> k mod 512 < 510 \<longrightarrow> w ! k = x ! k" "lfs_fixup_post_read w ps 512 = Some (0, p, False)"
    "length p = ps" "\<forall>k<ps. \<not> (30 \<le> k \<and> k < 30 + 2 * n) \<longrightarrow> p ! k = x ! k" by auto
  have "clean_fields ps n area lsn sz rhl dof w" by (rule clean_fields_frame [OF fx w(2) c(4,5)]) (use w(3) in blast)
  moreover have "clean_fields ps n area lsn sz rhl dof p" by (rule clean_fields_frame [OF fx w(5) c(4,5)]) (use w(6) in blast)
  ultimately show ?thesis using x w(1,4) by blast
qed

definition written :: "nat \<Rightarrow> nat \<Rightarrow> nat \<Rightarrow> nat \<Rightarrow> nat \<Rightarrow> nat \<Rightarrow> nat \<Rightarrow> buf \<Rightarrow> nat \<Rightarrow> bool" where
  "written ps n area lsn sz rhl dof d pos \<longleftrightarrow> (\<exists>w p. slice d pos ps = Some w \<and> clean_fields ps n area lsn sz rhl dof w \<and>
     lfs_fixup_post_read w ps 512 = Some (0, p, False) \<and> clean_fields ps n area lsn sz rhl dof p)"

lemma write_pages_written:
  assumes "clean_fields ps n area lsn sz rhl dof page" "clean_params ps n area sz rhl dof"
    "write_restart_pages log dev_write ps page [0, 1] d = Some (0, d')"
  shows "written ps n area lsn sz rhl dof d' 0" "written ps n area lsn sz rhl dof d' ps" "length d' = length d"
proof -
  note pr = protect_clean [OF assms(1,2)]
  from pr [of "u16 (0x1000 + 0 + (open_log_count log AND 0xff))"] obtain c0 w0 p0 where
    a: "lf_put16 page 30 (u16 (0x1000 + 0 + (open_log_count log AND 0xff))) = Some c0" "lfs_fixup_pre_write c0 ps 512 = Some (0, w0)"
    "clean_fields ps n area lsn sz rhl dof w0" "lfs_fixup_post_read w0 ps 512 = Some (0, p0, False)" "clean_fields ps n area lsn sz rhl dof p0" by blast
  from pr [of "u16 (0x1000 + 1 + (open_log_count log AND 0xff))"] obtain c1 w1 p1 where
    b: "lf_put16 page 30 (u16 (0x1000 + 1 + (open_log_count log AND 0xff))) = Some c1" "lfs_fixup_pre_write c1 ps 512 = Some (0, w1)"
    "clean_fields ps n area lsn sz rhl dof w1" "lfs_fixup_post_read w1 ps 512 = Some (0, p1, False)" "clean_fields ps n area lsn sz rhl dof p1" by blast
  have lw: "length w0 = ps" "length w1 = ps" using a(3) b(3) by (simp_all add: clean_fields_def)
  from assms(3) a(1,2) obtain d1 where d1: "blit d 0 w0 = Some d1" and e: "write_restart_pages log dev_write ps page [1] d1 = Some (0, d')"
    by (auto simp: dev_write_def split: option.splits)
  from e b(1,2) have d2: "blit d1 ps w1 = Some d'" by (auto simp: dev_write_def split: option.splits)
  have "slice d' 0 ps = slice d1 0 ps" using lw by (intro slice_blit_other [OF d2]) simp
  also have "\<dots> = Some w0" using lw by (intro slice_blit_same [OF d1]) simp
  finally show "written ps n area lsn sz rhl dof d' 0" using a by (auto simp: written_def)
  have "slice d' ps ps = Some w1" using lw by (intro slice_blit_same [OF d2]) simp
  then show "written ps n area lsn sz rhl dof d' ps" using b by (auto simp: written_def)
  show "length d' = length d" using length_blit [OF d1] length_blit [OF d2] by simp
qed

text \<open>Between the two pages the probe finds nothing, whatever the page size.\<close>

lemma probe_skips:
  assumes "written ps n area lsn sz rhl dof d 0" "ps = 512 * 2 ^ m" "j \<le> m" "io_read log = dev_read d" "orig_size log = length d"
    "2 * ps \<le> length d" "length d < 4294967296"
  shows "find_loop log (512 * 2 ^ j) False = find_loop log ps False"
  using assms(3)
proof (induction "m - j" arbitrary: j)
  case 0
  then show ?case using assms(2) by simp
next
  case (Suc k)
  then have j: "j < m" by simp
  let ?q = "512 * 2 ^ j :: nat"
  have "(2::nat) ^ Suc j \<le> 2 ^ m" using j by (intro power_increasing) simp_all
  then have q: "2 * ?q \<le> ps" "512 \<le> ?q" using assms(2) by simp_all
  obtain w where w: "slice d 0 ps = Some w" "clean_fields ps n area lsn sz rhl dof w" using assms(1) by (auto simp: written_def)
  obtain head where hd: "slice d ?q 512 = Some head" using q assms(6) by (simp add: slice_def)
  have "get_le 4 head 0 = get_le 4 d ?q" using get_le_slice [OF hd, of 0 4] by simp
  also have "\<dots> = get_le 4 w ?q" using get_le_slice [OF w(1), of ?q 4] q by simp
  also have "\<dots> = Some 0"
  proof -
    have "512 dvd ?q \<and> 512 \<le> ?q \<and> ?q + 4 \<le> ps" using q by (intro conjI dvd_triv_left) linarith+
    then show ?thesis using w(2) unfolding clean_fields_def by blast
  qed
  finally have mg: "get_le 4 head 0 = Some 0" .
  have "next_probe ?q = 512 * 2 ^ Suc j" using q assms(6,7) by (simp add: next_probe_def)
  moreover have "?q < length d" "\<not> length d < ?q + 512" "?q + 512 < 4294967296" using q assms(6,7) by linarith+
  then have "find_loop log ?q False = find_loop log (next_probe ?q) False"
    using assms(4,5) hd mg by (subst find_loop.simps) (simp add: dev_read_def lf_defs)
  ultimately show ?case using Suc.hyps(1) [of "Suc j"] Suc.hyps(2) j by simp
qed

lemma find_clean_pages:
  assumes "written ps n area lsn sz rhl dof d 0" "written ps n area lsn sz rhl dof d ps" "clean_params ps n area sz rhl dof"
    "io_read log = dev_read d" "orig_size log = length d" "length d < 4294967296" "rst log = []"
  shows "\<exists>p0 p1. clean_fields ps n area lsn sz rhl dof p0 \<and> find_restart_pages log =
    Some (2, log\<lparr>rst := [\<lparr>rst_chkdsk = False, rst_vbo = 0, rst_lsn = lsn, rst_page = p0\<rparr>,
      \<lparr>rst_chkdsk = False, rst_vbo = ps, rst_lsn = lsn, rst_page = p1\<rparr>], initialized := True\<rparr>)"
proof -
  have c: "512 \<le> ps" "ps \<le> 65536" using assms(3) by (simp_all add: clean_params_def)
  obtain m where m: "ps = 512 * 2 ^ m" by (rule pow2_pages [OF assms(3)])
  obtain w0 p0 where a: "slice d 0 ps = Some w0" "clean_fields ps n area lsn sz rhl dof w0" "lfs_fixup_post_read w0 ps 512 = Some (0, p0, False)"
    "clean_fields ps n area lsn sz rhl dof p0" using assms(1) by (auto simp: written_def)
  obtain w1 p1 where b: "slice d ps ps = Some w1" "clean_fields ps n area lsn sz rhl dof w1" "lfs_fixup_post_read w1 ps 512 = Some (0, p1, False)"
    "clean_fields ps n area lsn sz rhl dof p1" using assms(2) by (auto simp: written_def)
  have len: "2 * ps \<le> length d" using b(1) by (auto simp: slice_def split: if_splits)
  have hd: "slice d pos 512 = Some (take 512 w)" if "slice d pos ps = Some w" for pos w
    using that c(1) by (auto simp: slice_def split: if_splits)
  have mg: "get_le 4 (take 512 w) 0 = Some LFS_MAGIC_RSTR" if "clean_fields ps n area lsn sz rhl dof w" for w
    using head_field [OF that c(1), of 0 4] that by (simp add: clean_fields_def)
  let ?r0 = "\<lparr>rst_chkdsk = False, rst_vbo = 0, rst_lsn = lsn, rst_page = p0\<rparr>"
  let ?r1 = "\<lparr>rst_chkdsk = False, rst_vbo = ps, rst_lsn = lsn, rst_page = p1\<rparr>"
  let ?l1 = "log\<lparr>rst := [?r0]\<rparr>"
  have l0: "load_restart_page log 0 (take 512 w0) = Some (0, Some ?r0)"
    using len a assms(3-5) by (intro load_clean_page [OF a(2,4)]) (simp_all add: dev_read_def)
  have "d \<noteq> []" using len c(1) by auto
  then have "find_loop log 0 True = find_loop ?l1 512 False"
    using len c assms(4,5,7) hd [OF a(1)] mg [OF a(2)] l0
    by (subst find_loop.simps) (simp add: dev_read_def lf_defs next_probe_def)
  also have "\<dots> = find_loop ?l1 ps False"
    using probe_skips [OF assms(1) m, of 0 ?l1] assms(4-6) len by simp
  also have "\<dots> = Some (2, ?l1\<lparr>rst := [?r0, ?r1]\<rparr>, False)"
  proof -
    have l1: "load_restart_page ?l1 ps (take 512 w1) = Some (0, Some ?r1)"
      using len b assms(3-5) by (intro load_clean_page [OF b(2,4)]) (simp_all add: dev_read_def)
    show ?thesis using len c assms(4-6) hd [OF b(1)] mg [OF b(2)] l1
      by (subst find_loop.simps) (simp add: dev_read_def lf_defs)
  qed
  finally show ?thesis using a(4) by (auto simp: find_restart_pages_def)
qed

lemma open_clean:
  assumes "written ps n area lsn sz rhl dof d 0" "written ps n area lsn sz rhl dof d ps" "clean_params ps n area sz rhl dof"
    "length d < 4294967296" "sz \<le> length d" "0 < cs" "0 < rs"
  shows "\<exists>log. ntfs_logfile_open (Some (dev_read d)) (length d) cs rs = Some (0, Some log) \<and> state log = NTFS_LOG_CLEAN"
proof -
  let ?log = "new_log (dev_read d) (length d) cs rs"
  have o: "io_read ?log = dev_read d" "orig_size ?log = length d" "rst ?log = []" using assms(4) by (simp_all add: new_log_def)
  obtain p0 p1 where f: "clean_fields ps n area lsn sz rhl dof p0" "find_restart_pages ?log =
    Some (2, ?log\<lparr>rst := [\<lparr>rst_chkdsk = False, rst_vbo = 0, rst_lsn = lsn, rst_page = p0\<rparr>,
      \<lparr>rst_chkdsk = False, rst_vbo = ps, rst_lsn = lsn, rst_page = p1\<rparr>], initialized := True\<rparr>)"
    using find_clean_pages [OF assms(1-3) o(1,2) assms(4) o(3)] by blast
  define l1 where "l1 = ?log\<lparr>rst := [\<lparr>rst_chkdsk = False, rst_vbo = 0, rst_lsn = lsn, rst_page = p0\<rparr>,
      \<lparr>rst_chkdsk = False, rst_vbo = ps, rst_lsn = lsn, rst_page = p1\<rparr>], initialized := True, cur_rst := Some 0\<rparr>"
  have l1: "orig_size l1 = length d" "rst_page (rst l1 ! 0) = p0" using o by (simp_all add: l1_def)
  obtain l2 a where g: "setup_geometry l1 p0 = Some (0, l2)" "ra l2 = Some a" "classify a (rst_chkdsk (rst l1 ! 0)) = Some NTFS_LOG_CLEAN" "rst l2 = rst l1"
    using setup_geometry_clean [OF f(1) assms(3), of l1 "rst_chkdsk (rst l1 ! 0)"] assms(4,5) l1 by auto
  have "ntfs_logfile_open (Some (dev_read d)) (length d) cs rs = Some (0, Some (l2\<lparr>state := NTFS_LOG_CLEAN\<rparr>))"
    using f(2) g assms(6,7) by (simp add: ntfs_logfile_open_def choose_rst_def l1_def [symmetric])
  then show ?thesis by simp
qed

text \<open>What the log must satisfy for the page it writes to be accepted again.\<close>

definition can_mark_clean :: "'a lfs_log_scheme \<Rightarrow> nat \<Rightarrow> bool" where
  "can_mark_clean log fsz = (case ra log of
     Some _ \<Rightarrow> geom_ok log \<and> geom_bits log \<and> l_size log \<le> fsz \<and> last_lsn log < 18446744073709551616
   | None \<Rightarrow> (page_size log = 0 \<or> is_pow2 (page_size log) \<and> 512 \<le> page_size log \<and> page_size log \<le> 65536) \<and>
       orig_size log = fsz \<and> 50 * (if page_size log = 0 then LFS_DEFAULT_PAGE_SIZE else page_size log) + 65536 \<le> fsz)"

definition clean_ps :: "'a lfs_log_scheme \<Rightarrow> nat" where
  "clean_ps log = (if page_size log \<noteq> 0 then page_size log else LFS_DEFAULT_PAGE_SIZE)"

definition clean_area :: "nat \<Rightarrow> nat" where
  "clean_area ps = LF_ALIGN8 (u32 (30 + (ps div 512 + 1) * 2))"

lemma clean_area_bounds:
  assumes "512 \<le> ps" "ps \<le> 65536"
  shows "30 + 2 * (ps div 512 + 1) \<le> clean_area ps" "clean_area ps \<le> 288" "8 dvd clean_area ps" "34 \<le> clean_area ps"
proof -
  have n: "ps div 512 \<le> 128" "1 \<le> ps div 512" using assms div_le_mono [of ps 65536 512] div_le_mono [of 512 ps 512] by simp_all
  then have al: "30 + 2 * (ps div 512 + 1) \<le> clean_area ps" "clean_area ps < 30 + 2 * (ps div 512 + 1) + 8" "8 dvd clean_area ps"
    using align8 [of "30 + (ps div 512 + 1) * 2"] by (simp_all add: clean_area_def mult.commute)
  then obtain j where "clean_area ps = 8 * j" by blast
  with al n show "30 + 2 * (ps div 512 + 1) \<le> clean_area ps" "clean_area ps \<le> 288" "8 dvd clean_area ps" "34 \<le> clean_area ps" by auto
qed

lemma clean_params_of:
  assumes "can_mark_clean log fsz" "fsz < 4294967296"
  defines "ps \<equiv> clean_ps log" and "n \<equiv> clean_ps log div 512 + 1"
  shows "clean_params ps n (clean_area ps) (clean_size log ps) (clean_rhl log) (clean_dof log n)" "clean_size log ps \<le> fsz"
    "clean_lsn log < 18446744073709551616" "if ra log = None then True else seq_num_bits log = 67 - bit_count (l_size log)"
proof -
  have p4: "is_pow2 4096" by (simp add: is_pow2_iff) (rule exI [of _ 12], simp)
  have ps: "is_pow2 ps" "512 \<le> ps" "ps \<le> 65536"
    using assms(1) p4 geom_page_size [of log] geom_okD(3) [of log]
    by (auto simp: can_mark_clean_def clean_ps_def ps_def is_pow2_iff split: option.splits)
  note ar = clean_area_bounds [OF ps(2,3)]
  have n: "n \<le> 129" "2 \<le> n" unfolding n_def ps_def [symmetric]
    using ps(2,3) div_le_mono [of ps 65536 512] div_le_mono [of 512 ps 512] by simp_all
  have al: "40 + n * 2 \<le> LF_ALIGN8 (u32 (40 + n * 2))" "LF_ALIGN8 (u32 (40 + n * 2)) < 48 + n * 2" "8 dvd LF_ALIGN8 (u32 (40 + n * 2))"
    using align8 [of "40 + n * 2"] n by simp_all
  have par: "clean_params ps n (clean_area ps) (clean_size log ps) (clean_rhl log) (clean_dof log n) \<and> clean_size log ps \<le> fsz \<and>
    clean_lsn log < 18446744073709551616 \<and> (if ra log = None then True else seq_num_bits log = 67 - bit_count (l_size log))"
  proof (cases "ra log")
    case None
    then have o: "orig_size log = fsz" "50 * ps + 65536 \<le> fsz"
      using assms(1) by (auto simp: can_mark_clean_def ps_def clean_ps_def split: if_splits)
    have "clean_size log ps = fsz" using o ps(3) assms(2) None by (simp add: clean_size_def max_def)
    moreover have "fsz mod ps < ps" using ps(2) by simp
    then have "50 * ps \<le> fsz - fsz mod ps" using o(2) ps(3) by linarith
    moreover have "clean_dof log n < ps \<and> 40 \<le> clean_dof log n \<and> clean_dof log n AND 7 = 0"
      using None al n ps(2) dvd8_and [OF al(3)] by (simp add: clean_dof_def)
    ultimately show ?thesis using None ps ar dvd8_and [of 48]
      by (simp add: clean_params_def clean_rhl_def clean_lsn_def n_def ps_def)
  next
    case (Some a)
    then have g: "geom_ok log" "geom_bits log" "l_size log \<le> fsz" "last_lsn log < 18446744073709551616"
      using assms(1) by (simp_all add: can_mark_clean_def)
    note d = geom_okD [OF g(1)]
    have "page_size log = ps" using geom_page_size(1) [OF g(1)] by (simp add: ps_def clean_ps_def)
    with d g Some ps ar show ?thesis
      by (simp add: clean_params_def clean_rhl_def clean_lsn_def clean_size_def clean_dof_def geom_bits_def n_def ps_def)
  qed
  then show "clean_params ps n (clean_area ps) (clean_size log ps) (clean_rhl log) (clean_dof log n)" "clean_size log ps \<le> fsz"
    "clean_lsn log < 18446744073709551616" "if ra log = None then True else seq_num_bits log = 67 - bit_count (l_size log)"
    by blast+
qed

lemma dev_write_length: "dev_write off x d = (e, d') \<Longrightarrow> length d' = length d"
  by (auto simp: dev_write_def length_blit split: option.splits)

lemma write_overrides_length: "write_overrides log dev_write os d = Some (e, d') \<Longrightarrow> length d' = length d"
proof (induction os arbitrary: d)
  case (Cons x os)
  obtain vbo page where x: "x = (vbo, page)" by fastforce
  from Cons.prems obtain c where c: "(let (err, d1) = dev_write vbo c d in if err \<noteq> 0 then Some (err, d1) else write_overrides log dev_write os d1) = Some (e, d')"
    unfolding x by (auto simp: bind_eq_Some_conv)
  obtain err d1 where w: "dev_write vbo c d = (err, d1)" by fastforce
  with c Cons.IH [of d1] dev_write_length [OF w] show ?case by (auto split: if_splits)
qed simp

lemma mark_clean_parts:
  assumes "ntfs_logfile_mark_clean log (Some wr) d = Some (0, log', d')"
  obtains page d1 where "clean_page log (clean_ps log) = Some page" "write_overrides log wr (ovr log) d = Some (0, d1)"
    "write_restart_pages log wr (clean_ps log) page [0, 1] d1 = Some (0, d')" "state log' = NTFS_LOG_CLEAN"
proof -
  note unfold = ntfs_logfile_mark_clean_def clean_ps_def [symmetric] Let_def option.case
  have ns: "state log \<noteq> NTFS_LOG_UNSUPPORTED" using assms by (auto simp: ntfs_logfile_mark_clean_def)
  from assms ns obtain page where pg: "clean_page log (clean_ps log) = Some page"
    unfolding unfold by (cases "clean_page log (clean_ps log)") simp_all
  from assms ns pg obtain e1 d1 where ov: "write_overrides log wr (ovr log) d = Some (e1, d1)"
    unfolding unfold by (cases "write_overrides log wr (ovr log) d") auto
  have e1: "e1 = 0" using assms ns pg ov unfolding unfold by (cases "e1 = 0") simp_all
  from assms ns pg ov e1 obtain e2 d2 where wr: "write_restart_pages log wr (clean_ps log) page [0, 1] d1 = Some (e2, d2)"
    unfolding unfold by (cases "write_restart_pages log wr (clean_ps log) page [0, 1] d1") (auto simp del: write_restart_pages.simps)
  have "e2 = 0 \<and> d2 = d' \<and> state log' = NTFS_LOG_CLEAN"
    using assms ns pg ov e1 wr unfolding unfold by (cases "e2 = 0") (auto simp del: write_restart_pages.simps)
  with that pg ov e1 wr show ?thesis by simp
qed

text \<open>On a log without page overrides the call succeeds, so its success is not an idle assumption.\<close>

lemma clean_page_fields:
  assumes "can_mark_clean log fsz" "fsz < 4294967296"
  shows "\<exists>page. clean_page log (clean_ps log) = Some page \<and> clean_fields (clean_ps log) (clean_ps log div 512 + 1) (clean_area (clean_ps log))
    (clean_lsn log) (clean_size log (clean_ps log)) (clean_rhl log) (clean_dof log (clean_ps log div 512 + 1)) page"
proof -
  let ?ps = "clean_ps log" and ?n = "clean_ps log div 512 + 1"
  note par = clean_params_of [OF assms]
  have c: "512 \<le> ?ps" "?ps \<le> 65536" "clean_rhl log < ?ps" "clean_dof log ?n < ?ps" using par(1) by (simp_all add: clean_params_def)
  obtain a where a: "clean_area ?ps = a + 34" using clean_area_bounds(4) [OF c(1,2)] by (metis add.commute le_Suc_ex)
  have al: "a + 34 \<le> 288" using clean_area_bounds(2) [OF c(1,2)] a by simp
  have nb: "?n < 65536" using c(2) div_le_mono [of ?ps 65536 512] by simp
  have "\<forall>x\<in>set (page_stores log ?ps ?n (a + 34)). fst (snd x) + fst x \<le> length (replicate ?ps (0::byte))"
    using al c(1) by (auto simp: page_stores_def stores_defs split: option.splits)
  from put_all_ok [OF this] obtain page where pa: "put_all (page_stores log ?ps ?n (a + 34)) (replicate ?ps 0) = Some page" by blast
  have "clean_page log ?ps = Some page" using pa a by (simp add: clean_page_stores clean_area_def)
  moreover have "clean_fields ?ps ?n (clean_area ?ps) (clean_lsn log) (clean_size log ?ps) (clean_rhl log) (clean_dof log ?n) page"
    unfolding a by (rule page_fields [OF pa nb]) (use c par(2-4) al assms(2) in auto)
  ultimately show ?thesis by blast
qed

lemma mark_clean_succeeds:
  assumes "can_mark_clean log (length d)" "length d < 4294967296" "ovr log = []" "state log \<noteq> NTFS_LOG_UNSUPPORTED"
  shows "\<exists>log' d'. ntfs_logfile_mark_clean log (Some dev_write) d = Some (0, log', d')"
proof -
  let ?ps = "clean_ps log"
  note par = clean_params_of [OF assms(1,2)]
  obtain page where pg: "clean_page log ?ps = Some page" and f: "clean_fields ?ps (?ps div 512 + 1) (clean_area ?ps)
    (clean_lsn log) (clean_size log ?ps) (clean_rhl log) (clean_dof log (?ps div 512 + 1)) page" using clean_page_fields [OF assms(1,2)] by blast
  have len: "2 * ?ps \<le> length d" using par(1,2) unfolding clean_params_def by linarith
  have one: "\<exists>d2. length d2 = length d1 \<and> (\<forall>is. write_restart_pages log dev_write ?ps page (i # is) d1 = write_restart_pages log dev_write ?ps page is d2)"
    if d1: "length d1 = length d" and i: "i \<le> 1" for i d1
  proof -
    from protect_clean [OF f par(1)] obtain c w where
      a: "lf_put16 page 30 (u16 (0x1000 + i + (open_log_count log AND 0xff))) = Some c" "lfs_fixup_pre_write c ?ps 512 = Some (0, w)" "length w = ?ps"
      unfolding clean_fields_def by blast
    have "i * ?ps \<le> 1 * ?ps" using i by (rule mult_le_mono1)
    then have "i * ?ps + length w \<le> length d1" using a(3) len d1 by linarith
    then obtain d2 where "blit d1 (i * ?ps) w = Some d2" using blit_ok by blast
    then show ?thesis using a length_blit [of d1 "i * ?ps" w d2] d1 by (intro exI [of _ d2]) (simp add: dev_write_def)
  qed
  obtain d2 where d2: "length d2 = length d" "write_restart_pages log dev_write ?ps page [0, 1] d = write_restart_pages log dev_write ?ps page [1] d2"
    using one [OF refl, of 0] by blast
  obtain d3 where d3: "write_restart_pages log dev_write ?ps page [1] d2 = write_restart_pages log dev_write ?ps page [] d3"
    using one [OF d2(1), of 1] by blast
  have "write_restart_pages log dev_write ?ps page [0, 1] d = Some (0, d3)" using d2 d3 by simp
  then show ?thesis using pg assms(3,4) unfolding ntfs_logfile_mark_clean_def clean_ps_def [symmetric] Let_def option.case
    by (simp del: write_restart_pages.simps add: write_overrides.simps)
qed

text \<open>
  C3.  The round trip of the clean log: after \<open>ntfs_logfile_mark_clean\<close> has succeeded, on a log
  with a valid geometry or on one without any usable restart page, \<open>ntfs_logfile_open\<close> accepts
  the two restart pages it wrote, for every page size, and reports the log clean.
\<close>

theorem mark_clean_reopen:
  assumes "ntfs_logfile_mark_clean log (Some dev_write) d = Some (0, log', d')" "can_mark_clean log (length d)"
    "length d < 4294967296" "0 < cs" "0 < rs"
  shows "state log' = NTFS_LOG_CLEAN \<and>
    (\<exists>log''. ntfs_logfile_open (Some (dev_read d')) (length d') cs rs = Some (0, Some log'') \<and> state log'' = NTFS_LOG_CLEAN)"
proof -
  let ?ps = "clean_ps log" and ?n = "clean_ps log div 512 + 1"
  note par = clean_params_of [OF assms(2,3)]
  obtain page d1 where pg: "clean_page log ?ps = Some page" and ov: "write_overrides log dev_write (ovr log) d = Some (0, d1)"
    and wr: "write_restart_pages log dev_write ?ps page [0, 1] d1 = Some (0, d')" and st: "state log' = NTFS_LOG_CLEAN"
    by (rule mark_clean_parts [OF assms(1)])
  have f: "clean_fields ?ps ?n (clean_area ?ps) (clean_lsn log) (clean_size log ?ps) (clean_rhl log) (clean_dof log ?n) page"
    using clean_page_fields [OF assms(2,3)] pg by simp
  note w = write_pages_written [OF f par(1) wr]
  have len: "length d' = length d" using w(3) write_overrides_length [OF ov] by simp
  show ?thesis using st open_clean [OF w(1,2) par(1), of cs rs] len assms(3-5) par(2) by auto
qed

text \<open>A 400000-byte log of zeros with no usable restart page, made clean and opened again.\<close>

theorem mark_clean_reopen_witness:
  "\<exists>log' d' log''. ntfs_logfile_mark_clean (new_log (dev_read (replicate 400000 0)) 400000 4096 1024) (Some dev_write) (replicate 400000 0) = Some (0, log', d') \<and>
    state log' = NTFS_LOG_CLEAN \<and> ntfs_logfile_open (Some (dev_read d')) (length d') 4096 1024 = Some (0, Some log'') \<and> state log'' = NTFS_LOG_CLEAN"
proof -
  let ?d = "replicate 400000 (0::byte)"
  let ?log = "new_log (dev_read ?d) 400000 4096 1024"
  have l: "length ?d = 400000" by (rule length_replicate)
  have c: "can_mark_clean ?log (length ?d)" unfolding l by (simp add: can_mark_clean_def new_log_def)
  have b: "length ?d < 4294967296" unfolding l by simp
  have o: "ovr ?log = []" "state ?log \<noteq> NTFS_LOG_UNSUPPORTED" by (simp_all add: new_log_def)
  obtain log' d' where m: "ntfs_logfile_mark_clean ?log (Some dev_write) ?d = Some (0, log', d')"
    using mark_clean_succeeds [OF c b o] by blast
  show ?thesis using m mark_clean_reopen [OF m c b, of 4096 1024] by auto
qed

text \<open>A restart page of one sector, as \<open>ntfs_logfile_mark_clean\<close> builds it, gives a geometry.\<close>

theorem setup_geometry_wf_witness:
  "\<exists>page log'. check_rp_header page 0 = Some (0, True) \<and> check_ra page = Some 0 \<and>
    setup_geometry (new_log (dev_read []) 400000 4096 1024) page = Some (0, log') \<and> geom_ok log' \<and> geom_bits log'"
proof -
  let ?log = "new_log (dev_read []) 400000 4096 1024"
  let ?l = "?log\<lparr>page_size := 512\<rparr>"
  have c: "can_mark_clean ?l 400000" by (simp add: can_mark_clean_def new_log_def is_pow2_iff) (rule exI [of _ 9], simp)
  have ps: "clean_ps ?l = 512" by (simp add: clean_ps_def)
  have o: "clean_size ?l 512 \<le> orig_size ?log" "orig_size ?log < 4294967296" by (simp_all add: clean_size_def new_log_def)
  obtain page where f: "clean_fields 512 2 (clean_area 512) (clean_lsn ?l) (clean_size ?l 512) (clean_rhl ?l) (clean_dof ?l 2) page"
    using clean_page_fields [OF c] ps by (auto simp: numeral_2_eq_2)
  have par: "clean_params 512 2 (clean_area 512) (clean_size ?l 512) (clean_rhl ?l) (clean_dof ?l 2)"
    using clean_params_of(1) [OF c] ps by (simp add: numeral_2_eq_2)
  have t: "take 512 page = page" using f by (simp add: clean_fields_def)
  have h: "check_rp_header page 0 = Some (0, True)" using check_rp_header_clean [OF f par, of 0] t by simp
  have r: "check_ra page = Some 0" using check_ra_clean [OF f par] t by simp
  obtain log' where g: "setup_geometry ?log page = Some (0, log')" using setup_geometry_clean [OF f par o] by blast
  show ?thesis using h r g setup_geometry_wf [OF h r g o(2)] by blast
qed

end
