(* ===== verification/Lfs_Overlay.thy ===== *)
theory Lfs_Overlay
  imports Lfs_State Lfs_Fixup
begin

text \<open>
  The state of a replay (struct \<open>replay\<close> of core/logfile/logfile_replay.c) and its in-memory
  overlay: MFT records by number, clusters in an open-addressing hash table by LCN.  Nothing
  is written to the volume while the passes run; the volume is read through the two read
  callbacks, which therefore are functions here.

  A pointer to an overlay slot is its index.  Allocation failures are not modelled, and the capacity of
  the hash table, \<open>uint32_t\<close> in C, is not bounded: memory ends long before it wraps.
\<close>

section \<open>State\<close>

abbreviation (input) SPARSE_LCN :: nat where "SPARSE_LCN \<equiv> 18446744073709551615"
abbreviation (input) MFT_REC_MIRR :: nat where "MFT_REC_MIRR \<equiv> 1"
abbreviation (input) MFT_REC_VOL :: nat where "MFT_REC_VOL \<equiv> 3"
abbreviation (input) LFS_SKIPPED :: int where "LFS_SKIPPED \<equiv> 1"

record ovl_mft =
  om_mft_no :: nat
  om_rec :: buf
  om_dirty :: bool
  om_bad :: bool

record ovl_clu =
  oc_lcn :: nat
  oc_data :: "buf option"
  oc_dirty :: bool

record run =
  run_vcn :: nat
  run_lcn :: nat
  run_len :: nat

record open_attr =
  oa_loaded :: bool
  oa_failed :: bool
  oa_in_extent :: bool
  oa_mft_no :: nat
  oa_type :: nat
  oa_name_len :: nat
  oa_name :: buf
  oa_bytes_per_index :: nat
  oa_resident :: bool
  oa_alloc_size :: nat
  oa_data_size :: nat
  oa_runs :: "run list"
  oa_ovr :: "run list"

definition no_open_attr :: open_attr where
  "no_open_attr = \<lparr>oa_loaded = False, oa_failed = False, oa_in_extent = False, oa_mft_no = 0,
     oa_type = 0, oa_name_len = 0, oa_name = replicate 510 0, oa_bytes_per_index = 0,
     oa_resident = False, oa_alloc_size = 0, oa_data_size = 0, oa_runs = [], oa_ovr = []\<rparr>"

record replay_result =
  rr_records_analyzed :: nat
  rr_records_redone :: nat
  rr_records_undone :: nat
  rr_transactions_active :: nat
  rr_transactions_committed :: nat
  rr_dirty_pages :: nat
  rr_mft_records_written :: nat
  rr_clusters_written :: nat
  rr_redo_lsn :: nat
  rr_needs_chkdsk :: bool
  rr_flush_failed :: bool

definition no_result :: replay_result where
  "no_result = \<lparr>rr_records_analyzed = 0, rr_records_redone = 0, rr_records_undone = 0,
     rr_transactions_active = 0, rr_transactions_committed = 0, rr_dirty_pages = 0,
     rr_mft_records_written = 0, rr_clusters_written = 0, rr_redo_lsn = 0,
     rr_needs_chkdsk = False, rr_flush_failed = False\<rparr>"

text \<open>
  \<open>r_clu\<close> is the hash table: \<open>None\<close> is an unused slot, and its length is \<open>clu_cap\<close>.
  \<open>r_read_clu\<close> reads one cluster.
\<close>

record replay =
  r_log :: lfs_log
  r_read_mft :: "nat \<Rightarrow> int \<times> buf"
  r_read_clu :: "nat \<Rightarrow> int \<times> buf"
  r_cs :: nat
  r_rs :: nat
  r_res :: replay_result
  r_mft :: "ovl_mft list"
  r_cap_mft :: nat
  r_clu :: "ovl_clu option list"
  r_clu_used :: nat
  r_oa :: "open_attr list"
  r_mftdata :: open_attr
  r_mft_loaded :: bool

section \<open>The cluster hash table\<close>

definition clu_hash :: "nat \<Rightarrow> nat \<Rightarrow> nat" where
  "clu_hash lcn msk = u32 (u64 (lcn * 0x9E3779B97F4A7C15) div 2 ^ 32) AND msk"

text \<open>
  The probe loop of \<open>ovl_clu_find\<close>: the first slot from \<open>i\<close> on that is unused or holds
  \<open>lcn\<close>.  A table without such a slot makes it run for ever (\<open>None\<close>).
\<close>

partial_function (option) clu_probe :: "ovl_clu option list \<Rightarrow> nat \<Rightarrow> nat \<Rightarrow> nat option" where
  "clu_probe tab lcn i =
     (if i \<ge> length tab then None
      else (case tab ! i of
        None \<Rightarrow> Some i
      | Some c \<Rightarrow> if oc_lcn c = lcn then Some i
                  else clu_probe tab lcn ((i + 1) AND (length tab - 1))))"

definition clu_insert :: "ovl_clu option list \<Rightarrow> ovl_clu \<Rightarrow> ovl_clu option list option" where
  "clu_insert tab c = do {
     i \<leftarrow> clu_probe tab (oc_lcn c) (clu_hash (oc_lcn c) (length tab - 1));
     Some (tab[i := Some c]) }"

text \<open>
  \<open>ovl_clu_grow\<close>: a table of twice the size into which the used slots are entered again.  The
  re-entry never grows again: the new table is at most a quarter full.
\<close>

primrec clu_rehash :: "ovl_clu option list \<Rightarrow> ovl_clu option list \<Rightarrow> ovl_clu option list option" where
  "clu_rehash [] tab = Some tab"
| "clu_rehash (s # ss) tab = (case s of None \<Rightarrow> clu_rehash ss tab
     | Some c \<Rightarrow> do { tab \<leftarrow> clu_insert tab c; clu_rehash ss tab })"

definition ovl_clu_grow :: "replay \<Rightarrow> replay option" where
  "ovl_clu_grow r = do {
     let ncap = (if r_clu r = [] then 1024 else length (r_clu r) * 2);
     tab \<leftarrow> clu_rehash (r_clu r) (replicate ncap None);
     Some (r\<lparr>r_clu := tab, r_clu_used := length (filter (\<lambda>s. s \<noteq> None) (r_clu r))\<rparr>) }"

definition clu_ready :: "replay \<Rightarrow> replay option" where
  "clu_ready r = do {
     r \<leftarrow> (if r_clu r = [] then ovl_clu_grow r else Some r);
     if r_clu_used r * 2 \<ge> length (r_clu r) then ovl_clu_grow r else Some r }"

text \<open>
  \<open>ovl_clu_find(r, lcn, true)\<close> gives the slot of \<open>lcn\<close>, entering it when it is new;
  \<open>ovl_clu_find(r, lcn, false)\<close> only looks.
\<close>

definition ovl_clu_create :: "replay \<Rightarrow> nat \<Rightarrow> (replay \<times> nat) option" where
  "ovl_clu_create r lcn = do {
     r \<leftarrow> clu_ready r;
     i \<leftarrow> clu_probe (r_clu r) lcn (clu_hash lcn (length (r_clu r) - 1));
     Some (if r_clu r ! i = None
       then (r\<lparr>r_clu := (r_clu r)[i := Some \<lparr>oc_lcn = lcn, oc_data = None, oc_dirty = False\<rparr>],
               r_clu_used := r_clu_used r + 1\<rparr>, i)
       else (r, i)) }"

definition ovl_clu_lookup :: "replay \<Rightarrow> nat \<Rightarrow> ovl_clu option option" where
  "ovl_clu_lookup r lcn =
     (if r_clu r = [] then Some None
      else do {
        i \<leftarrow> clu_probe (r_clu r) lcn (clu_hash lcn (length (r_clu r) - 1));
        Some (r_clu r ! i) })"

text \<open>The cluster with its data, from the overlay or the volume: return code, state, slot.\<close>

definition ovl_get_cluster :: "replay \<Rightarrow> nat \<Rightarrow> (int \<times> replay \<times> nat) option" where
  "ovl_get_cluster r lcn = do {
     (r, i) \<leftarrow> ovl_clu_create r lcn;
     c \<leftarrow> r_clu r ! i;
     (case oc_data c of Some _ \<Rightarrow> Some (0, r, i)
      | None \<Rightarrow> (
          let (err, d) = r_read_clu r lcn in
          if err \<noteq> 0 then Some (io_err err, r, i)
          else Some (0, r\<lparr>r_clu := (r_clu r)[i := Some (c\<lparr>oc_data := Some d\<rparr>)]\<rparr>, i))) }"

section \<open>MFT records\<close>

fun mft_index :: "ovl_mft list \<Rightarrow> nat \<Rightarrow> nat option" where
  "mft_index [] mft_no = None"
| "mft_index (m # ms) mft_no = (if om_mft_no m = mft_no then Some 0 else map_option Suc (mft_index ms mft_no))"

definition ovl_mft_lookup :: "replay \<Rightarrow> nat \<Rightarrow> nat option" where
  "ovl_mft_lookup r mft_no = mft_index (r_mft r) mft_no"

text \<open>What \<open>ovl_get_mft\<close> makes of a record it has read: return code, bytes, \<open>bad\<close>.\<close>

definition load_mft_record :: "replay \<Rightarrow> nat \<Rightarrow> bool \<Rightarrow> (int \<times> buf \<times> bool) option" where
  "load_mft_record r mft_no init = (
     let (err, rec) = r_read_mft r mft_no in
     if err \<noteq> 0 then
       (if init then Some (0, replicate (r_rs r) 0, False) else Some (- EIO, rec, False))
     else do {
       magic \<leftarrow> lf_get32 rec 0;
       if magic = LFS_MAGIC_FILE then do {
         (err, rec, torn) \<leftarrow> lfs_fixup_post_read rec (r_rs r) LFS_SECTOR_SIZE;
         Some (0, rec, err \<noteq> 0 \<or> torn) }
       else if magic = LFS_MAGIC_BAAD then Some (0, rec, True)
       else if init then Some (0, replicate (r_rs r) 0, False)
       else Some (0, rec, False) })"

definition ovl_get_mft :: "replay \<Rightarrow> nat \<Rightarrow> bool \<Rightarrow> (int \<times> replay \<times> nat) option" where
  "ovl_get_mft r mft_no init = (case ovl_mft_lookup r mft_no of
     Some i \<Rightarrow> Some (0, r, i)
   | None \<Rightarrow> do {
       let n = length (r_mft r);
       let r = (if n = r_cap_mft r then r\<lparr>r_cap_mft := (if r_cap_mft r \<noteq> 0 then r_cap_mft r * 2 else 64)\<rparr>
                else r);
       (err, rec, bad) \<leftarrow> load_mft_record r mft_no init;
       if err \<noteq> 0 then Some (err, r, n)
       else Some (0, r\<lparr>r_mft := r_mft r @ [\<lparr>om_mft_no = mft_no, om_rec = rec, om_dirty = False, om_bad = bad\<rparr>]\<rparr>, n) })"

section \<open>The plan\<close>

definition lfs_plan_add :: "replay \<Rightarrow> plan_entry \<Rightarrow> replay" where
  "lfs_plan_add r e = r\<lparr>r_log := (r_log r)\<lparr>plan := plan (r_log r) @ [e]\<rparr>\<rparr>"

definition no_plan_entry :: plan_entry where
  "no_plan_entry = \<lparr>pe_kind = NTFS_PLAN_SKIPPED, pe_lsn = 0, pe_op = 0, pe_undo = False,
     pe_target_attr = 0, pe_target_vcn = 0, pe_mft_no = 0, pe_lcn = 0, pe_count = 0\<rparr>"

definition plan_skip :: "replay \<Rightarrow> nat \<Rightarrow> nat \<Rightarrow> bool \<Rightarrow> int \<times> replay" where
  "plan_skip r lsn op undo =
     (LFS_SKIPPED, lfs_plan_add r (no_plan_entry\<lparr>pe_lsn := lsn, pe_op := op, pe_undo := undo\<rparr>))"

section \<open>The hash table as a map\<close>

text \<open>
  \<open>probe_pos tab l d\<close> is the slot the probe for \<open>l\<close> visits after \<open>d\<close> steps.  A table is well-formed
  when its length is a power of two and every entry sits on the probe path of its key behind
  used slots with other keys only (\<open>placed\<close>).
\<close>

definition probe_pos :: "ovl_clu option list \<Rightarrow> nat \<Rightarrow> nat \<Rightarrow> nat" where
  "probe_pos tab l d = (clu_hash l (length tab - 1) + d) mod length tab"

definition other_key :: "nat \<Rightarrow> ovl_clu option \<Rightarrow> bool" where
  "other_key l s = (case s of None \<Rightarrow> False | Some c \<Rightarrow> oc_lcn c \<noteq> l)"

definition placed :: "ovl_clu option list \<Rightarrow> nat \<Rightarrow> nat \<Rightarrow> bool" where
  "placed tab l j \<longleftrightarrow> (\<exists>d<length tab. j = probe_pos tab l d \<and> (\<forall>e<d. other_key l (tab ! probe_pos tab l e)))"

definition clu_wf :: "ovl_clu option list \<Rightarrow> bool" where
  "clu_wf tab \<longleftrightarrow> (\<exists>k. length tab = 2 ^ k) \<and>
     (\<forall>j<length tab. case tab ! j of None \<Rightarrow> True | Some c \<Rightarrow> placed tab (oc_lcn c) j)"

definition holds_key :: "nat \<Rightarrow> ovl_clu option \<Rightarrow> bool" where
  "holds_key l s = (case s of None \<Rightarrow> False | Some c \<Rightarrow> oc_lcn c = l)"

definition clu_map :: "ovl_clu option list \<Rightarrow> nat \<Rightarrow> ovl_clu option" where
  "clu_map tab l = (case List.find (holds_key l) tab of None \<Rightarrow> None | Some s \<Rightarrow> s)"

definition clu_count :: "ovl_clu option list \<Rightarrow> nat" where
  "clu_count tab = length (filter (\<lambda>s. s \<noteq> None) tab)"

lemma other_simps [simp]: "\<not> other_key l None" "other_key l (Some c) \<longleftrightarrow> oc_lcn c \<noteq> l"
  by (simp_all add: other_key_def)

lemma holds_iff: "holds_key l s \<longleftrightarrow> (\<exists>c. s = Some c \<and> oc_lcn c = l)"
  by (auto simp: holds_key_def split: option.splits)

lemma clu_wfD:
  assumes "clu_wf tab"
  shows "0 < length tab" "j < length tab \<Longrightarrow> tab ! j = Some c \<Longrightarrow> placed tab (oc_lcn c) j"
    "x AND (length tab - Suc 0) = x mod length tab"
proof -
  from assms obtain k where k: "length tab = 2 ^ k" by (auto simp: clu_wf_def)
  show "0 < length tab" "x AND (length tab - Suc 0) = x mod length tab"
    using k nat_and_mask_low [of x k] by simp_all
  show "j < length tab \<Longrightarrow> tab ! j = Some c \<Longrightarrow> placed tab (oc_lcn c) j"
    using assms by (fastforce simp: clu_wf_def)
qed

lemma pos_less: "clu_wf tab \<Longrightarrow> probe_pos tab l d < length tab"
  using clu_wfD(1) by (simp add: probe_pos_def)

lemma hash_pos: "clu_wf tab \<Longrightarrow> clu_hash l (length tab - 1) = probe_pos tab l 0"
  by (simp add: probe_pos_def clu_hash_def clu_wfD(3))

lemma pos_Suc: "clu_wf tab \<Longrightarrow> Suc (probe_pos tab l d) AND (length tab - Suc 0) = probe_pos tab l (Suc d)"
  by (simp add: probe_pos_def clu_wfD(3) mod_Suc_eq)

lemma pos_onto: "clu_wf tab \<Longrightarrow> j < length tab \<Longrightarrow> \<exists>d<length tab. probe_pos tab l d = j"
proof -
  assume wf: "clu_wf tab" and j: "j < length tab"
  obtain h where h: "h < length tab" "\<And>d. probe_pos tab l d = (h + d) mod length tab"
    by (rule that [of "probe_pos tab l 0"]) (simp_all add: pos_less [OF wf], simp add: probe_pos_def mod_add_left_eq)
  show ?thesis
  proof (cases "h \<le> j")
    case True
    then have "probe_pos tab l (j - h) = j" "j - h < length tab" using h j by simp_all
    then show ?thesis by blast
  next
    case False
    then have "h + (length tab - h + j) = j + length tab" "length tab - h + j < length tab" using h(1) by linarith+
    then show ?thesis using h(2) [of "length tab - h + j"] j by (metis mod_add_self2 mod_less)
  qed
qed

text \<open>Keys are unique, so membership in the table determines the map.\<close>

lemma placed_unique:
  assumes "clu_wf tab" "i < length tab" "j < length tab" "tab ! i = Some c" "tab ! j = Some c'" "oc_lcn c = oc_lcn c'"
  shows "i = j"
proof -
  let ?l = "oc_lcn c"
  obtain d where d: "i = probe_pos tab ?l d" "\<forall>e<d. other_key ?l (tab ! probe_pos tab ?l e)"
    using clu_wfD(2) [OF assms(1,2,4)] by (auto simp: placed_def)
  obtain d' where d': "j = probe_pos tab ?l d'" "\<forall>e<d'. other_key ?l (tab ! probe_pos tab ?l e)"
    using clu_wfD(2) [OF assms(1,3,5)] assms(6) by (auto simp: placed_def)
  have "\<not> d < d'" using d'(2) d(1) assms(4) by auto
  moreover have "\<not> d' < d" using d(2) d'(1) assms(5,6) by fastforce
  ultimately show ?thesis using d d' by simp
qed

lemma clu_map_None: "clu_map tab l = None \<longleftrightarrow> (\<forall>i<length tab. \<not> holds_key l (tab ! i))"
  by (auto simp: clu_map_def find_None_iff find_Some_iff holds_iff in_set_conv_nth split: option.splits)

lemma clu_map_Some:
  assumes "clu_wf tab"
  shows "clu_map tab l = Some c \<longleftrightarrow> (\<exists>i<length tab. tab ! i = Some c \<and> oc_lcn c = l)"
proof
  show "\<exists>i<length tab. tab ! i = Some c \<and> oc_lcn c = l" if "clu_map tab l = Some c"
    using that by (fastforce simp: clu_map_def find_Some_iff holds_iff split: option.splits)
  assume "\<exists>i<length tab. tab ! i = Some c \<and> oc_lcn c = l"
  then obtain i where i: "i < length tab" "tab ! i = Some c" "oc_lcn c = l" by blast
  then have "clu_map tab l \<noteq> None" by (auto simp: clu_map_None holds_iff)
  then obtain c' where "clu_map tab l = Some c'" by blast
  moreover from this obtain j where "j < length tab" "tab ! j = Some c'" "oc_lcn c' = l"
    by (fastforce simp: clu_map_def find_Some_iff holds_iff split: option.splits)
  with placed_unique [OF assms i(1) _ i(2)] i have "c' = c" by fastforce
  ultimately show "clu_map tab l = Some c" by simp
qed

text \<open>The probe ends at the key's slot, or at the first unused slot of its path.\<close>

lemma clu_probe_from:
  assumes "clu_wf tab" "\<forall>e<D. other_key l (tab ! probe_pos tab l e)" "\<not> other_key l (tab ! probe_pos tab l D)" "d \<le> D"
  shows "clu_probe tab l (probe_pos tab l d) = Some (probe_pos tab l D)"
  using assms(4)
proof (induction "D - d" arbitrary: d)
  case 0
  then have "d = D" by simp
  with assms(3) pos_less [OF assms(1), of l D] show ?case
    by (subst clu_probe.simps) (auto simp: other_key_def not_le split: option.splits)
next
  case (Suc m)
  then have d: "d < D" by simp
  with assms(2) obtain c where c: "tab ! probe_pos tab l d = Some c" "oc_lcn c \<noteq> l"
    by (auto simp: other_key_def split: option.splits)
  have "clu_probe tab l (probe_pos tab l (Suc d)) = Some (probe_pos tab l D)" using Suc d by (intro Suc.hyps(1)) simp_all
  with c pos_less [OF assms(1), of l d] show ?case
    by (subst clu_probe.simps) (simp add: not_le pos_Suc [OF assms(1)])
qed

lemma clu_probe_spec:
  assumes "clu_wf tab" "clu_count tab < length tab"
  shows "\<exists>i. clu_probe tab l (clu_hash l (length tab - 1)) = Some i \<and> i < length tab \<and> placed tab l i \<and>
    tab ! i = clu_map tab l"
proof -
  have "\<exists>s\<in>set tab. s = None"
  proof (rule ccontr)
    assume "\<not> ?thesis"
    then have "filter (\<lambda>s. s \<noteq> None) tab = tab" by (intro filter_True) (metis not_None_eq)
    with assms(2) show False by (simp add: clu_count_def)
  qed
  then obtain j where j: "j < length tab" "tab ! j = None" by (auto simp: in_set_conv_nth)
  obtain d0 where d0: "d0 < length tab" "probe_pos tab l d0 = j" using pos_onto [OF assms(1) j(1)] by blast
  define D where "D = (LEAST d. \<not> other_key l (tab ! probe_pos tab l d))"
  have stop: "\<not> other_key l (tab ! probe_pos tab l D)" unfolding D_def by (rule LeastI [of _ d0]) (use d0 j in simp)
  have path: "\<forall>e<D. other_key l (tab ! probe_pos tab l e)" using not_less_Least by (fastforce simp: D_def)
  have "D \<le> d0" unfolding D_def by (rule Least_le) (use d0 j in simp)
  then have pl: "placed tab l (probe_pos tab l D)" using path d0(1) le_less_trans unfolding placed_def by blast
  have "tab ! probe_pos tab l D = clu_map tab l"
  proof (cases "tab ! probe_pos tab l D")
    case (Some c)
    with stop have "oc_lcn c = l" by simp
    with Some clu_map_Some [OF assms(1)] pos_less [OF assms(1)] show ?thesis by metis
  next
    case None
    have "clu_map tab l = None"
    proof (rule ccontr)
      assume "clu_map tab l \<noteq> None"
      then obtain c i where c: "i < length tab" "tab ! i = Some c" "oc_lcn c = l"
        using clu_map_Some [OF assms(1), of l] by blast
      then obtain d where d: "i = probe_pos tab l d" "\<forall>e<d. other_key l (tab ! probe_pos tab l e)"
        using clu_wfD(2) [OF assms(1)] by (auto simp: placed_def)
      have "\<not> D < d" using d(2) None by auto
      moreover have "\<not> d < D" using path d(1) c by auto
      ultimately show False using None d(1) c(2) by (metis linorder_neqE_nat option.distinct(1))
    qed
    with None show ?thesis by simp
  qed
  with clu_probe_from [OF assms(1) path stop, of 0] pl pos_less [OF assms(1)] hash_pos [OF assms(1)] show ?thesis by auto
qed

lemma pos_update [simp]: "probe_pos (tab[i := s]) l d = probe_pos tab l d"
  by (simp add: probe_pos_def)

lemma clu_wf_update:
  assumes "clu_wf tab" "i < length tab" "placed tab (oc_lcn c) i" "\<not> other_key (oc_lcn c) (tab ! i)"
  shows "clu_wf (tab[i := Some c])" and "clu_map (tab[i := Some c]) = (clu_map tab)(oc_lcn c \<mapsto> c)"
proof -
  let ?t = "tab[i := Some c]"
  have keep: "placed ?t l j" if p: "placed tab l j" and l: "l = oc_lcn c \<or> j \<noteq> i" for l j
  proof -
    from p obtain d where d: "d < length tab" "j = probe_pos tab l d" "\<forall>e<d. other_key l (tab ! probe_pos tab l e)"
      by (auto simp: placed_def)
    have "other_key l (?t ! probe_pos tab l e)" if "e < d" for e
    proof (cases "probe_pos tab l e = i")
      case True
      with d(3) that have "other_key l (tab ! i)" by auto
      moreover from this assms(4) have "l \<noteq> oc_lcn c" by blast
      ultimately show ?thesis using True assms(2) by simp
    next
      case False
      with d(3) that show ?thesis by simp
    qed
    then show ?thesis unfolding placed_def using d(1,2) by auto
  qed
  show wf: "clu_wf ?t"
  proof -
    have "case ?t ! j of None \<Rightarrow> True | Some c' \<Rightarrow> placed ?t (oc_lcn c') j" if "j < length tab" for j
      using that keep assms(2,3) clu_wfD(2) [OF assms(1) that] by (cases "j = i") (auto split: option.splits)
    then show ?thesis using assms(1) by (auto simp: clu_wf_def)
  qed
  show "clu_map ?t = (clu_map tab)(oc_lcn c \<mapsto> c)"
  proof
    fix l
    have "clu_map ?t l = Some c' \<longleftrightarrow> ((clu_map tab)(oc_lcn c \<mapsto> c)) l = Some c'" for c'
    proof (cases "l = oc_lcn c")
      case True
      then have "clu_map ?t l = Some c" using clu_map_Some [OF wf, of l c] assms(2) by auto
      with True show ?thesis by auto
    next
      case False
      have "tab ! i \<noteq> Some c'" if "oc_lcn c' = l" using that False assms(4) by auto
      then show ?thesis using False clu_map_Some [OF wf, of l c'] clu_map_Some [OF assms(1), of l c'] assms(2)
        by (auto simp: nth_list_update split: if_splits)
    qed
    then show "clu_map ?t l = ((clu_map tab)(oc_lcn c \<mapsto> c)) l" by (metis option.exhaust)
  qed
qed

lemma used_card: "clu_count tab = card {i. i < length tab \<and> tab ! i \<noteq> None}"
  by (simp add: clu_count_def length_filter_conv_card)

lemma used_update:
  assumes "i < length tab"
  shows "clu_count (tab[i := Some c]) = (if tab ! i = None then clu_count tab + 1 else clu_count tab)"
proof -
  have "{j. j < length tab \<and> tab[i := Some c] ! j \<noteq> None} = insert i {j. j < length tab \<and> tab ! j \<noteq> None}"
    using assms by (auto simp: nth_list_update)
  then have "clu_count (tab[i := Some c]) = card (insert i {j. j < length tab \<and> tab ! j \<noteq> None})" by (simp add: used_card)
  then show ?thesis using assms by (simp add: card_insert_if used_card)
qed

lemma clu_insert_spec:
  assumes "clu_wf tab" "clu_count tab < length tab" "clu_map tab (oc_lcn c) = None"
  shows "\<exists>tab'. clu_insert tab c = Some tab' \<and> clu_wf tab' \<and> length tab' = length tab \<and> clu_count tab' = clu_count tab + 1 \<and>
    clu_map tab' = (clu_map tab)(oc_lcn c \<mapsto> c)"
proof -
  obtain i where i: "clu_probe tab (oc_lcn c) (clu_hash (oc_lcn c) (length tab - 1)) = Some i" "i < length tab"
    "placed tab (oc_lcn c) i" "tab ! i = None" using clu_probe_spec [OF assms(1,2), of "oc_lcn c"] assms(3) by auto
  have "\<not> other_key (oc_lcn c) (tab ! i)" using i(4) by simp
  from clu_wf_update [OF assms(1) i(2,3) this] i used_update [OF i(2)] show ?thesis by (auto simp: clu_insert_def)
qed

text \<open>Growing the table: all entries of the old one, and nothing else.\<close>

lemma clu_rehash_spec:
  assumes "clu_wf tab" "clu_count ss + clu_count tab \<le> length tab" "clu_count ss + clu_count tab < length tab \<or> clu_count ss = 0"
    "\<And>i j c c'. i < length ss \<Longrightarrow> j < length ss \<Longrightarrow> ss ! i = Some c \<Longrightarrow> ss ! j = Some c' \<Longrightarrow> oc_lcn c = oc_lcn c' \<Longrightarrow> i = j"
    "\<And>c. Some c \<in> set ss \<Longrightarrow> clu_map tab (oc_lcn c) = None"
  shows "\<exists>tab'. clu_rehash ss tab = Some tab' \<and> clu_wf tab' \<and> length tab' = length tab \<and> clu_count tab' = clu_count ss + clu_count tab \<and>
    (\<forall>l. clu_map tab' l = (case clu_map ss l of None \<Rightarrow> clu_map tab l | Some c \<Rightarrow> Some c))"
  using assms
proof (induction ss arbitrary: tab)
  case Nil
  then show ?case by (simp add: clu_map_def clu_count_def)
next
  case (Cons s ss)
  have inj: "i = j" if "i < length ss" "j < length ss" "ss ! i = Some c" "ss ! j = Some c'" "oc_lcn c = oc_lcn c'" for i j c c'
    using Cons.prems(4) [of "Suc i" "Suc j" c c'] that by simp
  show ?case
  proof (cases s)
    case None
    then have "clu_count (s # ss) = clu_count ss" "clu_map (s # ss) = clu_map ss" by (auto simp: clu_count_def clu_map_def holds_key_def fun_eq_iff)
    with None Cons.IH [of tab] Cons.prems(1-3,5) inj show ?thesis by auto
  next
    case (Some c)
    have u: "clu_count (s # ss) = clu_count ss + 1" using Some by (simp add: clu_count_def)
    with Cons.prems(2,3) have ut: "clu_count tab < length tab" by auto
    obtain t1 where t1: "clu_insert tab c = Some t1" "clu_wf t1" "length t1 = length tab" "clu_count t1 = clu_count tab + 1"
      "clu_map t1 = (clu_map tab)(oc_lcn c \<mapsto> c)"
      using clu_insert_spec [OF Cons.prems(1) ut, of c] Cons.prems(5) [of c] Some by auto
    have new: "oc_lcn c' \<noteq> oc_lcn c" if "Some c' \<in> set ss" for c'
      using that Cons.prems(4) [of "Suc _" 0 c' c] Some by (auto simp: in_set_conv_nth)
    have "\<exists>tab'. clu_rehash ss t1 = Some tab' \<and> clu_wf tab' \<and> length tab' = length t1 \<and> clu_count tab' = clu_count ss + clu_count t1 \<and>
        (\<forall>l. clu_map tab' l = (case clu_map ss l of None \<Rightarrow> clu_map t1 l | Some c \<Rightarrow> Some c))"
      by (rule Cons.IH) (use t1 u Cons.prems(2,3,5) inj new in auto)
    then obtain t2 where t2: "clu_rehash ss t1 = Some t2" "clu_wf t2" "length t2 = length t1" "clu_count t2 = clu_count ss + clu_count t1"
      "\<forall>l. clu_map t2 l = (case clu_map ss l of None \<Rightarrow> clu_map t1 l | Some c \<Rightarrow> Some c)" by blast
    have "clu_map ss (oc_lcn c) = None" using new nth_mem by (fastforce simp: clu_map_None holds_iff)
    then have "clu_map t2 l = (case clu_map (s # ss) l of None \<Rightarrow> clu_map tab l | Some c \<Rightarrow> Some c)" for l
      using t2(5) t1(5) Some by (auto simp: clu_map_def [of "Some c # ss"] holds_key_def split: option.splits) (simp_all add: clu_map_def)
    with t1 t2 u Some show ?thesis by auto
  qed
qed

section \<open>The overlay's clusters\<close>

text \<open>
  The invariant of the cluster part of the overlay: no table yet, or a well-formed one that is at
  most half full.  \<open>overlay r l\<close> is the entry for cluster \<open>l\<close>, \<open>clu_content r l\<close> what a pass
  sees when it reads the cluster (return code and data), \<open>clu_dirties r\<close> what a flush writes.
\<close>

definition clu_inv :: "replay \<Rightarrow> bool" where
  "clu_inv r \<longleftrightarrow> (r_clu r = [] \<and> r_clu_used r = 0) \<or>
     (clu_wf (r_clu r) \<and> 1024 \<le> length (r_clu r) \<and> r_clu_used r = clu_count (r_clu r) \<and> clu_count (r_clu r) * 2 \<le> length (r_clu r))"

definition overlay :: "replay \<Rightarrow> nat \<Rightarrow> ovl_clu option" where
  "overlay r l = clu_map (r_clu r) l"

definition entry_content :: "int \<times> buf \<Rightarrow> ovl_clu option \<Rightarrow> int \<times> buf" where
  "entry_content v s = (case s of None \<Rightarrow> v | Some c \<Rightarrow> (case oc_data c of None \<Rightarrow> v | Some d \<Rightarrow> (0, d)))"

definition clu_content :: "replay \<Rightarrow> nat \<Rightarrow> int \<times> buf" where
  "clu_content r l = entry_content (r_read_clu r l) (overlay r l)"

definition clu_dirties :: "replay \<Rightarrow> nat set" where
  "clu_dirties r = {l. \<exists>c. overlay r l = Some c \<and> oc_dirty c}"

lemma clu_wf_new: "clu_wf (replicate (2 ^ k) None)" "clu_count (replicate n None) = 0" "clu_map (replicate n None) l = None"
  by (auto simp: clu_wf_def clu_count_def clu_map_None holds_key_def)

lemma clu_map_Nil [simp]: "clu_map [] l = None" "clu_count [] = 0"
  by (simp_all add: clu_map_def clu_count_def)

lemma used_le: "clu_count tab \<le> length tab"
  by (simp add: clu_count_def)

lemma clu_grow_spec:
  assumes "clu_inv r"
  shows "\<exists>t. ovl_clu_grow r = Some (r\<lparr>r_clu := t, r_clu_used := clu_count (r_clu r)\<rparr>) \<and> clu_wf t \<and>
    length t = (if r_clu r = [] then 1024 else length (r_clu r) * 2) \<and> clu_count t = clu_count (r_clu r) \<and> clu_map t = clu_map (r_clu r)"
proof -
  let ?n = "if r_clu r = [] then 1024 else length (r_clu r) * 2"
  have "\<exists>k. ?n = 2 ^ k"
  proof (cases "r_clu r = []")
    case True
    then show ?thesis by (intro exI [of _ 10]) simp
  next
    case False
    then obtain k where "length (r_clu r) = 2 ^ k" using assms by (auto simp: clu_inv_def clu_wf_def)
    with False show ?thesis by (intro exI [of _ "Suc k"]) simp
  qed
  then obtain k where k: "?n = 2 ^ k" by blast
  have pu: "i = j" if "i < length (r_clu r)" "j < length (r_clu r)" "r_clu r ! i = Some c" "r_clu r ! j = Some c'"
    "oc_lcn c = oc_lcn c'" for i j c c'
    using assms that placed_unique by (auto simp: clu_inv_def)
  have "clu_count (r_clu r) < ?n" using used_le [of "r_clu r"] by (cases "r_clu r") auto
  then have "\<exists>t. clu_rehash (r_clu r) (replicate ?n None) = Some t \<and> clu_wf t \<and> length t = length (replicate ?n (None :: ovl_clu option)) \<and>
      clu_count t = clu_count (r_clu r) + clu_count (replicate ?n None) \<and>
      (\<forall>l. clu_map t l = (case clu_map (r_clu r) l of None \<Rightarrow> clu_map (replicate ?n None) l | Some c \<Rightarrow> Some c))"
    unfolding k by (intro clu_rehash_spec) (auto simp: clu_wf_new pu)
  then obtain t where t: "clu_rehash (r_clu r) (replicate ?n None) = Some t" "clu_wf t" "length t = ?n" "clu_count t = clu_count (r_clu r)"
    "\<forall>l. clu_map t l = (case clu_map (r_clu r) l of None \<Rightarrow> None | Some c \<Rightarrow> Some c)"
    unfolding clu_wf_new(2,3) length_replicate add_0_right by blast
  have "clu_map t = clu_map (r_clu r)" by (rule ext) (use t(5) in \<open>auto split: option.splits\<close>)
  moreover have "ovl_clu_grow r = Some (r\<lparr>r_clu := t, r_clu_used := clu_count (r_clu r)\<rparr>)"
    using t(1) by (simp add: ovl_clu_grow_def clu_count_def)
  ultimately show ?thesis using t(2-4) by blast
qed

text \<open>\<open>same_rest r r'\<close>: the states differ in the cluster table only.\<close>

definition same_rest :: "replay \<Rightarrow> replay \<Rightarrow> bool" where
  "same_rest r r' \<longleftrightarrow> r' = r\<lparr>r_clu := r_clu r', r_clu_used := r_clu_used r'\<rparr>"

lemma same_rest_simps:
  assumes "same_rest r r'"
  shows "r_read_clu r' = r_read_clu r" "r_cs r' = r_cs r" "r_log r' = r_log r" "r_mft r' = r_mft r" "r_rs r' = r_rs r"
  by (subst assms [unfolded same_rest_def], simp)+

lemma same_rest_refl [simp]: "same_rest r r"
  by (simp add: same_rest_def)

lemma same_rest_trans: "same_rest r r' \<Longrightarrow> same_rest r' r'' \<Longrightarrow> same_rest r r''"
  unfolding same_rest_def by (cases r; cases r'; cases r'') simp

lemma same_rest_update [simp]: "same_rest r (r\<lparr>r_clu := t, r_clu_used := u\<rparr>)" "same_rest r (r\<lparr>r_clu := t\<rparr>)"
  by (simp_all add: same_rest_def)

lemma clu_ready_spec:
  assumes "clu_inv r"
  shows "\<exists>r'. clu_ready r = Some r' \<and> clu_inv r' \<and> clu_count (r_clu r') * 2 < length (r_clu r') \<and> overlay r' = overlay r \<and> same_rest r r'"
proof -
  have g: "\<exists>r'. ovl_clu_grow r = Some r' \<and> clu_inv r' \<and> clu_count (r_clu r') * 2 < length (r_clu r') \<and> overlay r' = overlay r \<and> same_rest r r'"
    if i: "clu_inv r" for r
  proof -
    obtain t where t: "ovl_clu_grow r = Some (r\<lparr>r_clu := t, r_clu_used := clu_count (r_clu r)\<rparr>)" "clu_wf t"
      "length t = (if r_clu r = [] then 1024 else length (r_clu r) * 2)" "clu_count t = clu_count (r_clu r)" "clu_map t = clu_map (r_clu r)"
      using clu_grow_spec [OF i] by blast
    moreover have "1024 \<le> length t" "clu_count t * 2 < length t" using t(3,4) i by (auto simp: clu_inv_def)
    ultimately show ?thesis by (auto simp: clu_inv_def overlay_def)
  qed
  show ?thesis
  proof (cases "r_clu r = []")
    case True
    from g [OF assms] obtain r' where "ovl_clu_grow r = Some r'" "clu_inv r'" "clu_count (r_clu r') * 2 < length (r_clu r')"
      "overlay r' = overlay r" "same_rest r r'" by blast
    moreover from this have "\<not> r_clu_used r' * 2 \<ge> length (r_clu r')" by (auto simp: clu_inv_def)
    ultimately show ?thesis using True by (simp add: clu_ready_def)
  next
    case False
    then have "r_clu_used r = clu_count (r_clu r)" using assms by (auto simp: clu_inv_def)
    with g [OF assms] assms False show ?thesis by (auto simp: clu_ready_def not_le)
  qed
qed

text \<open>Entering a key: the slot the code returns holds the entry of the key.\<close>

definition fresh_clu :: "nat \<Rightarrow> ovl_clu" where
  "fresh_clu l = \<lparr>oc_lcn = l, oc_data = None, oc_dirty = False\<rparr>"

lemma clu_create_spec:
  assumes "clu_inv r"
  shows "\<exists>r' i. ovl_clu_create r l = Some (r', i) \<and> clu_inv r' \<and> same_rest r r' \<and> i < length (r_clu r') \<and>
    placed (r_clu r') l i \<and> r_clu r' ! i = overlay r' l \<and>
    overlay r' = (if overlay r l = None then (overlay r)(l \<mapsto> fresh_clu l) else overlay r)"
proof -
  obtain r1 where r1: "clu_ready r = Some r1" "clu_inv r1" "clu_count (r_clu r1) * 2 < length (r_clu r1)" "overlay r1 = overlay r" "same_rest r r1"
    using clu_ready_spec [OF assms] by blast
  have wf: "clu_wf (r_clu r1)" "1024 \<le> length (r_clu r1)" "r_clu_used r1 = clu_count (r_clu r1)" using r1(2,3) by (auto simp: clu_inv_def)
  obtain i where i: "clu_probe (r_clu r1) l (clu_hash l (length (r_clu r1) - 1)) = Some i" "i < length (r_clu r1)"
    "placed (r_clu r1) l i" "r_clu r1 ! i = clu_map (r_clu r1) l" using clu_probe_spec [OF wf(1), of l] r1(3) by auto
  show ?thesis
  proof (cases "overlay r l")
    case (Some c)
    then have "r_clu r1 ! i = Some c" using i(4) r1(4) by (metis overlay_def)
    then have "ovl_clu_create r l = Some (r1, i)" using r1(1) i(1) by (simp add: ovl_clu_create_def)
    with r1(2,4,5) i(2,3) Some \<open>r_clu r1 ! i = Some c\<close> show ?thesis by simp
  next
    case None
    let ?c = "fresh_clu l"
    let ?t = "(r_clu r1)[i := Some ?c]"
    have ni: "r_clu r1 ! i = None" using None r1(4) i(4) by (metis overlay_def)
    have c: "placed (r_clu r1) (oc_lcn ?c) i" "\<not> other_key (oc_lcn ?c) (r_clu r1 ! i)" using i(3) ni by (simp_all add: fresh_clu_def)
    note up = clu_wf_update [OF wf(1) i(2) c]
    obtain k where "length (r_clu r1) = 2 ^ k" using wf(1) by (auto simp: clu_wf_def)
    moreover from this wf(2) have "k \<noteq> 0" by (metis One_nat_def one_le_numeral power_0 not_less numeral_le_one_iff semiring_norm(69) le_numeral_extra(4))
    ultimately have "even (length (r_clu r1))" by simp
    with r1(3) have u: "(clu_count (r_clu r1) + 1) * 2 \<le> length (r_clu r1)" by presburger
    let ?r = "r1\<lparr>r_clu := ?t, r_clu_used := r_clu_used r1 + 1\<rparr>"
    have e: "ovl_clu_create r l = Some (?r, i)"
      using r1(1) i(1) ni by (simp add: ovl_clu_create_def fresh_clu_def)
    have inv: "clu_inv ?r" using up(1) wf u used_update [OF i(2), of ?c] ni by (simp add: clu_inv_def)
    have "placed ?t l i" using clu_wfD(2) [OF up(1), of i ?c] i(2) by (simp add: fresh_clu_def)
    moreover have "overlay ?r = (overlay r)(l \<mapsto> ?c)" using up(2) r1(4) by (simp add: overlay_def fun_eq_iff fresh_clu_def)
    ultimately show ?thesis using e inv i(2) None same_rest_trans [OF r1(5) same_rest_update(1)] by auto
  qed
qed

lemma clu_lookup_spec:
  assumes "clu_inv r"
  shows "ovl_clu_lookup r l = Some (overlay r l)"
proof (cases "r_clu r = []")
  case False
  then have "clu_wf (r_clu r)" "clu_count (r_clu r) < length (r_clu r)" using assms by (auto simp: clu_inv_def)
  from clu_probe_spec [OF this, of l] False show ?thesis by (auto simp: ovl_clu_lookup_def overlay_def)
qed (simp add: ovl_clu_lookup_def overlay_def)

text \<open>Storing into the slot of a key.\<close>

lemma clu_store_spec:
  assumes "clu_inv r" "i < length (r_clu r)" "placed (r_clu r) (oc_lcn c) i" "r_clu r ! i = Some c'" "oc_lcn c' = oc_lcn c"
  shows "clu_inv (r\<lparr>r_clu := (r_clu r)[i := Some c]\<rparr>)"
    and "overlay (r\<lparr>r_clu := (r_clu r)[i := Some c]\<rparr>) = (overlay r)(oc_lcn c \<mapsto> c)"
    and "placed ((r_clu r)[i := Some c]) (oc_lcn c) i"
proof -
  have wf: "clu_wf (r_clu r)" using assms(1,2) by (auto simp: clu_inv_def)
  have "\<not> other_key (oc_lcn c) (r_clu r ! i)" using assms(4,5) by simp
  note up = clu_wf_update [OF wf assms(2,3) this]
  show "clu_inv (r\<lparr>r_clu := (r_clu r)[i := Some c]\<rparr>)"
    using assms(1,2,4) up(1) used_update [OF assms(2), of c] by (auto simp: clu_inv_def)
  show "overlay (r\<lparr>r_clu := (r_clu r)[i := Some c]\<rparr>) = (overlay r)(oc_lcn c \<mapsto> c)"
    using up(2) by (simp add: overlay_def fun_eq_iff)
  show "placed ((r_clu r)[i := Some c]) (oc_lcn c) i" using clu_wfD(2) [OF up(1), of i c] assms(2) by simp
qed

section \<open>The overlay as an interface\<close>

text \<open>
  What the passes rely on when they read and write clusters: a cache that shows the volume's
  clusters except where something has been stored.  \<open>fetch\<close> makes a cluster available in a slot
  without changing what any cluster reads as; \<open>store\<close> changes exactly the owner of the slot.
\<close>

locale cluster_cache =
  fixes inv :: "'s \<Rightarrow> bool" and content :: "'s \<Rightarrow> nat \<Rightarrow> int \<times> 'b" and dirty :: "'s \<Rightarrow> nat set"
    and owner :: "'s \<Rightarrow> 'i \<Rightarrow> nat \<Rightarrow> bool"
    and fetch :: "'s \<Rightarrow> nat \<Rightarrow> (int \<times> 's \<times> 'i) option" and data :: "'s \<Rightarrow> 'i \<Rightarrow> 'b option"
    and store :: "'s \<Rightarrow> 'i \<Rightarrow> 'b \<Rightarrow> 's option"
  assumes fetch_law: "inv s \<Longrightarrow> \<exists>err s' i. fetch s l = Some (err, s', i) \<and> inv s' \<and> content s' = content s \<and> dirty s' = dirty s \<and>
      (if fst (content s l) = 0 then err = 0 \<and> owner s' i l \<and> data s' i = Some (snd (content s l)) else err < 0)"
    and store_law: "inv s \<Longrightarrow> owner s i l \<Longrightarrow> \<exists>s'. store s i d = Some s' \<and> inv s' \<and>
      content s' = (content s)(l := (0, d)) \<and> dirty s' = insert l (dirty s)"
begin

text \<open>A read-modify-write of one cluster, and a sequence of them.\<close>

lemma update_one:
  assumes "inv s" "fst (content s l) = 0"
  shows "\<exists>s1 i s2. fetch s l = Some (0, s1, i) \<and> data s1 i = Some (snd (content s l)) \<and> store s1 i (f (snd (content s l))) = Some s2 \<and>
    inv s2 \<and> content s2 = (content s)(l := (0, f (snd (content s l)))) \<and> dirty s2 = insert l (dirty s)"
proof -
  obtain s1 i where s1: "fetch s l = Some (0, s1, i)" "inv s1" "content s1 = content s" "dirty s1 = dirty s" "owner s1 i l"
    "data s1 i = Some (snd (content s l))" using fetch_law [OF assms(1), of l] assms(2) by auto
  from store_law [OF s1(2,5), of "f (snd (content s l))"] s1 show ?thesis by auto
qed

end

definition clu_owner :: "replay \<Rightarrow> nat \<Rightarrow> nat \<Rightarrow> bool" where
  "clu_owner r i l \<longleftrightarrow> i < length (r_clu r) \<and> placed (r_clu r) l i \<and> r_clu r ! i \<noteq> None \<and> r_clu r ! i = overlay r l"

definition clu_data :: "replay \<Rightarrow> nat \<Rightarrow> buf option" where
  "clu_data r i = do { c \<leftarrow> r_clu r ! i; oc_data c }"

text \<open>The inline store of \<open>attr_io\<close> and of the redo and undo actions.\<close>

definition clu_store :: "replay \<Rightarrow> nat \<Rightarrow> buf \<Rightarrow> replay option" where
  "clu_store r i d = do {
     c \<leftarrow> r_clu r ! i;
     Some (r\<lparr>r_clu := (r_clu r)[i := Some (c\<lparr>oc_data := Some d, oc_dirty := True\<rparr>)]\<rparr>) }"

lemma overlay_lcn: "clu_inv r \<Longrightarrow> overlay r l = Some c \<Longrightarrow> oc_lcn c = l"
  using clu_map_Some by (auto simp: clu_inv_def overlay_def)

lemma get_cluster_law:
  assumes "clu_inv r"
  shows "\<exists>err r' i. ovl_get_cluster r l = Some (err, r', i) \<and> clu_inv r' \<and> clu_content r' = clu_content r \<and> clu_dirties r' = clu_dirties r \<and>
    same_rest r r' \<and> (if fst (clu_content r l) = 0 then err = 0 \<and> clu_owner r' i l \<and> clu_data r' i = Some (snd (clu_content r l)) else err < 0)"
proof -
  obtain r1 i where r1: "ovl_clu_create r l = Some (r1, i)" "clu_inv r1" "same_rest r r1" "i < length (r_clu r1)"
    "placed (r_clu r1) l i" "r_clu r1 ! i = overlay r1 l"
    "overlay r1 = (if overlay r l = None then (overlay r)(l \<mapsto> fresh_clu l) else overlay r)" using clu_create_spec [OF assms] by blast
  note rs = same_rest_simps [OF r1(3)]
  have ct: "clu_content r1 = clu_content r"
    using r1(7) rs(1) by (auto simp: clu_content_def fun_eq_iff entry_content_def fresh_clu_def split: option.splits)
  have di: "clu_dirties r1 = clu_dirties r"
    using r1(7) by (auto simp: clu_dirties_def fresh_clu_def split: if_splits)
  obtain c where c: "overlay r1 l = Some c" using r1(7) by (cases "overlay r l") auto
  have lc: "oc_lcn c = l" by (rule overlay_lcn [OF r1(2) c])
  have si: "r_clu r1 ! i = Some c" using r1(6) c by simp
  show ?thesis
  proof (cases "oc_data c")
    case (Some d)
    then have "clu_content r l = (0, d)" using c by (simp add: ct [symmetric] clu_content_def entry_content_def)
    then show ?thesis using r1(1-5) c si Some ct di
      by (simp add: ovl_get_cluster_def clu_owner_def clu_data_def)
  next
    case None
    then have v: "clu_content r l = r_read_clu r l" using c rs(1) by (simp add: ct [symmetric] clu_content_def entry_content_def)
    obtain err d where ed: "r_read_clu r1 l = (err, d)" by fastforce
    show ?thesis
    proof (cases "err = 0")
      case False
      then show ?thesis using r1(1-5) si None ed v rs(1) ct di by (simp add: ovl_get_cluster_def)
    next
      case True
      let ?c = "c\<lparr>oc_data := Some d\<rparr>"
      let ?r = "r1\<lparr>r_clu := (r_clu r1)[i := Some ?c]\<rparr>"
      have p: "placed (r_clu r1) (oc_lcn ?c) i" "oc_lcn c = oc_lcn ?c" using r1(5) lc by simp_all
      note st = clu_store_spec [OF r1(2,4) p(1) si p(2)]
      have g: "ovl_get_cluster r l = Some (0, ?r, i)" using r1(1) si None ed True by (simp add: ovl_get_cluster_def)
      have "clu_content ?r = clu_content r1"
        using st(2) lc c None ed True by (auto simp: clu_content_def fun_eq_iff entry_content_def)
      moreover have "clu_dirties ?r = clu_dirties r1" using st(2) lc c by (auto simp: clu_dirties_def split: if_splits)
      moreover have "clu_owner ?r i l" "clu_data ?r i = Some d"
        using st(2,3) lc r1(4) by (simp_all add: clu_owner_def clu_data_def)
      ultimately show ?thesis
        using g st(1) ct di v ed True rs(1) same_rest_trans [OF r1(3) same_rest_update(2)] by simp
    qed
  qed
qed

lemma clu_store_law:
  assumes "clu_inv r" "clu_owner r i l"
  shows "\<exists>r'. clu_store r i d = Some r' \<and> clu_inv r' \<and> clu_content r' = (clu_content r)(l := (0, d)) \<and>
    clu_dirties r' = insert l (clu_dirties r)"
proof -
  from assms(2) obtain c where c: "r_clu r ! i = Some c" "overlay r l = Some c" "i < length (r_clu r)" "placed (r_clu r) l i"
    unfolding clu_owner_def by (metis not_None_eq)
  let ?c = "c\<lparr>oc_data := Some d, oc_dirty := True\<rparr>"
  have lc: "oc_lcn c = l" by (rule overlay_lcn [OF assms(1) c(2)])
  have p: "placed (r_clu r) (oc_lcn ?c) i" "oc_lcn c = oc_lcn ?c" using c(4) lc by simp_all
  note st = clu_store_spec [OF assms(1) c(3) p(1) c(1) p(2)]
  let ?r = "r\<lparr>r_clu := (r_clu r)[i := Some ?c]\<rparr>"
  have "clu_content ?r = (clu_content r)(l := (0, d))"
    by (rule ext) (simp add: clu_content_def st(2) lc entry_content_def)
  moreover have "clu_dirties ?r = insert l (clu_dirties r)" using lc by (auto simp: clu_dirties_def st(2) split: if_splits)
  ultimately show ?thesis using c(1) st(1) by (simp add: clu_store_def)
qed

interpretation ovl: cluster_cache clu_inv clu_content clu_dirties clu_owner ovl_get_cluster clu_data clu_store
proof
  show "\<exists>err s' i. ovl_get_cluster s l = Some (err, s', i) \<and> clu_inv s' \<and> clu_content s' = clu_content s \<and> clu_dirties s' = clu_dirties s \<and>
      (if fst (clu_content s l) = 0 then err = 0 \<and> clu_owner s' i l \<and> clu_data s' i = Some (snd (clu_content s l)) else err < 0)"
    if "clu_inv s" for s l using get_cluster_law [OF that, of l] by blast
qed (rule clu_store_law)

text \<open>
  C19.  The cluster hash table of the overlay implements a map from cluster numbers to entries:
  a lookup returns exactly the entry of the key, entering a key (which may grow and rehash the
  table) adds an empty entry for a new key and changes no other, and the table stays well-formed
  and at most half full, so that the probe loop always ends.
\<close>

theorem clu_table_is_map:
  assumes "clu_inv r"
  shows "ovl_clu_lookup r l = Some (overlay r l) \<and>
    (\<exists>r' i. ovl_clu_create r l = Some (r', i) \<and> clu_inv r' \<and> r_clu r' ! i = overlay r' l \<and>
       overlay r' = (if overlay r l = None then (overlay r)(l \<mapsto> fresh_clu l) else overlay r))"
  using clu_lookup_spec [OF assms] clu_create_spec [OF assms, of l] by blast

definition empty_replay :: "lfs_log \<Rightarrow> nat \<Rightarrow> replay" where
  "empty_replay log cs = \<lparr>r_log = log, r_read_mft = \<lambda>_. (0, []), r_read_clu = \<lambda>l. (0, replicate cs (word_of_nat l)), r_cs = cs,
     r_rs = 1024, r_res = no_result, r_mft = [], r_cap_mft = 0, r_clu = [], r_clu_used = 0, r_oa = [],
     r_mftdata = no_open_attr, r_mft_loaded = False\<rparr>"

theorem clu_table_is_map_witness:
  "\<exists>r' i. ovl_clu_create (empty_replay undefined 512) 77 = Some (r', i) \<and> overlay r' 77 = Some (fresh_clu 77)"
proof -
  have "clu_inv (empty_replay undefined 512)" by (simp add: clu_inv_def empty_replay_def)
  moreover have "overlay (empty_replay undefined 512) = Map.empty" by (simp add: empty_replay_def overlay_def fun_eq_iff)
  ultimately show ?thesis using clu_table_is_map [of "empty_replay undefined 512" 77] by auto
qed

text \<open>
  C18.  A cluster read through the overlay is what was last stored into it, or what the volume
  holds: making a cluster available never changes what any cluster reads as nor which clusters
  are dirty, and a failed read of the volume is reported and leaves the overlay usable.
\<close>

theorem get_cluster_transparent:
  assumes "clu_inv r"
  shows "\<exists>err r' i. ovl_get_cluster r l = Some (err, r', i) \<and> clu_inv r' \<and> clu_content r' = clu_content r \<and>
    clu_dirties r' = clu_dirties r \<and>
    (if fst (clu_content r l) = 0 then err = 0 \<and> clu_data r' i = Some (snd (clu_content r l)) else err < 0)"
  using ovl.fetch_law [OF assms, of l] by (cases "fst (clu_content r l) = 0") auto

theorem get_cluster_transparent_witness:
  "\<exists>r' i. ovl_get_cluster (empty_replay undefined 512) 77 = Some (0, r', i) \<and> clu_data r' i = Some (replicate 512 77)"
proof -
  have "clu_inv (empty_replay undefined 512)" by (simp add: clu_inv_def empty_replay_def)
  from get_cluster_transparent [OF this, of 77] show ?thesis
    by (auto simp: empty_replay_def overlay_def clu_content_def entry_content_def)
qed

end
