(* ===== verification/Lfs_Checks.thy ===== *)
theory Lfs_Checks
  imports Lfs_Overlay
begin

text \<open>
  Validation of MFT records and index blocks, and the small in-place edits on them (the
  section "NTFS structure helpers" of core/logfile/logfile_replay.c).  A pointer \<open>attr\<close> into a
  record is its offset.  Loops whose position is advanced in wrapping 32-bit arithmetic are
  partial functions, so that a loop that never ends is \<open>None\<close>.
\<close>

section \<open>MFT records\<close>

definition mft_ref_no :: "buf \<Rightarrow> nat \<Rightarrow> nat option" where
  "mft_ref_no b p = do {
     lo \<leftarrow> lf_get32 b p;
     hi \<leftarrow> lf_get16 b (p + 4);
     Some (lo + hi * 2 ^ 32) }"

text \<open>
  The checks on one attribute at \<open>off\<close> in the loop of \<open>check_file_record\<close>; the value is the
  attribute's length, or nothing when a check fails.
\<close>

definition check_attr_at :: "nat \<Rightarrow> buf \<Rightarrow> nat \<Rightarrow> nat option option" where
  "check_attr_at rs rec off =
     (if u32 (off + AT_RESIDENT_SIZE) > rs then Some None
      else do {
        len \<leftarrow> lf_get32 rec (off + AT_LENGTH);
        if len < AT_RESIDENT_SIZE \<or> len AND 7 \<noteq> 0 \<or> u32 (off + len) > rs then Some None
        else do {
          nl \<leftarrow> get8 rec (off + AT_NAME_LENGTH);
          no \<leftarrow> lf_get16 rec (off + AT_NAME_OFFSET);
          nonres \<leftarrow> get8 rec (off + AT_NON_RESIDENT);
          if nl \<noteq> 0 \<and> no + nl * 2 > len then Some None
          else if nonres = 0 then do {
            vl \<leftarrow> lf_get32 rec (off + AT_VALUE_LENGTH);
            vo \<leftarrow> lf_get16 rec (off + AT_VALUE_OFFSET);
            Some (if vl \<ge> len \<or> u32 (vo + vl) > len then None else Some len) }
          else if nonres = 1 then
            (if len < AT_NONRESIDENT_SIZE then Some None
             else do {
               mpo \<leftarrow> lf_get16 rec (off + AT_MAPPING_PAIRS_OFFSET);
               if mpo > len then Some None
               else do {
                 lo \<leftarrow> lf_get64 rec (off + AT_LOWEST_VCN);
                 hi \<leftarrow> lf_get64 rec (off + AT_HIGHEST_VCN);
                 Some (if lo > u64 (hi + 1) then None else Some len) } })
          else Some None } })"

text \<open>The attribute walk: the offset of the end marker, or nothing when a check fails.\<close>

partial_function (option) check_attrs :: "nat \<Rightarrow> buf \<Rightarrow> nat \<Rightarrow> nat option option" where
  "check_attrs rs rec off =
     (if u32 (off + 4) > rs then Some None
      else Option.bind (lf_get32 rec (off + AT_TYPE)) (\<lambda>ty.
        if ty = ATTR_TYPE_END then Some (Some off)
        else Option.bind (check_attr_at rs rec off) (\<lambda>r. case r of
            None \<Rightarrow> Some None
          | Some len \<Rightarrow> check_attrs rs rec (u32 (off + len)))))"

definition check_file_record :: "nat \<Rightarrow> buf \<Rightarrow> bool option" where
  "check_file_record rs rec = do {
     fo \<leftarrow> lf_get16 rec MR_USA_OFS;
     fn \<leftarrow> lf_get16 rec MR_USA_COUNT;
     ao \<leftarrow> lf_get16 rec MR_ATTRS_OFFSET;
     used \<leftarrow> lf_get32 rec MR_BYTES_IN_USE;
     magic \<leftarrow> lf_get32 rec MR_MAGIC;
     flags \<leftarrow> lf_get16 rec MR_FLAGS;
     alloc \<leftarrow> lf_get32 rec MR_BYTES_ALLOCATED;
     if magic \<noteq> LFS_MAGIC_FILE then Some False
     else if fo > sub32 LFS_SECTOR_SIZE (u32 ((rs div 2 ^ LFS_SECTOR_SHIFT + 1) * 2)) \<or>
             u32 (sub32 fn 1 * LFS_SECTOR_SIZE) \<noteq> rs
     then Some False
     else if ao < MR_FIXUP_OFFSET_1 \<or> ao > sub32 rs AT_RESIDENT_SIZE \<or> ao AND 7 \<noteq> 0 then Some False
     else if flags AND MFT_RECORD_IN_USE = 0 then Some False
     else if alloc \<noteq> rs \<or> used > rs \<or> used < ao then Some False
     else do {
       e \<leftarrow> check_attrs rs rec ao;
       Some (case e of None \<Rightarrow> False | Some off \<Rightarrow> used \<ge> u32 (off + 4)) } }"

text \<open>Does \<open>ro\<close> lie on an attribute boundary of the record?\<close>

partial_function (option) attr_boundary :: "buf \<Rightarrow> nat \<Rightarrow> nat \<Rightarrow> nat \<Rightarrow> bool option" where
  "attr_boundary rec rs ro o1 =
     (if \<not> o1 < ro then Some (o1 = ro)
      else if u32 (o1 + 8) > rs then Some False
      else Option.bind (lf_get32 rec (o1 + AT_TYPE)) (\<lambda>ty.
        if ty = ATTR_TYPE_END then Some (o1 = ro)
        else Option.bind (lf_get32 rec (o1 + AT_LENGTH)) (\<lambda>asize.
          if asize = 0 then Some (o1 = ro)
          else attr_boundary rec rs ro (u32 (o1 + asize)))))"

definition check_if_attr :: "buf \<Rightarrow> nat \<Rightarrow> nat \<Rightarrow> bool option" where
  "check_if_attr rec rs ro = do {
     ao \<leftarrow> lf_get16 rec MR_ATTRS_OFFSET;
     attr_boundary rec rs ro ao }"

definition check_if_index_root :: "buf \<Rightarrow> nat \<Rightarrow> nat \<Rightarrow> bool option" where
  "check_if_index_root rec rs ro = do {
     ok \<leftarrow> check_if_attr rec rs ro;
     if \<not> ok \<or> \<not> ro + 8 \<le> rs then Some False
     else do {
       ty \<leftarrow> lf_get32 rec (ro + AT_TYPE);
       if ty \<noteq> ATTR_TYPE_INDEX_ROOT then Some False
       else do {
         nonres \<leftarrow> get8 rec (ro + AT_NON_RESIDENT);
         Some (nonres = 0) } } }"

section \<open>Indexes\<close>

text \<open>
  The entry walk of \<open>check_index_header\<close>; \<open>h\<close> is the offset of the index header.  The
  positions do not wrap: \<open>used\<close> was checked against the size of the block.  (\<open>min_de\<close> is at
  least 16, so the test for an entry of size 0 adds nothing.)
\<close>

function index_entries_ok :: "buf \<Rightarrow> nat \<Rightarrow> nat \<Rightarrow> nat \<Rightarrow> bool \<Rightarrow> nat \<Rightarrow> bool option" where
  "index_entries_ok b h used min_de sub o1 =
     (if o1 + IE_MIN_SIZE > used then Some False
      else do {
        esize \<leftarrow> lf_get16 b (h + o1 + IE_LENGTH);
        if esize < min_de \<or> o1 + esize > used \<or> esize = 0 then Some False
        else do {
          flags \<leftarrow> lf_get16 b (h + o1 + IE_FLAGS);
          if (flags AND INDEX_ENTRY_NODE \<noteq> 0) \<noteq> sub then Some False
          else if flags AND INDEX_ENTRY_END \<noteq> 0 then Some True
          else index_entries_ok b h used min_de sub (o1 + esize) } })"
  by pat_completeness auto
termination
  by (relation "measure (\<lambda>(b, h, used, min_de, sub, o1). used - o1)") auto

declare index_entries_ok.simps [simp del]

definition check_index_header :: "buf \<Rightarrow> nat \<Rightarrow> nat \<Rightarrow> bool option" where
  "check_index_header b h bytes = do {
     de_off \<leftarrow> lf_get32 b (h + IH_ENTRIES_OFFSET);
     used \<leftarrow> lf_get32 b (h + IH_INDEX_LENGTH);
     total \<leftarrow> lf_get32 b (h + IH_ALLOCATED_SIZE);
     flags \<leftarrow> lf_get32 b (h + IH_FLAGS);
     let sub = (flags AND INDEX_HDR_HAS_SUBNODES \<noteq> 0);
     let min_de = IE_MIN_SIZE + (if sub then 8 else 0);
     if bytes < IH_SIZE \<or> de_off > sub32 bytes min_de \<or> used > bytes \<or> total > bytes \<or>
        u32 (de_off + min_de) > used \<or> used > total
     then Some False
     else index_entries_ok b h used min_de sub de_off }"

definition check_index_buffer :: "buf \<Rightarrow> nat \<Rightarrow> nat \<Rightarrow> bool option" where
  "check_index_buffer b ib bytes = do {
     magic \<leftarrow> lf_get32 b ib;
     if magic \<noteq> LFS_MAGIC_INDX then Some False
     else do {
       fo \<leftarrow> lf_get16 b (ib + IB_USA_OFS);
       fn \<leftarrow> lf_get16 b (ib + IB_USA_COUNT);
       if fo > sub32 LFS_SECTOR_SIZE (u32 ((bytes div 2 ^ LFS_SECTOR_SHIFT + 1) * 2)) then Some False
       else if u32 (sub32 fn 1 * LFS_SECTOR_SIZE) \<noteq> bytes then Some False
       else check_index_header b (ib + IB_INDEX_HEADER) (sub32 bytes IB_INDEX_HEADER) } }"

text \<open>Is \<open>ao\<close> an entry boundary inside the index root at \<open>attr\<close>?\<close>

function root_boundary :: "buf \<Rightarrow> nat \<Rightarrow> nat \<Rightarrow> nat \<Rightarrow> nat \<Rightarrow> bool option" where
  "root_boundary b attr asize ao o1 =
     (if \<not> o1 < ao then Some (o1 = ao)
      else if o1 + IE_MIN_SIZE \<ge> asize then Some (o1 = ao)
      else do {
        esize \<leftarrow> lf_get16 b (attr + o1 + IE_LENGTH);
        if esize = 0 then Some (o1 = ao)
        else root_boundary b attr asize ao (o1 + esize) })"
  by pat_completeness auto
termination
  by (relation "measure (\<lambda>(b, attr, asize, ao, o1). ao - o1)") auto

declare root_boundary.simps [simp del]

definition check_if_root_index :: "buf \<Rightarrow> nat \<Rightarrow> nat \<Rightarrow> bool option" where
  "check_if_root_index b attr ao = do {
     asize \<leftarrow> lf_get32 b (attr + AT_LENGTH);
     vo \<leftarrow> lf_get16 b (attr + AT_VALUE_OFFSET);
     de_off \<leftarrow> lf_get32 b (attr + vo + IR_INDEX_HEADER + IH_ENTRIES_OFFSET);
     root_boundary b attr asize ao (u32 (vo + IR_INDEX_HEADER + de_off)) }"

function alloc_boundary :: "buf \<Rightarrow> nat \<Rightarrow> nat \<Rightarrow> nat \<Rightarrow> nat \<Rightarrow> nat \<Rightarrow> bool option" where
  "alloc_boundary b h used attr_off o1 de_off =
     (if \<not> o1 < attr_off then Some (o1 = attr_off)
      else if u32 (de_off + IE_MIN_SIZE) > used then Some (o1 = attr_off)
      else do {
        esize \<leftarrow> lf_get16 b (h + de_off + IE_LENGTH);
        if esize = 0 then Some (o1 = attr_off)
        else alloc_boundary b h used attr_off (o1 + esize) (u32 (de_off + esize)) })"
  by pat_completeness auto
termination
  by (relation "measure (\<lambda>(b, h, used, attr_off, o1, de_off). attr_off - o1)") auto

declare alloc_boundary.simps [simp del]

definition check_if_alloc_index :: "buf \<Rightarrow> nat \<Rightarrow> nat \<Rightarrow> bool option" where
  "check_if_alloc_index b ib attr_off = do {
     let h = ib + IB_INDEX_HEADER;
     de_off \<leftarrow> lf_get32 b (h + IH_ENTRIES_OFFSET);
     used \<leftarrow> lf_get32 b (h + IH_INDEX_LENGTH);
     alloc_boundary b h used attr_off (u32 (IB_INDEX_HEADER + de_off)) de_off }"

section \<open>Edits\<close>

definition change_attr_size :: "buf \<Rightarrow> nat \<Rightarrow> nat \<Rightarrow> buf option" where
  "change_attr_size rec attr nsize = do {
     asize \<leftarrow> lf_get32 rec (attr + AT_LENGTH);
     used \<leftarrow> lf_get32 rec MR_BYTES_IN_USE;
     let next_off = u32 (attr + asize);
     rec \<leftarrow> memmove rec (attr + nsize) (attr + asize) (sub32 used next_off);
     rec \<leftarrow> lf_put32 rec MR_BYTES_IN_USE (sub32 (u32 (used + nsize)) asize);
     lf_put32 rec (attr + AT_LENGTH) nsize }"

text \<open>Setting or clearing \<open>nbits\<close> bits of the bitmap at \<open>bm\<close>, from bit \<open>bt\<close> on.\<close>

primrec bitmap_op :: "nat \<Rightarrow> buf \<Rightarrow> nat \<Rightarrow> nat \<Rightarrow> bool \<Rightarrow> buf option" where
  "bitmap_op 0 b bm bt on = Some b"
| "bitmap_op (Suc nbits) b bm bt on = do {
     v \<leftarrow> get8 b (bm + bt div 8);
     b \<leftarrow> put8 b (bm + bt div 8)
           (if on then v OR 2 ^ (bt AND 7) else v AND (255 - 2 ^ (bt AND 7)));
     bitmap_op nbits b bm (bt + 1) on }"

end
