(* ===== verification/Lfs_Runs.thy ===== *)
theory Lfs_Runs
  imports Lfs_Checks Lfs_Checkpoint
begin

text \<open>
  Run lists and open attributes (core/logfile/logfile_replay.c): decoding mapping pairs, mapping
  a VCN to an LCN, reading and writing an attribute through the overlay, and resolving an open
  attribute of the log to its runs through the base record and $ATTRIBUTE_LIST.
\<close>

section \<open>Run lists\<close>

text \<open>
  The loop of \<open>decode_mapping_pairs\<close>; the runs are appended to \<open>acc\<close>.  Two of its computations
  can be undefined in C and then give \<open>None\<close>: a shift by 64 bits or more (\<open>shl64\<close>), and a sum
  that overflows the signed 64-bit LCN.  The value of the offset bytes is gathered byte by byte in
  a 64-bit word (\<open>or_bytes\<close>) and, when the top bit of the last byte is set, extended with
  the word \<open>- (1 << (8 * os))\<close>.
\<close>

definition shl64 :: "64 word \<Rightarrow> nat \<Rightarrow> 64 word option" where
  "shl64 x n = (if n < 64 then Some (push_bit n x) else None)"

fun or_bytes :: "buf \<Rightarrow> nat \<Rightarrow> nat \<Rightarrow> nat \<Rightarrow> 64 word \<Rightarrow> 64 word option" where
  "or_bytes mp i 0 k delta = Some delta"
| "or_bytes mp i (Suc n) k delta = do {
     b \<leftarrow> get8 mp (i + k);
     s \<leftarrow> shl64 (word_of_nat b) (8 * k);
     or_bytes mp i n (k + 1) (delta OR s) }"

definition sign_extend :: "buf \<Rightarrow> nat \<Rightarrow> nat \<Rightarrow> int option" where
  "sign_extend mp i os = do {
     delta \<leftarrow> or_bytes mp i os 0 0;
     top \<leftarrow> get8 mp (i + os - 1);
     if top AND 0x80 \<noteq> 0 then do {
       m \<leftarrow> shl64 1 (8 * os);
       Some (sint (delta OR - m)) }
     else Some (sint delta) }"

function decode_loop :: "buf \<Rightarrow> nat \<Rightarrow> nat \<Rightarrow> nat \<Rightarrow> int \<Rightarrow> run list \<Rightarrow> (int \<times> run list) option" where
  "decode_loop mp mp_len i vcn lcn acc =
     (if \<not> i < mp_len then Some (0, acc)
      else do {
        hdr \<leftarrow> get8 mp i;
        let ls = hdr AND 15;
        let os = hdr div 16;
        if hdr = 0 then Some (0, acc)
        else if ls = 0 \<or> ls > 8 \<or> os > 8 \<or> i + 1 + ls + os > mp_len then Some (- EINVAL, acc)
        else do {
          len \<leftarrow> get_le ls mp (i + 1);
          if len = 0 then Some (- EINVAL, acc)
          else if os = 0 then
            decode_loop mp mp_len (i + 1 + ls) (u64 (vcn + len)) lcn
              (acc @ [\<lparr>run_vcn = vcn, run_lcn = SPARSE_LCN, run_len = len\<rparr>])
          else do {
            delta \<leftarrow> sign_extend mp (i + 1 + ls) os;
            if lcn + delta \<ge> 2 ^ 63 then None
            else if lcn + delta < 0 then Some (- EINVAL, acc)
            else decode_loop mp mp_len (i + 1 + ls + os) (u64 (vcn + len)) (lcn + delta)
                   (acc @ [\<lparr>run_vcn = vcn, run_lcn = nat (lcn + delta), run_len = len\<rparr>]) } } })"
  by pat_completeness auto
termination
  by (relation "measure (\<lambda>(mp, mp_len, i, vcn, lcn, acc). mp_len - i)") auto

declare decode_loop.simps [simp del]

definition decode_mapping_pairs :: "open_attr \<Rightarrow> buf \<Rightarrow> nat \<Rightarrow> nat \<Rightarrow> (int \<times> open_attr) option" where
  "decode_mapping_pairs oa mp mp_len svcn = do {
     (err, runs) \<leftarrow> decode_loop mp mp_len 0 svcn 0 (oa_runs oa);
     Some (err, oa\<lparr>oa_runs := runs\<rparr>) }"

definition run_covers :: "nat \<Rightarrow> run \<Rightarrow> bool" where
  "run_covers vcn rl \<longleftrightarrow> vcn \<ge> run_vcn rl \<and> vcn < u64 (run_vcn rl + run_len rl)"

definition run_lookup_mapped :: "open_attr \<Rightarrow> nat \<Rightarrow> nat option" where
  "run_lookup_mapped oa vcn =
     map_option (\<lambda>rl. if run_lcn rl = SPARSE_LCN then SPARSE_LCN
                      else u64 (run_lcn rl + (vcn - run_vcn rl)))
       (find (run_covers vcn) (oa_runs oa))"

definition run_lookup :: "open_attr \<Rightarrow> nat \<Rightarrow> nat option" where
  "run_lookup oa vcn = (case find (\<lambda>o1. run_vcn o1 = vcn) (oa_ovr oa) of
     Some o1 \<Rightarrow> Some (run_lcn o1)
   | None \<Rightarrow> run_lookup_mapped oa vcn)"

definition oa_is_mft_data :: "open_attr \<Rightarrow> bool" where
  "oa_is_mft_data oa \<longleftrightarrow> oa_mft_no oa = 0 \<and> oa_type oa = ATTR_TYPE_DATA \<and> oa_name_len oa = 0"

fun set_override :: "run list \<Rightarrow> nat \<Rightarrow> nat \<Rightarrow> run list" where
  "set_override [] vcn lcn = [\<lparr>run_vcn = vcn, run_lcn = lcn, run_len = 1\<rparr>]"
| "set_override (o1 # os) vcn lcn =
     (if run_vcn o1 = vcn then o1\<lparr>run_lcn := lcn\<rparr> # os else o1 # set_override os vcn lcn)"

definition run_override :: "open_attr \<Rightarrow> nat \<Rightarrow> nat \<Rightarrow> open_attr" where
  "run_override oa vcn lcn = oa\<lparr>oa_ovr := set_override (oa_ovr oa) vcn lcn\<rparr>"

section \<open>Attribute I/O\<close>

text \<open>
  \<open>attr_io r oa vbo buf pos bytes write first\<close> transfers \<open>bytes\<close> bytes between the attribute
  at \<open>vbo\<close> and \<open>buf\<close> at \<open>pos\<close>: return code, state, buffer and \<open>*first_lcn\<close>.
\<close>

function attr_io :: "replay \<Rightarrow> open_attr \<Rightarrow> nat \<Rightarrow> buf \<Rightarrow> nat \<Rightarrow> nat \<Rightarrow> bool \<Rightarrow> nat \<Rightarrow>
    (int \<times> replay \<times> buf \<times> nat) option" where
  "attr_io r oa vbo b pos bytes wr first =
     (if bytes = 0 then Some (0, r, b, first)
      else if r_cs r = 0 then None
      else (
        let cs = r_cs r; off = vbo mod cs; n = min (cs - off) bytes in
        case run_lookup oa (vbo div cs) of
          None \<Rightarrow> Some (- EINVAL, r, b, first)
        | Some lcn \<Rightarrow>
            if lcn = SPARSE_LCN then Some (- EINVAL, r, b, first)
            else (
              let first = (if first = SPARSE_LCN then lcn else first) in do {
                (err, r, i) \<leftarrow> ovl_get_cluster r lcn;
                if err \<noteq> 0 then Some (err, r, b, first)
                else do {
                  c \<leftarrow> r_clu r ! i;
                  d \<leftarrow> oc_data c;
                  if wr then do {
                    part \<leftarrow> slice b pos n;
                    d \<leftarrow> blit d off part;
                    attr_io (r\<lparr>r_clu := (r_clu r)[i := Some (c\<lparr>oc_data := Some d, oc_dirty := True\<rparr>)]\<rparr>)
                      oa (u64 (vbo + n)) b (pos + n) (bytes - n) wr first }
                  else do {
                    part \<leftarrow> slice d off n;
                    b \<leftarrow> blit b pos part;
                    attr_io r oa (u64 (vbo + n)) b (pos + n) (bytes - n) wr first } } })))"
  by pat_completeness auto
termination
  by (relation "measure (\<lambda>(r, oa, vbo, b, pos, bytes, wr, first). bytes)") (auto simp: min_def)

declare attr_io.simps [simp del]

section \<open>Open attributes\<close>

definition oa_entry :: "replay \<Rightarrow> nat \<Rightarrow> nat option option" where
  "oa_entry r off = do {
     ok \<leftarrow> lfs_table_entry_ok (oatbl (r_log r)) off;
     Some (if ok then Some off else None) }"

definition oa_slot :: "replay \<Rightarrow> nat \<Rightarrow> nat option option" where
  "oa_slot r off = (case oatbl (r_log r) of None \<Rightarrow> Some None | Some t \<Rightarrow>
     if off < RT_HEADER_SIZE then Some None
     else do {
       esize \<leftarrow> lfs_table_esize t;
       if esize = 0 then None
       else (let idx = (off - RT_HEADER_SIZE) div esize
             in Some (if idx \<ge> length (r_oa r) then None else Some idx)) })"

definition attr_matches :: "buf \<Rightarrow> nat \<Rightarrow> nat \<Rightarrow> buf \<Rightarrow> nat \<Rightarrow> bool option" where
  "attr_matches rec attr ty name name_len = do {
     t \<leftarrow> lf_get32 rec (attr + AT_TYPE);
     nl \<leftarrow> get8 rec (attr + AT_NAME_LENGTH);
     if t \<noteq> ty \<or> nl \<noteq> name_len then Some False
     else if name_len = 0 then Some True
     else do {
       no \<leftarrow> lf_get16 rec (attr + AT_NAME_OFFSET);
       x \<leftarrow> slice rec (attr + no) (name_len * 2);
       y \<leftarrow> slice name 0 (name_len * 2);
       Some (x = y) } }"

definition oa_load_extent :: "open_attr \<Rightarrow> buf \<Rightarrow> nat \<Rightarrow> (int \<times> open_attr) option" where
  "oa_load_extent oa rec attr = do {
     alen \<leftarrow> lf_get32 rec (attr + AT_LENGTH);
     nonres \<leftarrow> get8 rec (attr + AT_NON_RESIDENT);
     if nonres = 0 then do {
       vl \<leftarrow> lf_get32 rec (attr + AT_VALUE_LENGTH);
       Some (0, oa\<lparr>oa_resident := True, oa_data_size := vl\<rparr>) }
     else do {
       mpo \<leftarrow> lf_get16 rec (attr + AT_MAPPING_PAIRS_OFFSET);
       if mpo \<ge> alen then Some (- EINVAL, oa)
       else do {
         lowest \<leftarrow> lf_get64 rec (attr + AT_LOWEST_VCN);
         oa \<leftarrow> (if lowest = 0 then do {
                 asz \<leftarrow> lf_get64 rec (attr + AT_ALLOCATED_SIZE);
                 dsz \<leftarrow> lf_get64 rec (attr + AT_DATA_SIZE);
                 Some (oa\<lparr>oa_alloc_size := asz, oa_data_size := dsz\<rparr>) }
               else Some oa);
         decode_mapping_pairs oa (drop (attr + mpo) rec) (alen - mpo) lowest } } }"

definition read_attr_value :: "replay \<Rightarrow> buf \<Rightarrow> nat \<Rightarrow> (int \<times> replay \<times> buf) option" where
  "read_attr_value r rec attr = do {
     nonres \<leftarrow> get8 rec (attr + AT_NON_RESIDENT);
     if nonres = 0 then do {
       len \<leftarrow> lf_get32 rec (attr + AT_VALUE_LENGTH);
       vo \<leftarrow> lf_get16 rec (attr + AT_VALUE_OFFSET);
       v \<leftarrow> slice rec (attr + vo) len;
       Some (0, r, v) }
     else do {
       (err, tmp) \<leftarrow> oa_load_extent no_open_attr rec attr;
       if err \<noteq> 0 then Some (err, r, [])
       else do {
         let len = u32 (oa_data_size tmp);
         (err, r, v, _) \<leftarrow> attr_io r tmp 0 (replicate len 0) 0 len False SPARSE_LCN;
         Some (err, r, v) } } }"

text \<open>The name from the attribute names: the last matching entry that fits the name buffer.\<close>

function oa_find_name :: "buf \<Rightarrow> nat \<Rightarrow> nat \<Rightarrow> open_attr \<Rightarrow> open_attr option" where
  "oa_find_name names off p oa =
     (if p + AN_NAME \<le> length names then do {
        eo \<leftarrow> lf_get16 names (p + AN_OFFSET);
        nb \<leftarrow> lf_get16 names (p + AN_NAME_BYTES);
        if eo = 0 \<or> p + AN_NAME + nb > length names then Some oa
        else do {
          oa \<leftarrow> (if eo = off \<and> nb \<le> 510 then do {
                  nm \<leftarrow> slice names (p + AN_NAME) nb;
                  nm \<leftarrow> blit (oa_name oa) 0 nm;
                  Some (oa\<lparr>oa_name_len := nb div 2, oa_name := nm\<rparr>) }
                else Some oa);
          oa_find_name names off (p + AN_NAME + nb) oa } }
      else Some oa)"
  by pat_completeness auto
termination
  by (relation "measure (\<lambda>(names, off, p, oa). length names - p)") auto

declare oa_find_name.simps [simp del]

definition oa_fields :: "('a) lfs_log_scheme \<Rightarrow> buf \<Rightarrow> nat \<Rightarrow> open_attr \<Rightarrow> open_attr option" where
  "oa_fields log t off oa = do {
     let v1 = (crst_major log \<noteq> 0);
     ty \<leftarrow> lf_get32 t (off + (if v1 then OA1_TYPE else OA0_TYPE));
     bpi \<leftarrow> lf_get32 t (off + (if v1 then OA1_BYTES_PER_INDEX else OA0_BYTES_PER_INDEX));
     no \<leftarrow> mft_ref_no t (off + (if v1 then OA1_FILE_REF else OA0_FILE_REF));
     let oa = oa\<lparr>oa_loaded := True, oa_type := ty, oa_bytes_per_index := bpi, oa_mft_no := no\<rparr>;
     (case attr_names log of None \<Rightarrow> Some oa | Some names \<Rightarrow> oa_find_name names off 0 oa) }"

text \<open>The attributes of the base record: load the matching ones, remember $ATTRIBUTE_LIST.\<close>

partial_function (option) oa_scan_base ::
    "buf \<Rightarrow> nat \<Rightarrow> open_attr \<Rightarrow> nat option \<Rightarrow> (int \<times> open_attr \<times> nat option) option" where
  "oa_scan_base rec o1 oa al =
     Option.bind (lf_get32 rec (o1 + AT_TYPE)) (\<lambda>ty.
       if ty = ATTR_TYPE_END then Some (0, oa, al)
       else (
         let al = (if ty = ATTR_TYPE_ATTRIBUTE_LIST then Some o1 else al) in
         Option.bind (attr_matches rec o1 (oa_type oa) (oa_name oa) (oa_name_len oa)) (\<lambda>hit.
           Option.bind (if hit then oa_load_extent oa rec o1 else Some (0, oa)) (\<lambda>x. case x of (err, oa) \<Rightarrow>
             if err \<noteq> 0 then Some (err, oa, al)
             else Option.bind (lf_get32 rec (o1 + AT_LENGTH)) (\<lambda>len.
               oa_scan_base rec (u32 (o1 + len)) oa al)))))"

text \<open>The attributes of an extent record that continue the attribute at \<open>lvcn\<close>.\<close>

definition extent_matches :: "buf \<Rightarrow> nat \<Rightarrow> open_attr \<Rightarrow> nat \<Rightarrow> bool option" where
  "extent_matches rec o1 oa lvcn = do {
     hit \<leftarrow> attr_matches rec o1 (oa_type oa) (oa_name oa) (oa_name_len oa);
     if \<not> hit then Some False
     else do {
       nonres \<leftarrow> get8 rec (o1 + AT_NON_RESIDENT);
       if nonres = 0 then Some False
       else do {
         lowest \<leftarrow> lf_get64 rec (o1 + AT_LOWEST_VCN);
         Some (lowest = lvcn) } } }"

partial_function (option) oa_scan_extent :: "buf \<Rightarrow> nat \<Rightarrow> open_attr \<Rightarrow> nat \<Rightarrow> (int \<times> open_attr) option" where
  "oa_scan_extent rec o1 oa lvcn =
     Option.bind (lf_get32 rec (o1 + AT_TYPE)) (\<lambda>ty.
       if ty = ATTR_TYPE_END then Some (0, oa)
       else Option.bind (extent_matches rec o1 oa lvcn) (\<lambda>hit.
         Option.bind (if hit then oa_load_extent oa rec o1 else Some (0, oa)) (\<lambda>x. case x of (err, oa) \<Rightarrow>
           if err \<noteq> 0 then Some (err, oa)
           else Option.bind (lf_get32 rec (o1 + AT_LENGTH)) (\<lambda>len.
             oa_scan_extent rec (u32 (o1 + len)) oa lvcn))))"

text \<open>A usable record of the overlay: not bad and structurally valid.\<close>

definition usable_mft :: "replay \<Rightarrow> nat \<Rightarrow> bool option" where
  "usable_mft r i = (if om_bad (r_mft r ! i) then Some False
                     else check_file_record (r_rs r) (om_rec (r_mft r ! i)))"

text \<open>Does the $ATTRIBUTE_LIST entry at \<open>p\<close> name an extent of \<open>oa\<close> in another record?\<close>

definition al_matches :: "buf \<Rightarrow> nat \<Rightarrow> open_attr \<Rightarrow> nat \<Rightarrow> bool option" where
  "al_matches al p oa ref_no = do {
     ty \<leftarrow> lf_get32 al (p + AL_TYPE);
     nl \<leftarrow> get8 al (p + AL_NAME_LENGTH);
     if ty \<noteq> oa_type oa \<or> nl \<noteq> oa_name_len oa then Some False
     else if oa_name_len oa = 0 then Some (ref_no \<noteq> oa_mft_no oa)
     else do {
       no \<leftarrow> get8 al (p + AL_NAME_OFFSET);
       x \<leftarrow> slice al (p + no) (oa_name_len oa * 2);
       y \<leftarrow> slice (oa_name oa) 0 (oa_name_len oa * 2);
       Some (x = y \<and> ref_no \<noteq> oa_mft_no oa) } }"

definition al_extent :: "replay \<Rightarrow> open_attr \<Rightarrow> nat \<Rightarrow> nat \<Rightarrow> (int \<times> replay \<times> open_attr) option" where
  "al_extent r oa ref_no lvcn = do {
     let oa = oa\<lparr>oa_in_extent := True\<rparr>;
     (err, r, i) \<leftarrow> ovl_get_mft r ref_no False;
     ok \<leftarrow> (if err \<noteq> 0 then Some False else usable_mft r i);
     if \<not> ok then Some (- EINVAL, r, oa)
     else do {
       let rec = om_rec (r_mft r ! i);
       ao \<leftarrow> lf_get16 rec MR_ATTRS_OFFSET;
       (err, oa) \<leftarrow> oa_scan_extent rec ao oa lvcn;
       Some (err, r, oa) } }"

function al_loop :: "replay \<Rightarrow> open_attr \<Rightarrow> buf \<Rightarrow> nat \<Rightarrow> (int \<times> replay \<times> open_attr) option" where
  "al_loop r oa al p =
     (if p + AL_NAME \<le> length al then do {
        elen \<leftarrow> lf_get16 al (p + AL_LENGTH);
        if elen < AL_NAME \<or> p + elen > length al then Some (0, r, oa)
        else do {
          ref_no \<leftarrow> mft_ref_no al (p + AL_MFT_REFERENCE);
          hit \<leftarrow> al_matches al p oa ref_no;
          (err, r, oa) \<leftarrow> (if hit then do {
              lvcn \<leftarrow> lf_get64 al (p + AL_LOWEST_VCN);
              al_extent r oa ref_no lvcn }
            else Some (0, r, oa));
          if err \<noteq> 0 then Some (err, r, oa) else al_loop r oa al (p + elen) } }
      else Some (0, r, oa))"
  by pat_completeness auto
termination
  by (relation "measure (\<lambda>(r, oa, al, p). length al - p)") auto

declare al_loop.simps [simp del]

text \<open>Collecting the runs of \<open>oa\<close>; on an error the caller marks the attribute failed.\<close>

definition oa_resolve :: "replay \<Rightarrow> open_attr \<Rightarrow> (int \<times> replay \<times> open_attr) option" where
  "oa_resolve r oa = do {
     (err, r, i) \<leftarrow> ovl_get_mft r (oa_mft_no oa) False;
     if err \<noteq> 0 then Some (err, r, oa)
     else do {
       ok \<leftarrow> usable_mft r i;
       if \<not> ok then Some (- EINVAL, r, oa)
       else do {
         let rec = om_rec (r_mft r ! i);
         ao \<leftarrow> lf_get16 rec MR_ATTRS_OFFSET;
         (err, oa, al) \<leftarrow> oa_scan_base rec ao oa None;
         if err \<noteq> 0 then Some (err, r, oa)
         else (case al of None \<Rightarrow> Some (0, r, oa)
           | Some attr \<Rightarrow> do {
               (err, r, v) \<leftarrow> read_attr_value r rec attr;
               if err \<noteq> 0 then Some (err, r, oa) else al_loop r oa v 0 }) } } }"

text \<open>\<open>oa_load\<close>: return code, state and the slot of the open attribute.\<close>

definition oa_load :: "replay \<Rightarrow> nat \<Rightarrow> (int \<times> replay \<times> nat) option" where
  "oa_load r off = do {
     slot \<leftarrow> oa_slot r off;
     oe \<leftarrow> oa_entry r off;
     (case slot of None \<Rightarrow> Some (- EINVAL, r, 0)
      | Some idx \<Rightarrow>
          if oe = None then Some (- EINVAL, r, 0)
          else if oa_loaded (r_oa r ! idx) then
            Some (if oa_failed (r_oa r ! idx) then - EINVAL else 0, r, idx)
          else do {
            t \<leftarrow> oatbl (r_log r);
            oa \<leftarrow> oa_fields (r_log r) t off (r_oa r ! idx);
            (err, r, oa) \<leftarrow> oa_resolve r oa;
            let oa = (if err \<noteq> 0 then oa\<lparr>oa_failed := True\<rparr> else oa);
            Some (if oa_failed oa \<and> err = 0 then - EINVAL else err, r\<lparr>r_oa := (r_oa r)[idx := oa]\<rparr>, idx) }) }"

definition oa_reset :: "nat \<Rightarrow> open_attr \<Rightarrow> open_attr" where
  "oa_reset mft_no oa =
     (if oa_loaded oa \<and> (oa_mft_no oa = mft_no \<or> oa_in_extent oa)
      then oa\<lparr>oa_runs := [], oa_loaded := False, oa_failed := False, oa_resident := False,
              oa_alloc_size := 0, oa_data_size := 0\<rparr>
      else oa)"

definition oa_invalidate_mft :: "replay \<Rightarrow> nat \<Rightarrow> replay" where
  "oa_invalidate_mft r mft_no = (
     let r = r\<lparr>r_oa := map (oa_reset mft_no) (r_oa r)\<rparr>
     in if r_mft_loaded r \<and> mft_no = 0 then r\<lparr>r_mftdata := no_open_attr, r_mft_loaded := False\<rparr> else r)"

text \<open>The first unnamed non-resident $DATA attribute of a record.\<close>

partial_function (option) find_data_attr :: "buf \<Rightarrow> nat \<Rightarrow> nat option option" where
  "find_data_attr rec o1 =
     Option.bind (lf_get32 rec (o1 + AT_TYPE)) (\<lambda>ty.
       if ty = ATTR_TYPE_END then Some None
       else Option.bind (get8 rec (o1 + AT_NAME_LENGTH)) (\<lambda>nl.
         Option.bind (get8 rec (o1 + AT_NON_RESIDENT)) (\<lambda>nonres.
           if ty = ATTR_TYPE_DATA \<and> nl = 0 \<and> nonres \<noteq> 0 then Some (Some o1)
           else Option.bind (lf_get32 rec (o1 + AT_LENGTH)) (\<lambda>len.
             find_data_attr rec (u32 (o1 + len))))))"

definition mft_runs_load :: "replay \<Rightarrow> (int \<times> replay) option" where
  "mft_runs_load r =
     (if r_mft_loaded r then Some (0, r)
      else do {
        (err, r, i) \<leftarrow> ovl_get_mft r 0 False;
        if err \<noteq> 0 then Some (err, r)
        else do {
          ok \<leftarrow> usable_mft r i;
          if \<not> ok then Some (- EINVAL, r)
          else do {
            let rec = om_rec (r_mft r ! i);
            ao \<leftarrow> lf_get16 rec MR_ATTRS_OFFSET;
            a \<leftarrow> find_data_attr rec ao;
            (err, md) \<leftarrow> (case a of None \<Rightarrow> Some (0, no_open_attr)
                         | Some attr \<Rightarrow> oa_load_extent no_open_attr rec attr);
            let r = r\<lparr>r_mftdata := md\<rparr>;
            if err \<noteq> 0 \<or> oa_runs md = [] then Some (- EINVAL, r)
            else Some (0, r\<lparr>r_mft_loaded := True\<rparr>) } } })"

section \<open>What attribute I/O does\<close>

text \<open>
  \<open>attr_at oa cs p\<close> is the place of byte \<open>p\<close> of an attribute: cluster and offset.  \<open>io_ready\<close>:
  every byte of the range is mapped to a cluster that can be read, and no two clusters of the
  range coincide.
\<close>

definition attr_at :: "open_attr \<Rightarrow> nat \<Rightarrow> nat \<Rightarrow> nat option \<times> nat" where
  "attr_at oa cs p = (run_lookup oa (p div cs), p mod cs)"

definition byte_at :: "replay \<Rightarrow> nat option \<times> nat \<Rightarrow> byte" where
  "byte_at r x = snd (clu_content r (the (fst x))) ! snd x"

definition io_ready :: "replay \<Rightarrow> open_attr \<Rightarrow> nat \<Rightarrow> nat \<Rightarrow> bool" where
  "io_ready r oa vbo n \<longleftrightarrow> 0 < r_cs r \<and> vbo + n < 18446744073709551616 \<and>
     (\<forall>p. vbo \<le> p \<and> p < vbo + n \<longrightarrow> (\<exists>l. run_lookup oa (p div r_cs r) = Some l \<and> l \<noteq> SPARSE_LCN \<and>
        fst (clu_content r l) = 0 \<and> length (snd (clu_content r l)) = r_cs r)) \<and>
     (\<forall>p q. vbo \<le> p \<and> p < vbo + n \<and> vbo \<le> q \<and> q < vbo + n \<and>
        run_lookup oa (p div r_cs r) = run_lookup oa (q div r_cs r) \<longrightarrow> p div r_cs r = q div r_cs r)"

lemma io_readyD:
  assumes "io_ready r oa vbo n" "vbo \<le> p" "p < vbo + n"
  obtains l where "run_lookup oa (p div r_cs r) = Some l" "l \<noteq> SPARSE_LCN" "fst (clu_content r l) = 0"
    "length (snd (clu_content r l)) = r_cs r"
  using assms by (auto simp: io_ready_def)

lemma io_ready_inj:
  assumes "io_ready r oa vbo n" "vbo \<le> p" "p < vbo + n" "vbo \<le> q" "q < vbo + n" "attr_at oa (r_cs r) p = attr_at oa (r_cs r) q"
  shows "p = q"
proof -
  have "p div r_cs r = q div r_cs r" using assms by (auto simp: io_ready_def attr_at_def)
  moreover have "p mod r_cs r = q mod r_cs r" using assms(6) by (simp add: attr_at_def)
  ultimately show ?thesis by (metis div_mult_mod_eq)
qed

lemma in_cluster:
  fixes cs :: nat
  assumes "k < cs - vbo mod cs" "0 < cs"
  shows "(vbo + k) div cs = vbo div cs" "(vbo + k) mod cs = vbo mod cs + k"
proof -
  obtain x where x: "x = vbo mod cs + k" "x < cs" using assms by simp
  then have e: "vbo + k = x + cs * (vbo div cs)" using mult_div_mod_eq [of cs vbo] by linarith
  show "(vbo + k) div cs = vbo div cs" unfolding e using x(2) by simp
  have "(vbo + k) mod cs = x" unfolding e using x(2) by simp
  then show "(vbo + k) mod cs = vbo mod cs + k" using x(1) by simp
qed

text \<open>One round of the loop of \<open>attr_io\<close>: the part of the range inside the first cluster.\<close>

definition chunk :: "nat \<Rightarrow> nat \<Rightarrow> nat \<Rightarrow> nat" where
  "chunk cs vbo bytes = min (cs - vbo mod cs) bytes"

lemma chunk_bounds: "0 < cs \<Longrightarrow> 0 < bytes \<Longrightarrow> 0 < chunk cs vbo bytes \<and> chunk cs vbo bytes \<le> bytes \<and> vbo mod cs + chunk cs vbo bytes \<le> cs"
  using mod_less_divisor [of cs vbo] by (auto simp: chunk_def min_def)

lemma attr_io_write_step:
  assumes "clu_inv r" "io_ready r oa vbo bytes" "0 < bytes" "pos + bytes \<le> length b"
  defines "n \<equiv> chunk (r_cs r) vbo bytes"
  shows "\<exists>r' first'. attr_io r oa vbo b pos bytes True first = attr_io r' oa (vbo + n) b (pos + n) (bytes - n) True first' \<and>
    clu_inv r' \<and> same_rest r r' \<and>
    (\<exists>l. run_lookup oa (vbo div r_cs r) = Some l \<and> clu_dirties r' = insert l (clu_dirties r) \<and>
      (\<exists>d'. clu_content r' = (clu_content r)(l := (0, d')) \<and> length d' = r_cs r \<and>
        (\<forall>i<r_cs r. d' ! i = (if vbo mod r_cs r \<le> i \<and> i < vbo mod r_cs r + n then b ! (pos + (i - vbo mod r_cs r)) else snd (clu_content r l) ! i))))"
proof -
  let ?cs = "r_cs r" and ?off = "vbo mod r_cs r"
  have cs: "0 < ?cs" "vbo + bytes < 18446744073709551616" using assms(2) by (simp_all add: io_ready_def)
  note nb = chunk_bounds [OF cs(1) assms(3), of vbo, folded n_def]
  obtain l where l: "run_lookup oa (vbo div ?cs) = Some l" "l \<noteq> SPARSE_LCN" "fst (clu_content r l) = 0"
    "length (snd (clu_content r l)) = ?cs" by (rule io_readyD [OF assms(2), of vbo]) (use assms(3) in auto)
  let ?d = "snd (clu_content r l)"
  obtain part where part: "slice b pos n = Some part" "length part = n" "\<forall>i<n. part ! i = b ! (pos + i)"
    using assms(4) nb by (auto simp: slice_def)
  obtain d' where d': "blit ?d ?off part = Some d'" using blit_ok [of ?off part ?d] part(2) l(4) nb by auto
  obtain r1 i where r1: "ovl_get_cluster r l = Some (0, r1, i)" "clu_inv r1" "clu_content r1 = clu_content r" "clu_dirties r1 = clu_dirties r"
    "same_rest r r1" "clu_owner r1 i l" "clu_data r1 i = Some ?d" using get_cluster_law [OF assms(1), of l] l(3) by auto
  obtain r2 where r2: "clu_store r1 i d' = Some r2" "clu_inv r2" "clu_content r2 = (clu_content r1)(l := (0, d'))"
    "clu_dirties r2 = insert l (clu_dirties r1)" using clu_store_law [OF r1(2,6), of d'] by blast
  from r1(7) obtain c where c: "r_clu r1 ! i = Some c" "oc_data c = Some ?d" by (auto simp: clu_data_def bind_eq_Some_conv)
  have r2e: "r2 = r1\<lparr>r_clu := (r_clu r1)[i := Some (c\<lparr>oc_data := Some d', oc_dirty := True\<rparr>)]\<rparr>"
    using r2(1) c(1) by (simp add: clu_store_def)
  have "attr_io r oa vbo b pos bytes True first =
      attr_io r2 oa (vbo + n) b (pos + n) (bytes - n) True (if first = SPARSE_LCN then l else first)"
    using assms(3) cs l(1,2) r1(1) c part(1) d' r2e nb
    by (subst attr_io.simps) (simp add: Let_def n_def chunk_def)
  moreover have "same_rest r r2" using same_rest_trans [OF r1(5)] r2e by simp
  moreover have "\<forall>i<?cs. d' ! i = (if ?off \<le> i \<and> i < ?off + n then b ! (pos + (i - ?off)) else ?d ! i)"
    using nth_blit [OF d'] part l(4) by auto
  ultimately show ?thesis using r2 r1(3,4) l length_blit [OF d'] by metis
qed

text \<open>What a range of the attribute reads as does not depend on the rest of the state.\<close>

lemma io_ready_step:
  assumes "io_ready r oa vbo bytes" "n \<le> bytes" "same_rest r r'"
    "\<And>l. fst (clu_content r l) = 0 \<and> length (snd (clu_content r l)) = r_cs r \<Longrightarrow>
      fst (clu_content r' l) = 0 \<and> length (snd (clu_content r' l)) = r_cs r"
  shows "io_ready r' oa (vbo + n) (bytes - n)"
proof -
  note cs = same_rest_simps(2) [OF assms(3)]
  have "\<exists>l. run_lookup oa (p div r_cs r) = Some l \<and> l \<noteq> SPARSE_LCN \<and> fst (clu_content r' l) = 0 \<and> length (snd (clu_content r' l)) = r_cs r"
    if "vbo + n \<le> p" "p < vbo + n + (bytes - n)" for p
  proof -
    have "vbo \<le> p" "p < vbo + bytes" using that assms(2) by linarith+
    then obtain l where l: "run_lookup oa (p div r_cs r) = Some l" "l \<noteq> SPARSE_LCN" "fst (clu_content r l) = 0"
      "length (snd (clu_content r l)) = r_cs r" by (rule io_readyD [OF assms(1)])
    with assms(4) [of l] show ?thesis by blast
  qed
  then show ?thesis using assms(1,2) unfolding io_ready_def cs
    by (smt (verit, best) add.assoc add_leD1 le_add_diff_inverse)
qed

lemma attr_io_write_spec:
  assumes "clu_inv r" "io_ready r oa vbo bytes" "pos + bytes \<le> length b"
  shows "\<exists>r' first'. attr_io r oa vbo b pos bytes True first = Some (0, r', b, first') \<and> clu_inv r' \<and> same_rest r r' \<and>
    (\<forall>k<bytes. byte_at r' (attr_at oa (r_cs r) (vbo + k)) = b ! (pos + k)) \<and>
    (\<forall>l o1. o1 < r_cs r \<and> (\<forall>k<bytes. attr_at oa (r_cs r) (vbo + k) \<noteq> (Some l, o1)) \<longrightarrow>
       byte_at r' (Some l, o1) = byte_at r (Some l, o1)) \<and>
    (\<forall>l. fst (clu_content r l) = 0 \<and> length (snd (clu_content r l)) = r_cs r \<longrightarrow>
       fst (clu_content r' l) = 0 \<and> length (snd (clu_content r' l)) = r_cs r)"
  using assms
proof (induction bytes arbitrary: r vbo pos first rule: less_induct)
  case (less bytes)
  show ?case
  proof (cases "bytes = 0")
    case True
    then show ?thesis using less.prems(1) by (subst attr_io.simps) simp
  next
    case False
    let ?cs = "r_cs r" and ?off = "vbo mod r_cs r" and ?n = "chunk (r_cs r) vbo bytes"
    have cs: "0 < ?cs" using less.prems(2) by (simp add: io_ready_def)
    have nb: "0 < ?n" "?n \<le> bytes" "?off + ?n \<le> ?cs" using chunk_bounds [OF cs, of bytes vbo] False by auto
    obtain r1 first1 l d' where s: "attr_io r oa vbo b pos bytes True first = attr_io r1 oa (vbo + ?n) b (pos + ?n) (bytes - ?n) True first1"
      "clu_inv r1" "same_rest r r1" "run_lookup oa (vbo div ?cs) = Some l" "clu_content r1 = (clu_content r)(l := (0, d'))" "length d' = ?cs"
      "\<And>i. i < ?cs \<Longrightarrow> d' ! i = (if ?off \<le> i \<and> i < ?off + ?n then b ! (pos + (i - ?off)) else snd (clu_content r l) ! i)"
      using attr_io_write_step [OF less.prems(1,2) _ less.prems(3), of first] False by auto
    note c1 = same_rest_simps(2) [OF s(3)]
    have keep: "fst (clu_content r1 x) = 0 \<and> length (snd (clu_content r1 x)) = ?cs"
      if "fst (clu_content r x) = 0 \<and> length (snd (clu_content r x)) = ?cs" for x using that s(5,6) by simp
    have rd: "io_ready r1 oa (vbo + ?n) (bytes - ?n)" by (rule io_ready_step [OF less.prems(2) _ s(3) keep]) (use nb False in auto)
    have "bytes - ?n < bytes" "pos + ?n + (bytes - ?n) \<le> length b" using nb False less.prems(3) by auto
    from less.IH [OF this(1) s(2) rd this(2), of first1] obtain r' first' where
      r': "attr_io r1 oa (vbo + ?n) b (pos + ?n) (bytes - ?n) True first1 = Some (0, r', b, first')" "clu_inv r'" "same_rest r1 r'"
      "\<And>k. k < bytes - ?n \<Longrightarrow> byte_at r' (attr_at oa ?cs (vbo + ?n + k)) = b ! (pos + ?n + k)"
      "\<And>l o1. o1 < ?cs \<Longrightarrow> \<forall>k<bytes - ?n. attr_at oa ?cs (vbo + ?n + k) \<noteq> (Some l, o1) \<Longrightarrow> byte_at r' (Some l, o1) = byte_at r1 (Some l, o1)"
      "\<And>l. fst (clu_content r1 l) = 0 \<and> length (snd (clu_content r1 l)) = ?cs \<Longrightarrow> fst (clu_content r' l) = 0 \<and> length (snd (clu_content r' l)) = ?cs"
      unfolding c1 by blast
    have here: "attr_at oa ?cs (vbo + k) = (Some l, ?off + k)" "?off + k < ?cs" if "k < ?n" for k
    proof -
      show "attr_at oa ?cs (vbo + k) = (Some l, ?off + k)"
        using that in_cluster [of k ?cs vbo] cs s(4) by (simp add: attr_at_def chunk_def)
      show "?off + k < ?cs" using that nb(3) by linarith
    qed
    have "byte_at r' (attr_at oa ?cs (vbo + k)) = b ! (pos + k)" if k: "k < bytes" for k
    proof (cases "k < ?n")
      case True
      have "\<forall>k'<bytes - ?n. attr_at oa ?cs (vbo + ?n + k') \<noteq> (Some l, ?off + k)"
        using io_ready_inj [OF less.prems(2), of "vbo + ?n + _" "vbo + k"] here [OF True] True k by fastforce
      with r'(5) [OF here(2) [OF True]] here [OF True] s(5,7) True show ?thesis by (simp add: byte_at_def)
    next
      case False
      with r'(4) [of "k - ?n"] k show ?thesis by simp
    qed
    moreover have "byte_at r' (Some x, o1) = byte_at r (Some x, o1)"
      if o: "o1 < ?cs" "\<forall>k<bytes. attr_at oa ?cs (vbo + k) \<noteq> (Some x, o1)" for x o1
    proof -
      have "\<forall>k<bytes - ?n. attr_at oa ?cs (vbo + ?n + k) \<noteq> (Some x, o1)" using o(2) by (simp add: add.assoc)
      then have "byte_at r' (Some x, o1) = byte_at r1 (Some x, o1)" using r'(5) o(1) by blast
      moreover have "\<not> (?off \<le> o1 \<and> o1 < ?off + ?n)" if "x = l"
        using here [of "o1 - ?off"] o(2) that nb False by (metis add_less_cancel_left le_add_diff_inverse less_le_trans)
      ultimately show ?thesis using s(5,7) o(1) by (auto simp: byte_at_def)
    qed
    ultimately show ?thesis using s(1) r'(1,2,6) keep same_rest_trans [OF s(3) r'(3)] by auto
  qed
qed

lemma attr_io_read_spec:
  assumes "clu_inv r" "io_ready r oa vbo bytes" "pos + bytes \<le> length b"
  shows "\<exists>r' b' first'. attr_io r oa vbo b pos bytes False first = Some (0, r', b', first') \<and> clu_inv r' \<and> same_rest r r' \<and>
    clu_content r' = clu_content r \<and> clu_dirties r' = clu_dirties r \<and> length b' = length b \<and>
    (\<forall>i<length b. b' ! i = (if pos \<le> i \<and> i < pos + bytes then byte_at r (attr_at oa (r_cs r) (vbo + (i - pos))) else b ! i))"
  using assms
proof (induction bytes arbitrary: r vbo pos b first rule: less_induct)
  case (less bytes)
  show ?case
  proof (cases "bytes = 0")
    case True
    then show ?thesis using less.prems(1) by (subst attr_io.simps) auto
  next
    case False
    let ?cs = "r_cs r" and ?off = "vbo mod r_cs r" and ?n = "chunk (r_cs r) vbo bytes"
    have cs: "0 < ?cs" "vbo + bytes < 18446744073709551616" using less.prems(2) by (simp_all add: io_ready_def)
    have nb: "0 < ?n" "?n \<le> bytes" "?off + ?n \<le> ?cs" using chunk_bounds [OF cs(1), of bytes vbo] False by auto
    obtain l where l: "run_lookup oa (vbo div ?cs) = Some l" "l \<noteq> SPARSE_LCN" "fst (clu_content r l) = 0"
      "length (snd (clu_content r l)) = ?cs" by (rule io_readyD [OF less.prems(2), of vbo]) (use False in auto)
    obtain r1 i where r1: "ovl_get_cluster r l = Some (0, r1, i)" "clu_inv r1" "clu_content r1 = clu_content r" "clu_dirties r1 = clu_dirties r"
      "same_rest r r1" "clu_data r1 i = Some (snd (clu_content r l))" using get_cluster_law [OF less.prems(1), of l] l(3) by auto
    from r1(6) obtain c where c: "r_clu r1 ! i = Some c" "oc_data c = Some (snd (clu_content r l))" by (auto simp: clu_data_def bind_eq_Some_conv)
    obtain part where part: "slice (snd (clu_content r l)) ?off ?n = Some part" "length part = ?n"
      "\<And>i. i < ?n \<Longrightarrow> part ! i = snd (clu_content r l) ! (?off + i)" using l(4) nb by (auto simp: slice_def)
    obtain b1 where b1: "blit b pos part = Some b1" using blit_ok [of pos part b] part(2) less.prems(3) nb by auto
    have e: "attr_io r oa vbo b pos bytes False first =
        attr_io r1 oa (vbo + ?n) b1 (pos + ?n) (bytes - ?n) False (if first = SPARSE_LCN then l else first)"
      using False cs l(1,2) r1(1) c part(1) b1 nb by (subst attr_io.simps) (simp add: Let_def chunk_def)
    have rd: "io_ready r1 oa (vbo + ?n) (bytes - ?n)" by (rule io_ready_step [OF less.prems(2) nb(2) r1(5)]) (simp add: r1(3))
    have "bytes - ?n < bytes" "pos + ?n + (bytes - ?n) \<le> length b1" using nb False less.prems(3) length_blit [OF b1] by auto
    from less.IH [OF this(1) r1(2) rd this(2)] obtain r' b' first' where
      r': "attr_io r1 oa (vbo + ?n) b1 (pos + ?n) (bytes - ?n) False (if first = SPARSE_LCN then l else first) = Some (0, r', b', first')"
      "clu_inv r'" "same_rest r1 r'" "clu_content r' = clu_content r" "clu_dirties r' = clu_dirties r" "length b' = length b1"
      "\<And>i. i < length b1 \<Longrightarrow> b' ! i = (if pos + ?n \<le> i \<and> i < pos + ?n + (bytes - ?n)
         then byte_at r1 (attr_at oa ?cs (vbo + ?n + (i - (pos + ?n)))) else b1 ! i)"
      unfolding same_rest_simps(2) [OF r1(5)] r1(3,4) by blast
    have "b' ! i = (if pos \<le> i \<and> i < pos + bytes then byte_at r (attr_at oa ?cs (vbo + (i - pos))) else b ! i)" if i: "i < length b" for i
    proof (cases "pos \<le> i \<and> i < pos + ?n")
      case True
      then have "i - pos < ?cs - ?off" using nb(3) by linarith
      with in_cluster [OF this cs(1)] l(1) have "attr_at oa ?cs (vbo + (i - pos)) = (Some l, ?off + (i - pos))" by (simp add: attr_at_def)
      moreover have "b' ! i = part ! (i - pos)" using r'(7) [of i] True i length_blit [OF b1] nth_blit [OF b1 i] part(2) by simp
      moreover have "i - pos < ?n" "i < pos + bytes" using True nb(2) by linarith+
      ultimately show ?thesis using True part(3) by (simp add: byte_at_def)
    next
      case False
      have b: "b1 ! i = b ! i" using nth_blit [OF b1 i] part(2) False by simp
      have w: "vbo + ?n + (i - (pos + ?n)) = vbo + (i - pos)" "pos + ?n \<le> i \<longleftrightarrow> pos \<le> i" if "pos + ?n \<le> i \<or> pos \<le> i" using False that by linarith+
      show ?thesis using r'(7) [of i] b w False i length_blit [OF b1] nb(2) r1(3) by (auto simp: byte_at_def)
    qed
    then show ?thesis using e r' length_blit [OF b1] same_rest_trans [OF r1(5) r'(3)] by auto
  qed
qed

text \<open>
  C17.  Attribute I/O through the overlay: writing a range of an attribute and reading the same
  range returns the bytes written, whatever the number of clusters and runs it spans; no byte of
  any cluster outside the range changes, and no cluster becomes unreadable.
\<close>

theorem attr_io_roundtrip:
  assumes "clu_inv r" "io_ready r oa vbo bytes" "length b = bytes" "length b0 = bytes"
  shows "\<exists>r1 f1 r2 f2. attr_io r oa vbo b 0 bytes True f = Some (0, r1, b, f1) \<and>
    attr_io r1 oa vbo b0 0 bytes False g = Some (0, r2, b, f2) \<and> clu_inv r2 \<and>
    (\<forall>l o1. o1 < r_cs r \<and> (\<forall>k<bytes. attr_at oa (r_cs r) (vbo + k) \<noteq> (Some l, o1)) \<longrightarrow>
       byte_at r2 (Some l, o1) = byte_at r (Some l, o1))"
proof -
  have l: "0 + bytes \<le> length b" "0 + bytes \<le> length b0" using assms(3,4) by simp_all
  obtain r1 f1 where w: "attr_io r oa vbo b 0 bytes True f = Some (0, r1, b, f1)" "clu_inv r1" "same_rest r r1"
    "\<forall>k<bytes. byte_at r1 (attr_at oa (r_cs r) (vbo + k)) = b ! (0 + k)"
    "\<forall>l o1. o1 < r_cs r \<and> (\<forall>k<bytes. attr_at oa (r_cs r) (vbo + k) \<noteq> (Some l, o1)) \<longrightarrow>
       byte_at r1 (Some l, o1) = byte_at r (Some l, o1)"
    "\<And>l. fst (clu_content r l) = 0 \<and> length (snd (clu_content r l)) = r_cs r \<Longrightarrow>
       fst (clu_content r1 l) = 0 \<and> length (snd (clu_content r1 l)) = r_cs r"
    using attr_io_write_spec [OF assms(1,2) l(1), of f] by blast
  note cs = same_rest_simps(2) [OF w(3)]
  have "io_ready r1 oa (vbo + 0) (bytes - 0)" by (rule io_ready_step [OF assms(2) _ w(3,6)]) simp_all
  then have rd: "io_ready r1 oa vbo bytes" by simp
  obtain r2 b' f2 where r2: "attr_io r1 oa vbo b0 0 bytes False g = Some (0, r2, b', f2)" "clu_inv r2" "clu_content r2 = clu_content r1"
    "length b' = length b0"
    "\<forall>i<length b0. b' ! i = (if 0 \<le> i \<and> i < 0 + bytes then byte_at r1 (attr_at oa (r_cs r1) (vbo + (i - 0))) else b0 ! i)"
    using attr_io_read_spec [OF w(2) rd l(2), of g] by blast
  have "b' = b" using r2(4,5) w(4) assms(3,4) cs by (intro nth_equalityI) simp_all
  with w r2 show ?thesis by (auto simp: byte_at_def)
qed

definition sample_attr :: open_attr where
  "sample_attr = no_open_attr\<lparr>oa_runs := [\<lparr>run_vcn = 0, run_lcn = 100, run_len = 1\<rparr>, \<lparr>run_vcn = 1, run_lcn = 50, run_len = 1\<rparr>]\<rparr>"

lemma sample_attr_lookup: "v < 2 \<Longrightarrow> run_lookup sample_attr v = Some (if v = 0 then 100 else 50)"
  by (auto simp: sample_attr_def run_lookup_def run_lookup_mapped_def run_covers_def no_open_attr_def)

lemma sample_io_ready: "io_ready (empty_replay undefined 8) sample_attr 5 6"
proof -
  have dv: "p div 8 = (if p < 8 then 0 else 1)" if "5 \<le> p" "p < 5 + 6" for p :: nat using that by (auto simp: div_nat_eqI)
  show ?thesis unfolding io_ready_def
    by (auto simp: dv sample_attr_lookup empty_replay_def clu_content_def entry_content_def overlay_def split: if_splits)
qed

theorem attr_io_roundtrip_witness:
  "\<exists>r1 f1 r2 f2. attr_io (empty_replay undefined 8) sample_attr 5 [1, 2, 3, 4, 5, 6] 0 6 True SPARSE_LCN = Some (0, r1, [1, 2, 3, 4, 5, 6], f1) \<and>
    attr_io r1 sample_attr 5 (replicate 6 0) 0 6 False SPARSE_LCN = Some (0, r2, [1, 2, 3, 4, 5, 6], f2)"
proof -
  have "clu_inv (empty_replay undefined 8)" by (simp add: clu_inv_def empty_replay_def)
  from attr_io_roundtrip [OF this sample_io_ready, of "[1, 2, 3, 4, 5, 6]" "replicate 6 0" SPARSE_LCN SPARSE_LCN] show ?thesis by auto
qed

section \<open>Decoded runs\<close>

text \<open>
  A chain of runs: each starts at the VCN where its predecessor ends and is not empty.
  \<open>run_clusters\<close> spells a chain out as the list of the LCNs of its clusters, \<open>SPARSE_LCN\<close> for holes.
\<close>

fun chain :: "nat \<Rightarrow> run list \<Rightarrow> bool" where
  "chain v [] = True"
| "chain v (x # xs) = (run_vcn x = v \<and> 0 < run_len x \<and> (run_lcn x = SPARSE_LCN \<or> run_lcn x < 2 ^ 63) \<and>
     chain (u64 (v + run_len x)) xs)"

definition run_cluster :: "run \<Rightarrow> nat \<Rightarrow> nat" where
  "run_cluster x k = (if run_lcn x = SPARSE_LCN then SPARSE_LCN else u64 (run_lcn x + k))"

definition run_clusters :: "run list \<Rightarrow> nat list" where
  "run_clusters xs = concat (map (\<lambda>x. map (run_cluster x) [0..<run_len x]) xs)"

lemma run_clusters_simps [simp]: "run_clusters [] = []" "run_clusters (x # xs) = map (run_cluster x) [0..<run_len x] @ run_clusters xs"
  by (simp_all add: run_clusters_def)

lemma decode_loop_step:
  assumes "decode_loop mp mp_len i vcn lcn acc = Some (err, rs)"
  obtains "rs = acc" | i' x lcn' where "i < i'" "i < mp_len" "run_vcn x = vcn" "0 < run_len x"
    "run_lcn x = SPARSE_LCN \<or> run_lcn x < 2 ^ 63"
    "decode_loop mp mp_len i' (u64 (vcn + run_len x)) lcn' (acc @ [x]) = Some (err, rs)"
proof (cases "rs = acc")
  case False
  from assms False obtain hdr len where h: "i < mp_len" "get8 mp i = Some hdr" "hdr \<noteq> 0"
    "\<not> (hdr AND 15 = 0 \<or> hdr AND 15 > 8 \<or> hdr div 16 > 8 \<or> i + 1 + (hdr AND 15) + hdr div 16 > mp_len)"
    "get_le (hdr AND 15) mp (i + 1) = Some len" "len \<noteq> 0"
    by (subst (asm) decode_loop.simps) (auto simp: Let_def bind_eq_Some_conv split: if_splits)
  show thesis
  proof (cases "hdr div 16 = 0")
    case True
    have "decode_loop mp mp_len (i + 1 + (hdr AND 15)) (u64 (vcn + len)) lcn
        (acc @ [\<lparr>run_vcn = vcn, run_lcn = SPARSE_LCN, run_len = len\<rparr>]) = Some (err, rs)"
      using assms h True by (subst (asm) decode_loop.simps) (simp add: Let_def)
    then show thesis using h by (intro that(2) [of _ "\<lparr>run_vcn = vcn, run_lcn = SPARSE_LCN, run_len = len\<rparr>"]) simp_all
  next
    case os: False
    from assms h os False obtain delta where d: "sign_extend mp (i + 1 + (hdr AND 15)) (hdr div 16) = Some delta"
      "\<not> lcn + delta \<ge> 2 ^ 63" "\<not> lcn + delta < 0"
      by (subst (asm) decode_loop.simps) (auto simp: Let_def bind_eq_Some_conv split: if_splits)
    have "decode_loop mp mp_len (i + 1 + (hdr AND 15) + hdr div 16) (u64 (vcn + len)) (lcn + delta)
        (acc @ [\<lparr>run_vcn = vcn, run_lcn = nat (lcn + delta), run_len = len\<rparr>]) = Some (err, rs)"
      using assms h os d by (subst (asm) decode_loop.simps) (simp add: Let_def)
    then show thesis using h d
      by (intro that(2) [of _ "\<lparr>run_vcn = vcn, run_lcn = nat (lcn + delta), run_len = len\<rparr>"]) (simp_all add: nat_less_iff)
  qed
qed (rule that(1))

lemma decode_loop_chain:
  assumes "decode_loop mp mp_len i vcn lcn acc = Some (err, rs)"
  shows "\<exists>new. rs = acc @ new \<and> chain vcn new"
  using assms
proof (induction "mp_len - i" arbitrary: i vcn lcn acc rule: less_induct)
  case less
  from less.prems show ?case
  proof (cases rule: decode_loop_step)
    case 1
    then show ?thesis by (intro exI [of _ "[]"]) simp
  next
    case (2 i' x lcn')
    then have "mp_len - i' < mp_len - i" by linarith
    from less.hyps [OF this 2(6)] obtain new where "rs = (acc @ [x]) @ new" "chain (u64 (vcn + run_len x)) new" by blast
    with 2 show ?thesis by (intro exI [of _ "x # new"]) simp
  qed
qed

lemma find_chain:
  assumes "chain v xs" "v + length (run_clusters xs) < 18446744073709551616" "v \<le> p"
  shows "map_option (\<lambda>x. run_cluster x (p - run_vcn x)) (find (run_covers p) xs) =
    (if p - v < length (run_clusters xs) then Some (run_clusters xs ! (p - v)) else None)"
  using assms
proof (induction xs arbitrary: v)
  case (Cons x xs)
  have v: "u64 (v + run_len x) = v + run_len x" "run_vcn x = v" "0 < run_len x" using Cons.prems(1,2) by simp_all
  show ?case
  proof (cases "p < v + run_len x")
    case True
    then have "p - v < run_len x" using Cons.prems(3) by linarith
    then show ?thesis using True v Cons.prems(3) by (simp add: run_covers_def nth_append)
  next
    case False
    then have "p - v - run_len x = p - (v + run_len x)" "\<not> p - v < run_len x" by linarith+
    with False v Cons.IH [of "v + run_len x"] Cons.prems show ?thesis
      by (auto simp: run_covers_def nth_append)
  qed
qed simp

text \<open>
  What the offset bytes mean: a little-endian number in two's complement.  The word gathered by
  the loop is that number, and the sign extension is exact for offsets of up to seven bytes, and
  of eight bytes when they are not negative.
\<close>

definition signed_le :: "byte list \<Rightarrow> int" where
  "signed_le bs = (if 2 * int (le_of bs) < 256 ^ length bs then int (le_of bs) else int (le_of bs) - 256 ^ length bs)"

lemma or_high_add:
  fixes x :: nat
  assumes "x < 2 ^ k"
  shows "x OR y * 2 ^ k = x + y * 2 ^ k"
proof -
  have "x = take_bit k x" using assms by (simp add: take_bit_nat_eq_self)
  then have "\<not> bit x n" if "k \<le> n" for n using that by (metis bit_take_bit_iff not_less)
  then have "x AND push_bit k y = 0" by (auto simp: bit_eq_iff bit_simps)
  then show ?thesis by (simp add: disjunctive_add_eq_or push_bit_eq_mult)
qed

lemma or_sign_add:
  assumes "(d :: nat) < 2 ^ k"
  shows "int d OR - (2 ^ k) = int d - 2 ^ k"
proof -
  have "int d = take_bit k (int d)" using assms by (simp add: take_bit_int_eq_self)
  then have "\<not> bit (int d) n" if "k \<le> n" for n using that by (metis bit_take_bit_iff not_less)
  then have "int d AND - (2 ^ k) = 0" by (auto simp: bit_eq_iff bit_simps minus_exp_eq_not_mask not_less [symmetric])
  then show ?thesis using disjunctive_add_eq_or [of "int d" "- (2 ^ k)"] by simp
qed

lemma or_bytes_value:
  assumes "slice mp (i + k) n = Some bs" "d < 256 ^ k" "k + n \<le> 8"
  shows "or_bytes mp i n k (word_of_nat d) = Some (word_of_nat (d + 256 ^ k * le_of bs))"
  using assms
proof (induction n arbitrary: k d bs)
  case 0
  then show ?case by (simp add: slice_def split: if_splits)
next
  case (Suc n)
  then have l: "i + k + Suc n \<le> length mp" and bs: "bs = take (Suc n) (drop (i + k) mp)"
    by (auto simp: slice_def split: if_splits)
  let ?b = "mp ! (i + k)"
  have bs': "bs = ?b # take n (drop (i + Suc k) mp)" using l bs by (simp add: Cons_nth_drop_Suc [symmetric])
  have s: "slice mp (i + Suc k) n = Some (take n (drop (i + Suc k) mp))" using l by (simp add: slice_def)
  have pw: "(2 :: nat) ^ (8 * k) = 256 ^ k" by (simp add: power_mult)
  have b: "unat ?b < 256" using unsigned_less [of ?b, where 'a = nat] by simp
  have le: "d + unat ?b * 256 ^ k < 256 ^ Suc k"
  proof -
    have "(unat ?b + 1) * 256 ^ k \<le> 256 * 256 ^ k" using b by (intro mult_le_mono1) linarith
    then show ?thesis using Suc.prems(2) unfolding add_mult_distrib mult_1 power_Suc by linarith
  qed
  have "word_of_nat d OR push_bit (8 * k) (word_of_nat (unat ?b)) = (word_of_nat (d OR unat ?b * 2 ^ (8 * k)) :: 64 word)"
    by (simp add: of_nat_or_eq push_bit_eq_mult of_nat_mult)
  also have "\<dots> = word_of_nat (d + unat ?b * 256 ^ k)" using or_high_add [of d "8 * k" "unat ?b"] Suc.prems(2) pw by simp
  finally have o: "word_of_nat d OR push_bit (8 * k) (word_of_nat (unat ?b)) = (word_of_nat (d + unat ?b * 256 ^ k) :: 64 word)" .
  have "or_bytes mp i (Suc n) k (word_of_nat d) = or_bytes mp i n (Suc k) (word_of_nat (d + unat ?b * 256 ^ k))"
    using l Suc.prems(3) o by (simp add: get8_nth shl64_def)
  also have "\<dots> = Some (word_of_nat (d + unat ?b * 256 ^ k + 256 ^ Suc k * le_of (take n (drop (i + Suc k) mp))))"
    using Suc.IH [OF s le] Suc.prems(3) by simp
  also have "\<dots> = Some (word_of_nat (d + 256 ^ k * le_of bs))"
    unfolding bs' by (simp add: algebra_simps)
  finally show ?case .
qed

lemma top_bit_le_of:
  assumes "bs \<noteq> []"
  shows "unat (last bs) AND 0x80 \<noteq> 0 \<longleftrightarrow> 256 ^ length bs \<le> 2 * le_of bs"
  using assms
proof (induction bs)
  case (Cons b bs)
  have b: "unat b < 256" using unsigned_less [of b, where 'a = nat] by simp
  show ?case
  proof (cases "bs = []")
    case True
    have "unat b AND 2 ^ 7 \<noteq> 0 \<longleftrightarrow> odd (unat b div 128)" by (simp only: and_exp_eq_0_iff_not_bit bit_iff_odd) simp
    moreover have "unat b div 128 = (if unat b < 128 then 0 else 1)" using b by (auto simp: div_nat_eqI)
    ultimately show ?thesis using True by simp
  next
    case False
    have "256 ^ length bs \<le> 2 * le_of bs \<longleftrightarrow> 256 * 256 ^ length bs \<le> 2 * (unat b + 256 * le_of bs)"
    proof -
      obtain m where "length bs = Suc m" using False by (cases bs) simp_all
      then have "even ((256 :: nat) ^ length bs)" by simp
      then obtain h where "(256 :: nat) ^ length bs = 2 * h" by (elim evenE)
      moreover have "h \<le> x \<longleftrightarrow> 256 * (2 * h) \<le> 2 * (y + 256 * x)" if "y < 256" for x y :: nat
        using that by auto
      ultimately show ?thesis using b by simp
    qed
    then show ?thesis using Cons False by simp
  qed
qed simp

lemma sign_extend_value:
  assumes "slice mp i os = Some bs" "0 < os" "os < 8 \<or> os = 8 \<and> 0 \<le> signed_le bs"
  shows "sign_extend mp i os = Some (signed_le bs)"
proof -
  have bs: "length bs = os" "bs \<noteq> []" and l: "i + os \<le> length mp" "bs = take os (drop i mp)"
    using assms(1,2) by (auto simp: slice_def split: if_splits)
  have lt: "le_of bs < 256 ^ os" using le_of_less [of bs] bs by simp
  have pw: "(256 :: nat) ^ os = 2 ^ (8 * os)" "(256 :: int) ^ os = 2 ^ (8 * os)" by (simp_all add: power_mult)
  have d: "or_bytes mp i os 0 0 = Some (word_of_nat (le_of bs))"
    using or_bytes_value [of mp i 0 os bs 0] assms by (auto simp: slice_def)
  have t: "get8 mp (i + os - 1) = Some (unat (last bs))"
    using l assms(2) bs by (simp add: get8_nth last_conv_nth)
  show ?thesis
  proof (cases "unat (last bs) AND 0x80 = 0")
    case True
    then have n: "2 * le_of bs < 256 ^ os" using top_bit_le_of [OF bs(2)] bs(1) by simp
    have "256 ^ os \<le> (2 :: nat) ^ 64" unfolding pw using assms(3) by (intro power_increasing) auto
    then have "le_of bs < 2 ^ 63" using n by simp
    then have "sint (word_of_nat (le_of bs) :: 64 word) = int (le_of bs)"
      by (simp add: sint_uint uint_nat unat_of_nat signed_take_bit_int_eq_self)
    moreover have "int (2 * le_of bs) < int (256 ^ os)" using n by (simp only: of_nat_less_iff)
    ultimately show ?thesis using d t True bs by (simp add: sign_extend_def signed_le_def)
  next
    case False
    then have n: "256 ^ os \<le> 2 * le_of bs" using top_bit_le_of [OF bs(2)] bs(1) by simp
    then have "int (256 ^ os) \<le> int (2 * le_of bs)" by (simp only: of_nat_le_iff)
    then have s: "signed_le bs = int (le_of bs) - 256 ^ os" using bs(1) by (simp add: signed_le_def)
    have lt': "int (le_of bs) < int (256 ^ os)" using lt by (simp only: of_nat_less_iff)
    then have os: "os < 8" using assms(3) s by auto
    have "(word_of_nat (le_of bs) :: 64 word) OR - push_bit (8 * os) 1 = word_of_int (int (le_of bs) OR - (2 ^ (8 * os)))"
      by (simp add: push_bit_eq_mult of_int_or_eq)
    also have "\<dots> = word_of_int (int (le_of bs) - 256 ^ os)" using lt by (simp add: or_sign_add pw)
    finally have w: "(word_of_nat (le_of bs) :: 64 word) OR - push_bit (8 * os) 1 = word_of_int (int (le_of bs) - 256 ^ os)" .
    have "(256 :: int) ^ os \<le> 2 ^ 56" unfolding pw using os by (intro power_increasing) auto
    moreover have "0 \<le> int (le_of bs)" "int (le_of bs) < 256 ^ os" using lt' by simp_all
    moreover have "- (2 ^ 63) \<le> a - p \<and> a - p < 2 ^ 63" if "p \<le> 2 ^ 56" "0 \<le> a" "a < p" for a p :: int using that by simp
    ultimately have "- (2 ^ 63) \<le> int (le_of bs) - 256 ^ os \<and> int (le_of bs) - 256 ^ os < 2 ^ 63" by blast
    then have "sint (word_of_int (int (le_of bs) - 256 ^ os) :: 64 word) = int (le_of bs) - 256 ^ os"
      by (simp only: signed_of_int) (simp add: signed_take_bit_int_eq_self)
    then show ?thesis using d t False w s os by (simp add: sign_extend_def shl64_def)
  qed
qed

lemma sign_extend_undefined:
  assumes "slice mp i 8 = Some bs" "signed_le bs < 0"
  shows "sign_extend mp i 8 = None"
proof -
  have bs: "length bs = 8" "bs \<noteq> []" and l: "i + 8 \<le> length mp" "bs = take 8 (drop i mp)"
    using assms(1) by (auto simp: slice_def split: if_splits)
  have "unat (last bs) AND 0x80 \<noteq> 0"
    using assms(2) top_bit_le_of [OF bs(2)] bs(1) by (auto simp: signed_le_def split: if_splits)
  then show ?thesis using l bs by (auto simp: sign_extend_def get8_nth last_conv_nth shl64_def bind_eq_None_conv add.commute)
qed

section \<open>The mapping pairs format\<close>

text \<open>
  A mapping pair on disk: a byte with the widths of its two fields, the length bytes and the
  offset bytes.  The length is unsigned; the offset is the difference to the LCN of the previous
  run in two's complement, and a pair without offset bytes is a hole.  \<open>pair_clusters\<close> is
  the list of the clusters that a sequence of pairs describes, read off the bytes alone.
\<close>

type_synonym pair = "byte list \<times> byte list"

fun mp_pair_bytes :: "pair \<Rightarrow> byte list" where
  "mp_pair_bytes (lb, ob) = word_of_nat (length lb + 16 * length ob) # lb @ ob"

fun pair_clusters :: "int \<Rightarrow> pair list \<Rightarrow> nat list" where
  "pair_clusters lcn [] = []"
| "pair_clusters lcn ((lb, ob) # ps) =
     (if ob = [] then replicate (le_of lb) SPARSE_LCN @ pair_clusters lcn ps
      else map (\<lambda>k. nat (lcn + signed_le ob) + k) [0..<le_of lb] @ pair_clusters (lcn + signed_le ob) ps)"

fun pairs_ok :: "int \<Rightarrow> pair list \<Rightarrow> bool" where
  "pairs_ok lcn [] \<longleftrightarrow> True"
| "pairs_ok lcn ((lb, ob) # ps) \<longleftrightarrow>
     lb \<noteq> [] \<and> length lb \<le> 8 \<and> length ob \<le> 8 \<and> 0 < le_of lb \<and>
     (if ob = [] then pairs_ok lcn ps
      else (length ob = 8 \<longrightarrow> 0 \<le> signed_le ob) \<and> 0 \<le> lcn + signed_le ob \<and>
        lcn + signed_le ob + int (le_of lb) \<le> 2 ^ 63 \<and> pairs_ok (lcn + signed_le ob) ps)"

fun pair_runs :: "nat \<Rightarrow> int \<Rightarrow> pair list \<Rightarrow> run list" where
  "pair_runs v lcn [] = []"
| "pair_runs v lcn ((lb, ob) # ps) =
     (if ob = [] then \<lparr>run_vcn = v, run_lcn = SPARSE_LCN, run_len = le_of lb\<rparr> # pair_runs (u64 (v + le_of lb)) lcn ps
      else \<lparr>run_vcn = v, run_lcn = nat (lcn + signed_le ob), run_len = le_of lb\<rparr> #
        pair_runs (u64 (v + le_of lb)) (lcn + signed_le ob) ps)"

lemma pair_runs_chain: "pairs_ok lcn ps \<Longrightarrow> chain v (pair_runs v lcn ps)"
  by (induction v lcn ps rule: pair_runs.induct) (auto simp: nat_less_iff split: if_splits)

lemma pair_runs_clusters: "pairs_ok lcn ps \<Longrightarrow> run_clusters (pair_runs v lcn ps) = pair_clusters lcn ps"
proof (induction v lcn ps rule: pair_runs.induct)
  case (2 v lcn lb ob ps)
  have u: "u64 (nat (lcn + signed_le ob) + k) = nat (lcn + signed_le ob) + k" "nat (lcn + signed_le ob) \<noteq> SPARSE_LCN"
    if "ob \<noteq> []" "k < le_of lb" for k
    using 2(3) that by (auto simp: u64_def nat_add_distrib [symmetric] nat_less_iff)
  have "map (run_cluster \<lparr>run_vcn = v, run_lcn = nat (lcn + signed_le ob), run_len = le_of lb\<rparr>) [0..<le_of lb] =
      map (\<lambda>k. nat (lcn + signed_le ob) + k) [0..<le_of lb]" if "ob \<noteq> []"
    using u that by (intro map_cong) (auto simp: run_cluster_def)
  moreover have "map (run_cluster \<lparr>run_vcn = v, run_lcn = SPARSE_LCN, run_len = n\<rparr>) [0..<n] = replicate n SPARSE_LCN" for n
    by (intro nth_equalityI) (simp_all add: run_cluster_def)
  ultimately show ?case using 2 by (cases "ob = []") simp_all
qed simp

lemma slice_mid: "slice (xs @ ys @ zs) (length xs) (length ys) = Some ys"
  by (simp add: slice_def)

lemma header_fields:
  assumes "ls \<le> 8" "os \<le> 8"
  shows "unat (word_of_nat (ls + 16 * os) :: byte) AND 15 = ls" "unat (word_of_nat (ls + 16 * os) :: byte) div 16 = os"
proof -
  have u: "unat (word_of_nat (ls + 16 * os) :: byte) = ls + 16 * os"
    by (rule of_nat_inverse [OF refl]) (use assms in simp)
  have "(ls + 16 * os) AND mask 4 = ls" using assms by (simp only: take_bit_eq_mask [symmetric]) (simp add: take_bit_eq_mod)
  then show "unat (word_of_nat (ls + 16 * os) :: byte) AND 15 = ls" unfolding u by (simp add: mask_eq_exp_minus_1)
  show "unat (word_of_nat (ls + 16 * os) :: byte) div 16 = os" unfolding u using assms by simp
qed

lemma decode_loop_pairs:
  assumes "pairs_ok lcn ps" "0 \<le> lcn" "mp = pre @ concat (map mp_pair_bytes ps) @ 0 # rest"
    "length pre + length (concat (map mp_pair_bytes ps)) \<le> mp_len"
  shows "decode_loop mp mp_len (length pre) vcn lcn acc = Some (0, acc @ pair_runs vcn lcn ps)"
  using assms
proof (induction ps arbitrary: lcn pre vcn acc)
  case Nil
  then show ?case by (subst decode_loop.simps) (simp add: get8_nth)
next
  case (Cons q ps)
  obtain lb ob where q: "q = (lb, ob)" by (cases q)
  let ?h = "word_of_nat (length lb + 16 * length ob) :: byte" and ?tl = "concat (map mp_pair_bytes ps) @ 0 # rest"
  have w: "length lb \<le> 8" "length ob \<le> 8" "lb \<noteq> []" "0 < le_of lb" using Cons.prems(1) by (auto simp: q split: if_splits)
  have mp: "mp = pre @ ?h # lb @ ob @ ?tl" using Cons.prems(3) by (simp add: q)
  have h: "get8 mp (length pre) = Some (unat ?h)" by (simp add: mp get8_nth)
  have l: "get_le (length lb) mp (length pre + 1) = Some (le_of lb)"
    using slice_mid [of "pre @ [?h]" lb "ob @ ?tl"] by (simp add: mp get_le_def)
  have o: "slice mp (length pre + 1 + length lb) (length ob) = Some ob"
    using slice_mid [of "pre @ ?h # lb" ob ?tl] by (simp add: mp)
  have hd: "unat ?h AND 15 = length lb" "unat ?h div 16 = length ob" using header_fields w by simp_all
  then have hz: "unat ?h \<noteq> 0" using w(3) by (metis zero_and_eq length_0_conv)
  have ml: "length pre + 1 + length lb + length ob + length (concat (map mp_pair_bytes ps)) \<le> mp_len"
    using Cons.prems(4) by (simp add: q)
  have mp': "mp = (pre @ mp_pair_bytes q) @ ?tl" using mp by (simp add: q)
  have e: "length (pre @ mp_pair_bytes q) = length pre + 1 + length lb + length ob" by (simp add: q)
  show ?case
  proof (cases "ob = []")
    case True
    then have "decode_loop mp mp_len (length (pre @ mp_pair_bytes q)) (u64 (vcn + le_of lb)) lcn a =
        Some (0, a @ pair_runs (u64 (vcn + le_of lb)) lcn ps)" for a
      using Cons.prems(1,2) ml e mp' by (intro Cons.IH) (simp_all add: q)
    then show ?thesis using h l hd hz w ml e True
      by (subst decode_loop.simps) (simp add: Let_def q)
  next
    case False
    have "length ob < 8 \<or> length ob = 8 \<and> 0 \<le> signed_le ob" using False w(2) Cons.prems(1) by (auto simp: q)
    with False have s: "sign_extend mp (length pre + 1 + length lb) (length ob) = Some (signed_le ob)"
      by (intro sign_extend_value [OF o]) simp_all
    have lcn: "0 \<le> lcn + signed_le ob" "\<not> lcn + signed_le ob \<ge> 2 ^ 63" "pairs_ok (lcn + signed_le ob) ps"
      using Cons.prems(1) False w(4) by (auto simp: q)
    have "decode_loop mp mp_len (length (pre @ mp_pair_bytes q)) (u64 (vcn + le_of lb)) (lcn + signed_le ob) a =
        Some (0, a @ pair_runs (u64 (vcn + le_of lb)) (lcn + signed_le ob) ps)" for a
      using lcn ml e mp' by (intro Cons.IH) simp_all
    then show ?thesis using h l hd hz w ml e False s lcn
      by (subst decode_loop.simps) (simp add: Let_def q add.assoc)
  qed
qed

text \<open>
  C32.  Take any sequence of mapping pairs, with length fields of one to eight bytes, offset fields
  of none to eight bytes, and no negative eight-byte offset, whose runs are not empty and lie between
  cluster 0 and 2^63.  Its bytes, followed by the zero terminator, are decoded without an error,
  whether the given length ends right behind the pairs or later, and looking a VCN up in the
  result gives the cluster that the pair bytes describe: the hole marker inside a hole, and no result
  outside the pairs.
\<close>

theorem decode_lookup:
  assumes "pairs_ok 0 ps" "svcn + length (pair_clusters 0 ps) < 18446744073709551616"
    "length (concat (map mp_pair_bytes ps)) \<le> mp_len" "oa_runs oa = []"
  shows "\<exists>oa'. decode_mapping_pairs oa (concat (map mp_pair_bytes ps) @ 0 # rest) mp_len svcn = Some (0, oa') \<and>
    oa' = oa\<lparr>oa_runs := oa_runs oa'\<rparr> \<and> chain svcn (oa_runs oa') \<and>
    (\<forall>vcn. run_lookup_mapped oa' vcn =
      (if svcn \<le> vcn \<and> vcn < svcn + length (pair_clusters 0 ps) then Some (pair_clusters 0 ps ! (vcn - svcn)) else None))"
proof -
  let ?rs = "pair_runs svcn 0 ps"
  have d: "decode_mapping_pairs oa (concat (map mp_pair_bytes ps) @ 0 # rest) mp_len svcn = Some (0, oa\<lparr>oa_runs := ?rs\<rparr>)"
    using decode_loop_pairs [OF assms(1), of _ "[]"] assms(3,4) by (simp add: decode_mapping_pairs_def)
  have c: "chain svcn ?rs" and x: "run_clusters ?rs = pair_clusters 0 ps"
    using pair_runs_chain pair_runs_clusters assms(1) by blast+
  have e: "run_lookup_mapped (oa\<lparr>oa_runs := ?rs\<rparr>) vcn = map_option (\<lambda>x. run_cluster x (vcn - run_vcn x)) (find (run_covers vcn) ?rs)" for vcn
    by (simp add: run_lookup_mapped_def run_cluster_def)
  have below: "find (run_covers vcn) xs = None" if "chain v xs" "vcn < v" "v + length (run_clusters xs) < 18446744073709551616" for vcn v xs
    using that by (induction xs arbitrary: v) (auto simp: run_covers_def)
  have "run_lookup_mapped (oa\<lparr>oa_runs := ?rs\<rparr>) vcn =
      (if svcn \<le> vcn \<and> vcn < svcn + length (pair_clusters 0 ps) then Some (pair_clusters 0 ps ! (vcn - svcn)) else None)" for vcn
    using find_chain [OF c, of vcn] below [OF c, of vcn] assms(2) unfolding e x by (cases "svcn \<le> vcn") auto
  with d c show ?thesis by simp
qed

theorem decode_lookup_witness:
  "\<exists>oa'. decode_mapping_pairs no_open_attr [0x21, 3, 44, 1, 0x01, 2, 0x21, 1, 0xf6, 0xfe, 0] 11 7 = Some (0, oa') \<and>
    run_lookup_mapped oa' 6 = None \<and> run_lookup_mapped oa' 8 = Some 301 \<and> run_lookup_mapped oa' 11 = Some SPARSE_LCN \<and>
    run_lookup_mapped oa' 12 = Some 34 \<and> run_lookup_mapped oa' 13 = None"
proof -
  let ?ps = "[([3], [44, 1]), ([2], []), ([1], [0xf6, 0xfe])] :: pair list"
  have two: "replicate 2 x = [x, x]" for x :: nat by (simp add: numeral_2_eq_2)
  have ok: "pairs_ok 0 ?ps" and cl: "pair_clusters 0 ?ps = [300, 301, 302, SPARSE_LCN, SPARSE_LCN, 34]"
    by (simp_all add: signed_le_def upt_rec two)
  have "oa_runs no_open_attr = []" by (simp add: no_open_attr_def)
  from decode_lookup [OF ok _ _ this, of 7 11 "[]"] show ?thesis unfolding cl by auto
qed

end
