(* ===== verification/Lfs_Action.thy ===== *)
theory Lfs_Action
  imports Lfs_Runs
begin

text \<open>
  Applying one log record to the overlay (\<open>do_action\<close> and the classification of operations,
  core/logfile/logfile_replay.c).

  Every operation on an MFT record is a function from the record to \<open>(ok, record)\<close>; \<open>ok\<close> is
  false where the code returns \<open>INCOHERENT\<close>, that is \<open>-EINVAL\<close>.  The operations on index
  blocks work the same way on the transfer buffer.
\<close>

section \<open>Classification of operations\<close>

definition op_is_mft :: "nat \<Rightarrow> bool" where
  "op_is_mft op \<longleftrightarrow> op \<in> {LOP_InitializeFileRecordSegment, LOP_DeallocateFileRecordSegment,
     LOP_WriteEndOfFileRecordSegment, LOP_CreateAttribute, LOP_DeleteAttribute,
     LOP_UpdateResidentValue, LOP_UpdateMappingPairs, LOP_SetNewAttributeSizes,
     LOP_AddIndexEntryRoot, LOP_DeleteIndexEntryRoot, LOP_SetIndexEntryVcnRoot,
     LOP_UpdateFileNameRoot, LOP_UpdateRecordDataRoot, LOP_ZeroEndOfFileRecord}"

definition op_is_attr :: "nat \<Rightarrow> bool" where
  "op_is_attr op \<longleftrightarrow> op \<in> {LOP_UpdateNonresidentValue, LOP_AddIndexEntryAllocation,
     LOP_DeleteIndexEntryAllocation, LOP_WriteEndOfIndexBuffer, LOP_SetIndexEntryVcnAllocation,
     LOP_UpdateFileNameAllocation, LOP_SetBitsInNonresidentBitMap,
     LOP_ClearBitsInNonresidentBitMap, LOP_UpdateRecordDataAllocation}"

definition can_skip_action :: "nat \<Rightarrow> bool" where
  "can_skip_action op \<longleftrightarrow> op \<in> {LOP_Noop, LOP_DeleteDirtyClusters, LOP_HotFix,
     LOP_EndTopLevelAction, LOP_PrepareTransaction, LOP_CommitTransaction, LOP_ForgetTransaction,
     LOP_CompensationLogRecord, LOP_OpenNonresidentAttribute, LOP_OpenAttributeTableDump,
     LOP_AttributeNamesDump, LOP_DirtyPageTableDump, LOP_TransactionTableDump}"

text \<open>The record at offset \<open>p\<close> of \<open>b\<close> already carries \<open>rlsn\<close> or a later LSN.\<close>

definition lsn_already_applied :: "buf \<Rightarrow> nat \<Rightarrow> nat \<Rightarrow> bool option" where
  "lsn_already_applied b p rlsn =
     (if rlsn = 0 then Some False
      else do {
        magic \<leftarrow> lf_get32 b p;
        if magic = LFS_MAGIC_HOLE then Some True
        else do { l \<leftarrow> lf_get64 b (p + 8); Some (l \<ge> rlsn) } })"

section \<open>Operations on MFT records\<close>

text \<open>Copying the first \<open>n\<close> bytes of \<open>data\<close> to offset \<open>p\<close>.\<close>

definition put_data :: "buf \<Rightarrow> nat \<Rightarrow> buf \<Rightarrow> nat \<Rightarrow> buf option" where
  "put_data rec p data n = do { d \<leftarrow> slice data 0 n; blit rec p d }"

definition act_InitializeFileRecordSegment :: "nat \<Rightarrow> buf \<Rightarrow> nat \<Rightarrow> buf \<Rightarrow> nat \<Rightarrow> (bool \<times> buf) option" where
  "act_InitializeFileRecordSegment rs rec roff data dlen =
     (if roff + dlen > rs then Some (False, rec)
      else do { rec \<leftarrow> put_data rec roff data dlen; Some (True, rec) })"

definition act_DeallocateFileRecordSegment :: "buf \<Rightarrow> (bool \<times> buf) option" where
  "act_DeallocateFileRecordSegment rec = do {
     flags \<leftarrow> lf_get16 rec MR_FLAGS;
     rec \<leftarrow> lf_put16 rec MR_FLAGS (flags AND (0xffff - MFT_RECORD_IN_USE));
     sq \<leftarrow> lf_get16 rec MR_SEQUENCE;
     rec \<leftarrow> lf_put16 rec MR_SEQUENCE (sq + 1);
     Some (True, rec) }"

definition act_WriteEndOfFileRecordSegment :: "nat \<Rightarrow> buf \<Rightarrow> nat \<Rightarrow> buf \<Rightarrow> nat \<Rightarrow> (bool \<times> buf) option" where
  "act_WriteEndOfFileRecordSegment rs rec roff data dlen = do {
     ok \<leftarrow> check_if_attr rec rs roff;
     if \<not> ok \<or> roff + dlen > rs then Some (False, rec)
     else do {
       rec \<leftarrow> put_data rec roff data dlen;
       rec \<leftarrow> lf_put32 rec MR_BYTES_IN_USE (LF_ALIGN8 (roff + dlen));
       Some (True, rec) } }"

text \<open>Is the attribute at \<open>roff\<close> resident and indexed?  Then it counts as a link.\<close>

definition attr_indexed :: "buf \<Rightarrow> nat \<Rightarrow> bool option" where
  "attr_indexed rec roff = do {
     nonres \<leftarrow> get8 rec (roff + AT_NON_RESIDENT);
     if nonres \<noteq> 0 then Some False
     else do { f \<leftarrow> get8 rec (roff + AT_RES_FLAGS); Some (f AND ATTR_RES_FLAG_INDEXED \<noteq> 0) } }"

definition act_CreateAttribute :: "nat \<Rightarrow> buf \<Rightarrow> nat \<Rightarrow> buf \<Rightarrow> nat \<Rightarrow> (bool \<times> buf) option" where
  "act_CreateAttribute rs rec roff data dlen =
     (if dlen < AT_RESIDENT_SIZE then Some (False, rec)
      else do {
        asize \<leftarrow> lf_get32 data AT_LENGTH;
        used \<leftarrow> lf_get32 rec MR_BYTES_IN_USE;
        ok \<leftarrow> check_if_attr rec rs roff;
        if \<not> ok \<or> asize AND 7 \<noteq> 0 \<or> asize > dlen \<or> asize < AT_RESIDENT_SIZE \<or>
           asize > sub32 rs used \<or> roff > used
        then Some (False, rec)
        else do {
          rec \<leftarrow> memmove rec (roff + asize) roff (used - roff);
          rec \<leftarrow> put_data rec roff data asize;
          rec \<leftarrow> lf_put32 rec MR_BYTES_IN_USE (used + asize);
          nid \<leftarrow> lf_get16 rec MR_NEXT_ATTR_ID;
          inst \<leftarrow> lf_get16 data AT_INSTANCE;
          rec \<leftarrow> (if nid \<le> inst then lf_put16 rec MR_NEXT_ATTR_ID (inst + 1) else Some rec);
          ix \<leftarrow> attr_indexed rec roff;
          rec \<leftarrow> (if ix then do {
                    lc \<leftarrow> lf_get16 rec MR_LINK_COUNT;
                    lf_put16 rec MR_LINK_COUNT (lc + 1) }
                  else Some rec);
          Some (True, rec) } })"

definition act_DeleteAttribute :: "nat \<Rightarrow> buf \<Rightarrow> nat \<Rightarrow> (bool \<times> buf) option" where
  "act_DeleteAttribute rs rec roff = do {
     ok \<leftarrow> check_if_attr rec rs roff;
     if \<not> ok then Some (False, rec)
     else do {
       asize \<leftarrow> lf_get32 rec (roff + AT_LENGTH);
       used \<leftarrow> lf_get32 rec MR_BYTES_IN_USE;
       if asize = 0 \<or> u32 (roff + asize) > used then Some (False, rec)
       else do {
         ix \<leftarrow> attr_indexed rec roff;
         rec \<leftarrow> (if ix then do {
                   lc \<leftarrow> lf_get16 rec MR_LINK_COUNT;
                   lf_put16 rec MR_LINK_COUNT (lc + 0xffff) }
                 else Some rec);
         rec \<leftarrow> memmove rec roff (roff + asize) (sub32 (sub32 used asize) roff);
         rec \<leftarrow> lf_put32 rec MR_BYTES_IN_USE (sub32 used asize);
         Some (True, rec) } } }"

text \<open>Moving what follows the attribute when its length changes from \<open>asize\<close> to \<open>nsize\<close>.\<close>

definition resize_attr :: "buf \<Rightarrow> nat \<Rightarrow> nat \<Rightarrow> nat \<Rightarrow> nat \<Rightarrow> buf option" where
  "resize_attr rec roff asize nsize used = do {
     rec \<leftarrow> memmove rec (roff + nsize) (roff + asize) (sub32 (sub32 used roff) asize);
     rec \<leftarrow> lf_put32 rec MR_BYTES_IN_USE (sub32 (u32 (used + nsize)) asize);
     lf_put32 rec (roff + AT_LENGTH) nsize }"

definition act_UpdateResidentValue ::
    "nat \<Rightarrow> buf \<Rightarrow> nat \<Rightarrow> nat \<Rightarrow> buf \<Rightarrow> nat \<Rightarrow> bool \<Rightarrow> (bool \<times> buf) option" where
  "act_UpdateResidentValue rs rec roff aoff data dlen same_len = do {
     let nsize = aoff + dlen;
     ok \<leftarrow> check_if_attr rec rs roff;
     if \<not> ok then Some (False, rec)
     else do {
       asize \<leftarrow> lf_get32 rec (roff + AT_LENGTH);
       used \<leftarrow> lf_get32 rec MR_BYTES_IN_USE;
       if same_len then
         (if nsize > asize then Some (False, rec)
          else do { rec \<leftarrow> put_data rec (roff + aoff) data dlen; Some (True, rec) })
       else if nsize > asize \<and> nsize - asize > sub32 rs used then Some (False, rec)
       else do {
         let nsize = LF_ALIGN8 nsize;
         data_ofs \<leftarrow> lf_get16 rec (roff + AT_VALUE_OFFSET);
         rec \<leftarrow> (if nsize < asize then put_data rec (roff + aoff) data dlen else Some rec);
         rec \<leftarrow> resize_attr rec roff asize nsize used;
         rec \<leftarrow> lf_put32 rec (roff + AT_VALUE_LENGTH) (sub32 (aoff + dlen) data_ofs);
         rec \<leftarrow> (if \<not> nsize < asize then put_data rec (roff + aoff) data dlen else Some rec);
         Some (True, rec) } } }"

definition act_UpdateMappingPairs :: "nat \<Rightarrow> buf \<Rightarrow> nat \<Rightarrow> nat \<Rightarrow> buf \<Rightarrow> nat \<Rightarrow> (bool \<times> buf) option" where
  "act_UpdateMappingPairs rs rec roff aoff data dlen = do {
     let nsize = aoff + dlen;
     asize \<leftarrow> lf_get32 rec (roff + AT_LENGTH);
     used \<leftarrow> lf_get32 rec MR_BYTES_IN_USE;
     ok \<leftarrow> check_if_attr rec rs roff;
     if \<not> ok then Some (False, rec)
     else do {
       nonres \<leftarrow> get8 rec (roff + AT_NON_RESIDENT);
       if nonres = 0 then Some (False, rec)
       else do {
         mpo \<leftarrow> lf_get16 rec (roff + AT_MAPPING_PAIRS_OFFSET);
         if aoff < mpo \<or> aoff > asize \<or> (nsize > asize \<and> nsize - asize > sub32 rs used)
         then Some (False, rec)
         else do {
           let nsize = LF_ALIGN8 nsize;
           rec \<leftarrow> resize_attr rec roff asize nsize used;
           rec \<leftarrow> put_data rec (roff + aoff) data dlen;
           mpo \<leftarrow> lf_get16 rec (roff + AT_MAPPING_PAIRS_OFFSET);
           lowest \<leftarrow> lf_get64 rec (roff + AT_LOWEST_VCN);
           (err, tmp) \<leftarrow> decode_mapping_pairs no_open_attr (drop (roff + mpo) rec) (sub32 nsize mpo) lowest;
           if err \<noteq> 0 then Some (False, rec)
           else if oa_runs tmp = [] then Some (True, rec)
           else do {
             let l = last (oa_runs tmp);
             rec \<leftarrow> lf_put64 rec (roff + AT_HIGHEST_VCN) (sub64 (u64 (run_vcn l + run_len l)) 1);
             Some (True, rec) } } } } }"

definition act_SetNewAttributeSizes :: "nat \<Rightarrow> buf \<Rightarrow> nat \<Rightarrow> buf \<Rightarrow> nat \<Rightarrow> (bool \<times> buf) option" where
  "act_SetNewAttributeSizes rs rec roff data dlen = do {
     ok \<leftarrow> check_if_attr rec rs roff;
     if \<not> ok then Some (False, rec)
     else do {
       nonres \<leftarrow> get8 rec (roff + AT_NON_RESIDENT);
       if nonres = 0 \<or> dlen < 0x18 then Some (False, rec)
       else do {
         al \<leftarrow> lf_get64 data NAS_ALLOC;
         rec \<leftarrow> lf_put64 rec (roff + AT_ALLOCATED_SIZE) al;
         ds \<leftarrow> lf_get64 data NAS_DATA;
         rec \<leftarrow> lf_put64 rec (roff + AT_DATA_SIZE) ds;
         vs \<leftarrow> lf_get64 data NAS_VALID;
         rec \<leftarrow> lf_put64 rec (roff + AT_INITIALIZED_SIZE) vs;
         len \<leftarrow> lf_get32 rec (roff + AT_LENGTH);
         if dlen \<ge> NAS_SIZE \<and> len \<ge> AT_NONRESIDENT_EX_SIZE then do {
           ts \<leftarrow> lf_get64 data NAS_TOTAL;
           rec \<leftarrow> lf_put64 rec (roff + AT_COMPRESSED_SIZE) ts;
           Some (True, rec) }
         else Some (True, rec) } } }"

definition act_ZeroEndOfFileRecord :: "nat \<Rightarrow> buf \<Rightarrow> nat \<Rightarrow> nat \<Rightarrow> (bool \<times> buf) option" where
  "act_ZeroEndOfFileRecord rs rec roff dlen =
     (if roff + dlen > rs then Some (False, rec)
      else do { rec \<leftarrow> memset0 rec roff dlen; Some (True, rec) })"

section \<open>Operations on index roots\<close>

definition root_entry_ok :: "nat \<Rightarrow> buf \<Rightarrow> nat \<Rightarrow> nat \<Rightarrow> bool option" where
  "root_entry_ok rs rec roff aoff = do {
     ok \<leftarrow> check_if_index_root rec rs roff;
     if \<not> ok then Some False else check_if_root_index rec roff aoff }"

definition root_header :: "buf \<Rightarrow> nat \<Rightarrow> nat option" where
  "root_header rec roff = do {
     vo \<leftarrow> lf_get16 rec (roff + AT_VALUE_OFFSET);
     Some (roff + vo + IR_INDEX_HEADER) }"

definition act_AddIndexEntryRoot :: "nat \<Rightarrow> buf \<Rightarrow> nat \<Rightarrow> nat \<Rightarrow> buf \<Rightarrow> nat \<Rightarrow> (bool \<times> buf) option" where
  "act_AddIndexEntryRoot rs rec roff aoff data dlen =
     (if dlen < IE_MIN_SIZE then Some (False, rec)
      else do {
        esize \<leftarrow> lf_get16 data IE_LENGTH;
        ok \<leftarrow> root_entry_ok rs rec roff aoff;
        alloc \<leftarrow> lf_get32 rec MR_BYTES_ALLOCATED;
        inuse \<leftarrow> lf_get32 rec MR_BYTES_IN_USE;
        if \<not> ok \<or> esize > dlen \<or> esize < IE_MIN_SIZE \<or> esize > sub32 alloc inuse then Some (False, rec)
        else do {
          hdr \<leftarrow> root_header rec roff;
          used \<leftarrow> lf_get32 rec (hdr + IH_INDEX_LENGTH);
          let e1 = roff + aoff;
          if e1 > hdr + used then Some (False, rec)
          else do {
            alen \<leftarrow> lf_get32 rec (roff + AT_LENGTH);
            rec \<leftarrow> change_attr_size rec roff (u32 (alen + esize));
            rec \<leftarrow> memmove rec (e1 + esize) e1 (hdr + used - e1);
            rec \<leftarrow> put_data rec e1 data esize;
            vl \<leftarrow> lf_get32 rec (roff + AT_VALUE_LENGTH);
            rec \<leftarrow> lf_put32 rec (roff + AT_VALUE_LENGTH) (vl + esize);
            rec \<leftarrow> lf_put32 rec (hdr + IH_INDEX_LENGTH) (used + esize);
            tot \<leftarrow> lf_get32 rec (hdr + IH_ALLOCATED_SIZE);
            rec \<leftarrow> lf_put32 rec (hdr + IH_ALLOCATED_SIZE) (tot + esize);
            Some (True, rec) } } })"

definition act_DeleteIndexEntryRoot :: "nat \<Rightarrow> buf \<Rightarrow> nat \<Rightarrow> nat \<Rightarrow> (bool \<times> buf) option" where
  "act_DeleteIndexEntryRoot rs rec roff aoff = do {
     ok \<leftarrow> root_entry_ok rs rec roff aoff;
     if \<not> ok then Some (False, rec)
     else do {
       hdr \<leftarrow> root_header rec roff;
       used \<leftarrow> lf_get32 rec (hdr + IH_INDEX_LENGTH);
       let e1 = roff + aoff;
       esize \<leftarrow> lf_get16 rec (e1 + IE_LENGTH);
       if e1 + esize > hdr + used \<or> esize = 0 then Some (False, rec)
       else do {
         rec \<leftarrow> memmove rec e1 (e1 + esize) (hdr + used - (e1 + esize));
         vl \<leftarrow> lf_get32 rec (roff + AT_VALUE_LENGTH);
         rec \<leftarrow> lf_put32 rec (roff + AT_VALUE_LENGTH) (sub32 vl esize);
         rec \<leftarrow> lf_put32 rec (hdr + IH_INDEX_LENGTH) (sub32 used esize);
         tot \<leftarrow> lf_get32 rec (hdr + IH_ALLOCATED_SIZE);
         rec \<leftarrow> lf_put32 rec (hdr + IH_ALLOCATED_SIZE) (sub32 tot esize);
         alen \<leftarrow> lf_get32 rec (roff + AT_LENGTH);
         rec \<leftarrow> change_attr_size rec roff (sub32 alen esize);
         Some (True, rec) } } }"

definition act_SetIndexEntryVcnRoot :: "nat \<Rightarrow> buf \<Rightarrow> nat \<Rightarrow> nat \<Rightarrow> buf \<Rightarrow> nat \<Rightarrow> (bool \<times> buf) option" where
  "act_SetIndexEntryVcnRoot rs rec roff aoff data dlen = do {
     ok \<leftarrow> root_entry_ok rs rec roff aoff;
     if \<not> ok \<or> dlen < 8 then Some (False, rec)
     else do {
       let e = roff + aoff;
       esize \<leftarrow> lf_get16 rec (e + IE_LENGTH);
       alen \<leftarrow> lf_get32 rec (roff + AT_LENGTH);
       if esize < IE_MIN_SIZE + 8 \<or> aoff + esize > alen then Some (False, rec)
       else do {
         v \<leftarrow> lf_get64 data 0;
         rec \<leftarrow> lf_put64 rec (e + esize - 8) v;
         Some (True, rec) } } }"

definition act_UpdateFileNameRoot :: "nat \<Rightarrow> buf \<Rightarrow> nat \<Rightarrow> nat \<Rightarrow> buf \<Rightarrow> nat \<Rightarrow> (bool \<times> buf) option" where
  "act_UpdateFileNameRoot rs rec roff aoff data dlen = do {
     ok \<leftarrow> root_entry_ok rs rec roff aoff;
     if \<not> ok \<or> dlen < FN_DUP_SIZE then Some (False, rec)
     else do {
       alen \<leftarrow> lf_get32 rec (roff + AT_LENGTH);
       if aoff + IE_KEY + FN_DUP_OFFSET + FN_DUP_SIZE > alen then Some (False, rec)
       else do {
         rec \<leftarrow> put_data rec (roff + aoff + IE_KEY + FN_DUP_OFFSET) data FN_DUP_SIZE;
         Some (True, rec) } } }"

definition act_UpdateRecordDataRoot :: "nat \<Rightarrow> buf \<Rightarrow> nat \<Rightarrow> nat \<Rightarrow> buf \<Rightarrow> nat \<Rightarrow> (bool \<times> buf) option" where
  "act_UpdateRecordDataRoot rs rec roff aoff data dlen = do {
     ok \<leftarrow> root_entry_ok rs rec roff aoff;
     if \<not> ok then Some (False, rec)
     else do {
       let e = roff + aoff;
       doff \<leftarrow> lf_get16 rec (e + IE_DATA_OFFSET);
       alen \<leftarrow> lf_get32 rec (roff + AT_LENGTH);
       if aoff + doff + dlen > alen then Some (False, rec)
       else do {
         rec \<leftarrow> put_data rec (e + doff) data dlen;
         Some (True, rec) } } }"

text \<open>The \<open>switch\<close> on the operation.\<close>

definition mft_apply ::
    "nat \<Rightarrow> nat \<Rightarrow> buf \<Rightarrow> nat \<Rightarrow> nat \<Rightarrow> buf \<Rightarrow> nat \<Rightarrow> bool \<Rightarrow> (bool \<times> buf) option" where
  "mft_apply op rs rec roff aoff data dlen same_len =
     (if op = LOP_InitializeFileRecordSegment then act_InitializeFileRecordSegment rs rec roff data dlen
      else if op = LOP_DeallocateFileRecordSegment then act_DeallocateFileRecordSegment rec
      else if op = LOP_WriteEndOfFileRecordSegment then act_WriteEndOfFileRecordSegment rs rec roff data dlen
      else if op = LOP_CreateAttribute then act_CreateAttribute rs rec roff data dlen
      else if op = LOP_DeleteAttribute then act_DeleteAttribute rs rec roff
      else if op = LOP_UpdateResidentValue then act_UpdateResidentValue rs rec roff aoff data dlen same_len
      else if op = LOP_UpdateMappingPairs then act_UpdateMappingPairs rs rec roff aoff data dlen
      else if op = LOP_SetNewAttributeSizes then act_SetNewAttributeSizes rs rec roff data dlen
      else if op = LOP_AddIndexEntryRoot then act_AddIndexEntryRoot rs rec roff aoff data dlen
      else if op = LOP_DeleteIndexEntryRoot then act_DeleteIndexEntryRoot rs rec roff aoff
      else if op = LOP_SetIndexEntryVcnRoot then act_SetIndexEntryVcnRoot rs rec roff aoff data dlen
      else if op = LOP_UpdateFileNameRoot then act_UpdateFileNameRoot rs rec roff aoff data dlen
      else if op = LOP_UpdateRecordDataRoot then act_UpdateRecordDataRoot rs rec roff aoff data dlen
      else if op = LOP_ZeroEndOfFileRecord then act_ZeroEndOfFileRecord rs rec roff dlen
      else Some (False, rec))"

section \<open>The MFT part of \<open>do_action\<close>\<close>

record action_ctx =
  ac_lsn :: nat
  ac_lr :: buf
  ac_op :: nat
  ac_data :: buf
  ac_dlen :: nat
  ac_undo :: bool

text \<open>
  Heuristic H1: every non-zero page LCN the record carries must be where the run list of
  $MFT puts that VCN.
\<close>

primrec lcns_agree :: "buf \<Rightarrow> open_attr \<Rightarrow> nat \<Rightarrow> nat list \<Rightarrow> bool option" where
  "lcns_agree lr oa tvcn [] = Some True"
| "lcns_agree lr oa tvcn (i # is) = do {
     logged \<leftarrow> lf_get64 lr (NR_PAGE_LCNS + 8 * i);
     if logged = 0 then lcns_agree lr oa tvcn is
     else if run_lookup_mapped oa (u64 (tvcn + i)) \<noteq> Some logged then Some False
     else lcns_agree lr oa tvcn is }"

text \<open>
  The checks before the operation: 0 to go on, \<open>LFS_SKIPPED\<close> when the record already carries
  the LSN or a later one, \<open>-EINVAL\<close> when the record cannot be used.
\<close>

definition mft_gate :: "nat \<Rightarrow> nat \<Rightarrow> nat \<Rightarrow> bool \<Rightarrow> buf \<Rightarrow> int option" where
  "mft_gate rs op lsn bad rec =
     (if op \<noteq> LOP_DeallocateFileRecordSegment \<and> op \<noteq> LOP_InitializeFileRecordSegment then
        (if bad then Some (- EINVAL)
         else do {
           ap \<leftarrow> lsn_already_applied rec 0 lsn;
           if ap then Some LFS_SKIPPED
           else do {
             ok \<leftarrow> check_file_record rs rec;
             Some (if ok then 0 else - EINVAL) } })
      else if op = LOP_DeallocateFileRecordSegment then
        (if bad then Some (- EINVAL)
         else do {
           ap \<leftarrow> lsn_already_applied rec 0 lsn;
           Some (if ap then LFS_SKIPPED else 0) })
      else if bad then Some 0
      else do {
        magic \<leftarrow> lf_get32 rec 0;
        if magic \<noteq> LFS_MAGIC_FILE then Some 0
        else do {
          ap \<leftarrow> lsn_already_applied rec 0 lsn;
          Some (if ap then LFS_SKIPPED else 0) } })"

definition op_invalidates :: "nat \<Rightarrow> bool" where
  "op_invalidates op \<longleftrightarrow> op \<in> {LOP_InitializeFileRecordSegment, LOP_DeallocateFileRecordSegment,
     LOP_WriteEndOfFileRecordSegment, LOP_CreateAttribute, LOP_DeleteAttribute,
     LOP_UpdateResidentValue, LOP_UpdateMappingPairs, LOP_SetNewAttributeSizes,
     LOP_ZeroEndOfFileRecord}"

definition plan_of :: "nat \<Rightarrow> action_ctx \<Rightarrow> nat \<Rightarrow> plan_entry" where
  "plan_of target_attr a tvcn =
     no_plan_entry\<lparr>pe_lsn := ac_lsn a, pe_op := ac_op a, pe_undo := ac_undo a,
       pe_target_attr := target_attr, pe_target_vcn := tvcn\<rparr>"

text \<open>Applying the operation to overlay record \<open>mi\<close>: the change, the LSN stamp, the plan entry.\<close>

definition mft_commit :: "replay \<Rightarrow> nat \<Rightarrow> nat \<Rightarrow> nat \<Rightarrow> nat \<Rightarrow> action_ctx \<Rightarrow> bool \<Rightarrow> plan_entry \<Rightarrow>
    (int \<times> replay) option" where
  "mft_commit r mi mft_no roff aoff a same_len pe = do {
     (ok, rec) \<leftarrow> mft_apply (ac_op a) (r_rs r) (om_rec (r_mft r ! mi)) roff aoff (ac_data a) (ac_dlen a) same_len;
     if \<not> ok then
       Some (- EINVAL, r\<lparr>r_mft := (r_mft r)[mi := (r_mft r ! mi)\<lparr>om_rec := rec\<rparr>]\<rparr>)
     else do {
       rec \<leftarrow> (if ac_lsn a \<noteq> 0 then lf_put64 rec MR_LSN (ac_lsn a) else Some rec);
       let r = r\<lparr>r_mft := (r_mft r)[mi := (r_mft r ! mi)\<lparr>om_rec := rec, om_dirty := True, om_bad := False\<rparr>]\<rparr>;
       let r = (if op_invalidates (ac_op a) then oa_invalidate_mft r mft_no else r);
       Some (0, lfs_plan_add r (pe\<lparr>pe_kind := NTFS_PLAN_MFT_RECORD, pe_mft_no := mft_no\<rparr>)) } }"

definition do_action_mft :: "replay \<Rightarrow> nat \<Rightarrow> action_ctx \<Rightarrow> (int \<times> replay) option" where
  "do_action_mft r target_attr a = do {
     let lr = ac_lr a;
     roff \<leftarrow> lf_get16 lr NR_RECORD_OFFSET;
     aoff \<leftarrow> lf_get16 lr NR_ATTRIBUTE_OFFSET;
     cb \<leftarrow> lf_get16 lr NR_CLUSTER_BLOCK_OFFSET;
     tvcn \<leftarrow> lf_get64 lr NR_TARGET_VCN;
     lcns \<leftarrow> lf_get16 lr NR_LCNS_TO_FOLLOW;
     redo_len \<leftarrow> lf_get16 lr NR_REDO_LENGTH;
     undo_len \<leftarrow> lf_get16 lr NR_UNDO_LENGTH;
     let vbo = u64 (cb * 2 ^ LFS_SECTOR_SHIFT + u64 (tvcn * r_cs r));
     let mft_no = vbo div r_rs r;
     (err, r, oi) \<leftarrow> oa_load r target_attr;
     if err \<noteq> 0 then Some (- EINVAL, r)
     else if \<not> oa_is_mft_data (r_oa r ! oi) then Some (- EINVAL, r)
     else do {
       agree \<leftarrow> lcns_agree lr (r_oa r ! oi) tvcn [0..<lcns];
       if \<not> agree then Some (- EINVAL, r)
       else if mft_no \<ge> 2 ^ 48 then Some (- EINVAL, r)
       else do {
         (err, r, mi) \<leftarrow> ovl_get_mft r mft_no (ac_op a = LOP_InitializeFileRecordSegment);
         if err \<noteq> 0 then Some (err, r)
         else do {
           g \<leftarrow> mft_gate (r_rs r) (ac_op a) (ac_lsn a) (om_bad (r_mft r ! mi)) (om_rec (r_mft r ! mi));
           if g = LFS_SKIPPED then Some (plan_skip r (ac_lsn a) (ac_op a) (ac_undo a))
           else if g \<noteq> 0 then Some (g, r)
           else if roff \<ge> r_rs r then Some (- EINVAL, r)
           else mft_commit r mi mft_no roff aoff a (redo_len = undo_len) (plan_of target_attr a tvcn) } } } }"

section \<open>Operations on index blocks\<close>

text \<open>
  The buffer \<open>b\<close> holds the transfer, the index block starts at \<open>ib\<close>; \<open>used\<close> and \<open>total\<close> are the
  lengths of its index header.
\<close>

definition index_apply :: "nat \<Rightarrow> buf \<Rightarrow> nat \<Rightarrow> nat \<Rightarrow> buf \<Rightarrow> nat \<Rightarrow> (bool \<times> buf) option" where
  "index_apply op b ib aoff data dlen = do {
     let hdr = ib + IB_INDEX_HEADER;
     let e = ib + aoff;
     used \<leftarrow> lf_get32 b (hdr + IH_INDEX_LENGTH);
     total \<leftarrow> lf_get32 b (hdr + IH_ALLOCATED_SIZE);
     if op = LOP_AddIndexEntryAllocation then
       (if dlen < IE_MIN_SIZE then Some (False, b)
        else do {
          esize \<leftarrow> lf_get16 data IE_LENGTH;
          if esize > dlen \<or> u32 (used + esize) > total \<or> e > hdr + used then Some (False, b)
          else do {
            b \<leftarrow> memmove b (e + esize) e (hdr + used - e);
            b \<leftarrow> put_data b e data esize;
            b \<leftarrow> lf_put32 b (hdr + IH_INDEX_LENGTH) (used + esize);
            Some (True, b) } })
     else if op = LOP_DeleteIndexEntryAllocation then do {
       esize \<leftarrow> lf_get16 b (e + IE_LENGTH);
       if esize = 0 \<or> e + esize > hdr + used then Some (False, b)
       else do {
         b \<leftarrow> memmove b e (e + esize) (hdr + used - (e + esize));
         b \<leftarrow> lf_put32 b (hdr + IH_INDEX_LENGTH) (sub32 used esize);
         Some (True, b) } }
     else if op = LOP_WriteEndOfIndexBuffer then
       (if aoff + dlen > u32 (IB_INDEX_HEADER + total) then Some (False, b)
        else do {
          b \<leftarrow> lf_put32 b (hdr + IH_INDEX_LENGTH) (u32 (dlen + sub32 aoff IB_INDEX_HEADER));
          b \<leftarrow> put_data b e data dlen;
          Some (True, b) })
     else if op = LOP_SetIndexEntryVcnAllocation then do {
       esize \<leftarrow> lf_get16 b (e + IE_LENGTH);
       if dlen < 8 \<or> esize < IE_MIN_SIZE + 8 \<or> e + esize > hdr + used then Some (False, b)
       else do {
         v \<leftarrow> lf_get64 data 0;
         b \<leftarrow> lf_put64 b (e + esize - 8) v;
         Some (True, b) } }
     else if op = LOP_UpdateFileNameAllocation then
       (if dlen < FN_DUP_SIZE \<or> e + IE_KEY + FN_DUP_OFFSET + FN_DUP_SIZE > hdr + used then Some (False, b)
        else do {
          b \<leftarrow> put_data b (e + IE_KEY + FN_DUP_OFFSET) data FN_DUP_SIZE;
          Some (True, b) })
     else if op = LOP_UpdateRecordDataAllocation then do {
       doff \<leftarrow> lf_get16 b (e + IE_DATA_OFFSET);
       if e + doff + dlen > hdr + total then Some (False, b)
       else do {
         b \<leftarrow> put_data b (e + doff) data dlen;
         Some (True, b) } }
     else Some (False, b) }"

text \<open>A fixup applied to the part of the buffer behind \<open>ib\<close>.\<close>

definition deprotect_at :: "buf \<Rightarrow> nat \<Rightarrow> nat \<Rightarrow> (int \<times> buf \<times> bool) option" where
  "deprotect_at b ib n = do {
     (err, x, torn) \<leftarrow> lfs_fixup_post_read (drop ib b) n LFS_SECTOR_SIZE;
     Some (err, take ib b @ x, torn) }"

definition protect_at :: "buf \<Rightarrow> nat \<Rightarrow> nat \<Rightarrow> (int \<times> buf) option" where
  "protect_at b ib n = do {
     (err, x) \<leftarrow> lfs_fixup_pre_write (drop ib b) n LFS_SECTOR_SIZE;
     Some (err, take ib b @ x) }"

text \<open>
  The three groups of operations on an attribute's transfer buffer: return code (0,
  \<open>LFS_SKIPPED\<close> or \<open>-EINVAL\<close>) and buffer.
\<close>

definition act_UpdateNonresidentValue ::
    "buf \<Rightarrow> nat \<Rightarrow> nat \<Rightarrow> nat \<Rightarrow> nat \<Rightarrow> buf \<Rightarrow> nat \<Rightarrow> bool \<Rightarrow> (int \<times> buf) option" where
  "act_UpdateNonresidentValue b bytes roff lco cbo data dlen deprotected =
     (if lco < cbo + roff + dlen then Some (- EINVAL, b)
      else do {
        b \<leftarrow> put_data b roff data dlen;
        indx \<leftarrow> (if deprotected then Some True
                else do { m \<leftarrow> lf_get32 b roff; Some (m = LFS_MAGIC_INDX) });
        if indx then do {
          (err, b) \<leftarrow> protect_at b roff (sub32 bytes roff);
          Some (if err \<noteq> 0 then - EINVAL else 0, b) }
        else Some (0, b) })"

definition act_bitmap :: "nat \<Rightarrow> buf \<Rightarrow> nat \<Rightarrow> nat \<Rightarrow> nat \<Rightarrow> nat \<Rightarrow> buf \<Rightarrow> nat \<Rightarrow> (int \<times> buf) option" where
  "act_bitmap op b bytes roff lco cbo data dlen =
     (if dlen < BR_SIZE then Some (- EINVAL, b)
      else do {
        boff \<leftarrow> lf_get32 data BR_BITMAP_OFF;
        bits \<leftarrow> lf_get32 data BR_BITS;
        if cbo + (boff + 7) div 8 > lco \<or> cbo + (boff + bits + 7) div 8 > lco \<or>
           roff + (boff + bits + 7) div 8 > bytes
        then Some (- EINVAL, b)
        else do {
          b \<leftarrow> bitmap_op bits b roff boff (op = LOP_SetBitsInNonresidentBitMap);
          Some (0, b) } })"

definition act_index :: "nat \<Rightarrow> buf \<Rightarrow> nat \<Rightarrow> nat \<Rightarrow> nat \<Rightarrow> buf \<Rightarrow> nat \<Rightarrow> nat \<Rightarrow> (int \<times> buf) option" where
  "act_index op b bytes roff aoff data dlen lsn = do {
     magic \<leftarrow> lf_get32 b roff;
     if magic = LFS_MAGIC_BAAD then Some (- EINVAL, b)
     else do {
       ap \<leftarrow> lsn_already_applied b roff lsn;
       if ap then Some (LFS_SKIPPED, b)
       else do {
         ok \<leftarrow> check_index_buffer b roff (sub32 bytes roff);
         if \<not> ok then Some (- EINVAL, b)
         else do {
           ok \<leftarrow> check_if_alloc_index b roff aoff;
           if \<not> ok then Some (- EINVAL, b)
           else do {
             (ok, b) \<leftarrow> index_apply op b roff aoff data dlen;
             if \<not> ok then Some (- EINVAL, b)
             else do {
               b \<leftarrow> (if lsn \<noteq> 0 then lf_put64 b (roff + IB_LSN) lsn else Some b);
               (err, b) \<leftarrow> protect_at b roff (sub32 bytes roff);
               Some (if err \<noteq> 0 then - EINVAL else 0, b) } } } } } }"

section \<open>The attribute part of \<open>do_action\<close>\<close>

text \<open>The size of the transfer, or nothing when the record is refused.\<close>

definition transfer_bytes :: "open_attr \<Rightarrow> nat \<Rightarrow> nat \<Rightarrow> nat \<Rightarrow> nat \<Rightarrow> nat \<Rightarrow> nat option" where
  "transfer_bytes oa op roff lco cbo dlen = (
     let index = (oa_type oa = ATTR_TYPE_INDEX_ALLOCATION);
         n0 = (if op = LOP_UpdateNonresidentValue then dlen else 0);
         n1 = (if index \<and> n0 < oa_bytes_per_index oa then oa_bytes_per_index oa else n0)
     in if n1 = 0 \<and> lco \<le> cbo then None
        else (
          let n2 = u32 ((if n1 = 0 then u32 (lco - cbo) else n1) + roff);
              n3 = (if index then and_not32 (u32 (n2 + 511)) 511 else n2)
          in if n3 > 64 * 1024 * 1024 then None else Some n3))"

text \<open>Deprotecting an index block that is one; the flag says that it was done.\<close>

definition deprotect_index :: "open_attr \<Rightarrow> buf \<Rightarrow> nat \<Rightarrow> nat \<Rightarrow> (int \<times> buf \<times> bool) option" where
  "deprotect_index oa b roff bytes =
     (if oa_type oa \<noteq> ATTR_TYPE_INDEX_ALLOCATION then Some (0, b, False)
      else do {
        magic \<leftarrow> lf_get32 b roff;
        if magic \<noteq> LFS_MAGIC_INDX then Some (0, b, False)
        else do {
          (err, b, torn) \<leftarrow> deprotect_at b roff (sub32 bytes roff);
          if err \<noteq> 0 \<or> torn then Some (- EINVAL, b, False) else Some (0, b, True) } })"

definition attr_apply :: "nat \<Rightarrow> buf \<Rightarrow> nat \<Rightarrow> nat \<Rightarrow> nat \<Rightarrow> nat \<Rightarrow> nat \<Rightarrow> action_ctx \<Rightarrow> bool \<Rightarrow>
    (int \<times> buf) option" where
  "attr_apply op b bytes roff aoff lco cbo a deprotected =
     (if op = LOP_UpdateNonresidentValue then
        act_UpdateNonresidentValue b bytes roff lco cbo (ac_data a) (ac_dlen a) deprotected
      else if op = LOP_SetBitsInNonresidentBitMap \<or> op = LOP_ClearBitsInNonresidentBitMap then
        act_bitmap op b bytes roff lco cbo (ac_data a) (ac_dlen a)
      else act_index op b bytes roff aoff (ac_data a) (ac_dlen a) (ac_lsn a))"

definition do_action_attr :: "replay \<Rightarrow> nat \<Rightarrow> action_ctx \<Rightarrow> (int \<times> replay) option" where
  "do_action_attr r target_attr a = do {
     let lr = ac_lr a;
     roff \<leftarrow> lf_get16 lr NR_RECORD_OFFSET;
     aoff \<leftarrow> lf_get16 lr NR_ATTRIBUTE_OFFSET;
     cb \<leftarrow> lf_get16 lr NR_CLUSTER_BLOCK_OFFSET;
     tvcn \<leftarrow> lf_get64 lr NR_TARGET_VCN;
     lcns \<leftarrow> lf_get16 lr NR_LCNS_TO_FOLLOW;
     let cbo = cb * 2 ^ LFS_SECTOR_SHIFT;
     let vbo = u64 (cbo + u64 (tvcn * r_cs r));
     let lco = u64 (lcns * r_cs r);
     (err, r, oi) \<leftarrow> oa_load r target_attr;
     if err \<noteq> 0 then Some (err, r)
     else (
       let oa = r_oa r ! oi in
       case transfer_bytes oa (ac_op a) roff lco cbo (ac_dlen a) of
         None \<Rightarrow> Some (- EINVAL, r)
       | Some bytes \<Rightarrow> do {
           (err, r, b, first_lcn) \<leftarrow> attr_io r oa vbo (replicate bytes 0) 0 bytes False SPARSE_LCN;
           if err \<noteq> 0 then Some (err, r)
           else do {
             (err, b, deprotected) \<leftarrow> deprotect_index oa b roff bytes;
             if err \<noteq> 0 then Some (err, r)
             else do {
               (err, b) \<leftarrow> attr_apply (ac_op a) b bytes roff aoff lco cbo a deprotected;
               if err = LFS_SKIPPED then Some (plan_skip r (ac_lsn a) (ac_op a) (ac_undo a))
               else if err \<noteq> 0 then Some (err, r)
               else do {
                 (err, r, b, _) \<leftarrow> attr_io r oa vbo b 0 bytes True SPARSE_LCN;
                 if err \<noteq> 0 then Some (err, r)
                 else
                   Some (0, lfs_plan_add r ((plan_of target_attr a tvcn)\<lparr>pe_kind := NTFS_PLAN_CLUSTERS,
                     pe_lcn := first_lcn,
                     pe_count := u32 (bytes + vbo mod r_cs r + r_cs r - 1) div r_cs r\<rparr>)) } } } }) }"

definition do_action :: "replay \<Rightarrow> nat \<Rightarrow> action_ctx \<Rightarrow> (int \<times> replay) option" where
  "do_action r target_attr a =
     (if op_is_mft (ac_op a) then do_action_mft r target_attr a
      else if op_is_attr (ac_op a) then do_action_attr r target_attr a
      else Some (- EINVAL, r))"

end
