(* ===== verification/Lfs_Passes.thy ===== *)
theory Lfs_Passes
  imports Lfs_Action
begin

text \<open>
  The analysis, redo and undo passes, the flush of the overlay and \<open>ntfs_logfile_replay\<close>
  (core/logfile/logfile_replay.c).

  Loops that follow the log or walk a table are partial functions: a loop that never ends is
  \<open>None\<close>.  The volume is a state of any type, read and written through the callbacks of
  \<open>struct ntfs_log_apply\<close>; a callback that is NULL is \<open>None\<close>.
\<close>

section \<open>Analysis\<close>

definition and_not64 :: "nat \<Rightarrow> nat \<Rightarrow> nat" where
  "and_not64 x m = x AND (18446744073709551615 - m)"

partial_function (option) find_dp_from :: "buf option \<Rightarrow> nat \<Rightarrow> nat \<Rightarrow> nat option \<Rightarrow> nat option option" where
  "find_dp_from t ta vcn cur =
     Option.bind (lfs_table_next t cur) (\<lambda>nxt. case nxt of None \<Rightarrow> Some None
       | Some dp \<Rightarrow> Option.bind t (\<lambda>b.
           Option.bind (lf_get64 b (dp + DP1_VCN)) (\<lambda>dv.
             Option.bind (lf_get32 b (dp + DP1_TARGET_ATTR)) (\<lambda>tgt.
               Option.bind (lf_get32 b (dp + DP1_LCNS_FOLLOW)) (\<lambda>n.
                 if tgt = ta \<and> vcn \<ge> dv \<and> vcn < u64 (dv + n) then Some (Some dp)
                 else find_dp_from t ta vcn (Some dp))))))"

definition find_dp :: "('a) lfs_log_scheme \<Rightarrow> nat \<Rightarrow> nat \<Rightarrow> nat option option" where
  "find_dp log ta vcn = find_dp_from (dptbl log) ta vcn None"

text \<open>Transaction table upkeep for the record at \<open>lsn\<close>.\<close>

definition an_transaction :: "'a lfs_log_scheme \<Rightarrow> nat \<Rightarrow> nat \<Rightarrow> lfs_record \<Rightarrow> (int \<times> 'a lfs_log_scheme) option" where
  "an_transaction log tid lsn rec = do {
     ok \<leftarrow> lfs_table_entry_ok (trtbl log) tid;
     t \<leftarrow> trtbl log;
     (err, t) \<leftarrow> (if ok then Some (0, t)
       else do {
         (t, e) \<leftarrow> lfs_table_alloc_at t tid;
         (case e of None \<Rightarrow> Some (- EINVAL, t)
          | Some tr \<Rightarrow> do {
              t \<leftarrow> put8 t (tr + TR_STATE) TRANSACTION_ACTIVE;
              t \<leftarrow> lf_put64 t (tr + TR_FIRST_LSN) lsn;
              Some (0, t) }) });
     if err \<noteq> 0 then Some (err, log\<lparr>trtbl := Some t\<rparr>)
     else do {
       t \<leftarrow> lf_put64 t (tid + TR_PREV_LSN) lsn;
       t \<leftarrow> lf_put64 t (tid + TR_UNDO_NEXT_LSN) lsn;
       undo_op \<leftarrow> lf_get16 (rec_data rec) NR_UNDO_OP;
       t \<leftarrow> (if undo_op = LOP_CompensationLogRecord then do {
               un \<leftarrow> lf_get64 (rec_hdr rec) LR_CLIENT_UNDO_NEXT_LSN;
               lf_put64 t (tid + TR_UNDO_NEXT_LSN) un }
             else Some t);
       Some (0, log\<lparr>trtbl := Some t\<rparr>) } }"

text \<open>A dirty page entry for the target of the record, found or made.\<close>

definition an_new_dp :: "'a lfs_log_scheme \<Rightarrow> nat \<Rightarrow> nat \<Rightarrow> nat \<Rightarrow> nat \<Rightarrow>
    (int \<times> 'a lfs_log_scheme \<times> nat) option" where
  "an_new_dp log cs lsn ta tvcn = do {
     (per_page, t) \<leftarrow> (case dptbl log of
         Some t \<Rightarrow> do { es \<leftarrow> lfs_table_esize t; Some (sub32 es DP1_SIZE div 8, t) }
       | None \<Rightarrow> do {
           t \<leftarrow> lfs_table_init (u16 (DP1_SIZE + 8 * clst_per_page log)) 32;
           Some (clst_per_page log, t) });
     (t, e) \<leftarrow> lfs_table_alloc t;
     (case e of None \<Rightarrow> Some (- ENOMEM, log\<lparr>dptbl := Some t\<rparr>, 0)
      | Some dp \<Rightarrow> do {
          t \<leftarrow> lf_put32 t (dp + DP1_TARGET_ATTR) ta;
          t \<leftarrow> lf_put32 t (dp + DP1_TRANSFER_LEN) (per_page * cs);
          t \<leftarrow> lf_put32 t (dp + DP1_LCNS_FOLLOW) per_page;
          t \<leftarrow> lf_put64 t (dp + DP1_VCN) (and_not64 tvcn (sub64 per_page 1));
          t \<leftarrow> lf_put64 t (dp + DP1_OLDEST_LSN) lsn;
          Some (0, log\<lparr>dptbl := Some t\<rparr>, dp) }) }"

primrec an_copy_lcns :: "buf \<Rightarrow> nat \<Rightarrow> nat \<Rightarrow> nat \<Rightarrow> nat \<Rightarrow> nat list \<Rightarrow> buf \<Rightarrow> buf option" where
  "an_copy_lcns lr dp per_page tvcn dv [] t = Some t"
| "an_copy_lcns lr dp per_page tvcn dv (i # is) t = do {
     let j = u64 (sub64 tvcn dv + i);
     t \<leftarrow> (if j < per_page then do {
             l \<leftarrow> lf_get64 lr (NR_PAGE_LCNS + 8 * i);
             lf_put64 t (dp + DP1_PAGE_LCNS + 8 * j) l }
           else Some t);
     an_copy_lcns lr dp per_page tvcn dv is t }"

definition an_dirty_page :: "'a lfs_log_scheme \<Rightarrow> nat \<Rightarrow> nat \<Rightarrow> buf \<Rightarrow> (int \<times> 'a lfs_log_scheme) option" where
  "an_dirty_page log cs lsn lr = do {
     ta \<leftarrow> lf_get16 lr NR_TARGET_ATTRIBUTE;
     tvcn \<leftarrow> lf_get64 lr NR_TARGET_VCN;
     lcns \<leftarrow> lf_get16 lr NR_LCNS_TO_FOLLOW;
     found \<leftarrow> find_dp log ta tvcn;
     (err, log, dp) \<leftarrow> (case found of Some dp \<Rightarrow> Some (0, log, dp) | None \<Rightarrow> an_new_dp log cs lsn ta tvcn);
     if err \<noteq> 0 then Some (err, log)
     else do {
       t \<leftarrow> dptbl log;
       per_page \<leftarrow> lf_get32 t (dp + DP1_LCNS_FOLLOW);
       dv \<leftarrow> lf_get64 t (dp + DP1_VCN);
       t \<leftarrow> an_copy_lcns lr dp per_page tvcn dv [0..<lcns] t;
       Some (0, log\<lparr>dptbl := Some t\<rparr>) } }"

text \<open>\<open>DeleteDirtyClusters\<close>: LCNs of a deleted range are zeroed in every dirty page entry.\<close>

primrec an_zero_lcns :: "nat \<Rightarrow> nat \<Rightarrow> nat \<Rightarrow> nat list \<Rightarrow> buf \<Rightarrow> buf option" where
  "an_zero_lcns l0 le dp [] t = Some t"
| "an_zero_lcns l0 le dp (j # js) t = do {
     l \<leftarrow> lf_get64 t (dp + DP1_PAGE_LCNS + 8 * j);
     t \<leftarrow> (if l \<ge> l0 \<and> l \<le> le then lf_put64 t (dp + DP1_PAGE_LCNS + 8 * j) 0 else Some t);
     an_zero_lcns l0 le dp js t }"

partial_function (option) an_zero_pages :: "nat \<Rightarrow> nat \<Rightarrow> buf \<Rightarrow> nat option \<Rightarrow> buf option" where
  "an_zero_pages l0 le t cur =
     Option.bind (lfs_table_next (Some t) cur) (\<lambda>nxt. case nxt of None \<Rightarrow> Some t
       | Some dp \<Rightarrow> Option.bind (lf_get32 t (dp + DP1_LCNS_FOLLOW)) (\<lambda>cnt.
           Option.bind (an_zero_lcns l0 le dp [0..<cnt] t) (\<lambda>t'. an_zero_pages l0 le t' (Some dp))))"

primrec an_delete_ranges :: "buf \<Rightarrow> nat \<Rightarrow> nat list \<Rightarrow> buf option \<Rightarrow> buf option option" where
  "an_delete_ranges lr rg [] t = Some t"
| "an_delete_ranges lr rg (k # ks) t = do {
     l0 \<leftarrow> lf_get64 lr (rg + k * LR_RANGE_SIZE);
     n \<leftarrow> lf_get64 lr (rg + k * LR_RANGE_SIZE + 8);
     t \<leftarrow> (case t of None \<Rightarrow> Some None
          | Some b \<Rightarrow> map_option Some (an_zero_pages l0 (sub64 (u64 (l0 + n)) 1) b None));
     an_delete_ranges lr rg ks t }"

text \<open>\<open>OpenNonresidentAttribute\<close>: a new open attribute entry and its name.\<close>

definition an_add_name :: "buf option \<Rightarrow> nat \<Rightarrow> nat \<Rightarrow> nat \<Rightarrow> buf \<Rightarrow> buf option" where
  "an_add_name names ta nb uoff lr = do {
     let old = (case names of None \<Rightarrow> [] | Some n \<Rightarrow> n);
     nl \<leftarrow> (if length old \<ge> AN_NAME then do {
              z \<leftarrow> lf_get16 old (length old - AN_NAME);
              Some (if z = 0 then length old - AN_NAME else length old) }
            else Some (length old));
     nm \<leftarrow> slice lr uoff nb;
     Some (take nl old @ le_bytes 2 ta @ le_bytes 2 nb @ nm @ replicate 4 0) }"

definition an_open_attr :: "'a lfs_log_scheme \<Rightarrow> lfs_record \<Rightarrow> (int \<times> 'a lfs_log_scheme) option" where
  "an_open_attr log rec = do {
     let lr = rec_data rec;
     ta \<leftarrow> lf_get16 lr NR_TARGET_ATTRIBUTE;
     redo_off \<leftarrow> lf_get16 lr NR_REDO_OFFSET;
     t \<leftarrow> oatbl log;
     (t, e) \<leftarrow> lfs_table_alloc_at t ta;
     let log = log\<lparr>oatbl := Some t\<rparr>;
     (case e of None \<Rightarrow> Some (- EINVAL, log)
      | Some oe \<Rightarrow>
          if redo_off + bytes_per_attr_entry log > rec_data_len rec then Some (- EINVAL, log)
          else do {
            x \<leftarrow> slice lr (redo_off + 4) (bytes_per_attr_entry log - 4);
            t \<leftarrow> blit t (oe + 4) x;
            let log = log\<lparr>oatbl := Some t\<rparr>;
            nb \<leftarrow> lf_get16 lr NR_UNDO_LENGTH;
            if nb = 0 then Some (0, log)
            else do {
              uoff \<leftarrow> lf_get16 lr NR_UNDO_OFFSET;
              names \<leftarrow> an_add_name (attr_names log) ta nb uoff lr;
              Some (0, log\<lparr>attr_names := Some names\<rparr>) } }) }"

definition an_hotfix :: "'a lfs_log_scheme \<Rightarrow> buf \<Rightarrow> (int \<times> 'a lfs_log_scheme) option" where
  "an_hotfix log lr = do {
     ta \<leftarrow> lf_get16 lr NR_TARGET_ATTRIBUTE;
     tvcn \<leftarrow> lf_get64 lr NR_TARGET_VCN;
     found \<leftarrow> find_dp log ta tvcn;
     (case found of None \<Rightarrow> Some (0, log)
      | Some dp \<Rightarrow> do {
          t \<leftarrow> dptbl log;
          dv \<leftarrow> lf_get64 t (dp + DP1_VCN);
          let j = sub64 tvcn dv;
          old \<leftarrow> lf_get64 t (dp + DP1_PAGE_LCNS + 8 * j);
          if old = 0 then Some (0, log)
          else do {
            l \<leftarrow> lf_get64 lr NR_PAGE_LCNS;
            t \<leftarrow> lf_put64 t (dp + DP1_PAGE_LCNS + 8 * j) l;
            Some (0, log\<lparr>dptbl := Some t\<rparr>) } }) }"

definition an_set_state :: "'a lfs_log_scheme \<Rightarrow> nat \<Rightarrow> nat \<Rightarrow> (int \<times> 'a lfs_log_scheme) option" where
  "an_set_state log tid st = do {
     t \<leftarrow> trtbl log;
     t \<leftarrow> put8 t (tid + TR_STATE) st;
     Some (0, log\<lparr>trtbl := Some t\<rparr>) }"

text \<open>One record of the analysis pass.\<close>

definition analyse_record :: "'a lfs_log_scheme \<Rightarrow> nat \<Rightarrow> nat \<Rightarrow> lfs_record \<Rightarrow> (int \<times> 'a lfs_log_scheme) option" where
  "analyse_record log cs lsn rec = do {
     let lr = rec_data rec;
     rtype \<leftarrow> lf_get32 (rec_hdr rec) LR_RECORD_TYPE;
     if rtype \<noteq> LFS_RECORD_TYPE_CLIENT then Some (0, log)
     else do {
       ok \<leftarrow> lfs_check_client_rec rec (bytes_per_attr_entry log);
       if \<not> ok then Some (- EINVAL, log)
       else do {
         tid \<leftarrow> lf_get32 (rec_hdr rec) LR_TRANSACTION_ID;
         redo_op \<leftarrow> lf_get16 lr NR_REDO_OP;
         (err, log) \<leftarrow> an_transaction log tid lsn rec;
         if err \<noteq> 0 then Some (err, log)
         else if op_is_mft redo_op \<or> op_is_attr redo_op then an_dirty_page log cs lsn lr
         else if redo_op = LOP_DeleteDirtyClusters then do {
           rlen \<leftarrow> lf_get16 lr NR_REDO_LENGTH;
           rg \<leftarrow> lf_get16 lr NR_REDO_OFFSET;
           t \<leftarrow> an_delete_ranges lr rg [0..<rlen div LR_RANGE_SIZE] (dptbl log);
           Some (0, log\<lparr>dptbl := t\<rparr>) }
         else if redo_op = LOP_OpenNonresidentAttribute then an_open_attr log rec
         else if redo_op = LOP_HotFix then an_hotfix log lr
         else if redo_op = LOP_EndTopLevelAction then do {
           t \<leftarrow> trtbl log;
           t \<leftarrow> lf_put64 t (tid + TR_PREV_LSN) lsn;
           un \<leftarrow> lf_get64 (rec_hdr rec) LR_CLIENT_UNDO_NEXT_LSN;
           t \<leftarrow> lf_put64 t (tid + TR_UNDO_NEXT_LSN) un;
           Some (0, log\<lparr>trtbl := Some t\<rparr>) }
         else if redo_op = LOP_PrepareTransaction then an_set_state log tid TRANSACTION_PREPARED
         else if redo_op = LOP_CommitTransaction then an_set_state log tid TRANSACTION_COMMITTED
         else if redo_op = LOP_ForgetTransaction then do {
           t \<leftarrow> trtbl log;
           t \<leftarrow> lfs_table_free_idx t tid;
           Some (0, log\<lparr>trtbl := Some t\<rparr>) }
         else Some (0, log) } } }"

partial_function (option) analysis_loop :: "replay \<Rightarrow> lfs_record \<Rightarrow> nat \<Rightarrow> (int \<times> replay \<times> nat) option" where
  "analysis_loop r rec rlsn =
     Option.bind (lfs_next_lsn (r_log r) rec) (\<lambda>x. case x of (err, nxt) \<Rightarrow>
       if err \<noteq> 0 then Some (err, r, rlsn)
       else if nxt = 0 then Some (0, r, rlsn)
       else Option.bind (lfs_read_record (r_log r) nxt) (\<lambda>y. case y of (err, rec) \<Rightarrow>
         if err \<noteq> 0 then Some (err, r, rlsn)
         else (
           let r = r\<lparr>r_res := (r_res r)\<lparr>rr_records_analyzed := rr_records_analyzed (r_res r) + 1\<rparr>\<rparr>;
               rlsn = (if rlsn = 0 then nxt else rlsn) in
           Option.bind (analyse_record (r_log r) (r_cs r) nxt rec) (\<lambda>z. case z of (err, log) \<Rightarrow>
             let r = r\<lparr>r_log := log\<rparr> in
             if err \<noteq> 0 then Some (err, r, rlsn) else analysis_loop r rec rlsn))))"

text \<open>The redo LSN: the lowest of the dirty pages' oldest and the transactions' first LSNs.\<close>

definition lower_lsn :: "nat \<Rightarrow> nat \<Rightarrow> nat" where
  "lower_lsn rlsn l = (if l \<noteq> 0 \<and> (rlsn = 0 \<or> l < rlsn) then l else rlsn)"

partial_function (option) min_dp_lsn :: "buf option \<Rightarrow> nat option \<Rightarrow> nat \<Rightarrow> nat option" where
  "min_dp_lsn t cur rlsn =
     Option.bind (lfs_table_next t cur) (\<lambda>nxt. case nxt of None \<Rightarrow> Some rlsn
       | Some e \<Rightarrow> Option.bind t (\<lambda>b. Option.bind (lf_get64 b (e + DP1_OLDEST_LSN)) (\<lambda>l.
           min_dp_lsn t (Some e) (lower_lsn rlsn l))))"

partial_function (option) min_tr_lsn ::
    "buf option \<Rightarrow> nat option \<Rightarrow> nat \<Rightarrow> nat \<Rightarrow> nat \<Rightarrow> (nat \<times> nat \<times> nat) option" where
  "min_tr_lsn t cur rlsn committed active =
     Option.bind (lfs_table_next t cur) (\<lambda>nxt. case nxt of None \<Rightarrow> Some (rlsn, committed, active)
       | Some e \<Rightarrow> Option.bind t (\<lambda>b. Option.bind (lf_get64 b (e + TR_FIRST_LSN)) (\<lambda>l.
           Option.bind (get8 b (e + TR_STATE)) (\<lambda>st.
             min_tr_lsn t (Some e) (lower_lsn rlsn l)
               (if st = TRANSACTION_COMMITTED then committed + 1 else committed)
               (if st = TRANSACTION_ACTIVE then active + 1 else active)))))"

definition analysis_tables :: "'a lfs_log_scheme \<Rightarrow> 'a lfs_log_scheme option" where
  "analysis_tables log = do {
     log \<leftarrow> (if trtbl log = None then do {
               t \<leftarrow> lfs_table_init TR_SIZE 5;
               Some (log\<lparr>trtbl := Some t\<rparr>) }
             else Some log);
     if oatbl log = None then do {
       t \<leftarrow> lfs_table_init (u16 (bytes_per_attr_entry log)) 8;
       Some (log\<lparr>oatbl := Some t\<rparr>) }
     else Some log }"

definition analysis_pass :: "replay \<Rightarrow> (int \<times> replay \<times> nat) option" where
  "analysis_pass r = do {
     log \<leftarrow> analysis_tables (r_log r);
     let r = r\<lparr>r_log := log\<rparr>;
     (err, rec) \<leftarrow> lfs_read_record log (checkpoint_lsn log);
     if err \<noteq> 0 then Some (err, r, 0)
     else do {
       (err, r, rlsn) \<leftarrow> analysis_loop r rec 0;
       if err \<noteq> 0 then Some (err, r, rlsn)
       else do {
         rlsn \<leftarrow> min_dp_lsn (dptbl (r_log r)) None rlsn;
         (rlsn, committed, active) \<leftarrow> min_tr_lsn (trtbl (r_log r)) None rlsn
           (rr_transactions_committed (r_res r)) (rr_transactions_active (r_res r));
         dps \<leftarrow> lfs_table_total (dptbl (r_log r));
         Some (0, r\<lparr>r_res := (r_res r)\<lparr>rr_transactions_committed := committed,
                     rr_transactions_active := active, rr_dirty_pages := dps\<rparr>\<rparr>, rlsn) } } }"

section \<open>Dirty pages\<close>

text \<open>Seeding the overrides of one open attribute from one dirty page entry.\<close>

primrec seed_overrides :: "nat \<Rightarrow> nat \<Rightarrow> buf \<Rightarrow> nat \<Rightarrow> nat \<Rightarrow> nat list \<Rightarrow> open_attr \<Rightarrow> open_attr option" where
  "seed_overrides cs rs t dp dv [] oa = Some oa"
| "seed_overrides cs rs t dp dv (i # is) oa = do {
     lcn \<leftarrow> lf_get64 t (dp + DP1_PAGE_LCNS + 8 * i);
     let vcn = u64 (dv + i);
     let size' = u64 (u64 (vcn + 1) * cs);
     let keep = (lcn = 0 \<or> oa_is_mft_data oa \<or>
       (oa_mft_no oa \<le> MFT_REC_MIRR \<and> oa_type oa = ATTR_TYPE_DATA \<and> size' < (MFT_REC_VOL + 1) * rs) \<or>
       run_lookup oa vcn = Some lcn);
     seed_overrides cs rs t dp dv is (if keep then oa else run_override oa vcn lcn) }"

partial_function (option) prepare_loop :: "replay \<Rightarrow> nat option \<Rightarrow> replay option" where
  "prepare_loop r cur =
     Option.bind (lfs_table_next (dptbl (r_log r)) cur) (\<lambda>nxt. case nxt of None \<Rightarrow> Some r
       | Some dp \<Rightarrow> Option.bind (dptbl (r_log r)) (\<lambda>t.
           Option.bind (lf_get32 t (dp + DP1_TARGET_ATTR)) (\<lambda>ta.
             Option.bind (lf_get32 t (dp + DP1_LCNS_FOLLOW)) (\<lambda>cnt.
               Option.bind (lf_get64 t (dp + DP1_VCN)) (\<lambda>dv.
                 Option.bind (lfs_table_entry_ok (oatbl (r_log r)) ta) (\<lambda>ok.
                   if \<not> ok then prepare_loop r (Some dp)
                   else Option.bind (oa_load r ta) (\<lambda>x. case x of (err, r, oi) \<Rightarrow>
                     if err \<noteq> 0 then prepare_loop r (Some dp)
                     else Option.bind (seed_overrides (r_cs r) (r_rs r) t dp dv [0..<cnt] (r_oa r ! oi)) (\<lambda>oa.
                       prepare_loop (r\<lparr>r_oa := (r_oa r)[oi := oa]\<rparr>) (Some dp)))))))))"

definition prepare_dirty_pages :: "replay \<Rightarrow> replay option" where
  "prepare_dirty_pages r = prepare_loop r None"

section \<open>Redo\<close>

text \<open>
  Shortening the redo data by the trailing clusters that were deleted since: \<open>i\<close> clusters are
  left to look at.  The result is \<open>(dlen, saved_len)\<close>.
\<close>

fun shorten :: "buf \<Rightarrow> nat \<Rightarrow> nat \<Rightarrow> nat \<Rightarrow> nat \<Rightarrow> nat \<Rightarrow> nat \<Rightarrow> nat \<Rightarrow> (nat \<times> nat) option" where
  "shorten t dp j voff cs 0 dlen saved = Some (dlen, saved)"
| "shorten t dp j voff cs (Suc i) dlen saved = do {
     l \<leftarrow> lf_get64 t (dp + DP1_PAGE_LCNS + 8 * (j + i));
     if l \<noteq> 0 then Some (dlen, saved)
     else (
       let alen = u32 (i * cs);
           dlen = (if voff \<ge> alen then 0 else if voff + dlen > alen then alen - voff else dlen)
       in shorten t dp j voff cs i dlen (if saved = 0 then 1 else saved)) }"

text \<open>The redo of one record once its dirty page entry and open attribute are known.\<close>

definition redo_apply :: "replay \<Rightarrow> lfs_record \<Rightarrow> nat \<Rightarrow> nat \<Rightarrow> nat \<Rightarrow> nat \<Rightarrow> (int \<times> replay) option" where
  "redo_apply r rec lsn ta tvcn dp = do {
     let lr = rec_data rec;
     t \<leftarrow> dptbl (r_log r);
     dlen \<leftarrow> lf_get16 lr NR_REDO_LENGTH;
     roff \<leftarrow> lf_get16 lr NR_RECORD_OFFSET;
     aoff \<leftarrow> lf_get16 lr NR_ATTRIBUTE_OFFSET;
     cb \<leftarrow> lf_get16 lr NR_CLUSTER_BLOCK_OFFSET;
     lcns \<leftarrow> lf_get16 lr NR_LCNS_TO_FOLLOW;
     dv \<leftarrow> lf_get64 t (dp + DP1_VCN);
     (dlen, saved) \<leftarrow> shorten t dp (sub64 tvcn dv) (roff + aoff + cb * 2 ^ LFS_SECTOR_SHIFT) (r_cs r)
                        lcns dlen dlen;
     op \<leftarrow> lf_get16 lr NR_REDO_OP;
     redo_off \<leftarrow> lf_get16 lr NR_REDO_OFFSET;
     if dlen = 0 \<and> saved \<noteq> 0 then Some (0, r)
     else if can_skip_action op then Some (0, r)
     else do {
       (err, r) \<leftarrow> do_action r ta \<lparr>ac_lsn = lsn, ac_lr = lr, ac_op = op, ac_data = drop redo_off lr,
                                 ac_dlen = dlen, ac_undo = False\<rparr>;
       if err < 0 then Some (err, r)
       else Some (0, if err = 0
         then r\<lparr>r_res := (r_res r)\<lparr>rr_records_redone := rr_records_redone (r_res r) + 1\<rparr>\<rparr> else r) } }"

definition redo_record :: "replay \<Rightarrow> lfs_record \<Rightarrow> nat \<Rightarrow> (int \<times> replay) option" where
  "redo_record r rec lsn = do {
     let lr = rec_data rec;
     rtype \<leftarrow> lf_get32 (rec_hdr rec) LR_RECORD_TYPE;
     if rtype \<noteq> LFS_RECORD_TYPE_CLIENT then Some (0, r)
     else do {
       ok \<leftarrow> lfs_check_client_rec rec (bytes_per_attr_entry (r_log r));
       if \<not> ok then Some (- EINVAL, r)
       else do {
         lcns \<leftarrow> lf_get16 lr NR_LCNS_TO_FOLLOW;
         ta \<leftarrow> lf_get16 lr NR_TARGET_ATTRIBUTE;
         tvcn \<leftarrow> lf_get64 lr NR_TARGET_VCN;
         redo_op \<leftarrow> lf_get16 lr NR_REDO_OP;
         if lcns = 0 then Some (0, r)
         else do {
           found \<leftarrow> find_dp (r_log r) ta tvcn;
           (case found of None \<Rightarrow> Some (0, r)
            | Some dp \<Rightarrow> do {
                t \<leftarrow> dptbl (r_log r);
                old \<leftarrow> lf_get64 t (dp + DP1_OLDEST_LSN);
                if lsn < old then Some (0, r)
                else do {
                  (err, r, oi) \<leftarrow> oa_load r ta;
                  if err \<noteq> 0 then Some (- EINVAL, r)
                  else if run_lookup (r_oa r ! oi) tvcn = None \<or> run_lookup (r_oa r ! oi) tvcn = Some SPARSE_LCN then
                    (if op_is_mft redo_op then Some (- EINVAL, r)
                     else Some (0, snd (plan_skip r lsn redo_op False)))
                  else redo_apply r rec lsn ta tvcn dp } }) } } } }"

partial_function (option) redo_loop :: "replay \<Rightarrow> lfs_record \<Rightarrow> nat \<Rightarrow> (int \<times> replay) option" where
  "redo_loop r rec lsn =
     Option.bind (redo_record r rec lsn) (\<lambda>x. case x of (err, r) \<Rightarrow>
       if err \<noteq> 0 then Some (err, r)
       else Option.bind (lfs_next_lsn (r_log r) rec) (\<lambda>y. case y of (err, nxt) \<Rightarrow>
         if err \<noteq> 0 then Some (err, r)
         else if nxt = 0 then Some (0, r)
         else Option.bind (lfs_read_record (r_log r) nxt) (\<lambda>z. case z of (err, rec) \<Rightarrow>
           if err \<noteq> 0 then Some (err, r) else redo_loop r rec nxt)))"

definition redo_pass :: "replay \<Rightarrow> nat \<Rightarrow> (int \<times> replay) option" where
  "redo_pass r rlsn = do {
     total \<leftarrow> lfs_table_total (dptbl (r_log r));
     if total = 0 \<or> rlsn = 0 then Some (0, r)
     else do {
       (err, rec) \<leftarrow> lfs_read_record (r_log r) rlsn;
       if err \<noteq> 0 then Some (err, r) else redo_loop r rec rlsn } }"

section \<open>Undo\<close>

definition undo_record :: "replay \<Rightarrow> lfs_record \<Rightarrow> (int \<times> replay) option" where
  "undo_record r rec = do {
     let lr = rec_data rec;
     op \<leftarrow> lf_get16 lr NR_UNDO_OP;
     ta \<leftarrow> lf_get16 lr NR_TARGET_ATTRIBUTE;
     uoff \<leftarrow> lf_get16 lr NR_UNDO_OFFSET;
     ulen \<leftarrow> lf_get16 lr NR_UNDO_LENGTH;
     if op = LOP_Noop \<or> can_skip_action op then Some (0, r)
     else do {
       (err, r) \<leftarrow> do_action r ta \<lparr>ac_lsn = 0, ac_lr = lr, ac_op = op, ac_data = drop uoff lr,
                                 ac_dlen = ulen, ac_undo = True\<rparr>;
       if err < 0 then Some (err, r)
       else Some (0, if err = 0
         then r\<lparr>r_res := (r_res r)\<lparr>rr_records_undone := rr_records_undone (r_res r) + 1\<rparr>\<rparr> else r) } }"

text \<open>Following the undo chain of one transaction.\<close>

partial_function (option) undo_chain :: "replay \<Rightarrow> nat \<Rightarrow> (int \<times> replay) option" where
  "undo_chain r lsn =
     (if lsn = 0 \<or> \<not> lfs_lsn_in_file (r_log r) lsn then Some (0, r)
      else Option.bind (lfs_read_record (r_log r) lsn) (\<lambda>x. case x of (err, rec) \<Rightarrow>
        if err \<noteq> 0 then Some (err, r)
        else Option.bind (lf_get32 (rec_hdr rec) LR_RECORD_TYPE) (\<lambda>rtype.
          Option.bind (if rtype \<noteq> LFS_RECORD_TYPE_CLIENT then Some False
                       else lfs_check_client_rec rec (bytes_per_attr_entry (r_log r))) (\<lambda>ok.
            if \<not> ok then Some (- EINVAL, r)
            else Option.bind (undo_record r rec) (\<lambda>y. case y of (err, r) \<Rightarrow>
              if err \<noteq> 0 then Some (err, r)
              else Option.bind (lf_get64 (rec_hdr rec) LR_CLIENT_UNDO_NEXT_LSN) (\<lambda>nxt.
                undo_chain r nxt))))))"

partial_function (option) undo_loop :: "replay \<Rightarrow> nat option \<Rightarrow> (int \<times> replay) option" where
  "undo_loop r cur =
     Option.bind (lfs_table_next (trtbl (r_log r)) cur) (\<lambda>nxt. case nxt of None \<Rightarrow> Some (0, r)
       | Some tr \<Rightarrow> Option.bind (trtbl (r_log r)) (\<lambda>t.
           Option.bind (lf_get64 t (tr + TR_UNDO_NEXT_LSN)) (\<lambda>lsn.
             Option.bind (get8 t (tr + TR_STATE)) (\<lambda>st.
               if st \<noteq> TRANSACTION_ACTIVE \<or> lsn = 0 then undo_loop r (Some tr)
               else Option.bind (undo_chain r lsn) (\<lambda>x. case x of (err, r) \<Rightarrow>
                 if err \<noteq> 0 then Some (err, r) else undo_loop r (Some tr))))))"

definition undo_pass :: "replay \<Rightarrow> (int \<times> replay) option" where
  "undo_pass r = undo_loop r None"

end
