(* ===== verification/Lfs_Replay.thy ===== *)
theory Lfs_Replay
  imports Lfs_Passes
begin

text \<open>
  The end of a replay (core/logfile/logfile_replay.c): the aliasing check, the flush of the
  overlay to the volume, and \<open>ntfs_logfile_replay\<close> itself.
\<close>

section \<open>The volume\<close>

text \<open>
  The callbacks of \<open>struct ntfs_log_apply\<close>.  They act on a volume of type \<open>'d\<close>; the passes
  only read, so there the read callbacks are applied to the volume once.
\<close>

record 'd vol_ops =
  vo_read_mft :: "('d \<Rightarrow> nat \<Rightarrow> int \<times> buf) option"
  vo_write_mft :: "(nat \<Rightarrow> buf \<Rightarrow> 'd \<Rightarrow> int \<times> 'd) option"
  vo_read_clu :: "('d \<Rightarrow> nat \<Rightarrow> int \<times> buf) option"
  vo_write_clu :: "(nat \<Rightarrow> nat \<Rightarrow> buf \<Rightarrow> 'd \<Rightarrow> int \<times> 'd) option"
  vo_sync :: "('d \<Rightarrow> int \<times> 'd) option"

text \<open>The state of a replay while it reads volume \<open>d\<close>.\<close>

definition with_volume :: "'d vol_ops \<Rightarrow> 'd \<Rightarrow> replay \<Rightarrow> replay option" where
  "with_volume ops d r = do {
     rm \<leftarrow> vo_read_mft ops;
     rc \<leftarrow> vo_read_clu ops;
     Some (r\<lparr>r_read_mft := rm d, r_read_clu := rc d\<rparr>) }"

section \<open>The aliasing check\<close>

definition run_holds :: "nat \<Rightarrow> run \<Rightarrow> bool" where
  "run_holds lcn rl \<longleftrightarrow> run_lcn rl \<noteq> SPARSE_LCN \<and> lcn \<ge> run_lcn rl \<and> lcn < u64 (run_lcn rl + run_len rl)"

primrec alias_loop :: "ovl_clu option list \<Rightarrow> replay \<Rightarrow> (int \<times> replay) option" where
  "alias_loop [] r = Some (0, r)"
| "alias_loop (s # ss) r = (case s of None \<Rightarrow> alias_loop ss r
     | Some c \<Rightarrow>
         if \<not> oc_dirty c then alias_loop ss r
         else do {
           (err, r) \<leftarrow> mft_runs_load r;
           if err \<noteq> 0 then Some (err, r)
           else if list_ex (run_holds (oc_lcn c)) (oa_runs (r_mftdata r)) then Some (- EINVAL, r)
           else alias_loop ss r })"

definition check_overlay_aliasing :: "replay \<Rightarrow> (int \<times> replay) option" where
  "check_overlay_aliasing r = alias_loop (r_clu r) r"

section \<open>Flushing MFT records\<close>

text \<open>The first unnamed $DATA attribute, resident or not.\<close>

partial_function (option) find_unnamed_data :: "buf \<Rightarrow> nat \<Rightarrow> nat option option" where
  "find_unnamed_data rec o1 =
     Option.bind (lf_get32 rec (o1 + AT_TYPE)) (\<lambda>ty.
       if ty = ATTR_TYPE_END then Some None
       else Option.bind (get8 rec (o1 + AT_NAME_LENGTH)) (\<lambda>nl.
         if ty = ATTR_TYPE_DATA \<and> nl = 0 then Some (Some o1)
         else Option.bind (lf_get32 rec (o1 + AT_LENGTH)) (\<lambda>len.
           find_unnamed_data rec (u32 (o1 + len)))))"

text \<open>
  Loading the runs of $MFTMirr into \<open>mirr\<close>.  The record is fetched through the overlay while a
  pointer into the overlay's record array is live; when the array has to grow, that pointer
  dangles and its next use is undefined, so the result is \<open>None\<close>.
\<close>

definition load_mirr :: "replay \<Rightarrow> open_attr \<Rightarrow> (replay \<times> open_attr) option" where
  "load_mirr r mirr = do {
     (err, r', i) \<leftarrow> ovl_get_mft r MFT_REC_MIRR False;
     if r_cap_mft r' \<noteq> r_cap_mft r then None
     else if err \<noteq> 0 then Some (r', mirr)
     else do {
       ok \<leftarrow> usable_mft r' i;
       if \<not> ok then Some (r', mirr)
       else do {
         let rec = om_rec (r_mft r' ! i);
         ao \<leftarrow> lf_get16 rec MR_ATTRS_OFFSET;
         a \<leftarrow> find_unnamed_data rec ao;
         (case a of None \<Rightarrow> Some (r', mirr)
          | Some attr \<Rightarrow> do {
              (_, mirr) \<leftarrow> oa_load_extent mirr rec attr;
              Some (r', mirr) }) } } }"

text \<open>Copying a written record into $MFTMirr; errors of the volume are ignored here.\<close>

definition write_mirr :: "'d vol_ops \<Rightarrow> replay \<Rightarrow> open_attr \<Rightarrow> nat \<Rightarrow> buf \<Rightarrow> 'd \<Rightarrow> 'd option" where
  "write_mirr ops r mirr mft_no copy d = (
     let vbo = u64 (mft_no * r_rs r) in
     if oa_runs mirr = [] \<or> \<not> u64 ((mft_no + 1) * r_rs r) \<le> oa_data_size mirr then Some d
     else (case run_lookup mirr (vbo div r_cs r) of
       None \<Rightarrow> Some d
     | Some lcn \<Rightarrow>
         if lcn = SPARSE_LCN then Some d
         else do {
           rc \<leftarrow> vo_read_clu ops;
           wc \<leftarrow> vo_write_clu ops;
           let (err, cl) = rc d lcn;
           if err \<noteq> 0 then Some d
           else do {
             cl \<leftarrow> blit cl (vbo mod r_cs r) copy;
             Some (snd (wc lcn 1 cl d)) } }))"

text \<open>One record of the overlay: protect, write, keep $MFTMirr in step.\<close>

definition flush_record :: "'d vol_ops \<Rightarrow> nat \<Rightarrow> replay \<Rightarrow> open_attr \<Rightarrow> 'd \<Rightarrow>
    (int \<times> replay \<times> open_attr \<times> 'd) option" where
  "flush_record ops i r mirr d = (
     let m = r_mft r ! i in
     if \<not> om_dirty m then Some (0, r, mirr, d)
     else do {
       copy \<leftarrow> slice (om_rec m) 0 (r_rs r);
       magic \<leftarrow> lf_get32 copy 0;
       (err, copy) \<leftarrow> (if magic = LFS_MAGIC_FILE then lfs_fixup_pre_write copy (r_rs r) LFS_SECTOR_SIZE
                      else Some (0, copy));
       if err \<noteq> 0 then Some (- EINVAL, r, mirr, d)
       else do {
         wm \<leftarrow> vo_write_mft ops;
         let (err, d) = wm (om_mft_no m) copy d;
         if err \<noteq> 0 then Some (io_err err, r, mirr, d)
         else do {
           let r = r\<lparr>r_res := (r_res r)\<lparr>rr_mft_records_written := rr_mft_records_written (r_res r) + 1\<rparr>\<rparr>;
           if om_mft_no m \<le> MFT_REC_VOL then do {
             r \<leftarrow> with_volume ops d r;
             (r, mirr) \<leftarrow> load_mirr r mirr;
             d \<leftarrow> write_mirr ops r mirr (om_mft_no m) copy d;
             Some (0, r, mirr, d) }
           else Some (0, r, mirr, d) } } })"

partial_function (option) flush_records :: "'d vol_ops \<Rightarrow> nat \<Rightarrow> replay \<Rightarrow> open_attr \<Rightarrow> 'd \<Rightarrow>
    (int \<times> replay \<times> 'd) option" where
  "flush_records ops i r mirr d =
     (if \<not> i < length (r_mft r) then Some (0, r, d)
      else Option.bind (flush_record ops i r mirr d) (\<lambda>x. case x of (err, r, mirr, d) \<Rightarrow>
        if err \<noteq> 0 then Some (err, r, d) else flush_records ops (i + 1) r mirr d))"

section \<open>Flushing clusters\<close>

definition clu_dirty :: "replay \<Rightarrow> nat \<Rightarrow> bool option" where
  "clu_dirty r lcn = do {
     c \<leftarrow> ovl_clu_lookup r lcn;
     Some (case c of None \<Rightarrow> False | Some c \<Rightarrow> oc_dirty c) }"

text \<open>Back to the start of the run of dirty clusters, then its length, at most 256.\<close>

fun run_start :: "replay \<Rightarrow> nat \<Rightarrow> nat option" where
  "run_start r 0 = Some 0"
| "run_start r (Suc lcn) = do {
     dirty \<leftarrow> clu_dirty r lcn;
     if dirty then run_start r lcn else Some (Suc lcn) }"

function run_count :: "replay \<Rightarrow> nat \<Rightarrow> nat \<Rightarrow> nat option" where
  "run_count r lcn n = do {
     dirty \<leftarrow> clu_dirty r (u64 (lcn + n));
     if dirty \<and> n < 256 then run_count r lcn (n + 1) else Some n }"
  by pat_completeness auto
termination
  by (relation "measure (\<lambda>(r, lcn, n). 256 - n)") auto

declare run_count.simps [simp del]

text \<open>Collecting the data of a run and marking its clusters clean.\<close>

primrec gather :: "nat list \<Rightarrow> replay \<Rightarrow> nat \<Rightarrow> buf \<Rightarrow> (replay \<times> buf) option" where
  "gather [] r lcn acc = Some (r, acc)"
| "gather (k # ks) r lcn acc = do {
     let l = u64 (lcn + k);
     i \<leftarrow> clu_probe (r_clu r) l (clu_hash l (length (r_clu r) - 1));
     c \<leftarrow> r_clu r ! i;
     x \<leftarrow> oc_data c;
     x \<leftarrow> slice x 0 (r_cs r);
     gather ks (r\<lparr>r_clu := (r_clu r)[i := Some (c\<lparr>oc_dirty := False\<rparr>)]\<rparr>) lcn (acc @ x) }"

text \<open>One slot of the hash table.\<close>

definition flush_slot :: "'d vol_ops \<Rightarrow> nat \<Rightarrow> replay \<Rightarrow> 'd \<Rightarrow> (int \<times> replay \<times> 'd) option" where
  "flush_slot ops i r d = (case r_clu r ! i of None \<Rightarrow> Some (0, r, d)
     | Some c \<Rightarrow>
         if \<not> oc_dirty c then Some (0, r, d)
         else do {
           lcn \<leftarrow> run_start r (oc_lcn c);
           n \<leftarrow> run_count r lcn 0;
           (r, b) \<leftarrow> gather [0..<n] r lcn [];
           wc \<leftarrow> vo_write_clu ops;
           let (err, d) = wc lcn n b d;
           if err \<noteq> 0 then Some (io_err err, r, d)
           else Some (0, r\<lparr>r_res := (r_res r)\<lparr>rr_clusters_written := rr_clusters_written (r_res r) + n\<rparr>\<rparr>, d) })"

primrec flush_slots :: "nat list \<Rightarrow> 'd vol_ops \<Rightarrow> replay \<Rightarrow> 'd \<Rightarrow> (int \<times> replay \<times> 'd) option" where
  "flush_slots [] ops r d = Some (0, r, d)"
| "flush_slots (i # is) ops r d = do {
     (err, r, d) \<leftarrow> flush_slot ops i r d;
     if err \<noteq> 0 then Some (err, r, d) else flush_slots is ops r d }"

definition flush_sync :: "'d vol_ops \<Rightarrow> replay \<Rightarrow> 'd \<Rightarrow> int \<times> replay \<times> 'd" where
  "flush_sync ops r d = (case vo_sync ops of None \<Rightarrow> (0, r, d)
     | Some sy \<Rightarrow> (
         let (err, d) = sy d in
         if err \<noteq> 0 then (io_err err, r\<lparr>r_res := (r_res r)\<lparr>rr_flush_failed := True\<rparr>\<rparr>, d)
         else (0, r, d)))"

definition flush_overlay :: "'d vol_ops \<Rightarrow> replay \<Rightarrow> 'd \<Rightarrow> (int \<times> replay \<times> 'd) option" where
  "flush_overlay ops r d = do {
     (err, r, d) \<leftarrow> flush_records ops 0 r no_open_attr d;
     if err \<noteq> 0 then Some (err, r, d)
     else do {
       (err, r, d) \<leftarrow> flush_slots [0..<length (r_clu r)] ops r d;
       if err \<noteq> 0 then Some (err, r, d)
       else Some (flush_sync ops r d) } }"

section \<open>Replay\<close>

definition new_replay :: "lfs_log \<Rightarrow> (nat \<Rightarrow> int \<times> buf) \<Rightarrow> (nat \<Rightarrow> int \<times> buf) \<Rightarrow> replay" where
  "new_replay log rm rc = \<lparr>r_log = log, r_read_mft = rm, r_read_clu = rc, r_cs = cluster_size log,
     r_rs = mft_record_size log, r_res = no_result, r_mft = [], r_cap_mft = 0, r_clu = [],
     r_clu_used = 0, r_oa = [], r_mftdata = no_open_attr, r_mft_loaded = False\<rparr>"

text \<open>
  Everything up to the flush: the return code, the state, and whether the overlay is to be
  flushed (false on the early exits of the code that have nothing to do).
\<close>

definition replay_slots :: "replay \<Rightarrow> replay option" where
  "replay_slots r = (case oatbl (r_log r) of None \<Rightarrow> Some (r\<lparr>r_oa := []\<rparr>)
     | Some t \<Rightarrow> do {
         es \<leftarrow> lfs_table_esize t;
         if es = 0 then None
         else Some (r\<lparr>r_oa := replicate (sub32 (length t) RT_HEADER_SIZE div es) no_open_attr\<rparr>) })"

definition replay_passes :: "replay \<Rightarrow> nat \<Rightarrow> (int \<times> replay) option" where
  "replay_passes r rlsn = do {
     r \<leftarrow> prepare_dirty_pages r;
     (err, r) \<leftarrow> redo_pass r rlsn;
     if err \<noteq> 0 then Some (err, r)
     else do {
       (err, r) \<leftarrow> undo_pass r;
       if err \<noteq> 0 then Some (err, r)
       else check_overlay_aliasing r } }"

definition replay_prepare :: "replay \<Rightarrow> (int \<times> replay \<times> bool) option" where
  "replay_prepare r = do {
     (err, log) \<leftarrow> lfs_tail_scan (r_log r);
     let r = r\<lparr>r_log := log\<rparr>;
     if err \<noteq> 0 then Some (err, r, False)
     else do {
       (err, log) \<leftarrow> lfs_load_checkpoint (r_log r);
       let r = r\<lparr>r_log := log\<rparr>;
       if err = - ENOENT then Some (0, r, False)
       else if err \<noteq> 0 then Some (err, r, False)
       else if checkpoint_lsn (r_log r) = 0 then Some (0, r, False)
       else do {
         (err, r, rlsn) \<leftarrow> analysis_pass r;
         if err \<noteq> 0 then Some (err, r, False)
         else do {
           let r = r\<lparr>r_res := (r_res r)\<lparr>rr_redo_lsn := rlsn\<rparr>\<rparr>;
           dps \<leftarrow> lfs_table_total (dptbl (r_log r));
           trs \<leftarrow> lfs_table_total (trtbl (r_log r));
           if dps = 0 \<and> trs = 0 then Some (0, r, False)
           else do {
             r \<leftarrow> replay_slots r;
             (err, r) \<leftarrow> replay_passes r rlsn;
             Some (err, r, err = 0) } } } } }"

text \<open>
  \<open>ntfs_logfile_replay\<close>: return code, log, result and volume.  The result's plan is the
  \<open>plan\<close> of the log.
\<close>

definition callbacks_ok :: "'d vol_ops \<Rightarrow> bool \<Rightarrow> bool" where
  "callbacks_ok ops dry_run \<longleftrightarrow> vo_read_mft ops \<noteq> None \<and> vo_read_clu ops \<noteq> None \<and>
     (dry_run \<or> (vo_write_mft ops \<noteq> None \<and> vo_write_clu ops \<noteq> None))"

definition ntfs_logfile_replay :: "lfs_log \<Rightarrow> 'd vol_ops \<Rightarrow> bool \<Rightarrow> 'd \<Rightarrow>
    (int \<times> lfs_log \<times> replay_result \<times> 'd) option" where
  "ntfs_logfile_replay log ops dry_run d =
     (if \<not> callbacks_ok ops dry_run then Some (- EINVAL, log, no_result, d)
      else if state log = NTFS_LOG_EMPTY \<or> state log = NTFS_LOG_CLEAN then Some (0, log, no_result, d)
      else if state log = NTFS_LOG_CORRUPT \<or> state log = NTFS_LOG_UNSUPPORTED \<or> state log = NTFS_LOG_CHKDSK
      then Some (- EINVAL, log, no_result, d)
      else do {
        r \<leftarrow> with_volume ops d (new_replay (log\<lparr>plan := []\<rparr>) (\<lambda>_. (0, [])) (\<lambda>_. (0, [])));
        (err, r, go) \<leftarrow> replay_prepare r;
        (err, r, d) \<leftarrow> (if go \<and> \<not> dry_run then flush_overlay ops r d else Some (err, r, d));
        Some (err, r_log r,
          if err = - EINVAL then (r_res r)\<lparr>rr_needs_chkdsk := True\<rparr> else r_res r, d) })"

section \<open>What the aliasing check guarantees\<close>

lemma ovl_get_mft_clu:
  assumes "ovl_get_mft r n init = Some (err, r', i)"
  shows "r_clu r' = r_clu r"
  using assms by (auto simp: ovl_get_mft_def Let_def bind_eq_Some_conv split: option.splits if_splits)

lemma mft_runs_load_keeps:
  assumes "mft_runs_load r = Some (err, r')"
  shows "r_clu r' = r_clu r" and "err = 0 \<Longrightarrow> r_mft_loaded r'" and "r_mft_loaded r \<Longrightarrow> r' = r"
proof -
  have "r_clu r' = r_clu r \<and> (err = 0 \<longrightarrow> r_mft_loaded r') \<and> (r_mft_loaded r \<longrightarrow> r' = r)"
  proof (cases "r_mft_loaded r")
    case True
    with assms show ?thesis by (simp add: mft_runs_load_def)
  next
    case False
    with assms obtain e r1 i where g: "ovl_get_mft r 0 False = Some (e, r1, i)"
      by (auto simp: mft_runs_load_def bind_eq_Some_conv)
    with assms False have "err = 0 \<longrightarrow> r_mft_loaded r'" "r_clu r' = r_clu r1"
      by (simp_all add: mft_runs_load_def g Let_def split: bind_splits if_splits prod.splits) auto
    with False ovl_get_mft_clu [OF g] show ?thesis by simp
  qed
  then show "r_clu r' = r_clu r" "err = 0 \<Longrightarrow> r_mft_loaded r'" "r_mft_loaded r \<Longrightarrow> r' = r" by blast+
qed

definition mft_disjoint :: "replay \<Rightarrow> ovl_clu option list \<Rightarrow> bool" where
  "mft_disjoint r ss \<longleftrightarrow> (\<forall>c. Some c \<in> set ss \<and> oc_dirty c \<longrightarrow>
     r_mft_loaded r \<and> \<not> list_ex (run_holds (oc_lcn c)) (oa_runs (r_mftdata r)))"

lemma alias_loop_loaded:
  assumes "alias_loop ss r = Some (0, r')" "r_mft_loaded r"
  shows "r' = r \<and> mft_disjoint r ss"
  using assms
proof (induction ss)
  case (Cons s ss)
  show ?case
  proof (cases "\<exists>c. s = Some c \<and> oc_dirty c")
    case True
    then obtain c where c: "s = Some c" "oc_dirty c" by blast
    with Cons.prems obtain e r1 where m: "mft_runs_load r = Some (e, r1)" by (auto simp: bind_eq_Some_conv)
    with mft_runs_load_keeps(3) [OF m Cons.prems(2)] Cons.prems c have
      "alias_loop ss r = Some (0, r')" "\<not> list_ex (run_holds (oc_lcn c)) (oa_runs (r_mftdata r))"
      by (auto split: if_splits)
    with Cons.IH Cons.prems(2) c show ?thesis by (auto simp: mft_disjoint_def)
  next
    case False
    with Cons show ?thesis by (auto simp: mft_disjoint_def split: option.splits)
  qed
qed (simp add: mft_disjoint_def)

lemma alias_loop_disjoint:
  assumes "alias_loop ss r = Some (0, r')"
  shows "r_clu r' = r_clu r \<and> mft_disjoint r' ss"
  using assms
proof (induction ss)
  case (Cons s ss)
  show ?case
  proof (cases "\<exists>c. s = Some c \<and> oc_dirty c")
    case True
    then obtain c where c: "s = Some c" "oc_dirty c" by blast
    with Cons.prems obtain r1 where m: "mft_runs_load r = Some (0, r1)"
      and a: "alias_loop ss r1 = Some (0, r')" "\<not> list_ex (run_holds (oc_lcn c)) (oa_runs (r_mftdata r1))"
      by (auto simp: bind_eq_Some_conv split: if_splits)
    note k = mft_runs_load_keeps [OF m]
    from alias_loop_loaded [OF a(1) k(2)] k(1,2) a(2) c show ?thesis by (auto simp: mft_disjoint_def)
  next
    case False
    with Cons show ?thesis by (auto simp: mft_disjoint_def split: option.splits)
  qed
qed (simp add: mft_disjoint_def)

lemma replay_prepare_go:
  assumes "replay_prepare r = Some (err, r', True)"
  shows "err = 0 \<and> mft_disjoint r' (r_clu r')"
proof -
  from assms obtain r1 where a: "check_overlay_aliasing r1 = Some (0, r')" "err = 0"
    by (auto simp: replay_prepare_def replay_passes_def bind_eq_Some_conv Let_def split: if_splits)
  from alias_loop_disjoint [OF a(1) [unfolded check_overlay_aliasing_def]] a(2) show ?thesis by simp
qed

text \<open>
  C1.  A replay changes the volume only by flushing an overlay that all passes have built
  without an error: the log is dirty, the run is not a dry run, and no dirty cluster of the
  overlay lies inside the run list of $MFT.  In every other case (dry run, any refused or
  failed step before the flush) the volume is exactly what it was.
\<close>

theorem replay_writes_only_after_success:
  "case ntfs_logfile_replay log ops dry_run d of
     None \<Rightarrow> True
   | Some (err, log', res, d') \<Rightarrow>
       d' = d \<or>
       (dry_run = False \<and> state log = NTFS_LOG_DIRTY \<and>
        (\<exists>r0 r r'. with_volume ops d (new_replay (log\<lparr>plan := []\<rparr>) (\<lambda>_. (0, [])) (\<lambda>_. (0, []))) = Some r0 \<and>
           replay_prepare r0 = Some (0, r, True) \<and> mft_disjoint r (r_clu r) \<and>
           flush_overlay ops r d = Some (err, r', d') \<and> log' = r_log r'))"
proof (cases "ntfs_logfile_replay log ops dry_run d")
  case (Some x)
  obtain err log' res d' where x: "x = (err, log', res, d')" by (metis prod_cases4)
  show ?thesis
  proof (cases "d' = d")
    case False
    with Some x have st: "state log = NTFS_LOG_DIRTY"
      by (cases "state log") (auto simp: ntfs_logfile_replay_def split: if_splits)
    with Some x False obtain r0 e r go r'
      where w: "with_volume ops d (new_replay (log\<lparr>plan := []\<rparr>) (\<lambda>_. (0, [])) (\<lambda>_. (0, []))) = Some r0"
      and r0: "replay_prepare r0 = Some (e, r, go)"
      and fl: "(if go \<and> \<not> dry_run then flush_overlay ops r d else Some (e, r, d)) = Some (err, r', d')"
        "log' = r_log r'"
      by (auto simp: ntfs_logfile_replay_def bind_eq_Some_conv Let_def split: if_splits prod.splits)
    from fl False have g: "go" "\<not> dry_run" by (auto split: if_splits)
    with r0 have p: "replay_prepare r0 = Some (e, r, True)" by simp
    from fl g have "flush_overlay ops r d = Some (err, r', d')" by simp
    with replay_prepare_go [OF p] p w g st fl(2) show ?thesis unfolding Some x by auto
  qed (simp add: Some x)
qed simp

end
