(* ===== verification/Spec2Isabelle.thy ===== *)
theory Spec2Isabelle
  imports Index_Tree Mst Names Runlist_Edit Mapping_Pairs Compress Lfs_Walk Lfs_Clean Lfs_Replay
begin

text \<open>
  \<^bold>\<open>Verification of the TT NTFS driver: the journal engine and core parts of the driver.\<close>

  The repository is an NTFS driver for macOS.  core/ntfs and core/vfs hold a port of the Linux
  NTFS driver, platform replaces the kernel services it needs, fskit connects it to the system,
  and core/logfile is an independent engine that reads the NTFS journal \<open>$LogFile\<close>, replays it
  onto a volume and marks it clean.  The journal engine is the part that decides what is written
  to a damaged volume: its reading, replaying and cleaning of a log are modelled, its analyser, repair
  assistant and image access are not; of the driver the parts listed below are.

  \<^bold>\<open>Conventions.\<close>  Memory is a list of bytes; \<open>slice\<close>, \<open>blit\<close>, \<open>get_le\<close> and \<open>put_le\<close> (Prelude)
  yield \<open>None\<close> exactly where the C code would access memory outside the buffer.  A function of the
  model returns \<open>None\<close> when the code has no defined behaviour (an access outside a buffer, a shift
  by the width of the type, a loop that never ends) and \<open>Some (err, ...)\<close> with the C return code
  otherwise, so that \<open>f x = Some y\<close> is a statement of memory safety and termination.  Machine
  integers are naturals with the wrap-around written out (\<open>u16\<close>, \<open>u32\<close>, \<open>u64\<close>, \<open>sub32\<close>, \<open>and_not32\<close>).
  Callbacks (\<open>io_read\<close>, the volume operations) are fields or arguments; what they are assumed to do
  is a named hypothesis.  Log messages and freeing memory are not modelled, and allocation failure only
  where the code around it depends on it (Compress).

  \<^bold>\<open>Theories, in the order the code builds on itself.\<close>

  \<^item> Prelude: buffers, little-endian access, machine arithmetic.  Sectors: the loops over sector
    tails that the two fixup implementations share.
  \<^item> Lfs_Layout (logfile_layout.h): offsets, magic numbers, operation codes.
  \<^item> Lfs_Fixup (logfile_pages.c) and Mst (core/ntfs/mst.c): sector protection.  The locale
    \<open>mst_protected\<close> states what a pair of protect/deprotect functions promises and is interpreted for both; the theorems are
    the round trip, detection of torn sectors exactly, and safety on arbitrary bytes.
  \<^item> Lfs_State (logfile_internal.h): the log's state and the LSN arithmetic; \<open>geom_ok\<close> is the
    geometry invariant.  LSN encoding round trip; the end of a record by pages equals the walk byte
    by byte.
  \<^item> Lfs_Tables (logfile_tables.c): restart tables.  \<open>table_inv\<close> ties the bytes to an abstract free
    list; allocation, claiming and release refine operations on it (locale \<open>entry_allocator\<close>), and
    any sequence of them leaves live entries alone.
  \<^item> Lfs_Records, Lfs_Tail, Lfs_Checkpoint (logfile_records.c, logfile_pages.c, logfile_tables.c):
    pages, records, tail scan, checkpoint and the public walk.  Lfs_Walk: on any log content a record
    that is handed out is well-formed, and the walk ends.
  \<^item> Lfs_Open (logfile_open.c): opening a log, its geometry, marking it clean; Lfs_Clean: marking a
    log clean and opening it again reports it clean, for every page size.
  \<^item> Lfs_Overlay (logfile_replay.c): the write-back overlay; its hash table implements a map, and a
    read through it is transparent (locale \<open>cluster_cache\<close>).
  \<^item> Lfs_Checks, Lfs_Runs, Lfs_Action, Lfs_Passes, Lfs_Replay (logfile_replay.c): validation of file
    records and index buffers, run lists and attribute I/O, every redo/undo action, the three
    passes, the flush and the driver.  Attribute writes read back and touch nothing else; the
    volume is written only after every pass has succeeded and no dirty cluster aliases the MFT.
  \<^item> Runlist, Mapping_Pairs, Runlist_Edit (core/ntfs/runlist.c, and the search of attrib.c): run
    lists as arrays.  \<open>runlist_wf\<close> is their invariant and \<open>cluster_of\<close> the map from VCNs to clusters they
    stand for; lookup and the hinted binary search compute it, mapping pairs encode and decode it
    exactly, and truncation, hole punching, collapsing and inserting ranges change exactly what they
    should and hand back exactly the clusters they free.
  \<^item> Lznt1, Lznt1_Compress and Compress (core/ntfs/compress.c): expanding a compression block, compressing
    4096 bytes, and the encoding half of \<open>ntfs_write_cb\<close>.  The format is given by tokens; the compressor
    always ends within its buffers with an encoding of its input, and a block that is stored compressed
    reads back byte by byte.
  \<^item> Unicode (platform/src/unicode.c, the conversions of core/ntfs/unistr.c): names between UTF-8 and
    UTF-16, with the round trips in both directions.
  \<^item> Names (core/ntfs/unistr.c, collate.c, upcase.c): comparison of names and index keys.  The locale
    \<open>collation\<close> states what an index relies on, \<open>lex_collation\<close> that a rule compares lists of numbers
    lexicographically, which gives the former; the four rules are interpretations.
  \<^item> Index_Block and Index_Tree (core/ntfs/index.c): index blocks as bytes and the list of entries
    they hold (\<open>ih_holds\<close>); insertion, deletion and splitting refine list operations and keep the
    order, and the lookup from the root over the blocks \<open>ntfs_ib_read\<close> returns always ends and finds a
    key exactly if the tree (\<open>tree_at\<close>) has it.  What the attribute layer hands over (the value of
    the index root, the content of the index allocation) is an argument.

  \<^bold>\<open>Bounds.\<close>  Loops of the code that are bounded by a counter are recursion on it; loops whose end
  depends on the data are \<open>partial_function (option)\<close> or \<open>function\<close> with a measure, and a theorem
  that they end says so explicitly.  There is no fuel.

  \<^bold>\<open>Findings\<close> proved here: the bounds check of mst.c is one word short; \<open>lfs_table_entry_ok\<close> wraps in
  32 bits; the sign extension of a negative 8-byte offset in \<open>decode_mapping_pairs\<close> shifts by 64;
  \<open>ntfs_mapping_pairs_decompress\<close> reads one byte behind the attribute and refuses holes written for
  old volumes; \<open>ntfs_rl_punch_hole\<close> may write a hole behind the end of the list, and
  \<open>ntfs_rl_insert_range\<close> joins data in the wrong order; an empty name is refused as too long;
  \<open>ntfs_ie_lookup\<close> compares keys that reach behind the block, and tests \<open>memcmp\<close> for \<open>-1\<close>; a compressor
  without memory makes \<open>ntfs_write_cb\<close> write outside its buffer, and \<open>ntfs_decompress\<close> may write one byte
  behind a page.

  \<^bold>\<open>Not modelled.\<close>  Of the journal engine: logfile_analyse.c and logfile_repair.c, which
  run the replay modelled here on a block device (a dry run for a report; a dry run and then the
  real one), and ntfs_image.c, the access to a volume image that they and the tools use.  Of the
  driver: the operations that change an index tree as a whole (adding to a full block, removing an
  entry of an inner node), which resize attributes and allocate clusters, attributes and attribute
  lists, MFT records, cluster allocation, the page and disk handling around compression, mounting, and
  the glue to the VFS shim: they work on in-memory inodes, page-cache folios, locks and reference
  counts, whose model would come first.  Furthermore the Swift application, the command line tools, the
  tests and the unmodified upstream copy.
\<close>

end
